(* ===== verification/Prelude.thy ===== *)
theory Prelude
  imports Main "HOL-Library.Word" "HOL-Library.Multiset" "HOL-Library.Sublist"
begin

text \<open>
  Shared vocabulary of the development: the machine types of the Rust sources, results
  (\<open>Err\<close>/\<open>Ok\<close> as the two sides of a sum), the saturating and checked operations of
  \<open>u64\<close>/\<open>usize\<close>, and the list lemmas that several components use. The collections
  \<open>sat_simps\<close> and \<open>step_simps\<close> carry the arithmetic and the unfolding of the
  components' one-step operations into their proofs.
\<close>

named_theorems sat_simps "arithmetic of saturating and checked machine integers"
named_theorems step_simps "unfolding of one-step operations"

type_synonym byte = "8 word"
type_synonym bytes = "8 word list"
type_synonym u32 = "32 word"
type_synonym u64 = "64 word"
type_synonym ('a, 'e) result = "'e + 'a"

abbreviation Ok :: "'a \<Rightarrow> ('a, 'e) result" where
  "Ok \<equiv> Inr"

abbreviation Err :: "'e \<Rightarrow> ('a, 'e) result" where
  "Err \<equiv> Inl"

definition is_ok :: "('a, 'e) result \<Rightarrow> bool" where
  "is_ok r = (case r of Inl _ \<Rightarrow> False | Inr _ \<Rightarrow> True)"

lemma is_ok_simps [simp]: "is_ok (Ok x)" "\<not> is_ok (Err e)"
  by (simp_all add: is_ok_def)

subsection \<open>Saturating and checked arithmetic\<close>

definition saturating_sub :: "'w::len word \<Rightarrow> 'w word \<Rightarrow> 'w word" where
  "saturating_sub a b = (if b \<le> a then a - b else 0)"

definition saturating_add :: "'w::len word \<Rightarrow> 'w word \<Rightarrow> 'w word" where
  "saturating_add a b = (if unat a + unat b < 2 ^ LENGTH('w) then a + b else - 1)"

definition checked_add :: "'w::len word \<Rightarrow> 'w word \<Rightarrow> 'w word option" where
  "checked_add a b = (if unat a + unat b < 2 ^ LENGTH('w) then Some (a + b) else None)"

lemma unat_saturating_sub [sat_simps]: "unat (saturating_sub a b) = unat a - unat b"
  by (auto simp: saturating_sub_def unat_sub word_le_nat_alt)

lemma unat_minus_one [sat_simps]: "unat (- 1 :: 'w::len word) = 2 ^ LENGTH('w) - 1"
  by (simp add: unsigned_minus_1_eq_mask mask_eq_exp_minus_1)

lemma unat_saturating_add [sat_simps]:
  fixes a b :: "'w::len word"
  shows "unat (saturating_add a b) = min (unat a + unat b) (2 ^ LENGTH('w) - 1)"
  by (auto simp: saturating_add_def unat_minus_one unat_word_ariths min_def)

lemma checked_add_Some:
  "checked_add a b = Some c \<Longrightarrow> unat c = unat a + unat b"
  by (auto simp: checked_add_def unat_word_ariths split: if_splits)

lemma saturating_sub_le: "saturating_sub a b \<le> a"
  by (simp add: word_le_nat_alt unat_saturating_sub)

lemma unat_less_2p [simp]: "unat (a :: 'w::len word) < 2 ^ LENGTH('w)"
  by (rule unsigned_less)

lemma le_saturating_add: "a \<le> saturating_add a b"
  for a b :: "'w::len word"
proof -
  have "unat a \<le> 2 ^ LENGTH('w) - 1"
    using unat_less_2p [of a] by linarith
  then show ?thesis by (simp add: word_le_nat_alt unat_saturating_add)
qed

subsection \<open>Lists\<close>

lemma sum_list_map_append [simp]:
  "sum_list (map f (xs @ ys)) = sum_list (map f xs) + sum_list (map f ys :: 'a::comm_monoid_add list)"
  by simp

lemma subseq_append_left: "subseq xs ys \<Longrightarrow> subseq xs (zs @ ys)"
  by (rule subseq_order.trans [OF _ list_emb_append2]) auto

lemma partition_mset:
  "mset (filter P xs) + mset (filter (\<lambda>x. \<not> P x) xs) = mset xs"
  by (metis multiset_partition mset_filter)

end
