(* ===== verification/Work_Batch.thy ===== *)
theory Work_Batch
  imports Prelude
begin

text \<open>
  The data-plane currency: \<open>src/transport/types.rs\<close> (payload formats, messages, send
  results), \<open>src/transport/traits.rs\<close> (\<open>RecvBatch\<close>, the default \<open>send_batch\<close>) and
  \<open>src/transport/work_batch.rs\<close> (\<open>Record\<close>, \<open>WorkBatch\<close> and the framing helpers that
  slice one inbound blob into records). \<open>Bytes\<close> and \<open>Bytes::slice\<close> are byte lists and
  their sublists: sharing of the allocation is not observable. Strings are \<open>string\<close>.
  The loops over byte offsets are kept as loops over offsets; the lemmas relate them to
  list functions.
\<close>

subsection \<open>Payload formats, messages, send results\<close>

datatype payload_format = Auto | Json | MsgPack

text \<open>\<open>PayloadFormat::detect\<close> looks at the first byte only.\<close>

definition msgpack_lead :: "byte \<Rightarrow> bool" where
  "msgpack_lead b \<longleftrightarrow> (0x80 \<le> b \<and> b \<le> 0x8f) \<or> b = 0xde \<or> b = 0xdf
     \<or> (0x90 \<le> b \<and> b \<le> 0x9f) \<or> b = 0xdc \<or> b = 0xdd"

fun detect :: "bytes \<Rightarrow> payload_format" where
  "detect [] = Json"
| "detect (b # bs) = (if msgpack_lead b then MsgPack else Json)"

record 't message =
  msg_key :: "string option"
  msg_payload :: bytes
  msg_token :: 't
  msg_timestamp_ms :: "int option"
  msg_format :: payload_format

definition message_new ::
  "string option \<Rightarrow> bytes \<Rightarrow> 't \<Rightarrow> int option \<Rightarrow> 't message" where
  "message_new k p t ts = \<lparr>msg_key = k, msg_payload = p, msg_token = t,
     msg_timestamp_ms = ts, msg_format = detect p\<rparr>"

datatype 'e send_result = SendOk | Backpressured | SendFatal 'e | FilteredDlq

subsection \<open>Records and batches\<close>

record record_meta =
  timestamp_ms :: "int option"
  format :: payload_format

record wrecord =
  payload :: bytes
  key :: "string option"
  headers :: "(string \<times> bytes) list"
  metadata :: record_meta

record dlq_entry =
  dlq_payload :: bytes
  dlq_key :: "string option"
  dlq_reason :: string

record 't work_batch =
  records :: "wrecord list"
  commit_tokens :: "'t list"
  dlq_entries :: "dlq_entry list"

record 't recv_batch =
  messages :: "'t message list"
  rb_dlq_entries :: "dlq_entry list"
  filtered_tokens :: "'t list"

definition wb_empty :: "'t work_batch" where
  "wb_empty = \<lparr>records = [], commit_tokens = [], dlq_entries = []\<rparr>"

definition from_records :: "wrecord list \<Rightarrow> 't work_batch" where
  "from_records rs = \<lparr>records = rs, commit_tokens = [], dlq_entries = []\<rparr>"

definition wb_new :: "wrecord list \<Rightarrow> 't list \<Rightarrow> 't work_batch" where
  "wb_new rs ts = \<lparr>records = rs, commit_tokens = ts, dlq_entries = []\<rparr>"

definition with_dlq_entries :: "dlq_entry list \<Rightarrow> 't work_batch \<Rightarrow> 't work_batch" where
  "with_dlq_entries es b = b\<lparr>dlq_entries := es\<rparr>"

definition payload_len :: "wrecord \<Rightarrow> u64" where
  "payload_len r = of_nat (length (payload r))"

text \<open>A saturating sum over \<open>usize\<close> (64 bits).\<close>

definition total_payload_bytes :: "'t work_batch \<Rightarrow> u64" where
  "total_payload_bytes b = foldl saturating_add 0 (map payload_len (records b))"

definition map_records :: "(wrecord list \<Rightarrow> wrecord list) \<Rightarrow> 't work_batch \<Rightarrow> 't work_batch" where
  "map_records f b = b\<lparr>records := f (records b)\<rparr>"

definition bare_record :: "payload_format \<Rightarrow> bytes \<Rightarrow> wrecord" where
  "bare_record fmt p = \<lparr>payload = p, key = None, headers = [],
     metadata = \<lparr>timestamp_ms = None, format = fmt\<rparr>\<rparr>"

definition single :: "bytes \<Rightarrow> 't work_batch" where
  "single blob = from_records [bare_record (detect blob) blob]"

definition record_of_message :: "'t message \<Rightarrow> wrecord" where
  "record_of_message m = \<lparr>payload = msg_payload m, key = msg_key m, headers = [],
     metadata = \<lparr>timestamp_ms = msg_timestamp_ms m, format = msg_format m\<rparr>\<rparr>"

definition from_message :: "'t message \<Rightarrow> 't work_batch" where
  "from_message m = wb_new [record_of_message m] [msg_token m]"

definition from_recv_batch :: "'t recv_batch \<Rightarrow> 't work_batch" where
  "from_recv_batch b =
     \<lparr>records = map record_of_message (messages b),
      commit_tokens = map msg_token (messages b) @ filtered_tokens b,
      dlq_entries = rb_dlq_entries b\<rparr>"

text \<open>
  \<open>TransportSender::send_batch\<close>, the per-record default: a record is sent, suppressed by
  an outbound filter, or stops the block. The transport's \<open>send\<close> is the argument; it
  threads the transport's own state.
\<close>

fun send_batch ::
  "('s \<Rightarrow> string \<Rightarrow> bytes \<Rightarrow> 's \<times> 'e send_result) \<Rightarrow> 's \<Rightarrow> wrecord list \<Rightarrow> 's \<times> 'e send_result" where
  "send_batch send s [] = (s, SendOk)"
| "send_batch send s (r # rs) =
     (let k = (case key r of None \<Rightarrow> '''' | Some k \<Rightarrow> k);
          (s', res) = send s k (payload r)
      in case res of
           SendOk \<Rightarrow> send_batch send s' rs
         | FilteredDlq \<Rightarrow> send_batch send s' rs
         | Backpressured \<Rightarrow> (s', Backpressured)
         | SendFatal e \<Rightarrow> (s', SendFatal e))"

subsection \<open>NDJSON framing\<close>

definition is_ascii_whitespace :: "byte \<Rightarrow> bool" where
  "is_ascii_whitespace b \<longleftrightarrow> b \<in> {0x20, 0x09, 0x0a, 0x0c, 0x0d}"

definition byte_slice :: "bytes \<Rightarrow> nat \<Rightarrow> nat \<Rightarrow> bytes" where
  "byte_slice bs i j = take (j - i) (drop i bs)"

fun trim_end :: "bytes \<Rightarrow> nat \<Rightarrow> nat \<Rightarrow> nat" where
  "trim_end bs start e =
     (if start < e \<and> is_ascii_whitespace (bs ! (e - 1)) then trim_end bs start (e - 1) else e)"

function trim_begin :: "bytes \<Rightarrow> nat \<Rightarrow> nat \<Rightarrow> nat" where
  "trim_begin bs b e =
     (if b < e \<and> is_ascii_whitespace (bs ! b) then trim_begin bs (Suc b) e else b)"
  by pat_completeness auto
termination
  by (relation "measure (\<lambda>(bs, b, e). e - b)") auto

declare trim_end.simps [simp del] trim_begin.simps [simp del]

definition push_ndjson_line :: "wrecord list \<Rightarrow> bytes \<Rightarrow> nat \<Rightarrow> nat \<Rightarrow> wrecord list" where
  "push_ndjson_line rs blob start e0 =
     (let e1 = (if start < e0 \<and> blob ! (e0 - 1) = 0x0d then e0 - 1 else e0);
          e = trim_end blob start e1;
          b = trim_begin blob start e
      in if e \<le> b then rs else rs @ [bare_record Json (byte_slice blob b e)])"

text \<open>
  \<open>memchr::memchr_iter\<close> is the third-party newline search: an argument. Its documented
  behaviour is that it yields every offset of the byte, in increasing order.
\<close>

definition memchr_iter_spec :: "(byte \<Rightarrow> bytes \<Rightarrow> nat list) \<Rightarrow> bool" where
  "memchr_iter_spec m \<longleftrightarrow> (\<forall>c bs. m c bs = filter (\<lambda>i. bs ! i = c) [0..<length bs])"

fun ndjson_loop :: "bytes \<Rightarrow> nat list \<Rightarrow> wrecord list \<times> nat \<Rightarrow> wrecord list \<times> nat" where
  "ndjson_loop blob [] (rs, start) = (rs, start)"
| "ndjson_loop blob (nl # nls) (rs, start) =
     ndjson_loop blob nls (push_ndjson_line rs blob start nl, Suc nl)"

definition from_ndjson :: "(byte \<Rightarrow> bytes \<Rightarrow> nat list) \<Rightarrow> bytes \<Rightarrow> 't work_batch" where
  "from_ndjson memchr_iter blob =
     (let (rs, start) = ndjson_loop blob (memchr_iter 0x0a blob) ([], 0)
      in from_records (if start < length blob
                       then push_ndjson_line rs blob start (length blob) else rs))"

subsection \<open>JSON-array framing\<close>

text \<open>
  The payload of \<open>NotAnArray\<close> is the offending byte (\<open>None\<close>: end of input), which
  determines the message text.
\<close>

datatype framing_error =
    NotAnArray "byte option" | UnexpectedEof | EmptyElement nat | Unbalanced nat
  | TrailingGarbage nat

function skip_ws :: "bytes \<Rightarrow> nat \<Rightarrow> nat" where
  "skip_ws bs i = (if i < length bs \<and> is_ascii_whitespace (bs ! i) then skip_ws bs (Suc i) else i)"
  by pat_completeness auto
termination
  by (relation "measure (\<lambda>(bs, i). length bs - i)") auto

declare skip_ws.simps [simp del]

text \<open>The inner loop: the end of one element, and whether \<open>]\<close> (rather than \<open>,\<close>) ended it.\<close>

function scan_element ::
  "bytes \<Rightarrow> nat \<Rightarrow> nat \<Rightarrow> bool \<Rightarrow> bool \<Rightarrow> (nat \<times> bool, framing_error) result" where
  "scan_element bs i depth in_string escaped =
     (if length bs \<le> i then Err UnexpectedEof
      else let c = bs ! i in
        if in_string then
          (if escaped then scan_element bs (Suc i) depth True False
           else if c = 0x5c then scan_element bs (Suc i) depth True True
           else if c = 0x22 then scan_element bs (Suc i) depth False False
           else scan_element bs (Suc i) depth True False)
        else if c = 0x22 then scan_element bs (Suc i) depth True escaped
        else if c = 0x7b \<or> c = 0x5b then scan_element bs (Suc i) (Suc depth) False escaped
        else if c = 0x7d then
          (if depth = 0 then Err (Unbalanced i)
           else scan_element bs (Suc i) (depth - 1) False escaped)
        else if c = 0x5d then
          (if depth = 0 then Ok (i, True)
           else scan_element bs (Suc i) (depth - 1) False escaped)
        else if c = 0x2c \<and> depth = 0 then Ok (i, False)
        else scan_element bs (Suc i) depth False escaped)"
  by pat_completeness auto
termination
  by (relation "measure (\<lambda>(bs, i, d, s, e). length bs - i)") auto

declare scan_element.simps [simp del]

definition push_element :: "bytes \<Rightarrow> wrecord list \<Rightarrow> nat \<Rightarrow> nat \<Rightarrow> wrecord list" where
  "push_element blob rs start e =
     rs @ [bare_record Json (byte_slice blob start (trim_end blob start e))]"

definition finish :: "bytes \<Rightarrow> wrecord list \<Rightarrow> nat \<Rightarrow> (wrecord list, framing_error) result" where
  "finish blob rs i =
     (let j = skip_ws blob i in if j < length blob then Err (TrailingGarbage j) else Ok rs)"

lemma scan_element_bound:
  "scan_element bs i d s esc = Ok (e, closed) \<Longrightarrow>
     i \<le> e \<and> e < length bs \<and> bs ! e = (if closed then 0x5d else 0x2c)"
proof (induction bs i d s esc rule: scan_element.induct)
  case (1 bs i d s esc)
  from "1.prems" have lt: "\<not> length bs \<le> i"
    by (subst (asm) scan_element.simps) (auto split: if_splits)
  show ?case
    using "1.prems" lt
    apply (subst (asm) scan_element.simps)
    apply (auto simp: Let_def split: if_splits)
    apply (auto dest: "1.IH" [OF lt refl])
    done
qed

lemma skip_ws_ge: "i \<le> skip_ws bs i"
  by (induction bs i rule: skip_ws.induct) (subst skip_ws.simps, auto)

function scan_elements ::
  "bytes \<Rightarrow> nat \<Rightarrow> bool \<Rightarrow> wrecord list \<Rightarrow> (wrecord list, framing_error) result" where
  "scan_elements blob i first_element rs =
     (let i = skip_ws blob i in
      if length blob \<le> i then Err UnexpectedEof
      else if blob ! i = 0x5d then
        (if first_element then finish blob rs (Suc i) else Err (EmptyElement i))
      else if blob ! i = 0x2c then Err (EmptyElement i)
      else case scan_element blob i 0 False False of
             Inl err \<Rightarrow> Err err
           | Inr (e, closed) \<Rightarrow>
               (if closed then finish blob (push_element blob rs i e) (Suc e)
                else scan_elements blob (Suc e) False (push_element blob rs i e)))"
  by pat_completeness auto
termination
proof (relation "measure (\<lambda>(blob, i, f, rs). length blob - i)", goal_cases)
  case 1
  then show ?case by simp
next
  case (2 blob i f rs x y z closed)
  then show ?case
    using scan_element_bound [of blob x 0 False False] skip_ws_ge [of i blob] by fastforce
qed

declare scan_elements.simps [simp del]

definition scan_json_array :: "bytes \<Rightarrow> (wrecord list, framing_error) result" where
  "scan_json_array blob =
     (let i = skip_ws blob 0 in
      if length blob \<le> i then Err (NotAnArray None)
      else if blob ! i \<noteq> 0x5b then Err (NotAnArray (Some (blob ! i)))
      else scan_elements blob (Suc i) True [])"

definition from_json_array :: "bytes \<Rightarrow> ('t work_batch, framing_error) result" where
  "from_json_array blob =
     (case scan_json_array blob of Inl e \<Rightarrow> Err e | Inr rs \<Rightarrow> Ok (from_records rs))"


subsection \<open>Slices and trimming as list functions\<close>

lemma slice_Nil [simp]: "j \<le> i \<Longrightarrow> byte_slice bs i j = []"
  by (simp add: byte_slice_def)

lemma slice_snoc: "i \<le> j \<Longrightarrow> j < length bs \<Longrightarrow> byte_slice bs i (Suc j) = byte_slice bs i j @ [bs ! j]"
  by (simp add: byte_slice_def Suc_diff_le take_Suc_conv_app_nth)

lemma slice_Cons: "i < j \<Longrightarrow> j \<le> length bs \<Longrightarrow> byte_slice bs i j = bs ! i # byte_slice bs (Suc i) j"
  by (simp add: byte_slice_def take_Cons' flip: Cons_nth_drop_Suc)

lemma slice_last:
  "i < j \<Longrightarrow> j \<le> length bs \<Longrightarrow> byte_slice bs i j = byte_slice bs i (j - 1) @ [bs ! (j - 1)]"
  using slice_snoc [of i "j - 1" bs] by simp

lemma slice_nonempty [simp]: "j \<le> length bs \<Longrightarrow> byte_slice bs i j = [] \<longleftrightarrow> j \<le> i"
  by (auto simp: byte_slice_def)

lemma slice_whole: "byte_slice bs i (length bs) = drop i bs"
  by (simp add: byte_slice_def)

lemma slice_append_drop: "i \<le> j \<Longrightarrow> byte_slice bs i j @ drop j bs = drop i bs"
  by (simp add: byte_slice_def) (metis add_diff_inverse_nat append_take_drop_id drop_drop less_imp_le
      linorder_not_less add.commute le_add_diff_inverse2)

lemma slice_split:
  assumes "i \<le> j" and "j \<le> k"
  shows "byte_slice bs i k = byte_slice bs i j @ byte_slice bs j k"
proof -
  have "k - i = (j - i) + (k - j)" using assms by simp
  then have "byte_slice bs i k = take (j - i) (drop i bs) @ take (k - j) (drop (j - i) (drop i bs))"
    by (simp add: byte_slice_def take_add)
  with assms show ?thesis by (simp add: byte_slice_def)
qed

definition trim_right :: "bytes \<Rightarrow> bytes" where
  "trim_right xs = rev (dropWhile is_ascii_whitespace (rev xs))"

definition trim :: "bytes \<Rightarrow> bytes" where
  "trim xs = dropWhile is_ascii_whitespace (trim_right xs)"

lemma trim_right_simps [simp]:
  "trim_right [] = []"
  "trim_right (xs @ [x]) = (if is_ascii_whitespace x then trim_right xs else xs @ [x])"
  by (simp_all add: trim_right_def)

lemma trim_right_single [simp]: "trim_right [x] = (if is_ascii_whitespace x then [] else [x])"
  using trim_right_simps(2) [of "[]" x] by simp

lemma trim_right_id: "xs \<noteq> [] \<Longrightarrow> \<not> is_ascii_whitespace (last xs) \<Longrightarrow> trim_right xs = xs"
  by (cases xs rule: rev_cases) auto

lemma trim_end_spec:
  "start \<le> e \<Longrightarrow> e \<le> length bs \<Longrightarrow>
     start \<le> trim_end bs start e \<and> trim_end bs start e \<le> e
     \<and> byte_slice bs start (trim_end bs start e) = trim_right (byte_slice bs start e)"
proof (induction bs start e rule: trim_end.induct)
  case (1 bs start e)
  show ?case
  proof (cases "start < e \<and> is_ascii_whitespace (bs ! (e - 1))")
    case True
    then have "byte_slice bs start e = byte_slice bs start (e - 1) @ [bs ! (e - 1)]"
      using slice_last [of start e bs] "1.prems" by simp
    moreover from True "1.prems" have "start \<le> e - 1" "e - 1 \<le> length bs"
      by linarith+
    note "1.IH" [OF True this]
    ultimately show ?thesis
      using True by (simp add: trim_end.simps [of bs start e]) linarith
  next
    case False
    show ?thesis
    proof (cases "start < e")
      case lt: True
      then have "byte_slice bs start e = byte_slice bs start (e - 1) @ [bs ! (e - 1)]"
        using slice_last [of start e bs] "1.prems" by simp
      with False lt show ?thesis
        by (simp add: trim_end.simps [of bs start e])
    next
      case ge: False
      with "1.prems" have "e = start" by simp
      moreover from ge have "trim_end bs start e = e"
        by (subst trim_end.simps) auto
      ultimately show ?thesis by simp
    qed
  qed
qed

lemma trim_begin_spec:
  "b \<le> e \<Longrightarrow> e \<le> length bs \<Longrightarrow>
     trim_begin bs b e \<le> e
     \<and> byte_slice bs (trim_begin bs b e) e = dropWhile is_ascii_whitespace (byte_slice bs b e)"
proof (induction bs b e rule: trim_begin.induct)
  case (1 bs b e)
  show ?case
  proof (cases "b < e \<and> is_ascii_whitespace (bs ! b)")
    case True
    with "1.IH" "1.prems" show ?thesis
      by (simp add: trim_begin.simps [of bs b e] slice_Cons [of b e bs])
  next
    case False
    then have "trim_begin bs b e = b" by (subst trim_begin.simps) auto
    with False "1.prems" show ?thesis
      by (cases "b < e") (simp_all add: slice_Cons [of b e bs])
  qed
qed

lemma cr_is_whitespace [simp]: "is_ascii_whitespace 0x0d"
  by (simp add: is_ascii_whitespace_def)

definition line_records :: "bytes \<Rightarrow> wrecord list" where
  "line_records l = (if trim l = [] then [] else [bare_record Json (trim l)])"

lemma push_ndjson_line_eq:
  assumes "start \<le> e" and "e \<le> length blob"
  shows "push_ndjson_line rs blob start e = rs @ line_records (byte_slice blob start e)"
proof -
  define e1 where "e1 = (if start < e \<and> blob ! (e - 1) = 0x0d then e - 1 else e)"
  define e2 where "e2 = trim_end blob start e1"
  have b1: "start \<le> e1" "e1 \<le> length blob"
    using assms by (auto simp: e1_def)
  have "trim_right (byte_slice blob start e1) = trim_right (byte_slice blob start e)"
    using slice_last [of start e blob] assms by (auto simp: e1_def)
  then have s2: "byte_slice blob start e2 = trim_right (byte_slice blob start e)"
    and b2: "start \<le> e2" "e2 \<le> length blob"
    using trim_end_spec [OF b1] b1 by (auto simp: e2_def)
  have s3: "byte_slice blob (trim_begin blob start e2) e2 = trim (byte_slice blob start e)"
    and b3: "trim_begin blob start e2 \<le> e2"
    using trim_begin_spec [OF b2] s2 by (simp_all add: trim_def)
  then have "e2 \<le> trim_begin blob start e2 \<longleftrightarrow> trim (byte_slice blob start e) = []"
    using b2 by (metis slice_nonempty)
  with s3 show ?thesis
    unfolding push_ndjson_line_def line_records_def Let_def e1_def [symmetric] e2_def [symmetric]
    by simp
qed

subsection \<open>NDJSON framing is split, trim, drop the blanks\<close>

fun split_on :: "'a \<Rightarrow> 'a list \<Rightarrow> 'a list list" where
  "split_on c [] = [[]]"
| "split_on c (x # xs) =
     (if x = c then [] # split_on c xs
      else (case split_on c xs of [] \<Rightarrow> [[x]] | l # ls \<Rightarrow> (x # l) # ls))"

lemma split_on_clean: "c \<notin> set xs \<Longrightarrow> split_on c xs = [xs]"
  by (induction xs) auto

lemma split_on_append: "c \<notin> set xs \<Longrightarrow> split_on c (xs @ c # ys) = xs # split_on c ys"
  by (induction xs) auto

lemma filter_upt_Nil: "filter P [a..<b] = [] \<longleftrightarrow> (\<forall>i. a \<le> i \<and> i < b \<longrightarrow> \<not> P i)"
  by (auto simp: filter_empty_conv)

lemma filter_upt_Cons:
  "filter P [a..<b] = n # ns \<Longrightarrow>
     a \<le> n \<and> n < b \<and> P n \<and> (\<forall>i. a \<le> i \<and> i < n \<longrightarrow> \<not> P i) \<and> ns = filter P [Suc n..<b]"
proof (induction "b - a" arbitrary: a)
  case (Suc k)
  then have ab: "[a..<b] = a # [Suc a..<b]" by (simp add: upt_conv_Cons)
  show ?case
  proof (cases "P a")
    case True
    with Suc.prems ab show ?thesis using Suc.hyps(2) by auto
  next
    case False
    with Suc.prems ab have "filter P [Suc a..<b] = n # ns" by simp
    from Suc.hyps(1) [OF _ this] Suc.hyps(2)
    have *: "Suc a \<le> n" "n < b" "P n" "\<forall>i. Suc a \<le> i \<and> i < n \<longrightarrow> \<not> P i"
        "ns = filter P [Suc n..<b]"
      by auto
    moreover have "\<not> P i" if "a \<le> i" "i < n" for i
      using * False that by (cases "i = a") auto
    ultimately show ?thesis by auto
  qed
qed simp

lemma in_set_slice_iff:
  assumes "j \<le> length bs"
  shows "c \<in> set (byte_slice bs i j) \<longleftrightarrow> (\<exists>k. i \<le> k \<and> k < j \<and> bs ! k = c)"
proof
  assume "c \<in> set (byte_slice bs i j)"
  then obtain k where "k < length (byte_slice bs i j)" "byte_slice bs i j ! k = c"
    by (auto simp: in_set_conv_nth)
  then show "\<exists>k. i \<le> k \<and> k < j \<and> bs ! k = c"
    by (intro exI [of _ "i + k"]) (auto simp: byte_slice_def)
next
  assume "\<exists>k. i \<le> k \<and> k < j \<and> bs ! k = c"
  then obtain k where "i \<le> k" "k < j" "bs ! k = c" by auto
  then show "c \<in> set (byte_slice bs i j)"
    using assms by (auto simp: byte_slice_def in_set_conv_nth intro!: exI [of _ "k - i"])
qed

lemma ndjson_loop_eq:
  assumes "start \<le> length blob" and "nls = filter (\<lambda>i. blob ! i = 0x0a) [start..<length blob]"
  shows "(let (rs', k) = ndjson_loop blob nls (rs, start) in
          if k < length blob then push_ndjson_line rs' blob k (length blob) else rs')
    = rs @ concat (map line_records (split_on 0x0a (drop start blob)))"
  using assms
proof (induction nls arbitrary: rs start)
  case Nil
  then have "0x0a \<notin> set (drop start blob)"
    using in_set_slice_iff [of "length blob" blob "0x0a" start] Nil.prems(2) [symmetric]
    unfolding filter_upt_Nil slice_whole by simp
  then have "split_on 0x0a (drop start blob) = [drop start blob]"
    by (rule split_on_clean)
  with Nil.prems(1) show ?case
    by (auto simp: push_ndjson_line_eq slice_whole line_records_def trim_def)
next
  case (Cons nl nls)
  have nl: "start \<le> nl" "nl < length blob" "blob ! nl = 0x0a"
    and before: "\<forall>i. start \<le> i \<and> i < nl \<longrightarrow> blob ! i \<noteq> 0x0a"
    and rest: "nls = filter (\<lambda>i. blob ! i = 0x0a) [Suc nl..<length blob]"
    using filter_upt_Cons [OF Cons.prems(2) [symmetric]] by auto
  have "drop start blob = byte_slice blob start nl @ 0x0a # drop (Suc nl) blob"
    using slice_append_drop [OF nl(1), of blob] nl by (simp flip: Cons_nth_drop_Suc)
  moreover have "0x0a \<notin> set (byte_slice blob start nl)"
    using before nl by (simp add: in_set_slice_iff)
  ultimately have "split_on 0x0a (drop start blob)
      = byte_slice blob start nl # split_on 0x0a (drop (Suc nl) blob)"
    by (simp add: split_on_append)
  with Cons.IH [of "Suc nl" "push_ndjson_line rs blob start nl"] nl rest show ?case
    by (simp add: push_ndjson_line_eq)
qed

lemma from_ndjson_eq:
  assumes "memchr_iter_spec m"
  shows "from_ndjson m blob
    = from_records (concat (map line_records (split_on 0x0a blob)))"
proof -
  have m: "m 0x0a blob = filter (\<lambda>i. blob ! i = 0x0a) [0..<length blob]"
    using assms by (simp add: memchr_iter_spec_def)
  from ndjson_loop_eq [OF _ m, of "[]"] show ?thesis
    by (simp add: from_ndjson_def Let_def case_prod_beta)
qed


subsection \<open>JSON-array framing: what an accepted blob looks like\<close>

fun join :: "'a \<Rightarrow> 'a list list \<Rightarrow> 'a list" where
  "join c [] = []"
| "join c [x] = x"
| "join c (x # y # ys) = x @ c # join c (y # ys)"

lemma join_Cons: "ys \<noteq> [] \<Longrightarrow> join c (x # ys) = x @ c # join c ys"
  by (cases ys) auto

abbreviation blank :: "bytes \<Rightarrow> bool" where
  "blank xs \<equiv> list_all is_ascii_whitespace xs"

lemma skip_ws_spec:
  "i \<le> length bs \<Longrightarrow>
     i \<le> skip_ws bs i \<and> skip_ws bs i \<le> length bs \<and> blank (byte_slice bs i (skip_ws bs i))
     \<and> (skip_ws bs i < length bs \<longrightarrow> \<not> is_ascii_whitespace (bs ! skip_ws bs i))"
proof (induction bs i rule: skip_ws.induct)
  case (1 bs i)
  show ?case
  proof (cases "i < length bs \<and> is_ascii_whitespace (bs ! i)")
    case True
    then have "Suc i \<le> length bs" by simp
    note "1.IH" [OF True this]
    then show ?thesis
      using True by (simp add: skip_ws.simps [of bs i] slice_Cons [of i _ bs])
  next
    case False
    then have "skip_ws bs i = i" by (subst skip_ws.simps) auto
    with False "1.prems" show ?thesis by auto
  qed
qed

lemma trim_right_blank: "blank w \<Longrightarrow> trim_right w = []"
  by (simp add: trim_right_def list_all_iff)

lemma trim_blank: "blank w \<Longrightarrow> trim w = []"
  by (simp add: trim_def trim_right_blank)

lemma trim_right_append: "trim_right x \<noteq> [] \<Longrightarrow> trim_right (w @ x) = w @ trim_right x"
  by (induction x rule: rev_induct) (auto simp flip: append_assoc split: if_splits)

lemma trim_right_hd: "x \<noteq> [] \<Longrightarrow> \<not> is_ascii_whitespace (hd x) \<Longrightarrow>
    trim_right x \<noteq> [] \<and> hd (trim_right x) = hd x"
proof (induction x rule: rev_induct)
  case (snoc b x)
  then show ?case by (cases "x = []") auto
qed simp

lemma dropWhile_blank: "blank w \<Longrightarrow> dropWhile is_ascii_whitespace (w @ x) = dropWhile is_ascii_whitespace x"
  by (induction w) auto

lemma trim_after_blank:
  assumes "blank w" and "x \<noteq> []" and "\<not> is_ascii_whitespace (hd x)"
  shows "trim (w @ x) = trim_right x"
proof -
  note h = trim_right_hd [OF assms(2,3)]
  then have "dropWhile is_ascii_whitespace (trim_right x) = trim_right x"
    using assms(3) by (cases "trim_right x") auto
  with h show ?thesis
    by (simp add: trim_def trim_right_append dropWhile_blank [OF assms(1)])
qed

lemma finish_Ok:
  assumes "finish blob rs i = Ok rs'" and "i \<le> length blob"
  shows "rs' = rs \<and> blank (drop i blob)"
proof -
  from assms(1) have "rs' = rs" and "\<not> skip_ws blob i < length blob"
    by (auto simp: finish_def Let_def split: if_splits)
  with skip_ws_spec [OF assms(2)] show ?thesis
    by (metis le_neq_implies_less slice_whole)
qed

definition framed_as :: "bool \<Rightarrow> bytes list \<Rightarrow> bytes list \<Rightarrow> bool" where
  "framed_as first segs ps \<longleftrightarrow> segs \<noteq> [] \<and>
     ((\<forall>s\<in>set segs. trim s \<noteq> []) \<and> ps = map trim segs
      \<or> first \<and> length segs = 1 \<and> blank (hd segs) \<and> ps = [])"

lemma push_element_payload:
  assumes "i \<le> i1" "i1 < e" "e \<le> length blob" "blank (byte_slice blob i i1)"
    and "\<not> is_ascii_whitespace (blob ! i1)"
  shows "push_element blob rs i1 e = rs @ [bare_record Json (trim (byte_slice blob i e))]
    \<and> trim (byte_slice blob i e) \<noteq> []"
proof -
  have split: "byte_slice blob i e = byte_slice blob i i1 @ byte_slice blob i1 e"
    using assms by (intro slice_split) auto
  have hd: "byte_slice blob i1 e \<noteq> []" "hd (byte_slice blob i1 e) = blob ! i1"
    using assms by (simp_all add: slice_Cons)
  have "trim (byte_slice blob i e) = trim_right (byte_slice blob i1 e)"
    using trim_after_blank [of "byte_slice blob i i1" "byte_slice blob i1 e"] assms hd split by simp
  moreover have "trim_right (byte_slice blob i1 e) \<noteq> []"
    using trim_right_hd hd assms by simp
  ultimately show ?thesis
    using trim_end_spec [of i1 e blob] assms by (simp add: push_element_def)
qed

text \<open>
  The element grammar as a state machine on the list of bytes: the state is the bracket
  depth, whether the scan is inside a string, and whether the previous byte was an
  escaping backslash. \<open>None\<close> is a byte that ends or breaks the element.
\<close>

type_synonym frame_state = "nat \<times> bool \<times> bool"

fun frame_step :: "byte \<Rightarrow> frame_state \<Rightarrow> frame_state option" where
  "frame_step c (d, s, esc) =
     (if s then Some (d, esc \<or> c \<noteq> 0x22, \<not> esc \<and> c = 0x5c)
      else if c = 0x22 then Some (d, True, esc)
      else if c = 0x7b \<or> c = 0x5b then Some (Suc d, False, esc)
      else if c = 0x7d \<or> c = 0x5d then (if d = 0 then None else Some (d - 1, False, esc))
      else if c = 0x2c \<and> d = 0 then None
      else Some (d, False, esc))"

fun frame_run :: "frame_state \<Rightarrow> bytes \<Rightarrow> frame_state option" where
  "frame_run st [] = Some st"
| "frame_run st (c # cs) = (case frame_step c st of None \<Rightarrow> None | Some st' \<Rightarrow> frame_run st' cs)"

definition at_top :: "frame_state option \<Rightarrow> bool" where
  "at_top r = (case r of None \<Rightarrow> False | Some (d, s, esc) \<Rightarrow> d = 0 \<and> \<not> s)"

definition balanced :: "bytes \<Rightarrow> bool" where
  "balanced seg = at_top (frame_run (0, False, False) seg)"

lemma at_top_simps [simp]:
  "\<not> at_top None" "at_top (Some (d, s, esc)) \<longleftrightarrow> d = 0 \<and> \<not> s"
  by (simp_all add: at_top_def)

lemma frame_run_append:
  "frame_run st (xs @ ys) = (case frame_run st xs of None \<Rightarrow> None | Some st' \<Rightarrow> frame_run st' ys)"
  by (induction st xs rule: frame_run.induct) (auto split: option.splits)

lemma ws_frame_step: "is_ascii_whitespace c \<Longrightarrow> frame_step c (d, False, esc) = Some (d, False, esc)"
  by (auto simp: is_ascii_whitespace_def)

lemma frame_run_blank: "blank w \<Longrightarrow> frame_run (d, False, esc) w = Some (d, False, esc)"
  by (induction w) (auto simp: ws_frame_step simp del: frame_step.simps)

lemma balanced_blank_prefix: "blank w \<Longrightarrow> balanced (w @ x) = balanced x"
  by (simp add: balanced_def frame_run_append frame_run_blank)

text \<open>The offset loop runs exactly this machine.\<close>

lemma scan_element_step:
  assumes "i < length bs"
  shows "scan_element bs i d s esc = (case frame_step (bs ! i) (d, s, esc) of
      None \<Rightarrow> if bs ! i = 0x7d then Err (Unbalanced i) else Ok (i, bs ! i = 0x5d)
    | Some (d', s', esc') \<Rightarrow> scan_element bs (Suc i) d' s' esc')"
  using assms by (subst scan_element.simps) (simp add: Let_def)

lemma frame_step_None:
  "frame_step c (d, s, esc) = None \<longleftrightarrow> d = 0 \<and> \<not> s \<and> c \<in> {0x7d, 0x5d, 0x2c}"
  by auto

lemma scan_element_iff:
  "scan_element bs i d s esc = Ok (e, closed) \<longleftrightarrow>
     i \<le> e \<and> e < length bs \<and> bs ! e = (if closed then 0x5d else 0x2c)
     \<and> at_top (frame_run (d, s, esc) (byte_slice bs i e))"
proof (induction "length bs - i" arbitrary: i d s esc)
  case 0
  then show ?case by (subst scan_element.simps) auto
next
  case (Suc n)
  then have i: "i < length bs" and n: "n = length bs - Suc i" by simp_all
  note IH = Suc.hyps(1) [OF n]
  show ?case
  proof (cases "frame_step (bs ! i) (d, s, esc)")
    case None
    then have d: "d = 0" "\<not> s" "bs ! i \<in> {0x7d, 0x5d, 0x2c}"
      unfolding frame_step_None by auto
    have "\<not> at_top (frame_run (d, s, esc) (byte_slice bs i e))" if "i < e" "e < length bs"
      using that None by (simp add: slice_Cons [of i e bs] del: frame_step.simps)
    then show ?thesis
      using None d i
      by (cases "e = i") (auto simp: scan_element_step nat_less_le simp del: frame_step.simps)
  next
    case (Some st)
    obtain d' s' esc' where st: "st = (d', s', esc')" by (cases st)
    have "at_top (frame_run (d, s, esc) (byte_slice bs i e))
        = at_top (frame_run st (byte_slice bs (Suc i) e))" if "i < e" "e < length bs"
      using that Some by (simp add: slice_Cons [of i e bs] del: frame_step.simps)
    moreover have "\<not> (d = 0 \<and> \<not> s \<and> bs ! i = (if closed then 0x5d else 0x2c))"
      using Some frame_step_None [of "bs ! i" d s esc] by (auto simp del: frame_step.simps)
    ultimately show ?thesis
      using Some st i IH [of d' s' esc']
      by (cases "e = i") (auto simp: scan_element_step Suc_le_eq simp del: frame_step.simps)
  qed
qed

subsection \<open>An accepted JSON array, both ways\<close>

lemma drop_at:
  assumes "drop i bs = a @ b"
  shows "byte_slice bs i (i + length a) = a" and "drop (i + length a) bs = b"
proof -
  show "byte_slice bs i (i + length a) = a" by (simp add: byte_slice_def assms)
  show "drop (i + length a) bs = b"
    using assms by (metis add.commute append_eq_conv_conj drop_drop)
qed

lemma nth_of_drop:
  assumes "drop i bs = x # r"
  shows "i < length bs" and "bs ! i = x" and "drop (Suc i) bs = r"
proof -
  show lt: "i < length bs" using assms by (metis drop_all list.distinct(1) not_le)
  show "bs ! i = x" and "drop (Suc i) bs = r"
    using assms Cons_nth_drop_Suc [OF lt] by simp_all
qed

lemma skip_ws_blank:
  "drop i bs = w @ r \<Longrightarrow> blank w \<Longrightarrow> (r = [] \<Longrightarrow> i + length w = length bs) \<Longrightarrow>
     (r \<noteq> [] \<Longrightarrow> \<not> is_ascii_whitespace (hd r)) \<Longrightarrow> skip_ws bs i = i + length w"
proof (induction w arbitrary: i)
  case Nil
  show ?case
  proof (cases r)
    case Nil
    with Nil.prems show ?thesis by (subst skip_ws.simps) simp
  next
    case (Cons x r')
    with Nil.prems nth_of_drop [of i bs x r'] show ?thesis by (subst skip_ws.simps) simp
  qed
next
  case (Cons a w)
  then have "i < length bs \<and> is_ascii_whitespace (bs ! i)" and "drop (Suc i) bs = w @ r"
    using nth_of_drop [of i bs a "w @ r"] by simp_all
  with Cons show ?case by (subst skip_ws.simps) simp
qed

lemma finish_blank:
  assumes "drop i bs = w" and "blank w" and "i \<le> length bs"
  shows "finish bs rs i = Ok rs"
proof -
  have "i + length w = length bs" using assms(1,3) by auto
  then have "skip_ws bs i = length bs"
    using skip_ws_blank [of i bs w "[]"] assms by simp
  then show ?thesis by (simp add: finish_def)
qed

lemma trim_nonempty_split:
  assumes "trim s \<noteq> []"
  obtains w x s' where "s = w @ x # s'" "blank w" "\<not> is_ascii_whitespace x"
proof -
  have "dropWhile is_ascii_whitespace s \<noteq> []"
    using assms trim_blank [of s] by (auto simp: dropWhile_eq_Nil_conv list_all_iff)
  then obtain x s' where x: "dropWhile is_ascii_whitespace s = x # s'"
    by (cases "dropWhile is_ascii_whitespace s") auto
  then have "s = takeWhile is_ascii_whitespace s @ x # s'"
    by (metis takeWhile_dropWhile_id)
  moreover have "\<not> is_ascii_whitespace x"
    using x by (metis hd_dropWhile list.distinct(1) list.sel(1))
  moreover have "blank (takeWhile is_ascii_whitespace s)"
    by (auto simp: list_all_iff dest: set_takeWhileD)
  ultimately show ?thesis using that by blast
qed

lemma balanced_hd: "balanced (x # s) \<Longrightarrow> x \<notin> {0x7d, 0x5d, 0x2c}"
  by (auto simp: balanced_def)

lemma scan_elements_segment:
  assumes d: "drop i blob = s @ c # r" and c: "c = (if closed then 0x5d else 0x2c)"
    and s: "balanced s" "trim s \<noteq> []"
  shows "scan_elements blob i first rs =
    (let rs' = rs @ [bare_record Json (trim s)]; j = Suc (i + length s)
     in if closed then finish blob rs' j else scan_elements blob j False rs')"
proof -
  obtain w x s' where w: "s = w @ x # s'" "blank w" "\<not> is_ascii_whitespace x"
    using trim_nonempty_split [OF s(2)] .
  define i1 e where "i1 = i + length w" and "e = i + length s"
  have d1: "drop i blob = w @ (x # s' @ c # r)" using d w by simp
  have sk: "skip_ws blob i = i1"
    using skip_ws_blank [OF d1 w(2)] w(3) by (simp add: i1_def)
  have x: "i1 < length blob" "blob ! i1 = x"
    using nth_of_drop [OF drop_at(2) [OF d1, simplified]] by (simp_all add: i1_def)
  have e: "e < length blob" "blob ! e = c"
    using nth_of_drop [OF drop_at(2) [OF d]] by (simp_all add: e_def)
  have "drop i1 blob = (x # s') @ c # r"
    using drop_at(2) [OF d1] by (simp add: i1_def)
  from drop_at(1) [OF this] have sl: "byte_slice blob i1 e = x # s'"
    using w(1) by (simp add: i1_def e_def algebra_simps)
  have bal: "balanced (x # s')" using s(1) w by (simp add: balanced_blank_prefix)
  have le: "i \<le> i1" "i1 < e" using w(1) by (simp_all add: i1_def e_def)
  have scan: "scan_element blob i1 0 False False = Ok (e, closed)"
    unfolding scan_element_iff using le e c sl bal by (simp add: balanced_def)
  have "blank (byte_slice blob i i1)" using drop_at(1) [OF d1] w(2) by (simp add: i1_def)
  moreover have "byte_slice blob i e = s" using drop_at(1) [OF d] by (simp add: e_def)
  ultimately have "push_element blob rs i1 e = rs @ [bare_record Json (trim s)]"
    using push_element_payload [of i i1 e blob rs] le e w(3) x by simp
  then show ?thesis
    using sk x scan balanced_hd [OF bal] by (subst scan_elements.simps) (simp add: Let_def e_def)
qed

lemma scan_elements_complete:
  assumes "drop i blob = join 0x2c segs @ 0x5d # w" and "blank w"
    and "framed_as first segs ps" and "list_all balanced segs"
  shows "scan_elements blob i first rs = Ok (rs @ map (bare_record Json) ps)"
  using assms
proof (induction segs arbitrary: i first rs ps)
  case Nil
  then show ?case by (simp add: framed_as_def)
next
  case (Cons s segs)
  show ?case
  proof (cases "first \<and> segs = [] \<and> blank s")
    case True
    then have "trim s = []" by (simp add: trim_blank)
    with Cons.prems(3) have "ps = []" by (simp add: framed_as_def)
    have d: "drop i blob = s @ 0x5d # w" using Cons.prems True by simp
    have "skip_ws blob i = i + length s"
      using skip_ws_blank [OF d] True by (simp add: is_ascii_whitespace_def)
    moreover note nth_of_drop [OF drop_at(2) [OF d]]
    ultimately show ?thesis
      using finish_blank [of "Suc (i + length s)" blob w rs] Cons.prems(2) True \<open>ps = []\<close>
      by (subst scan_elements.simps) (simp add: Let_def)
  next
    case False
    with Cons.prems(3) have s: "trim s \<noteq> []" "ps = trim s # map trim segs"
      "\<forall>s\<in>set segs. trim s \<noteq> []"
      by (auto simp: framed_as_def)
    have bal: "balanced s" "list_all balanced segs" using Cons.prems(4) by simp_all
    show ?thesis
    proof (cases "segs = []")
      case True
      then have d: "drop i blob = s @ 0x5d # w" using Cons.prems by simp
      with nth_of_drop [OF drop_at(2) [OF d]]
        scan_elements_segment [of i blob s "0x5d" w True first rs] bal s True Cons.prems(2)
      show ?thesis by (simp add: Let_def finish_blank)
    next
      case False
      then have d: "drop i blob = s @ 0x2c # (join 0x2c segs @ 0x5d # w)"
        using Cons.prems by (simp add: join_Cons)
      have d2: "drop (Suc (i + length s)) blob = join 0x2c segs @ 0x5d # w"
        using nth_of_drop [OF drop_at(2) [OF d]] by simp
      have "framed_as False segs (map trim segs)" using False s by (simp add: framed_as_def)
      from Cons.IH [OF d2 Cons.prems(2) this bal(2)] show ?thesis
        using scan_elements_segment [OF d, of False first rs] bal s by (simp add: Let_def)
    qed
  qed
qed

lemma framed_as_Cons:
  "trim s \<noteq> [] \<Longrightarrow> framed_as False segs ps \<Longrightarrow> framed_as f (s # segs) (trim s # ps)"
  by (auto simp: framed_as_def)

lemma framed_as_single: "trim s \<noteq> [] \<Longrightarrow> framed_as f [s] [trim s]"
  by (auto simp: framed_as_def)

lemma scan_elements_sound:
  assumes "scan_elements blob i first rs = Ok rs'" and "i \<le> length blob"
  shows "\<exists>segs ps w. drop i blob = join 0x2c segs @ 0x5d # w \<and> blank w \<and> framed_as first segs ps
    \<and> list_all balanced segs \<and> rs' = rs @ map (bare_record Json) ps"
  using assms
proof (induction blob i first rs rule: scan_elements.induct)
  case (1 blob i first rs)
  define i1 where "i1 = skip_ws blob i"
  note sk = skip_ws_spec [OF "1.prems"(2), folded i1_def]
  have i1: "i1 < length blob"
    using "1.prems"(1) by (subst (asm) scan_elements.simps) (simp add: i1_def Let_def split: if_splits)
  show ?case
  proof (cases "blob ! i1 = 0x5d")
    case True
    with "1.prems"(1) i1 have f: "first" "finish blob rs (Suc i1) = Ok rs'"
      by (subst (asm) scan_elements.simps; simp add: i1_def Let_def split: if_splits)+
    have "drop i blob = byte_slice blob i i1 @ 0x5d # drop (Suc i1) blob"
      using slice_append_drop [of i i1 blob] sk i1 True by (simp flip: Cons_nth_drop_Suc)
    moreover have "balanced (byte_slice blob i i1)"
      using balanced_blank_prefix [of "byte_slice blob i i1" "[]"] sk by (simp add: balanced_def)
    ultimately show ?thesis
      using f sk finish_Ok [OF f(2)] i1
      by (intro exI [of _ "[byte_slice blob i i1]"] exI [of _ "[]"] exI [of _ "drop (Suc i1) blob"])
        (auto simp: framed_as_def)
  next
    case False
    obtain e closed where scan: "scan_element blob i1 0 False False = Ok (e, closed)"
      and rest: "(if closed then finish blob (push_element blob rs i1 e) (Suc e)
                  else scan_elements blob (Suc e) False (push_element blob rs i1 e)) = Ok rs'"
      and ne: "blob ! i1 \<noteq> 0x2c"
      using "1.prems"(1) False i1
      by (subst (asm) scan_elements.simps)
        (auto simp: i1_def [symmetric] Let_def split: if_splits sum.splits)
    have e: "i1 < e" "e < length blob" "blob ! e = (if closed then 0x5d else 0x2c)"
      and top: "at_top (frame_run (0, False, False) (byte_slice blob i1 e))"
      using scan [unfolded scan_element_iff] False ne by (auto simp: le_less split: if_splits)
    define s where "s = byte_slice blob i e"
    have push: "push_element blob rs i1 e = rs @ [bare_record Json (trim s)]" "trim s \<noteq> []"
      using push_element_payload [of i i1 e blob rs] sk e i1 by (auto simp: s_def)
    have bal: "balanced s"
      using balanced_blank_prefix [of "byte_slice blob i i1" "byte_slice blob i1 e"] sk e top
        slice_split [of i i1 e blob] by (simp add: s_def balanced_def)
    have d: "drop i blob = s @ (if closed then 0x5d else 0x2c) # drop (Suc e) blob"
      using slice_append_drop [of i e blob] sk e by (simp add: s_def flip: Cons_nth_drop_Suc)
    show ?thesis
    proof (cases closed)
      case True
      with rest push finish_Ok [of blob _ "Suc e" rs'] e d bal show ?thesis
        by (intro exI [of _ "[s]"] exI [of _ "[trim s]"] exI [of _ "drop (Suc e) blob"])
          (auto simp: framed_as_single)
    next
      case cont: False
      have "scan_elements blob (Suc e) False (push_element blob rs i1 e) = Ok rs'"
        using rest cont by simp
      from "1.IH" [OF i1_def _ False ne, of "(e, closed)" e closed] this e i1 scan cont
      obtain segs ps w where *: "drop (Suc e) blob = join 0x2c segs @ 0x5d # w" "blank w"
          "framed_as False segs ps" "list_all balanced segs"
          "rs' = push_element blob rs i1 e @ map (bare_record Json) ps"
        by auto
      then have "segs \<noteq> []" by (simp add: framed_as_def)
      with * d cont push bal show ?thesis
        by (intro exI [of _ "s # segs"] exI [of _ "trim s # ps"] exI [of _ w])
          (auto simp: join_Cons framed_as_Cons)
    qed
  qed
qed

definition json_array_of :: "bytes \<Rightarrow> bytes list \<Rightarrow> bool" where
  "json_array_of blob ps \<longleftrightarrow> (\<exists>w1 segs w2.
     blob = w1 @ 0x5b # join 0x2c segs @ 0x5d # w2 \<and> blank w1 \<and> blank w2
     \<and> framed_as True segs ps \<and> list_all balanced segs)"

lemma scan_json_array_iff:
  "scan_json_array blob = Ok rs \<longleftrightarrow> (\<exists>ps. json_array_of blob ps \<and> rs = map (bare_record Json) ps)"
proof
  assume ok: "scan_json_array blob = Ok rs"
  define i where "i = skip_ws blob 0"
  have i: "i < length blob" "blob ! i = 0x5b" "scan_elements blob (Suc i) True [] = Ok rs"
    using ok by (auto simp: scan_json_array_def i_def Let_def split: if_splits)
  then have "blob = byte_slice blob 0 i @ 0x5b # drop (Suc i) blob"
    using slice_append_drop [of 0 i blob] by (simp flip: Cons_nth_drop_Suc)
  moreover have "blank (byte_slice blob 0 i)" using skip_ws_spec [of 0 blob] by (simp add: i_def)
  moreover note scan_elements_sound [OF i(3)]
  ultimately show "\<exists>ps. json_array_of blob ps \<and> rs = map (bare_record Json) ps"
    using i(1) unfolding json_array_of_def by force
next
  assume "\<exists>ps. json_array_of blob ps \<and> rs = map (bare_record Json) ps"
  then obtain w1 segs w2 ps where b: "blob = w1 @ 0x5b # join 0x2c segs @ 0x5d # w2"
    "blank w1" "blank w2" "framed_as True segs ps" "list_all balanced segs"
    and rs: "rs = map (bare_record Json) ps"
    unfolding json_array_of_def by auto
  have "drop 0 blob = w1 @ (0x5b # join 0x2c segs @ 0x5d # w2)" using b(1) by simp
  from skip_ws_blank [OF this b(2)] have sk: "skip_ws blob 0 = length w1"
    by (simp add: is_ascii_whitespace_def)
  have "drop (Suc (length w1)) blob = join 0x2c segs @ 0x5d # w2" using b(1) by simp
  from scan_elements_complete [OF this b(3,4,5), of "[]"] show "scan_json_array blob = Ok rs"
    using sk b(1) rs by (simp add: scan_json_array_def)
qed

subsection \<open>Properties of the framing helpers\<close>

text \<open>C20. \<open>WorkBatch::from_json_array\<close> accepts exactly the blobs of the shape
  whitespace, \<open>[\<close>, elements separated by commas, \<open>]\<close>, whitespace, where every element is
  balanced (brackets matched outside strings, no comma at depth 0, strings closed) and
  not blank (the empty array aside), and its records are the trimmed elements in order,
  with no commit token and no DLQ entry.\<close>

theorem json_array_framing_exact:
  "from_json_array blob = Ok b \<longleftrightarrow>
     (\<exists>ps. json_array_of blob ps \<and> b = from_records (map (bare_record Json) ps))"
proof -
  have "from_json_array blob = Ok b \<longleftrightarrow> (\<exists>rs. scan_json_array blob = Ok rs \<and> b = from_records rs)"
    by (auto simp: from_json_array_def split: sum.splits)
  then show ?thesis unfolding scan_json_array_iff by blast
qed

definition no_outer_ws :: "bytes \<Rightarrow> bool" where
  "no_outer_ws e \<longleftrightarrow> e \<noteq> [] \<and> \<not> is_ascii_whitespace (hd e) \<and> \<not> is_ascii_whitespace (last e)"

lemma trim_no_outer_ws:
  assumes "no_outer_ws e" and "blank w1" and "blank w2"
  shows "trim (w1 @ e @ w2) = e"
proof -
  have "trim_right (w1 @ e @ w2) = w1 @ e"
  proof -
    have "trim_right (xs @ w2) = trim_right xs" for xs
      using assms(3) by (simp add: trim_right_def dropWhile_append list_all_iff)
    from this [of "w1 @ e"] show ?thesis
      using assms(1) trim_right_id [of "w1 @ e"] by (simp add: no_outer_ws_def)
  qed
  then show ?thesis
    using assms by (cases e) (simp_all add: trim_def dropWhile_blank no_outer_ws_def)
qed

text \<open>Round trip: a JSON array printed from balanced elements that start and end with
  a non-blank byte, with any whitespace around each element, is split back into exactly
  those elements.\<close>

theorem json_array_roundtrip:
  assumes "blank w1" and "blank w2"
    and "list_all (\<lambda>(a, e, b). blank a \<and> blank b \<and> no_outer_ws e \<and> balanced e) es"
  shows "from_json_array
      (w1 @ 0x5b # join 0x2c (map (\<lambda>(a, e, b). a @ e @ b) es) @ 0x5d # w2)
    = Ok (from_records (map (\<lambda>(a, e, b). bare_record Json e) es))"
proof -
  let ?segs = "if es = [] then [[]] else map (\<lambda>(a, e, b). a @ e @ b) es"
  have tr: "\<forall>x\<in>set es. case x of (a, e, b) \<Rightarrow> trim (a @ e @ b) = e \<and> e \<noteq> [] \<and> balanced (a @ e @ b)"
  proof (clarify, intro conjI)
    fix a e b assume "(a, e, b) \<in> set es"
    then have x: "blank a" "blank b" "no_outer_ws e" "balanced e"
      using assms(3) by (auto simp: list_all_iff)
    show "trim (a @ e @ b) = e" "e \<noteq> []"
      using x trim_no_outer_ws [of e a b] by (auto simp: no_outer_ws_def)
    show "balanced (a @ e @ b)"
      using x by (auto simp: balanced_blank_prefix balanced_def frame_run_append frame_run_blank
          at_top_def split: option.splits)
  qed
  have "framed_as True ?segs (map (\<lambda>(a, e, b). e) es)"
    using tr by (fastforce simp: framed_as_def)
  moreover have "list_all balanced ?segs"
    using tr by (auto simp: list_all_iff balanced_def)
  ultimately have "json_array_of
      (w1 @ 0x5b # join 0x2c (map (\<lambda>(a, e, b). a @ e @ b) es) @ 0x5d # w2) (map (\<lambda>(a, e, b). e) es)"
    unfolding json_array_of_def using assms(1,2)
    by (intro exI [of _ w1] exI [of _ ?segs] exI [of _ w2]) auto
  then have "scan_json_array (w1 @ 0x5b # join 0x2c (map (\<lambda>(a, e, b). a @ e @ b) es) @ 0x5d # w2)
      = Ok (map (bare_record Json) (map (\<lambda>(a, e, b). e) es))"
    unfolding scan_json_array_iff by blast
  moreover have "map (bare_record Json) (map (\<lambda>(a, e, b). e) es) = map (\<lambda>(a, e, b). bare_record Json e) es"
    by auto
  ultimately show ?thesis
    unfolding from_json_array_def by (simp only: sum.case)
qed

theorem json_array_roundtrip_witness:
  "from_json_array [0x20, 0x5b, 0x7b, 0x22, 0x2c, 0x5c, 0x22, 0x22, 0x7d, 0x0a, 0x2c, 0x20, 0x31, 0x5d]
   = Ok (from_records [bare_record Json [0x7b, 0x22, 0x2c, 0x5c, 0x22, 0x22, 0x7d],
                       bare_record Json [0x31]])"
  using json_array_roundtrip [of "[0x20]" "[]"
      "[([], [0x7b, 0x22, 0x2c, 0x5c, 0x22, 0x22, 0x7d], [0x0a]), ([0x20], [0x31], [])]"]
  by (simp add: is_ascii_whitespace_def no_outer_ws_def balanced_def)

lemma line_records_pad:
  "blank w1 \<Longrightarrow> blank w2 \<Longrightarrow> no_outer_ws l \<Longrightarrow> line_records (w1 @ l @ w2) = [bare_record Json l]"
  by (simp add: line_records_def trim_no_outer_ws) (simp add: no_outer_ws_def)

lemma line_records_blank: "blank w \<Longrightarrow> line_records w = []"
  by (simp add: line_records_def trim_blank)

definition ndjson_line :: "bytes \<times> bytes \<times> bool \<Rightarrow> bytes" where
  "ndjson_line = (\<lambda>(w, l, crlf). w @ l @ (if crlf then [0x0d] else []))"

definition wf_line :: "bytes \<times> bytes \<times> bool \<Rightarrow> bool" where
  "wf_line = (\<lambda>(w, l, crlf). blank w \<and> 0x0a \<notin> set w \<and> 0x0a \<notin> set l \<and> (l = [] \<or> no_outer_ws l))"

lemma ndjson_line_records:
  "wf_line x \<Longrightarrow> line_records (ndjson_line x)
    = (if fst (snd x) = [] then [] else [bare_record Json (fst (snd x))])"
  by (cases x) (auto simp: wf_line_def ndjson_line_def line_records_blank line_records_pad
      line_records_pad [of _ "[]", simplified])

lemma split_on_lines:
  "\<forall>l\<in>set ls. c \<notin> set l \<Longrightarrow> split_on c (concat (map (\<lambda>l. l @ [c]) ls)) = ls @ [[]]"
  by (induction ls) (auto simp: split_on_append)

text \<open>NDJSON round trip: lines that hold no line feed and no outer whitespace, each
  ended by LF or CRLF and possibly indented, interleaved with blank lines, are split back
  into exactly the non-blank lines, whatever search \<open>memchr_iter\<close> is, as long as it yields
  the line-feed offsets in order.\<close>

theorem ndjson_roundtrip:
  assumes "memchr_iter_spec m" and "list_all wf_line ls"
  shows "from_ndjson m (concat (map (\<lambda>x. ndjson_line x @ [0x0a]) ls))
    = from_records (map (bare_record Json) (filter (\<lambda>l. l \<noteq> []) (map (\<lambda>(w, l, crlf). l) ls)))"
proof -
  have "\<forall>l\<in>set (map ndjson_line ls). 0x0a \<notin> set l"
    using assms(2) by (auto simp: list_all_iff wf_line_def ndjson_line_def split: if_splits)
  from split_on_lines [OF this] have s: "split_on 0x0a (concat (map (\<lambda>x. ndjson_line x @ [0x0a]) ls))
      = map ndjson_line ls @ [[]]"
    by (simp add: comp_def)
  have "concat (map line_records (map ndjson_line ls))
      = map (bare_record Json) (filter (\<lambda>l. l \<noteq> []) (map (\<lambda>(w, l, crlf). l) ls))"
    using assms(2) by (induction ls) (auto simp: ndjson_line_records)
  then show ?thesis
    unfolding from_ndjson_eq [OF assms(1)] s
    by (simp add: line_records_blank)
qed

theorem ndjson_roundtrip_witness:
  "from_ndjson (\<lambda>c bs. filter (\<lambda>i. bs ! i = c) [0..<length bs]) [0x31, 0x0d, 0x0a, 0x20, 0x0a, 0x09, 0x7b, 0x0a]
   = from_records [bare_record Json [0x31], bare_record Json [0x7b]]"
  using ndjson_roundtrip [of "\<lambda>c bs. filter (\<lambda>i. bs ! i = c) [0..<length bs]"
      "[([], [0x31], True), ([0x20], [], False), ([0x09], [0x7b], False)]"]
  by (simp add: memchr_iter_spec_def wf_line_def ndjson_line_def is_ascii_whitespace_def no_outer_ws_def)

subsection \<open>Payload accounting and the default batch send\<close>

lemma foldl_saturating_add:
  "unat (foldl saturating_add (a :: u64) xs) = min (unat a + sum_list (map unat xs)) (2 ^ 64 - 1)"
proof (induction xs arbitrary: a)
  case Nil
  then show ?case using unat_less_2p [of a] by simp
next
  case (Cons x xs)
  then show ?case by (simp add: unat_saturating_add)
qed

text \<open>\<open>total_payload_bytes\<close>, which sizes every memory lease, is the sum of the payload
  lengths, capped at the largest \<open>usize\<close> instead of wrapping.\<close>

theorem total_payload_bytes_saturates:
  assumes "list_all (\<lambda>r. length (payload r) < 2 ^ 64) (records b)"
  shows "unat (total_payload_bytes b)
    = min (sum_list (map (length \<circ> payload) (records b))) (2 ^ 64 - 1)"
proof -
  have "map (unat \<circ> payload_len) (records b) = map (length \<circ> payload) (records b)"
    using assms by (auto simp: list_all_iff payload_len_def unat_of_nat take_bit_eq_mod)
  then show ?thesis
    unfolding total_payload_bytes_def foldl_saturating_add map_map by (simp only:) simp
qed

theorem total_payload_bytes_saturates_witness:
  "unat (total_payload_bytes (from_records [bare_record Json [1, 2], bare_record Json [3]] :: nat work_batch)) = 3"
  using total_payload_bytes_saturates [of "from_records [bare_record Json [1, 2], bare_record Json [3]] :: nat work_batch"]
  by (simp add: from_records_def bare_record_def)

text \<open>The sends of a block if nothing stopped it: the state and result after each.\<close>

fun sends ::
  "('s \<Rightarrow> string \<Rightarrow> bytes \<Rightarrow> 's \<times> 'e send_result) \<Rightarrow> 's \<Rightarrow> wrecord list \<Rightarrow> ('s \<times> 'e send_result) list" where
  "sends send s [] = []"
| "sends send s (r # rs) =
     (let x = send s (case key r of None \<Rightarrow> [] | Some k \<Rightarrow> k) (payload r)
      in x # sends send (fst x) rs)"

definition accepted :: "'e send_result \<Rightarrow> bool" where
  "accepted r = (case r of SendOk \<Rightarrow> True | FilteredDlq \<Rightarrow> True | _ \<Rightarrow> False)"

lemma accepted_simps [simp]:
  "accepted SendOk" "accepted FilteredDlq" "\<not> accepted Backpressured" "\<not> accepted (SendFatal e)"
  by (simp_all add: accepted_def)

text \<open>The default \<open>send_batch\<close> sends the records in order and stops at the first one
  that is neither sent nor suppressed by an outbound filter, returning that result; it
  returns \<open>Ok\<close> only when every record of the block was accepted.\<close>

theorem send_batch_stops_at_first_refusal:
  "send_batch send s rs =
     (case dropWhile (\<lambda>x. accepted (snd x)) (sends send s rs) of
        [] \<Rightarrow> (last (s # map fst (sends send s rs)), SendOk)
      | x # _ \<Rightarrow> x)"
proof (induction rs arbitrary: s)
  case (Cons r rs)
  obtain s' res where x: "send s (case key r of None \<Rightarrow> [] | Some k \<Rightarrow> k) (payload r) = (s', res)"
    by (cases "send s (case key r of None \<Rightarrow> [] | Some k \<Rightarrow> k) (payload r)")
  then have l: "last (s # map fst (sends send s (r # rs))) = last (s' # map fst (sends send s' rs))"
    by (simp add: Let_def)
  show ?case
    unfolding l using x by (cases res) (simp_all add: Cons.IH [of s'] Let_def)
qed simp

end
