(* ===== verification/Filter_Engine.thy ===== *)
theory Filter_Engine
  imports Work_Batch
begin

text \<open>
  The transport filter engine, \<open>src/transport/filter/{config,classify,budget,compiled,mod}.rs\<close>:
  rules are classified into tiers, checked against the tier gates and the CEL budget,
  compiled, and applied to raw payloads, first match wins. The regular expressions, the
  substring search (\<open>memmem\<close>), the lazy JSON lookup (\<open>sonic_rs\<close>) and the CEL compiler and
  evaluator are a record of functions. Metrics counters and log lines are left out.
\<close>

subsection \<open>Rules, tiers, gates\<close>

datatype filter_action = ActDrop | ActDlq
datatype filter_tier = Tier1 | Tier2 | Tier3
datatype filter_direction = DirIn | DirOut
datatype filter_disposition = DispPass | DispDrop | DispDlq

record filter_rule =
  expression :: string
  rule_action :: filter_action

record filter_budget =
  max_ast_nodes :: nat
  max_iteration_depth :: byte
  max_payload_bytes :: nat

record tier_config =
  allow_cel_filters_in :: bool
  allow_cel_filters_out :: bool
  allow_complex_filters_in :: bool
  allow_complex_filters_out :: bool
  budget :: filter_budget

definition budget_default :: filter_budget where
  "budget_default = \<lparr>max_ast_nodes = 200, max_iteration_depth = 2, max_payload_bytes = 1024 * 1024\<rparr>"

fun is_tier_allowed :: "tier_config \<Rightarrow> filter_tier \<Rightarrow> filter_direction \<Rightarrow> bool" where
  "is_tier_allowed c Tier1 _ = True"
| "is_tier_allowed c Tier2 DirIn = (allow_cel_filters_in c \<or> allow_complex_filters_in c)"
| "is_tier_allowed c Tier2 DirOut = (allow_cel_filters_out c \<or> allow_complex_filters_out c)"
| "is_tier_allowed c Tier3 DirIn = allow_complex_filters_in c"
| "is_tier_allowed c Tier3 DirOut = allow_complex_filters_out c"

subsection \<open>The CEL budget\<close>

text \<open>The syntax tree as \<open>walk\<close> matches it; a map or struct entry has one or two children.\<close>

datatype cel_expr =
    CCall "cel_expr option" "cel_expr list"
  | CComprehension cel_expr cel_expr cel_expr cel_expr cel_expr
  | CList "cel_expr list"
  | CMap "cel_entry list"
  | CSelect cel_expr
  | CStruct "cel_entry list"
  | CIdent | CLiteral | CUnspecified
and cel_entry = StructField cel_expr | MapEntry cel_expr cel_expr

definition node :: "nat \<times> byte \<Rightarrow> nat \<times> byte" where
  "node st = (fst st + 1, snd st)"

definition raise_depth :: "byte \<Rightarrow> nat \<times> byte \<Rightarrow> nat \<times> byte" where
  "raise_depth d st = (fst st, if snd st < d then d else snd st)"

text \<open>The recursion is structural through the lists of arguments: a child is visited with
  the current depth and the running totals.\<close>

primrec walk :: "cel_expr \<Rightarrow> byte \<Rightarrow> nat \<times> byte \<Rightarrow> nat \<times> byte"
  and walk_entry :: "cel_entry \<Rightarrow> byte \<Rightarrow> nat \<times> byte \<Rightarrow> nat \<times> byte" where
  "walk (CCall t args) = (\<lambda>depth st. fold (\<lambda>visit. visit depth) (map walk args)
     (case map_option walk t of None \<Rightarrow> node st | Some visit \<Rightarrow> visit depth (node st)))"
| "walk (CComprehension a b c d e) = (\<lambda>depth st.
     let k = saturating_add depth 1 in
     walk e k (walk d k (walk c k (walk b k (walk a k (raise_depth k (node st)))))))"
| "walk (CList es) = (\<lambda>depth st. fold (\<lambda>visit. visit depth) (map walk es) (node st))"
| "walk (CMap es) = (\<lambda>depth st. fold (\<lambda>visit. visit depth) (map walk_entry es) (node st))"
| "walk (CSelect e) = (\<lambda>depth st. walk e depth (node st))"
| "walk (CStruct es) = (\<lambda>depth st. fold (\<lambda>visit. visit depth) (map walk_entry es) (node st))"
| "walk CIdent = (\<lambda>depth st. node st)"
| "walk CLiteral = (\<lambda>depth st. node st)"
| "walk CUnspecified = (\<lambda>depth st. node st)"
| "walk_entry (StructField v) = (\<lambda>depth st. walk v depth (node st))"
| "walk_entry (MapEntry k v) = (\<lambda>depth st. walk v depth (walk k depth (node st)))"

datatype budget_error = TooManyNodes nat nat | IterationTooDeep byte byte
  | PayloadTooLarge nat nat | BudgetParse string

definition check_static_budget :: "(string \<Rightarrow> (cel_expr, string) result) \<Rightarrow> string \<Rightarrow> filter_budget \<Rightarrow>
    (unit, budget_error) result" where
  "check_static_budget cel_parse expr b =
     (case cel_parse expr of
        Inl e \<Rightarrow> Err (BudgetParse e)
      | Inr ast \<Rightarrow>
          (let (nodes, max_depth) = walk ast 0 (0, 0) in
           if max_ast_nodes b < nodes then Err (TooManyNodes nodes (max_ast_nodes b))
           else if max_iteration_depth b < max_depth then Err (IterationTooDeep max_depth (max_iteration_depth b))
           else Ok ()))"

definition check_payload_budget :: "nat \<Rightarrow> filter_budget \<Rightarrow> (unit, budget_error) result" where
  "check_payload_budget sz b =
     (if max_payload_bytes b < sz then Err (PayloadTooLarge sz (max_payload_bytes b)) else Ok ())"

subsection \<open>Classification\<close>

datatype tier1_op = OpExists string | OpNotExists string | OpEquals string string | OpNotEquals string string
  | OpStartsWith string string | OpEndsWith string string | OpContains string string

datatype classify_result = ClTier1 tier1_op | ClTier2 "string list" | ClTier3 "string list"

fun classify_tier :: "classify_result \<Rightarrow> filter_tier" where
  "classify_tier (ClTier1 _) = Tier1" | "classify_tier (ClTier2 _) = Tier2" | "classify_tier (ClTier3 _) = Tier3"

datatype tier1_regex = RE_HAS | RE_NOT_HAS | RE_EQ_STR | RE_NEQ_STR | RE_STARTS_WITH | RE_ENDS_WITH | RE_CONTAINS

text \<open>What the engine gets from its libraries.\<close>

record ('p, 'j, 'c) filter_lib =
  captures :: "tier1_regex \<Rightarrow> string \<Rightarrow> string list option"
  find_idents :: "string \<Rightarrow> (nat \<times> nat) list"
  find_iter :: "bytes \<Rightarrow> bytes \<Rightarrow> nat list"
  get_path :: "bytes \<Rightarrow> string list \<Rightarrow> (bool \<times> string \<times> string option) option"
  cel_parse :: "string \<Rightarrow> (cel_expr, string) result"
  cel_compile :: "bool \<Rightarrow> string \<Rightarrow> ('p, string) result"
  json_of_raw :: "string \<Rightarrow> 'j option"
  build_context :: "(string \<times> 'j) list \<Rightarrow> 'c option"
  cel_execute :: "'p \<Rightarrow> 'c \<Rightarrow> bool option"

definition ws :: "char \<Rightarrow> bool" where
  "ws c \<longleftrightarrow> c \<in> {CHR '' '', CHR 0x09, CHR 0x0a, CHR 0x0b, CHR 0x0c, CHR 0x0d}"

definition trim_str :: "string \<Rightarrow> string" where
  "trim_str s = rev (dropWhile ws (rev (dropWhile ws s)))"

definition RESTRICTED_FUNCTIONS :: "string list" where
  "RESTRICTED_FUNCTIONS = [''matches'', ''map'', ''filter'', ''exists'', ''all'', ''exists_one'',
     ''timestamp'', ''duration'']"

definition CEL_KEYWORDS :: "string list" where
  "CEL_KEYWORDS = [''true'', ''false'', ''null'', ''in'', ''has'', ''size'', ''int'', ''uint'', ''double'',
     ''string'', ''bool'', ''type'', ''contains'', ''startsWith'', ''endsWith'', ''matches'', ''map'',
     ''filter'', ''exists'', ''all'', ''exists_one'', ''timestamp'', ''duration'']"

fun try_patterns :: "(tier1_regex \<Rightarrow> string \<Rightarrow> string list option) \<Rightarrow> string \<Rightarrow>
    (tier1_regex \<times> (string list \<Rightarrow> tier1_op)) list \<Rightarrow> tier1_op option" where
  "try_patterns cap expr [] = None"
| "try_patterns cap expr ((re, mk) # ps) =
     (case cap re expr of Some gs \<Rightarrow> Some (mk gs) | None \<Rightarrow> try_patterns cap expr ps)"

definition try_tier1 :: "(tier1_regex \<Rightarrow> string \<Rightarrow> string list option) \<Rightarrow> string \<Rightarrow> tier1_op option" where
  "try_tier1 cap expr = try_patterns cap expr
     [(RE_HAS, \<lambda>g. OpExists (g ! 0)), (RE_NOT_HAS, \<lambda>g. OpNotExists (g ! 0)),
      (RE_EQ_STR, \<lambda>g. OpEquals (g ! 0) (g ! 1)), (RE_NEQ_STR, \<lambda>g. OpNotEquals (g ! 0) (g ! 1)),
      (RE_STARTS_WITH, \<lambda>g. OpStartsWith (g ! 0) (g ! 1)), (RE_ENDS_WITH, \<lambda>g. OpEndsWith (g ! 0) (g ! 1)),
      (RE_CONTAINS, \<lambda>g. OpContains (g ! 0) (g ! 1))]"

text \<open>\<open>str::match_indices\<close>: non-overlapping occurrences from the left.\<close>

function match_indices :: "string \<Rightarrow> nat \<Rightarrow> string \<Rightarrow> nat list" where
  "match_indices pat i s =
     (if s = [] then []
      else if pat \<noteq> [] \<and> take (length pat) s = pat
           then i # match_indices pat (i + length pat) (drop (length pat) s)
           else match_indices pat (i + 1) (tl s))"
  by pat_completeness auto
termination
  by (relation "measure (\<lambda>(pat, i, s). length s)") auto

fun in_string_loop :: "nat \<Rightarrow> nat \<Rightarrow> bool \<Rightarrow> bool \<Rightarrow> string \<Rightarrow> bool" where
  "in_string_loop i pos in_string prev_was_escape [] = in_string"
| "in_string_loop i pos in_string prev_was_escape (ch # s) =
     (if pos \<le> i then in_string
      else in_string_loop (i + 1) pos
        (if ch = CHR 0x22 \<and> \<not> prev_was_escape then \<not> in_string else in_string)
        (ch = CHR 0x5c \<and> \<not> prev_was_escape) s)"

definition position_is_in_string :: "string \<Rightarrow> nat \<Rightarrow> bool" where
  "position_is_in_string expr pos = in_string_loop 0 pos False False expr"

definition check_restricted_functions :: "string \<Rightarrow> bool" where
  "check_restricted_functions expr = list_ex (\<lambda>func.
     list_ex (\<lambda>pos. \<not> position_is_in_string expr pos) (match_indices (func @ ''('') 0 expr)) RESTRICTED_FUNCTIONS"

fun string_mask :: "bool \<Rightarrow> bool \<Rightarrow> string \<Rightarrow> bool list" where
  "string_mask in_string esc [] = []"
| "string_mask in_string esc (ch # s) =
     in_string # string_mask (if ch = CHR 0x22 \<and> \<not> esc then \<not> in_string else in_string)
       (ch = CHR 0x5c \<and> \<not> esc) s"

definition rfind_dot :: "string \<Rightarrow> nat option" where
  "rfind_dot s = (let t = dropWhile (\<lambda>c. c \<noteq> CHR ''.'') (rev s) in
     if t = [] then None else Some (length t - 1))"

definition field_base :: "string \<Rightarrow> string" where
  "field_base s = takeWhile (\<lambda>c. c \<noteq> CHR ''.'') s"

fun reference_loop :: "string \<Rightarrow> bool list \<Rightarrow> (nat \<times> nat) list \<Rightarrow> string list \<Rightarrow> string list" where
  "reference_loop expr smask [] acc = acc"
| "reference_loop expr smask ((a, b) # ms) acc =
     (if a < length smask \<and> smask ! a then reference_loop expr smask ms acc
      else
        (let ident = take (b - a) (drop a expr);
             rest = dropWhile ws (drop b expr);
             is_call = (rest \<noteq> [] \<and> hd rest = CHR ''('');
             trunc = (if is_call then (case rfind_dot ident of Some p \<Rightarrow> Some (take p ident) | None \<Rightarrow> None)
                      else Some ident)
         in case trunc of
              None \<Rightarrow> reference_loop expr smask ms acc
            | Some i \<Rightarrow>
                (if i = [] \<or> field_base i \<in> set CEL_KEYWORDS \<or> i \<in> set acc
                 then reference_loop expr smask ms acc
                 else reference_loop expr smask ms (acc @ [i]))))"

definition extract_field_references :: "(string \<Rightarrow> (nat \<times> nat) list) \<Rightarrow> string \<Rightarrow> string list" where
  "extract_field_references idents expr = reference_loop expr (string_mask False False expr) (idents expr) []"

definition classify :: "('p, 'j, 'c) filter_lib \<Rightarrow> string \<Rightarrow> (classify_result, string) result" where
  "classify lib expr =
     (let trimmed = trim_str expr in
      if trimmed = [] then Err ''empty expression''
      else case try_tier1 (captures lib) trimmed of
             Some op \<Rightarrow> Ok (ClTier1 op)
           | None \<Rightarrow>
               (let fs = extract_field_references (find_idents lib) trimmed
                in if check_restricted_functions trimmed then Ok (ClTier3 fs) else Ok (ClTier2 fs)))"

subsection \<open>Compiled filters\<close>

datatype 'p compiled_filter =
    FieldExists "string list" "bytes option" filter_action
  | FieldNotExists "string list" "bytes option" filter_action
  | FieldEquals "string list" string filter_action
  | FieldNotEquals "string list" string filter_action
  | FieldStartsWith "string list" string filter_action
  | FieldEndsWith "string list" string filter_action
  | FieldContains "string list" string filter_action
  | CelExpression 'p "string list" filter_tier filter_action nat

fun split_dots :: "string \<Rightarrow> string list" where
  "split_dots [] = [[]]"
| "split_dots (c # cs) = (if c = CHR ''.'' then [] # split_dots cs
     else (case split_dots cs of [] \<Rightarrow> [[c]] | w # rest \<Rightarrow> (c # w) # rest))"

definition split_field_path :: "string \<Rightarrow> string list" where
  "split_field_path field = split_dots field"

definition bytes_of :: "string \<Rightarrow> bytes" where
  "bytes_of s = map of_char s"

definition build_field_needle :: "string list \<Rightarrow> bytes option" where
  "build_field_needle path = (if length path \<noteq> 1 then None
     else Some (0x22 # bytes_of (path ! 0) @ [0x22, 0x3a]))"

fun from_tier1_op :: "tier1_op \<Rightarrow> filter_action \<Rightarrow> 'p compiled_filter" where
  "from_tier1_op (OpExists f) act = FieldExists (split_field_path f) (build_field_needle (split_field_path f)) act"
| "from_tier1_op (OpNotExists f) act = FieldNotExists (split_field_path f) (build_field_needle (split_field_path f)) act"
| "from_tier1_op (OpEquals f v) act = FieldEquals (split_field_path f) v act"
| "from_tier1_op (OpNotEquals f v) act = FieldNotEquals (split_field_path f) v act"
| "from_tier1_op (OpStartsWith f v) act = FieldStartsWith (split_field_path f) v act"
| "from_tier1_op (OpEndsWith f v) act = FieldEndsWith (split_field_path f) v act"
| "from_tier1_op (OpContains f v) act = FieldContains (split_field_path f) v act"

datatype filter_error = ClassifyError string | TierNotAllowed filter_tier filter_direction
  | BudgetExceeded budget_error | CelCompileError string

definition from_expression :: "('p, 'j, 'c) filter_lib \<Rightarrow> string \<Rightarrow> filter_action \<Rightarrow> filter_direction \<Rightarrow> tier_config \<Rightarrow>
    ('p compiled_filter, filter_error) result" where
  "from_expression lib expr act dir c =
     (case classify lib expr of
        Inl e \<Rightarrow> Err (ClassifyError e)
      | Inr cl \<Rightarrow>
          (if \<not> is_tier_allowed c (classify_tier cl) dir then Err (TierNotAllowed (classify_tier cl) dir)
           else case cl of
             ClTier1 op \<Rightarrow> Ok (from_tier1_op op act)
           | ClTier2 fs \<Rightarrow>
               (case check_static_budget (cel_parse lib) expr (budget c) of
                  Inl e \<Rightarrow> Err (BudgetExceeded e)
                | Inr _ \<Rightarrow> (case cel_compile lib False expr of
                      Inl e \<Rightarrow> Err (CelCompileError e)
                    | Inr p \<Rightarrow> Ok (CelExpression p fs Tier2 act (max_payload_bytes (budget c)))))
           | ClTier3 fs \<Rightarrow>
               (case check_static_budget (cel_parse lib) expr (budget c) of
                  Inl e \<Rightarrow> Err (BudgetExceeded e)
                | Inr _ \<Rightarrow> (case cel_compile lib True expr of
                      Inl e \<Rightarrow> Err (CelCompileError e)
                    | Inr p \<Rightarrow> Ok (CelExpression p fs Tier3 act (max_payload_bytes (budget c)))))))"

fun filter_tier_of :: "'p compiled_filter \<Rightarrow> filter_tier" where
  "filter_tier_of (CelExpression _ _ t _ _) = t"
| "filter_tier_of _ = Tier1"

fun filter_action_of :: "'p compiled_filter \<Rightarrow> filter_action" where
  "filter_action_of (FieldExists _ _ a) = a" | "filter_action_of (FieldNotExists _ _ a) = a"
| "filter_action_of (FieldEquals _ _ a) = a" | "filter_action_of (FieldNotEquals _ _ a) = a"
| "filter_action_of (FieldStartsWith _ _ a) = a" | "filter_action_of (FieldEndsWith _ _ a) = a"
| "filter_action_of (FieldContains _ _ a) = a" | "filter_action_of (CelExpression _ _ _ a _) = a"

subsection \<open>Evaluation\<close>

fun count_backslashes :: "bytes \<Rightarrow> nat \<Rightarrow> nat" where
  "count_backslashes bs 0 = 0"
| "count_backslashes bs (Suc k) = (if bs ! k = 0x5c then Suc (count_backslashes bs k) else 0)"

text \<open>One byte of the incremental walk: inside a string or not, and the bracket depth, an \<open>i32\<close> whose additions wrap.\<close>

type_synonym i32 = "32 word"

definition walk_byte :: "bytes \<Rightarrow> nat \<Rightarrow> bool \<times> i32 \<Rightarrow> bool \<times> i32" where
  "walk_byte bs i = (\<lambda>(in_string, depth).
     if in_string then
       (if bs ! i = 0x22 then (if even (count_backslashes bs i) then (False, depth) else (True, depth))
        else (True, depth))
     else if bs ! i = 0x22 then (True, depth)
     else if bs ! i = 0x7b \<or> bs ! i = 0x5b then (False, depth + 1)
     else if bs ! i = 0x7d \<or> bs ! i = 0x5d then (False, depth - 1)
     else (False, depth))"

function walk_to :: "bytes \<Rightarrow> nat \<Rightarrow> nat \<Rightarrow> bool \<times> i32 \<Rightarrow> nat \<times> bool \<times> i32" where
  "walk_to bs w hit st = (if w < hit then walk_to bs (Suc w) hit (walk_byte bs w st) else (w, st))"
  by pat_completeness auto
termination
  by (relation "measure (\<lambda>(bs, w, hit, st). hit - w)") auto

declare walk_to.simps [simp del]

fun structural_loop :: "bytes \<Rightarrow> nat \<Rightarrow> bool \<times> i32 \<Rightarrow> nat list \<Rightarrow> nat option" where
  "structural_loop bs w st [] = None"
| "structural_loop bs w st (hit # hits) =
     (case walk_to bs w hit st of
        (w', in_string, depth) \<Rightarrow>
          if \<not> in_string \<and> depth = 1 then Some hit else structural_loop bs w' (in_string, depth) hits)"

definition first_structural_hit :: "bytes \<Rightarrow> nat list \<Rightarrow> nat option" where
  "first_structural_hit bs hits = structural_loop bs 0 (False, 0) hits"

definition extract_string_value :: "bool \<times> string \<times> string option \<Rightarrow> string" where
  "extract_string_value = (\<lambda>(is_str, raw, as_str).
     if is_str \<and> 2 \<le> length raw \<and> raw ! 0 = CHR 0x22 \<and> raw ! (length raw - 1) = CHR 0x22 then
       (let inner = take (length raw - 2) (drop 1 raw) in
        if CHR 0x5c \<notin> set inner then inner
        else case as_str of Some s \<Rightarrow> s | None \<Rightarrow> raw)
     else raw)"

fun contains_sub :: "string \<Rightarrow> string \<Rightarrow> bool" where
  "contains_sub pat [] = (pat = [])"
| "contains_sub pat (c # cs) = (take (length pat) (c # cs) = pat \<or> contains_sub pat cs)"

fun cel_extract :: "('p, 'j, 'c) filter_lib \<Rightarrow> bytes \<Rightarrow> string list \<Rightarrow> (string \<times> 'j) list" where
  "cel_extract lib bs [] = []"
| "cel_extract lib bs (f # fs) =
     (case get_path lib bs (split_dots f) of
        Some (_, raw, _) \<Rightarrow> (case json_of_raw lib raw of
            Some v \<Rightarrow> (f, v) # cel_extract lib bs fs | None \<Rightarrow> cel_extract lib bs fs)
      | None \<Rightarrow> cel_extract lib bs fs)"

definition evaluate_cel :: "('p, 'j, 'c) filter_lib \<Rightarrow> bytes \<Rightarrow> 'p \<Rightarrow> string list \<Rightarrow> filter_action \<Rightarrow> nat \<Rightarrow> filter_action option" where
  "evaluate_cel lib bs program fs act max_bytes =
     (if max_bytes < length bs then None
      else case build_context lib (cel_extract lib bs fs) of
        None \<Rightarrow> None
      | Some ctx \<Rightarrow> (if cel_execute lib program ctx = Some True then Some act else None))"

fun evaluate :: "('p, 'j, 'c) filter_lib \<Rightarrow> bytes \<Rightarrow> 'p compiled_filter \<Rightarrow> filter_action option" where
  "evaluate lib bs (FieldExists path needle act) =
     (case needle of
        Some n \<Rightarrow> map_option (\<lambda>_. act) (first_structural_hit bs (find_iter lib n bs))
      | None \<Rightarrow> if get_path lib bs path \<noteq> None then Some act else None)"
| "evaluate lib bs (FieldNotExists path needle act) =
     (case needle of
        Some n \<Rightarrow> (case first_structural_hit bs (find_iter lib n bs) of Some _ \<Rightarrow> None | None \<Rightarrow> Some act)
      | None \<Rightarrow> if get_path lib bs path = None then Some act else None)"
| "evaluate lib bs (FieldEquals path value act) =
     (case get_path lib bs path of None \<Rightarrow> None
      | Some lv \<Rightarrow> if extract_string_value lv = value then Some act else None)"
| "evaluate lib bs (FieldNotEquals path value act) =
     (case get_path lib bs path of None \<Rightarrow> Some act
      | Some lv \<Rightarrow> if extract_string_value lv \<noteq> value then Some act else None)"
| "evaluate lib bs (FieldStartsWith path pre act) =
     (case get_path lib bs path of None \<Rightarrow> None
      | Some lv \<Rightarrow> if take (length pre) (extract_string_value lv) = pre then Some act else None)"
| "evaluate lib bs (FieldEndsWith path suf act) =
     (case get_path lib bs path of None \<Rightarrow> None
      | Some lv \<Rightarrow> if take (length suf) (rev (extract_string_value lv)) = rev suf then Some act else None)"
| "evaluate lib bs (FieldContains path sub act) =
     (case get_path lib bs path of None \<Rightarrow> None
      | Some lv \<Rightarrow> if contains_sub sub (extract_string_value lv) then Some act else None)"
| "evaluate lib bs (CelExpression program fs tier act max_bytes) = evaluate_cel lib bs program fs act max_bytes"

subsection \<open>The engine\<close>

record 'p filter_engine =
  filters_in :: "'p compiled_filter list"
  filters_out :: "'p compiled_filter list"

fun compile_rules :: "('p, 'j, 'c) filter_lib \<Rightarrow> filter_rule list \<Rightarrow> filter_direction \<Rightarrow> tier_config \<Rightarrow> nat \<Rightarrow>
    ('p compiled_filter list, nat \<times> filter_error) result" where
  "compile_rules lib [] dir c idx = Ok []"
| "compile_rules lib (r # rs) dir c idx =
     (case from_expression lib (expression r) (rule_action r) dir c of
        Inl e \<Rightarrow> Err (idx, e)
      | Inr f \<Rightarrow> (case compile_rules lib rs dir c (idx + 1) of Inl e \<Rightarrow> Err e | Inr fs \<Rightarrow> Ok (f # fs)))"

definition tfe_new :: "('p, 'j, 'c) filter_lib \<Rightarrow> filter_rule list \<Rightarrow> filter_rule list \<Rightarrow> tier_config \<Rightarrow>
    ('p filter_engine, nat \<times> filter_error) result" where
  "tfe_new lib rules_in rules_out c =
     (case compile_rules lib rules_in DirIn c 0 of
        Inl e \<Rightarrow> Err e
      | Inr fin \<Rightarrow> (case compile_rules lib rules_out DirOut c 0 of
            Inl e \<Rightarrow> Err e | Inr fout \<Rightarrow> Ok \<lparr>filters_in = fin, filters_out = fout\<rparr>))"

fun is_likely_msgpack :: "bytes \<Rightarrow> bool" where
  "is_likely_msgpack [] = False"
| "is_likely_msgpack (b # bs) = ((0x80 \<le> b \<and> b \<le> 0x8f) \<or> (0xde \<le> b \<and> b \<le> 0xdf)
     \<or> (0x90 \<le> b \<and> b \<le> 0x9f) \<or> (0xdc \<le> b \<and> b \<le> 0xdd))"

fun first_match :: "('p, 'j, 'c) filter_lib \<Rightarrow> bytes \<Rightarrow> 'p compiled_filter list \<Rightarrow> filter_disposition" where
  "first_match lib bs [] = DispPass"
| "first_match lib bs (f # fs) =
     (case evaluate lib bs f of
        Some ActDrop \<Rightarrow> DispDrop | Some ActDlq \<Rightarrow> DispDlq | None \<Rightarrow> first_match lib bs fs)"

definition tf_apply_filters :: "('p, 'j, 'c) filter_lib \<Rightarrow> bytes \<Rightarrow> 'p compiled_filter list \<Rightarrow> filter_disposition" where
  "tf_apply_filters lib bs fs =
     (if fs = [] then DispPass else if is_likely_msgpack bs then DispPass else first_match lib bs fs)"

definition apply_inbound :: "('p, 'j, 'c) filter_lib \<Rightarrow> 'p filter_engine \<Rightarrow> bytes \<Rightarrow> filter_disposition" where
  "apply_inbound lib eng bs = tf_apply_filters lib bs (filters_in eng)"

definition apply_outbound :: "('p, 'j, 'c) filter_lib \<Rightarrow> 'p filter_engine \<Rightarrow> bytes \<Rightarrow> filter_disposition" where
  "apply_outbound lib eng bs = tf_apply_filters lib bs (filters_out eng)"

record ('m, 'k) filtered_batch =
  fb_messages :: "'m list"
  fb_dlq_entries :: "dlq_entry list"
  fb_drop_count :: u64
  fb_filtered_tokens :: "'k list"

fun partition_loop :: "(bytes \<Rightarrow> filter_disposition) \<Rightarrow> ('m \<Rightarrow> bytes) \<Rightarrow> ('m \<Rightarrow> string option) \<Rightarrow> ('m \<Rightarrow> 'k) \<Rightarrow>
    'm list \<Rightarrow> ('m, 'k) filtered_batch \<Rightarrow> ('m, 'k) filtered_batch" where
  "partition_loop inbound pay ky tok [] fb = fb"
| "partition_loop inbound pay ky tok (m # ms) fb =
     partition_loop inbound pay ky tok ms
       (case inbound (pay m) of
          DispPass \<Rightarrow> fb\<lparr>fb_messages := fb_messages fb @ [m]\<rparr>
        | DispDrop \<Rightarrow> fb\<lparr>fb_filtered_tokens := fb_filtered_tokens fb @ [tok m],
                        fb_drop_count := fb_drop_count fb + 1\<rparr>
        | DispDlq \<Rightarrow> fb\<lparr>fb_dlq_entries := fb_dlq_entries fb @
                           [\<lparr>dlq_payload = pay m, dlq_key = ky m, dlq_reason = ''transport filter''\<rparr>],
                       fb_filtered_tokens := fb_filtered_tokens fb @ [tok m]\<rparr>)"

definition passthrough :: "'m list \<Rightarrow> ('m, 'k) filtered_batch" where
  "passthrough ms = \<lparr>fb_messages = ms, fb_dlq_entries = [], fb_drop_count = 0, fb_filtered_tokens = []\<rparr>"

definition partition_batch where
  "partition_batch lib eng ms pay ky tok =
     (if filters_in eng = [] then passthrough ms
      else partition_loop (apply_inbound lib eng) pay ky tok ms (passthrough []))"


subsection \<open>Structural positions\<close>

text \<open>The reference: one forward pass with an escape flag, as a JSON lexer does it.\<close>

fun lex_byte :: "byte \<Rightarrow> bool \<times> bool \<times> int \<Rightarrow> bool \<times> bool \<times> int" where
  "lex_byte b (s, esc, d) =
     (if s then (esc \<or> b \<noteq> 0x22, \<not> esc \<and> b = 0x5c, d)
      else (b = 0x22, False, if b = 0x7b \<or> b = 0x5b then d + 1 else if b = 0x7d \<or> b = 0x5d then d - 1 else d))"

definition lex :: "bytes \<Rightarrow> bool \<times> bool \<times> int" where
  "lex bs = fold lex_byte bs (False, False, 0)"

definition at_top_level :: "bytes \<Rightarrow> nat \<Rightarrow> bool" where
  "at_top_level bs p = (case lex (take p bs) of (s, esc, d) \<Rightarrow> \<not> s \<and> d = 1)"

definition state_at :: "bytes \<Rightarrow> nat \<Rightarrow> bool \<times> i32" where
  "state_at bs p = fold (walk_byte bs) [0..<p] (False, 0)"

lemma state_at_Suc: "state_at bs (Suc p) = walk_byte bs p (state_at bs p)"
  by (simp add: state_at_def)

lemma state_at_lex:
  "p \<le> length bs \<Longrightarrow> (case lex (take p bs) of (s, esc, d) \<Rightarrow>
     state_at bs p = (s, of_int d) \<and> \<bar>d\<bar> \<le> int p \<and> (s \<longrightarrow> esc = odd (count_backslashes bs p)))"
proof (induction p)
  case 0
  then show ?case by (simp add: lex_def state_at_def)
next
  case (Suc p)
  obtain s esc d where l: "lex (take p bs) = (s, esc, d)" by (cases "lex (take p bs)")
  then have "lex (take (Suc p) bs) = lex_byte (bs ! p) (s, esc, d)"
    using Suc.prems by (simp add: lex_def take_Suc_conv_app_nth)
  with Suc.IH Suc.prems l show ?case
    by (auto simp: state_at_Suc walk_byte_def)
qed

lemma depth_one_iff:
  assumes "\<bar>d\<bar> < 2 ^ 31"
  shows "(of_int d = (1 :: i32)) = (d = 1)"
proof
  assume "of_int d = (1 :: i32)"
  then have "of_int (d - 1) = (0 :: i32)" by simp
  then have "2 ^ 32 dvd (d - 1)" unfolding word_of_int_eq_0_iff by simp
  then obtain k where k: "d - 1 = 2 ^ 32 * k" by (elim dvdE)
  with assms have "\<bar>d\<bar> < 2147483648" "d = 4294967296 * k + 1" by simp_all
  then have "\<not> 1 \<le> k" "\<not> k \<le> - 1" by linarith+
  then have "k = 0" by simp
  with k show "d = 1" by simp
qed simp

lemma walk_to_state: "w \<le> hit \<Longrightarrow> walk_to bs w hit (state_at bs w) = (hit, state_at bs hit)"
proof (induction "hit - w" arbitrary: w)
  case 0
  then show ?case by (subst walk_to.simps) simp
next
  case (Suc n)
  then have "w < hit" by simp
  with Suc.hyps(1) [of "Suc w"] Suc.hyps(2) show ?case
    by (subst walk_to.simps) (simp add: state_at_Suc)
qed

lemma structural_loop_eq:
  "sorted (w # hits) \<Longrightarrow> structural_loop bs w (state_at bs w) hits = List.find (\<lambda>h. state_at bs h = (False, 1)) hits"
proof (induction hits arbitrary: w)
  case (Cons h hits)
  then have w: "walk_to bs w h (state_at bs w) = (h, state_at bs h)" by (intro walk_to_state) simp
  have IH: "structural_loop bs h (state_at bs h) hits = List.find (\<lambda>h. state_at bs h = (False, 1)) hits"
    using Cons by simp
  obtain s d where st: "state_at bs h = (s, d)" by (cases "state_at bs h")
  show ?case using w IH st by (cases s) auto
qed simp

lemma find_cong: "(\<And>x. x \<in> set xs \<Longrightarrow> P x = Q x) \<Longrightarrow> List.find P xs = List.find Q xs"
  by (induction xs) auto

text \<open>C25. The incremental structural walk of the SIMD fast path (which looks backwards for
  escaping backslashes and never restarts) returns, for a payload of fewer than \<open>2 ^ 31\<close> bytes (so that the
  \<open>i32\<close> depth cannot wrap) and any increasing list of candidate offsets in it, exactly the first candidate that lies
  outside every string and directly inside the outermost object, as a plain forward lexer sees it.\<close>

theorem first_structural_hit_exact:
  assumes "sorted hits" and "list_all (\<lambda>h. h < length bs) hits" and "length bs < 2 ^ 31"
  shows "first_structural_hit bs hits = List.find (at_top_level bs) hits"
proof -
  have "first_structural_hit bs hits = structural_loop bs 0 (state_at bs 0) hits"
    by (simp add: first_structural_hit_def state_at_def)
  also have "\<dots> = List.find (\<lambda>h. state_at bs h = (False, 1)) hits"
    using assms(1) by (intro structural_loop_eq) simp
  also have "\<dots> = List.find (at_top_level bs) hits"
  proof (rule find_cong)
    fix h assume "h \<in> set hits"
    then have h: "h \<le> length bs" "int h < 2 ^ 31" using assms(2,3) by (auto simp: list_all_iff)
    obtain s esc d where l: "lex (take h bs) = (s, esc, d)" by (cases "lex (take h bs)")
    with state_at_lex [OF h(1)] have st: "state_at bs h = (s, of_int d)" and "\<bar>d\<bar> \<le> int h" by simp_all
    with h(2) depth_one_iff [of d] l show "(state_at bs h = (False, 1)) = at_top_level bs h"
      by (auto simp: at_top_level_def)
  qed
  finally show ?thesis .
qed

theorem first_structural_hit_exact_witness:
  "first_structural_hit [0x7b, 0x22, 0x61, 0x22, 0x3a, 0x31, 0x7d] [1, 3] = Some 1"
  using first_structural_hit_exact [of "[1, 3]" "[0x7b, 0x22, 0x61, 0x22, 0x3a, 0x31, 0x7d]"]
  by (simp add: at_top_level_def lex_def)

subsection \<open>Filters and their negations\<close>

fun negated :: "tier1_op \<Rightarrow> tier1_op option" where
  "negated (OpExists f) = Some (OpNotExists f)"
| "negated (OpEquals f v) = Some (OpNotEquals f v)"
| "negated _ = None"

text \<open>\<open>has(f)\<close> and \<open>!has(f)\<close>, and \<open>f == "v"\<close> and \<open>f != "v"\<close>, are complementary on every
  payload, on the fast path and on the parsed path: exactly one of the two matches.\<close>

theorem negation_is_complement:
  assumes "negated op = Some op'"
  shows "(evaluate lib bs (from_tier1_op op act) = None) \<noteq> (evaluate lib bs (from_tier1_op op' act') = None)"
  using assms by (cases op) (auto split: option.splits)

definition toy_filter_lib :: "(nat, nat, nat) filter_lib" where
  "toy_filter_lib = \<lparr>captures = (\<lambda>re s. if re = RE_HAS then Some [s] else None), find_idents = (\<lambda>_. []),
     find_iter = (\<lambda>n bs. filter (\<lambda>i. take (length n) (drop i bs) = n) [0..<length bs]),
     get_path = (\<lambda>bs p. if bs = [] then None else Some (False, ''1'', None)),
     cel_parse = (\<lambda>_. Err ''no''), cel_compile = (\<lambda>_ _. Err ''no''), json_of_raw = (\<lambda>_. None),
     build_context = (\<lambda>_. None), cel_execute = (\<lambda>_ _. None)\<rparr>"

theorem negation_is_complement_witness:
  "(evaluate toy_filter_lib [0x7b] (from_tier1_op (OpExists ''a'') ActDrop) = None)
   \<noteq> (evaluate toy_filter_lib [0x7b] (from_tier1_op (OpNotExists ''a'') ActDlq) = None)"
  using negation_is_complement [of "OpExists ''a''" "OpNotExists ''a''" toy_filter_lib "[0x7b]" ActDrop ActDlq]
  by simp

definition find_iter_spec :: "(bytes \<Rightarrow> bytes \<Rightarrow> nat list) \<Rightarrow> bool" where
  "find_iter_spec fi \<longleftrightarrow> (\<forall>n bs. set (fi n bs) \<subseteq> {i. i < length bs \<and> take (length n) (drop i bs) = n})"

text \<open>The fast path of \<open>has(f)\<close> only sees keys written without whitespace before the
  colon: a payload that contains the bytes of the quoted key followed by a colon nowhere is
  reported as not having the field, whatever the JSON lookup says of it. A payload with a
  space between key and colon is such a payload.\<close>

theorem has_needs_compact_key:
  assumes "find_iter_spec (find_iter lib)" and "split_field_path f = [f]"
    and "\<And>i. take (length f + 3) (drop i bs) \<noteq> 0x22 # bytes_of f @ [0x22, 0x3a]"
  shows "evaluate lib bs (from_tier1_op (OpExists f) act) = None"
proof -
  let ?n = "0x22 # bytes_of f @ [0x22, 0x3a]"
  have len: "length ?n = length f + 3" by (simp add: bytes_of_def)
  have "i \<notin> set (find_iter lib ?n bs)" for i
  proof
    assume "i \<in> set (find_iter lib ?n bs)"
    moreover have "set (find_iter lib ?n bs) \<subseteq> {i. i < length bs \<and> take (length ?n) (drop i bs) = ?n}"
      using assms(1) unfolding find_iter_spec_def by (elim allE)
    ultimately have "take (length ?n) (drop i bs) = ?n" by blast
    with assms(3) [of i] show False unfolding len by blast
  qed
  then have "find_iter lib ?n bs = []" by (cases "find_iter lib ?n bs") (auto simp del: set_simps intro: list.set_intros)
  moreover have "build_field_needle (split_field_path f) = Some ?n"
    by (simp add: assms(2) build_field_needle_def)
  ultimately show ?thesis by (simp add: first_structural_hit_def)
qed

text \<open>The payload of the witness is an object with the key \<open>a\<close>, a space, a colon and 1.\<close>

theorem has_needs_compact_key_witness:
  "evaluate toy_filter_lib [0x7b, 0x22, 0x61, 0x22, 0x20, 0x3a, 0x31, 0x7d] (from_tier1_op (OpExists ''a'') ActDrop) = None"
proof (rule has_needs_compact_key)
  show "find_iter_spec (find_iter toy_filter_lib)"
    by (auto simp: find_iter_spec_def toy_filter_lib_def)
  show "split_field_path ''a'' = [''a'']" by (simp add: split_field_path_def)
  show "take (length ''a'' + 3) (drop i [0x7b, 0x22, 0x61, 0x22, 0x20, 0x3a, 0x31, 0x7d])
      \<noteq> 0x22 # bytes_of ''a'' @ [0x22, 0x3a]" for i
  proof (cases "i < 8")
    case True
    then have "i \<in> {0, 1, 2, 3, 4, 5, 6, 7}" by auto
    then show ?thesis by (elim insertE emptyE) (simp_all add: bytes_of_def)
  qed simp
qed


subsection \<open>Dispositions\<close>

text \<open>Filters never act on MessagePack: a payload bypasses them exactly when the engine's
  format detection calls it MessagePack, so detection and bypass cannot disagree; on any
  other payload the disposition is that of the first filter, in rule order, that matches.\<close>

theorem msgpack_bypass_exact:
  "(is_likely_msgpack bs \<longleftrightarrow> detect bs = MsgPack)
   \<and> tf_apply_filters lib bs fs =
       (if detect bs = MsgPack then DispPass
        else case List.find (\<lambda>f. evaluate lib bs f \<noteq> None) fs of
               None \<Rightarrow> DispPass
             | Some f \<Rightarrow> (case evaluate lib bs f of Some ActDrop \<Rightarrow> DispDrop | _ \<Rightarrow> DispDlq))"
proof -
  have "(0xde \<le> b \<and> b \<le> 0xdf) \<longleftrightarrow> b = 0xde \<or> b = 0xdf" "(0xdc \<le> b \<and> b \<le> 0xdd) \<longleftrightarrow> b = 0xdc \<or> b = 0xdd"
    for b :: byte
    by (auto simp: word_le_nat_alt word_unat_eq_iff)
  then have eq: "is_likely_msgpack bs \<longleftrightarrow> detect bs = MsgPack"
    by (cases bs) (auto simp: msgpack_lead_def)
  have "first_match lib bs fs = (case List.find (\<lambda>f. evaluate lib bs f \<noteq> None) fs of
      None \<Rightarrow> DispPass | Some f \<Rightarrow> (case evaluate lib bs f of Some ActDrop \<Rightarrow> DispDrop | _ \<Rightarrow> DispDlq))"
    by (induction fs) (auto split: option.split filter_action.split)
  with eq show ?thesis by (auto simp: tf_apply_filters_def)
qed

lemma partition_loop_eq:
  "partition_loop inbound pay ky tok ms fb =
     fb\<lparr>fb_messages := fb_messages fb @ filter (\<lambda>m. inbound (pay m) = DispPass) ms,
        fb_dlq_entries := fb_dlq_entries fb @ map (\<lambda>m. \<lparr>dlq_payload = pay m, dlq_key = ky m, dlq_reason = ''transport filter''\<rparr>)
          (filter (\<lambda>m. inbound (pay m) = DispDlq) ms),
        fb_drop_count := fb_drop_count fb + of_nat (length (filter (\<lambda>m. inbound (pay m) = DispDrop) ms)),
        fb_filtered_tokens := fb_filtered_tokens fb @ map tok (filter (\<lambda>m. inbound (pay m) \<noteq> DispPass) ms)\<rparr>"
  by (induction inbound pay ky tok ms fb rule: partition_loop.induct) (auto split: filter_disposition.split)

lemma apply_inbound_no_filters: "filters_in eng = [] \<Longrightarrow> apply_inbound lib eng bs = DispPass"
  by (simp add: apply_inbound_def tf_apply_filters_def)

lemma partition_batch_eq:
  "partition_batch lib eng ms pay ky tok =
     \<lparr>fb_messages = filter (\<lambda>m. apply_inbound lib eng (pay m) = DispPass) ms,
      fb_dlq_entries = map (\<lambda>m. \<lparr>dlq_payload = pay m, dlq_key = ky m, dlq_reason = ''transport filter''\<rparr>)
        (filter (\<lambda>m. apply_inbound lib eng (pay m) = DispDlq) ms),
      fb_drop_count = of_nat (length (filter (\<lambda>m. apply_inbound lib eng (pay m) = DispDrop) ms)),
      fb_filtered_tokens = map tok (filter (\<lambda>m. apply_inbound lib eng (pay m) \<noteq> DispPass) ms)\<rparr>"
  by (auto simp: partition_batch_def partition_loop_eq passthrough_def apply_inbound_no_filters)

text \<open>C11. Inbound filtering loses no acknowledgement and no dead letter. Collapsing a
  filtered receive into a \<open>WorkBatch\<close> gives: as records the messages that pass, in order;
  as commit tokens the tokens of all received messages, each exactly once; as dead letters
  one entry per message sent to the DLQ, with its payload and key.\<close>

theorem filtering_keeps_every_ack:
  fixes lib :: "('p, 'j, 'c) filter_lib" and eng :: "'p filter_engine" and ms :: "'t message list"
  defines "fb \<equiv> partition_batch lib eng ms msg_payload msg_key msg_token"
  defines "wb \<equiv> from_recv_batch \<lparr>messages = fb_messages fb, rb_dlq_entries = fb_dlq_entries fb,
                                  filtered_tokens = fb_filtered_tokens fb\<rparr>"
  shows "records wb = map record_of_message (filter (\<lambda>m. apply_inbound lib eng (msg_payload m) = DispPass) ms)
    \<and> mset (commit_tokens wb) = mset (map msg_token ms)
    \<and> map (\<lambda>e. (dlq_payload e, dlq_key e)) (dlq_entries wb)
        = map (\<lambda>m. (msg_payload m, msg_key m)) (filter (\<lambda>m. apply_inbound lib eng (msg_payload m) = DispDlq) ms)"
proof (intro conjI)
  show "records wb = map record_of_message (filter (\<lambda>m. apply_inbound lib eng (msg_payload m) = DispPass) ms)"
    and "map (\<lambda>e. (dlq_payload e, dlq_key e)) (dlq_entries wb)
        = map (\<lambda>m. (msg_payload m, msg_key m)) (filter (\<lambda>m. apply_inbound lib eng (msg_payload m) = DispDlq) ms)"
    by (simp_all add: wb_def fb_def from_recv_batch_def partition_batch_eq)
  show "mset (commit_tokens wb) = mset (map msg_token ms)"
    using partition_mset [of "\<lambda>m. apply_inbound lib eng (msg_payload m) = DispPass" ms]
    by (simp add: wb_def fb_def from_recv_batch_def partition_batch_eq flip: image_mset_union)
qed

subsection \<open>Tier gates and budget\<close>

lemma tier1_op_tier [simp]: "filter_tier_of (from_tier1_op op act) = Tier1"
  by (cases op) simp_all

lemma from_expression_gate:
  "from_expression lib expr act dir c = Ok f \<Longrightarrow> is_tier_allowed c (filter_tier_of f) dir \<and> filter_action_of f = act"
  by (auto simp: from_expression_def split: sum.splits if_splits classify_result.splits)
    (metis filter_action_of.simps from_tier1_op.simps tier1_op.exhaust)

lemma compile_rules_gate:
  "compile_rules lib rs dir c idx = Ok fs \<Longrightarrow>
     list_all (\<lambda>f. is_tier_allowed c (filter_tier_of f) dir) fs \<and> map filter_action_of fs = map rule_action rs"
proof (induction rs arbitrary: idx fs)
  case (Cons r rs)
  then show ?case by (auto split: sum.splits dest: from_expression_gate)
qed simp

text \<open>C26. An engine that was built only contains filters whose tier the configuration allows
  in that direction, in rule order and with the rule's action.\<close>

theorem built_engine_respects_gates:
  assumes "tfe_new lib rules_in rules_out c = Ok eng"
  shows "list_all (\<lambda>f. is_tier_allowed c (filter_tier_of f) DirIn) (filters_in eng)
    \<and> list_all (\<lambda>f. is_tier_allowed c (filter_tier_of f) DirOut) (filters_out eng)
    \<and> map filter_action_of (filters_in eng) = map rule_action rules_in
    \<and> map filter_action_of (filters_out eng) = map rule_action rules_out"
  using assms by (auto simp: tfe_new_def split: sum.splits dest: compile_rules_gate)

theorem built_engine_respects_gates_witness:
  "\<exists>eng. tfe_new toy_filter_lib [\<lparr>expression = ''x'', rule_action = ActDlq\<rparr>] []
      \<lparr>allow_cel_filters_in = False, allow_cel_filters_out = False, allow_complex_filters_in = False,
       allow_complex_filters_out = False, budget = budget_default\<rparr> = Ok eng
    \<and> map filter_action_of (filters_in eng) = [ActDlq]"
proof -
  let ?c = "\<lparr>allow_cel_filters_in = False, allow_cel_filters_out = False, allow_complex_filters_in = False,
       allow_complex_filters_out = False, budget = budget_default\<rparr>"
  let ?eng = "\<lparr>filters_in = [from_tier1_op (OpExists ''x'') ActDlq], filters_out = []\<rparr>"
  have ok: "tfe_new toy_filter_lib [\<lparr>expression = ''x'', rule_action = ActDlq\<rparr>] [] ?c = Ok ?eng"
    by (simp add: tfe_new_def from_expression_def classify_def trim_str_def ws_def try_tier1_def toy_filter_lib_def)
  from built_engine_respects_gates [OF this] ok show ?thesis by auto
qed

primrec nodes :: "cel_expr \<Rightarrow> nat" and entry_nodes :: "cel_entry \<Rightarrow> nat" where
  "nodes (CCall t args) = 1 + (case map_option nodes t of None \<Rightarrow> 0 | Some n \<Rightarrow> n) + sum_list (map nodes args)"
| "nodes (CComprehension a b c d e) = 1 + nodes a + nodes b + nodes c + nodes d + nodes e"
| "nodes (CList es) = 1 + sum_list (map nodes es)"
| "nodes (CMap es) = 1 + sum_list (map entry_nodes es)"
| "nodes (CSelect e) = 1 + nodes e"
| "nodes (CStruct es) = 1 + sum_list (map entry_nodes es)"
| "nodes CIdent = 1" | "nodes CLiteral = 1" | "nodes CUnspecified = 1"
| "entry_nodes (StructField v) = 1 + nodes v"
| "entry_nodes (MapEntry k v) = 1 + nodes k + nodes v"

primrec iteration_depth :: "cel_expr \<Rightarrow> nat" and entry_iteration_depth :: "cel_entry \<Rightarrow> nat" where
  "iteration_depth (CCall t args) =
     max (case map_option iteration_depth t of None \<Rightarrow> 0 | Some n \<Rightarrow> n) (foldr max (map iteration_depth args) 0)"
| "iteration_depth (CComprehension a b c d e) = 1 + max (iteration_depth a) (max (iteration_depth b)
     (max (iteration_depth c) (max (iteration_depth d) (iteration_depth e))))"
| "iteration_depth (CList es) = foldr max (map iteration_depth es) 0"
| "iteration_depth (CMap es) = foldr max (map entry_iteration_depth es) 0"
| "iteration_depth (CSelect e) = iteration_depth e"
| "iteration_depth (CStruct es) = foldr max (map entry_iteration_depth es) 0"
| "iteration_depth CIdent = 0" | "iteration_depth CLiteral = 0" | "iteration_depth CUnspecified = 0"
| "entry_iteration_depth (StructField v) = iteration_depth v"
| "entry_iteration_depth (MapEntry k v) = max (iteration_depth k) (iteration_depth v)"

definition sat_depth :: "nat \<Rightarrow> nat" where
  "sat_depth n = min n 255"

text \<open>What a subtree with \<open>k\<close> nested comprehensions, entered at \<open>depth\<close>, makes of the maximum.\<close>

definition deepest :: "byte \<Rightarrow> nat \<Rightarrow> nat \<Rightarrow> nat" where
  "deepest depth m k = (if k = 0 then m else max m (sat_depth (unat depth + k)))"

lemma deepest_0 [simp]: "deepest depth m 0 = m"
  by (simp add: deepest_def)

lemma deepest_max: "deepest depth (deepest depth m j) k = deepest depth m (max j k)"
  by (auto simp: deepest_def sat_depth_def)

lemma unat_depth_Suc: "unat (saturating_add depth 1 :: byte) = sat_depth (unat depth + 1)"
  by (simp add: unat_saturating_add sat_depth_def)

lemma deepest_enter:
  "deepest (saturating_add depth 1) (max m (unat (saturating_add depth 1 :: byte))) k = deepest depth m (1 + k)"
  by (auto simp: deepest_def unat_depth_Suc sat_depth_def)

lemma deepest_inside:
  "deepest (saturating_add depth 1) (deepest depth m (Suc j)) k = deepest depth m (Suc (max j k))"
  by (auto simp: deepest_def unat_depth_Suc sat_depth_def min_def max_def)

text \<open>A visitor counts \<open>n\<close> nodes and \<open>k\<close> nested comprehensions.\<close>

definition visits :: "(byte \<Rightarrow> nat \<times> byte \<Rightarrow> nat \<times> byte) \<Rightarrow> nat \<Rightarrow> nat \<Rightarrow> bool" where
  "visits v n k \<longleftrightarrow> (\<forall>depth st. fst (v depth st) = fst st + n
     \<and> unat (snd (v depth st)) = deepest depth (unat (snd st)) k)"

lemma visits_fold:
  "\<forall>x\<in>set xs. visits (v x) (n x) (k x) \<Longrightarrow>
     fst (fold (\<lambda>visit. visit depth) (map v xs) st) = fst st + sum_list (map n xs)
     \<and> unat (snd (fold (\<lambda>visit. visit depth) (map v xs) st)) = deepest depth (unat (snd st)) (foldr max (map k xs) 0)"
  by (induction xs arbitrary: st) (auto simp: visits_def deepest_max)

lemma node_fields [simp]: "fst (node st) = fst st + 1" "snd (node st) = snd st"
  by (simp_all add: node_def)

lemma raise_depth_fields [simp]:
  "fst (raise_depth d st) = fst st" "unat (snd (raise_depth d st)) = max (unat (snd st)) (unat d)"
  by (auto simp: raise_depth_def word_less_nat_alt)

lemma walk_visits:
  "visits (walk e) (nodes e) (iteration_depth e)"
  "visits (walk_entry en) (entry_nodes en) (entry_iteration_depth en)"
proof (induction e and en)
  case (CCall t args)
  have a: "\<forall>x\<in>set args. visits (walk x) (nodes x) (iteration_depth x)" using CCall(2) by blast
  show ?case
  proof (cases t)
    case None
    with visits_fold [OF a] show ?thesis unfolding visits_def by (simp del: split_paired_All)
  next
    case (Some u)
    then have "visits (walk u) (nodes u) (iteration_depth u)" using CCall(1) by simp
    with Some visits_fold [OF a] show ?thesis
      unfolding visits_def by (simp add: deepest_max del: split_paired_All)
  qed
next
  case (CComprehension a b c d e)
  then show ?case
    unfolding visits_def by (simp add: Let_def deepest_max deepest_enter deepest_inside max.assoc del: split_paired_All)
next
  case (CList es)
  then have "\<forall>x\<in>set es. visits (walk x) (nodes x) (iteration_depth x)" by blast
  from visits_fold [OF this] show ?case unfolding visits_def by (simp del: split_paired_All)
next
  case (CMap es)
  then have "\<forall>x\<in>set es. visits (walk_entry x) (entry_nodes x) (entry_iteration_depth x)" by blast
  from visits_fold [OF this] show ?case unfolding visits_def by (simp del: split_paired_All)
next
  case (CStruct es)
  then have "\<forall>x\<in>set es. visits (walk_entry x) (entry_nodes x) (entry_iteration_depth x)" by blast
  from visits_fold [OF this] show ?case unfolding visits_def by (simp del: split_paired_All)
qed (simp_all add: visits_def deepest_max del: split_paired_All)

text \<open>The static budget: an expression passes \<open>check_static_budget\<close> exactly when it
  parses, has at most \<open>max_ast_nodes\<close> nodes and nests comprehensions at most
  \<open>max_iteration_depth\<close> deep (the depth is counted in a saturating \<open>u8\<close>).\<close>

theorem static_budget_exact:
  "check_static_budget parse expr b = Ok () \<longleftrightarrow>
     (\<exists>ast. parse expr = Ok ast \<and> nodes ast \<le> max_ast_nodes b
        \<and> sat_depth (iteration_depth ast) \<le> unat (max_iteration_depth b))"
proof (cases "parse expr")
  case (Inr ast)
  have "fst (walk ast 0 (0, 0)) = nodes ast" and "unat (snd (walk ast 0 (0, 0))) = sat_depth (iteration_depth ast)"
    using walk_visits(1) [of ast] by (auto simp: visits_def deepest_def sat_depth_def)
  with Inr show ?thesis
    by (auto simp: check_static_budget_def case_prod_beta word_less_nat_alt not_less)
qed (simp add: check_static_budget_def)

end
