(* ===== verification/Circuit_Breaker.thy ===== *)
theory Circuit_Breaker
  imports Prelude
begin

text \<open>
  \<open>src/tiered_sink/circuit.rs\<close>: the circuit breaker that decides whether the tiered sink
  may use its hot path. The \<open>RwLock\<close> and the atomics of the struct are the fields of a
  record; each method takes the record and returns the new one, the system clock is the
  argument \<open>now\<close> (epoch milliseconds, \<open>u64\<close>). A \<open>Duration\<close> is its number of nanoseconds.
\<close>

datatype circuit_state = Closed | Open | HalfOpen

record circuit_breaker =
  cb_state :: circuit_state
  consecutive_failures :: u32
  failure_threshold :: u32
  reset_timeout :: nat
  last_failure_time :: u64
  health_state :: byte

datatype health_status = Healthy | Degraded | Unhealthy

definition health_code :: "circuit_state \<Rightarrow> byte" where
  "health_code st = (case st of Closed \<Rightarrow> 0 | Open \<Rightarrow> 1 | HalfOpen \<Rightarrow> 2)"

definition sync_health_state :: "circuit_state \<Rightarrow> circuit_breaker \<Rightarrow> circuit_breaker" where
  "sync_health_state st cb = cb\<lparr>health_state := health_code st\<rparr>"

text \<open>The health-registry callback that \<open>new\<close> registers.\<close>

definition health_probe :: "circuit_breaker \<Rightarrow> health_status" where
  "health_probe cb =
     (if health_state cb = 0 then Healthy
      else if health_state cb = 2 then Degraded else Unhealthy)"

definition cb_new :: "u32 \<Rightarrow> nat \<Rightarrow> circuit_breaker" where
  "cb_new threshold timeout =
     \<lparr>cb_state = Closed, consecutive_failures = 0, failure_threshold = threshold,
      reset_timeout = timeout, last_failure_time = 0, health_state = 0\<rparr>"

definition millis :: "u64 \<Rightarrow> nat" where
  "millis ms = 1000000 * unat ms"

definition state :: "u64 \<Rightarrow> circuit_breaker \<Rightarrow> circuit_breaker \<times> circuit_state" where
  "state now cb =
     (let cb' = (if cb_state cb = Open then
                   (let elapsed = millis (saturating_sub now (last_failure_time cb)) in
                    if reset_timeout cb \<le> elapsed
                    then sync_health_state HalfOpen (cb\<lparr>cb_state := HalfOpen\<rparr>) else cb)
                 else cb)
      in (cb', cb_state cb'))"

definition is_closed :: "u64 \<Rightarrow> circuit_breaker \<Rightarrow> circuit_breaker \<times> bool" where
  "is_closed now cb = (let (cb', st) = state now cb in (cb', st = Closed))"

definition is_open :: "u64 \<Rightarrow> circuit_breaker \<Rightarrow> circuit_breaker \<times> bool" where
  "is_open now cb = (let (cb', st) = state now cb in (cb', st = Open))"

definition record_success :: "circuit_breaker \<Rightarrow> circuit_breaker" where
  "record_success cb =
     sync_health_state Closed (cb\<lparr>consecutive_failures := 0, cb_state := Closed\<rparr>)"

definition record_failure :: "u64 \<Rightarrow> circuit_breaker \<Rightarrow> circuit_breaker" where
  "record_failure now cb =
     (let failures = consecutive_failures cb + 1;
          cb' = cb\<lparr>consecutive_failures := failures, last_failure_time := now\<rparr>
      in if failure_threshold cb' \<le> failures
         then sync_health_state Open (cb'\<lparr>cb_state := Open\<rparr>) else cb')"

definition reset :: "circuit_breaker \<Rightarrow> circuit_breaker" where
  "reset cb =
     sync_health_state Closed (cb\<lparr>consecutive_failures := 0, cb_state := Closed\<rparr>)"

lemmas cb_defs = state_def is_closed_def is_open_def record_success_def record_failure_def
  reset_def sync_health_state_def

subsection \<open>The event machine and its invariant\<close>

datatype cb_event = Query u64 | Success | Failure u64 | Reset

fun cb_apply :: "cb_event \<Rightarrow> circuit_breaker \<Rightarrow> circuit_breaker" where
  "cb_apply (Query now) cb = fst (state now cb)"
| "cb_apply Success cb = record_success cb"
| "cb_apply (Failure now) cb = record_failure now cb"
| "cb_apply Reset cb = reset cb"

definition cb_run :: "cb_event list \<Rightarrow> circuit_breaker \<Rightarrow> circuit_breaker" where
  "cb_run es cb = fold cb_apply es cb"

text \<open>The atomic mirror that the health registry reads always agrees with the lock.\<close>

definition mirror_ok :: "circuit_breaker \<Rightarrow> bool" where
  "mirror_ok cb \<longleftrightarrow> health_state cb = health_code (cb_state cb)"

lemma mirror_new: "mirror_ok (cb_new n t)"
  by (simp add: mirror_ok_def cb_new_def health_code_def)

lemma mirror_apply: "mirror_ok cb \<Longrightarrow> mirror_ok (cb_apply e cb)"
  by (cases e) (auto simp: mirror_ok_def cb_defs Let_def)

lemma mirror_run: "mirror_ok cb \<Longrightarrow> mirror_ok (cb_run es cb)"
  unfolding cb_run_def by (induction es arbitrary: cb) (auto simp: mirror_apply)


text \<open>
  Outside \<open>Closed\<close> the failure counter stays at or above the threshold: neither \<open>state\<close>
  nor \<open>record_failure\<close> lowers it. The counter is a \<open>u32\<close> that wraps, so the invariant
  also bounds it by the number of failures recorded so far.
\<close>

definition tripped_ok :: "nat \<Rightarrow> circuit_breaker \<Rightarrow> bool" where
  "tripped_ok n cb \<longleftrightarrow>
     (cb_state cb \<noteq> Closed \<longrightarrow> failure_threshold cb \<le> consecutive_failures cb)
     \<and> unat (consecutive_failures cb) \<le> n"

fun failures_in :: "cb_event list \<Rightarrow> nat" where
  "failures_in [] = 0"
| "failures_in (Failure _ # es) = Suc (failures_in es)"
| "failures_in (_ # es) = failures_in es"

lemma unat_Suc_u32: "unat (c :: u32) < 2 ^ 32 - 1 \<Longrightarrow> unat (c + 1) = Suc (unat c)"
  by (simp add: unat_word_ariths)

lemma cb_state_record_failure:
  "cb_state (record_failure now cb) =
     (if failure_threshold cb \<le> consecutive_failures cb + 1 then Open else cb_state cb)"
  by (simp add: cb_defs Let_def)

lemma failure_counts:
  assumes "tripped_ok n cb" and "n < 2 ^ 32 - 1"
  shows "tripped_ok (Suc n) (record_failure now cb)"
proof -
  from assms have "unat (consecutive_failures cb + 1) = Suc (unat (consecutive_failures cb))"
    by (intro unat_Suc_u32) (simp add: tripped_ok_def)
  with assms(1) show ?thesis
    by (auto simp: tripped_ok_def cb_defs Let_def word_le_nat_alt)
qed

lemma tripped_apply:
  assumes "tripped_ok n cb" and "n + failures_in [e] < 2 ^ 32"
  shows "tripped_ok (n + failures_in [e]) (cb_apply e cb)"
proof (cases e)
  case (Failure now)
  with assms show ?thesis using failure_counts [of n cb now] by simp
qed (use assms(1) in \<open>auto simp: tripped_ok_def cb_defs Let_def\<close>)

lemma failures_in_Cons: "failures_in (e # es) = failures_in [e] + failures_in es"
  by (cases e) simp_all

lemma tripped_run:
  "tripped_ok n cb \<Longrightarrow> n + failures_in es < 2 ^ 32 \<Longrightarrow>
     tripped_ok (n + failures_in es) (cb_run es cb)"
proof (induction es arbitrary: n cb)
  case Nil
  then show ?case by (simp add: cb_run_def)
next
  case (Cons e es)
  from Cons.prems have "tripped_ok (n + failures_in [e]) (cb_apply e cb)"
    using failures_in_Cons [of e es] by (intro tripped_apply) simp_all
  from Cons.IH [OF this] Cons.prems(2) show ?case
    using failures_in_Cons [of e es] by (simp add: cb_run_def add.assoc)
qed

lemma tripped_new: "tripped_ok 0 (cb_new thr timeout)"
  by (simp add: tripped_ok_def cb_new_def)

lemma consecutive_failures_fold:
  "length ts + unat (consecutive_failures cb) < 2 ^ 32 \<Longrightarrow>
     unat (consecutive_failures (fold record_failure ts cb))
       = unat (consecutive_failures cb) + length ts
     \<and> failure_threshold (fold record_failure ts cb) = failure_threshold cb"
proof (induction ts arbitrary: cb)
  case (Cons t ts)
  then have "unat (consecutive_failures (record_failure t cb))
      = Suc (unat (consecutive_failures cb))"
    using unat_Suc_u32 [of "consecutive_failures cb"] by (simp add: cb_defs Let_def)
  with Cons.IH [of "record_failure t cb"] Cons.prems show ?case
    by (simp add: cb_defs Let_def split: if_splits)
qed simp

subsection \<open>The contract a client of the breaker relies on\<close>

text \<open>
  The tiered sink and its drainer see the breaker through three calls. The laws are what
  both rely on: a success closes the circuit whatever its past, a query answers the same
  when repeated at the same instant, and a query that answers \<open>Open\<close> changed nothing.
\<close>

locale breaker =
  fixes query :: "u64 \<Rightarrow> 'c \<Rightarrow> 'c \<times> circuit_state"
    and ok :: "'c \<Rightarrow> 'c"
    and fail :: "u64 \<Rightarrow> 'c \<Rightarrow> 'c"
  assumes query_ok: "query now (ok c) = (ok c, Closed)"
    and query_idem: "query now c = (c', st) \<Longrightarrow> query now c' = (c', st)"
    and query_open: "query now c = (c', Open) \<Longrightarrow> c' = c"
begin

lemma queries_after_ok: "fold (\<lambda>now c. fst (query now c)) ts (ok c) = ok c"
  by (induction ts) (simp_all add: query_ok)

lemma admitted_after_ok:
  "snd (query now (fold (\<lambda>now c. fst (query now c)) ts (ok c))) = Closed"
  by (simp add: queries_after_ok query_ok)

end

interpretation cb: breaker state record_success record_failure
  by unfold_locales (auto simp: cb_defs Let_def split: if_splits)

subsection \<open>Properties\<close>

text \<open>Health mirror. In every reachable breaker the health registry's probe, which reads only
  the atomic mirror, reports exactly the state behind the lock: Closed is Healthy, HalfOpen
  is Degraded, Open is Unhealthy.
\<close>

theorem health_probe_mirrors_state:
  "health_probe (cb_run es (cb_new thr timeout)) =
     (case cb_state (cb_run es (cb_new thr timeout)) of
        Closed \<Rightarrow> Healthy | HalfOpen \<Rightarrow> Degraded | Open \<Rightarrow> Unhealthy)"
  using mirror_run [OF mirror_new, of es thr timeout]
  by (simp add: mirror_ok_def health_probe_def health_code_def split: circuit_state.splits)

text \<open>Trip point. A fresh breaker that sees only failures opens at exactly the configured
  number of consecutive failures (a threshold of 0 opens at the first one).
\<close>

theorem opens_at_threshold:
  assumes "ts \<noteq> []" and "length ts < 2 ^ 32"
  shows "cb_state (fold record_failure ts (cb_new thr timeout)) =
     (if unat thr \<le> length ts then Open else Closed)"
  using assms
proof (induction ts rule: rev_induct)
  case (snoc t ts)
  let ?c = "fold record_failure ts (cb_new thr timeout)"
  have n: "unat (consecutive_failures ?c) = length ts" and th: "failure_threshold ?c = thr"
    using consecutive_failures_fold [of ts "cb_new thr timeout"] snoc.prems(2)
    by (simp_all add: cb_new_def)
  have "unat (consecutive_failures ?c + 1) = Suc (length ts)"
    using unat_Suc_u32 [of "consecutive_failures ?c"] n snoc.prems(2) by simp
  moreover have "cb_state ?c = Closed" if "length ts < unat thr"
    using snoc.IH snoc.prems(2) that by (cases "ts = []") (simp_all add: cb_new_def)
  ultimately show ?case
    using n th by (simp add: cb_state_record_failure word_le_nat_alt not_le)
qed simp

theorem opens_at_threshold_witness:
  "cb_state (fold record_failure [10, 20, 30] (cb_new 3 5000)) = Open
   \<and> cb_state (fold record_failure [10, 20] (cb_new 3 5000)) = Closed"
  using opens_at_threshold [of "[10, 20, 30]" 3 5000] opens_at_threshold [of "[10, 20]" 3 5000]
  by simp

text \<open>Probe outcome. Once a reachable breaker has left Closed (and fewer than \<open>2^32 - 1\<close>
  failures were recorded), one more failure re-opens it with a fresh deadline and one
  success closes it, clears the counter and admits every later request.
\<close>

theorem probe_decides:
  assumes "failures_in es < 2 ^ 32 - 1"
    and "cb_state (cb_run es (cb_new thr timeout)) \<noteq> Closed"
  shows "let cb = cb_run es (cb_new thr timeout) in
       cb_state (record_failure now cb) = Open
     \<and> last_failure_time (record_failure now cb) = now
     \<and> consecutive_failures (record_success cb) = 0
     \<and> snd (state later (fold (\<lambda>t c. fst (state t c)) ts (record_success cb))) = Closed"
proof -
  let ?cb = "cb_run es (cb_new thr timeout)"
  have ok: "tripped_ok (failures_in es) ?cb"
    using tripped_run [OF tripped_new, of es thr timeout] assms(1) by simp
  then have "unat (consecutive_failures ?cb + 1) = Suc (unat (consecutive_failures ?cb))"
    using assms(1) by (intro unat_Suc_u32) (simp add: tripped_ok_def)
  with ok assms(2) have "failure_threshold ?cb \<le> consecutive_failures ?cb + 1"
    by (simp add: tripped_ok_def word_le_nat_alt)
  then show ?thesis
    using cb.admitted_after_ok [of later ts ?cb]
    by (simp add: record_failure_def record_success_def sync_health_state_def Let_def)
qed

theorem probe_decides_witness:
  "let cb = cb_run [Failure 1, Query 100] (cb_new 1 5) in
     cb_state cb = HalfOpen \<and> cb_state (record_failure 200 cb) = Open
   \<and> snd (state 300 (fold (\<lambda>t c. fst (state t c)) [250] (record_success cb))) = Closed"
proof -
  have h: "cb_state (cb_run [Failure 1, Query 100] (cb_new 1 5)) = HalfOpen"
    by (simp add: cb_run_def cb_defs cb_new_def Let_def millis_def saturating_sub_def)
  show ?thesis
    using probe_decides [of "[Failure 1, Query 100]" 1 5 200 300 "[250]"] h
    by (simp add: Let_def)
qed

text \<open>Half-open admits without limit. A half-open breaker answers HalfOpen to every query and
  no number of queries changes it, so every concurrent caller is let through until one of
  them records its outcome; the doc comment of \<open>CircuitState::HalfOpen\<close> speaks of one
  probe request.
\<close>

theorem half_open_not_single_probe:
  assumes "cb_state cb = HalfOpen"
  shows "fold (\<lambda>t c. fst (state t c)) ts cb = cb \<and> snd (state now cb) = HalfOpen"
  using assms by (induction ts) (simp_all add: state_def)

theorem half_open_not_single_probe_witness:
  "snd (state 100 (cb_run [Failure 1, Query 100] (cb_new 1 5))) = HalfOpen"
proof -
  have "cb_state (cb_run [Failure 1, Query 100] (cb_new 1 5)) = HalfOpen"
    by (simp add: cb_run_def cb_defs cb_new_def Let_def millis_def saturating_sub_def)
  from half_open_not_single_probe [OF this, of "[]" 100] show ?thesis by simp
qed

end
