(* ===== verification/F64.thy ===== *)
theory F64
  imports Complex_Main Prelude
begin

text \<open>
  IEEE-754 binary64 as the sources use it through Rust's \<open>f64\<close>: finite values as
  rationals, the two infinities and NaN. Every arithmetic operation is the exact rational
  result rounded to nearest, ties to even, with gradual underflow and overflow to infinity.
  The two zeros are one value: no code modelled here looks at the sign of a zero. The
  operations are executable; the lemmas the components use are that rounding is monotone
  and leaves representable values alone.
\<close>

datatype f64 = Fin rat | PInf | NInf | NaN

subsection \<open>Rounding\<close>

definition rhe :: "rat \<Rightarrow> int" where
  "rhe q = (let f = \<lfloor>q\<rfloor>; d = q - of_int f in
     if d < 1 / 2 then f else if 1 / 2 < d then f + 1 else if even f then f else f + 1)"

fun ilog2 :: "nat \<Rightarrow> nat" where
  "ilog2 n = (if n < 2 then 0 else Suc (ilog2 (n div 2)))"

declare ilog2.simps [simp del]

definition pow2 :: "int \<Rightarrow> rat" where
  "pow2 e = (if 0 \<le> e then 2 ^ nat e else 1 / 2 ^ nat (- e))"

text \<open>The exponent of a positive rational: \<open>pow2 (binade q) \<le> q < pow2 (binade q + 1)\<close>.\<close>

definition binade :: "rat \<Rightarrow> int" where
  "binade q = (let (n, d) = quotient_of q; e = int (ilog2 (nat n)) - int (ilog2 (nat d))
     in if pow2 e \<le> q then e else e - 1)"

definition ulp :: "rat \<Rightarrow> rat" where
  "ulp q = pow2 (max (binade q) (- 1022) - 52)"

definition rndp :: "rat \<Rightarrow> rat" where
  "rndp q = of_int (rhe (q / ulp q)) * ulp q"

definition rnd :: "rat \<Rightarrow> rat" where
  "rnd q = (if q = 0 then 0 else if q < 0 then - rndp (- q) else rndp q)"

definition f64_round :: "rat \<Rightarrow> f64" where
  "f64_round q = (let r = rnd q in if r \<ge> 2 ^ 1024 then PInf else if r \<le> - (2 ^ 1024) then NInf else Fin r)"

subsection \<open>Operations\<close>

definition rat_of_u64 :: "u64 \<Rightarrow> rat" where
  "rat_of_u64 w = of_nat (unat w)"

definition f64_of_u64 :: "u64 \<Rightarrow> f64" where
  "f64_of_u64 w = f64_round (rat_of_u64 w)"

text \<open>\<open>as u64\<close>: truncation, NaN and negative values to 0, saturation above.\<close>

fun f64_to_u64 :: "f64 \<Rightarrow> u64" where
  "f64_to_u64 NaN = 0"
| "f64_to_u64 NInf = 0"
| "f64_to_u64 PInf = - 1"
| "f64_to_u64 (Fin q) = (if q < 1 then 0 else if 2 ^ 64 \<le> q then - 1 else of_nat (nat \<lfloor>q\<rfloor>))"

fun f64_neg :: "f64 \<Rightarrow> f64" where
  "f64_neg (Fin q) = Fin (- q)" | "f64_neg PInf = NInf" | "f64_neg NInf = PInf" | "f64_neg NaN = NaN"

fun f64_add :: "f64 \<Rightarrow> f64 \<Rightarrow> f64" where
  "f64_add (Fin a) (Fin b) = f64_round (a + b)"
| "f64_add NaN _ = NaN" | "f64_add _ NaN = NaN"
| "f64_add PInf NInf = NaN" | "f64_add NInf PInf = NaN"
| "f64_add PInf _ = PInf" | "f64_add _ PInf = PInf"
| "f64_add NInf _ = NInf" | "f64_add _ NInf = NInf"

definition f64_sub :: "f64 \<Rightarrow> f64 \<Rightarrow> f64" where
  "f64_sub a b = f64_add a (f64_neg b)"

fun f64_sgn :: "f64 \<Rightarrow> int" where
  "f64_sgn (Fin q) = (if q < 0 then - 1 else if q = 0 then 0 else 1)"
| "f64_sgn PInf = 1" | "f64_sgn NInf = - 1" | "f64_sgn NaN = 0"

definition f64_inf :: "int \<Rightarrow> f64" where
  "f64_inf s = (if s = 0 then NaN else if s < 0 then NInf else PInf)"

fun f64_mul :: "f64 \<Rightarrow> f64 \<Rightarrow> f64" where
  "f64_mul (Fin a) (Fin b) = f64_round (a * b)"
| "f64_mul NaN _ = NaN" | "f64_mul _ NaN = NaN"
| "f64_mul a b = f64_inf (f64_sgn a * f64_sgn b)"

fun f64_div :: "f64 \<Rightarrow> f64 \<Rightarrow> f64" where
  "f64_div (Fin a) (Fin b) = (if b = 0 then f64_inf (f64_sgn (Fin a)) else f64_round (a / b))"
| "f64_div NaN _ = NaN" | "f64_div _ NaN = NaN"
| "f64_div (Fin a) _ = Fin 0"
| "f64_div a (Fin b) = f64_inf (f64_sgn a * (if b < 0 then - 1 else 1))"
| "f64_div _ _ = NaN"

fun f64_le :: "f64 \<Rightarrow> f64 \<Rightarrow> bool" where
  "f64_le (Fin a) (Fin b) = (a \<le> b)"
| "f64_le NaN _ = False" | "f64_le _ NaN = False"
| "f64_le NInf _ = True" | "f64_le _ PInf = True"
| "f64_le _ _ = False"

fun f64_lt :: "f64 \<Rightarrow> f64 \<Rightarrow> bool" where
  "f64_lt (Fin a) (Fin b) = (a < b)"
| "f64_lt NaN _ = False" | "f64_lt _ NaN = False"
| "f64_lt NInf NInf = False" | "f64_lt PInf PInf = False"
| "f64_lt NInf _ = True" | "f64_lt _ PInf = True"
| "f64_lt _ _ = False"

fun is_finite :: "f64 \<Rightarrow> bool" where
  "is_finite (Fin _) = True" | "is_finite _ = False"

fun is_nan :: "f64 \<Rightarrow> bool" where
  "is_nan NaN = True" | "is_nan _ = False"

text \<open>\<open>f64::max\<close>, \<open>f64::min\<close> ignore a NaN operand; \<open>f64::clamp\<close> keeps NaN.\<close>

definition f64_max :: "f64 \<Rightarrow> f64 \<Rightarrow> f64" where
  "f64_max a b = (if is_nan a then b else if is_nan b then a else if f64_le a b then b else a)"

definition f64_min :: "f64 \<Rightarrow> f64 \<Rightarrow> f64" where
  "f64_min a b = (if is_nan a then b else if is_nan b then a else if f64_le a b then a else b)"

definition f64_clamp :: "f64 \<Rightarrow> f64 \<Rightarrow> f64 \<Rightarrow> f64" where
  "f64_clamp x lo hi = (if f64_lt x lo then lo else if f64_lt hi x then hi else x)"

subsection \<open>Rounding is monotone\<close>

lemma pow2_powi: "pow2 e = 2 powi e"
  by (cases "0 \<le> e") (simp_all add: pow2_def power_int_def inverse_eq_divide power_one_over)

lemma pow2_pos [simp]: "0 < pow2 e"
  by (simp add: pow2_def)

lemma pow2_add: "pow2 (a + b) = pow2 a * pow2 b"
  by (simp add: pow2_powi power_int_add)

lemma pow2_nat: "pow2 (int n) = 2 ^ n"
  by (simp add: pow2_def)

lemma pow2_mono: "a \<le> b \<Longrightarrow> pow2 a \<le> pow2 b"
  by (simp add: pow2_powi power_int_increasing)

lemma pow2_less_iff: "pow2 a < pow2 b \<longleftrightarrow> a < b"
proof
  show "a < b" if "pow2 a < pow2 b"
    using that pow2_mono [of b a] by (meson linorder_not_le)
  show "pow2 a < pow2 b" if "a < b"
    using that power_int_strict_increasing [of a b "2 :: rat"] by (simp add: pow2_powi)
qed

lemma rhe_bounds: "\<lfloor>q\<rfloor> \<le> rhe q" "rhe q \<le> \<lfloor>q\<rfloor> + 1"
  by (auto simp: rhe_def Let_def)

lemma rhe_of_int [simp]: "rhe (of_int m) = m"
  by (simp add: rhe_def)

lemma rhe_mono: "q \<le> q' \<Longrightarrow> rhe q \<le> rhe q'"
proof (cases "\<lfloor>q\<rfloor> = \<lfloor>q'\<rfloor>")
  case True
  moreover assume "q \<le> q'"
  ultimately show ?thesis by (auto simp: rhe_def Let_def)
next
  case False
  moreover assume "q \<le> q'"
  ultimately have "\<lfloor>q\<rfloor> + 1 \<le> \<lfloor>q'\<rfloor>" using floor_mono [of q q'] by linarith
  then show ?thesis using rhe_bounds [of q] rhe_bounds [of q'] by linarith
qed

lemma ilog2_bounds: "0 < n \<Longrightarrow> 2 ^ ilog2 n \<le> n \<and> n < 2 ^ Suc (ilog2 n)"
proof (induction n rule: ilog2.induct)
  case (1 n)
  show ?case
  proof (cases "n < 2")
    case True
    with "1.prems" show ?thesis by (simp add: ilog2.simps)
  next
    case False
    with 1 have "2 ^ ilog2 (n div 2) \<le> n div 2" "n div 2 < 2 ^ Suc (ilog2 (n div 2))" by simp_all
    with False show ?thesis by (subst (1 2) ilog2.simps) auto
  qed
qed

lemma quotient_power_bounds:
  fixes x y A B :: rat
  assumes "0 < A" "0 < B" "x < 2 * A" "A \<le> x" "y < 2 * B" "B \<le> y"
  shows "x / y < 2 * A / B" and "A / (2 * B) < x / y"
proof -
  have "x * B < 2 * A * B" using assms by simp
  also have "\<dots> \<le> 2 * A * y" using assms by simp
  finally show "x / y < 2 * A / B" using assms by (simp add: field_simps)
  have "A * y < A * (2 * B)" using assms by simp
  also have "\<dots> \<le> x * (2 * B)" using assms by simp
  finally show "A / (2 * B) < x / y" using assms by (simp add: field_simps)
qed

lemma binade_bounds:
  assumes "0 < q"
  shows "pow2 (binade q) \<le> q" and "q < pow2 (binade q + 1)"
proof -
  obtain n d where nd: "quotient_of q = (n, d)" by (cases "quotient_of q")
  then have q: "q = of_int n / of_int d" and d: "0 < d"
    by (simp_all add: quotient_of_div quotient_of_denom_pos)
  with assms have n: "0 < n" by (simp add: zero_less_divide_iff)
  define a b where "a = ilog2 (nat n)" and "b = ilog2 (nat d)"
  have up: "(of_int z :: rat) < 2 * 2 ^ ilog2 (nat z)" and lo: "2 ^ ilog2 (nat z) \<le> (of_int z :: rat)"
    if "0 < z" for z
  proof -
    have "nat z < 2 * 2 ^ ilog2 (nat z)" "2 ^ ilog2 (nat z) \<le> nat z"
      using ilog2_bounds [of "nat z"] that by simp_all
    then have "(of_nat (nat z) :: rat) < of_nat (2 * 2 ^ ilog2 (nat z))"
      "(of_nat (2 ^ ilog2 (nat z)) :: rat) \<le> of_nat (nat z)"
      by (simp_all only: of_nat_less_iff of_nat_le_iff)
    with that show "(of_int z :: rat) < 2 * 2 ^ ilog2 (nat z)" "2 ^ ilog2 (nat z) \<le> (of_int z :: rat)"
      by (simp_all add: of_nat_nat)
  qed
  have e: "pow2 (int a - int b) = 2 ^ a / 2 ^ b"
    by (simp add: pow2_powi power_int_diff)
  have "q < 2 * 2 ^ a / 2 ^ b" and "2 ^ a / (2 * 2 ^ b) < q"
    using quotient_power_bounds [OF _ _ up [OF n] lo [OF n] up [OF d] lo [OF d]]
    by (simp_all add: q a_def b_def)
  then have "q < 2 * pow2 (int a - int b)" "pow2 (int a - int b) / 2 < q"
    by (simp_all add: e)
  moreover have "pow2 (int a - int b + 1) = 2 * pow2 (int a - int b)"
    "pow2 (int a - int b - 1) = pow2 (int a - int b) / 2"
    using pow2_add [of "int a - int b" 1] pow2_add [of "int a - int b" "- 1"] by (simp_all add: pow2_def)
  moreover have "binade q = (if pow2 (int a - int b) \<le> q then int a - int b else int a - int b - 1)"
    by (simp add: binade_def nd Let_def a_def b_def)
  ultimately show "pow2 (binade q) \<le> q" "q < pow2 (binade q + 1)"
    by (auto simp: not_le)
qed

lemma binade_mono: "0 < q \<Longrightarrow> q \<le> q' \<Longrightarrow> binade q \<le> binade q'"
  using binade_bounds [of q] binade_bounds [of q'] pow2_less_iff [of "binade q" "binade q' + 1"]
  by linarith

lemma binade_le: "0 < q \<Longrightarrow> q < pow2 (e + 1) \<Longrightarrow> binade q \<le> e"
  using binade_bounds [of q] pow2_less_iff [of "binade q" "e + 1"] by linarith

lemma ulp_pos [simp]: "0 < ulp q"
  by (simp add: ulp_def)

text \<open>Every binade boundary above the subnormals is a multiple of the spacing below it.\<close>

lemma rndp_grid:
  assumes "0 < q" and "q \<le> of_int m * ulp q"
  shows "rndp q \<le> of_int m * ulp q"
proof -
  have "q / ulp q \<le> of_int m" using assms by (simp add: divide_le_eq)
  then have "rhe (q / ulp q) \<le> m" using rhe_mono [of "q / ulp q" "of_int m"] by simp
  then show ?thesis unfolding rndp_def by (intro mult_right_mono) (simp_all add: less_imp_le)
qed

lemma rndp_grid_ge:
  assumes "of_int m * ulp q \<le> q"
  shows "of_int m * ulp q \<le> rndp q"
proof -
  have "of_int m \<le> q / ulp q" using assms by (simp add: le_divide_eq)
  then have "m \<le> rhe (q / ulp q)" using rhe_mono [of "of_int m" "q / ulp q"] by simp
  then show ?thesis unfolding rndp_def by (intro mult_right_mono) (simp_all add: less_imp_le)
qed

lemma rndp_mono:
  assumes "0 < q" and "q \<le> q'"
  shows "rndp q \<le> rndp q'"
proof (cases "ulp q = ulp q'")
  case True
  have "q / ulp q \<le> q' / ulp q" using assms by (simp add: divide_right_mono less_imp_le)
  then show ?thesis
    using rhe_mono [of "q / ulp q" "q' / ulp q"] True
    by (simp add: rndp_def mult_right_mono less_imp_le)
next
  case False
  let ?e = "max (binade q) (- 1022)" and ?e' = "max (binade q') (- 1022)"
  have lt: "?e < ?e'"
    using False binade_mono [OF assms] by (cases "?e = ?e'") (auto simp: ulp_def max_def)
  have top: "pow2 (?e + 1) = of_int (2 ^ 53) * ulp q"
    using pow2_add [of "?e - 52" 53] pow2_nat [of 53]
    by (simp add: ulp_def add.commute mult.commute)
  have "q \<le> pow2 (?e + 1)"
    using binade_bounds(2) [OF assms(1)] pow2_mono [of "binade q + 1" "?e + 1"] by simp
  then have "rndp q \<le> pow2 (?e + 1)"
    using rndp_grid [OF assms(1), of "2 ^ 53"] top by simp
  also have "\<dots> \<le> pow2 ?e'" using zless_imp_add1_zle [OF lt] by (rule pow2_mono)
  also have "\<dots> \<le> rndp q'"
  proof -
    have "pow2 ?e' = of_int (2 ^ 52) * ulp q'"
      using pow2_add [of "?e' - 52" 52] pow2_nat [of 52] by (simp add: ulp_def)
    moreover have "pow2 ?e' \<le> q'"
      using binade_bounds(1) [of q'] assms lt by (simp add: max_def split: if_splits)
    ultimately show ?thesis using rndp_grid_ge [of "2 ^ 52" q'] by simp
  qed
  finally show ?thesis .
qed

lemma rndp_nonneg: "0 < q \<Longrightarrow> 0 \<le> rndp q"
  using rndp_grid_ge [of 0 q] by simp

lemma rnd_mono: "q \<le> q' \<Longrightarrow> rnd q \<le> rnd q'"
  using rndp_mono [of q q'] rndp_mono [of "- q'" "- q"] rndp_nonneg [of q'] rndp_nonneg [of "- q"]
  by (auto simp: rnd_def)

lemma rndp_exact:
  assumes "0 < m" and "m < 2 ^ 53" and "- 1074 \<le> k"
  shows "rndp (of_int m * pow2 k) = of_int m * pow2 k"
proof -
  let ?q = "of_int m * pow2 k"
  have pos: "0 < ?q" using assms by simp
  have "(of_int m :: rat) < 2 ^ 53" using assms(2) by (metis of_int_less_iff of_int_numeral of_int_power)
  then have "?q < 2 ^ 53 * pow2 k" by simp
  also have "\<dots> = pow2 (k + 52 + 1)" using pow2_add [of k 53] pow2_nat [of 53] by (simp add: algebra_simps)
  finally have "binade ?q \<le> k + 52" by (rule binade_le [OF pos])
  then have le: "max (binade ?q) (- 1022) - 52 \<le> k" using assms(3) by simp
  define j where "j = nat (k - (max (binade ?q) (- 1022) - 52))"
  have "pow2 k = ulp ?q * 2 ^ j"
    using le pow2_add [of "max (binade ?q) (- 1022) - 52" "int j"] pow2_nat [of j]
    by (simp add: ulp_def j_def)
  then have q: "?q = of_int (m * 2 ^ j) * ulp ?q" by (simp add: mult.commute)
  then have "?q / ulp ?q = of_int (m * 2 ^ j)"
    by (metis nonzero_mult_div_cancel_right less_irrefl ulp_pos)
  then show ?thesis using q by (simp only: rndp_def rhe_of_int)
qed

lemma rnd_0 [simp]: "rnd 0 = 0"
  by (simp add: rnd_def)

lemma rnd_pos: "0 < q \<Longrightarrow> rnd q = rndp q"
  by (simp add: rnd_def)

lemma rnd_exact_pos: "0 \<le> m \<Longrightarrow> m < 2 ^ 53 \<Longrightarrow> - 1074 \<le> k \<Longrightarrow> rnd (of_int m * pow2 k) = of_int m * pow2 k"
proof (cases "m = 0")
  case False
  assume "0 \<le> m" "m < 2 ^ 53" "- 1074 \<le> k"
  moreover from this False have "0 < of_int m * pow2 k" by simp
  ultimately show ?thesis using False rndp_exact [of m k] by (simp only: rnd_pos)
qed simp

lemma rnd_1 [simp]: "rnd 1 = 1"
  using rnd_exact_pos [of 1 0] by (simp add: pow2_def)

lemma rnd_half [simp]: "rnd (1 / 2) = 1 / 2"
  using rnd_exact_pos [of 1 "- 1"] by (simp add: pow2_def)

lemma rnd_nonneg: "0 \<le> q \<Longrightarrow> 0 \<le> rnd q"
  using rnd_mono [of 0 q] by simp

lemma rnd_le_1: "q \<le> 1 \<Longrightarrow> rnd q \<le> 1"
  using rnd_mono [of q 1] by simp

lemma rnd_ge_1: "1 \<le> q \<Longrightarrow> 1 \<le> rnd q"
  using rnd_mono [of 1 q] by simp

lemma rnd_pow2: "- 1022 \<le> e \<Longrightarrow> rnd (pow2 e) = pow2 e"
  using rnd_exact_pos [of 1 e] by simp

lemma rnd_of_nat: "n < 2 ^ 53 \<Longrightarrow> rnd (of_nat n) = of_nat n"
proof -
  assume "n < 2 ^ 53"
  then have "int n < 2 ^ 53" by (metis of_nat_less_iff of_nat_numeral of_nat_power)
  then show ?thesis using rnd_exact_pos [of "int n" 0] by (simp add: pow2_def)
qed

lemma f64_round_unit: "0 \<le> q \<Longrightarrow> q \<le> 1 \<Longrightarrow> \<exists>r. f64_round q = Fin r \<and> 0 \<le> r \<and> r \<le> 1"
proof -
  assume "0 \<le> q" "q \<le> 1"
  then have "0 \<le> rnd q" "rnd q \<le> 1" by (simp_all add: rnd_nonneg rnd_le_1)
  moreover from this have "\<not> 2 ^ 1024 \<le> rnd q" "\<not> rnd q \<le> - (2 ^ 1024)"
    by (simp_all add: not_le order_le_less_trans [of _ 1] order_less_le_trans [of _ 0])
  ultimately show ?thesis by (simp add: f64_round_def Let_def)
qed

subsection \<open>Conversions from \<open>u64\<close>\<close>

lemma rat_of_u64_le_iff: "rat_of_u64 a \<le> rat_of_u64 b \<longleftrightarrow> a \<le> b"
  unfolding rat_of_u64_def of_nat_le_iff by (simp add: word_le_nat_alt)

lemma rat_of_u64_0 [simp]: "rat_of_u64 0 = 0"
  by (simp add: rat_of_u64_def)

lemma rat_of_u64_nonneg [simp]: "0 \<le> rat_of_u64 w"
  unfolding rat_of_u64_def by (rule of_nat_0_le_iff)

lemma rat_of_u64_ge_1: "0 < w \<Longrightarrow> 1 \<le> rat_of_u64 w"
  using rat_of_u64_le_iff [of 1 w] by (simp add: rat_of_u64_def word_less_nat_alt word_le_nat_alt)

lemma rat_of_u64_less: "rat_of_u64 w < pow2 64"
proof -
  have "(of_nat (unat w) :: rat) < of_nat (2 ^ 64)"
    using unat_less_2p [of w] by (simp only: of_nat_less_iff) simp
  then show ?thesis unfolding rat_of_u64_def by (simp add: pow2_def)
qed

lemma f64_round_Fin:
  assumes "0 \<le> q" and "q \<le> pow2 64"
  shows "f64_round q = Fin (rnd q)"
proof -
  have "rnd q \<le> pow2 64" using rnd_mono [OF assms(2)] rnd_pow2 [of 64] by simp
  moreover have "pow2 64 < 2 ^ 1024"
    using pow2_less_iff [of 64 1024] pow2_nat [of 1024] by simp
  moreover have "0 \<le> rnd q" using assms by (simp add: rnd_nonneg)
  moreover have "(0 :: rat) < 2 ^ 1024" by simp
  ultimately have "\<not> 2 ^ 1024 \<le> rnd q" "\<not> rnd q \<le> - (2 ^ 1024)" by linarith+
  then show ?thesis by (simp only: f64_round_def Let_def if_False)
qed

lemma f64_of_u64_Fin: "f64_of_u64 w = Fin (rnd (rat_of_u64 w))"
  unfolding f64_of_u64_def using rat_of_u64_less [of w] by (intro f64_round_Fin) simp_all

lemma ratio_Fin:
  assumes "0 < l"
  shows "f64_div (f64_of_u64 c) (f64_of_u64 l) = Fin (rnd (rnd (rat_of_u64 c) / rnd (rat_of_u64 l)))"
proof -
  let ?a = "rnd (rat_of_u64 c)" and ?b = "rnd (rat_of_u64 l)"
  have b: "1 \<le> ?b" using rat_of_u64_ge_1 [OF assms] by (rule rnd_ge_1)
  have a: "0 \<le> ?a" by (simp add: rnd_nonneg)
  have "?a \<le> pow2 64"
    using rnd_mono [OF less_imp_le [OF rat_of_u64_less [of c]]] rnd_pow2 [of 64] by simp
  then have "?a / ?b \<le> pow2 64 / 1" using a b by (intro frac_le) auto
  moreover have "?b \<noteq> 0" using b by linarith
  ultimately show ?thesis
    using a b by (simp add: f64_of_u64_Fin f64_round_Fin)
qed

lemma f64_round_below:
  assumes "0 \<le> q" and "q \<le> pow2 e" and "0 \<le> e" and "e < 1024"
  shows "f64_round q = Fin (rnd q)"
proof -
  have "rnd q \<le> pow2 e" using rnd_mono [OF assms(2)] rnd_pow2 [of e] assms(3) by simp
  moreover have "pow2 e < 2 ^ 1024"
    using pow2_less_iff [of e 1024] pow2_nat [of 1024] assms(4) by simp
  moreover have "0 \<le> rnd q" using assms by (simp add: rnd_nonneg)
  moreover have "(0 :: rat) < 2 ^ 1024" by simp
  ultimately have "\<not> 2 ^ 1024 \<le> rnd q" "\<not> rnd q \<le> - (2 ^ 1024)" by linarith+
  then show ?thesis by (simp only: f64_round_def Let_def if_False)
qed

text \<open>Rounding is idempotent: a rounded value is representable.\<close>

lemma rndp_representable:
  assumes "0 < q"
  obtains m k where "0 \<le> m" and "m < 2 ^ 53" and "- 1074 \<le> k" and "rndp q = of_int m * pow2 k"
proof -
  let ?e = "max (binade q) (- 1022) - 52" and ?m = "rhe (q / ulp q)"
  have "q \<le> pow2 (max (binade q) (- 1022) + 1)"
    using binade_bounds(2) [OF assms] pow2_mono [of "binade q + 1" "max (binade q) (- 1022) + 1"] by simp
  also have "\<dots> = of_int (2 ^ 53) * ulp q"
    using pow2_add [of ?e 53] pow2_nat [of 53] by (simp add: ulp_def add.commute mult.commute)
  finally have "q / ulp q \<le> of_int (2 ^ 53)" by (simp add: divide_le_eq)
  then have hi: "?m \<le> 2 ^ 53" using rhe_mono [of "q / ulp q" "of_int (2 ^ 53)"] by (simp only: rhe_of_int)
  have lo: "0 \<le> ?m" using rhe_mono [of "of_int 0" "q / ulp q"] rhe_of_int [of 0] assms by (simp add: less_imp_le)
  have r: "rndp q = of_int ?m * pow2 ?e" by (simp add: rndp_def ulp_def)
  show ?thesis
  proof (cases "?m = 2 ^ 53")
    case True
    then have "rndp q = of_int (2 ^ 52) * pow2 (?e + 1)"
      using r pow2_add [of ?e 1] by (simp add: pow2_def)
    then show ?thesis using that [of "2 ^ 52" "?e + 1"] by simp
  next
    case False
    then show ?thesis using that [of ?m ?e] r lo hi by simp
  qed
qed

lemma rnd_idem: "0 \<le> q \<Longrightarrow> rnd (rnd q) = rnd q"
proof (cases "q = 0")
  case False
  assume "0 \<le> q"
  then have q: "0 < q" using False by simp
  obtain m k where "0 \<le> m" "m < 2 ^ 53" "- 1074 \<le> k" "rndp q = of_int m * pow2 k"
    using rndp_representable [OF q] by blast
  then show ?thesis using rnd_exact_pos [of m k] q by (simp add: rnd_pos)
qed simp

lemma f64_min_Fin [simp]: "f64_min (Fin a) (Fin b) = Fin (min a b)"
  by (simp add: f64_min_def min_def)

lemma f64_max_Fin [simp]: "f64_max (Fin a) (Fin b) = Fin (max a b)"
  by (simp add: f64_max_def max_def)

end
