(* ===== verification/Memory_Guard.thy ===== *)
theory Memory_Guard
  imports F64
begin

text \<open>
  \<open>src/memory/guard.rs\<close> and the limit detection of \<open>src/memory/cgroup.rs\<close>. The guard's
  atomics are the fields of a record; \<open>u64\<close> additions wrap, as the release profile builds
  them. The registered heap source is an argument (\<open>None\<close>: not registered), the cgroup
  files are a function from paths to contents, and \<open>sysinfo\<close>'s total memory is an argument.
  The second half interleaves reservations at the grain of the atomic operations.
\<close>

datatype memory_pressure = Low | Medium | High

record memory_guard_config =
  cfg_limit_bytes :: u64
  cfg_pressure_threshold :: f64
  cfg_cgroup_headroom :: f64

record memory_guard =
  mg_current :: u64
  mg_limit :: u64
  mg_threshold :: f64
  mg_under_pressure :: bool

definition DEFAULT_CGROUP_HEADROOM :: f64 where
  "DEFAULT_CGROUP_HEADROOM = f64_round (85 / 100)"

definition DEFAULT_PRESSURE_THRESHOLD :: f64 where
  "DEFAULT_PRESSURE_THRESHOLD = f64_round (80 / 100)"

definition check_fraction :: "f64 \<Rightarrow> string \<Rightarrow> (unit, string) result" where
  "check_fraction v name = (if \<not> is_finite v \<or> f64_le v (Fin 0) \<or> f64_lt (Fin 1) v
     then Err name else Ok ())"

definition sane_fraction :: "f64 \<Rightarrow> f64 \<Rightarrow> string \<Rightarrow> f64" where
  "sane_fraction v dflt name = (if is_ok (check_fraction v name) then v else dflt)"

definition effective_auto_limit :: "u64 \<Rightarrow> f64 \<Rightarrow> u64 option \<Rightarrow> u64" where
  "effective_auto_limit detected headroom high =
     (let headroom_limit = f64_to_u64 (f64_mul (f64_of_u64 detected) headroom)
      in case high of Some h \<Rightarrow> min headroom_limit h | None \<Rightarrow> headroom_limit)"

definition mg_config_default :: memory_guard_config where
  "mg_config_default = \<lparr>cfg_limit_bytes = 0, cfg_pressure_threshold = DEFAULT_PRESSURE_THRESHOLD,
     cfg_cgroup_headroom = DEFAULT_CGROUP_HEADROOM\<rparr>"

definition validate :: "memory_guard_config \<Rightarrow> (unit, string) result" where
  "validate c = (case check_fraction (cfg_pressure_threshold c) ''pressure_threshold'' of
       Inl e \<Rightarrow> Err e
     | Inr _ \<Rightarrow> check_fraction (cfg_cgroup_headroom c) ''cgroup_headroom'')"

subsection \<open>Limit detection from the cgroup files\<close>

type_synonym fs = "string \<Rightarrow> string option"

definition is_space :: "char \<Rightarrow> bool" where
  "is_space c \<longleftrightarrow> c \<in> {CHR '' '', CHR 0x09, CHR 0x0a, CHR 0x0b, CHR 0x0c, CHR 0x0d}"

definition str_trim :: "string \<Rightarrow> string" where
  "str_trim s = rev (dropWhile is_space (rev (dropWhile is_space s)))"

definition digit :: "char \<Rightarrow> nat option" where
  "digit c = (let n = (of_char c :: nat) in if 48 \<le> n \<and> n \<le> 57 then Some (n - 48) else None)"

fun parse_digits :: "nat \<Rightarrow> string \<Rightarrow> nat option" where
  "parse_digits acc [] = Some acc"
| "parse_digits acc (c # cs) =
     (case digit c of None \<Rightarrow> None | Some d \<Rightarrow> parse_digits (acc * 10 + d) cs)"

text \<open>\<open>str::parse::<u64>\<close>: an optional \<open>+\<close>, at least one digit, no overflow.\<close>

definition parse_u64 :: "string \<Rightarrow> u64 option" where
  "parse_u64 s = (let t = (case s of c # cs \<Rightarrow> if c = CHR ''+'' then cs else s | [] \<Rightarrow> s) in
     if t = [] then None
     else case parse_digits 0 t of
            Some n \<Rightarrow> if n < 2 ^ 64 then Some (of_nat n) else None
          | None \<Rightarrow> None)"

definition read_cgroup_v2_limit_at :: "fs \<Rightarrow> u64 option" where
  "read_cgroup_v2_limit_at fs = (case fs ''memory.max'' of None \<Rightarrow> None
     | Some content \<Rightarrow> if str_trim content = ''max'' then None else parse_u64 (str_trim content))"

definition read_cgroup_v2_high_at :: "fs \<Rightarrow> u64 option" where
  "read_cgroup_v2_high_at fs = (case fs ''memory.high'' of None \<Rightarrow> None
     | Some content \<Rightarrow> if str_trim content = ''max'' then None else parse_u64 (str_trim content))"

definition read_cgroup_v2_current_at :: "fs \<Rightarrow> u64 option" where
  "read_cgroup_v2_current_at fs = (case fs ''memory.current'' of None \<Rightarrow> None
     | Some content \<Rightarrow> parse_u64 (str_trim content))"

definition read_cgroup_v1_current :: "fs \<Rightarrow> u64 option" where
  "read_cgroup_v1_current fs = (case fs ''memory/memory.usage_in_bytes'' of None \<Rightarrow> None
     | Some content \<Rightarrow> parse_u64 (str_trim content))"

definition read_cgroup_v1_limit :: "fs \<Rightarrow> u64 option" where
  "read_cgroup_v1_limit fs = (case fs ''memory/memory.limit_in_bytes'' of None \<Rightarrow> None
     | Some content \<Rightarrow> (case parse_u64 (str_trim content) of None \<Rightarrow> None
         | Some value \<Rightarrow> if value > 2 ^ 62 then None else Some value))"

definition detect_memory_limit :: "fs \<Rightarrow> u64 \<Rightarrow> u64" where
  "detect_memory_limit fs total_memory =
     (case read_cgroup_v2_limit_at fs of Some l \<Rightarrow> l
      | None \<Rightarrow> (case read_cgroup_v1_limit fs of Some l \<Rightarrow> l | None \<Rightarrow> total_memory))"

definition detect_memory_high :: "fs \<Rightarrow> u64 option" where
  "detect_memory_high = read_cgroup_v2_high_at"

fun worst_ratio :: "u64 \<Rightarrow> f64 option \<Rightarrow> u64 option list \<Rightarrow> f64 option" where
  "worst_ratio current worst [] = worst"
| "worst_ratio current worst (None # ls) = worst_ratio current worst ls"
| "worst_ratio current worst (Some l # ls) =
     (if 0 < l then
        let ratio = f64_div (f64_of_u64 current) (f64_of_u64 l) in
        worst_ratio current (Some (case worst of None \<Rightarrow> ratio | Some w \<Rightarrow> f64_max w ratio)) ls
      else worst_ratio current worst ls)"

definition detect_memory_pressure :: "fs \<Rightarrow> f64 option" where
  "detect_memory_pressure fs =
     (case read_cgroup_v2_current_at fs of
        Some current \<Rightarrow> worst_ratio current None [read_cgroup_v2_limit_at fs, read_cgroup_v2_high_at fs]
      | None \<Rightarrow> (case read_cgroup_v1_limit fs of None \<Rightarrow> None
          | Some limit \<Rightarrow> if limit = 0 then None
              else case read_cgroup_v1_current fs of None \<Rightarrow> None
                | Some current \<Rightarrow> Some (f64_div (f64_of_u64 current) (f64_of_u64 limit))))"

subsection \<open>The guard\<close>

definition mg_new :: "fs \<Rightarrow> u64 \<Rightarrow> memory_guard_config \<Rightarrow> memory_guard" where
  "mg_new fs total_memory config =
     (let threshold = sane_fraction (cfg_pressure_threshold config) DEFAULT_PRESSURE_THRESHOLD
            ''pressure_threshold'';
          headroom = sane_fraction (cfg_cgroup_headroom config) DEFAULT_CGROUP_HEADROOM ''cgroup_headroom'';
          raw_limit = (if 0 < cfg_limit_bytes config then cfg_limit_bytes config
            else effective_auto_limit (detect_memory_limit fs total_memory) headroom (detect_memory_high fs))
      in \<lparr>mg_current = 0, mg_limit = max raw_limit 1, mg_threshold = threshold,
          mg_under_pressure = False\<rparr>)"

definition current_bytes :: "u64 option \<Rightarrow> memory_guard \<Rightarrow> u64" where
  "current_bytes heap g = (case heap of Some h \<Rightarrow> h | None \<Rightarrow> mg_current g)"

definition pressure_ratio :: "u64 option \<Rightarrow> memory_guard \<Rightarrow> f64" where
  "pressure_ratio heap g = f64_div (f64_of_u64 (current_bytes heap g)) (f64_of_u64 (mg_limit g))"

definition pressure :: "u64 option \<Rightarrow> memory_guard \<Rightarrow> memory_pressure" where
  "pressure heap g = (let ratio = pressure_ratio heap g in
     if f64_le (mg_threshold g) ratio then High
     else if f64_le (Fin (1 / 2)) ratio then Medium else Low)"

definition under_pressure :: "u64 option \<Rightarrow> memory_guard \<Rightarrow> bool" where
  "under_pressure heap g = (if heap \<noteq> None then f64_le (mg_threshold g) (pressure_ratio heap g)
     else mg_under_pressure g)"

definition update_pressure :: "u64 \<Rightarrow> memory_guard \<Rightarrow> memory_guard" where
  "update_pressure current g = g\<lparr>mg_under_pressure :=
     f64_le (mg_threshold g) (f64_div (f64_of_u64 current) (f64_of_u64 (mg_limit g)))\<rparr>"

definition fetch_add :: "u64 \<Rightarrow> memory_guard \<Rightarrow> memory_guard" where
  "fetch_add n g = g\<lparr>mg_current := mg_current g + n\<rparr>"

definition fetch_sub :: "u64 \<Rightarrow> memory_guard \<Rightarrow> memory_guard" where
  "fetch_sub n g = g\<lparr>mg_current := mg_current g - n\<rparr>"

text \<open>The calls that share the counter, cut at their atomic operations: what a call in progress still has to do. The answer is
  what \<open>try_reserve\<close> returns; a release has none to give.\<close>

datatype guard_call = ReserveAdd u64 | ReserveUndo u64 | ReserveRefuse | ReserveMark u64 | ReleaseSub u64 | ReleaseMark u64

fun reserve_atom :: "guard_call \<Rightarrow> memory_guard \<Rightarrow> memory_guard \<times> (guard_call + bool)" where
  "reserve_atom (ReserveAdd n) g =
     (let current = mg_current g + n
      in (fetch_add n g, Inl (if mg_limit g < current then ReserveUndo n else ReserveMark current)))"
| "reserve_atom (ReserveUndo n) g = (fetch_sub n g, Inl ReserveRefuse)"
| "reserve_atom ReserveRefuse g = (g\<lparr>mg_under_pressure := True\<rparr>, Inr False)"
| "reserve_atom (ReserveMark current) g = (update_pressure current g, Inr True)"
| "reserve_atom (ReleaseSub n) g =
     (let prev = mg_current g in (g\<lparr>mg_current := saturating_sub prev n\<rparr>, Inl (ReleaseMark (saturating_sub prev n))))"
| "reserve_atom (ReleaseMark current) g = (update_pressure current g, Inr True)"

fun atoms_left :: "guard_call \<Rightarrow> nat" where
  "atoms_left (ReserveAdd n) = 3"
| "atoms_left (ReserveUndo n) = 2"
| "atoms_left (ReleaseSub n) = 2"
| "atoms_left _ = 1"

lemma atoms_left_decrease: "reserve_atom c g = (g', Inl c') \<Longrightarrow> atoms_left c' < atoms_left c"
  by (cases c) (auto simp: Let_def split: if_splits)

function run_call :: "guard_call \<Rightarrow> memory_guard \<Rightarrow> memory_guard \<times> bool" where
  "run_call c g = (case reserve_atom c g of (g', Inl c') \<Rightarrow> run_call c' g' | (g', Inr answer) \<Rightarrow> (g', answer))"
  by pat_completeness auto
termination by (relation "measure (atoms_left \<circ> fst)") (auto dest: atoms_left_decrease [OF sym])

declare run_call.simps [simp del]

lemma run_call_eqs:
  "run_call (ReserveAdd n) g = run_call (if mg_limit g < mg_current g + n then ReserveUndo n else ReserveMark (mg_current g + n)) (fetch_add n g)"
  "run_call (ReserveUndo n) g = run_call ReserveRefuse (fetch_sub n g)"
  "run_call ReserveRefuse g = (g\<lparr>mg_under_pressure := True\<rparr>, False)"
  "run_call (ReserveMark current) g = (update_pressure current g, True)"
  "run_call (ReleaseSub n) g = run_call (ReleaseMark (saturating_sub (mg_current g) n)) (g\<lparr>mg_current := saturating_sub (mg_current g) n\<rparr>)"
  "run_call (ReleaseMark current) g = (update_pressure current g, True)"
  by (subst run_call.simps, simp add: Let_def)+

definition try_reserve :: "u64 option \<Rightarrow> u64 \<Rightarrow> memory_guard \<Rightarrow> memory_guard \<times> bool" where
  "try_reserve heap n g = (case heap of
     Some h \<Rightarrow> (g, h + n \<le> mg_limit g)
   | None \<Rightarrow> run_call (ReserveAdd n) g)"

definition add_bytes :: "u64 \<Rightarrow> memory_guard \<Rightarrow> memory_guard" where
  "add_bytes n g = (let new_total = mg_current g + n in update_pressure new_total (fetch_add n g))"

definition release :: "u64 \<Rightarrow> memory_guard \<Rightarrow> memory_guard" where
  "release n g = fst (run_call (ReleaseSub n) g)"

text \<open>A call that runs alone.\<close>

lemma try_reserve_alone:
  "try_reserve heap n g = (case heap of
     Some h \<Rightarrow> (g, h + n \<le> mg_limit g)
   | None \<Rightarrow> if mg_limit g < mg_current g + n then ((fetch_sub n (fetch_add n g))\<lparr>mg_under_pressure := True\<rparr>, False)
       else (update_pressure (mg_current g + n) (fetch_add n g), True))"
  by (simp add: try_reserve_def run_call_eqs split: option.split)

lemma release_alone:
  "release n g = update_pressure (saturating_sub (mg_current g) n) (g\<lparr>mg_current := saturating_sub (mg_current g) n\<rparr>)"
  by (simp add: release_def run_call_eqs)

lemma guard_fields [simp]:
  "mg_current (update_pressure c g) = mg_current g"
  "mg_limit (update_pressure c g) = mg_limit g"
  "mg_threshold (update_pressure c g) = mg_threshold g"
  "mg_current (fetch_add n g) = mg_current g + n"
  "mg_limit (fetch_add n g) = mg_limit g"
  "mg_current (fetch_sub n g) = mg_current g - n"
  "mg_limit (fetch_sub n g) = mg_limit g"
  "mg_current (add_bytes n g) = mg_current g + n"
  "mg_limit (add_bytes n g) = mg_limit g"
  "mg_current (release n g) = saturating_sub (mg_current g) n"
  "mg_limit (release n g) = mg_limit g"
  by (simp_all add: update_pressure_def fetch_add_def fetch_sub_def add_bytes_def release_alone Let_def)

subsection \<open>Byte ledgers\<close>

text \<open>
  What the engine relies on when it leases the bytes of a block: adding and releasing are
  exact as long as the tot fits 64 bits.
\<close>

locale ledger =
  fixes level :: "'s \<Rightarrow> u64" and credit :: "u64 \<Rightarrow> 's \<Rightarrow> 's" and debit :: "u64 \<Rightarrow> 's \<Rightarrow> 's"
  assumes level_credit: "level (credit n s) = level s + n"
    and level_debit: "n \<le> level s \<Longrightarrow> level (debit n s) = level s - n"
begin

lemma credit_debit:
  assumes "unat (level s) + unat n < 2 ^ 64"
  shows "level (debit n (credit n s)) = level s"
proof -
  have "n \<le> level s + n"
    using assms by (simp add: word_le_nat_alt unat_word_ariths)
  then show ?thesis by (simp add: level_debit level_credit)
qed

lemma unat_level_credit:
  "unat (level s) + unat n < 2 ^ 64 \<Longrightarrow> unat (level (credit n s)) = unat (level s) + unat n"
  by (simp add: level_credit unat_word_ariths)

lemma lease_sequence:
  assumes "\<forall>n\<in>set ns. unat (level s) + unat n < 2 ^ 64"
  shows "level (fold (\<lambda>n s. debit n (credit n s)) ns s) = level s"
  using assms by (induction ns arbitrary: s) (simp_all add: credit_debit)

end

interpretation mg: ledger mg_current add_bytes release
  by unfold_locales (simp_all add: saturating_sub_def)

subsection \<open>Pressure\<close>

definition usable_threshold :: "f64 \<Rightarrow> bool" where
  "usable_threshold t \<longleftrightarrow> (case t of Fin q \<Rightarrow> 0 < q \<and> q \<le> 1 | _ \<Rightarrow> False)"

lemma sane_fraction_usable: "usable_threshold d \<Longrightarrow> usable_threshold (sane_fraction v d n)"
  by (cases v) (auto simp: sane_fraction_def check_fraction_def usable_threshold_def)

lemma default_usable: "usable_threshold DEFAULT_PRESSURE_THRESHOLD"
proof -
  have "(1 / 2 :: rat) \<le> rnd (80 / 100)" using rnd_mono [of "1 / 2" "80 / 100"] by simp
  then show ?thesis
    using f64_round_unit [of "80 / 100"]
    by (auto simp: DEFAULT_PRESSURE_THRESHOLD_def usable_threshold_def f64_round_def Let_def split: if_splits)
qed

definition mg_wf :: "memory_guard \<Rightarrow> bool" where
  "mg_wf g \<longleftrightarrow> 0 < mg_limit g \<and> usable_threshold (mg_threshold g)"

lemma mg_new_wf: "mg_wf (mg_new fs tot c)"
  by (simp add: mg_wf_def mg_new_def Let_def sane_fraction_usable default_usable less_max_iff_disj)

fun severity :: "memory_pressure \<Rightarrow> nat" where
  "severity Low = 0" | "severity Medium = 1" | "severity High = 2"

lemma ratio_mono:
  assumes "0 < l" and "c \<le> c'" and "f64_le t (f64_div (f64_of_u64 c) (f64_of_u64 l))"
  shows "f64_le t (f64_div (f64_of_u64 c') (f64_of_u64 l))"
proof -
  have "0 \<le> rnd (rat_of_u64 l)" by (simp add: rnd_nonneg)
  moreover have "rnd (rat_of_u64 c) \<le> rnd (rat_of_u64 c')"
    using assms(2) by (intro rnd_mono) (simp add: rat_of_u64_le_iff)
  ultimately have "rnd (rnd (rat_of_u64 c) / rnd (rat_of_u64 l))
      \<le> rnd (rnd (rat_of_u64 c') / rnd (rat_of_u64 l))"
    by (metis rnd_mono divide_right_mono)
  with assms(3) show ?thesis
    unfolding ratio_Fin [OF assms(1)] by (cases t) auto
qed

text \<open>The pressure level follows the usage, for any configuration the guard was built
  from, NaN and out-of-range fractions included: an empty guard is \<open>Low\<close>, a guard at or
  above its limit is \<open>High\<close>, and more bytes never lower the level.\<close>

theorem pressure_follows_usage:
  fixes fs :: fs and tot :: u64 and c :: memory_guard_config
  defines "g \<equiv> mg_new fs tot c"
  shows "pressure None (g\<lparr>mg_current := 0\<rparr>) = Low
    \<and> (mg_limit g \<le> a \<longrightarrow> pressure None (g\<lparr>mg_current := a\<rparr>) = High)
    \<and> (a \<le> b \<longrightarrow> severity (pressure None (g\<lparr>mg_current := a\<rparr>))
                \<le> severity (pressure None (g\<lparr>mg_current := b\<rparr>)))"
proof (intro conjI impI)
  have wf: "0 < mg_limit g" "usable_threshold (mg_threshold g)"
    using mg_new_wf [of fs tot c] by (simp_all add: g_def mg_wf_def)
  obtain q where q: "mg_threshold g = Fin q" "0 < q" "q \<le> 1"
    using wf(2) by (cases "mg_threshold g") (auto simp: usable_threshold_def)
  note ratio = ratio_Fin [OF wf(1)]
  show "pressure None (g\<lparr>mg_current := 0\<rparr>) = Low"
    using q by (simp add: pressure_def pressure_ratio_def current_bytes_def ratio)
  show "pressure None (g\<lparr>mg_current := a\<rparr>) = High" if "mg_limit g \<le> a"
  proof -
    have l: "1 \<le> rnd (rat_of_u64 (mg_limit g))"
      using rat_of_u64_ge_1 [OF wf(1)] by (rule rnd_ge_1)
    moreover have "rnd (rat_of_u64 (mg_limit g)) \<le> rnd (rat_of_u64 a)"
      using that by (intro rnd_mono) (simp add: rat_of_u64_le_iff)
    ultimately have "1 \<le> rnd (rat_of_u64 a) / rnd (rat_of_u64 (mg_limit g))"
      by (simp add: le_divide_eq)
    from rnd_ge_1 [OF this] show ?thesis
      using q by (simp add: pressure_def pressure_ratio_def current_bytes_def ratio)
  qed
  show "severity (pressure None (g\<lparr>mg_current := a\<rparr>)) \<le> severity (pressure None (g\<lparr>mg_current := b\<rparr>))"
    if "a \<le> b"
    using ratio_mono [OF wf(1) that]
    by (auto simp: pressure_def pressure_ratio_def current_bytes_def Let_def)
qed

theorem pressure_follows_usage_witness:
  "pressure None ((mg_new (\<lambda>_. None) 1000 mg_config_default)
      \<lparr>mg_current := mg_limit (mg_new (\<lambda>_. None) 1000 mg_config_default)\<rparr>) = High"
  using pressure_follows_usage [of "\<lambda>_. None" 1000 mg_config_default
      "mg_limit (mg_new (\<lambda>_. None) 1000 mg_config_default)"]
  by simp

subsection \<open>Reservations, one at a time\<close>

text \<open>Without a heap source, \<open>try_reserve\<close> answers exactly whether the wrapped sum of
  usage and request is within the limit; a request that cannot wrap is granted exactly when
  it fits, a grant adds the bytes, a refusal leaves the counter alone and raises the
  pressure flag, and releasing a granted reservation restores the counter.\<close>

theorem try_reserve_exact:
  assumes "try_reserve None n g = (g', granted)"
  shows "(granted \<longleftrightarrow> (unat (mg_current g) + unat n) mod 2 ^ 64 \<le> unat (mg_limit g))
    \<and> (unat (mg_current g) + unat n < 2 ^ 64 \<longrightarrow>
         granted = (unat (mg_current g) + unat n \<le> unat (mg_limit g)))
    \<and> (granted \<longrightarrow> mg_current g' = mg_current g + n)
    \<and> (\<not> granted \<longrightarrow> mg_current g' = mg_current g \<and> mg_under_pressure g')
    \<and> (granted \<and> unat (mg_current g) + unat n < 2 ^ 64 \<longrightarrow>
         mg_current (release n g') = mg_current g)"
proof -
  have gr: "granted \<longleftrightarrow> mg_current g + n \<le> mg_limit g"
    using assms by (auto simp: try_reserve_alone Let_def not_less split: if_splits)
  then have mod: "granted \<longleftrightarrow> (unat (mg_current g) + unat n) mod 2 ^ 64 \<le> unat (mg_limit g)"
    by (simp add: word_le_nat_alt unat_word_ariths)
  have cur: "granted \<Longrightarrow> mg_current g' = mg_current g + n"
    and ref: "\<not> granted \<Longrightarrow> mg_current g' = mg_current g \<and> mg_under_pressure g'"
    using assms by (auto simp: try_reserve_alone Let_def split: if_splits)
  then have "mg_current (release n g') = mg_current g"
    if "granted" "unat (mg_current g) + unat n < 2 ^ 64"
    using that mg.credit_debit [of g n] by simp
  with mod cur ref show ?thesis by auto
qed

theorem try_reserve_exact_witness:
  "snd (try_reserve None 40 (mg_new (\<lambda>_. None) 0 (mg_config_default\<lparr>cfg_limit_bytes := 100\<rparr>)))
   \<and> mg_current (release 40 (fst (try_reserve None 40
        (mg_new (\<lambda>_. None) 0 (mg_config_default\<lparr>cfg_limit_bytes := 100\<rparr>))))) = 0"
  using try_reserve_exact [of 40 "mg_new (\<lambda>_. None) 0 (mg_config_default\<lparr>cfg_limit_bytes := 100\<rparr>)"]
  by (cases "try_reserve None 40 (mg_new (\<lambda>_. None) 0 (mg_config_default\<lparr>cfg_limit_bytes := 100\<rparr>))")
    (simp add: mg_new_def Let_def max_def word_le_nat_alt saturating_sub_def)

text \<open>The addition is unchecked: for every guard that holds some bytes within its
  limit there is a request larger than the whole limit that wraps the counter, is granted,
  and lowers the tracked usage.\<close>

theorem try_reserve_wraps:
  assumes "0 < mg_current g" and "mg_current g \<le> mg_limit g" and "mg_limit g < - 1"
  shows "\<exists>n. mg_limit g < n \<and> snd (try_reserve None n g)
    \<and> mg_current (fst (try_reserve None n g)) < mg_current g"
proof (intro exI [of _ "- 1"] conjI)
  have "mg_current g + - 1 < mg_current g"
    using assms(1) by (simp add: word_less_nat_alt unat_sub word_le_nat_alt)
  moreover from this have "mg_current g + - 1 \<le> mg_limit g" using assms(2) by simp
  ultimately show "snd (try_reserve None (- 1) g)" "mg_current (fst (try_reserve None (- 1) g)) < mg_current g"
    by (simp_all add: try_reserve_alone Let_def not_less)
qed (rule assms)

theorem try_reserve_wraps_witness:
  "\<exists>n. 100 < n \<and> snd (try_reserve None n \<lparr>mg_current = 10, mg_limit = 100, mg_threshold = Fin 1, mg_under_pressure = False\<rparr>)"
  using try_reserve_wraps [of "\<lparr>mg_current = 10, mg_limit = 100, mg_threshold = Fin 1, mg_under_pressure = False\<rparr>"]
  by auto

subsection \<open>Reservations, interleaved\<close>

text \<open>
  Concurrent callers, at the grain of the atomics: the very calls that \<open>try_reserve\<close> and \<open>release\<close> run, one
  atomic operation of one caller at a time. A slot is a caller: idle, inside \<open>try_reserve\<close>, holding what it was
  granted, or inside \<open>release\<close>.
\<close>

datatype slot = Idle | Reserving u64 guard_call | Holding u64 | Releasing guard_call

record pool =
  guard :: memory_guard
  slots :: "slot list"

inductive mg_step :: "u64 \<Rightarrow> pool \<Rightarrow> pool \<Rightarrow> bool" for B where
  call_reserve: "i < length (slots p) \<Longrightarrow> slots p ! i = Idle \<Longrightarrow> n \<le> B \<Longrightarrow>
    mg_step B p (p\<lparr>slots := (slots p)[i := Reserving n (ReserveAdd n)]\<rparr>)"
| reserve_goes_on: "i < length (slots p) \<Longrightarrow> slots p ! i = Reserving n c \<Longrightarrow> reserve_atom c (guard p) = (g, Inl c') \<Longrightarrow>
    mg_step B p \<lparr>guard = g, slots = (slots p)[i := Reserving n c']\<rparr>"
| reserve_answers: "i < length (slots p) \<Longrightarrow> slots p ! i = Reserving n c \<Longrightarrow> reserve_atom c (guard p) = (g, Inr granted) \<Longrightarrow>
    mg_step B p \<lparr>guard = g, slots = (slots p)[i := if granted then Holding n else Idle]\<rparr>"
| call_release: "i < length (slots p) \<Longrightarrow> slots p ! i = Holding n \<Longrightarrow>
    mg_step B p (p\<lparr>slots := (slots p)[i := Releasing (ReleaseSub n)]\<rparr>)"
| release_goes_on: "i < length (slots p) \<Longrightarrow> slots p ! i = Releasing c \<Longrightarrow> reserve_atom c (guard p) = (g, Inl c') \<Longrightarrow>
    mg_step B p \<lparr>guard = g, slots = (slots p)[i := Releasing c']\<rparr>"
| release_returns: "i < length (slots p) \<Longrightarrow> slots p ! i = Releasing c \<Longrightarrow> reserve_atom c (guard p) = (g, Inr u) \<Longrightarrow>
    mg_step B p \<lparr>guard = g, slots = (slots p)[i := Idle]\<rparr>"

text \<open>A call that is not interrupted is the sequential operation.\<close>

lemma run_call_steps:
  "(mg_step B)\<^sup>*\<^sup>* \<lparr>guard = g, slots = [Reserving n c]\<rparr>
     \<lparr>guard = fst (run_call c g), slots = [if snd (run_call c g) then Holding n else Idle]\<rparr>"
proof (induction c g rule: run_call.induct)
  case (1 c g)
  obtain g' x where x: "reserve_atom c g = (g', x)" by fastforce
  show ?case
  proof (cases x)
    case (Inl c')
    have "mg_step B \<lparr>guard = g, slots = [Reserving n c]\<rparr> \<lparr>guard = g', slots = [Reserving n c']\<rparr>"
      using mg_step.reserve_goes_on [of 0 "\<lparr>guard = g, slots = [Reserving n c]\<rparr>" n c g' c' B] x Inl by simp
    then show ?thesis
      using "1.IH" [OF x [symmetric] Inl] x Inl by (subst (1 2) run_call.simps) (simp add: converse_rtranclp_into_rtranclp)
  next
    case (Inr a)
    then show ?thesis
      using mg_step.reserve_answers [of 0 "\<lparr>guard = g, slots = [Reserving n c]\<rparr>" n c g' a B] x
      by (subst (1 2) run_call.simps) (simp add: r_into_rtranclp)
  qed
qed

lemma uninterrupted_reserve:
  assumes "n \<le> B"
  shows "(mg_step B)\<^sup>*\<^sup>* \<lparr>guard = g, slots = [Idle]\<rparr>
    \<lparr>guard = fst (try_reserve None n g), slots = [if snd (try_reserve None n g) then Holding n else Idle]\<rparr>"
  using mg_step.call_reserve [of 0 "\<lparr>guard = g, slots = [Idle]\<rparr>" n B] assms run_call_steps [of B g n "ReserveAdd n"]
  by (simp add: try_reserve_def converse_rtranclp_into_rtranclp)

text \<open>What a slot has in the counter, and what of it is within the limit.\<close>

fun outstanding :: "slot \<Rightarrow> nat" where
  "outstanding (Reserving n (ReserveUndo m)) = unat n"
| "outstanding (Reserving n (ReserveMark cur)) = unat n"
| "outstanding (Holding n) = unat n"
| "outstanding (Releasing (ReleaseSub n)) = unat n"
| "outstanding _ = 0"

fun admitted :: "slot \<Rightarrow> nat" where
  "admitted (Reserving n (ReserveUndo m)) = 0"
| "admitted s = outstanding s"

fun slot_ok :: "u64 \<Rightarrow> slot \<Rightarrow> bool" where
  "slot_ok B Idle = True"
| "slot_ok B (Reserving n (ReserveAdd m)) = (n = m \<and> n \<le> B)"
| "slot_ok B (Reserving n (ReserveUndo m)) = (n = m \<and> n \<le> B)"
| "slot_ok B (Reserving n (ReserveMark cur)) = (n \<le> B)"
| "slot_ok B (Reserving n ReserveRefuse) = True"
| "slot_ok B (Reserving n c) = False"
| "slot_ok B (Holding n) = (n \<le> B)"
| "slot_ok B (Releasing (ReleaseSub n)) = (n \<le> B)"
| "slot_ok B (Releasing (ReleaseMark cur)) = True"
| "slot_ok B (Releasing c) = False"

definition pool_ok :: "u64 \<Rightarrow> u64 \<Rightarrow> nat \<Rightarrow> pool \<Rightarrow> bool" where
  "pool_ok B limit k p \<longleftrightarrow> mg_limit (guard p) = limit \<and> length (slots p) = k
     \<and> (\<forall>s\<in>set (slots p). slot_ok B s)
     \<and> unat (mg_current (guard p)) = sum_list (map outstanding (slots p))
     \<and> sum_list (map admitted (slots p)) \<le> unat limit"

lemma admitted_le: "admitted s \<le> outstanding s"
  by (cases s rule: admitted.cases) simp_all

lemma slot_ok_bound: "slot_ok B s \<Longrightarrow> outstanding s \<le> unat B"
  by (cases "(B, s)" rule: slot_ok.cases) (simp_all add: word_le_nat_alt)

lemma sum_list_update_nat:
  fixes f :: "'a \<Rightarrow> nat"
  assumes "i < length xs"
  shows "sum_list (map f (xs[i := x])) + f (xs ! i) = sum_list (map f xs) + f x"
  using assms
proof (induction xs arbitrary: i)
  case (Cons a xs)
  then show ?case by (cases i) simp_all
qed simp

lemma sum_list_bound: "\<forall>x\<in>set xs. f x \<le> (b :: nat) \<Longrightarrow> sum_list (map f xs) \<le> length xs * b"
  by (induction xs) auto

text \<open>One slot moves from \<open>s\<close> to \<open>x\<close> and the guard to \<open>g\<close>.\<close>

lemma pool_move:
  assumes "pool_ok B limit k p" and "i < length (slots p)" and "slot_ok B x" and "mg_limit g = limit"
    and "unat (mg_current g) + outstanding (slots p ! i) = unat (mg_current (guard p)) + outstanding x"
    and "admitted x \<le> admitted (slots p ! i) \<or> unat (mg_current g) \<le> unat limit"
  shows "pool_ok B limit k \<lparr>guard = g, slots = (slots p)[i := x]\<rparr>"
proof -
  let ?ss = "(slots p)[i := x]"
  note p = assms(1)[unfolded pool_ok_def]
  have out: "unat (mg_current g) = sum_list (map outstanding ?ss)"
    using sum_list_update_nat [OF assms(2), of outstanding x] assms(5) p by linarith
  have "sum_list (map admitted ?ss) \<le> unat limit"
  proof (cases "admitted x \<le> admitted (slots p ! i)")
    case True
    then show ?thesis using sum_list_update_nat [OF assms(2), of admitted x] p by linarith
  next
    case False
    then have "unat (mg_current g) \<le> unat limit" using assms(6) by simp
    moreover have "sum_list (map admitted ?ss) \<le> sum_list (map outstanding ?ss)"
      by (rule sum_list_mono) (rule admitted_le)
    ultimately show ?thesis using out by linarith
  qed
  moreover have "\<forall>s\<in>set ?ss. slot_ok B s"
    using p assms(3) set_update_subset_insert [of "slots p" i x] by blast
  ultimately show ?thesis using p out assms(4) by (simp add: pool_ok_def)
qed

lemma add_fits:
  assumes "pool_ok B limit k p" and "i < length (slots p)" and "outstanding (slots p ! i) = 0" and "n \<le> B" and "k * unat B < 2 ^ 64"
  shows "unat (mg_current (guard p) + n) = unat (mg_current (guard p)) + unat n"
proof -
  note p = assms(1)[unfolded pool_ok_def]
  have "\<forall>s\<in>set ((slots p)[i := Holding n]). outstanding s \<le> unat B"
    using p assms(4) slot_ok_bound set_update_subset_insert [of "slots p" i "Holding n"] by (fastforce simp: word_le_nat_alt)
  from sum_list_bound [OF this] sum_list_update_nat [OF assms(2), of outstanding "Holding n"] assms(3,5) p
  have "unat (mg_current (guard p)) + unat n < 2 ^ 64" by simp
  then show ?thesis by (simp add: unat_word_ariths)
qed

lemma counted:
  assumes "pool_ok B limit k p" and "i < length (slots p)"
  shows "outstanding (slots p ! i) \<le> unat (mg_current (guard p))"
  using assms sum_list_update_nat [OF assms(2), of outstanding Idle] by (simp add: pool_ok_def)

lemma reserve_moves:
  assumes "pool_ok B limit k p" and "i < length (slots p)" and "slots p ! i = Reserving n c" and "reserve_atom c (guard p) = (g, r)"
    and "k * unat B < 2 ^ 64"
  shows "pool_ok B limit k \<lparr>guard = g, slots = (slots p)[i := case r of Inl c' \<Rightarrow> Reserving n c' | Inr granted \<Rightarrow> if granted then Holding n else Idle]\<rparr>"
proof -
  have ok: "slot_ok B (Reserving n c)" and lim: "mg_limit (guard p) = limit"
    using assms(1-3) nth_mem [OF assms(2)] by (auto simp: pool_ok_def)
  note mv = pool_move [OF assms(1,2)]
  show ?thesis
  proof (cases c)
    case (ReserveAdd m)
    then show ?thesis
      using mv [of _ g] add_fits [OF assms(1,2) _ _ assms(5), of n] assms(3,4) ok lim
      by (auto simp: Let_def not_less word_le_nat_alt split: if_splits)
  next
    case (ReserveUndo m)
    then have "unat (mg_current (guard p) - n) = unat (mg_current (guard p)) - unat n" "unat n \<le> unat (mg_current (guard p))"
      using counted [OF assms(1,2)] assms(3) by (simp_all add: unat_sub word_le_nat_alt)
    then show ?thesis using mv [of "Reserving n ReserveRefuse" g] assms(3,4) ok lim ReserveUndo by auto
  next
    case ReserveRefuse
    then show ?thesis using mv [of Idle g] assms(3,4) ok lim by auto
  next
    case (ReserveMark cur)
    then show ?thesis using mv [of "Holding n" g] assms(3,4) ok lim by auto
  qed (use ok in simp_all)
qed

lemma release_moves:
  assumes "pool_ok B limit k p" and "i < length (slots p)" and "slots p ! i = Releasing c" and "reserve_atom c (guard p) = (g, r)"
  shows "pool_ok B limit k \<lparr>guard = g, slots = (slots p)[i := case r of Inl c' \<Rightarrow> Releasing c' | Inr u \<Rightarrow> Idle]\<rparr>"
proof -
  have ok: "slot_ok B (Releasing c)" and lim: "mg_limit (guard p) = limit"
    using assms(1-3) nth_mem [OF assms(2)] by (auto simp: pool_ok_def)
  note mv = pool_move [OF assms(1,2)]
  show ?thesis
  proof (cases c)
    case (ReleaseSub m)
    then show ?thesis
      using mv [of _ g] counted [OF assms(1,2)] assms(3,4) ok lim by (auto simp: Let_def unat_saturating_sub)
  next
    case (ReleaseMark cur)
    then show ?thesis using mv [of Idle g] assms(3,4) ok lim by auto
  qed (use ok in simp_all)
qed

lemma mg_step_ok:
  assumes "mg_step B p q" and "pool_ok B limit k p" and "k * unat B < 2 ^ 64"
  shows "pool_ok B limit k q"
  using assms(1)
proof cases
  case (call_reserve i n)
  with pool_move [OF assms(2), of i "Reserving n (ReserveAdd n)" "guard p"] assms(2) show ?thesis by (simp add: pool_ok_def)
next
  case (reserve_goes_on i n c g c')
  with reserve_moves [OF assms(2) _ _ _ assms(3), of i n c g "Inl c'"] show ?thesis by simp
next
  case (reserve_answers i n c g granted)
  with reserve_moves [OF assms(2) _ _ _ assms(3), of i n c g "Inr granted"] show ?thesis by simp
next
  case (call_release i n)
  have "slot_ok B (Releasing (ReleaseSub n))"
    using assms(2) call_release nth_mem [of i "slots p"] by (force simp: pool_ok_def)
  with call_release pool_move [OF assms(2), of i "Releasing (ReleaseSub n)" "guard p"] assms(2) show ?thesis by (simp add: pool_ok_def)
next
  case (release_goes_on i c g c')
  with release_moves [OF assms(2), of i c g "Inl c'"] show ?thesis by simp
next
  case (release_returns i c g u)
  with release_moves [OF assms(2), of i c g "Inr u"] show ?thesis by simp
qed

fun at_rest :: "slot \<Rightarrow> bool" where
  "at_rest Idle = True"
| "at_rest (Holding n) = True"
| "at_rest _ = False"

definition held :: "slot list \<Rightarrow> nat" where
  "held ss = sum_list (map (\<lambda>s. case s of Holding n \<Rightarrow> unat n | _ \<Rightarrow> 0) ss)"

text \<open>C18. Concurrent reservations, without a registered heap source: however the atomic operations of the callers of
  \<open>try_reserve\<close> and \<open>release\<close> interleave, the bytes granted and not yet released never add up to more than the limit, and
  whenever no call is in progress the counter is exactly their sum - provided that the callers together cannot overflow the
  64-bit counter (at most \<open>k\<close> callers, each asking for at most \<open>B\<close> bytes, \<open>k * B < 2 ^ 64\<close>); beyond that bound the
  addition wraps (\<open>try_reserve_wraps\<close>).\<close>

theorem concurrent_reservations_bounded:
  assumes "(mg_step B)\<^sup>*\<^sup>* \<lparr>guard = mg_new fs tot c, slots = replicate k Idle\<rparr> p"
    and "k * unat B < 2 ^ 64"
  shows "held (slots p) \<le> unat (mg_limit (mg_new fs tot c))
    \<and> (list_all at_rest (slots p) \<longrightarrow> unat (mg_current (guard p)) = held (slots p))"
proof -
  let ?l = "mg_limit (mg_new fs tot c)"
  have "pool_ok B ?l k \<lparr>guard = mg_new fs tot c, slots = replicate k Idle\<rparr>"
    by (simp add: pool_ok_def sum_list_replicate) (simp add: mg_new_def Let_def)
  with assms(1) have ok: "pool_ok B ?l k p"
    by (induction rule: rtranclp_induct) (auto intro: mg_step_ok [OF _ _ assms(2)])
  have "held (slots p) \<le> sum_list (map admitted (slots p))"
    unfolding held_def by (rule sum_list_mono) (auto split: slot.split)
  moreover have "sum_list (map outstanding ss) = held ss" if "list_all at_rest ss" for ss
    using that by (induction ss) (auto simp: held_def elim!: at_rest.elims)
  ultimately show ?thesis using ok by (auto simp: pool_ok_def)
qed

theorem concurrent_reservations_bounded_witness:
  "held (slots \<lparr>guard = fst (try_reserve None 40 (mg_new (\<lambda>_. None) 0 (mg_config_default\<lparr>cfg_limit_bytes := 100\<rparr>))),
      slots = [Holding 40]\<rparr>) \<le> 100"
  using concurrent_reservations_bounded [of 50 "\<lambda>_. None" 0 "mg_config_default\<lparr>cfg_limit_bytes := 100\<rparr>" 1
      "\<lparr>guard = fst (try_reserve None 40 (mg_new (\<lambda>_. None) 0 (mg_config_default\<lparr>cfg_limit_bytes := 100\<rparr>))),
        slots = [Holding 40]\<rparr>"]
    uninterrupted_reserve [of 40 50 "mg_new (\<lambda>_. None) 0 (mg_config_default\<lparr>cfg_limit_bytes := 100\<rparr>)"]
  by (simp add: mg_new_def Let_def max_def try_reserve_alone word_le_nat_alt word_less_nat_alt)

end
