(* ===== verification/Spool_Queue.thy ===== *)
theory Spool_Queue
  imports Memory_Guard
begin

text \<open>
  \<open>src/spool/queue.rs\<close> and \<open>src/spool/config.rs\<close>: the disk-backed FIFO, and the recovery of
  its item count from the segment files, which \<open>src/tiered_sink/tiered.rs\<close> repeats with a
  byte count. The queue crate \<open>yaque\<close> and the compressor \<open>zstd\<close> are arguments; what the code
  relies on is \<open>yaque_spec\<close> (a queue with transactional receive) and \<open>zstd_spec\<close> (decoding
  undoes encoding). A receive guard is the transaction between \<open>try_recv\<close> and either
  \<open>commit\<close> or the rollback of its drop. A usize is a 64-bit word; a loop whose indexing can
  panic on corrupt metadata returns \<open>None\<close> there.
\<close>

datatype try_recv_error = RecvIo string | QueueEmpty

record 'q yaque =
  y_send :: "'q \<Rightarrow> bytes \<Rightarrow> 'q \<times> (unit, string) result"
  y_try_recv :: "'q \<Rightarrow> 'q \<times> (bytes, try_recv_error) result"
  y_recv :: "'q \<Rightarrow> ('q \<times> (bytes, string) result) option"
  y_commit :: "'q \<Rightarrow> 'q \<times> (unit, string) result"
  y_rollback :: "'q \<Rightarrow> 'q"
  y_files :: "'q \<Rightarrow> (((bool, string) result \<times> (u64, string) result, string) result list, string) result option"

record zstd =
  z_encode :: "int \<Rightarrow> bytes \<Rightarrow> (bytes, string) result"
  z_decode :: "bytes \<Rightarrow> (bytes, string) result"

datatype spool_error = SpOpen string string | SpQueue string | SpIo string | MaxItemsReached u64
  | MaxSizeReached u64 | SpCompression string | SpDecompression string | SpCorrupted string

record spool_config =
  sp_path :: string
  sp_compress :: bool
  compression_level :: int
  max_items :: "u64 option"
  max_size_bytes :: "u64 option"

definition spool_config_default :: spool_config where
  "spool_config_default = \<lparr>sp_path = ''spool.queue'', sp_compress = False, compression_level = 3,
     max_items = None, max_size_bytes = None\<rparr>"

definition set_compression_level :: "int \<Rightarrow> spool_config \<Rightarrow> spool_config" where
  "set_compression_level lvl c = c\<lparr>compression_level := max 1 (min lvl 22)\<rparr>"

record 'q spool =
  sp_queue :: 'q
  sp_config :: spool_config
  sp_len :: u64

subsection \<open>Queue operations\<close>

fun file_size_loop :: "u64 \<Rightarrow> ((bool, string) result \<times> (u64, string) result, string) result list \<Rightarrow> (u64, spool_error) result" where
  "file_size_loop total_bytes [] = Ok total_bytes"
| "file_size_loop total_bytes (Inl e # es) = Err (SpIo e)"
| "file_size_loop total_bytes (Inr (Inl e, _) # es) = Err (SpIo e)"
| "file_size_loop total_bytes (Inr (Inr False, _) # es) = file_size_loop total_bytes es"
| "file_size_loop total_bytes (Inr (Inr True, Inl e) # es) = Err (SpIo e)"
| "file_size_loop total_bytes (Inr (Inr True, Inr n) # es) = file_size_loop (total_bytes + n) es"

definition file_size :: "'q yaque \<Rightarrow> 'q spool \<Rightarrow> (u64, spool_error) result" where
  "file_size y s = (case y_files y (sp_queue s) of
     None \<Rightarrow> Ok 0 | Some (Inl e) \<Rightarrow> Err (SpIo e) | Some (Inr es) \<Rightarrow> file_size_loop 0 es)"

definition sp_encode :: "zstd \<Rightarrow> spool_config \<Rightarrow> bytes \<Rightarrow> (bytes, spool_error) result" where
  "sp_encode z c data = (if sp_compress c
     then (case z_encode z (compression_level c) data of Inl e \<Rightarrow> Err (SpCompression e) | Inr b \<Rightarrow> Ok b)
     else Ok data)"

definition sp_decode :: "zstd \<Rightarrow> spool_config \<Rightarrow> bytes \<Rightarrow> (bytes, spool_error) result" where
  "sp_decode z c raw = (if sp_compress c
     then (case z_decode z raw of Inl e \<Rightarrow> Err (SpDecompression e) | Inr b \<Rightarrow> Ok b)
     else Ok raw)"

definition items_guard :: "'q spool \<Rightarrow> (unit, spool_error) result" where
  "items_guard s =
     (case max_items (sp_config s) of
        Some m \<Rightarrow> if m \<le> sp_len s then Err (MaxItemsReached m) else Ok ()
      | None \<Rightarrow> Ok ())"

definition size_guard :: "'q yaque \<Rightarrow> 'q spool \<Rightarrow> (unit, spool_error) result" where
  "size_guard y s =
     (case max_size_bytes (sp_config s) of
        Some m \<Rightarrow> (case file_size y s of
            Inl e \<Rightarrow> Err e | Inr n \<Rightarrow> if m \<le> n then Err (MaxSizeReached m) else Ok ())
      | None \<Rightarrow> Ok ())"

definition push :: "'q yaque \<Rightarrow> zstd \<Rightarrow> bytes \<Rightarrow> 'q spool \<Rightarrow> 'q spool \<times> (unit, spool_error) result" where
  "push y z data s =
     (case items_guard s of Inl e \<Rightarrow> (s, Err e) | Inr _ \<Rightarrow>
      case size_guard y s of Inl e \<Rightarrow> (s, Err e) | Inr _ \<Rightarrow>
      case sp_encode z (sp_config s) data of Inl e \<Rightarrow> (s, Err e) | Inr to_write \<Rightarrow>
      case y_send y (sp_queue s) to_write of
        (q, Inl e) \<Rightarrow> (s\<lparr>sp_queue := q\<rparr>, Err (SpQueue e))
      | (q, Inr _) \<Rightarrow> (s\<lparr>sp_queue := q, sp_len := sp_len s + 1\<rparr>, Ok ()))"

definition peek :: "'q yaque \<Rightarrow> zstd \<Rightarrow> 'q spool \<Rightarrow> 'q spool \<times> (bytes option, spool_error) result" where
  "peek y z s =
     (case y_try_recv y (sp_queue s) of
        (q, Inr raw) \<Rightarrow> (s\<lparr>sp_queue := y_rollback y q\<rparr>,
           case sp_decode z (sp_config s) raw of Inl e \<Rightarrow> Err e | Inr data \<Rightarrow> Ok (Some data))
      | (q, Inl (RecvIo e)) \<Rightarrow> (s\<lparr>sp_queue := q\<rparr>, Err (SpIo e))
      | (q, Inl QueueEmpty) \<Rightarrow> (s\<lparr>sp_queue := q\<rparr>, Ok None))"

definition commit_guard :: "'q yaque \<Rightarrow> 'q \<Rightarrow> 'q spool \<Rightarrow> 'q spool \<times> (unit, spool_error) result" where
  "commit_guard y q s =
     (case y_commit y q of
        (q', Inl e) \<Rightarrow> (s\<lparr>sp_queue := q'\<rparr>, Err (SpQueue e))
      | (q', Inr _) \<Rightarrow> (s\<lparr>sp_queue := q', sp_len := saturating_sub (sp_len s) 1\<rparr>, Ok ()))"

definition pop :: "'q yaque \<Rightarrow> 'q spool \<Rightarrow> 'q spool \<times> (unit, spool_error) result" where
  "pop y s =
     (case y_try_recv y (sp_queue s) of
        (q, Inr raw) \<Rightarrow> commit_guard y q s
      | (q, Inl (RecvIo e)) \<Rightarrow> (s\<lparr>sp_queue := q\<rparr>, Err (SpIo e))
      | (q, Inl QueueEmpty) \<Rightarrow> (s\<lparr>sp_queue := q\<rparr>, Ok ()))"

definition pop_front :: "'q yaque \<Rightarrow> zstd \<Rightarrow> 'q spool \<Rightarrow> 'q spool \<times> (bytes option, spool_error) result" where
  "pop_front y z s =
     (case y_try_recv y (sp_queue s) of
        (q, Inr raw) \<Rightarrow> (case sp_decode z (sp_config s) raw of
            Inl e \<Rightarrow> (s\<lparr>sp_queue := y_rollback y q\<rparr>, Err e)
          | Inr data \<Rightarrow> (case commit_guard y q s of
                (s', Inl e) \<Rightarrow> (s', Err e) | (s', Inr _) \<Rightarrow> (s', Ok (Some data))))
      | (q, Inl (RecvIo e)) \<Rightarrow> (s\<lparr>sp_queue := q\<rparr>, Err (SpIo e))
      | (q, Inl QueueEmpty) \<Rightarrow> (s\<lparr>sp_queue := q\<rparr>, Ok None))"

text \<open>The awaiting receive; \<open>None\<close> is a call that still waits.\<close>

definition sp_recv :: "'q yaque \<Rightarrow> zstd \<Rightarrow> 'q spool \<Rightarrow> ('q spool \<times> (bytes, spool_error) result) option" where
  "sp_recv y z s =
     (case y_recv y (sp_queue s) of
        None \<Rightarrow> None
      | Some (q, Inl e) \<Rightarrow> Some (s\<lparr>sp_queue := q\<rparr>, Err (SpQueue e))
      | Some (q, Inr raw) \<Rightarrow> Some (case sp_decode z (sp_config s) raw of
            Inl e \<Rightarrow> (s\<lparr>sp_queue := y_rollback y q\<rparr>, Err e)
          | Inr data \<Rightarrow> (case commit_guard y q s of
                (s', Inl e) \<Rightarrow> (s', Err e) | (s', Inr _) \<Rightarrow> (s', Ok data))))"

text \<open>
  \<open>clear\<close> loops until the receiver reports an empty queue; \<open>None\<close> is a loop that does not
  end. The length is reset only when the loop ends.
\<close>

partial_function (option) clear_loop :: "'q yaque \<Rightarrow> 'q \<Rightarrow> ('q \<times> (unit, spool_error) result) option" where
  "clear_loop y q =
     (case y_try_recv y q of
        (q', Inr raw) \<Rightarrow> (case y_commit y q' of
            (q'', Inl e) \<Rightarrow> Some (q'', Err (SpQueue e))
          | (q'', Inr _) \<Rightarrow> clear_loop y q'')
      | (q', Inl e) \<Rightarrow> Some (q', case e of QueueEmpty \<Rightarrow> Ok () | RecvIo m \<Rightarrow> Err (SpIo m)))"

definition clear :: "'q yaque \<Rightarrow> 'q spool \<Rightarrow> ('q spool \<times> (unit, spool_error) result) option" where
  "clear y s =
     (case clear_loop y (sp_queue s) of None \<Rightarrow> None
      | Some (q, Inl e) \<Rightarrow> Some (s\<lparr>sp_queue := q\<rparr>, Err e)
      | Some (q, Inr _) \<Rightarrow> Some (s\<lparr>sp_queue := q, sp_len := 0\<rparr>, Ok ()))"

definition is_empty :: "'q spool \<Rightarrow> bool" where
  "is_empty s \<longleftrightarrow> sp_len s = 0"

subsection \<open>Recovery of the counters from the segment files\<close>

text \<open>
  What the file system shows of the queue directory: the receiver metadata (\<open>None\<close> when the
  file is absent), the entry names of \<open>read_dir\<close>, the contents of segment \<open>n\<close>.
\<close>

record spool_dir =
  recv_metadata :: "(bytes, string) result option"
  dir_names :: "((string, string) result list, string) result"
  seg_file :: "u64 \<Rightarrow> (bytes, string) result"

definition be_nat :: "bytes \<Rightarrow> nat" where
  "be_nat bs = foldl (\<lambda>a b. a * 256 + unat b) 0 bs"

definition recv_state :: "bytes \<Rightarrow> (u64 \<times> u64) option" where
  "recv_state data = (if 16 \<le> length data
     then Some (of_nat (be_nat (take 8 data)), of_nat (be_nat (take 8 (drop 8 data)))) else None)"

text \<open>\<open>Path::file_stem\<close> and \<open>Path::extension\<close>.\<close>

definition rsplit_dot :: "string \<Rightarrow> string \<times> string option" where
  "rsplit_dot name =
     (let dot = (\<lambda>c. c \<noteq> CHR ''.'') in
      case dropWhile dot (rev name) of
        [] \<Rightarrow> (name, None)
      | _ # b \<Rightarrow> if b = [] \<or> name = ''..'' then (name, None)
                 else (rev b, Some (rev (takeWhile dot (rev name)))))"

definition segment_number :: "string \<Rightarrow> u64 option" where
  "segment_number name = (case rsplit_dot name of
     (stem, ext) \<Rightarrow> if ext = Some ''q'' then parse_u64 stem else None)"

definition segments_from :: "u64 \<Rightarrow> string list \<Rightarrow> u64 list" where
  "segments_from recv_segment names =
     sort (filter (\<lambda>n. recv_segment \<le> n) (List.map_filter segment_number names))"

definition header_eof :: bytes where
  "header_eof = [255, 255, 255, 255]"

function scan_segment :: "bytes \<Rightarrow> nat \<Rightarrow> u64 \<times> u64 \<Rightarrow> (u64 \<times> u64) option" where
  "scan_segment d pos (cnt, nbytes) =
     (if 2 ^ 64 \<le> pos + 4 then None
      else if pos + 4 \<le> length d then
        (let header = take 4 (drop pos d) in
         if header = header_eof then Some (cnt, nbytes)
         else (let plen = be_nat header mod 2 ^ 26; pos' = pos + 4 + plen in
               scan_segment d pos'
                 (if pos' \<le> length d then (cnt + 1, nbytes + of_nat plen) else (cnt, nbytes))))
      else Some (cnt, nbytes))"
  by pat_completeness auto
termination
  by (relation "measure (\<lambda>(d, pos, _). length d - pos)") auto

declare scan_segment.simps [simp del]

definition segment_start :: "u64 \<times> u64 \<Rightarrow> u64 \<Rightarrow> nat" where
  "segment_start recv n = (if n = fst recv then unat (snd recv) else 0)"

text \<open>
  \<open>spool_item_count_and_bytes\<close> skips what it cannot read.
\<close>

fun scan_readable :: "spool_dir \<Rightarrow> u64 \<times> u64 \<Rightarrow> u64 list \<Rightarrow> u64 \<times> u64 \<Rightarrow> (u64 \<times> u64) option" where
  "scan_readable dir recv [] acc = Some acc"
| "scan_readable dir recv (n # ns) acc =
     (case seg_file dir n of
        Inl _ \<Rightarrow> scan_readable dir recv ns acc
      | Inr d \<Rightarrow> (case scan_segment d (segment_start recv n) acc of
            None \<Rightarrow> None | Some acc' \<Rightarrow> scan_readable dir recv ns acc'))"

fun ok_values :: "('a, 'e) result list \<Rightarrow> 'a list" where
  "ok_values [] = []"
| "ok_values (Inl _ # rs) = ok_values rs"
| "ok_values (Inr x # rs) = x # ok_values rs"

definition spool_item_count_and_bytes :: "spool_dir option \<Rightarrow> (u64 \<times> u64) option" where
  "spool_item_count_and_bytes dir =
     (case dir of None \<Rightarrow> Some (0, 0)
      | Some d \<Rightarrow>
          (let recv = (case recv_metadata d of
                 Some (Inr data) \<Rightarrow> (case recv_state data of Some st \<Rightarrow> st | None \<Rightarrow> (0, 0))
               | _ \<Rightarrow> (0, 0));
               names = (case dir_names d of Inl _ \<Rightarrow> [] | Inr es \<Rightarrow> ok_values es)
           in scan_readable d recv (segments_from (fst recv) names) (0, 0)))"

text \<open>
  \<open>count_existing_items\<close> is the same walk with the first I/O error returned, which \<open>open\<close>
  then turns into a count of 0.
\<close>

fun scan_strict :: "spool_dir \<Rightarrow> u64 \<times> u64 \<Rightarrow> u64 list \<Rightarrow> u64 \<times> u64 \<Rightarrow> (u64, string) result option" where
  "scan_strict dir recv [] acc = Some (Ok (fst acc))"
| "scan_strict dir recv (n # ns) acc =
     (case seg_file dir n of
        Inl e \<Rightarrow> Some (Err e)
      | Inr d \<Rightarrow> (case scan_segment d (segment_start recv n) acc of
            None \<Rightarrow> None | Some acc' \<Rightarrow> scan_strict dir recv ns acc'))"

fun all_ok :: "('a, 'e) result list \<Rightarrow> ('a list, 'e) result" where
  "all_ok [] = Ok []"
| "all_ok (Inl e # rs) = Err e"
| "all_ok (Inr x # rs) = (case all_ok rs of Inl e \<Rightarrow> Err e | Inr xs \<Rightarrow> Ok (x # xs))"

definition count_existing_items :: "spool_dir option \<Rightarrow> (u64, string) result option" where
  "count_existing_items dir =
     (case dir of None \<Rightarrow> Some (Ok 0)
      | Some d \<Rightarrow>
          (case recv_metadata d of
             Some (Inl e) \<Rightarrow> Some (Err e)
           | m \<Rightarrow>
               (let recv = (case m of Some (Inr data) \<Rightarrow>
                      (case recv_state data of Some st \<Rightarrow> st | None \<Rightarrow> (0, 0)) | _ \<Rightarrow> (0, 0))
                in case dir_names d of Inl e \<Rightarrow> Some (Err e)
                   | Inr es \<Rightarrow> (case all_ok es of Inl e \<Rightarrow> Some (Err e)
                       | Inr names \<Rightarrow> scan_strict d recv (segments_from (fst recv) names) (0, 0)))))"

definition spool_open :: "('q, string) result \<Rightarrow> spool_dir option \<Rightarrow> spool_config \<Rightarrow>
    ('q spool, spool_error) result option" where
  "spool_open channel dir c =
     (case channel of Inl e \<Rightarrow> Some (Err (SpOpen (sp_path c) e))
      | Inr q \<Rightarrow> (case count_existing_items dir of None \<Rightarrow> None
          | Some r \<Rightarrow> Some (Ok \<lparr>sp_queue = q, sp_config = c,
              sp_len = (case r of Inl _ \<Rightarrow> 0 | Inr n \<Rightarrow> n)\<rparr>)))"

subsection \<open>What the queue crate and the compressor promise\<close>

definition yaque_spec :: "'q yaque \<Rightarrow> ('q \<Rightarrow> bytes list) \<Rightarrow> bool" where
  "yaque_spec y items \<longleftrightarrow>
     (\<forall>q b q' r. y_send y q b = (q', r) \<longrightarrow> items q' = (if is_ok r then items q @ [b] else items q))
     \<and> (\<forall>q q' r. y_try_recv y q = (q', r) \<longrightarrow> items q' = items q
          \<and> (case r of Inr b \<Rightarrow> items q \<noteq> [] \<and> b = hd (items q) | Inl e \<Rightarrow> e = QueueEmpty \<longrightarrow> items q = []))
     \<and> (\<forall>q q' r. y_commit y q = (q', r) \<longrightarrow> items q' = (if is_ok r then tl (items q) else items q))
     \<and> (\<forall>q. items (y_rollback y q) = items q)"

lemma y_send_items:
  "yaque_spec y items \<Longrightarrow> y_send y q b = (q', r) \<Longrightarrow> items q' = (if is_ok r then items q @ [b] else items q)"
  by (simp add: yaque_spec_def)

lemma y_recv_items: "yaque_spec y items \<Longrightarrow> y_try_recv y q = (q', r) \<Longrightarrow> items q' = items q"
  by (simp add: yaque_spec_def)

lemma y_recv_result:
  "yaque_spec y items \<Longrightarrow> y_try_recv y q = (q', r) \<Longrightarrow>
   (case r of Inr b \<Rightarrow> items q \<noteq> [] \<and> b = hd (items q) | Inl e \<Rightarrow> e = QueueEmpty \<longrightarrow> items q = [])"
  by (simp add: yaque_spec_def)

lemma y_recv_Ok:
  "yaque_spec y items \<Longrightarrow> y_try_recv y q = (q', Inr b) \<Longrightarrow> \<exists>rest. items q = b # rest"
  by (drule (1) y_recv_result) (auto simp: neq_Nil_conv)

lemma y_recv_empty:
  "yaque_spec y items \<Longrightarrow> y_try_recv y q = (q', Inl QueueEmpty) \<Longrightarrow> items q = []"
  by (drule (1) y_recv_result) simp

lemma y_commit_items:
  "yaque_spec y items \<Longrightarrow> y_commit y q = (q', r) \<Longrightarrow> items q' = (if is_ok r then tl (items q) else items q)"
  by (simp add: yaque_spec_def)

lemma y_rollback_items: "yaque_spec y items \<Longrightarrow> items (y_rollback y q) = items q"
  by (simp add: yaque_spec_def)

definition zstd_spec :: "zstd \<Rightarrow> bool" where
  "zstd_spec z \<longleftrightarrow> (\<forall>lvl data b. z_encode z lvl data = Ok b \<longrightarrow> z_decode z b = Ok data)"

lemma sp_decode_encode: "zstd_spec z \<Longrightarrow> sp_encode z c data = Ok b \<Longrightarrow> sp_decode z c b = Ok data"
  by (auto simp: sp_encode_def sp_decode_def zstd_spec_def split: if_splits sum.splits)

subsection \<open>The first-in first-out queue it implements\<close>

datatype spool_op = OPush bytes | OPeek | OPop | OPopFront | OClear
datatype spool_out = OUnit "(unit, spool_error) result" | OItem "(bytes option, spool_error) result"

fun spool_step :: "'q yaque \<Rightarrow> zstd \<Rightarrow> spool_op \<Rightarrow> 'q spool \<Rightarrow> ('q spool \<times> spool_out) option" where
  "spool_step y z (OPush data) s = (case push y z data s of (s', r) \<Rightarrow> Some (s', OUnit r))"
| "spool_step y z OPeek s = (case peek y z s of (s', r) \<Rightarrow> Some (s', OItem r))"
| "spool_step y z OPop s = (case pop y s of (s', r) \<Rightarrow> Some (s', OUnit r))"
| "spool_step y z OPopFront s = (case pop_front y z s of (s', r) \<Rightarrow> Some (s', OItem r))"
| "spool_step y z OClear s = (case clear y s of None \<Rightarrow> None | Some (s', r) \<Rightarrow> Some (s', OUnit r))"

fun run_spool :: "'q yaque \<Rightarrow> zstd \<Rightarrow> spool_op list \<Rightarrow> 'q spool \<Rightarrow> ('q spool \<times> spool_out list) option" where
  "run_spool y z [] s = Some (s, [])"
| "run_spool y z (op # ops) s =
     (case spool_step y z op s of None \<Rightarrow> None
      | Some (s', r) \<Rightarrow> (case run_spool y z ops s' of None \<Rightarrow> None
          | Some (s'', rs) \<Rightarrow> Some (s'', r # rs)))"

text \<open>The abstract queue: an error leaves it alone, except that a failing \<open>clear\<close> may
  already have removed some of the oldest items.\<close>

inductive fifo_step :: "bytes list \<Rightarrow> spool_op \<Rightarrow> spool_out \<Rightarrow> bytes list \<Rightarrow> bool" where
  push_ok: "fifo_step xs (OPush d) (OUnit (Ok ())) (xs @ [d])"
| push_err: "fifo_step xs (OPush d) (OUnit (Err e)) xs"
| peek_ok: "fifo_step (d # xs) OPeek (OItem (Ok (Some d))) (d # xs)"
| peek_none: "fifo_step [] OPeek (OItem (Ok None)) []"
| peek_err: "fifo_step xs OPeek (OItem (Err e)) xs"
| pop_ok: "fifo_step xs OPop (OUnit (Ok ())) (tl xs)"
| pop_err: "fifo_step xs OPop (OUnit (Err e)) xs"
| front_ok: "fifo_step (d # xs) OPopFront (OItem (Ok (Some d))) xs"
| front_none: "fifo_step [] OPopFront (OItem (Ok None)) []"
| front_err: "fifo_step xs OPopFront (OItem (Err e)) xs"
| clear_ok: "fifo_step xs OClear (OUnit (Ok ())) []"
| clear_err: "fifo_step (ys @ xs) OClear (OUnit (Err e)) xs"

inductive fifo_run :: "bytes list \<Rightarrow> spool_op list \<Rightarrow> spool_out list \<Rightarrow> bytes list \<Rightarrow> bool" where
  fifo_Nil: "fifo_run xs [] [] xs"
| fifo_Cons: "fifo_step xs op r ys \<Longrightarrow> fifo_run ys ops rs zs \<Longrightarrow> fifo_run xs (op # ops) (r # rs) zs"

definition stored :: "zstd \<Rightarrow> spool_config \<Rightarrow> bytes list \<Rightarrow> bytes list \<Rightarrow> bool" where
  "stored z c raws datas \<longleftrightarrow> list_all2 (\<lambda>raw d. sp_decode z c raw = Ok d) raws datas"

definition represents :: "zstd \<Rightarrow> ('q \<Rightarrow> bytes list) \<Rightarrow> 'q spool \<Rightarrow> bytes list \<Rightarrow> bool" where
  "represents z items s xs \<longleftrightarrow> stored z (sp_config s) (items (sp_queue s)) xs"

lemma stored_simps [simp]:
  "stored z c [] xs \<longleftrightarrow> xs = []"
  "stored z c (r # rs) xs \<longleftrightarrow> (\<exists>d ds. xs = d # ds \<and> sp_decode z c r = Ok d \<and> stored z c rs ds)"
  by (auto simp: stored_def list_all2_Cons1)

lemma stored_snoc: "stored z c rs xs \<Longrightarrow> sp_decode z c r = Ok d \<Longrightarrow> stored z c (rs @ [r]) (xs @ [d])"
  by (simp add: stored_def list_all2_appendI)

lemma stored_length: "stored z c rs xs \<Longrightarrow> length rs = length xs"
  by (simp add: stored_def list_all2_lengthD)

text \<open>The length counter never understates the queue, and a push respects the item cap.\<close>

definition len_ok :: "('q \<Rightarrow> bytes list) \<Rightarrow> 'q spool \<Rightarrow> bool" where
  "len_ok items s \<longleftrightarrow> length (items (sp_queue s)) \<le> unat (sp_len s)"

fun unfailing_clear :: "spool_op \<Rightarrow> spool_out \<Rightarrow> bool" where
  "unfailing_clear OClear (OUnit (Inl _)) = False"
| "unfailing_clear _ _ = True"

definition step_ok :: "zstd \<Rightarrow> ('q \<Rightarrow> bytes list) \<Rightarrow> spool_op \<Rightarrow> 'q spool \<Rightarrow> bytes list \<Rightarrow> 'q spool \<times> spool_out \<Rightarrow> bool" where
  "step_ok z items op s xs = (\<lambda>(s', r). sp_config s' = sp_config s
     \<and> (\<exists>xs'. fifo_step xs op r xs' \<and> represents z items s' xs')
     \<and> unat (sp_len s') \<le> Suc (unat (sp_len s))
     \<and> (\<forall>m. max_items (sp_config s) = Some m \<longrightarrow> unat (sp_len s') \<le> max (unat m) (unat (sp_len s)))
     \<and> len_ok items s'
     \<and> (unfailing_clear op r \<and> length (items (sp_queue s)) = unat (sp_len s)
          \<longrightarrow> length (items (sp_queue s')) = unat (sp_len s')))"

lemma same_queue_ok:
  assumes "represents z items s xs" and "len_ok items s" and "items q = items (sp_queue s)" and "fifo_step xs op r xs"
  shows "step_ok z items op s xs (s\<lparr>sp_queue := q\<rparr>, r)"
  using assms by (auto simp: step_ok_def represents_def len_ok_def)

lemma unchanged_ok:
  assumes "represents z items s xs" and "len_ok items s" and "fifo_step xs op r xs"
  shows "step_ok z items op s xs (s, r)"
  using same_queue_ok [OF assms(1,2) refl assms(3)] by simp

lemma enqueued_ok:
  assumes len: "unat (sp_len s) + 1 < 2 ^ 64" and cap: "items_guard s = Ok ()"
    and rep: "represents z items s xs" and ok: "len_ok items s"
    and q: "items q = items (sp_queue s) @ [b]" and b: "sp_decode z (sp_config s) b = Ok data"
  shows "step_ok z items (OPush data) s xs (s\<lparr>sp_queue := q, sp_len := sp_len s + 1\<rparr>, OUnit (Ok ()))"
proof -
  have l: "unat (sp_len s + 1) = Suc (unat (sp_len s))" using len by (simp add: unat_word_ariths)
  have "unat (sp_len s + 1) \<le> max (unat m) (unat (sp_len s))" if "max_items (sp_config s) = Some m" for m
    using cap that l by (auto simp: items_guard_def word_le_nat_alt split: if_splits)
  moreover have "represents z items (s\<lparr>sp_queue := q, sp_len := sp_len s + 1\<rparr>) (xs @ [data])"
    using rep q b by (simp add: represents_def stored_snoc)
  ultimately show ?thesis using ok q l
    by (auto simp: step_ok_def len_ok_def intro!: exI [of _ "xs @ [data]"] push_ok)
qed

lemma push_step:
  assumes y: "yaque_spec y items" and z: "zstd_spec z" and len: "unat (sp_len s) + 1 < 2 ^ 64"
    and rep: "represents z items s xs" and ok: "len_ok items s" and p: "push y z data s = (s', r)"
  shows "step_ok z items (OPush data) s xs (s', OUnit r)"
proof (cases r)
  case (Inl e)
  then have "\<exists>q. s' = s\<lparr>sp_queue := q\<rparr> \<and> items q = items (sp_queue s)"
    using p y_send_items [OF y] by (fastforce simp: push_def intro: exI [of _ "sp_queue s"] split: sum.splits prod.splits)
  with Inl show ?thesis using same_queue_ok [OF rep ok] push_err by blast
next
  case (Inr u)
  then obtain b q v where "items_guard s = Ok ()" and b: "sp_encode z (sp_config s) data = Ok b"
      and q: "y_send y (sp_queue s) b = (q, Inr v)" and s': "s' = s\<lparr>sp_queue := q, sp_len := sp_len s + 1\<rparr>"
    using p by (auto simp: push_def split: sum.splits prod.splits)
  then show ?thesis
    using enqueued_ok [OF len _ rep ok _ sp_decode_encode [OF z b]] y_send_items [OF y q] Inr by simp
qed

lemma removed_ok:
  assumes y: "yaque_spec y items" and rep: "represents z items s xs" and ok: "len_ok items s"
    and q: "items q = items (sp_queue s)" and raw: "items (sp_queue s) = b # rest"
    and c: "commit_guard y q s = (s', Inr u)"
    and f: "fifo_step xs op r (tl xs)" and u: "unfailing_clear op r"
  shows "step_ok z items op s xs (s', r)"
proof -
  obtain q' where q': "items q' = rest" and s': "s' = s\<lparr>sp_queue := q', sp_len := saturating_sub (sp_len s) 1\<rparr>"
    using c y_commit_items [OF y] q raw by (fastforce simp: commit_guard_def split: sum.splits prod.splits)
  have "represents z items s' (tl xs)" using rep raw q' s' by (auto simp: represents_def)
  then show ?thesis using f u s' q' raw ok
    by (auto simp: step_ok_def len_ok_def unat_saturating_sub)
qed

lemma commit_failed:
  assumes "yaque_spec y items" and "commit_guard y q s = (s', Inl e)" and "items q = items (sp_queue s)"
  shows "\<exists>q'. s' = s\<lparr>sp_queue := q'\<rparr> \<and> items q' = items (sp_queue s)"
  using assms(2,3) y_commit_items [OF assms(1)]
  by (fastforce simp: commit_guard_def split: sum.splits prod.splits)

lemma recv_io_ok:
  assumes "yaque_spec y items" and "represents z items s xs" and "len_ok items s"
    and "y_try_recv y (sp_queue s) = (q, r)" and "fifo_step xs op out xs"
  shows "step_ok z items op s xs (s\<lparr>sp_queue := q\<rparr>, out)"
  using same_queue_ok [OF assms(2,3) y_recv_items [OF assms(1,4)] assms(5)] .

lemma rep_empty: "represents z items s xs \<Longrightarrow> items (sp_queue s) = [] \<Longrightarrow> xs = []"
  by (simp add: represents_def)

lemma rep_length: "represents z items s xs \<Longrightarrow> length (items (sp_queue s)) = length xs"
  by (simp add: represents_def stored_length)

lemma rep_Cons:
  "represents z items s xs \<Longrightarrow> items (sp_queue s) = b # rest \<Longrightarrow>
   \<exists>d ds. xs = d # ds \<and> sp_decode z (sp_config s) b = Ok d"
  by (auto simp: represents_def)

lemma peek_step:
  assumes y: "yaque_spec y items" and rep: "represents z items s xs" and ok: "len_ok items s"
    and p: "peek y z s = (s', r)"
  shows "step_ok z items OPeek s xs (s', OItem r)"
proof (cases "y_try_recv y (sp_queue s)")
  case (Pair q rr)
  show ?thesis
  proof (cases rr)
    case (Inl e)
    have "r = Ok None \<and> xs = [] \<or> (\<exists>m. r = Err m)"
      using p Pair Inl y_recv_empty [OF y] rep_empty [OF rep]
      by (cases e) (auto simp: peek_def)
    then have "fifo_step xs OPeek (OItem r) xs" by (auto intro: peek_none peek_err)
    moreover have "s' = s\<lparr>sp_queue := q\<rparr>" using p Pair Inl by (cases e) (auto simp: peek_def)
    ultimately show ?thesis using recv_io_ok [OF y rep ok Pair] by simp
  next
    case (Inr raw)
    obtain rest where raw: "items (sp_queue s) = raw # rest" using y_recv_Ok [OF y] Pair Inr by blast
    obtain d ds where d: "xs = d # ds" "sp_decode z (sp_config s) raw = Ok d" using rep_Cons [OF rep raw] by blast
    have "s' = s\<lparr>sp_queue := y_rollback y q\<rparr>" "r = Ok (Some d)" using p Pair Inr d by (auto simp: peek_def)
    moreover have "items (y_rollback y q) = items (sp_queue s)"
      using y_rollback_items [OF y] y_recv_items [OF y Pair] by simp
    ultimately show ?thesis using same_queue_ok [OF rep ok _ peek_ok [of d ds, folded d(1)]] by simp
  qed
qed

lemma pop_step:
  assumes y: "yaque_spec y items" and rep: "represents z items s xs" and ok: "len_ok items s"
    and p: "pop y s = (s', r)"
  shows "step_ok z items OPop s xs (s', OUnit r)"
proof (cases "y_try_recv y (sp_queue s)")
  case (Pair q rr)
  show ?thesis
  proof (cases rr)
    case (Inl e)
    have "r = Ok () \<and> xs = [] \<or> (\<exists>m. r = Err m)"
      using p Pair Inl y_recv_empty [OF y] rep_empty [OF rep]
      by (cases e) (auto simp: pop_def)
    then have "fifo_step xs OPop (OUnit r) xs" using pop_ok [of "[]"] by (auto intro: pop_err)
    moreover have "s' = s\<lparr>sp_queue := q\<rparr>" using p Pair Inl by (cases e) (auto simp: pop_def)
    ultimately show ?thesis using recv_io_ok [OF y rep ok Pair] by simp
  next
    case (Inr raw)
    obtain rest where raw: "items (sp_queue s) = raw # rest" using y_recv_Ok [OF y] Pair Inr by blast
    have q: "items q = items (sp_queue s)" using y_recv_items [OF y Pair] .
    have c: "commit_guard y q s = (s', r)" using p Pair Inr by (simp add: pop_def)
    show ?thesis
    proof (cases r)
      case (Inl e)
      then show ?thesis using commit_failed [OF y _ q] c same_queue_ok [OF rep ok _ pop_err] by blast
    next
      case (Inr u)
      then show ?thesis using removed_ok [OF y rep ok q raw] c pop_ok by simp
    qed
  qed
qed

lemma pop_front_step:
  assumes y: "yaque_spec y items" and rep: "represents z items s xs" and ok: "len_ok items s"
    and p: "pop_front y z s = (s', r)"
  shows "step_ok z items OPopFront s xs (s', OItem r)"
proof (cases "y_try_recv y (sp_queue s)")
  case (Pair q rr)
  show ?thesis
  proof (cases rr)
    case (Inl e)
    have "r = Ok None \<and> xs = [] \<or> (\<exists>m. r = Err m)"
      using p Pair Inl y_recv_empty [OF y] rep_empty [OF rep]
      by (cases e) (auto simp: pop_front_def)
    then have "fifo_step xs OPopFront (OItem r) xs" by (auto intro: front_none front_err)
    moreover have "s' = s\<lparr>sp_queue := q\<rparr>" using p Pair Inl by (cases e) (auto simp: pop_front_def)
    ultimately show ?thesis using recv_io_ok [OF y rep ok Pair] by simp
  next
    case (Inr raw)
    obtain rest where raw: "items (sp_queue s) = raw # rest" using y_recv_Ok [OF y] Pair Inr by blast
    obtain d ds where d: "xs = d # ds" "sp_decode z (sp_config s) raw = Ok d" using rep_Cons [OF rep raw] by blast
    have q: "items q = items (sp_queue s)" using y_recv_items [OF y Pair] .
    obtain s1 rc where c: "commit_guard y q s = (s1, rc)" by fastforce
    show ?thesis
    proof (cases rc)
      case (Inl e)
      then have "s' = s1" "r = Err e" using p Pair Inr d c by (auto simp: pop_front_def)
      then show ?thesis using commit_failed [OF y _ q] c Inl same_queue_ok [OF rep ok _ front_err] by blast
    next
      case (Inr u)
      then have "s' = s1" "r = Ok (Some d)" using p Pair \<open>rr = Inr raw\<close> d c by (auto simp: pop_front_def)
      then show ?thesis using removed_ok [OF y rep ok q raw] c Inr front_ok [of d ds] d by simp
    qed
  qed
qed

text \<open>An awaiting receive that gets an item removes what \<open>pop_front\<close> would have removed.\<close>

lemma recv_is_pop_front:
  assumes "y_recv y (sp_queue s) = Some (q, Ok raw)" and "y_try_recv y (sp_queue s) = (q, Ok raw)"
  shows "sp_recv y z s = Some (map_prod id (map_sum id the) (pop_front y z s))"
  using assms by (simp add: sp_recv_def pop_front_def split: sum.splits prod.splits)

text \<open>\<open>clear\<close> ends: every committed receive shortens the queue.\<close>

lemma clear_loop_ends:
  assumes y: "yaque_spec y items"
  shows "\<exists>q' r. clear_loop y q = Some (q', r) \<and> suffix (items q') (items q) \<and> (is_ok r \<longrightarrow> items q' = [])"
proof (induction "length (items q)" arbitrary: q rule: less_induct)
  case less
  obtain q1 rr where recv: "y_try_recv y q = (q1, rr)" by fastforce
  note q1 = y_recv_items [OF y recv]
  show ?case
  proof (cases rr)
    case (Inl e)
    then show ?thesis using recv q1 y_recv_empty [OF y] by (cases e) (auto simp: clear_loop.simps [of y q])
  next
    case (Inr raw)
    obtain rest where raw: "items q = raw # rest" using y_recv_Ok [OF y] recv Inr by blast
    obtain q2 rc where c: "y_commit y q1 = (q2, rc)" by fastforce
    show ?thesis
    proof (cases rc)
      case (Inl e)
      then show ?thesis using recv Inr c y_commit_items [OF y c] q1 by (auto simp: clear_loop.simps [of y q])
    next
      case (Inr u)
      then have q2: "items q2 = rest" using y_commit_items [OF y c] q1 raw by simp
      then have "\<exists>q' r. clear_loop y q2 = Some (q', r) \<and> suffix (items q') (items q2) \<and> (is_ok r \<longrightarrow> items q' = [])"
        using less [of q2] raw by simp
      then show ?thesis using recv \<open>rr = Inr raw\<close> c Inr raw q2
        by (auto simp: clear_loop.simps [of y q] suffix_ConsI)
    qed
  qed
qed

lemma stored_suffix:
  "stored z c (ys @ rs) xs \<Longrightarrow> \<exists>us vs. xs = us @ vs \<and> stored z c rs vs"
  by (auto simp: stored_def list_all2_append1)

lemma clear_step:
  assumes y: "yaque_spec y items" and rep: "represents z items s xs" and ok: "len_ok items s"
  shows "\<exists>s' r. clear y s = Some (s', r) \<and> step_ok z items OClear s xs (s', OUnit r)"
proof -
  obtain q r where c: "clear_loop y (sp_queue s) = Some (q, r)" and suf: "suffix (items q) (items (sp_queue s))"
    and fin: "is_ok r \<longrightarrow> items q = []" using clear_loop_ends [OF y] by blast
  show ?thesis
  proof (cases r)
    case (Inl e)
    obtain ys where ys: "items (sp_queue s) = ys @ items q" using suf by (auto simp: suffix_def)
    then obtain us vs where "xs = us @ vs" "stored z (sp_config s) (items q) vs"
      using rep stored_suffix unfolding represents_def by metis
    then show ?thesis using c Inl ok ys clear_err [of us vs e]
      by (auto simp: clear_def step_ok_def represents_def len_ok_def)
  next
    case (Inr u)
    then show ?thesis using c fin clear_ok [of xs]
      by (auto simp: clear_def step_ok_def represents_def len_ok_def)
  qed
qed

lemma spool_step_ok:
  assumes y: "yaque_spec y items" and z: "zstd_spec z" and len: "unat (sp_len s) + 1 < 2 ^ 64"
    and rep: "represents z items s xs" and ok: "len_ok items s"
  shows "\<exists>s' r. spool_step y z op s = Some (s', r) \<and> step_ok z items op s xs (s', r)"
proof (cases op)
  case (OPush d)
  then show ?thesis using push_step [OF y z len rep ok] by (cases "push y z d s") auto
next
  case OPeek
  then show ?thesis using peek_step [OF y rep ok] by (cases "peek y z s") auto
next
  case OPop
  then show ?thesis using pop_step [OF y rep ok] by (cases "pop y s") auto
next
  case OPopFront
  then show ?thesis using pop_front_step [OF y rep ok] by (cases "pop_front y z s") auto
next
  case OClear
  then show ?thesis using clear_step [OF y rep ok] by fastforce
qed

definition run_ok :: "zstd \<Rightarrow> ('q \<Rightarrow> bytes list) \<Rightarrow> spool_op list \<Rightarrow> 'q spool \<Rightarrow> bytes list \<Rightarrow> 'q spool \<Rightarrow> spool_out list \<Rightarrow> bytes list \<Rightarrow> bool" where
  "run_ok z items ops s xs s' outs xs' \<longleftrightarrow>
     fifo_run xs ops outs xs' \<and> represents z items s' xs' \<and> length xs' \<le> unat (sp_len s')
     \<and> (list_all2 unfailing_clear ops outs \<and> length xs = unat (sp_len s) \<longrightarrow> length xs' = unat (sp_len s'))
     \<and> (\<forall>m. max_items (sp_config s) = Some m \<longrightarrow> unat (sp_len s') \<le> max (unat m) (unat (sp_len s)))"

lemma run_spool_ok:
  assumes y: "yaque_spec y items" and z: "zstd_spec z"
  shows "unat (sp_len s) + length ops < 2 ^ 64 \<Longrightarrow> represents z items s xs \<Longrightarrow> len_ok items s \<Longrightarrow>
    \<exists>s' outs xs'. run_spool y z ops s = Some (s', outs) \<and> run_ok z items ops s xs s' outs xs'"
proof (induction ops arbitrary: s xs)
  case Nil
  then show ?case
    by (auto simp: run_ok_def len_ok_def represents_def stored_length intro!: fifo_Nil)
next
  case (Cons op ops)
  then obtain s1 r where st: "spool_step y z op s = Some (s1, r)" and ok: "step_ok z items op s xs (s1, r)"
    using spool_step_ok [OF y z, of s xs op] by auto
  obtain xs1 where xs1: "fifo_step xs op r xs1" "represents z items s1 xs1"
    using ok by (auto simp: step_ok_def)
  have l1: "len_ok items s1" and c: "sp_config s1 = sp_config s" and ub: "unat (sp_len s1) \<le> Suc (unat (sp_len s))"
    and cap: "\<And>m. max_items (sp_config s) = Some m \<Longrightarrow> unat (sp_len s1) \<le> max (unat m) (unat (sp_len s))"
    using ok by (auto simp: step_ok_def)
  have ex: "length xs1 = unat (sp_len s1)" if "unfailing_clear op r" "length xs = unat (sp_len s)"
    using ok that rep_length [OF Cons.prems(2)] rep_length [OF xs1(2)] by (simp add: step_ok_def)
  obtain s2 outs xs2 where run: "run_spool y z ops s1 = Some (s2, outs)" and ok2: "run_ok z items ops s1 xs1 s2 outs xs2"
    using Cons.IH [OF _ xs1(2) l1] Cons.prems(1) ub by auto
  have "unat (sp_len s2) \<le> max (unat m) (unat (sp_len s))" if "max_items (sp_config s) = Some m" for m
    using ok2 cap [OF that] that c by (fastforce simp: run_ok_def)
  then have "run_ok z items (op # ops) s xs s2 (r # outs) xs2"
    using ok2 xs1(1) ex by (auto simp: run_ok_def intro: fifo_Cons)
  then show ?case using st run by auto
qed

text \<open>C16. The spool is a bounded FIFO queue: for every sequence of operations on a spool whose
  queue crate is transactional and whose compressor round-trips, every call returns (also
  \<open>clear\<close>, whose loop ends), the results are those of a first-in first-out list of payloads
  on which errors have no effect (a failing \<open>clear\<close> excepted, which may have dropped a
  prefix), the length counter never understates the queue and is exact unless a \<open>clear\<close>
  failed, and it never exceeds a configured item cap.
\<close>

theorem spool_refines_fifo:
  assumes "yaque_spec y items" and "zstd_spec z" and "unat (sp_len s) + length ops < 2 ^ 64"
    and "represents z items s xs" and "len_ok items s"
  shows "\<exists>s' outs xs'. run_spool y z ops s = Some (s', outs) \<and> fifo_run xs ops outs xs'
    \<and> represents z items s' xs' \<and> length xs' \<le> unat (sp_len s')
    \<and> (list_all2 unfailing_clear ops outs \<and> length xs = unat (sp_len s) \<longrightarrow> length xs' = unat (sp_len s'))
    \<and> (\<forall>m. max_items (sp_config s) = Some m \<longrightarrow> unat (sp_len s') \<le> max (unat m) (unat (sp_len s)))"
  using run_spool_ok [OF assms] unfolding run_ok_def .

text \<open>A queue in memory whose commits fail when a fault has been planted (the number is the
  count of commits that still succeed, 0 meaning no fault), and a compressor that tags.\<close>

definition demo_yaque :: "(bytes list \<times> nat) yaque" where
  "demo_yaque = \<lparr>
     y_send = (\<lambda>q b. ((fst q @ [b], snd q), Ok ())),
     y_try_recv = (\<lambda>q. (q, if fst q = [] then Err QueueEmpty else Ok (hd (fst q)))),
     y_recv = (\<lambda>q. if fst q = [] then None else Some (q, Ok (hd (fst q)))),
     y_commit = (\<lambda>q. if snd q = 1 then (q, Err ''disk'') else ((tl (fst q), snd q - 1), Ok ())),
     y_rollback = (\<lambda>q. q),
     y_files = (\<lambda>q. Some (Ok (map (\<lambda>b. Ok (Ok True, Ok (of_nat (length b)))) (fst q))))\<rparr>"

definition demo_zstd :: zstd where
  "demo_zstd = \<lparr>z_encode = (\<lambda>l b. Ok (0x28 # b)), z_decode = (\<lambda>b. if b = [] then Err ''eof'' else Ok (tl b))\<rparr>"

lemma demo_yaque_spec: "yaque_spec demo_yaque fst"
  by (auto simp: yaque_spec_def demo_yaque_def split: if_splits)

lemma demo_zstd_spec: "zstd_spec demo_zstd"
  by (simp add: zstd_spec_def demo_zstd_def)

definition demo_spool :: "(bytes list \<times> nat) spool" where
  "demo_spool = \<lparr>sp_queue = ([], 2), sp_config = spool_config_default\<lparr>sp_compress := True, max_items := Some 2\<rparr>, sp_len = 0\<rparr>"

theorem spool_refines_fifo_witness:
  "\<exists>s' outs xs'. run_spool demo_yaque demo_zstd [OPush [1], OPush [2], OPush [3], OPopFront, OClear] demo_spool = Some (s', outs)
     \<and> fifo_run [] [OPush [1], OPush [2], OPush [3], OPopFront, OClear] outs xs' \<and> length xs' \<le> unat (sp_len s')"
  using spool_refines_fifo [OF demo_yaque_spec demo_zstd_spec,
      of demo_spool "[OPush [1], OPush [2], OPush [3], OPopFront, OClear]" "[]"]
  by (auto simp: demo_spool_def represents_def len_ok_def)

text \<open>
  A \<open>clear\<close> that fails after removing items leaves the length counter at its old value, so
  the spool refuses a push although the queue holds less than its cap.
\<close>

lemma demo_yaque_simps [simp]:
  "y_send demo_yaque q b = ((fst q @ [b], snd q), Ok ())"
  "y_try_recv demo_yaque q = (q, if fst q = [] then Err QueueEmpty else Ok (hd (fst q)))"
  "y_commit demo_yaque q = (if snd q = 1 then (q, Err ''disk'') else ((tl (fst q), snd q - 1), Ok ()))"
  by (simp_all add: demo_yaque_def)

lemma demo_clear: "clear_loop demo_yaque ([a, b], 2) = Some (([b], 1), Err (SpQueue ''disk''))"
  by (subst clear_loop.simps, simp, subst clear_loop.simps, simp)

lemma failed_clear_overstates_length:
  "(case run_spool demo_yaque demo_zstd [OPush [1], OPush [2], OClear, OPush [3]] demo_spool of
      Some (s', outs) \<Rightarrow> sp_queue s' = ([[0x28, 2]], 1) \<and> sp_len s' = 2
        \<and> outs ! 3 = OUnit (Err (MaxItemsReached 2))
    | None \<Rightarrow> False)"
  by (simp add: demo_spool_def demo_zstd_def push_def items_guard_def size_guard_def
      sp_encode_def spool_config_default_def clear_def demo_clear
      word_le_nat_alt)

subsection \<open>Recovery counts exactly the complete frames\<close>

text \<open>What the code knows of the crate's header: four bytes whose low 26 bits are the
  payload length, never the end marker.\<close>

definition header_spec :: "(nat \<Rightarrow> bytes) \<Rightarrow> bool" where
  "header_spec hdr \<longleftrightarrow> (\<forall>n < 2 ^ 26. length (hdr n) = 4 \<and> be_nat (hdr n) mod 2 ^ 26 = n \<and> hdr n \<noteq> header_eof)"

definition frame :: "(nat \<Rightarrow> bytes) \<Rightarrow> bytes \<Rightarrow> bytes" where
  "frame hdr p = hdr (length p) @ p"

text \<open>What may follow the last complete frame: nothing, a torn header, the end marker, or a
  frame whose payload was cut off.\<close>

definition torn_tail :: "(nat \<Rightarrow> bytes) \<Rightarrow> bytes \<Rightarrow> bool" where
  "torn_tail hdr t \<longleftrightarrow> length t < 4 \<or> take 4 t = header_eof
     \<or> (\<exists>n < 2 ^ 26. \<exists>p. t = hdr n @ p \<and> length p < n)"

lemma scan_tail:
  assumes h: "header_spec hdr" and t: "torn_tail hdr t" and l: "length (pre @ t) + 2 ^ 26 + 4 < 2 ^ 64"
  shows "scan_segment (pre @ t) (length pre) acc = Some acc"
proof -
  obtain c b where acc: "acc = (c, b)" by fastforce
  have step: "scan_segment (pre @ t) (length pre) (c, b) =
      (if 4 \<le> length t then
         if take 4 t = header_eof then Some (c, b)
         else let plen = be_nat (take 4 t) mod 2 ^ 26; pos' = length pre + 4 + plen in
              scan_segment (pre @ t) pos' (if pos' \<le> length (pre @ t) then (c + 1, b + of_nat plen) else (c, b))
       else Some (c, b))"
    using l by (subst scan_segment.simps) simp
  have past: "scan_segment (pre @ t) p (c, b) = Some (c, b)" if "length (pre @ t) < p" "p + 4 < 2 ^ 64" for p
    using that by (subst scan_segment.simps) simp
  show ?thesis
  proof (cases "length t < 4 \<or> take 4 t = header_eof")
    case True
    then show ?thesis using step acc by auto
  next
    case False
    then obtain n p where n: "n < 2 ^ 26" "t = hdr n @ p" "length p < n" using t by (auto simp: torn_tail_def)
    have hn: "length (hdr n) = 4" "be_nat (hdr n) mod 2 ^ 26 = n" using h n by (auto simp: header_spec_def)
    then have "scan_segment (pre @ t) (length pre) (c, b) = scan_segment (pre @ t) (length pre + 4 + n) (c, b)"
      using False n step by (simp add: Let_def)
    also have "\<dots> = Some (c, b)" using past [of "length pre + 4 + n"] n hn l by simp
    finally show ?thesis using acc by simp
  qed
qed

lemma scan_frames:
  assumes h: "header_spec hdr"
  shows "torn_tail hdr t \<Longrightarrow> \<forall>p\<in>set ps. length p < 2 ^ 26 \<Longrightarrow>
    length (pre @ concat (map (frame hdr) ps) @ t) + 2 ^ 26 + 4 < 2 ^ 64 \<Longrightarrow>
    scan_segment (pre @ concat (map (frame hdr) ps) @ t) (length pre) (c, b) =
      Some (c + of_nat (length ps), b + of_nat (sum_list (map length ps)))"
proof (induction ps arbitrary: pre c b)
  case Nil
  then show ?case using scan_tail [OF h, of t pre "(c, b)"] by simp
next
  case (Cons p ps)
  let ?rest = "concat (map (frame hdr) ps) @ t"
  let ?d = "pre @ concat (map (frame hdr) (p # ps)) @ t"
  have hp: "length (hdr (length p)) = 4" "be_nat (hdr (length p)) mod 2 ^ 26 = length p" "hdr (length p) \<noteq> header_eof"
    using h Cons.prems by (auto simp: header_spec_def)
  have d: "?d = (pre @ frame hdr p) @ ?rest" by simp
  have "scan_segment ?d (length pre) (c, b) =
      scan_segment ?d (length pre + 4 + length p) (c + 1, b + of_nat (length p))"
    using Cons.prems(3) hp by (subst scan_segment.simps) (simp add: frame_def Let_def)
  also have "length pre + 4 + length p = length (pre @ frame hdr p)" using hp by (simp add: frame_def)
  also have "scan_segment ?d (length (pre @ frame hdr p)) (c + 1, b + of_nat (length p)) =
      Some (c + 1 + of_nat (length ps), b + of_nat (length p) + of_nat (sum_list (map length ps)))"
    unfolding d using Cons.IH [of "pre @ frame hdr p" "c + 1" "b + of_nat (length p)"] Cons.prems by simp
  finally show ?case by (simp add: algebra_simps)
qed

definition segment_holds :: "(nat \<Rightarrow> bytes) \<Rightarrow> nat \<Rightarrow> bytes \<Rightarrow> bytes list \<Rightarrow> bool" where
  "segment_holds hdr start file ps \<longleftrightarrow>
     (\<exists>pre t. file = pre @ concat (map (frame hdr) ps) @ t \<and> length pre = start \<and> torn_tail hdr t)
     \<and> (\<forall>p\<in>set ps. length p < 2 ^ 26) \<and> length file + 2 ^ 26 + 4 < 2 ^ 64"

definition dir_holds :: "(nat \<Rightarrow> bytes) \<Rightarrow> spool_dir \<Rightarrow> u64 \<times> u64 \<Rightarrow> u64 list \<Rightarrow> (u64 \<Rightarrow> bytes list) \<Rightarrow> bool" where
  "dir_holds hdr d recv ns ps \<longleftrightarrow>
     (\<forall>n\<in>set ns. \<exists>file. seg_file d n = Ok file \<and> segment_holds hdr (segment_start recv n) file (ps n))"

lemma segment_holdsI:
  assumes "fl = pre @ concat (map (frame hdr) ps) @ t" and "length pre = start" and "torn_tail hdr t"
    and "\<forall>p\<in>set ps. length p < 2 ^ 26" and "length fl + 2 ^ 26 + 4 < 2 ^ 64"
  shows "segment_holds hdr start fl ps"
  using assms unfolding segment_holds_def by blast

lemma scan_segment_holds:
  "header_spec hdr \<Longrightarrow> segment_holds hdr start file ps \<Longrightarrow>
   scan_segment file start acc =
     Some (fst acc + of_nat (length ps), snd acc + of_nat (sum_list (map length ps)))"
  using scan_frames [of hdr _ ps _ "fst acc" "snd acc"] by (fastforce simp: segment_holds_def)

lemma scan_readable_holds:
  "header_spec hdr \<Longrightarrow> dir_holds hdr d recv ns ps \<Longrightarrow>
   scan_readable d recv ns acc = Some (fst acc + of_nat (\<Sum>n\<leftarrow>ns. length (ps n)),
     snd acc + of_nat (\<Sum>n\<leftarrow>ns. sum_list (map length (ps n))))"
proof (induction ns arbitrary: acc)
  case (Cons n ns)
  then obtain f where "seg_file d n = Ok f" "segment_holds hdr (segment_start recv n) f (ps n)"
    by (auto simp: dir_holds_def)
  then show ?case using Cons scan_segment_holds [OF Cons.prems(1)] by (simp add: dir_holds_def algebra_simps)
qed simp

lemma scan_strict_holds:
  "header_spec hdr \<Longrightarrow> dir_holds hdr d recv ns ps \<Longrightarrow>
   scan_strict d recv ns acc = Some (Ok (fst acc + of_nat (\<Sum>n\<leftarrow>ns. length (ps n))))"
proof (induction ns arbitrary: acc)
  case (Cons n ns)
  then obtain f where "seg_file d n = Ok f" "segment_holds hdr (segment_start recv n) f (ps n)"
    by (auto simp: dir_holds_def)
  then show ?case using Cons scan_segment_holds [OF Cons.prems(1)] by (simp add: dir_holds_def algebra_simps)
qed simp

lemma ok_values_map [simp]: "ok_values (map Inr xs) = xs"
  by (induction xs) auto

lemma all_ok_map [simp]: "all_ok (map Inr xs) = Ok xs"
  by (induction xs) auto

lemma sum_segments:
  "(\<Sum>n\<leftarrow>segments_from r names. f n) =
   (\<Sum>n\<leftarrow>filter (\<lambda>n. r \<le> n) (List.map_filter segment_number names). f n :: nat)"
  unfolding segments_from_def by (metis mset_map mset_sort sum_mset_sum_list)

text \<open>Recovery after a restart: when the segment files from the receiver position on hold
  complete frames of payloads, possibly followed by a torn frame, a torn header or the end
  marker, the item count and the byte count are the number and the total length of those
  payloads, whatever other files the directory lists and in whatever order; \<open>Spool::open\<close>
  starts from the same count.
\<close>

theorem recovery_counts_frames:
  assumes "header_spec hdr" and "recv_metadata d = Some (Ok meta)" and "recv_state meta = Some recv"
    and "dir_names d = Ok (map Ok names)" and "dir_holds hdr d recv (segments_from (fst recv) names) ps"
  shows "spool_item_count_and_bytes (Some d) =
      (let ns = filter (\<lambda>n. fst recv \<le> n) (List.map_filter segment_number names)
       in Some (of_nat (\<Sum>n\<leftarrow>ns. length (ps n)), of_nat (\<Sum>n\<leftarrow>ns. sum_list (map length (ps n)))))
    \<and> map_option (map_sum id sp_len) (spool_open (Ok q) (Some d) c) =
      Some (Ok (of_nat (\<Sum>n\<leftarrow>filter (\<lambda>n. fst recv \<le> n) (List.map_filter segment_number names). length (ps n))))"
  using assms scan_readable_holds [OF assms(1,5)] scan_strict_holds [OF assms(1,5)]
  by (simp add: spool_item_count_and_bytes_def count_existing_items_def spool_open_def sum_segments Let_def)

text \<open>A header without the parity bits, enough to check that the law can hold.\<close>

definition demo_header :: "nat \<Rightarrow> bytes" where
  "demo_header n = [of_nat (n div 256 div 256 div 256 mod 256), of_nat (n div 256 div 256 mod 256), of_nat (n div 256 mod 256), of_nat (n mod 256)]"

lemma unat_byte: "unat (of_nat (n mod 256) :: byte) = n mod 256"
  by (simp add: unat_of_nat)

lemma demo_header_spec: "header_spec demo_header"
proof -
  have top: "n div 256 div 256 div 256 mod 256 = n div 256 div 256 div 256" if "n < 2 ^ 26" for n :: nat
    using that by (simp add: div_mult2_eq [symmetric])
  have "be_nat (demo_header n) = n" if "n < 2 ^ 26" for n
    unfolding be_nat_def demo_header_def
    by (simp only: foldl.simps unat_byte) (simp only: top [OF that] div_mult_mod_eq mult_0 add_0)
  moreover have "demo_header n \<noteq> header_eof" if "n < 2 ^ 26" for n
  proof
    assume "demo_header n = header_eof"
    then have "unat (of_nat (n div 256 div 256 div 256 mod 256) :: byte) = 255"
      by (simp add: demo_header_def header_eof_def)
    then show False using that unfolding unat_byte by (simp add: div_mult2_eq [symmetric])
  qed
  ultimately show ?thesis by (simp add: header_spec_def) (simp add: demo_header_def)
qed

definition demo_dir :: spool_dir where
  "demo_dir = \<lparr>recv_metadata = Some (Ok [0, 0, 0, 0, 0, 0, 0, 0, 0, 0, 0, 0, 0, 0, 0, 5]),
     dir_names = Ok (map Ok [''recv-metadata'', ''1.q'', ''0.q'']),
     seg_file = (\<lambda>n. Ok (if n = 0 then frame demo_header [9] @ frame demo_header [1, 2] @ header_eof
                         else frame demo_header [7] @ take 6 (frame demo_header [3, 4, 5])))\<rparr>"

definition demo_segments :: "u64 \<Rightarrow> bytes list" where
  "demo_segments n = (if n = 0 then [[1, 2]] else [[7]])"

lemma demo_dir_holds: "dir_holds demo_header demo_dir (0, 5) [0, 1] demo_segments"
proof -
  have "torn_tail demo_header header_eof" by (simp add: torn_tail_def header_eof_def)
  then have "segment_holds demo_header 5 (frame demo_header [9] @ frame demo_header [1, 2] @ header_eof) [[1, 2]]"
    by (intro segment_holdsI [where pre = "frame demo_header [9]" and t = header_eof])
      (simp_all add: frame_def demo_header_def header_eof_def)
  moreover have "torn_tail demo_header (take 6 (frame demo_header [3, 4, 5]))"
    unfolding torn_tail_def by (rule disjI2, rule disjI2, rule exI [of _ 3]) (simp add: frame_def demo_header_def)
  then have "segment_holds demo_header 0 (frame demo_header [7] @ take 6 (frame demo_header [3, 4, 5])) [[7]]"
    by (intro segment_holdsI [where pre = "[]" and t = "take 6 (frame demo_header [3, 4, 5])"])
      (simp_all add: frame_def demo_header_def)
  ultimately show ?thesis by (simp add: dir_holds_def demo_dir_def demo_segments_def segment_start_def)
qed

theorem recovery_counts_frames_witness:
  "spool_item_count_and_bytes (Some demo_dir) = Some (2, 3)"
proof -
  have names: "List.map_filter segment_number [''recv-metadata'', ''1.q'', ''0.q''] = [1, 0]"
    by (simp add: List.map_filter_def segment_number_def rsplit_dot_def parse_u64_def digit_def)
  have st: "recv_state [0, 0, 0, 0, 0, 0, 0, 0, 0, 0, 0, 0, 0, 0, 0, 5] = Some (0, 5)"
    by (simp add: recv_state_def be_nat_def)
  show ?thesis
    using recovery_counts_frames [OF demo_header_spec, of demo_dir "[0, 0, 0, 0, 0, 0, 0, 0, 0, 0, 0, 0, 0, 0, 0, 5]"
        "(0, 5)" "[''recv-metadata'', ''1.q'', ''0.q'']" demo_segments "()" spool_config_default] demo_dir_holds names st
    by (simp add: demo_dir_def segments_from_def demo_segments_def)
qed

end
