(* ===== verification/Tiered_Sink.thy ===== *)
theory Tiered_Sink
  imports Circuit_Breaker Spool_Queue
begin

text \<open>
  \<open>src/tiered_sink/\<close>: the sink that spills to disk (\<open>tiered.rs\<close>), its background drainer
  (\<open>drainer.rs\<close>), the codec selection (\<open>codec.rs\<close>), the error types and the configuration.
  The user's \<open>Sink\<close>, \<open>yaque\<close> and the compression crates are arguments. In \<open>StrictFifo\<close> the
  gate mutex makes every \<open>send\<close> and every drain cycle one step, which is how \<open>ts_run\<close>
  composes them; the atomics of the spool reservation, which run unlocked in \<open>Interleaved\<close>,
  are the steps of \<open>resv_step\<close>. Every call of the sink is recorded in a log.
\<close>

subsection \<open>Codec\<close>

datatype compression_codec = NoCompression | Lz4 | Snappy | Zstd int

record codecs =
  lz4_compress :: "bytes \<Rightarrow> bytes"
  lz4_decompress :: "bytes \<Rightarrow> (bytes, string) result"
  snap_compress :: "bytes \<Rightarrow> (bytes, string) result"
  snap_decompress :: "bytes \<Rightarrow> (bytes, string) result"
  zstd_lib :: zstd

definition codec_default :: compression_codec where
  "codec_default = Zstd 1"

definition zstd_level :: "int \<Rightarrow> compression_codec" where
  "zstd_level lvl = Zstd (max 1 (min lvl 22))"

fun compress :: "codecs \<Rightarrow> compression_codec \<Rightarrow> bytes \<Rightarrow> (bytes, string) result" where
  "compress l NoCompression data = Ok data"
| "compress l Lz4 data = Ok (lz4_compress l data)"
| "compress l Snappy data = snap_compress l data"
| "compress l (Zstd lvl) data = z_encode (zstd_lib l) lvl data"

fun decompress :: "codecs \<Rightarrow> compression_codec \<Rightarrow> bytes \<Rightarrow> (bytes, string) result" where
  "decompress l NoCompression data = Ok data"
| "decompress l Lz4 data = lz4_decompress l data"
| "decompress l Snappy data = snap_decompress l data"
| "decompress l (Zstd lvl) data = z_decode (zstd_lib l) data"

definition codecs_spec :: "codecs \<Rightarrow> bool" where
  "codecs_spec l \<longleftrightarrow> (\<forall>d. lz4_decompress l (lz4_compress l d) = Ok d)
     \<and> (\<forall>d b. snap_compress l d = Ok b \<longrightarrow> snap_decompress l b = Ok d) \<and> zstd_spec (zstd_lib l)"

lemma decompress_compress: "codecs_spec l \<Longrightarrow> compress l c d = Ok b \<Longrightarrow> decompress l c b = Ok d"
  by (cases c) (auto simp: codecs_spec_def zstd_spec_def)

subsection \<open>Configuration\<close>

datatype ordering_mode = Interleaved | StrictFifo

datatype drain_strategy = Adaptive u64 u64 | RateLimited u64 | Greedy

record disk_aware_config =
  max_usage_percent :: f64
  poll_interval_secs :: u64

record tiered_sink_config =
  spool_path :: string
  send_timeout_ms :: u64
  compression :: compression_codec
  drain_strategy :: drain_strategy
  ts_ordering :: ordering_mode
  max_spool_bytes :: "u64 option"
  max_spool_items :: "u64 option"
  circuit_failure_threshold :: u32
  circuit_reset_timeout_ms :: u64
  drain_interval_ms :: u64
  disk_aware :: "disk_aware_config option"

definition ts_config_new :: "string \<Rightarrow> tiered_sink_config" where
  "ts_config_new path = \<lparr>spool_path = path, send_timeout_ms = 1000, compression = codec_default,
     drain_strategy = Adaptive 100 10000, ts_ordering = Interleaved, max_spool_bytes = None,
     max_spool_items = None, circuit_failure_threshold = 5, circuit_reset_timeout_ms = 30000,
     drain_interval_ms = 100, disk_aware = None\<rparr>"

subsection \<open>The sink and its state\<close>

datatype 'e sink_error = SinkFull | SinkUnavailable | SinkFatal 'e

definition is_retryable :: "'e sink_error \<Rightarrow> bool" where
  "is_retryable e = (case e of SinkFatal _ \<Rightarrow> False | _ \<Rightarrow> True)"

datatype ts_error = TsSpoolOpen string string | TsSpool string | SpoolFull | TsCodec string | TsSink string
  | DiskUnavailable | TsCancelled

text \<open>
  \<open>try_send\<close> under the drainer runs to its end; under \<open>send\<close> it runs inside
  \<open>tokio::time::timeout\<close> and \<open>None\<close> is an elapsed timeout.
\<close>

record ('w, 'e) sink =
  try_send :: "'w \<Rightarrow> bytes \<Rightarrow> 'w \<times> (unit, 'e sink_error) result"
  try_send_within :: "u64 \<Rightarrow> 'w \<Rightarrow> bytes \<Rightarrow> 'w \<times> (unit, 'e sink_error) result option"
  show_error :: "'e \<Rightarrow> string"

text \<open>
  The log of what happened to messages: the sink accepted one (the flag says whether that
  settled it, which on the drain path takes the queue commit), the drainer discarded one on
  a fatal error or because it does not decompress, a send put one on the spool.
\<close>

datatype ts_log = Delivered bytes bool | Dropped bytes | Undecodable bytes | Spooled bytes

record ('w, 'q) tiered =
  ts_world :: 'w
  ts_queue :: 'q
  spool_count :: u64
  spool_bytes :: u64
  circuit :: circuit_breaker
  ts_config :: tiered_sink_config
  disk_available :: bool
  hot_path_count :: u64
  cold_path_count :: u64
  ts_logs :: "ts_log list"

definition ts_note :: "ts_log \<Rightarrow> ('w, 'q) tiered \<Rightarrow> ('w, 'q) tiered" where
  "ts_note e t = t\<lparr>ts_logs := ts_logs t @ [e]\<rparr>"

text \<open>\<open>None\<close>: the scan of the segment files panicked, which \<open>spawn_blocking\<close> turns into
  zero counters.\<close>

definition ts_new :: "'w \<Rightarrow> ('q, string) result \<Rightarrow> spool_dir option \<Rightarrow> tiered_sink_config \<Rightarrow>
    (('w, 'q) tiered, ts_error) result" where
  "ts_new w channel dir c =
     (case channel of Inl e \<Rightarrow> Err (TsSpoolOpen (spool_path c) e)
      | Inr q \<Rightarrow>
          (let (n, b) = (case spool_item_count_and_bytes dir of Some nb \<Rightarrow> nb | None \<Rightarrow> (0, 0))
           in Ok \<lparr>ts_world = w, ts_queue = q, spool_count = n, spool_bytes = b,
                circuit = cb_new (circuit_failure_threshold c) (millis (circuit_reset_timeout_ms c)),
                ts_config = c, disk_available = True, hot_path_count = 0, cold_path_count = 0, ts_logs = []\<rparr>))"

subsection \<open>Sending\<close>

definition should_use_hot_path :: "u64 \<Rightarrow> ('w, 'q) tiered \<Rightarrow> ('w, 'q) tiered \<times> bool" where
  "should_use_hot_path now t =
     (let (cb, st) = state now (circuit t) in
      (t\<lparr>circuit := cb\<rparr>,
       case st of Open \<Rightarrow> False
       | _ \<Rightarrow> (case ts_ordering (ts_config t) of Interleaved \<Rightarrow> True | StrictFifo \<Rightarrow> spool_count t = 0)))"

definition try_hot_path :: "('w, 'e) sink \<Rightarrow> u64 \<Rightarrow> bytes \<Rightarrow> ('w, 'q) tiered \<Rightarrow>
    ('w, 'q) tiered \<times> (unit, ts_error) result" where
  "try_hot_path sk now data t =
     (case try_send_within sk (send_timeout_ms (ts_config t)) (ts_world t) data of
        (w, Some (Inr _)) \<Rightarrow>
          (ts_note (Delivered data True) (t\<lparr>ts_world := w, circuit := record_success (circuit t)\<rparr>), Ok ())
      | (w, Some (Inl SinkFull)) \<Rightarrow> (t\<lparr>ts_world := w\<rparr>, Err (TsSpool ''sink full''))
      | (w, Some (Inl SinkUnavailable)) \<Rightarrow>
          (t\<lparr>ts_world := w, circuit := record_failure now (circuit t)\<rparr>, Err (TsSpool ''sink unavailable''))
      | (w, Some (Inl (SinkFatal e))) \<Rightarrow> (t\<lparr>ts_world := w\<rparr>, Err (TsSink (show_error sk e)))
      | (w, None) \<Rightarrow>
          (t\<lparr>ts_world := w, circuit := record_failure now (circuit t)\<rparr>, Err (TsSpool ''send timeout'')))"

text \<open>The two reservations, each one \<open>fetch_update\<close> or \<open>fetch_add\<close>.\<close>

definition reserve_item :: "u64 option \<Rightarrow> u64 \<Rightarrow> u64 option" where
  "reserve_item cap cur = (case cap of None \<Rightarrow> Some (cur + 1)
     | Some m \<Rightarrow> if cur < m then Some (cur + 1) else None)"

definition reserve_bytes :: "u64 option \<Rightarrow> u64 \<Rightarrow> u64 \<Rightarrow> u64 option" where
  "reserve_bytes cap n cur = (case cap of None \<Rightarrow> Some (cur + n)
     | Some m \<Rightarrow> (case checked_add cur n of None \<Rightarrow> None
         | Some new \<Rightarrow> if new \<le> m then Some new else None))"

definition byte_len :: "bytes \<Rightarrow> u64" where
  "byte_len b = of_nat (length b)"

definition spool_message :: "'q yaque \<Rightarrow> codecs \<Rightarrow> bytes \<Rightarrow> ('w, 'q) tiered \<Rightarrow>
    ('w, 'q) tiered \<times> (unit, ts_error) result" where
  "spool_message y l data t =
     (if \<not> disk_available t then (t, Err DiskUnavailable)
      else case compress l (compression (ts_config t)) data of
        Inl e \<Rightarrow> (t, Err (TsCodec e))
      | Inr compressed \<Rightarrow>
        (case reserve_item (max_spool_items (ts_config t)) (spool_count t) of
           None \<Rightarrow> (t, Err SpoolFull)
         | Some n \<Rightarrow>
           (case reserve_bytes (max_spool_bytes (ts_config t)) (byte_len compressed) (spool_bytes t) of
              None \<Rightarrow> (t\<lparr>spool_count := n - 1\<rparr>, Err SpoolFull)
            | Some b \<Rightarrow>
              (case y_send y (ts_queue t) compressed of
                 (q, Inl e) \<Rightarrow>
                   (t\<lparr>ts_queue := q, spool_count := n - 1, spool_bytes := b - byte_len compressed\<rparr>, Err (TsSpool e))
               | (q, Inr _) \<Rightarrow>
                   (ts_note (Spooled data) (t\<lparr>ts_queue := q, spool_count := n, spool_bytes := b\<rparr>), Ok ())))))"

definition cold_path :: "'q yaque \<Rightarrow> codecs \<Rightarrow> bytes \<Rightarrow> ('w, 'q) tiered \<Rightarrow>
    ('w, 'q) tiered \<times> (unit, ts_error) result" where
  "cold_path y l data t = (case spool_message y l data t of
     (t', Inl e) \<Rightarrow> (t', Err e)
   | (t', Inr _) \<Rightarrow> (t'\<lparr>cold_path_count := cold_path_count t' + 1\<rparr>, Ok ()))"

definition ts_send :: "('w, 'e) sink \<Rightarrow> 'q yaque \<Rightarrow> codecs \<Rightarrow> u64 \<Rightarrow> u64 \<Rightarrow> bytes \<Rightarrow> ('w, 'q) tiered \<Rightarrow>
    ('w, 'q) tiered \<times> (unit, ts_error) result" where
  "ts_send sk y l now later data t =
     (let (t1, hot) = should_use_hot_path now t in
      if hot then
        (case try_hot_path sk later data t1 of
           (t2, Inr _) \<Rightarrow> (t2\<lparr>hot_path_count := hot_path_count t2 + 1\<rparr>, Ok ())
         | (t2, Inl e) \<Rightarrow> (case e of
               TsSink _ \<Rightarrow> (t2, Err (TsSink ''fatal sink error''))
             | _ \<Rightarrow> cold_path y l data t2))
      else cold_path y l data t1)"

subsection \<open>Draining\<close>

record drainer =
  dr_strategy :: drain_strategy
  current_rate :: f64
  success_count :: u64
  failure_count :: u64
  last_adjustment :: nat

text \<open>\<open>f64::MAX\<close>.\<close>

definition F64_MAX :: f64 where
  "F64_MAX = Fin ((2 - 1 / 2 ^ 52) * 2 ^ 1023)"

definition drainer_new :: "nat \<Rightarrow> drain_strategy \<Rightarrow> drainer" where
  "drainer_new instant strategy =
     \<lparr>dr_strategy = strategy,
      current_rate = (case strategy of Adaptive initial_rate _ \<Rightarrow> f64_of_u64 initial_rate
        | RateLimited msgs \<Rightarrow> f64_of_u64 msgs | Greedy \<Rightarrow> F64_MAX),
      success_count = 0, failure_count = 0, last_adjustment = instant\<rparr>"

definition adjusted_rate :: "u64 \<Rightarrow> u64 \<Rightarrow> f64 \<Rightarrow> f64 \<Rightarrow> f64" where
  "adjusted_rate initial_rate max_rate success_ratio rate =
     (if f64_lt (f64_round (95 / 100)) success_ratio
      then f64_min (f64_mul rate (Fin (3 / 2))) (f64_of_u64 max_rate)
      else if f64_lt (f64_round (8 / 10)) success_ratio
      then f64_min (f64_mul rate (f64_round (11 / 10))) (f64_of_u64 max_rate)
      else if f64_lt (Fin (1 / 2)) success_ratio then rate
      else f64_max (f64_mul rate (Fin (1 / 2))) (f64_div (f64_of_u64 initial_rate) (Fin 10)))"

definition maybe_adjust_rate :: "nat \<Rightarrow> drainer \<Rightarrow> drainer" where
  "maybe_adjust_rate instant dr =
     (case dr_strategy dr of
        Adaptive initial_rate max_rate \<Rightarrow>
          (let total_ops = success_count dr + failure_count dr;
               elapsed = instant - last_adjustment dr in
           if total_ops < 100 \<and> elapsed < 1000000000 then dr
           else (let ratio = (if 0 < total_ops
                       then f64_div (f64_of_u64 (success_count dr)) (f64_of_u64 total_ops) else Fin 1)
                 in dr\<lparr>current_rate := adjusted_rate initial_rate max_rate ratio (current_rate dr),
                       success_count := 0, failure_count := 0, last_adjustment := instant\<rparr>))
      | _ \<Rightarrow> dr)"

definition dr_success :: "nat \<Rightarrow> drainer \<Rightarrow> drainer" where
  "dr_success instant dr = maybe_adjust_rate instant (dr\<lparr>success_count := success_count dr + 1\<rparr>)"

definition dr_failure :: "nat \<Rightarrow> drainer \<Rightarrow> drainer" where
  "dr_failure instant dr = maybe_adjust_rate instant (dr\<lparr>failure_count := failure_count dr + 1\<rparr>)"

text \<open>The delay between drains in seconds, before \<open>Duration::from_secs_f64\<close>; 0 is
  \<open>Duration::ZERO\<close>.\<close>

definition drain_delay :: "drainer \<Rightarrow> f64" where
  "drain_delay dr = (if f64_le F64_MAX (current_rate dr) \<or> f64_le (current_rate dr) (Fin 0) then Fin 0
     else f64_div (Fin 1) (current_rate dr))"

datatype drain_result = DSuccess | DSinkFull | DSinkUnavailable | DFatal string | DDecompressError string
  | DEmpty | DIoError | DCommitFailed string

text \<open>Commit, then decrement both counters; only the commit can fail.\<close>

definition settle :: "'q yaque \<Rightarrow> bytes \<Rightarrow> (bool \<Rightarrow> ts_log list) \<Rightarrow> drain_result \<Rightarrow> ('w, 'q) tiered \<Rightarrow>
    ('w, 'q) tiered \<times> drain_result" where
  "settle y compressed entries res t =
     (case y_commit y (ts_queue t) of
        (q, Inr _) \<Rightarrow> (t\<lparr>ts_queue := q, spool_count := spool_count t - 1,
            spool_bytes := spool_bytes t - byte_len compressed, ts_logs := ts_logs t @ entries True\<rparr>, res)
      | (q, Inl e) \<Rightarrow> (t\<lparr>ts_queue := q, ts_logs := ts_logs t @ entries False\<rparr>, DCommitFailed e))"

definition drain_one :: "('w, 'e) sink \<Rightarrow> 'q yaque \<Rightarrow> codecs \<Rightarrow> ('w, 'q) tiered \<Rightarrow> ('w, 'q) tiered \<times> drain_result" where
  "drain_one sk y l t =
     (case y_try_recv y (ts_queue t) of
        (q, Inl QueueEmpty) \<Rightarrow> (t\<lparr>ts_queue := q\<rparr>, DEmpty)
      | (q, Inl (RecvIo e)) \<Rightarrow> (t\<lparr>ts_queue := q\<rparr>, DIoError)
      | (q, Inr compressed) \<Rightarrow>
          (case decompress l (compression (ts_config t)) compressed of
             Inl e \<Rightarrow> settle y compressed (\<lambda>ok. if ok then [Undecodable compressed] else []) (DDecompressError e)
                        (t\<lparr>ts_queue := q\<rparr>)
           | Inr data \<Rightarrow>
               (case try_send sk (ts_world t) data of
                  (w, Inr _) \<Rightarrow> settle y compressed (\<lambda>ok. [Delivered data ok]) DSuccess (t\<lparr>ts_queue := q, ts_world := w\<rparr>)
                | (w, Inl SinkFull) \<Rightarrow> (t\<lparr>ts_queue := y_rollback y q, ts_world := w\<rparr>, DSinkFull)
                | (w, Inl SinkUnavailable) \<Rightarrow> (t\<lparr>ts_queue := y_rollback y q, ts_world := w\<rparr>, DSinkUnavailable)
                | (w, Inl (SinkFatal e)) \<Rightarrow> settle y compressed (\<lambda>ok. if ok then [Dropped data] else [])
                    (DFatal (show_error sk e)) (t\<lparr>ts_queue := q, ts_world := w\<rparr>))))"

definition handle_result :: "u64 \<Rightarrow> nat \<Rightarrow> drain_result \<Rightarrow> circuit_breaker \<times> drainer \<Rightarrow> circuit_breaker \<times> drainer" where
  "handle_result now instant res = (\<lambda>(cb, dr). case res of
     DSuccess \<Rightarrow> (record_success cb, dr_success instant dr)
   | DSinkFull \<Rightarrow> (cb, dr_failure instant dr)
   | DSinkUnavailable \<Rightarrow> (record_failure now cb, dr_failure instant dr)
   | DCommitFailed _ \<Rightarrow> (cb, dr_failure instant dr)
   | _ \<Rightarrow> (cb, dr))"

text \<open>One iteration of \<open>drain_loop\<close> after its sleep.\<close>

definition drain_cycle :: "('w, 'e) sink \<Rightarrow> 'q yaque \<Rightarrow> codecs \<Rightarrow> u64 \<Rightarrow> u64 \<Rightarrow> nat \<Rightarrow>
    ('w, 'q) tiered \<times> drainer \<Rightarrow> ('w, 'q) tiered \<times> drainer" where
  "drain_cycle sk y l now later instant = (\<lambda>(t, dr).
     let (cb, is_op) = is_open now (circuit t); t1 = t\<lparr>circuit := cb\<rparr> in
     if is_op then (t1, dr)
     else (let (t2, res) = drain_one sk y l t1;
               (cb', dr') = handle_result later instant res (circuit t2, dr)
           in (t2\<lparr>circuit := cb'\<rparr>, dr')))"

subsection \<open>Disk capacity\<close>

definition disk_ok :: "f64 \<Rightarrow> (u64 \<times> u64) option \<Rightarrow> bool" where
  "disk_ok max_usage space = (case space of None \<Rightarrow> True
     | Some (total_space, avail) \<Rightarrow> total_space = 0
         \<or> f64_lt (f64_sub (Fin 1) (f64_div (f64_of_u64 avail) (f64_of_u64 total_space))) max_usage)"

definition disk_poll :: "f64 \<Rightarrow> (u64 \<times> u64) option \<Rightarrow> ('w, 'q) tiered \<Rightarrow> ('w, 'q) tiered" where
  "disk_poll max_usage space t = t\<lparr>disk_available := disk_ok max_usage space\<rparr>"

definition reset_circuit :: "('w, 'q) tiered \<Rightarrow> ('w, 'q) tiered" where
  "reset_circuit t = t\<lparr>circuit := reset (circuit t)\<rparr>"

subsection \<open>Runs\<close>

datatype ts_op = TSend u64 u64 bytes | TDrain u64 u64 nat | TDisk f64 "(u64 \<times> u64) option" | TReset

text \<open>A run carries the sink, the drainer and the messages for which \<open>send\<close> returned \<open>Ok\<close>.\<close>

fun ts_step :: "('w, 'e) sink \<Rightarrow> 'q yaque \<Rightarrow> codecs \<Rightarrow> ts_op \<Rightarrow>
    ('w, 'q) tiered \<times> drainer \<times> bytes list \<Rightarrow> ('w, 'q) tiered \<times> drainer \<times> bytes list" where
  "ts_step sk y l (TSend now later data) (t, dr, acc) =
     (case ts_send sk y l now later data t of (t', r) \<Rightarrow> (t', dr, if is_ok r then acc @ [data] else acc))"
| "ts_step sk y l (TDrain now later instant) (t, dr, acc) =
     (case drain_cycle sk y l now later instant (t, dr) of (t', dr') \<Rightarrow> (t', dr', acc))"
| "ts_step sk y l (TDisk u space) (t, dr, acc) = (disk_poll u space t, dr, acc)"
| "ts_step sk y l TReset (t, dr, acc) = (reset_circuit t, dr, acc)"

definition ts_run :: "('w, 'e) sink \<Rightarrow> 'q yaque \<Rightarrow> codecs \<Rightarrow> ts_op list \<Rightarrow>
    ('w, 'q) tiered \<times> drainer \<times> bytes list \<Rightarrow> ('w, 'q) tiered \<times> drainer \<times> bytes list" where
  "ts_run sk y l ops = fold (ts_step sk y l) ops"

subsection \<open>The queue of messages it implements\<close>

text \<open>
  The abstract tier: a list of pending messages. A message is delivered at once (in
  \<open>StrictFifo\<close> only when none is pending) or appended; the oldest pending message is
  delivered and removed, dropped, or delivered and kept when its removal failed.
\<close>

inductive tier_step :: "ordering_mode \<Rightarrow> bytes list \<Rightarrow> ts_log list \<Rightarrow> bytes list \<Rightarrow> bytes list \<Rightarrow> bool" for m where
  idle: "tier_step m xs [] [] xs"
| hot: "(m = StrictFifo \<Longrightarrow> xs = []) \<Longrightarrow> tier_step m xs [Delivered d True] [d] xs"
| spool: "tier_step m xs [Spooled d] [d] (xs @ [d])"
| drained: "tier_step m (d # xs) [Delivered d True] [] xs"
| dropped: "tier_step m (d # xs) [Dropped d] [] xs"
| redeliver: "tier_step m (d # xs) [Delivered d False] [] (d # xs)"

definition tracks :: "codecs \<Rightarrow> ('q \<Rightarrow> bytes list) \<Rightarrow> ('w, 'q) tiered \<Rightarrow> bytes list \<Rightarrow> bool" where
  "tracks l items t xs \<longleftrightarrow>
     list_all2 (\<lambda>raw d. decompress l (compression (ts_config t)) raw = Ok d) (items (ts_queue t)) xs
     \<and> unat (spool_count t) = length xs"

definition ts_sim :: "codecs \<Rightarrow> ('q \<Rightarrow> bytes list) \<Rightarrow> ('w, 'q) tiered \<Rightarrow> bytes list \<Rightarrow> ('w, 'q) tiered \<Rightarrow> bytes list \<Rightarrow> bool" where
  "ts_sim l items t xs t' new \<longleftrightarrow> ts_config t' = ts_config t \<and>
     (\<exists>es xs'. ts_logs t' = ts_logs t @ es \<and> tier_step (ts_ordering (ts_config t)) xs es new xs' \<and> tracks l items t' xs')"

lemma ts_simI:
  "ts_config t' = ts_config t \<Longrightarrow> ts_logs t' = ts_logs t @ es \<Longrightarrow>
   tier_step (ts_ordering (ts_config t)) xs es new xs' \<Longrightarrow> tracks l items t' xs' \<Longrightarrow> ts_sim l items t xs t' new"
  unfolding ts_sim_def by blast

lemma ts_sim_same:
  "tracks l items t xs \<Longrightarrow> ts_config t' = ts_config t \<Longrightarrow> ts_logs t' = ts_logs t \<Longrightarrow>
   items (ts_queue t') = items (ts_queue t) \<Longrightarrow> spool_count t' = spool_count t \<Longrightarrow> ts_sim l items t xs t' []"
  by (rule ts_simI [where es = "[]" and xs' = xs]) (auto simp: tracks_def intro: idle)

lemma reserve_item_Some:
  "reserve_item cap cur = Some n \<Longrightarrow> n = cur + 1"
  by (auto simp: reserve_item_def split: option.splits if_splits)

text \<open>\<open>spool_message\<close> appends exactly when it returns \<open>Ok\<close>; every failure rolls back.\<close>

lemma spool_message_sim:
  assumes y: "yaque_spec y items" and l: "codecs_spec l" and tr: "tracks l items t xs" and len: "length xs + 1 < 2 ^ 64"
    and p: "spool_message y l data t = (t', r)"
  shows "ts_sim l items t xs t' (if is_ok r then [data] else [])"
proof (cases r)
  case (Inl e)
  have "ts_config t' = ts_config t \<and> ts_logs t' = ts_logs t \<and> items (ts_queue t') = items (ts_queue t) \<and> spool_count t' = spool_count t"
    using p Inl y_send_items [OF y]
    by (fastforce simp: spool_message_def ts_note_def dest!: reserve_item_Some split: if_splits sum.splits option.splits prod.splits)
  then show ?thesis using ts_sim_same [OF tr] Inl by simp
next
  case (Inr u)
  then obtain b q n nb v where c: "compress l (compression (ts_config t)) data = Ok b"
      and n: "reserve_item (max_spool_items (ts_config t)) (spool_count t) = Some n"
      and q: "y_send y (ts_queue t) b = (q, Inr v)"
      and t': "t' = ts_note (Spooled data) (t\<lparr>ts_queue := q, spool_count := n, spool_bytes := nb\<rparr>)"
    using p by (auto simp: spool_message_def split: if_splits sum.splits option.splits prod.splits)
  have "unat n = Suc (unat (spool_count t))"
    using reserve_item_Some [OF n] tr len by (simp add: tracks_def unat_word_ariths)
  moreover have "items q = items (ts_queue t) @ [b]" using y_send_items [OF y q] by simp
  ultimately have "tracks l items t' (xs @ [data])"
    using tr decompress_compress [OF l c] t' by (simp add: tracks_def ts_note_def list_all2_appendI)
  then show ?thesis using Inr t' spool
    by (intro ts_simI [where es = "[Spooled data]" and xs' = "xs @ [data]"]) (auto simp: ts_note_def)
qed

lemma cold_path_sim:
  assumes "yaque_spec y items" and "codecs_spec l" and "tracks l items t xs" and "length xs + 1 < 2 ^ 64"
    and "cold_path y l data t = (t', r)"
  shows "ts_sim l items t xs t' (if is_ok r then [data] else [])"
proof -
  obtain t1 r1 where s: "spool_message y l data t = (t1, r1)" by fastforce
  have "ts_sim l items t xs t1 (if is_ok r1 then [data] else [])" using spool_message_sim [OF assms(1-4) s] .
  then show ?thesis using assms(5) s
    by (cases r1) (auto simp: cold_path_def ts_sim_def tracks_def)
qed

lemma ts_sim_before:
  "ts_config t1 = ts_config t \<Longrightarrow> ts_logs t1 = ts_logs t \<Longrightarrow> ts_sim l items t1 xs t' new \<Longrightarrow> ts_sim l items t xs t' new"
  by (simp add: ts_sim_def)

lemma tracks_cong:
  "ts_config t1 = ts_config t \<Longrightarrow> items (ts_queue t1) = items (ts_queue t) \<Longrightarrow> spool_count t1 = spool_count t \<Longrightarrow>
   tracks l items t1 xs = tracks l items t xs"
  by (simp add: tracks_def)

lemma hot_path_sim:
  assumes tr: "tracks l items t xs" and fifo: "ts_ordering (ts_config t) = StrictFifo \<Longrightarrow> xs = []"
    and p: "try_hot_path sk now data t = (t', Inr u)"
  shows "ts_sim l items t xs (t'\<lparr>hot_path_count := k\<rparr>) [data]"
proof -
  have "ts_config t' = ts_config t" "ts_logs t' = ts_logs t @ [Delivered data True]"
      "ts_queue t' = ts_queue t" "spool_count t' = spool_count t"
    using p by (auto simp: try_hot_path_def ts_note_def split: prod.splits option.splits sum.splits sink_error.splits)
  then show ?thesis using tr hot [OF fifo]
    by (intro ts_simI [where es = "[Delivered data True]" and xs' = xs]) (auto simp: tracks_def)
qed

lemma hot_path_failed:
  assumes "try_hot_path sk now data t = (t', Inl e)"
  shows "ts_config t' = ts_config t \<and> ts_logs t' = ts_logs t \<and> ts_queue t' = ts_queue t \<and> spool_count t' = spool_count t"
  using assms by (auto simp: try_hot_path_def ts_note_def split: prod.splits option.splits sum.splits sink_error.splits)

lemma hot_path_choice:
  assumes "should_use_hot_path now t = (t1, hot)"
  shows "ts_config t1 = ts_config t \<and> ts_logs t1 = ts_logs t \<and> ts_queue t1 = ts_queue t
    \<and> spool_count t1 = spool_count t
    \<and> (hot \<longrightarrow> ts_ordering (ts_config t) = StrictFifo \<longrightarrow> spool_count t = 0)"
  using assms by (auto simp: should_use_hot_path_def split: prod.splits circuit_state.splits)

lemma ts_send_sim:
  assumes y: "yaque_spec y items" and l: "codecs_spec l" and tr: "tracks l items t xs" and len: "length xs + 1 < 2 ^ 64"
    and p: "ts_send sk y l now later data t = (t', r)"
  shows "ts_sim l items t xs t' (if is_ok r then [data] else [])"
proof -
  obtain t1 hot where h: "should_use_hot_path now t = (t1, hot)" by fastforce
  note h1 = hot_path_choice [OF h]
  have tr1: "tracks l items t1 xs" using tr h1 by (simp add: tracks_def)
  have cold: "ts_sim l items t xs t' (if is_ok r then [data] else [])"
    if "cold_path y l data t2 = (t', r)" "ts_config t2 = ts_config t" "ts_logs t2 = ts_logs t"
       "ts_queue t2 = ts_queue t" "spool_count t2 = spool_count t" for t2
    using ts_sim_before [OF that(2,3) cold_path_sim [OF y l _ len that(1)]] tr that by (simp add: tracks_def)
  show ?thesis
  proof (cases hot)
    case False
    then show ?thesis using p h h1 cold [of t1] by (simp add: ts_send_def)
  next
    case True
    obtain t2 r2 where tp: "try_hot_path sk later data t1 = (t2, r2)" by fastforce
    show ?thesis
    proof (cases r2)
      case (Inr u)
      have "ts_ordering (ts_config t1) = StrictFifo \<Longrightarrow> xs = []" using h1 True tr by (simp add: tracks_def)
      then show ?thesis using p h True Inr tp hot_path_sim [OF tr1 _ tp [unfolded Inr]]
        h1
        by (auto simp: ts_send_def intro: ts_sim_before [of t1])
    next
      case (Inl e)
      note f = hot_path_failed [OF tp [unfolded Inl]]
      have same: "ts_sim l items t xs t2 []" using f h1 by (intro ts_sim_same [OF tr]) auto
      show ?thesis using p h True Inl tp cold [of t2] same f h1 by (cases e) (auto simp: ts_send_def)
    qed
  qed
qed

lemma settle_sim:
  assumes y: "yaque_spec y items" and tr: "tracks l items t (d # xs)" and q: "items q = items (ts_queue t)"
    and ok: "tier_step (ts_ordering (ts_config t)) (d # xs) (entries True) [] xs"
    and fail: "tier_step (ts_ordering (ts_config t)) (d # xs) (entries False) [] (d # xs)"
    and p: "settle y b entries res (t\<lparr>ts_queue := q, ts_world := w\<rparr>) = (t', r)"
  shows "ts_sim l items t (d # xs) t' []"
proof -
  obtain q' rc where c: "y_commit y q = (q', rc)" by fastforce
  show ?thesis
  proof (cases rc)
    case (Inl e)
    then have "items q' = items (ts_queue t)" using y_commit_items [OF y c] q by simp
    then show ?thesis using p c Inl fail tr
      by (intro ts_simI [where es = "entries False" and xs' = "d # xs"]) (auto simp: settle_def tracks_def)
  next
    case (Inr u)
    then have i: "items q' = tl (items (ts_queue t))" using y_commit_items [OF y c] q by simp
    have n: "unat (spool_count t) = Suc (length xs)" using tr by (simp add: tracks_def)
    then have "1 \<le> spool_count t" by (simp add: word_le_nat_alt)
    with n have "unat (spool_count t - 1) = length xs" by (simp add: unat_sub)
    then show ?thesis using p c Inr ok tr i
      by (intro ts_simI [where es = "entries True" and xs' = xs]) (auto simp: settle_def tracks_def list_all2_Cons2)
  qed
qed

lemma drain_one_sim:
  assumes y: "yaque_spec y items" and tr: "tracks l items t xs" and p: "drain_one sk y l t = (t', r)"
  shows "ts_sim l items t xs t' []"
proof -
  obtain q rr where recv: "y_try_recv y (ts_queue t) = (q, rr)" by fastforce
  note q = y_recv_items [OF y recv]
  show ?thesis
  proof (cases rr)
    case (Inl e)
    then have "t' = t\<lparr>ts_queue := q\<rparr>" using p recv by (cases e) (auto simp: drain_one_def)
    then show ?thesis using q by (intro ts_sim_same [OF tr]) auto
  next
    case (Inr b)
    obtain rest where "items (ts_queue t) = b # rest" using y_recv_Ok [OF y] recv Inr by blast
    then obtain d ds where xs: "xs = d # ds" and d: "decompress l (compression (ts_config t)) b = Ok d"
      using tr by (auto simp: tracks_def list_all2_Cons1)
    obtain w rs where ts: "try_send sk (ts_world t) d = (w, rs)" by fastforce
    have rolled: "ts_sim l items t xs (t\<lparr>ts_queue := y_rollback y q, ts_world := w\<rparr>) []"
      using q y_rollback_items [OF y] by (intro ts_sim_same [OF tr]) auto
    have step: "ts_sim l items t xs t' []"
      if "settle y b es res (t\<lparr>ts_queue := q, ts_world := w\<rparr>) = (t', r)"
        and "tier_step (ts_ordering (ts_config t)) (d # ds) (es True) [] ds"
        and "tier_step (ts_ordering (ts_config t)) (d # ds) (es False) [] (d # ds)" for es res
      using settle_sim [OF y tr [unfolded xs] q that(2,3,1)] xs by simp
    show ?thesis
    proof (cases rs)
      case (Inr u)
      then show ?thesis using p recv \<open>rr = Inr b\<close> d ts step drained redeliver by (simp add: drain_one_def)
    next
      case (Inl e)
      then show ?thesis using p recv \<open>rr = Inr b\<close> d ts step dropped idle rolled
        by (cases e) (auto simp: drain_one_def)
    qed
  qed
qed

lemma ts_step_sim:
  assumes y: "yaque_spec y items" and l: "codecs_spec l" and tr: "tracks l items t xs" and len: "length xs + 1 < 2 ^ 64"
    and p: "ts_step sk y l op (t, dr, acc) = (t', dr', acc')"
  shows "\<exists>new. acc' = acc @ new \<and> ts_sim l items t xs t' new"
proof (cases op)
  case (TSend now later data)
  obtain t1 r where s: "ts_send sk y l now later data t = (t1, r)" by fastforce
  then show ?thesis using p TSend ts_send_sim [OF y l tr len s] by auto
next
  case (TDrain now later instant)
  obtain cb op' where cb: "is_open now (circuit t) = (cb, op')" by fastforce
  have same: "ts_sim l items t xs (t\<lparr>circuit := cb\<rparr>) []" by (intro ts_sim_same [OF tr]) auto
  obtain t2 res where d: "drain_one sk y l (t\<lparr>circuit := cb\<rparr>) = (t2, res)" by fastforce
  have "ts_sim l items (t\<lparr>circuit := cb\<rparr>) xs t2 []"
    using drain_one_sim [OF y _ d] tr by (simp add: tracks_def)
  then have "ts_sim l items t xs (t2\<lparr>circuit := c\<rparr>) []" for c
    by (auto simp: ts_sim_def tracks_def)
  then show ?thesis using p TDrain cb d same by (auto simp: drain_cycle_def Let_def split: prod.splits if_splits)
next
  case (TDisk u space)
  then show ?thesis using p ts_sim_same [OF tr, of t'] by (auto simp: disk_poll_def)
next
  case TReset
  then show ?thesis using p ts_sim_same [OF tr, of t'] by (auto simp: reset_circuit_def)
qed

inductive tier_run :: "ordering_mode \<Rightarrow> bytes list \<Rightarrow> ts_log list \<Rightarrow> bytes list \<Rightarrow> bytes list \<Rightarrow> bool" for m where
  tier_Nil: "tier_run m xs [] [] xs"
| tier_Cons: "tier_step m xs es new ys \<Longrightarrow> tier_run m ys es' new' zs \<Longrightarrow> tier_run m xs (es @ es') (new @ new') zs"

lemma tier_step_length: "tier_step m xs es new ys \<Longrightarrow> length ys \<le> Suc (length xs)"
  by (induction rule: tier_step.induct) auto

lemma ts_run_sim:
  assumes y: "yaque_spec y items" and l: "codecs_spec l"
  shows "tracks l items t xs \<Longrightarrow> length xs + length ops < 2 ^ 64 \<Longrightarrow> ts_run sk y l ops (t, dr, acc) = (t', dr', acc') \<Longrightarrow>
    \<exists>es new xs'. acc' = acc @ new \<and> ts_logs t' = ts_logs t @ es \<and> tracks l items t' xs'
      \<and> tier_run (ts_ordering (ts_config t)) xs es new xs'"
proof (induction ops arbitrary: t xs dr acc)
  case Nil
  then show ?case using tier_Nil by (auto simp: ts_run_def)
next
  case (Cons op ops)
  obtain t1 dr1 acc1 where s: "ts_step sk y l op (t, dr, acc) = (t1, dr1, acc1)" by (metis prod_cases3)
  obtain new es xs1 where 1: "acc1 = acc @ new" "ts_config t1 = ts_config t" "ts_logs t1 = ts_logs t @ es"
      "tier_step (ts_ordering (ts_config t)) xs es new xs1" "tracks l items t1 xs1"
    using ts_step_sim [OF y l Cons.prems(1) _ s] Cons.prems(2) by (auto simp: ts_sim_def)
  have "length xs1 + length ops < 2 ^ 64" using tier_step_length [OF 1(4)] Cons.prems(2) by simp
  moreover have "ts_run sk y l ops (t1, dr1, acc1) = (t', dr', acc')" using Cons.prems(3) s by (simp add: ts_run_def)
  ultimately obtain es' new' xs' where 2: "acc' = acc1 @ new'" "ts_logs t' = ts_logs t1 @ es'" "tracks l items t' xs'"
      "tier_run (ts_ordering (ts_config t1)) xs1 es' new' xs'"
    using Cons.IH [OF 1(5)] by blast
  then show ?case using 1 tier_Cons [OF 1(4)] by auto
qed

text \<open>Replaying a log against the accepted messages: every delivery must be of the oldest
  message not yet settled; the result is what is left.\<close>

fun replay :: "ts_log list \<Rightarrow> bytes list \<Rightarrow> bytes list option" where
  "replay [] xs = Some xs"
| "replay (Delivered d settled # es) xs =
     (case xs of x # rest \<Rightarrow> if x = d then replay es (if settled then rest else xs) else None | [] \<Rightarrow> None)"
| "replay (Dropped d # es) xs =
     (case xs of x # rest \<Rightarrow> if x = d then replay es rest else None | [] \<Rightarrow> None)"
| "replay (Undecodable b # es) xs = None"
| "replay (Spooled d # es) xs = replay es xs"

lemma replay_append: "replay (es @ es') xs = Option.bind (replay es xs) (replay es')"
  by (induction es xs rule: replay.induct) (auto split: list.splits)

lemma replay_more: "replay es xs = Some ys \<Longrightarrow> replay es (xs @ zs) = Some (ys @ zs)"
  by (induction es xs rule: replay.induct) (auto split: list.splits if_splits)

lemma strict_step_replay:
  "tier_step StrictFifo xs es new ys \<Longrightarrow> replay es (xs @ new) = Some ys"
  by (induction rule: tier_step.induct) auto

lemma strict_run_replay:
  "tier_run StrictFifo xs es new ys \<Longrightarrow> replay es (xs @ new) = Some ys"
proof (induction rule: tier_run.induct)
  case (tier_Cons xs es new ys es' new' zs)
  then show ?case
    using replay_more [OF strict_step_replay [OF tier_Cons.hyps(1)], of new'] by (simp add: replay_append)
qed simp

text \<open>C4. \<open>StrictFifo\<close>: for every sink, every sequence of sends, drain cycles, disk polls and
  circuit resets, and every failure of the queue, the log of deliveries replays against the
  messages accepted, in acceptance order: the sink never gets a message before an older one
  is delivered or dropped for a fatal error, repeats one only while its removal from the
  spool has not been committed, and what has not been settled is exactly what the spool
  holds, which is also what its counter says.
\<close>

theorem strict_fifo_order:
  assumes "yaque_spec y items" and "codecs_spec l" and "ts_ordering (ts_config t) = StrictFifo"
    and "tracks l items t xs" and "length xs + length ops < 2 ^ 64" and "ts_logs t = []"
    and "ts_run sk y l ops (t, dr, []) = (t', dr', accepted)"
  shows "\<exists>pending. replay (ts_logs t') (xs @ accepted) = Some pending \<and> tracks l items t' pending"
  using ts_run_sim [OF assms(1,2,4,5,7)] strict_run_replay assms(3,6) by fastforce

definition settled :: "ts_log list \<Rightarrow> bytes list" where
  "settled es = concat (map (\<lambda>e. case e of Delivered d True \<Rightarrow> [d] | Dropped d \<Rightarrow> [d] | _ \<Rightarrow> []) es)"

lemma settled_append [simp]: "settled (es @ es') = settled es @ settled es'"
  by (simp add: settled_def)

lemma tier_step_mset: "tier_step m xs es new ys \<Longrightarrow> mset xs + mset new = mset (settled es) + mset ys"
  by (induction rule: tier_step.induct) (simp_all add: settled_def)

lemma tier_run_mset: "tier_run m xs es new ys \<Longrightarrow> mset xs + mset new = mset (settled es) + mset ys"
proof (induction rule: tier_run.induct)
  case (tier_Cons xs es new ys es' new' zs)
  have "mset xs + mset (new @ new') = mset (settled es) + (mset ys + mset new')"
    using tier_step_mset [OF tier_Cons.hyps(1)] by (simp flip: add.assoc)
  then show ?case using tier_Cons.IH by (simp add: add.assoc)
qed (simp add: settled_def)

text \<open>C5. No accepted message is lost, in both ordering modes: after any run, the messages that
  were on the spool at the start together with those for which \<open>send\<close> returned \<open>Ok\<close> are
  exactly the messages delivered, those the drainer dropped because the sink called them
  fatal, and those still on the spool.
\<close>

theorem accepted_messages_accounted:
  assumes "yaque_spec y items" and "codecs_spec l" and "tracks l items t xs"
    and "length xs + length ops < 2 ^ 64" and "ts_logs t = []"
    and "ts_run sk y l ops (t, dr, []) = (t', dr', accepted)"
  shows "\<exists>pending. mset (xs @ accepted) = mset (settled (ts_logs t')) + mset pending \<and> tracks l items t' pending"
proof -
  obtain es new ys where "accepted = [] @ new" "ts_logs t' = ts_logs t @ es" "tracks l items t' ys"
      "tier_run (ts_ordering (ts_config t)) xs es new ys"
    using ts_run_sim [OF assms(1,2,3,4,6)] by blast
  then show ?thesis using tier_run_mset [of _ xs es new ys] assms(5) by auto
qed

text \<open>A sink that is down for its first calls, and a fresh tier over it.\<close>

definition demo_sink :: "(nat, string) sink" where
  "demo_sink = \<lparr>try_send = (\<lambda>w d. (w - 1, if w = 0 then Ok () else Err SinkUnavailable)),
     try_send_within = (\<lambda>ms w d. (w - 1, Some (if w = 0 then Ok () else Err SinkUnavailable))),
     show_error = (\<lambda>e. e)\<rparr>"

definition demo_codecs :: codecs where
  "demo_codecs = \<lparr>lz4_compress = rev, lz4_decompress = (\<lambda>b. Ok (rev b)), snap_compress = Ok,
     snap_decompress = Ok, zstd_lib = demo_zstd\<rparr>"

lemma demo_codecs_spec: "codecs_spec demo_codecs"
  by (simp add: codecs_spec_def demo_codecs_def demo_zstd_spec)

definition demo_tier :: "(nat, bytes list \<times> nat) tiered" where
  "demo_tier = \<lparr>ts_world = 1, ts_queue = ([], 2), spool_count = 0, spool_bytes = 0,
     circuit = cb_new 5 1000, ts_config = (ts_config_new ''q'')\<lparr>ts_ordering := StrictFifo\<rparr>,
     disk_available = True, hot_path_count = 0, cold_path_count = 0, ts_logs = []\<rparr>"

definition demo_ops :: "ts_op list" where
  "demo_ops = [TSend 0 0 [1], TSend 0 0 [2], TDrain 0 0 0, TDrain 0 0 0]"

lemma demo_tracks: "tracks demo_codecs fst demo_tier []"
  by (simp add: tracks_def demo_tier_def)

theorem strict_fifo_order_witness:
  "\<exists>t' dr' accepted pending. ts_run demo_sink demo_yaque demo_codecs demo_ops (demo_tier, drainer_new 0 Greedy, []) = (t', dr', accepted)
     \<and> replay (ts_logs t') accepted = Some pending \<and> tracks demo_codecs fst t' pending"
proof -
  obtain t' dr' accepted where r: "ts_run demo_sink demo_yaque demo_codecs demo_ops (demo_tier, drainer_new 0 Greedy, []) = (t', dr', accepted)"
    by (metis prod_cases3)
  have "ts_ordering (ts_config demo_tier) = StrictFifo" "ts_logs demo_tier = []"
    by (simp_all add: demo_tier_def)
  then show ?thesis
    using strict_fifo_order [OF demo_yaque_spec demo_codecs_spec _ demo_tracks _ _ r] r by (simp add: demo_ops_def)
qed

theorem accepted_messages_accounted_witness:
  "\<exists>t' dr' accepted pending. ts_run demo_sink demo_yaque demo_codecs demo_ops (demo_tier, drainer_new 0 Greedy, []) = (t', dr', accepted)
     \<and> mset accepted = mset (settled (ts_logs t')) + mset pending"
proof -
  obtain t' dr' accepted where r: "ts_run demo_sink demo_yaque demo_codecs demo_ops (demo_tier, drainer_new 0 Greedy, []) = (t', dr', accepted)"
    by (metis prod_cases3)
  have "ts_logs demo_tier = []" by (simp add: demo_tier_def)
  then show ?thesis
    using accepted_messages_accounted [OF demo_yaque_spec demo_codecs_spec demo_tracks _ _ r] r by (auto simp: demo_ops_def)
qed

subsection \<open>The spool drains\<close>












subsection \<open>Concurrent reservations\<close>

text \<open>
  The counters at the grain of their atomic operations. A slot is one \<open>spool_message\<close> or
  drain in progress: it has reserved an item slot, then the bytes, and then enqueues or
  rolls back item by item; a drain has committed its item and still has to lower the two
  counters. \<open>Abandoned\<close> is a \<open>send\<close> future dropped while it awaits the queue: nothing
  rolls its reservations back. Any slot may move at any time.
\<close>

datatype resv_slot = RIdle | ItemHeld bytes | UndoItem | BothHeld bytes | UndoBoth bytes | UndoBytes bytes
  | Taken bytes | TakenBytes bytes | Abandoned bytes

record resv_pool =
  r_count :: u64
  r_bytes :: u64
  r_queue :: "bytes list"
  r_slots :: "resv_slot list"

definition set_slot :: "nat \<Rightarrow> resv_slot \<Rightarrow> resv_pool \<Rightarrow> resv_pool" where
  "set_slot i s p = p\<lparr>r_slots := (r_slots p)[i := s]\<rparr>"

inductive resv_step :: "u64 option \<Rightarrow> u64 option \<Rightarrow> resv_pool \<Rightarrow> resv_pool \<Rightarrow> bool" for capn capb where
  res_item: "i < length (r_slots p) \<Longrightarrow> r_slots p ! i = RIdle \<Longrightarrow> length c < 2 ^ 64 \<Longrightarrow> reserve_item capn (r_count p) = Some n \<Longrightarrow>
    resv_step capn capb p (set_slot i (ItemHeld c) (p\<lparr>r_count := n\<rparr>))"
| res_bytes: "i < length (r_slots p) \<Longrightarrow> r_slots p ! i = ItemHeld c \<Longrightarrow> length c < 2 ^ 64 \<Longrightarrow> reserve_bytes capb (byte_len c) (r_bytes p) = Some b \<Longrightarrow>
    resv_step capn capb p (set_slot i (BothHeld c) (p\<lparr>r_bytes := b\<rparr>))"
| bytes_full: "i < length (r_slots p) \<Longrightarrow> r_slots p ! i = ItemHeld c \<Longrightarrow> reserve_bytes capb (byte_len c) (r_bytes p) = None \<Longrightarrow>
    resv_step capn capb p (set_slot i UndoItem p)"
| undo_item: "i < length (r_slots p) \<Longrightarrow> r_slots p ! i = UndoItem \<Longrightarrow>
    resv_step capn capb p (set_slot i RIdle (p\<lparr>r_count := r_count p - 1\<rparr>))"
| enqueue: "i < length (r_slots p) \<Longrightarrow> r_slots p ! i = BothHeld c \<Longrightarrow>
    resv_step capn capb p (set_slot i RIdle (p\<lparr>r_queue := r_queue p @ [c]\<rparr>))"
| enqueue_failed: "i < length (r_slots p) \<Longrightarrow> r_slots p ! i = BothHeld c \<Longrightarrow>
    resv_step capn capb p (set_slot i (UndoBoth c) p)"
| undo_both: "i < length (r_slots p) \<Longrightarrow> r_slots p ! i = UndoBoth c \<Longrightarrow>
    resv_step capn capb p (set_slot i (UndoBytes c) (p\<lparr>r_count := r_count p - 1\<rparr>))"
| undo_bytes: "i < length (r_slots p) \<Longrightarrow> r_slots p ! i = UndoBytes c \<Longrightarrow>
    resv_step capn capb p (set_slot i RIdle (p\<lparr>r_bytes := r_bytes p - byte_len c\<rparr>))"
| abandon: "i < length (r_slots p) \<Longrightarrow> r_slots p ! i = BothHeld c \<Longrightarrow>
    resv_step capn capb p (set_slot i (Abandoned c) p)"
| commit: "i < length (r_slots p) \<Longrightarrow> r_slots p ! i = RIdle \<Longrightarrow> r_queue p = c # q \<Longrightarrow>
    resv_step capn capb p (set_slot i (Taken c) (p\<lparr>r_queue := q\<rparr>))"
| dec_count: "i < length (r_slots p) \<Longrightarrow> r_slots p ! i = Taken c \<Longrightarrow>
    resv_step capn capb p (set_slot i (TakenBytes c) (p\<lparr>r_count := r_count p - 1\<rparr>))"
| dec_bytes: "i < length (r_slots p) \<Longrightarrow> r_slots p ! i = TakenBytes c \<Longrightarrow>
    resv_step capn capb p (set_slot i RIdle (p\<lparr>r_bytes := r_bytes p - byte_len c\<rparr>))"

fun slot_items :: "resv_slot \<Rightarrow> nat" where
  "slot_items RIdle = 0" | "slot_items (UndoBytes c) = 0" | "slot_items (TakenBytes c) = 0" | "slot_items _ = 1"

fun slot_bytes :: "resv_slot \<Rightarrow> nat" where
  "slot_bytes RIdle = 0" | "slot_bytes (ItemHeld c) = 0" | "slot_bytes UndoItem = 0"
| "slot_bytes (BothHeld c) = length c" | "slot_bytes (UndoBoth c) = length c" | "slot_bytes (UndoBytes c) = length c"
| "slot_bytes (Taken c) = length c" | "slot_bytes (TakenBytes c) = length c" | "slot_bytes (Abandoned c) = length c"

definition claimed_items :: "resv_pool \<Rightarrow> nat" where
  "claimed_items p = length (r_queue p) + sum_list (map slot_items (r_slots p))"

definition claimed_bytes :: "resv_pool \<Rightarrow> nat" where
  "claimed_bytes p = sum_list (map length (r_queue p)) + sum_list (map slot_bytes (r_slots p))"

text \<open>A counter that stands for \<open>n\<close> and respects its cap, or the larger value it started with.\<close>

definition counts :: "u64 option \<Rightarrow> nat \<Rightarrow> u64 \<Rightarrow> nat \<Rightarrow> bool" where
  "counts cap n0 w n \<longleftrightarrow> w = of_nat n \<and> (\<forall>m. cap = Some m \<longrightarrow> n \<le> max (unat m) n0)"

definition resv_ok :: "u64 option \<Rightarrow> u64 option \<Rightarrow> nat \<Rightarrow> nat \<Rightarrow> resv_pool \<Rightarrow> bool" where
  "resv_ok capn capb n0 b0 p \<longleftrightarrow>
     counts capn n0 (r_count p) (claimed_items p) \<and> counts capb b0 (r_bytes p) (claimed_bytes p)"

lemma claimed_set_slot:
  assumes "i < length (r_slots p)"
  shows "claimed_items (set_slot i s p) + slot_items (r_slots p ! i) = claimed_items p + slot_items s"
    and "claimed_bytes (set_slot i s p) + slot_bytes (r_slots p ! i) = claimed_bytes p + slot_bytes s"
  using sum_list_update_nat [OF assms, of slot_items s] sum_list_update_nat [OF assms, of slot_bytes s]
  by (simp_all add: claimed_items_def claimed_bytes_def set_slot_def)

lemma counts_down: "counts cap n0 w n \<Longrightarrow> n = n' + k \<Longrightarrow> counts cap n0 (w - of_nat k) n'"
  by (auto simp: counts_def le_max_iff_disj)

lemma counts_item:
  assumes "counts cap n0 w n" and "reserve_item cap w = Some w'" and "n0 < 2 ^ 64"
  shows "counts cap n0 w' (n + 1)"
proof (cases cap)
  case None
  then show ?thesis using assms by (auto simp: counts_def reserve_item_def)
next
  case (Some m)
  have "n < 2 ^ 64" using assms(1,3) Some unat_less_2p [of m] by (simp add: counts_def max_def split: if_splits)
  then have "unat w = n" using assms(1) by (simp add: counts_def unat_of_nat)
  then show ?thesis using assms Some by (auto simp: counts_def reserve_item_def word_less_nat_alt split: if_splits)
qed

lemma counts_bytes:
  assumes "counts cap n0 w n" and "reserve_bytes cap (of_nat k) w = Some w'" and "n0 < 2 ^ 64" and "k < 2 ^ 64"
  shows "counts cap n0 w' (n + k)"
proof (cases cap)
  case None
  then show ?thesis using assms by (auto simp: counts_def reserve_bytes_def)
next
  case (Some m)
  have "n < 2 ^ 64" using assms(1,3) Some unat_less_2p [of m] by (simp add: counts_def max_def split: if_splits)
  then have n: "unat w = n" using assms(1) by (simp add: counts_def unat_of_nat)
  have k: "unat (of_nat k :: u64) = k" using assms(4) by (simp add: unat_of_nat)
  have c: "checked_add w (of_nat k) = Some w'" "w' \<le> m"
    using assms(2) Some by (auto simp: reserve_bytes_def split: option.splits if_splits)
  then have u: "unat w' = n + k" using checked_add_Some [OF c(1)] n k by simp
  then have "w' = of_nat (n + k)" by (metis of_nat_unat ucast_id)
  then show ?thesis using c(2) u Some by (auto simp: counts_def word_le_nat_alt)
qed

lemma resv_step_ok:
  assumes st: "resv_step capn capb p p'" and ok: "resv_ok capn capb n0 b0 p" and n0: "n0 < 2 ^ 64" and b0: "b0 < 2 ^ 64"
  shows "resv_ok capn capb n0 b0 p'"
proof -
  have n: "counts capn n0 (r_count p) (claimed_items p)" and b: "counts capb b0 (r_bytes p) (claimed_bytes p)"
    using ok by (simp_all add: resv_ok_def)
  note cl = claimed_set_slot and defs = resv_ok_def set_slot_def
  have cnt: "r_count (set_slot i s q) = r_count q" "r_bytes (set_slot i s q) = r_bytes q" for i s q
    by (simp_all add: set_slot_def)
  have upd: "claimed_items (p\<lparr>r_count := x\<rparr>) = claimed_items p" "claimed_bytes (p\<lparr>r_count := x\<rparr>) = claimed_bytes p"
      "claimed_items (p\<lparr>r_bytes := x\<rparr>) = claimed_items p" "claimed_bytes (p\<lparr>r_bytes := x\<rparr>) = claimed_bytes p" for x
    by (simp_all add: claimed_items_def claimed_bytes_def)
  from st show ?thesis
  proof cases
    case (res_item i c k)
    then show ?thesis using cl [of i "p\<lparr>r_count := k\<rparr>" "ItemHeld c"] counts_item [OF n _ n0] b
      by (simp add: resv_ok_def cnt upd)
  next
    case (res_bytes i c k)
    then show ?thesis using cl [of i "p\<lparr>r_bytes := k\<rparr>" "BothHeld c"] counts_bytes [OF b _ b0, of "length c"] n
      by (simp add: resv_ok_def cnt upd byte_len_def)
  next
    case (bytes_full i c)
    then show ?thesis using cl [of i p UndoItem] n b by (simp add: resv_ok_def cnt upd)
  next
    case (undo_item i)
    then show ?thesis using cl [of i "p\<lparr>r_count := r_count p - 1\<rparr>" RIdle] counts_down [OF n, of _ 1] b
      by (simp add: resv_ok_def cnt upd)
  next
    case (enqueue i c)
    then show ?thesis using cl [of i "p\<lparr>r_queue := r_queue p @ [c]\<rparr>" RIdle] n b
      by (simp add: resv_ok_def cnt claimed_items_def claimed_bytes_def)
  next
    case (enqueue_failed i c)
    then show ?thesis using cl [of i p "UndoBoth c"] n b by (simp add: resv_ok_def cnt upd)
  next
    case (undo_both i c)
    then show ?thesis using cl [of i "p\<lparr>r_count := r_count p - 1\<rparr>" "UndoBytes c"] counts_down [OF n, of _ 1] b
      by (simp add: resv_ok_def cnt upd)
  next
    case (undo_bytes i c)
    then show ?thesis using cl [of i "p\<lparr>r_bytes := r_bytes p - byte_len c\<rparr>" RIdle] counts_down [OF b, of _ "length c"] n
      by (simp add: resv_ok_def cnt upd byte_len_def)
  next
    case (abandon i c)
    then show ?thesis using cl [of i p "Abandoned c"] n b by (simp add: resv_ok_def cnt upd)
  next
    case (commit i c q)
    then show ?thesis using cl [of i "p\<lparr>r_queue := q\<rparr>" "Taken c"] n b
      by (simp add: resv_ok_def cnt claimed_items_def claimed_bytes_def add_ac)
  next
    case (dec_count i c)
    then show ?thesis using cl [of i "p\<lparr>r_count := r_count p - 1\<rparr>" "TakenBytes c"] counts_down [OF n, of _ 1] b
      by (simp add: resv_ok_def cnt upd)
  next
    case (dec_bytes i c)
    then show ?thesis using cl [of i "p\<lparr>r_bytes := r_bytes p - byte_len c\<rparr>" RIdle] counts_down [OF b, of _ "length c"] n
      by (simp add: resv_ok_def cnt upd byte_len_def)
  qed
qed

definition resv_start :: "bytes list \<Rightarrow> nat \<Rightarrow> resv_pool" where
  "resv_start q k = \<lparr>r_count = of_nat (length q), r_bytes = of_nat (sum_list (map length q)), r_queue = q,
     r_slots = replicate k RIdle\<rparr>"

definition abandoned :: "resv_pool \<Rightarrow> bytes list" where
  "abandoned p = List.map_filter (\<lambda>s. case s of Abandoned c \<Rightarrow> Some c | _ \<Rightarrow> None) (r_slots p)"

lemma quiescent_claims:
  assumes "\<forall>s\<in>set (r_slots p). s = RIdle \<or> (\<exists>c. s = Abandoned c)"
  shows "claimed_items p = length (r_queue p @ abandoned p) \<and> claimed_bytes p = sum_list (map length (r_queue p @ abandoned p))"
proof -
  have "sum_list (map slot_items ss) = length (List.map_filter (\<lambda>s. case s of Abandoned c \<Rightarrow> Some c | _ \<Rightarrow> None) ss)
     \<and> sum_list (map slot_bytes ss) = sum_list (map length (List.map_filter (\<lambda>s. case s of Abandoned c \<Rightarrow> Some c | _ \<Rightarrow> None) ss))"
    if "\<forall>s\<in>set ss. s = RIdle \<or> (\<exists>c. s = Abandoned c)" for ss
    using that by (induction ss) (auto simp: map_filter_simps)
  then show ?thesis using assms by (simp add: claimed_items_def claimed_bytes_def abandoned_def)
qed

text \<open>C17. However the atomic operations of concurrent senders and the drainer interleave, the
  items and bytes on disk never exceed the configured caps (or what was on disk at the
  start), and whenever no call is in progress the two counters are exactly the number and
  the size of the queued items plus those of the reservations that cancelled sends have
  left behind: a \<open>send\<close> future dropped while it awaits the queue leaks its reservation.
\<close>

theorem spool_counters_exact:
  assumes "(resv_step capn capb)\<^sup>*\<^sup>* (resv_start q k) p"
    and "length q < 2 ^ 64" and "sum_list (map length q) < 2 ^ 64"
  shows "(\<forall>m. capn = Some m \<longrightarrow> length (r_queue p) \<le> max (unat m) (length q))
    \<and> (\<forall>m. capb = Some m \<longrightarrow> sum_list (map length (r_queue p)) \<le> max (unat m) (sum_list (map length q)))
    \<and> ((\<forall>s\<in>set (r_slots p). s = RIdle \<or> (\<exists>c. s = Abandoned c)) \<longrightarrow>
         r_count p = of_nat (length (r_queue p @ abandoned p))
         \<and> r_bytes p = of_nat (sum_list (map length (r_queue p @ abandoned p))))"
proof -
  have "resv_ok capn capb (length q) (sum_list (map length q)) (resv_start q k)"
    by (simp add: resv_ok_def counts_def resv_start_def claimed_items_def claimed_bytes_def sum_list_replicate)
  with assms(1) have ok: "resv_ok capn capb (length q) (sum_list (map length q)) p"
    by (induction rule: rtranclp_induct) (auto intro: resv_step_ok [OF _ _ assms(2,3)])
  then have "r_count p = of_nat (claimed_items p)" "r_bytes p = of_nat (claimed_bytes p)"
    by (simp_all add: resv_ok_def counts_def)
  moreover have "length (r_queue p) \<le> claimed_items p" "sum_list (map length (r_queue p)) \<le> claimed_bytes p"
    by (simp_all add: claimed_items_def claimed_bytes_def)
  ultimately show ?thesis using ok quiescent_claims [of p] by (fastforce simp: resv_ok_def counts_def)
qed

text \<open>A \<open>spool_message\<close> that is not interrupted moves through these steps.\<close>

lemma uninterrupted_spool:
  assumes "spool_message y l data t = (t', Ok ())" and "compress l (compression (ts_config t)) data = Ok c"
    and "length c < 2 ^ 64"
  shows "(resv_step (max_spool_items (ts_config t)) (max_spool_bytes (ts_config t)))\<^sup>*\<^sup>*
    \<lparr>r_count = spool_count t, r_bytes = spool_bytes t, r_queue = q, r_slots = [RIdle]\<rparr>
    \<lparr>r_count = spool_count t', r_bytes = spool_bytes t', r_queue = q @ [c], r_slots = [RIdle]\<rparr>"
proof -
  let ?R = "resv_step (max_spool_items (ts_config t)) (max_spool_bytes (ts_config t))"
  let ?p0 = "\<lparr>r_count = spool_count t, r_bytes = spool_bytes t, r_queue = q, r_slots = [RIdle]\<rparr>"
  have n: "reserve_item (max_spool_items (ts_config t)) (spool_count t) = Some (spool_count t')"
    and b: "reserve_bytes (max_spool_bytes (ts_config t)) (byte_len c) (spool_bytes t) = Some (spool_bytes t')"
    using assms(1,2) by (auto simp: spool_message_def ts_note_def split: if_splits option.splits prod.splits sum.splits)
  let ?p1 = "\<lparr>r_count = spool_count t', r_bytes = spool_bytes t, r_queue = q, r_slots = [ItemHeld c]\<rparr>"
  let ?p2 = "\<lparr>r_count = spool_count t', r_bytes = spool_bytes t', r_queue = q, r_slots = [BothHeld c]\<rparr>"
  have "?R ?p0 ?p1" using res_item [of 0 ?p0 c] n assms(3) by (simp add: set_slot_def)
  moreover have "?R ?p1 ?p2" using res_bytes [of 0 ?p1 c] b assms(3) by (simp add: set_slot_def)
  moreover have "?R ?p2 \<lparr>r_count = spool_count t', r_bytes = spool_bytes t', r_queue = q @ [c], r_slots = [RIdle]\<rparr>"
    using enqueue [of 0 ?p2 c] by (simp add: set_slot_def)
  ultimately show ?thesis by (meson converse_rtranclp_into_rtranclp r_into_rtranclp)
qed

theorem spool_counters_exact_witness:
  "(resv_step (Some 1) None)\<^sup>*\<^sup>* (resv_start [] 1) \<lparr>r_count = 1, r_bytes = 2, r_queue = [], r_slots = [Abandoned [7, 7]]\<rparr>
   \<and> (1 :: u64) = of_nat (length ([] @ abandoned \<lparr>r_count = 1, r_bytes = 2, r_queue = [], r_slots = [Abandoned [7, 7]]\<rparr>))"
proof -
  let ?R = "resv_step (Some 1) None"
  let ?p1 = "\<lparr>r_count = 1, r_bytes = 0, r_queue = [], r_slots = [ItemHeld [7, 7]]\<rparr>"
  let ?p2 = "\<lparr>r_count = 1, r_bytes = 2, r_queue = [], r_slots = [BothHeld [7, 7]]\<rparr>"
  let ?p3 = "\<lparr>r_count = 1, r_bytes = 2, r_queue = [], r_slots = [Abandoned [7, 7]]\<rparr>"
  have "?R (resv_start [] 1) ?p1"
    using res_item [of 0 "resv_start [] 1" "[7, 7]" "Some 1" 1 None] by (simp add: set_slot_def resv_start_def reserve_item_def)
  moreover have "?R ?p1 ?p2"
    using res_bytes [of 0 ?p1 "[7, 7]" None 2] by (simp add: set_slot_def reserve_bytes_def byte_len_def)
  moreover have "?R ?p2 ?p3" using abandon [of 0 ?p2 "[7, 7]"] by (simp add: set_slot_def)
  ultimately have run: "?R\<^sup>*\<^sup>* (resv_start [] 1) ?p3" by (meson converse_rtranclp_into_rtranclp r_into_rtranclp)
  show ?thesis using spool_counters_exact [OF run] run by simp
qed

subsection \<open>The adaptive drain rate\<close>

datatype drain_outcome = DrainOk nat | DrainFailed nat

fun dr_apply :: "drain_outcome \<Rightarrow> drainer \<Rightarrow> drainer" where
  "dr_apply (DrainOk instant) dr = dr_success instant dr"
| "dr_apply (DrainFailed instant) dr = dr_failure instant dr"

text \<open>The bounds as rationals: a tenth of the initial rate (or the maximum, when that is
  lower) and the larger of the two.\<close>

definition rate_lo :: "u64 \<Rightarrow> u64 \<Rightarrow> rat" where
  "rate_lo i m = min (rnd (rnd (rat_of_u64 i) / 10)) (rnd (rat_of_u64 m))"

definition rate_hi :: "u64 \<Rightarrow> u64 \<Rightarrow> rat" where
  "rate_hi i m = max (rnd (rat_of_u64 i)) (rnd (rat_of_u64 m))"

definition rate_ok :: "u64 \<Rightarrow> u64 \<Rightarrow> f64 \<Rightarrow> bool" where
  "rate_ok i m x \<longleftrightarrow> (\<exists>r. x = Fin r \<and> rnd r = r \<and> rate_lo i m \<le> r \<and> r \<le> rate_hi i m)"

lemma rnd_u64:
  "rnd (rnd (rat_of_u64 w)) = rnd (rat_of_u64 w)" "0 \<le> rnd (rat_of_u64 w)" "rnd (rat_of_u64 w) \<le> pow2 64"
  using rnd_idem [of "rat_of_u64 w"] rnd_nonneg [of "rat_of_u64 w"]
    rnd_mono [OF less_imp_le [OF rat_of_u64_less [of w]]] rnd_pow2 [of 64] by simp_all

lemma rate_bounds:
  assumes "0 < i" and "0 < m"
  shows "1 / 16 \<le> rate_lo i m" and "rate_hi i m \<le> pow2 64"
proof -
  have 1: "1 \<le> rnd (rat_of_u64 w)" if "0 < w" for w using rnd_ge_1 [OF rat_of_u64_ge_1 [OF that]] .
  have "pow2 (- 4) \<le> rnd (rat_of_u64 i) / 10" using 1 [OF assms(1)] by (simp add: pow2_def)
  then have "pow2 (- 4) \<le> rnd (rnd (rat_of_u64 i) / 10)" using rnd_mono rnd_pow2 [of "- 4"] by fastforce
  then show "1 / 16 \<le> rate_lo i m" using 1 [OF assms(2)] by (simp add: rate_lo_def pow2_def)
  show "rate_hi i m \<le> pow2 64" using rnd_u64(3) by (simp add: rate_hi_def)
qed

text \<open>Scaling a representable rate by a factor of at least 1, or at most 1.\<close>

lemma scaled:
  assumes "rnd r = r" and "0 \<le> r" and "r \<le> pow2 64" and "0 \<le> c" and "c \<le> 2"
  shows "f64_mul (Fin r) (Fin c) = Fin (rnd (r * c))" and "1 \<le> c \<Longrightarrow> r \<le> rnd (r * c)"
    and "c \<le> 1 \<Longrightarrow> rnd (r * c) \<le> r" and "rnd (rnd (r * c)) = rnd (r * c)"
proof -
  have "r * c \<le> pow2 64 * 2" using assms by (intro mult_mono) auto
  also have "\<dots> = pow2 65" by (simp add: pow2_def)
  finally show "f64_mul (Fin r) (Fin c) = Fin (rnd (r * c))"
    using f64_round_below [of "r * c" 65] assms by simp
  show "r \<le> rnd (r * c)" if "1 \<le> c"
    using rnd_mono [of r "r * c"] mult_left_mono [OF that assms(2)] assms(1) by simp
  show "rnd (r * c) \<le> r" if "c \<le> 1"
    using rnd_mono [of "r * c" r] mult_left_mono [OF that assms(2)] assms(1) by simp
  show "rnd (rnd (r * c)) = rnd (r * c)" using rnd_idem assms by simp
qed

lemma adjusted_rate_ok:
  assumes "0 < i" and "0 < m" and "rate_ok i m x"
  shows "rate_ok i m (adjusted_rate i m ratio x)"
proof -
  let ?I = "rnd (rat_of_u64 i)" and ?M = "rnd (rat_of_u64 m)"
  obtain r where x: "x = Fin r" and r: "rnd r = r" "rate_lo i m \<le> r" "r \<le> rate_hi i m"
    using assms(3) by (auto simp: rate_ok_def)
  have b: "0 \<le> r" "r \<le> pow2 64" using rate_bounds [OF assms(1,2)] r by linarith+
  have tenth: "f64_div (f64_of_u64 i) (Fin 10) = Fin (rnd (?I / 10))"
  proof -
    have "?I / 10 \<le> pow2 64" using rnd_u64(2,3) [of i] by linarith
    then show ?thesis using f64_round_below [of "?I / 10" 64] rnd_u64(2) [of i] by (simp add: f64_of_u64_Fin)
  qed
  have T: "rnd (?I / 10) \<le> ?I" "rnd (rnd (?I / 10)) = rnd (?I / 10)"
    using rnd_mono [of "?I / 10" ?I] rnd_u64(1,2) [of i] rnd_idem [of "?I / 10"] by auto
  have c: "f64_round (11 / 10) = Fin (rnd (11 / 10))" "1 \<le> rnd (11 / 10)" "rnd (11 / 10) \<le> 2"
    using f64_round_below [of "11 / 10" 1] rnd_ge_1 [of "11 / 10"] rnd_mono [of "11 / 10" 2] rnd_of_nat [of 2]
    by (simp_all add: pow2_def)
  have up: "rate_ok i m (f64_min (f64_mul x (Fin k)) (f64_of_u64 m))" if "1 \<le> k" "k \<le> 2" for k
  proof -
    have "rnd (min (rnd (r * k)) ?M) = min (rnd (r * k)) ?M"
      using scaled(4) [OF r(1) b, of k] rnd_u64(1) [of m] that by (simp add: min_def)
    moreover have "rate_lo i m \<le> min (rnd (r * k)) ?M"
      using scaled(2) [OF r(1) b, of k] that r(2) by (simp add: rate_lo_def)
    moreover have "min (rnd (r * k)) ?M \<le> rate_hi i m" by (simp add: rate_hi_def)
    ultimately show ?thesis using scaled(1) [OF r(1) b, of k] that x by (simp add: rate_ok_def f64_of_u64_Fin)
  qed
  have down: "rate_ok i m (f64_max (f64_mul x (Fin (1 / 2))) (f64_div (f64_of_u64 i) (Fin 10)))"
  proof -
    have "rnd (max (rnd (r * (1 / 2))) (rnd (?I / 10))) = max (rnd (r * (1 / 2))) (rnd (?I / 10))"
      using scaled(4) [OF r(1) b, of "1 / 2"] T by (simp add: max_def)
    moreover have "rate_lo i m \<le> max (rnd (r * (1 / 2))) (rnd (?I / 10))" by (simp add: rate_lo_def)
    moreover have "max (rnd (r * (1 / 2))) (rnd (?I / 10)) \<le> rate_hi i m"
      using scaled(3) [OF r(1) b, of "1 / 2"] r(3) T by (simp add: rate_hi_def)
    ultimately show ?thesis using scaled(1) [OF r(1) b, of "1 / 2"] x tenth by (simp add: rate_ok_def)
  qed
  show ?thesis using up [of "3 / 2"] up [OF c(2,3)] down assms(3) by (simp add: adjusted_rate_def c(1))
qed

lemma rate_start: "rate_ok i m (f64_of_u64 i)" if "0 < i" "0 < m"
proof -
  have "rnd (rnd (rat_of_u64 i) / 10) \<le> rnd (rat_of_u64 i)"
    using rnd_mono [of "rnd (rat_of_u64 i) / 10" "rnd (rat_of_u64 i)"] rnd_u64(1,2) [of i] by simp
  then show ?thesis using rnd_u64(1) [of i] by (auto simp: rate_ok_def f64_of_u64_Fin rate_lo_def rate_hi_def)
qed

lemma dr_apply_ok:
  assumes "0 < i" and "0 < m" and "dr_strategy dr = Adaptive i m" and "rate_ok i m (current_rate dr)"
  shows "dr_strategy (dr_apply e dr) = Adaptive i m \<and> rate_ok i m (current_rate (dr_apply e dr))"
  using assms(3,4) adjusted_rate_ok [OF assms(1,2,4)]
  by (cases e) (simp_all add: dr_success_def dr_failure_def maybe_adjust_rate_def Let_def)

lemma dr_fold_ok:
  assumes "0 < i" and "0 < m" and "dr_strategy dr = Adaptive i m" and "rate_ok i m (current_rate dr)"
  shows "rate_ok i m (current_rate (fold dr_apply es dr))"
  using assms(3,4) by (induction es arbitrary: dr) (simp_all add: dr_apply_ok [OF assms(1,2)])

lemma rate_ok_delay:
  assumes "0 < i" and "0 < m" and "rate_ok i m (current_rate dr)"
  shows "f64_lt (Fin 0) (drain_delay dr) \<and> f64_le (drain_delay dr) (Fin 16)"
proof -
  obtain r where r: "current_rate dr = Fin r" "1 / 16 \<le> r" "r \<le> pow2 64"
    using assms(3) rate_bounds [OF assms(1,2)] by (auto simp: rate_ok_def)
  have "pow2 64 < (2 - 1 / 2 ^ 52) * 2 ^ 1023" by (simp add: pow2_def)
  then have nmax: "\<not> f64_le F64_MAX (Fin r)" using r by (simp add: F64_MAX_def)
  have hi: "1 / r \<le> 16" using r(2) by (simp add: divide_le_eq)
  have "pow2 (- 64) = 1 / pow2 64" by (simp add: pow2_def)
  also have "\<dots> \<le> 1 / r" using r by (intro divide_left_mono) (auto simp: mult_pos_pos)
  finally have "pow2 (- 64) \<le> rnd (1 / r)" using rnd_mono rnd_pow2 [of "- 64"] by fastforce
  then have "0 < rnd (1 / r)" using pow2_pos [of "- 64"] by linarith
  moreover have "rnd (1 / r) \<le> 16" using rnd_mono [OF hi] rnd_of_nat [of 16] by simp
  moreover have "f64_round (1 / r) = Fin (rnd (1 / r))"
    using f64_round_below [of "1 / r" 4] hi r by (simp add: pow2_def)
  moreover have "\<not> r \<le> 0" using r(2) by linarith
  ultimately show ?thesis using r nmax by (auto simp: drain_delay_def)
qed

text \<open>With positive rates the adaptive drain rate stays, in binary64 arithmetic and after any
  sequence of outcomes, between a tenth of the initial rate (or the maximum rate, when that
  is lower) and the larger of initial and maximum rate, so the drainer always pauses
  between two deliveries and never for more than 16 seconds.
\<close>

theorem adaptive_rate_bounded:
  assumes "0 < i" and "0 < m"
  shows "let dr = fold dr_apply es (drainer_new instant (Adaptive i m)) in
    f64_le (f64_min (f64_div (f64_of_u64 i) (Fin 10)) (f64_of_u64 m)) (current_rate dr)
    \<and> f64_le (current_rate dr) (f64_max (f64_of_u64 i) (f64_of_u64 m))
    \<and> f64_lt (Fin 0) (drain_delay dr) \<and> f64_le (drain_delay dr) (Fin 16)"
proof -
  let ?dr = "fold dr_apply es (drainer_new instant (Adaptive i m))"
  have ok: "rate_ok i m (current_rate ?dr)"
    using rate_start [OF assms] by (intro dr_fold_ok [OF assms]) (simp_all add: drainer_new_def)
  have "rnd (rat_of_u64 i) / 10 \<le> pow2 64" using rnd_u64(2,3) [of i] by linarith
  then have "f64_div (f64_of_u64 i) (Fin 10) = Fin (rnd (rnd (rat_of_u64 i) / 10))"
    using f64_round_below [of "rnd (rat_of_u64 i) / 10" 64] rnd_u64(2) [of i] by (simp add: f64_of_u64_Fin)
  then show ?thesis using ok rate_ok_delay [OF assms ok]
    by (auto simp: Let_def rate_ok_def rate_lo_def rate_hi_def f64_of_u64_Fin)
qed

theorem adaptive_rate_bounded_witness:
  "f64_le (drain_delay (fold dr_apply [DrainOk 0, DrainFailed 2000000000] (drainer_new 0 (Adaptive 100 10000)))) (Fin 16)"
  using adaptive_rate_bounded [of 100 10000 "[DrainOk 0, DrainFailed 2000000000]" 0] by (simp add: Let_def)

end
