(* ===== verification/Batch_Engine.thy ===== *)
theory Batch_Engine
  imports Work_Batch
begin

text \<open>
  The in-process half of the batch engine: \<open>src/worker/engine/{config,pre_route,parse,intern,
  types,mod}.rs\<close>, the depth guard \<open>src/parse_guard.rs\<close> and the counters of
  \<open>src/worker/stats.rs\<close>. The JSON and MessagePack libraries are a record of functions
  (\<open>json_lib\<close>), the thread pool's parallel map is an argument: rayon's indexed collect
  keeps the input order, which the properties take as a hypothesis.
\<close>

subsection \<open>Pipeline statistics\<close>

record pipeline_stats =
  st_received :: u64
  st_processed :: u64
  st_errors :: u64
  st_dlq :: u64
  st_filtered :: u64
  st_bytes_received :: u64
  st_bytes_written :: u64
  st_batches_flushed :: u64

definition stats_new :: pipeline_stats where
  "stats_new = \<lparr>st_received = 0, st_processed = 0, st_errors = 0, st_dlq = 0, st_filtered = 0,
     st_bytes_received = 0, st_bytes_written = 0, st_batches_flushed = 0\<rparr>"

definition incr_errors :: "pipeline_stats \<Rightarrow> pipeline_stats" where
  "incr_errors s = s\<lparr>st_errors := st_errors s + 1\<rparr>"

definition incr_dlq :: "pipeline_stats \<Rightarrow> pipeline_stats" where
  "incr_dlq s = s\<lparr>st_dlq := st_dlq s + 1\<rparr>"

definition incr_filtered :: "pipeline_stats \<Rightarrow> pipeline_stats" where
  "incr_filtered s = s\<lparr>st_filtered := st_filtered s + 1\<rparr>"

definition add_received :: "u64 \<Rightarrow> pipeline_stats \<Rightarrow> pipeline_stats" where
  "add_received n s = s\<lparr>st_received := st_received s + n\<rparr>"

definition add_processed :: "u64 \<Rightarrow> pipeline_stats \<Rightarrow> pipeline_stats" where
  "add_processed n s = s\<lparr>st_processed := st_processed s + n\<rparr>"

definition add_bytes_received :: "u64 \<Rightarrow> pipeline_stats \<Rightarrow> pipeline_stats" where
  "add_bytes_received n s = s\<lparr>st_bytes_received := st_bytes_received s + n\<rparr>"

lemmas stats_defs = incr_errors_def incr_dlq_def incr_filtered_def add_received_def
  add_processed_def add_bytes_received_def

subsection \<open>Nesting-depth guard\<close>

definition MAX_PARSE_DEPTH :: nat where
  "MAX_PARSE_DEPTH = 64"

fun depth_loop :: "nat \<Rightarrow> nat \<Rightarrow> bool \<Rightarrow> bool \<Rightarrow> bytes \<Rightarrow> bool" where
  "depth_loop mx depth in_string escaped [] = True"
| "depth_loop mx depth in_string escaped (b # bs) =
     (if in_string then
        (if escaped then depth_loop mx depth True False bs
         else if b = 0x5c then depth_loop mx depth True True bs
         else if b = 0x22 then depth_loop mx depth False escaped bs
         else depth_loop mx depth True escaped bs)
      else if b = 0x22 then depth_loop mx depth True escaped bs
      else if b = 0x7b \<or> b = 0x5b then
        (if mx < depth + 1 then False else depth_loop mx (depth + 1) False escaped bs)
      else if b = 0x7d \<or> b = 0x5d then depth_loop mx (depth - 1) False escaped bs
      else depth_loop mx depth False escaped bs)"

definition json_depth_within :: "bytes \<Rightarrow> nat \<Rightarrow> bool" where
  "json_depth_within bs mx = depth_loop mx 0 False False bs"

subsection \<open>Configuration\<close>

datatype parse_error_action = Dlq | Skip | FailBatch

datatype pre_route_filter_config =
    CfgDropFieldMissing string
  | CfgDlqFieldValue string string

record batch_processing_config =
  max_chunk_size :: nat
  routing_field :: "string option"
  pre_route_filters :: "pre_route_filter_config list"
  parse_error_action :: parse_error_action
  known_fields :: "string list"

definition bpc_default :: batch_processing_config where
  "bpc_default = \<lparr>max_chunk_size = 10000, routing_field = None, pre_route_filters = [],
     parse_error_action = Dlq,
     known_fields = [''_table'', ''_timestamp'', ''_source'', ''host'', ''source_type'', ''event_type'']\<rparr>"

subsection \<open>Pre-route\<close>

record 'v json_lib =
  get_from_slice :: "bytes \<Rightarrow> string \<Rightarrow> (string option \<times> string, bool \<times> string) result"
  from_slice :: "bytes \<Rightarrow> ('v, string) result"
  msgpack_value :: "nat \<Rightarrow> bytes \<Rightarrow> ('v, string) result"
  as_object :: "'v \<Rightarrow> (string \<times> 'v) list option"

datatype pre_route_extraction = Found string | Missing | ParseError string
datatype pre_route_outcome = Continue | Filtered | ToDlq string
datatype pre_route_filter = DropFieldMissing string | DlqFieldValue string string

definition extract_routing_field :: "'v json_lib \<Rightarrow> bytes \<Rightarrow> string \<Rightarrow> pre_route_extraction" where
  "extract_routing_field lib bs field_name =
     (case get_from_slice lib bs field_name of
        Inr (as_str, raw) \<Rightarrow> Found (case as_str of Some s \<Rightarrow> s | None \<Rightarrow> raw)
      | Inl (is_not_found, e) \<Rightarrow> if is_not_found then Missing else ParseError e)"

fun apply_filters :: "pre_route_extraction \<Rightarrow> pre_route_filter list \<Rightarrow> pre_route_outcome" where
  "apply_filters ex [] = Continue"
| "apply_filters ex (f # fs) =
     (case (f, ex) of
        (DropFieldMissing _, Missing) \<Rightarrow> Filtered
      | (DlqFieldValue _ expected, Found actual) \<Rightarrow>
          (if actual = expected
           then ToDlq (''field value '' @ [CHR 0x27] @ actual @ [CHR 0x27] @ '' matches DLQ rule'')
           else apply_filters ex fs)
      | _ \<Rightarrow> apply_filters ex fs)"

fun filter_of_config :: "pre_route_filter_config \<Rightarrow> pre_route_filter" where
  "filter_of_config (CfgDropFieldMissing f) = DropFieldMissing f"
| "filter_of_config (CfgDlqFieldValue f v) = DlqFieldValue f v"

definition filters_from_config :: "pre_route_filter_config list \<Rightarrow> pre_route_filter list" where
  "filters_from_config cs = map filter_of_config cs"

subsection \<open>Parsing\<close>

datatype parse_error = EmptyPayload | JsonError string | MsgPackError string
  | UnsupportedFormat string | TooDeep

fun parse_error_display :: "parse_error \<Rightarrow> string" where
  "parse_error_display EmptyPayload = ''empty payload''"
| "parse_error_display (JsonError e) = ''json parse error: '' @ e"
| "parse_error_display (MsgPackError m) = ''msgpack decode error: '' @ m"
| "parse_error_display (UnsupportedFormat m) = ''unsupported format: '' @ m"
| "parse_error_display TooDeep = ''payload nesting exceeds the maximum parse depth of 64''"

definition resolve_format :: "payload_format \<Rightarrow> bytes \<Rightarrow> payload_format" where
  "resolve_format f bs = (case f of Auto \<Rightarrow> detect bs | _ \<Rightarrow> f)"

definition parse_payload :: "'v json_lib \<Rightarrow> bytes \<Rightarrow> payload_format \<Rightarrow> ('v, parse_error) result" where
  "parse_payload lib bs fmt =
     (if bs = [] then Err EmptyPayload
      else case resolve_format fmt bs of
        MsgPack \<Rightarrow> (case msgpack_value lib MAX_PARSE_DEPTH bs of
            Inl e \<Rightarrow> Err (MsgPackError e) | Inr v \<Rightarrow> Ok v)
      | _ \<Rightarrow> (if \<not> json_depth_within bs MAX_PARSE_DEPTH then Err TooDeep
              else case from_slice lib bs of Inl e \<Rightarrow> Err (JsonError e) | Inr v \<Rightarrow> Ok v))"

subsection \<open>Field interner\<close>

type_synonym interner = "string list"

definition intern :: "string \<Rightarrow> interner \<Rightarrow> interner \<times> string" where
  "intern name t = ((if name \<in> set t then t else name # t), name)"

definition with_known_fields :: "string list \<Rightarrow> interner" where
  "with_known_fields names = foldl (\<lambda>t f. fst (intern f t)) [] names"

fun extract_loop :: "interner \<Rightarrow> (string \<times> 'v) list \<Rightarrow> (string \<rightharpoonup> 'v) \<Rightarrow> (string \<rightharpoonup> 'v)" where
  "extract_loop t [] m = m"
| "extract_loop t ((k, v) # kvs) m = extract_loop t kvs (if k \<in> set t then m(k \<mapsto> v) else m)"

definition extract_known :: "'v json_lib \<Rightarrow> interner \<Rightarrow> 'v \<Rightarrow> (string \<rightharpoonup> 'v)" where
  "extract_known lib t v = (case as_object lib v of None \<Rightarrow> Map.empty | Some kvs \<Rightarrow> extract_loop t kvs Map.empty)"

record 'v parsed_message =
  pm_value :: 'v
  pm_raw :: bytes
  pm_format :: payload_format
  pm_key :: "string option"
  pm_headers :: "(string \<times> bytes) list"
  pm_metadata :: record_meta
  pm_extracted :: "string \<rightharpoonup> 'v"

subsection \<open>The engine\<close>

record engine =
  eng_config :: batch_processing_config
  eng_stats :: pipeline_stats
  eng_interner :: interner
  eng_filters :: "pre_route_filter list"

definition with_pool :: "batch_processing_config \<Rightarrow> engine" where
  "with_pool config = \<lparr>eng_config = config, eng_stats = stats_new,
     eng_interner = with_known_fields (known_fields config),
     eng_filters = filters_from_config (pre_route_filters config)\<rparr>"

fun chunks_fuel :: "nat \<Rightarrow> nat \<Rightarrow> 'a list \<Rightarrow> 'a list list" where
  "chunks_fuel 0 n xs = []"
| "chunks_fuel (Suc k) n xs = (if xs = [] then [] else take n xs # chunks_fuel k n (drop n xs))"

text \<open>\<open>slice::chunks\<close>: consecutive pieces of \<open>n\<close> elements, the last one shorter.\<close>

definition chunks :: "nat \<Rightarrow> 'a list \<Rightarrow> 'a list list" where
  "chunks n xs = chunks_fuel (length xs) n xs"

definition chunk_size :: "engine \<Rightarrow> wrecord list \<Rightarrow> nat" where
  "chunk_size eng msgs =
     (if max_chunk_size (eng_config eng) = 0 then length msgs else max_chunk_size (eng_config eng))"

definition pre_route :: "'v json_lib \<Rightarrow> engine \<Rightarrow> wrecord \<Rightarrow> pre_route_outcome" where
  "pre_route lib eng msg =
     (case routing_field (eng_config eng) of
        None \<Rightarrow> Continue
      | Some field_name \<Rightarrow> apply_filters (extract_routing_field lib (payload msg) field_name) (eng_filters eng))"

definition chunk_received :: "wrecord list \<Rightarrow> pipeline_stats \<Rightarrow> pipeline_stats" where
  "chunk_received chunk s = add_bytes_received (sum_list (map payload_len chunk))
     (add_received (of_nat (length chunk)) s)"

text \<open>
  One message of a chunk in \<open>process_mid_tier\<close>: filtered or skipped (\<open>None\<close>), or an entry of
  \<open>parsed_msgs\<close>; the flag says that the batch fails here.
\<close>

definition mid_message :: "'v json_lib \<Rightarrow> engine \<Rightarrow> wrecord \<Rightarrow> pipeline_stats \<Rightarrow>
    pipeline_stats \<times> ('v parsed_message, string) result option \<times> bool" where
  "mid_message lib eng msg s =
     (case pre_route lib eng msg of
        Filtered \<Rightarrow> (incr_filtered s, None, False)
      | ToDlq reason \<Rightarrow> (incr_errors (incr_dlq s), Some (Err reason), False)
      | Continue \<Rightarrow>
          (let fmt = resolve_format (format (metadata msg)) (payload msg) in
           case parse_payload lib (payload msg) fmt of
             Inr value \<Rightarrow> (s, Some (Ok \<lparr>pm_value = value, pm_raw = payload msg, pm_format = fmt,
                 pm_key = key msg, pm_headers = headers msg,
                 pm_metadata = \<lparr>timestamp_ms = timestamp_ms (metadata msg), format = fmt\<rparr>,
                 pm_extracted = extract_known lib (eng_interner eng) value\<rparr>), False)
           | Inl e \<Rightarrow>
               (case parse_error_action (eng_config eng) of
                  Dlq \<Rightarrow> (incr_dlq (incr_errors s), Some (Err (''parse error: '' @ parse_error_display e)), False)
                | Skip \<Rightarrow> (incr_errors s, None, False)
                | FailBatch \<Rightarrow> (incr_errors s,
                    Some (Err (''parse error (fail_batch): '' @ parse_error_display e)), True))))"

fun mid_loop :: "'v json_lib \<Rightarrow> engine \<Rightarrow> wrecord list \<Rightarrow> pipeline_stats \<Rightarrow>
    ('v parsed_message, string) result list \<Rightarrow>
    pipeline_stats \<times> ('v parsed_message, string) result list \<times> bool" where
  "mid_loop lib eng [] s acc = (s, acc, False)"
| "mid_loop lib eng (msg # msgs) s acc =
     (case mid_message lib eng msg s of
        (s', None, fail) \<Rightarrow> mid_loop lib eng msgs s' acc
      | (s', Some r, fail) \<Rightarrow> if fail then (s', acc @ [r], True) else mid_loop lib eng msgs s' (acc @ [r]))"

text \<open>The pool's two parallel maps (\<open>worker/pool.rs\<close>) over rayon's, which is the parameter. The permit that the closure
  holds while it runs an item limits how many run at a time and has no part in the result; that a waiting item
  gets its permit is the limiter's concern.\<close>

definition map_owned :: "(('a \<Rightarrow> 'b) \<Rightarrow> 'a list \<Rightarrow> 'b list) \<Rightarrow> 'a list \<Rightarrow> ('a \<Rightarrow> 'b) \<Rightarrow> 'b list" where
  "map_owned par_map items f = par_map (\<lambda>item. f item) items"

definition process_batch ::
  "(('a \<Rightarrow> ('r, 'e) result) \<Rightarrow> 'a list \<Rightarrow> ('r, 'e) result list) \<Rightarrow> 'a list \<Rightarrow> ('a \<Rightarrow> ('r, 'e) result) \<Rightarrow> ('r, 'e) result list" where
  "process_batch par_map items f = par_map (\<lambda>item. f item) items"

text \<open>The split into errors and work, the parallel transform, and the merge by index.\<close>

definition transform_chunk ::
  "((nat \<times> 'v parsed_message \<Rightarrow> nat \<times> ('o, 'e) result) \<Rightarrow> (nat \<times> 'v parsed_message) list
      \<Rightarrow> (nat \<times> ('o, 'e) result) list) \<Rightarrow> (string \<Rightarrow> 'e) \<Rightarrow>
   ('v parsed_message \<Rightarrow> ('o, 'e) result) \<Rightarrow> ('v parsed_message, string) result list \<Rightarrow>
   ('o, 'e) result list" where
  "transform_chunk par_map from_string transform parsed_msgs =
     (let indexed = enumerate 0 parsed_msgs;
          chunk_results = [(idx, Err (from_string reason)). (idx, Inl reason) \<leftarrow> indexed];
          to_transform = [(idx, pm). (idx, Inr pm) \<leftarrow> indexed];
          transformed = map_owned par_map to_transform (\<lambda>(idx, pm). (idx, transform pm))
      in map snd (sort_key fst (chunk_results @ transformed)))"

fun mid_chunks ::
  "((nat \<times> 'v parsed_message \<Rightarrow> nat \<times> ('o, 'e) result) \<Rightarrow> (nat \<times> 'v parsed_message) list
      \<Rightarrow> (nat \<times> ('o, 'e) result) list) \<Rightarrow> (string \<Rightarrow> 'e) \<Rightarrow> 'v json_lib \<Rightarrow>
   ('v parsed_message \<Rightarrow> ('o, 'e) result) \<Rightarrow> engine \<Rightarrow> wrecord list list \<Rightarrow> pipeline_stats \<Rightarrow>
   ('o, 'e) result list \<Rightarrow> pipeline_stats \<times> ('o, 'e) result list" where
  "mid_chunks par_map from_string lib transform eng [] s all_results = (s, all_results)"
| "mid_chunks par_map from_string lib transform eng (chunk # cs) s all_results =
     (case mid_loop lib eng chunk (chunk_received chunk s) [] of
        (s', parsed_msgs, True) \<Rightarrow> (s', all_results @
            map (\<lambda>r. case r of Inr _ \<Rightarrow> Err (from_string ''batch failed due to parse error'')
                             | Inl reason \<Rightarrow> Err (from_string reason)) parsed_msgs)
      | (s', parsed_msgs, False) \<Rightarrow>
          (let results = transform_chunk par_map from_string transform parsed_msgs;
               ok_count = length (filter is_ok results)
           in mid_chunks par_map from_string lib transform eng cs
                (add_processed (of_nat ok_count) s') (all_results @ results)))"

definition process_mid_tier where
  "process_mid_tier par_map from_string lib transform eng msgs =
     (if msgs = [] then (eng, [])
      else let (s, rs) = mid_chunks par_map from_string lib transform eng
                           (chunks (chunk_size eng msgs) msgs) (eng_stats eng) []
           in (eng\<lparr>eng_stats := s\<rparr>, rs))"

text \<open>\<open>process_raw\<close>: DLQ errors of a chunk are pushed while it is pre-routed, the transforms after.\<close>

fun raw_loop :: "'v json_lib \<Rightarrow> engine \<Rightarrow> (string \<Rightarrow> 'e) \<Rightarrow> wrecord list \<Rightarrow> pipeline_stats \<Rightarrow>
    ('o, 'e) result list \<Rightarrow> wrecord list \<Rightarrow> pipeline_stats \<times> ('o, 'e) result list \<times> wrecord list" where
  "raw_loop lib eng from_string [] s all_results passed = (s, all_results, passed)"
| "raw_loop lib eng from_string (msg # msgs) s all_results passed =
     (case pre_route lib eng msg of
        Continue \<Rightarrow> raw_loop lib eng from_string msgs s all_results (passed @ [msg])
      | Filtered \<Rightarrow> raw_loop lib eng from_string msgs (incr_filtered s) all_results passed
      | ToDlq reason \<Rightarrow> raw_loop lib eng from_string msgs (incr_errors (incr_dlq s))
          (all_results @ [Err (from_string reason)]) passed)"

fun raw_chunks ::
  "((wrecord \<Rightarrow> ('o, 'e) result) \<Rightarrow> wrecord list \<Rightarrow> ('o, 'e) result list) \<Rightarrow> (string \<Rightarrow> 'e) \<Rightarrow>
   'v json_lib \<Rightarrow> (wrecord \<Rightarrow> ('o, 'e) result) \<Rightarrow> engine \<Rightarrow> wrecord list list \<Rightarrow> pipeline_stats \<Rightarrow>
   ('o, 'e) result list \<Rightarrow> pipeline_stats \<times> ('o, 'e) result list" where
  "raw_chunks par_map from_string lib transform eng [] s all_results = (s, all_results)"
| "raw_chunks par_map from_string lib transform eng (chunk # cs) s all_results =
     (let (s', all_results', to_process) =
            raw_loop lib eng from_string chunk (chunk_received chunk s) all_results [];
          results = process_batch par_map to_process transform;
          ok_count = length (filter is_ok results)
      in raw_chunks par_map from_string lib transform eng cs
           (add_processed (of_nat ok_count) s') (all_results' @ results))"

definition process_raw where
  "process_raw par_map from_string lib transform eng msgs =
     (if msgs = [] then (eng, [])
      else let (s, rs) = raw_chunks par_map from_string lib transform eng
                           (chunks (chunk_size eng msgs) msgs) (eng_stats eng) []
           in (eng\<lparr>eng_stats := s\<rparr>, rs))"

definition rayon_ordered :: "(('a \<Rightarrow> 'b) \<Rightarrow> 'a list \<Rightarrow> 'b list) \<Rightarrow> bool" where
  "rayon_ordered par_map \<longleftrightarrow> (\<forall>f xs. par_map f xs = map f xs)"

lemma pool_maps_ordered:
  "rayon_ordered par_map \<Longrightarrow> map_owned par_map xs f = map f xs"
  "rayon_ordered par_map' \<Longrightarrow> process_batch par_map' ys g = map g ys"
  by (simp_all add: rayon_ordered_def map_owned_def process_batch_def)

text \<open>A library whose \<open>from_slice\<close> accepts payloads of fewer than three bytes, for examples.\<close>

definition toy_lib :: "nat json_lib" where
  "toy_lib = \<lparr>get_from_slice = (\<lambda>bs f. if bs = [] then Err (True, []) else Ok (None, ''x'')),
     from_slice = (\<lambda>bs. if length bs < 3 then Ok (length bs) else Err ''bad''),
     msgpack_value = (\<lambda>d bs. Err ''no''), as_object = (\<lambda>v. None)\<rparr>"

subsection \<open>The depth guard\<close>

text \<open>The deepest nesting of a payload, strings skipped, an extra closing bracket ignored.\<close>

fun peak_depth :: "nat \<Rightarrow> bool \<Rightarrow> bool \<Rightarrow> bytes \<Rightarrow> nat" where
  "peak_depth d s esc [] = d"
| "peak_depth d s esc (b # bs) =
     (if s then peak_depth d (esc \<or> b \<noteq> 0x22) (\<not> esc \<and> b = 0x5c) bs
      else max d (peak_depth (if b = 0x7b \<or> b = 0x5b then Suc d
                              else if b = 0x7d \<or> b = 0x5d then d - 1 else d) (b = 0x22) esc bs))"

lemma peak_depth_ge: "d \<le> peak_depth d s esc bs"
  by (induction d s esc bs rule: peak_depth.induct) auto

lemma depth_loop_iff: "d \<le> mx \<Longrightarrow> depth_loop mx d s esc bs \<longleftrightarrow> peak_depth d s esc bs \<le> mx"
proof (induction mx d s esc bs rule: depth_loop.induct)
  case (2 mx d s esc b bs)
  then show ?case
    using peak_depth_ge [of "Suc d" False esc bs] by (cases esc) auto
qed simp

text \<open>\<open>json_depth_within\<close> returns true exactly when the nesting of the payload, outside
  strings, never exceeds the bound; and \<open>parse_payload\<close> answers \<open>TooDeep\<close> for every deeper
  JSON payload, whatever the JSON parser would do with it.\<close>

theorem depth_guard_exact:
  "(json_depth_within bs mx \<longleftrightarrow> peak_depth 0 False False bs \<le> mx)
   \<and> (bs \<noteq> [] \<and> resolve_format fmt bs \<noteq> MsgPack \<and> 64 < peak_depth 0 False False bs \<longrightarrow>
        parse_payload lib bs fmt = Err TooDeep)"
proof (intro conjI impI)
  show within: "json_depth_within bs mx \<longleftrightarrow> peak_depth 0 False False bs \<le> mx" for mx
    by (simp add: json_depth_within_def depth_loop_iff)
  show "parse_payload lib bs fmt = Err TooDeep"
    if "bs \<noteq> [] \<and> resolve_format fmt bs \<noteq> MsgPack \<and> 64 < peak_depth 0 False False bs"
    using that within [of 64] unfolding parse_payload_def MAX_PARSE_DEPTH_def
    by (cases "resolve_format fmt bs") simp_all
qed

lemma peak_depth_brackets: "peak_depth d False False (replicate n 0x5b) = d + n"
  by (induction n arbitrary: d) simp_all

theorem depth_guard_exact_witness:
  "parse_payload toy_lib (replicate 65 0x5b) Json = Err TooDeep"
  using depth_guard_exact [of "replicate 65 0x5b" 64 Json toy_lib]
  by (simp add: peak_depth_brackets resolve_format_def)

subsection \<open>Pre-route filters\<close>

fun rename_field :: "(string \<Rightarrow> string) \<Rightarrow> pre_route_filter \<Rightarrow> pre_route_filter" where
  "rename_field h (DropFieldMissing f) = DropFieldMissing (h f)"
| "rename_field h (DlqFieldValue f v) = DlqFieldValue (h f) v"

text \<open>The field named by a pre-route filter has no effect: renaming the fields of all
  filters in any way changes no decision. Only the engine's routing field is looked at.\<close>

theorem filters_ignore_their_field:
  "apply_filters ex (map (rename_field h) fs) = apply_filters ex fs"
proof (induction fs)
  case (Cons f fs)
  then show ?case by (cases f; cases ex) simp_all
qed simp

subsection \<open>Chunked, parallel processing against a per-record reference\<close>

lemma concat_chunks_fuel: "0 < n \<Longrightarrow> length xs \<le> k \<Longrightarrow> concat (chunks_fuel k n xs) = xs"
proof (induction k arbitrary: xs)
  case (Suc k)
  then show ?case by (cases "xs = []") auto
qed simp

lemma concat_chunks: "0 < n \<Longrightarrow> concat (chunks n xs) = xs"
  by (simp add: chunks_def concat_chunks_fuel)

lemma chunk_size_pos: "msgs \<noteq> [] \<Longrightarrow> 0 < chunk_size eng msgs"
  by (simp add: chunk_size_def)

definition finish_entry :: "(string \<Rightarrow> 'e) \<Rightarrow> ('p \<Rightarrow> ('o, 'e) result) \<Rightarrow> ('p, string) result \<Rightarrow> ('o, 'e) result" where
  "finish_entry from_string transform r = (case r of Inl reason \<Rightarrow> Err (from_string reason) | Inr pm \<Rightarrow> transform pm)"

lemma split_merge_mset:
  "mset ([(idx, Err (from_string reason)). (idx, Inl reason) \<leftarrow> L] @
         map (\<lambda>(idx, pm). (idx, transform pm)) [(idx, pm). (idx, Inr pm) \<leftarrow> L])
   = mset (map (\<lambda>(idx, r). (idx, finish_entry from_string transform r)) L)"
  by (induction L) (auto simp: finish_entry_def split: sum.splits)

lemma sort_merge:
  assumes "mset xs = mset (map (\<lambda>(i, r). (i, f r)) (enumerate k ps))"
  shows "map snd (sort_key fst xs) = map f ps"
proof -
  let ?ys = "map (\<lambda>(i, r). (i, f r)) (enumerate k ps)"
  have fst: "map fst ?ys = [k..<k + length ps]"
    by (simp add: comp_def case_prod_beta' flip: map_fst_enumerate)
  have "set xs = set ?ys" by (rule mset_eq_setD [OF assms])
  moreover have "inj_on fst (set ?ys)"
    using fst by (metis distinct_map distinct_upt)
  ultimately have "sort_key fst xs = ?ys"
    using assms fst by (intro sort_key_inj_key_eq) simp_all
  moreover have "map snd ?ys = map f ps"
    by (rule nth_equalityI) (auto simp: nth_enumerate_eq)
  ultimately show ?thesis by simp
qed

lemma transform_chunk_eq:
  assumes "rayon_ordered par_map"
  shows "transform_chunk par_map from_string transform ps = map (finish_entry from_string transform) ps"
  unfolding transform_chunk_def Let_def
  using assms split_merge_mset [of from_string "enumerate 0 ps" transform]
  by (intro sort_merge) (simp add: pool_maps_ordered)

text \<open>What one record contributes to the results of \<open>process_mid_tier\<close>.\<close>

definition parsed_of :: "'v json_lib \<Rightarrow> engine \<Rightarrow> wrecord \<Rightarrow> 'v \<Rightarrow> 'v parsed_message" where
  "parsed_of lib eng msg value =
     (let fmt = resolve_format (format (metadata msg)) (payload msg) in
      \<lparr>pm_value = value, pm_raw = payload msg, pm_format = fmt, pm_key = key msg,
       pm_headers = headers msg,
       pm_metadata = \<lparr>timestamp_ms = timestamp_ms (metadata msg), format = fmt\<rparr>,
       pm_extracted = extract_known lib (eng_interner eng) value\<rparr>)"

definition parse_record :: "'v json_lib \<Rightarrow> wrecord \<Rightarrow> ('v, parse_error) result" where
  "parse_record lib msg = parse_payload lib (payload msg) (resolve_format (format (metadata msg)) (payload msg))"

definition mid_entry :: "'v json_lib \<Rightarrow> engine \<Rightarrow> wrecord \<Rightarrow> ('v parsed_message, string) result list" where
  "mid_entry lib eng msg = (case pre_route lib eng msg of
       Filtered \<Rightarrow> []
     | ToDlq reason \<Rightarrow> [Err reason]
     | Continue \<Rightarrow> (case parse_record lib msg of
           Inr v \<Rightarrow> [Ok (parsed_of lib eng msg v)]
         | Inl e \<Rightarrow> (case parse_error_action (eng_config eng) of
               Dlq \<Rightarrow> [Err (''parse error: '' @ parse_error_display e)]
             | Skip \<Rightarrow> []
             | FailBatch \<Rightarrow> [Err (''parse error (fail_batch): '' @ parse_error_display e)])))"

definition fails_batch :: "'v json_lib \<Rightarrow> engine \<Rightarrow> wrecord \<Rightarrow> bool" where
  "fails_batch lib eng msg \<longleftrightarrow> parse_error_action (eng_config eng) = FailBatch
     \<and> pre_route lib eng msg = Continue \<and> \<not> is_ok (parse_record lib msg)"

lemma mid_message_eq:
  "\<exists>s'. mid_message lib eng msg s =
     (s', (case mid_entry lib eng msg of [] \<Rightarrow> None | r # _ \<Rightarrow> Some r), fails_batch lib eng msg)"
  unfolding mid_message_def mid_entry_def fails_batch_def parse_record_def Let_def
  by (cases "pre_route lib eng msg";
      cases "parse_payload lib (payload msg) (resolve_format (format (metadata msg)) (payload msg))";
      cases "parse_error_action (eng_config eng)")
    (simp_all add: parsed_of_def Let_def)

lemma mid_entry_length: "length (mid_entry lib eng msg) \<le> 1"
  by (simp add: mid_entry_def split: pre_route_outcome.split sum.split parse_error_action.split)

lemma mid_entry_fail: "fails_batch lib eng msg \<Longrightarrow> mid_entry lib eng msg \<noteq> []"
  by (auto simp: mid_entry_def fails_batch_def split: pre_route_outcome.split sum.split parse_error_action.split)

lemma mid_loop_clean:
  assumes "\<forall>m\<in>set msgs. \<not> fails_batch lib eng m"
  shows "\<exists>s'. mid_loop lib eng msgs s acc = (s', acc @ concat (map (mid_entry lib eng) msgs), False)"
  using assms
proof (induction msgs arbitrary: s acc)
  case (Cons m msgs)
  obtain s' where s': "mid_message lib eng m s
      = (s', (case mid_entry lib eng m of [] \<Rightarrow> None | r # _ \<Rightarrow> Some r), False)"
    using mid_message_eq [of lib eng m s] Cons.prems by auto
  show ?case
  proof (cases "mid_entry lib eng m")
    case Nil
    with s' Cons.IH [of s' acc] Cons.prems show ?thesis by simp
  next
    case (Cons r rs)
    then have "rs = []" using mid_entry_length [of lib eng m] by simp
    with Cons s' Cons.IH [of s' "acc @ [r]"] Cons.prems show ?thesis by simp
  qed
qed simp

lemma mid_loop_fail:
  assumes "\<not> (\<forall>m\<in>set msgs. \<not> fails_batch lib eng m)"
  shows "\<exists>s' rs. mid_loop lib eng msgs s acc = (s', acc @ rs, True) \<and> rs \<noteq> [] \<and> length rs \<le> length msgs"
  using assms
proof (induction msgs arbitrary: s acc)
  case (Cons m msgs)
  obtain s' where s': "mid_message lib eng m s
      = (s', (case mid_entry lib eng m of [] \<Rightarrow> None | r # _ \<Rightarrow> Some r), fails_batch lib eng m)"
    using mid_message_eq by metis
  show ?case
  proof (cases "mid_entry lib eng m")
    case Nil
    then have "\<not> fails_batch lib eng m" using mid_entry_fail by auto
    with Cons.prems have "\<not> (\<forall>m\<in>set msgs. \<not> fails_batch lib eng m)" by simp
    from Cons.IH [OF this, of s' acc] show ?thesis using s' Nil \<open>\<not> fails_batch lib eng m\<close> by (auto intro: le_SucI)
  next
    case (Cons r rs)
    show ?thesis
    proof (cases "fails_batch lib eng m")
      case True
      with s' Cons show ?thesis by auto
    next
      case False
      with Cons.prems have "\<not> (\<forall>m\<in>set msgs. \<not> fails_batch lib eng m)" by simp
      from Cons.IH [OF this, of s' "acc @ [r]"] show ?thesis using s' Cons False by fastforce
    qed
  qed
qed simp

lemma mid_chunks_clean:
  assumes "rayon_ordered par_map" and "\<forall>m\<in>set (concat good). \<not> fails_batch lib eng m"
  shows "\<exists>s'. mid_chunks par_map from_string lib transform eng (good @ cs) s acc
    = mid_chunks par_map from_string lib transform eng cs s'
        (acc @ map (finish_entry from_string transform) (concat (map (mid_entry lib eng) (concat good))))"
  using assms(2)
proof (induction good arbitrary: s acc)
  case (Cons c good)
  obtain s1 where "mid_loop lib eng c (chunk_received c s) [] = (s1, concat (map (mid_entry lib eng) c), False)"
    using mid_loop_clean [of c lib eng "chunk_received c s" "[]"] Cons.prems by auto
  moreover have "\<forall>m\<in>set (concat good). \<not> fails_batch lib eng m" using Cons.prems by simp
  note IH = Cons.IH [OF this, of "add_processed (of_nat (length (filter is_ok
      (map (finish_entry from_string transform) (concat (map (mid_entry lib eng) c)))))) s1"
      "acc @ map (finish_entry from_string transform) (concat (map (mid_entry lib eng) c))"]
  ultimately show ?case
    using IH by (simp add: transform_chunk_eq [OF assms(1)] Let_def)
qed auto

lemma snd_process_mid_tier:
  "msgs \<noteq> [] \<Longrightarrow> snd (process_mid_tier par_map from_string lib transform eng msgs)
    = snd (mid_chunks par_map from_string lib transform eng (chunks (chunk_size eng msgs) msgs) (eng_stats eng) [])"
  by (simp add: process_mid_tier_def case_prod_beta)

text \<open>C24. Mid-tier results, for blocks in which no record fails its batch (a record that does not parse under
  \<open>ParseErrorAction::FailBatch\<close>; what happens then is \<open>mid_tier_fail_batch\<close>), and with rayon's documented ordered collect: the results of \<open>process_mid_tier\<close> are, for every
  chunk size, exactly the outcome of each record taken alone, in input order: chunking, the
  split into errors and parallel work, and the merge by index are not observable.\<close>

theorem mid_tier_is_per_record:
  assumes "rayon_ordered par_map" and "\<not> list_ex (fails_batch lib eng) msgs"
  shows "snd (process_mid_tier par_map from_string lib transform eng msgs)
    = map (finish_entry from_string transform) (concat (map (mid_entry lib eng) msgs))"
proof (cases "msgs = []")
  case True
  then show ?thesis by (simp add: process_mid_tier_def)
next
  case False
  let ?cs = "chunks (chunk_size eng msgs) msgs"
  have cs: "concat ?cs = msgs" using chunk_size_pos [OF False] by (rule concat_chunks)
  have "\<forall>m\<in>set (concat ?cs). \<not> fails_batch lib eng m" using assms(2) cs by (auto simp: list_ex_iff)
  from mid_chunks_clean [OF assms(1) this, of from_string transform "[]" "eng_stats eng" "[]"] show ?thesis
    using cs by (auto simp: snd_process_mid_tier [OF False])
qed

theorem mid_tier_is_per_record_witness:
  "snd (process_mid_tier map id toy_lib (\<lambda>pm. Ok (pm_value pm)) (with_pool (bpc_default\<lparr>max_chunk_size := 1\<rparr>))
      [bare_record Json [1, 2], bare_record Json [1, 2, 3], bare_record Json [7]])
   = [Ok 2, Err ''parse error: json parse error: bad'', Ok 1]"
  using mid_tier_is_per_record [of map toy_lib "with_pool (bpc_default\<lparr>max_chunk_size := 1\<rparr>)"
      "[bare_record Json [1, 2], bare_record Json [1, 2, 3], bare_record Json [7]]" id "\<lambda>pm. Ok (pm_value pm)"]
  by (simp add: rayon_ordered_def fails_batch_def with_pool_def bpc_default_def mid_entry_def pre_route_def
      parse_record_def bare_record_def parse_payload_def resolve_format_def json_depth_within_def toy_lib_def
      finish_entry_def parsed_of_def Let_def MAX_PARSE_DEPTH_def)

text \<open>Under \<open>FailBatch\<close>, the first chunk with an unparseable record ends the call: the
  chunks before it keep their per-record results, every entry of the failing chunk is an
  error (even those already parsed), and no later chunk contributes anything.\<close>

theorem mid_tier_fail_batch:
  assumes "rayon_ordered par_map" and "chunks (chunk_size eng msgs) msgs = good @ bad # rest"
    and "\<not> list_ex (fails_batch lib eng) (concat good)" and "list_ex (fails_batch lib eng) bad"
  shows "\<exists>errs. snd (process_mid_tier par_map from_string lib transform eng msgs)
      = map (finish_entry from_string transform) (concat (map (mid_entry lib eng) (concat good))) @ errs
    \<and> errs \<noteq> [] \<and> length errs \<le> length bad \<and> list_all (\<lambda>r. \<not> is_ok r) errs"
proof -
  have ne: "msgs \<noteq> []" using assms(2) by (auto simp: chunks_def)
  have g: "\<forall>m\<in>set (concat good). \<not> fails_batch lib eng m" using assms(3) by (auto simp: list_ex_iff)
  obtain s' where good: "mid_chunks par_map from_string lib transform eng (good @ bad # rest) (eng_stats eng) []
      = mid_chunks par_map from_string lib transform eng (bad # rest) s'
          (map (finish_entry from_string transform) (concat (map (mid_entry lib eng) (concat good))))"
    using mid_chunks_clean [OF assms(1) g, of from_string transform "bad # rest" "eng_stats eng" "[]"] by auto
  obtain s1 rs where bad: "mid_loop lib eng bad (chunk_received bad s') [] = (s1, rs, True)"
      and rs: "rs \<noteq> []" "length rs \<le> length bad"
    using mid_loop_fail [of bad lib eng "chunk_received bad s'" "[]"] assms(4) by (auto simp: list_ex_iff)
  show ?thesis
    using rs by (auto simp: snd_process_mid_tier [OF ne] assms(2) good bad list_all_iff split: sum.splits
        intro!: exI [of _ "map (\<lambda>r. case r of Inr _ \<Rightarrow> Err (from_string ''batch failed due to parse error'')
                             | Inl reason \<Rightarrow> Err (from_string reason)) rs"])
qed

lemma chunks_two: "chunks 2 [a, b, c, d, e] = [[a, b], [c, d], [e]]"
  by (simp add: chunks_def eval_nat_numeral)

theorem mid_tier_fail_batch_witness:
  "\<exists>errs. snd (process_mid_tier map id toy_lib (\<lambda>pm. Ok (pm_value pm))
        (with_pool (bpc_default\<lparr>max_chunk_size := 2, parse_error_action := FailBatch\<rparr>))
        [bare_record Json [1, 2], bare_record Json [9], bare_record Json [7], bare_record Json [1, 2, 3], bare_record Json [7]])
      = [Ok 2, Ok 1] @ errs \<and> errs \<noteq> [] \<and> length errs \<le> 2 \<and> list_all (\<lambda>r. \<not> is_ok r) errs"
  using mid_tier_fail_batch [of map "with_pool (bpc_default\<lparr>max_chunk_size := 2, parse_error_action := FailBatch\<rparr>)"
      "[bare_record Json [1, 2], bare_record Json [9], bare_record Json [7], bare_record Json [1, 2, 3], bare_record Json [7]]"
      "[[bare_record Json [1, 2], bare_record Json [9]]]" "[bare_record Json [7], bare_record Json [1, 2, 3]]"
      "[[bare_record Json [7]]]" toy_lib id "\<lambda>pm. Ok (pm_value pm)"]
  by (simp add: rayon_ordered_def fails_batch_def with_pool_def bpc_default_def mid_entry_def pre_route_def
      parse_record_def bare_record_def parse_payload_def resolve_format_def json_depth_within_def toy_lib_def
      finish_entry_def parsed_of_def Let_def MAX_PARSE_DEPTH_def chunks_two chunk_size_def flip: numeral_2_eq_2)

subsection \<open>Accounting\<close>

lemma mid_message_stats:
  assumes "\<not> fails_batch lib eng msg"
  shows "let s' = fst (mid_message lib eng msg s) in
    st_received s' = st_received s \<and> st_processed s' = st_processed s
    \<and> (parse_error_action (eng_config eng) = Dlq \<longrightarrow>
         st_filtered s' + of_nat (length (mid_entry lib eng msg)) = st_filtered s + 1)"
  using assms unfolding mid_message_def mid_entry_def fails_batch_def parse_record_def Let_def
  by (cases "pre_route lib eng msg";
      cases "parse_payload lib (payload msg) (resolve_format (format (metadata msg)) (payload msg))";
      cases "parse_error_action (eng_config eng)") (simp_all add: stats_defs)

lemma mid_loop_stats:
  assumes "\<forall>m\<in>set msgs. \<not> fails_batch lib eng m"
  shows "let s' = fst (mid_loop lib eng msgs s acc) in
    st_received s' = st_received s \<and> st_processed s' = st_processed s
    \<and> (parse_error_action (eng_config eng) = Dlq \<longrightarrow>
         st_filtered s' + of_nat (length (concat (map (mid_entry lib eng) msgs)))
         = st_filtered s + of_nat (length msgs))"
  using assms
proof (induction msgs arbitrary: s acc)
  case (Cons m msgs)
  have m: "\<not> fails_batch lib eng m" and rest: "\<forall>m\<in>set msgs. \<not> fails_batch lib eng m"
    using Cons.prems by simp_all
  obtain s' where s': "mid_message lib eng m s
      = (s', (case mid_entry lib eng m of [] \<Rightarrow> None | r # _ \<Rightarrow> Some r), False)"
    using mid_message_eq [of lib eng m s] m by auto
  obtain acc' where "mid_loop lib eng (m # msgs) s acc = mid_loop lib eng msgs s' acc'"
    using s' by (cases "mid_entry lib eng m") auto
  with Cons.IH [OF rest, of s' acc'] mid_message_stats [OF m, of s] s' show ?case
    by (simp add: Let_def algebra_simps)
qed simp

lemma chunk_received_fields [simp]:
  "st_received (chunk_received c s) = st_received s + of_nat (length c)"
  "st_processed (chunk_received c s) = st_processed s"
  "st_filtered (chunk_received c s) = st_filtered s"
  by (simp_all add: chunk_received_def stats_defs)

lemma mid_chunks_stats:
  assumes "rayon_ordered par_map" and "\<forall>m\<in>set (concat cs). \<not> fails_batch lib eng m"
  shows "let s' = fst (mid_chunks par_map from_string lib transform eng cs s acc);
             rs = map (finish_entry from_string transform) (concat (map (mid_entry lib eng) (concat cs))) in
    st_received s' = st_received s + of_nat (length (concat cs))
    \<and> st_processed s' = st_processed s + of_nat (length (filter is_ok rs))
    \<and> (parse_error_action (eng_config eng) = Dlq \<longrightarrow>
         st_filtered s' + of_nat (length rs) = st_filtered s + of_nat (length (concat cs)))"
  using assms(2)
proof (induction cs arbitrary: s acc)
  case (Cons c cs)
  have c: "\<forall>m\<in>set c. \<not> fails_batch lib eng m" and rest: "\<forall>m\<in>set (concat cs). \<not> fails_batch lib eng m"
    using Cons.prems by simp_all
  let ?rs = "map (finish_entry from_string transform) (concat (map (mid_entry lib eng) c))"
  obtain s1 where s1: "mid_loop lib eng c (chunk_received c s) [] = (s1, concat (map (mid_entry lib eng) c), False)"
    using mid_loop_clean [OF c, of "chunk_received c s" "[]"] by auto
  then have step: "mid_chunks par_map from_string lib transform eng (c # cs) s acc
      = mid_chunks par_map from_string lib transform eng cs
          (add_processed (of_nat (length (filter is_ok ?rs))) s1) (acc @ ?rs)"
    by (simp add: transform_chunk_eq [OF assms(1)] Let_def)
  have "st_received s1 = st_received s + of_nat (length c)" "st_processed s1 = st_processed s"
    "parse_error_action (eng_config eng) = Dlq \<longrightarrow>
      st_filtered s1 + of_nat (length ?rs) = st_filtered s + of_nat (length c)"
    using mid_loop_stats [OF c, of "chunk_received c s" "[]"] s1 by (simp_all add: Let_def)
  with Cons.IH [OF rest, of "add_processed (of_nat (length (filter is_ok ?rs))) s1" "acc @ ?rs"] step
  show ?case by (simp add: Let_def add_processed_def algebra_simps)
qed simp

text \<open>Accounting: when no record fails its batch, \<open>process_mid_tier\<close> adds the number of
  records to \<open>received\<close> and the number of \<open>Ok\<close> results to \<open>processed\<close>, and under the
  default \<open>Dlq\<close> action every received record is either counted as filtered or has exactly
  one result (all counters modulo 64 bits).\<close>

theorem mid_tier_accounting:
  assumes "rayon_ordered par_map" and "\<not> list_ex (fails_batch lib eng) msgs"
    and "process_mid_tier par_map from_string lib transform eng msgs = (eng', results)"
  shows "st_received (eng_stats eng') = st_received (eng_stats eng) + of_nat (length msgs)
    \<and> st_processed (eng_stats eng') = st_processed (eng_stats eng) + of_nat (length (filter is_ok results))
    \<and> (parse_error_action (eng_config eng) = Dlq \<longrightarrow>
         st_filtered (eng_stats eng') + of_nat (length results) = st_filtered (eng_stats eng) + of_nat (length msgs))"
proof (cases "msgs = []")
  case True
  with assms(3) show ?thesis by (auto simp: process_mid_tier_def)
next
  case False
  let ?cs = "chunks (chunk_size eng msgs) msgs"
  have cs: "concat ?cs = msgs" using chunk_size_pos [OF False] by (rule concat_chunks)
  have ok: "\<forall>m\<in>set (concat ?cs). \<not> fails_batch lib eng m" using assms(2) cs by (auto simp: list_ex_iff)
  have "results = map (finish_entry from_string transform) (concat (map (mid_entry lib eng) msgs))"
    using mid_chunks_clean [OF assms(1) ok, of from_string transform "[]" "eng_stats eng" "[]"] cs assms(3) False
    by (auto simp: process_mid_tier_def)
  moreover have "eng_stats eng' = fst (mid_chunks par_map from_string lib transform eng ?cs (eng_stats eng) [])"
    using assms(3) False by (auto simp: process_mid_tier_def case_prod_beta)
  ultimately show ?thesis
    using mid_chunks_stats [OF assms(1) ok, of from_string transform "eng_stats eng" "[]"] cs by (simp add: Let_def)
qed

theorem mid_tier_accounting_witness:
  "st_received (eng_stats (fst (process_mid_tier map id toy_lib (\<lambda>pm. Ok (pm_value pm)) (with_pool bpc_default)
      [bare_record Json [1, 2], bare_record Json [1, 2, 3]]))) = 2"
  using mid_tier_accounting [of map toy_lib "with_pool bpc_default" "[bare_record Json [1, 2], bare_record Json [1, 2, 3]]"
      id "\<lambda>pm. Ok (pm_value pm)"]
  by (cases "process_mid_tier map id toy_lib (\<lambda>pm. Ok (pm_value pm)) (with_pool bpc_default)
      [bare_record Json [1, 2], bare_record Json [1, 2, 3]]")
    (simp add: rayon_ordered_def fails_batch_def with_pool_def bpc_default_def stats_new_def)

subsection \<open>Raw processing\<close>

definition raw_errors :: "'v json_lib \<Rightarrow> engine \<Rightarrow> (string \<Rightarrow> 'e) \<Rightarrow> wrecord list \<Rightarrow> ('o, 'e) result list" where
  "raw_errors lib eng from_string msgs =
     concat (map (\<lambda>m. case pre_route lib eng m of ToDlq r \<Rightarrow> [Err (from_string r)] | _ \<Rightarrow> []) msgs)"

definition raw_passed :: "'v json_lib \<Rightarrow> engine \<Rightarrow> wrecord list \<Rightarrow> wrecord list" where
  "raw_passed lib eng msgs = filter (\<lambda>m. pre_route lib eng m = Continue) msgs"

lemma raw_loop_eq:
  "\<exists>s'. raw_loop lib eng from_string msgs s acc passed
     = (s', acc @ raw_errors lib eng from_string msgs, passed @ raw_passed lib eng msgs)"
proof (induction msgs arbitrary: s acc passed)
  case (Cons m msgs)
  show ?case
  proof (cases "pre_route lib eng m")
    case Continue
    with Cons [of s acc "passed @ [m]"] show ?thesis by (simp add: raw_errors_def raw_passed_def)
  next
    case Filtered
    with Cons [of "incr_filtered s" acc passed] show ?thesis by (simp add: raw_errors_def raw_passed_def)
  next
    case (ToDlq r)
    with Cons [of "incr_errors (incr_dlq s)" "acc @ [Err (from_string r)]" passed]
    show ?thesis by (simp add: raw_errors_def raw_passed_def)
  qed
qed (simp add: raw_errors_def raw_passed_def)

lemma raw_chunks_eq:
  assumes "rayon_ordered par_map"
  shows "snd (raw_chunks par_map from_string lib transform eng cs s acc)
    = acc @ concat (map (\<lambda>c. raw_errors lib eng from_string c @ map transform (raw_passed lib eng c)) cs)"
proof (induction cs arbitrary: s acc)
  case (Cons c cs)
  obtain s' where "raw_loop lib eng from_string c (chunk_received c s) acc []
      = (s', acc @ raw_errors lib eng from_string c, raw_passed lib eng c)"
    using raw_loop_eq [of lib eng from_string c "chunk_received c s" acc "[]"] by auto
  with Cons assms show ?case by (simp add: Let_def pool_maps_ordered)
qed simp

text \<open>\<open>process_raw\<close> returns, chunk by chunk, first the errors of the records its filters
  sent to the DLQ and then the transforms of the records that passed, each in input order.
  So every record has the same outcome as with \<open>process_mid_tier\<close>'s pre-route, but results
  are not aligned with the input as soon as a chunk mixes both.\<close>

theorem raw_errors_come_first:
  assumes "rayon_ordered par_map" and "msgs \<noteq> []"
  shows "snd (process_raw par_map from_string lib transform eng msgs)
    = concat (map (\<lambda>c. raw_errors lib eng from_string c @ map transform (raw_passed lib eng c))
        (chunks (chunk_size eng msgs) msgs))"
  using assms(2) by (simp add: process_raw_def case_prod_beta raw_chunks_eq [OF assms(1)])

theorem raw_errors_come_first_witness:
  "snd (process_raw map id toy_lib (\<lambda>r. Ok (length (payload r)))
      (with_pool (bpc_default\<lparr>routing_field := Some ''t'', pre_route_filters := [CfgDlqFieldValue ''t'' ''x'']\<rparr>))
      [bare_record Json [], bare_record Json [7]])
   = [Err (''field value '' @ [CHR 0x27] @ ''x'' @ [CHR 0x27] @ '' matches DLQ rule''), Ok 0]"
  using raw_errors_come_first [of map "[bare_record Json [], bare_record Json [7]]" id toy_lib "\<lambda>r. Ok (length (payload r))"
      "with_pool (bpc_default\<lparr>routing_field := Some ''t'', pre_route_filters := [CfgDlqFieldValue ''t'' ''x'']\<rparr>)"]
  by (simp add: rayon_ordered_def with_pool_def bpc_default_def raw_errors_def raw_passed_def pre_route_def bare_record_def
      extract_routing_field_def toy_lib_def filters_from_config_def chunks_def chunk_size_def)

end
