(* ===== verification/Engine_Driver.thy ===== *)
theory Engine_Driver
  imports Batch_Engine Memory_Guard
begin

text \<open>
  The run loops: \<open>src/worker/engine/driver.rs\<close>, with the DLQ policy and the ingress lease of
  \<open>src/worker/engine/mod.rs\<close> and the on-demand codec of \<open>src/transport/codec.rs\<close>. A driver
  state holds the outside world (threaded through the sink, the source commit, the DLQ
  route and the ticker, which are the application's and the transport's code), the memory
  guard, and a history of what the driver did, in order: every DLQ route, sink call,
  commit, lease and release, with its outcome. A run loop consumes the events that its
  \<open>select!\<close> picks, one per iteration.
\<close>

subsection \<open>Errors, modes, policies\<close>

datatype engine_error = Transport string | SinkError string | ShutdownError
  | FilterDlqUnrouted nat | DlqRouteFailed string | ParseBatchFailed string
  | SinkManagedUnsupported

datatype commit_mode = AutoCommit | SinkManaged

datatype filter_dlq_policy = Reject | DiscardWithMetric | Route

datatype 't effect = ERoute "dlq_entry list" bool | EDiscard nat | ESink "'t work_batch" bool
  | ECommit "'t list" bool | ELease u64 | ERelease u64

record ('w, 't) app =
  route_fn :: "'w \<Rightarrow> dlq_entry list \<Rightarrow> 'w \<times> (unit, engine_error) result"
  sink_fn :: "'w \<Rightarrow> 't work_batch \<Rightarrow> 'w \<times> (unit, engine_error) result"
  commit_fn :: "'w \<Rightarrow> 't list \<Rightarrow> 'w \<times> (unit, string) result"
  tick_fn :: "'w \<Rightarrow> 'w \<times> (unit, engine_error) result"

record ('w, 't) driver =
  world :: 'w
  mem_guard :: "memory_guard option"
  trace :: "'t effect list"

definition emit :: "'t effect \<Rightarrow> ('w, 't) driver \<Rightarrow> ('w, 't) driver" where
  "emit e d = d\<lparr>trace := trace d @ [e]\<rparr>"

subsection \<open>DLQ policy\<close>

definition route_dlq_entries :: "('w, 't) app \<Rightarrow> filter_dlq_policy \<Rightarrow> dlq_entry list \<Rightarrow> ('w, 't) driver \<Rightarrow>
    ('w, 't) driver \<times> (unit, engine_error) result" where
  "route_dlq_entries app pol entries d =
     (if entries = [] then (d, Ok ())
      else case pol of
        Reject \<Rightarrow> (d, Err (FilterDlqUnrouted (length entries)))
      | DiscardWithMetric \<Rightarrow> (emit (EDiscard (length entries)) d, Ok ())
      | Route \<Rightarrow> (let (w, r) = route_fn app (world d) entries
                   in (emit (ERoute entries (is_ok r)) (d\<lparr>world := w\<rparr>), r)))"

definition apply_workbatch_dlq_policy :: "('w, 't) app \<Rightarrow> filter_dlq_policy \<Rightarrow> 't work_batch \<Rightarrow>
    ('w, 't) driver \<Rightarrow> ('w, 't) driver \<times> ('t work_batch, engine_error) result" where
  "apply_workbatch_dlq_policy app pol batch d =
     (if dlq_entries batch \<noteq> [] then
        (case route_dlq_entries app pol (dlq_entries batch) d of
           (d', Inl e) \<Rightarrow> (d', Err e)
         | (d', Inr _) \<Rightarrow> (d', Ok (batch\<lparr>dlq_entries := []\<rparr>)))
      else (d, Ok batch))"

definition ingest_workbatch :: "('w, 't) app \<Rightarrow> filter_dlq_policy \<Rightarrow> 't work_batch \<Rightarrow>
    ('w, 't) driver \<Rightarrow> ('w, 't) driver \<times> ('t work_batch option, engine_error) result" where
  "ingest_workbatch app pol batch d =
     (case apply_workbatch_dlq_policy app pol batch d of
        (d', Inl e) \<Rightarrow> (d', Err e)
      | (d', Inr b) \<Rightarrow> (d', Ok (if records b = [] \<and> commit_tokens b = [] then None else Some b)))"

subsection \<open>Ingress leases\<close>

definition lease_ingress_batch :: "'t work_batch \<Rightarrow> ('w, 't) driver \<Rightarrow> ('w, 't) driver \<times> u64 option" where
  "lease_ingress_batch batch d =
     (case mem_guard d of
        None \<Rightarrow> (d, None)
      | Some g \<Rightarrow> (let n = total_payload_bytes batch
                   in (emit (ELease n) (d\<lparr>mem_guard := Some (add_bytes n g)\<rparr>), Some n)))"

text \<open>\<open>Drop\<close> of the lease.\<close>

definition drop_lease :: "u64 option \<Rightarrow> ('w, 't) driver \<Rightarrow> ('w, 't) driver" where
  "drop_lease lease d =
     (case (lease, mem_guard d) of
        (Some n, Some g) \<Rightarrow> emit (ERelease n) (d\<lparr>mem_guard := Some (release n g)\<rparr>)
      | _ \<Rightarrow> d)"

subsection \<open>One block\<close>

definition call_sink :: "('w, 't) app \<Rightarrow> 't work_batch \<Rightarrow> ('w, 't) driver \<Rightarrow>
    ('w, 't) driver \<times> (unit, engine_error) result" where
  "call_sink app batch d = (let (w, r) = sink_fn app (world d) batch
     in (emit (ESink batch (is_ok r)) (d\<lparr>world := w\<rparr>), r))"

definition call_commit :: "('w, 't) app \<Rightarrow> commit_mode \<Rightarrow> 't list \<Rightarrow> ('w, 't) driver \<Rightarrow>
    ('w, 't) driver \<times> (unit, engine_error) result" where
  "call_commit app mode tokens d =
     (case mode of
        SinkManaged \<Rightarrow> (d, Ok ())
      | AutoCommit \<Rightarrow>
          (let (w, r) = commit_fn app (world d) tokens
           in (emit (ECommit tokens (is_ok r)) (d\<lparr>world := w\<rparr>),
               case r of Inl e \<Rightarrow> Err (Transport e) | Inr _ \<Rightarrow> Ok ())))"

text \<open>The body of \<open>drive_block\<close> between taking and dropping the lease.\<close>

definition drive_body ::
  "('w, 't) app \<Rightarrow> filter_dlq_policy \<Rightarrow> ('t work_batch \<Rightarrow> ('t work_batch, engine_error) result) \<Rightarrow>
   commit_mode \<Rightarrow> 't work_batch \<Rightarrow> ('w, 't) driver \<Rightarrow> ('w, 't) driver \<times> (unit, engine_error) result" where
  "drive_body app pol process mode batch d =
     (case process batch of
        Inl e \<Rightarrow> (d, Err e)
      | Inr out \<Rightarrow>
          (let out' = out\<lparr>dlq_entries := []\<rparr> in
           case (if dlq_entries out \<noteq> [] then route_dlq_entries app pol (dlq_entries out) d else (d, Ok ())) of
             (d1, Inl e) \<Rightarrow> (d1, Err e)
           | (d1, Inr _) \<Rightarrow>
               (case (if records out' \<noteq> [] then call_sink app out' d1 else (d1, Ok ())) of
                  (d2, Inl e) \<Rightarrow> (d2, Err e)
                | (d2, Inr _) \<Rightarrow> call_commit app mode (commit_tokens out') d2)))"

definition drive_block ::
  "('w, 't) app \<Rightarrow> filter_dlq_policy \<Rightarrow> ('t work_batch \<Rightarrow> ('t work_batch, engine_error) result) \<Rightarrow>
   commit_mode \<Rightarrow> 't work_batch \<Rightarrow> ('w, 't) driver \<Rightarrow> ('w, 't) driver \<times> (unit, engine_error) result" where
  "drive_block app pol process mode batch d =
     (let (d1, lease) = lease_ingress_batch batch d;
          (d2, r) = drive_body app pol process mode batch d1
      in (drop_lease lease d2, r))"

subsection \<open>Sub-blocks\<close>

record sub_block_drain =
  iter :: "wrecord list"
  peeked :: "wrecord option"
  target_bytes :: u64

definition drain_new :: "wrecord list \<Rightarrow> u64 \<Rightarrow> sub_block_drain" where
  "drain_new rs target = \<lparr>iter = rs, peeked = None, target_bytes = target\<rparr>"

fun pull :: "u64 \<Rightarrow> u64 \<Rightarrow> wrecord list \<Rightarrow> wrecord list \<Rightarrow> wrecord list \<times> wrecord option \<times> wrecord list" where
  "pull target cur_bytes current [] = (current, None, [])"
| "pull target cur_bytes current (r # rs) =
     (if target < saturating_add cur_bytes (payload_len r) then (current, Some r, rs)
      else pull target (saturating_add cur_bytes (payload_len r)) (current @ [r]) rs)"

definition next_sub_block :: "sub_block_drain \<Rightarrow> sub_block_drain \<times> wrecord list option" where
  "next_sub_block s =
     (case (peeked s, iter s) of
        (None, []) \<Rightarrow> (s\<lparr>peeked := None\<rparr>, None)
      | (p, rs) \<Rightarrow>
          (let (first, rest) = (case p of Some r \<Rightarrow> (r, rs) | None \<Rightarrow> (hd rs, tl rs));
               (current, p', rest') = pull (target_bytes s) (payload_len first) [first] rest
           in (s\<lparr>iter := rest', peeked := p'\<rparr>, Some current)))"

definition drain_pending :: "sub_block_drain \<Rightarrow> wrecord list" where
  "drain_pending s = (case peeked s of None \<Rightarrow> iter s | Some r \<Rightarrow> r # iter s)"

lemma pull_split:
  "pull target n cur rs = (cur', p, rest) \<Longrightarrow>
     cur' @ (case p of None \<Rightarrow> rest | Some r \<Rightarrow> r # rest) = cur @ rs \<and> (\<exists>xs. cur' = cur @ xs)
     \<and> (p = None \<longrightarrow> rest = [])"
  by (induction target n cur rs rule: pull.induct) (auto split: if_splits)

lemma next_sub_block_Some:
  assumes "next_sub_block s = (s', Some blk)"
  shows "blk @ drain_pending s' = drain_pending s" and "blk \<noteq> []" and "target_bytes s' = target_bytes s"
proof -
  obtain first rest where f: "drain_pending s = first # rest"
    and step: "(case pull (target_bytes s) (payload_len first) [first] rest of
        (current, p', rest') \<Rightarrow> (s\<lparr>iter := rest', peeked := p'\<rparr>, Some current)) = (s', Some blk)"
    using assms by (cases "peeked s"; cases "iter s") (auto simp: next_sub_block_def drain_pending_def)
  obtain p' rest' where p: "pull (target_bytes s) (payload_len first) [first] rest = (blk, p', rest')"
    and s': "s' = s\<lparr>iter := rest', peeked := p'\<rparr>"
    using step by (auto split: prod.splits)
  note pull_split [OF p]
  then show "blk @ drain_pending s' = drain_pending s" "blk \<noteq> []" "target_bytes s' = target_bytes s"
    using f s' by (auto simp: drain_pending_def split: option.splits)
qed

lemma next_sub_block_decreases:
  "(s', Some blk) = next_sub_block s \<Longrightarrow> length (drain_pending s') < length (drain_pending s)"
  using next_sub_block_Some [of s s' blk] by (cases blk) (auto dest: sym arg_cong [of _ _ length])

function stream_blocks ::
  "('w, 't) app \<Rightarrow> filter_dlq_policy \<Rightarrow> ('t work_batch \<Rightarrow> ('t work_batch, engine_error) result) \<Rightarrow>
   sub_block_drain \<Rightarrow> ('w, 't) driver \<Rightarrow> ('w, 't) driver \<times> (unit, engine_error) result" where
  "stream_blocks app pol process s d =
     (case next_sub_block s of
        (s', None) \<Rightarrow> (d, Ok ())
      | (s', Some sub_records) \<Rightarrow>
          (let sub_block = from_records sub_records;
               (d1, lease) = lease_ingress_batch sub_block d
           in case process sub_block of
                Inl e \<Rightarrow> (drop_lease lease d1, Err e)
              | Inr out \<Rightarrow>
                  (let out' = out\<lparr>dlq_entries := []\<rparr> in
                   case (if dlq_entries out \<noteq> [] then route_dlq_entries app pol (dlq_entries out) d1 else (d1, Ok ())) of
                     (d2, Inl e) \<Rightarrow> (drop_lease lease d2, Err e)
                   | (d2, Inr _) \<Rightarrow>
                       (case call_sink app out' d2 of
                          (d3, Inl e) \<Rightarrow> (drop_lease lease d3, Err e)
                        | (d3, Inr _) \<Rightarrow> stream_blocks app pol process s' (drop_lease lease d3)))))"
  by pat_completeness auto
termination
  by (relation "measure (\<lambda>(app, pol, process, s, d). length (drain_pending s))")
    (simp, simp only: in_measure case_prod_conv next_sub_block_decreases)

declare stream_blocks.simps [simp del]

definition drive_block_streaming ::
  "('w, 't) app \<Rightarrow> filter_dlq_policy \<Rightarrow> ('t work_batch \<Rightarrow> ('t work_batch, engine_error) result) \<Rightarrow>
   commit_mode \<Rightarrow> u64 \<Rightarrow> 't work_batch \<Rightarrow> ('w, 't) driver \<Rightarrow> ('w, 't) driver \<times> (unit, engine_error) result" where
  "drive_block_streaming app pol process mode sub_block_bytes batch d =
     (case stream_blocks app pol process (drain_new (records batch) sub_block_bytes) d of
        (d', Inl e) \<Rightarrow> (d', Err e)
      | (d', Inr _) \<Rightarrow> call_commit app mode (commit_tokens batch) d')"

subsection \<open>The codec and the pre-parsed block\<close>

datatype ('j, 'm) parsed_payload = PJson 'j | PMsgPack 'm

datatype codec_error = CodecJson string | CodecMsgPack string | TrailingBytes nat | CodecTooDeep

record ('j, 'm) codec_lib =
  sonic_from_slice :: "bytes \<Rightarrow> ('j, string) result"
  rmpv_read_value :: "nat \<Rightarrow> bytes \<Rightarrow> ('m \<times> bytes, string) result"

definition codec_parse :: "('j, 'm) codec_lib \<Rightarrow> bytes \<Rightarrow> payload_format \<Rightarrow> (('j, 'm) parsed_payload, codec_error) result" where
  "codec_parse lib bs fmt =
     (case resolve_format fmt bs of
        MsgPack \<Rightarrow> (case rmpv_read_value lib MAX_PARSE_DEPTH bs of
            Inl e \<Rightarrow> Err (CodecMsgPack e)
          | Inr (v, rest) \<Rightarrow> if 0 < length rest then Err (TrailingBytes (length rest)) else Ok (PMsgPack v))
      | _ \<Rightarrow> (if \<not> json_depth_within bs MAX_PARSE_DEPTH then Err CodecTooDeep
              else case sonic_from_slice lib bs of Inl e \<Rightarrow> Err (CodecJson e) | Inr v \<Rightarrow> Ok (PJson v)))"

record ('j, 'm, 't) parsed_batch =
  pb_records :: "wrecord list"
  pb_parsed :: "('j, 'm) parsed_payload list"
  pb_commit_tokens :: "'t list"
  pb_dlq_entries :: "dlq_entry list"

fun parse_loop :: "parse_error_action \<Rightarrow> (codec_error \<Rightarrow> string) \<Rightarrow>
    (wrecord \<times> (('j, 'm) parsed_payload, codec_error) result) list \<Rightarrow> pipeline_stats \<Rightarrow>
    wrecord list \<times> ('j, 'm) parsed_payload list \<times> dlq_entry list \<Rightarrow>
    pipeline_stats \<times> (wrecord list \<times> ('j, 'm) parsed_payload list \<times> dlq_entry list, engine_error) result" where
  "parse_loop act show_err [] s acc = (s, Ok acc)"
| "parse_loop act show_err ((r, res) # xs) s (rs, ps, ds) =
     (case res of
        Inr p \<Rightarrow> parse_loop act show_err xs s (rs @ [r], ps @ [p], ds)
      | Inl e \<Rightarrow>
          (case act of
             Dlq \<Rightarrow> parse_loop act show_err xs (incr_dlq (incr_errors s))
               (rs, ps, ds @ [\<lparr>dlq_payload = payload r, dlq_key = key r,
                               dlq_reason = ''parse error: '' @ show_err e\<rparr>])
           | Skip \<Rightarrow> parse_loop act show_err xs (incr_errors s) (rs, ps, ds)
           | FailBatch \<Rightarrow> (incr_errors s, Err (ParseBatchFailed (''parse error: '' @ show_err e)))))"

definition parse_block where
  "parse_block par_map lib show_err eng batch =
     (case parse_loop (parse_error_action (eng_config eng)) show_err
             (map_owned par_map (records batch) (\<lambda>r. (r, codec_parse lib (payload r) (format (metadata r)))))
             (eng_stats eng) ([], [], dlq_entries batch) of
        (s, Inl e) \<Rightarrow> (eng\<lparr>eng_stats := s\<rparr>, Err e)
      | (s, Inr (rs, ps, ds)) \<Rightarrow> (eng\<lparr>eng_stats := s\<rparr>,
           Ok \<lparr>pb_records = rs, pb_parsed = ps, pb_commit_tokens = commit_tokens batch, pb_dlq_entries = ds\<rparr>))"

subsection \<open>Run loops\<close>

datatype 't run_event = Cancelled | Tick | Received "('t work_batch, string) result"

datatype run_status = Running | Returned "(unit, engine_error) result"

text \<open>One loop for all drivers; \<open>drive\<close> is what each does with an ingested block.\<close>

fun run_loop ::
  "('w, 't) app \<Rightarrow> filter_dlq_policy \<Rightarrow>
   ('t work_batch \<Rightarrow> ('w, 't) driver \<Rightarrow> ('w, 't) driver \<times> (unit, engine_error) result) \<Rightarrow>
   't run_event list \<Rightarrow> ('w, 't) driver \<Rightarrow> ('w, 't) driver \<times> run_status" where
  "run_loop app pol drive [] d = (d, Running)"
| "run_loop app pol drive (Cancelled # evs) d = (d, Returned (Ok ()))"
| "run_loop app pol drive (Tick # evs) d =
     run_loop app pol drive evs (d\<lparr>world := fst (tick_fn app (world d))\<rparr>)"
| "run_loop app pol drive (Received r # evs) d =
     (case r of
        Inl e \<Rightarrow> (d, Returned (Err (Transport e)))
      | Inr wb \<Rightarrow>
          (case ingest_workbatch app pol wb d of
             (d1, Inl e) \<Rightarrow> (d1, Returned (Err e))
           | (d1, Inr None) \<Rightarrow> run_loop app pol drive evs d1
           | (d1, Inr (Some batch)) \<Rightarrow>
               (case drive batch d1 of
                  (d2, Inl e) \<Rightarrow> (d2, Returned (Err e))
                | (d2, Inr _) \<Rightarrow> run_loop app pol drive evs d2)))"

definition run_workbatch where
  "run_workbatch app pol process mode evs d = run_loop app pol (drive_block app pol process mode) evs d"

definition run_workbatch_streaming where
  "run_workbatch_streaming app pol process mode sub_block_bytes evs d =
     (case mode of
        SinkManaged \<Rightarrow> (d, Returned (Err SinkManagedUnsupported))
      | AutoCommit \<Rightarrow> run_loop app pol (drive_block_streaming app pol process mode sub_block_bytes) evs d)"

text \<open>The parsing engine's counters are its own; the driver only sees the closure's result.\<close>

definition run_workbatch_parsed where
  "run_workbatch_parsed par_map lib show_err eng app pol process_parsed mode evs d =
     run_loop app pol (drive_block app pol
        (\<lambda>b. case snd (parse_block par_map lib show_err eng b) of
               Inl e \<Rightarrow> Err e | Inr parsed \<Rightarrow> process_parsed parsed) mode) evs d"

subsection \<open>The history of a run\<close>

fun failed :: "'t effect \<Rightarrow> bool" where
  "failed (ERoute _ ok) = (\<not> ok)"
| "failed (ESink _ ok) = (\<not> ok)"
| "failed (ECommit _ ok) = (\<not> ok)"
| "failed _ = False"

fun is_release :: "'t effect \<Rightarrow> bool" where
  "is_release (ERelease _) = True"
| "is_release _ = False"

definition committed :: "'t effect list \<Rightarrow> 't list" where
  "committed tr = concat (map (\<lambda>e. case e of ECommit ts True \<Rightarrow> ts | _ \<Rightarrow> []) tr)"

definition commits :: "'t effect list \<Rightarrow> 't list list" where
  "commits tr = concat (map (\<lambda>e. case e of ECommit ts True \<Rightarrow> [ts] | _ \<Rightarrow> []) tr)"

definition sunk :: "'t effect list \<Rightarrow> wrecord list" where
  "sunk tr = concat (map (\<lambda>e. case e of ESink b True \<Rightarrow> records b | _ \<Rightarrow> []) tr)"

text \<open>The ack barrier: after the first failed effect there is nothing but lease releases.\<close>

definition barrier :: "'t effect list \<Rightarrow> bool" where
  "barrier tr = list_all is_release (tl (dropWhile (\<lambda>e. \<not> failed e) tr))"

abbreviation clean :: "'t effect list \<Rightarrow> bool" where
  "clean tr \<equiv> list_all (\<lambda>e. \<not> failed e) tr"

lemma committed_append [simp]: "committed (xs @ ys) = committed xs @ committed ys"
  by (simp add: committed_def)

lemma committed_simps [simp]:
  "committed [] = []"
  "committed (ECommit ts ok # tr) = (if ok then ts else []) @ committed tr"
  "committed (ESink b ok # tr) = committed tr"
  "committed (ERoute es ok # tr) = committed tr"
  "committed (EDiscard n # tr) = committed tr"
  "committed (ELease m # tr) = committed tr"
  "committed (ERelease m # tr) = committed tr"
  by (simp_all add: committed_def)

lemma commits_append [simp]: "commits (xs @ ys) = commits xs @ commits ys"
  by (simp add: commits_def)

lemma commits_simps [simp]:
  "commits [] = []"
  "commits (ECommit ts ok # tr) = (if ok then [ts] else []) @ commits tr"
  "commits (ESink b ok # tr) = commits tr"
  "commits (ERoute es ok # tr) = commits tr"
  "commits (EDiscard n # tr) = commits tr"
  "commits (ELease m # tr) = commits tr"
  "commits (ERelease m # tr) = commits tr"
  by (simp_all add: commits_def)

lemma concat_map_single: "concat (map (\<lambda>x. [f x]) xs) = map f xs"
  by (induction xs) simp_all

lemma committed_commits: "committed tr = concat (commits tr)"
proof (induction tr)
  case (Cons e tr)
  then show ?case by (cases e) simp_all
qed simp

lemma sunk_append [simp]: "sunk (xs @ ys) = sunk xs @ sunk ys"
  by (simp add: sunk_def)

lemma sunk_simps [simp]:
  "sunk [] = []"
  "sunk (ECommit ts ok # tr) = sunk tr"
  "sunk (ESink b ok # tr) = (if ok then records b else []) @ sunk tr"
  "sunk (ERoute es ok # tr) = sunk tr"
  "sunk (EDiscard n # tr) = sunk tr"
  "sunk (ELease m # tr) = sunk tr"
  "sunk (ERelease m # tr) = sunk tr"
  by (simp_all add: sunk_def)

lemma clean_dropWhile: "clean xs \<Longrightarrow> dropWhile (\<lambda>e. \<not> failed e) (xs @ ys) = dropWhile (\<lambda>e. \<not> failed e) ys"
  by (induction xs) auto

lemma barrier_clean_append: "clean xs \<Longrightarrow> barrier ys \<Longrightarrow> barrier (xs @ ys)"
  by (simp add: barrier_def clean_dropWhile)

lemma clean_barrier: "clean xs \<Longrightarrow> barrier xs"
  using barrier_clean_append [of xs "[]"] by (simp add: barrier_def)

lemma barrier_release: "barrier xs \<Longrightarrow> barrier (xs @ [ERelease n])"
proof (cases "clean xs")
  case True
  then show ?thesis by (intro clean_barrier) simp
next
  case False
  assume "barrier xs"
  moreover have "dropWhile (\<lambda>e. \<not> failed e) (xs @ [ERelease n]) = dropWhile (\<lambda>e. \<not> failed e) xs @ [ERelease n]"
    using False by (auto simp: list_all_iff intro: dropWhile_append1)
  moreover have "dropWhile (\<lambda>e. \<not> failed e) xs \<noteq> []"
    using False by (auto simp: list_all_iff)
  ultimately show ?thesis by (simp add: barrier_def)
qed

text \<open>
  What an operation of the driver adds to the history: nothing failed if it succeeded, the
  barrier holds in any case, and its successful commits are \<open>ts\<close>, in order.
\<close>

definition step :: "('w, 't) driver \<Rightarrow> bool \<Rightarrow> ('w, 't) driver \<Rightarrow> 't list list \<Rightarrow> bool" where
  "step d ok d' ts \<longleftrightarrow> (\<exists>ext. trace d' = trace d @ ext \<and> commits ext = ts
     \<and> (if ok then clean ext else barrier ext))"

lemma step_refl [simp, intro]: "step d ok d []"
  by (auto simp: step_def barrier_def)

lemma step_trans: "step d True d1 ts \<Longrightarrow> step d1 ok d2 ts' \<Longrightarrow> step d ok d2 (ts @ ts')"
  unfolding step_def by (elim exE conjE) (auto intro!: barrier_clean_append)

lemma step_trans0: "step d True d1 [] \<Longrightarrow> step d1 ok d2 ts \<Longrightarrow> step d ok d2 ts"
  using step_trans [of d d1 "[]" ok d2 ts] by simp

lemma step_world: "step d ok (d\<lparr>world := w\<rparr>) []"
  by (auto simp: step_def barrier_def)

lemma step_world_left [simp]: "step (d\<lparr>world := w\<rparr>) ok d' ts = step d ok d' ts"
  by (simp add: step_def)

lemma step_drop_lease: "step d ok d' ts \<Longrightarrow> step d ok (drop_lease l d') ts"
  unfolding step_def drop_lease_def
  by (elim exE conjE) (auto simp: emit_def barrier_release split: option.splits)

lemma step_lease: "lease_ingress_batch b d = (d', l) \<Longrightarrow> step d True d' []"
  by (auto simp: lease_ingress_batch_def step_def emit_def Let_def split: option.splits)

lemma step_route: "route_dlq_entries app pol es d = (d', r) \<Longrightarrow> step d (is_ok r) d' []"
  by (cases pol; cases "is_ok r")
    (auto simp: route_dlq_entries_def step_def emit_def barrier_def split: if_splits prod.splits)

lemma step_sink: "call_sink app b d = (d', r) \<Longrightarrow> step d (is_ok r) d' []"
  by (cases "is_ok r") (auto simp: call_sink_def step_def emit_def barrier_def split: prod.splits)

lemma step_commit: "call_commit app mode ts d = (d', r) \<Longrightarrow>
    step d (is_ok r) d' (if is_ok r \<and> mode = AutoCommit then [ts] else [])"
  by (cases mode) (auto simp: call_commit_def step_def emit_def barrier_def split: sum.splits prod.splits)

lemma step_apply_policy: "apply_workbatch_dlq_policy app pol b d = (d', r) \<Longrightarrow> step d (is_ok r) d' []"
  by (auto simp: apply_workbatch_dlq_policy_def split: if_splits prod.splits sum.splits dest: step_route)

lemma apply_policy_batch: "apply_workbatch_dlq_policy app pol b d = (d', Ok b') \<Longrightarrow> b' = b\<lparr>dlq_entries := []\<rparr>"
  by (auto simp: apply_workbatch_dlq_policy_def split: if_splits prod.splits sum.splits)

lemma ingest_Ok:
  assumes "ingest_workbatch app pol b d = (d', Ok r)"
  shows "step d True d' [] \<and>
    r = (if records b = [] \<and> commit_tokens b = [] then None else Some (b\<lparr>dlq_entries := []\<rparr>))"
  using assms apply_policy_batch step_apply_policy [of app pol b d]
  by (fastforce simp: ingest_workbatch_def split: prod.splits sum.splits if_splits)

lemma ingest_Err: "ingest_workbatch app pol b d = (d', Err e) \<Longrightarrow> step d False d' []"
  using step_apply_policy [of app pol b d] by (fastforce simp: ingest_workbatch_def split: prod.splits sum.splits)

definition acks_whole :: "('t work_batch \<Rightarrow> ('t work_batch, engine_error) result) \<Rightarrow> commit_mode \<Rightarrow> 't work_batch \<Rightarrow> 't list list" where
  "acks_whole process mode b =
     (case process b of Inr out \<Rightarrow> if mode = AutoCommit then [commit_tokens out] else [] | Inl _ \<Rightarrow> [])"

lemma step_drive_body:
  assumes "drive_body app pol process mode b d = (d', r)"
  shows "step d (is_ok r) d' (if is_ok r then acks_whole process mode b else [])"
proof (cases "process b")
  case (Inl e)
  with assms show ?thesis by (auto simp: drive_body_def)
next
  case (Inr out)
  define rt where "rt = (if dlq_entries out \<noteq> [] then route_dlq_entries app pol (dlq_entries out) d else (d, Ok ()))"
  obtain d1 r1 where d1: "rt = (d1, r1)" by (cases rt)
  have s1: "step d (is_ok r1) d1 []" using d1 step_route by (auto simp: rt_def split: if_splits)
  define sk where "sk = (if records out \<noteq> [] then call_sink app (out\<lparr>dlq_entries := []\<rparr>) d1 else (d1, Ok ()))"
  obtain d2 r2 where d2: "sk = (d2, r2)" by (cases sk)
  have s2: "step d1 (is_ok r2) d2 []" using d2 step_sink by (auto simp: sk_def split: if_splits)
  have body: "(d', r) = (case r1 of Inl e \<Rightarrow> (d1, Err e) | Inr _ \<Rightarrow> (case r2 of Inl e \<Rightarrow> (d2, Err e)
      | Inr _ \<Rightarrow> call_commit app mode (commit_tokens out) d2))"
    using assms Inr d1 d2 by (cases r1) (auto simp: drive_body_def Let_def rt_def [symmetric] sk_def [symmetric])
  show ?thesis
  proof (cases r1)
    case (Inl e)
    with body s1 show ?thesis by simp
  next
    case r1: (Inr u)
    show ?thesis
    proof (cases r2)
      case (Inl e)
      with body r1 s1 s2 show ?thesis by (auto intro: step_trans0)
    next
      case r2: (Inr u2)
      with body r1 have "call_commit app mode (commit_tokens out) d2 = (d', r)" by simp
      from step_commit [OF this] have "step d (is_ok r) d' (if is_ok r \<and> mode = AutoCommit then [commit_tokens out] else [])"
        using s1 s2 r1 r2 by (auto intro: step_trans0)
      then show ?thesis using Inr by (cases "is_ok r"; cases mode) (simp_all add: acks_whole_def)
    qed
  qed
qed

lemma step_drive_block:
  assumes "drive_block app pol process mode b d = (d', r)"
  shows "step d (is_ok r) d' (if is_ok r then acks_whole process mode b else [])"
proof -
  obtain d1 l where l: "lease_ingress_batch b d = (d1, l)" by (cases "lease_ingress_batch b d")
  obtain d2 r2 where b: "drive_body app pol process mode b d1 = (d2, r2)"
    by (cases "drive_body app pol process mode b d1")
  show ?thesis
    using assms l b step_lease [OF l] step_drive_body [OF b]
    by (auto simp: drive_block_def intro!: step_drop_lease intro: step_trans0)
qed

lemma step_stream_blocks:
  "stream_blocks app pol process s d = (d', r) \<Longrightarrow> step d (is_ok r) d' []"
proof (induction app pol process s d arbitrary: d' r rule: stream_blocks.induct)
  case (1 app pol process s d)
  obtain s' ob where n: "next_sub_block s = (s', ob)" by (cases "next_sub_block s")
  show ?case
  proof (cases ob)
    case None
    with 1 n show ?thesis by (subst (asm) stream_blocks.simps) auto
  next
    case (Some blk)
    obtain d1 l where l: "lease_ingress_batch (from_records blk) d = (d1, l)"
      by (cases "lease_ingress_batch (from_records blk) d")
    note s1 = step_lease [OF l]
    show ?thesis
    proof (cases "process (from_records blk)")
      case (Inl e)
      with "1.prems" n Some l s1 show ?thesis
        by (subst (asm) stream_blocks.simps) (auto intro!: step_drop_lease intro: step_trans0)
    next
      case (Inr out)
      define rt where "rt = (if dlq_entries out \<noteq> [] then route_dlq_entries app pol (dlq_entries out) d1 else (d1, Ok ()))"
      obtain d2 r2 where d2: "rt = (d2, r2)" by (cases rt)
      have s2: "step d (is_ok r2) d2 []"
        using d2 step_route s1 by (fastforce simp: rt_def intro: step_trans0 split: if_splits)
      obtain d3 r3 where d3: "call_sink app (out\<lparr>dlq_entries := []\<rparr>) d2 = (d3, r3)"
        by (cases "call_sink app (out\<lparr>dlq_entries := []\<rparr>) d2")
      note s3 = step_sink [OF d3]
      have eq: "(d', r) = (case r2 of Inl e \<Rightarrow> (drop_lease l d2, Err e) | Inr _ \<Rightarrow>
          (case r3 of Inl e \<Rightarrow> (drop_lease l d3, Err e) | Inr _ \<Rightarrow> stream_blocks app pol process s' (drop_lease l d3)))"
        using "1.prems" n Some l Inr d2 d3
        by (subst (asm) stream_blocks.simps) (cases r2; auto simp: Let_def rt_def [symmetric])
      show ?thesis
      proof (cases "is_ok r2 \<and> is_ok r3")
        case False
        with eq s2 s3 show ?thesis
          by (cases r2; cases r3) (auto intro!: step_drop_lease intro: step_trans0)
      next
        case True
        then have rec: "stream_blocks app pol process s' (drop_lease l d3) = (d', r)"
          using eq by (cases r2; cases r3) auto
        have "step (drop_lease l d3) (is_ok r) d' []"
          using "1.IH" [OF n [symmetric] Some refl l [symmetric] refl Inr refl] rec d2 d3 True
          by (cases r2; cases r3) (auto simp: rt_def)
        moreover have "step d True (drop_lease l d3) []"
          using True s2 s3 by (auto intro!: step_drop_lease intro: step_trans0)
        ultimately show ?thesis by (rule step_trans0 [rotated])
      qed
    qed
  qed
qed

lemma step_drive_block_streaming:
  assumes "drive_block_streaming app pol process mode n b d = (d', r)"
  shows "step d (is_ok r) d' (if is_ok r then if mode = AutoCommit then [commit_tokens b] else [] else [])"
proof -
  obtain d1 r1 where s: "stream_blocks app pol process (drain_new (records b) n) d = (d1, r1)"
    by (cases "stream_blocks app pol process (drain_new (records b) n) d")
  show ?thesis
  proof (cases r1)
    case (Inl e)
    with assms s step_stream_blocks [OF s] show ?thesis by (auto simp: drive_block_streaming_def)
  next
    case (Inr u)
    with assms s have "call_commit app mode (commit_tokens b) d1 = (d', r)"
      by (simp add: drive_block_streaming_def)
    from step_commit [OF this] step_stream_blocks [OF s] Inr show ?thesis
      by (auto intro: step_trans0)
  qed
qed

subsection \<open>Drivers of blocks\<close>

text \<open>
  What the run loop relies on: driving a block either succeeds, with nothing failed, and
  commits that block's acks, or fails behind the barrier and commits nothing.
\<close>

text \<open>The blocks a run gets to see: non-empty receives before a shutdown or a source error.\<close>

fun blocks :: "'t run_event list \<Rightarrow> 't work_batch list" where
  "blocks [] = []"
| "blocks (Cancelled # evs) = []"
| "blocks (Tick # evs) = blocks evs"
| "blocks (Received (Inl e) # evs) = []"
| "blocks (Received (Inr b) # evs) =
     (if records b = [] \<and> commit_tokens b = [] then blocks evs
      else b\<lparr>dlq_entries := []\<rparr> # blocks evs)"

locale block_driver =
  fixes drive :: "'t work_batch \<Rightarrow> ('w, 't) driver \<Rightarrow> ('w, 't) driver \<times> (unit, engine_error) result"
    and acks :: "'t work_batch \<Rightarrow> 't list list" and accepts :: "'t work_batch \<Rightarrow> bool"
  assumes drive_step: "drive b d = (d', r) \<Longrightarrow> step d (is_ok r) d' (if is_ok r then acks b else [])"
    and drive_accepts: "drive b d = (d', Ok u) \<Longrightarrow> accepts b"
begin

lemma run_step:
  assumes "run_loop app pol drive evs d = (d', st)"
  shows "\<exists>n. step d (\<forall>e. st \<noteq> Returned (Err e)) d' (concat (map acks (take n (blocks evs))))
    \<and> list_all accepts (take n (blocks evs))
    \<and> ((\<forall>e. st \<noteq> Returned (Err e)) \<longrightarrow> n = length (blocks evs))"
  using assms
proof (induction evs arbitrary: d)
  case Nil
  then show ?case by auto
next
  case (Cons ev evs)
  show ?case
  proof (cases ev)
    case Cancelled
    with Cons.prems show ?thesis by auto
  next
    case Tick
    with Cons.prems Cons.IH [of "d\<lparr>world := fst (tick_fn app (world d))\<rparr>"] show ?thesis by simp
  next
    case (Received r)
    show ?thesis
    proof (cases r)
      case (Inl e)
      with Received Cons.prems show ?thesis by auto
    next
      case (Inr b)
      obtain d1 ir where ir: "ingest_workbatch app pol b d = (d1, ir)"
        by (cases "ingest_workbatch app pol b d")
      show ?thesis
      proof (cases ir)
        case (Inl e)
        with Received Inr Cons.prems ir ingest_Err [of app pol b d d1 e] show ?thesis
          by (auto intro!: exI [of _ 0])
      next
        case ok: (Inr ob)
        note ing = ingest_Ok [OF ir [unfolded ok]]
        show ?thesis
        proof (cases "records b = [] \<and> commit_tokens b = []")
          case True
          with ing Cons.prems Received Inr ir ok have "run_loop app pol drive evs d1 = (d', st)" by simp
          from Cons.IH [OF this] ing True Received Inr show ?thesis by (auto intro: step_trans0)
        next
          case False
          let ?b = "b\<lparr>dlq_entries := []\<rparr>"
          obtain d2 r2 where dr: "drive ?b d1 = (d2, r2)" by (cases "drive ?b d1")
          note s2 = step_trans0 [OF conjunct1 [OF ing] drive_step [OF dr]]
          have bl: "blocks (ev # evs) = ?b # blocks evs" using False Received Inr by auto
          have ob: "ob = Some ?b" using ing False by simp
          show ?thesis
          proof (cases r2)
            case (Inl e)
            with s2 Cons.prems Received Inr ir ok ob dr show ?thesis by (auto intro!: exI [of _ 0])
          next
            case r2: (Inr u)
            with Cons.prems Received Inr ir ok ob dr have "run_loop app pol drive evs d2 = (d', st)" by simp
            from Cons.IH [OF this] obtain n
              where "step d2 (\<forall>e. st \<noteq> Returned (Err e)) d' (concat (map acks (take n (blocks evs))))"
                and "list_all accepts (take n (blocks evs))"
                and "(\<forall>e. st \<noteq> Returned (Err e)) \<longrightarrow> n = length (blocks evs)" by auto
            with s2 r2 bl drive_accepts [OF dr [unfolded r2]] show ?thesis
              by (intro exI [of _ "Suc n"]) (auto dest: step_trans)
          qed
        qed
      qed
    qed
  qed
qed

end

lemma drive_block_accepts: "drive_block app pol process mode b d = (d', Ok u) \<Longrightarrow> is_ok (process b)"
  by (cases "process b") (auto simp: drive_block_def drive_body_def split: prod.splits)

interpretation whole: block_driver "drive_block app pol process mode" "acks_whole process mode" "\<lambda>b. is_ok (process b)"
  for app :: "('w, 't) app" and pol process mode
  by unfold_locales (rule step_drive_block, assumption, rule drive_block_accepts)

interpretation streaming: block_driver "drive_block_streaming app pol process mode n"
    "\<lambda>b. if mode = AutoCommit then [commit_tokens b] else []" "\<lambda>b. True"
  for app :: "('w, 't) app" and pol process mode n
  by unfold_locales (rule step_drive_block_streaming, assumption, rule TrueI)


subsection \<open>Commits of a whole run\<close>

lemma step_from_empty: "step d ok d' ts \<Longrightarrow> trace d = [] \<Longrightarrow> commits (trace d') = ts \<and> barrier (trace d')"
  by (auto simp: step_def clean_barrier split: if_splits)

lemma whole_run_commits:
  assumes "run_workbatch app pol process AutoCommit evs d = (d', st)" and "trace d = []"
    and "\<And>b out. process b = Ok out \<Longrightarrow> commit_tokens out = commit_tokens b"
  shows "\<exists>n. commits (trace d') = map commit_tokens (take n (blocks evs))
    \<and> ((\<forall>e. st \<noteq> Returned (Err e)) \<longrightarrow> n = length (blocks evs)) \<and> barrier (trace d')"
proof -
  obtain n where s: "step d (\<forall>e. st \<noteq> Returned (Err e)) d'
      (concat (map (acks_whole process AutoCommit) (take n (blocks evs))))"
    and ok: "list_all (\<lambda>b. is_ok (process b)) (take n (blocks evs))"
    and n: "(\<forall>e. st \<noteq> Returned (Err e)) \<longrightarrow> n = length (blocks evs)"
    using whole.run_step [OF assms(1) [unfolded run_workbatch_def]] by blast
  have "acks_whole process AutoCommit b = [commit_tokens b]" if "is_ok (process b)" for b
    using that assms(3) by (cases "process b") (auto simp: acks_whole_def)
  with ok have "map (acks_whole process AutoCommit) (take n (blocks evs)) = map (\<lambda>b. [commit_tokens b]) (take n (blocks evs))"
    by (simp add: list_all_iff)
  then have "concat (map (acks_whole process AutoCommit) (take n (blocks evs))) = map commit_tokens (take n (blocks evs))"
    by (simp only: concat_map_single)
  with step_from_empty [OF s assms(2)] n show ?thesis by metis
qed

text \<open>C2. Whole-batch run loop, engine-managed commit: for any source, sink, DLQ route,
  ticker and shutdown behaviour, and any \<open>process\<close> that preserves the commit tokens, the
  tokens successfully committed are exactly the input tokens of an initial segment of the
  received blocks, in order and once each; the segment is all of them unless the loop
  stopped with an error; and after the first failed route, sink call or commit nothing but
  lease releases happens (the ack barrier).\<close>

theorem whole_run_commits_prefix:
  assumes "run_workbatch app pol process AutoCommit evs d = (d', st)" and "trace d = []"
    and "\<And>b out. process b = Ok out \<Longrightarrow> commit_tokens out = commit_tokens b"
  shows "\<exists>n. committed (trace d') = concat (map commit_tokens (take n (blocks evs)))
    \<and> ((\<forall>e. st \<noteq> Returned (Err e)) \<longrightarrow> n = length (blocks evs))
    \<and> barrier (trace d')"
  using whole_run_commits [OF assms] by (metis committed_commits)

definition demo_app :: "(nat, nat) app" where
  "demo_app = \<lparr>route_fn = (\<lambda>w es. (w, Ok ())),
     sink_fn = (\<lambda>w b. (w + length (records b), if w < 3 then Ok () else Err (SinkError ''full''))),
     commit_fn = (\<lambda>w ts. (w, Ok ())), tick_fn = (\<lambda>w. (w, Ok ()))\<rparr>"

definition demo_events :: "nat run_event list" where
  "demo_events = map (\<lambda>t. Received (Ok (wb_new [bare_record Json [1], bare_record Json [2, 3]] [t]))) [7, 8, 9]"

theorem whole_run_commits_prefix_witness:
  "\<exists>n. committed (trace (fst (run_workbatch demo_app Reject Ok AutoCommit demo_events
        \<lparr>world = 0, mem_guard = None, trace = []\<rparr>)))
      = concat (map commit_tokens (take n (blocks demo_events)))"
  using whole_run_commits_prefix [of demo_app Reject Ok demo_events "\<lparr>world = 0, mem_guard = None, trace = []\<rparr>"]
  by (cases "run_workbatch demo_app Reject Ok AutoCommit demo_events \<lparr>world = 0, mem_guard = None, trace = []\<rparr>") auto

text \<open>C3. Streaming run loop: the same, for any \<open>process\<close> at all, because the block's
  tokens are set aside before the sub-blocks are processed.\<close>

theorem streaming_run_commits_prefix:
  assumes "run_workbatch_streaming app pol process AutoCommit sub_block_bytes evs d = (d', st)" and "trace d = []"
  shows "\<exists>n. committed (trace d') = concat (map commit_tokens (take n (blocks evs)))
    \<and> ((\<forall>e. st \<noteq> Returned (Err e)) \<longrightarrow> n = length (blocks evs))
    \<and> barrier (trace d')"
proof -
  have "run_loop app pol (drive_block_streaming app pol process AutoCommit sub_block_bytes) evs d = (d', st)"
    using assms(1) by (simp add: run_workbatch_streaming_def)
  from streaming.run_step [OF this] obtain n where
    s: "step d (\<forall>e. st \<noteq> Returned (Err e)) d' (map commit_tokens (take n (blocks evs)))"
    and n: "(\<forall>e. st \<noteq> Returned (Err e)) \<longrightarrow> n = length (blocks evs)"
    by (auto simp: concat_map_single)
  with step_from_empty [OF s assms(2)] show ?thesis by (metis committed_commits)
qed

theorem streaming_run_commits_prefix_witness:
  "\<exists>n. committed (trace (fst (run_workbatch_streaming demo_app Reject Ok AutoCommit 1 demo_events
        \<lparr>world = 0, mem_guard = None, trace = []\<rparr>)))
      = concat (map commit_tokens (take n (blocks demo_events)))"
  using streaming_run_commits_prefix [of demo_app Reject Ok 1 demo_events "\<lparr>world = 0, mem_guard = None, trace = []\<rparr>"]
  by (cases "run_workbatch_streaming demo_app Reject Ok AutoCommit 1 demo_events \<lparr>world = 0, mem_guard = None, trace = []\<rparr>") auto

subsection \<open>One block in full\<close>

fun is_action :: "'t effect \<Rightarrow> bool" where
  "is_action (ELease _) = False" | "is_action (ERelease _) = False" | "is_action _ = True"

definition actions :: "('w, 't) driver \<Rightarrow> 't effect list" where
  "actions d = filter is_action (trace d)"

lemma sunk_filter: "sunk (filter is_action tr) = sunk tr"
proof (induction tr)
  case (Cons e tr)
  then show ?case by (cases e) simp_all
qed simp

lemma actions_emit [simp]: "actions (emit e d) = actions d @ (if is_action e then [e] else [])"
  by (simp add: actions_def emit_def)

lemma actions_fields [simp]:
  "actions (d\<lparr>world := w\<rparr>) = actions d" "actions (d\<lparr>mem_guard := g\<rparr>) = actions d"
  by (simp_all add: actions_def)

lemma actions_drop_lease [simp]: "actions (drop_lease l d) = actions d"
  by (auto simp: drop_lease_def split: option.splits)

lemma actions_lease: "lease_ingress_batch b d = (d', l) \<Longrightarrow> actions d' = actions d"
  by (auto simp: lease_ingress_batch_def Let_def split: option.splits)

definition dlq_action :: "filter_dlq_policy \<Rightarrow> dlq_entry list \<Rightarrow> 't effect list" where
  "dlq_action pol es = (if es = [] then [] else case pol of
     Route \<Rightarrow> [ERoute es True] | DiscardWithMetric \<Rightarrow> [EDiscard (length es)] | Reject \<Rightarrow> [])"

lemma sunk_dlq_action [simp]: "sunk (dlq_action pol es) = []"
  by (auto simp: dlq_action_def split: filter_dlq_policy.splits)

lemma actions_route:
  "route_dlq_entries app pol es d = (d', Ok u) \<Longrightarrow> actions d' = actions d @ dlq_action pol es \<and> (es = [] \<or> pol \<noteq> Reject)"
  by (cases pol) (auto simp: route_dlq_entries_def dlq_action_def split: if_splits prod.splits)

lemma actions_sink: "call_sink app b d = (d', Ok u) \<Longrightarrow> actions d' = actions d @ [ESink b True]"
  by (auto simp: call_sink_def split: prod.splits)

lemma actions_commit: "call_commit app mode ts d = (d', Ok u) \<Longrightarrow>
    actions d' = actions d @ (if mode = AutoCommit then [ECommit ts True] else [])"
  by (cases mode) (auto simp: call_commit_def split: prod.splits sum.splits)

lemma drive_block_actions:
  assumes "drive_block app pol process mode b d = (d', Ok ())" and "process b = Ok out"
  shows "actions d' = actions d @ dlq_action pol (dlq_entries out)
      @ (if records out = [] then [] else [ESink (out\<lparr>dlq_entries := []\<rparr>) True])
      @ (if mode = AutoCommit then [ECommit (commit_tokens out) True] else [])
    \<and> (dlq_entries out = [] \<or> pol \<noteq> Reject)"
proof -
  obtain d1 l where l: "lease_ingress_batch b d = (d1, l)" by (cases "lease_ingress_batch b d")
  obtain d4 where body: "drive_body app pol process mode b d1 = (d4, Ok ())" and d': "d' = drop_lease l d4"
    using assms(1) l by (auto simp: drive_block_def split: prod.splits)
  obtain d2 u2 where rt: "route_dlq_entries app pol (dlq_entries out) d1 = (d2, Ok u2)"
    and rest: "(case (if records out \<noteq> [] then call_sink app (out\<lparr>dlq_entries := []\<rparr>) d2 else (d2, Ok ())) of
                  (d3, Inl e) \<Rightarrow> (d3, Err e)
                | (d3, Inr _) \<Rightarrow> call_commit app mode (commit_tokens out) d3) = (d4, Ok ())"
    using body assms(2) by (cases "dlq_entries out = []")
      (auto simp: drive_body_def Let_def route_dlq_entries_def split: prod.splits sum.splits if_splits)
  obtain d3 u3 where sk: "(if records out \<noteq> [] then call_sink app (out\<lparr>dlq_entries := []\<rparr>) d2 else (d2, Ok ())) = (d3, Ok u3)"
    and cm: "call_commit app mode (commit_tokens out) d3 = (d4, Ok ())"
    using rest by (auto split: prod.splits sum.splits)
  have "actions d3 = actions d2 @ (if records out = [] then [] else [ESink (out\<lparr>dlq_entries := []\<rparr>) True])"
    using sk actions_sink by (auto split: if_splits)
  with actions_lease [OF l] actions_route [OF rt] actions_commit [OF cm] d' show ?thesis by simp
qed

text \<open>A block that \<open>drive_block\<close> reports as done has, in this order: its process-generated
  dead letters routed (or discarded by an explicit policy), its whole output batch sunk
  unless there is nothing to send, and, under \<open>Auto\<close>, one commit of the output batch's
  tokens; under \<open>SinkManaged\<close> the engine commits nothing.\<close>

theorem drive_block_done:
  assumes "drive_block app pol process mode b d = (d', Ok ())" and "process b = Ok out"
  shows "actions d' = actions d @ dlq_action pol (dlq_entries out)
      @ (if records out = [] then [] else [ESink (out\<lparr>dlq_entries := []\<rparr>) True])
      @ (if mode = AutoCommit then [ECommit (commit_tokens out) True] else [])
    \<and> (dlq_entries out = [] \<or> pol \<noteq> Reject)"
  using assms by (rule drive_block_actions)

theorem drive_block_done_witness:
  "actions (fst (drive_block demo_app Reject Ok AutoCommit (wb_new [bare_record Json [1]] [5])
      \<lparr>world = 0, mem_guard = None, trace = []\<rparr>))
   = [ESink (wb_new [bare_record Json [1]] [5]) True, ECommit [5] True]"
  using drive_block_done [of demo_app Reject Ok AutoCommit "wb_new [bare_record Json [1]] [5]"
      "\<lparr>world = 0, mem_guard = None, trace = []\<rparr>"]
  by (simp add: drive_block_def drive_body_def lease_ingress_batch_def drop_lease_def call_sink_def call_commit_def
      demo_app_def wb_new_def actions_def dlq_action_def emit_def)

subsection \<open>Sub-blocks\<close>

definition block_bytes :: "wrecord list \<Rightarrow> u64" where
  "block_bytes rs = foldl saturating_add 0 (map payload_len rs)"

lemma block_bytes_total: "total_payload_bytes (from_records rs) = block_bytes rs"
  by (simp add: total_payload_bytes_def block_bytes_def from_records_def)

lemma saturating_add_0 [simp]: "saturating_add 0 n = n"
  by (simp add: saturating_add_def)

lemma block_bytes_snoc: "block_bytes (rs @ [r]) = saturating_add (block_bytes rs) (payload_len r)"
  by (simp add: block_bytes_def)

lemma pull_fits:
  "pull target n cur rs = (cur', p, rest) \<Longrightarrow> n = block_bytes cur \<Longrightarrow> cur \<noteq> [] \<Longrightarrow>
     (length cur = 1 \<or> block_bytes cur \<le> target) \<Longrightarrow>
     (length cur' = 1 \<or> block_bytes cur' \<le> target)
     \<and> (\<forall>r. p = Some r \<longrightarrow> target < block_bytes (cur' @ [r]))"
  by (induction target n cur rs rule: pull.induct) (auto simp: block_bytes_snoc split: if_splits)

lemma next_sub_block_fits:
  assumes "next_sub_block s = (s', Some blk)"
  shows "(length blk = 1 \<or> block_bytes blk \<le> target_bytes s)
    \<and> (\<forall>r rs. drain_pending s' = r # rs \<longrightarrow> target_bytes s < block_bytes (blk @ [r]))"
proof -
  obtain first rest where f: "drain_pending s = first # rest"
    and step: "(case pull (target_bytes s) (payload_len first) [first] rest of
        (current, p', rest') \<Rightarrow> (s\<lparr>iter := rest', peeked := p'\<rparr>, Some current)) = (s', Some blk)"
    using assms by (cases "peeked s"; cases "iter s") (auto simp: next_sub_block_def drain_pending_def)
  obtain p' rest' where p: "pull (target_bytes s) (payload_len first) [first] rest = (blk, p', rest')"
    and s': "s' = s\<lparr>iter := rest', peeked := p'\<rparr>"
    using step by (auto split: prod.splits)
  have "payload_len first = block_bytes [first]" by (simp add: block_bytes_def)
  note pull_fits [OF p this] pull_split [OF p]
  then show ?thesis using s' by (auto simp: drain_pending_def split: option.splits)
qed

lemma next_sub_block_None: "next_sub_block s = (s', None) \<longleftrightarrow> drain_pending s = [] \<and> s' = s"
  by (cases "peeked s"; cases "iter s")
    (auto simp: next_sub_block_def drain_pending_def split: prod.splits)

function collect_sub_blocks :: "sub_block_drain \<Rightarrow> wrecord list list" where
  "collect_sub_blocks s = (case next_sub_block s of (s', None) \<Rightarrow> [] | (s', Some blk) \<Rightarrow> blk # collect_sub_blocks s')"
  by pat_completeness auto
termination
  by (relation "measure (\<lambda>s. length (drain_pending s))") (simp, simp only: in_measure next_sub_block_decreases)

declare collect_sub_blocks.simps [simp del]

definition split_into_sub_blocks :: "wrecord list \<Rightarrow> u64 \<Rightarrow> wrecord list list" where
  "split_into_sub_blocks rs target = collect_sub_blocks (drain_new rs target)"

fun greedy :: "u64 \<Rightarrow> wrecord list list \<Rightarrow> bool" where
  "greedy target (b # c # bs) \<longleftrightarrow> c \<noteq> [] \<and> target < block_bytes (b @ [hd c]) \<and> greedy target (c # bs)"
| "greedy target _ \<longleftrightarrow> True"

lemma collect_spec:
  "concat (collect_sub_blocks s) = drain_pending s
   \<and> list_all (\<lambda>b. b \<noteq> [] \<and> (length b = 1 \<or> block_bytes b \<le> target_bytes s)) (collect_sub_blocks s)
   \<and> greedy (target_bytes s) (collect_sub_blocks s)"
proof (induction s rule: collect_sub_blocks.induct)
  case (1 s)
  obtain s' ob where n: "next_sub_block s = (s', ob)" by (cases "next_sub_block s")
  show ?case
  proof (cases ob)
    case None
    with n have "collect_sub_blocks s = []" by (subst collect_sub_blocks.simps) simp
    with n None show ?thesis by (simp add: next_sub_block_None)
  next
    case (Some blk)
    note nb = next_sub_block_Some [OF n [unfolded Some]] and fits = next_sub_block_fits [OF n [unfolded Some]]
    have eq: "collect_sub_blocks s = blk # collect_sub_blocks s'"
      using n Some by (subst collect_sub_blocks.simps) simp
    have IH: "concat (collect_sub_blocks s') = drain_pending s'"
      "list_all (\<lambda>b. b \<noteq> [] \<and> (length b = 1 \<or> block_bytes b \<le> target_bytes s)) (collect_sub_blocks s')"
      "greedy (target_bytes s) (collect_sub_blocks s')"
      using "1.IH" [OF n [symmetric] Some] nb(3) by simp_all
    have "greedy (target_bytes s) (blk # collect_sub_blocks s')"
    proof (cases "collect_sub_blocks s'")
      case (Cons c cs)
      with IH(2) have "c \<noteq> []" by simp
      then have "\<exists>rs. drain_pending s' = hd c # rs"
        using IH(1) [symmetric] Cons by (cases c) auto
      with fits IH(3) Cons \<open>c \<noteq> []\<close> show ?thesis by auto
    qed simp
    with eq IH nb fits show ?thesis by simp
  qed
qed

text \<open>The sub-blocks of a batch are its records cut in order into non-empty pieces; a
  piece is over the byte target only if it is a single record, and each piece is as long as
  the target allows.\<close>

theorem sub_blocks_exact:
  "concat (split_into_sub_blocks rs target) = rs
   \<and> list_all (\<lambda>b. b \<noteq> [] \<and> (length b = 1 \<or> block_bytes b \<le> target)) (split_into_sub_blocks rs target)
   \<and> greedy target (split_into_sub_blocks rs target)"
  using collect_spec [of "drain_new rs target"]
  by (simp add: split_into_sub_blocks_def drain_new_def drain_pending_def)

subsection \<open>Streaming delivers what the whole batch would\<close>

lemma trace_drop_lease: "\<exists>ext. trace (drop_lease l d) = trace d @ ext \<and> sunk ext = []"
  by (auto simp: drop_lease_def emit_def split: option.splits)

lemma trace_lease: "lease_ingress_batch b d = (d', l) \<Longrightarrow> \<exists>ext. trace d' = trace d @ ext \<and> sunk ext = []"
  by (auto simp: lease_ingress_batch_def emit_def Let_def split: option.splits)

lemma trace_route: "route_dlq_entries app pol es d = (d', r) \<Longrightarrow> \<exists>ext. trace d' = trace d @ ext \<and> sunk ext = []"
  by (cases pol) (auto simp: route_dlq_entries_def emit_def split: if_splits prod.splits)

lemma stream_blocks_Ok:
  assumes "stream_blocks app pol process s d = (d', Ok u)" and "next_sub_block s = (s', Some blk)"
  obtains out d1 l d2 u2 d3 u3 where "process (from_records blk) = Ok out"
    "lease_ingress_batch (from_records blk) d = (d1, l)"
    "route_dlq_entries app pol (dlq_entries out) d1 = (d2, Ok u2)"
    "call_sink app (out\<lparr>dlq_entries := []\<rparr>) d2 = (d3, Ok u3)"
    "stream_blocks app pol process s' (drop_lease l d3) = (d', Ok u)"
proof -
  obtain d1 l where l: "lease_ingress_batch (from_records blk) d = (d1, l)"
    by (cases "lease_ingress_batch (from_records blk) d")
  obtain out where out: "process (from_records blk) = Ok out"
    using assms l by (cases "process (from_records blk)") (auto simp: stream_blocks.simps [of app pol process s d])
  have rt: "(if dlq_entries out \<noteq> [] then route_dlq_entries app pol (dlq_entries out) d1 else (d1, Ok ()))
      = route_dlq_entries app pol (dlq_entries out) d1"
    by (simp add: route_dlq_entries_def)
  obtain d2 u2 where r: "route_dlq_entries app pol (dlq_entries out) d1 = (d2, Ok u2)"
    using assms l out by (cases "route_dlq_entries app pol (dlq_entries out) d1"; cases "snd (route_dlq_entries app pol (dlq_entries out) d1)")
      (auto simp: stream_blocks.simps [of app pol process s d] Let_def rt)
  obtain d3 u3 where k: "call_sink app (out\<lparr>dlq_entries := []\<rparr>) d2 = (d3, Ok u3)"
    using assms l out r by (cases "call_sink app (out\<lparr>dlq_entries := []\<rparr>) d2"; cases "snd (call_sink app (out\<lparr>dlq_entries := []\<rparr>) d2)")
      (auto simp: stream_blocks.simps [of app pol process s d] Let_def rt)
  have "stream_blocks app pol process s' (drop_lease l d3) = (d', Ok u)"
    using assms l out r k by (simp add: stream_blocks.simps [of app pol process s d] Let_def rt)
  with out l r k show ?thesis by (rule that)
qed

definition record_wise :: "('t work_batch \<Rightarrow> ('t work_batch, engine_error) result) \<Rightarrow> (wrecord \<Rightarrow> wrecord list) \<Rightarrow> bool" where
  "record_wise process f \<longleftrightarrow> (\<forall>b out. process b = Ok out \<longrightarrow> records out = concat (map f (records b)))"

lemma stream_blocks_sunk:
  assumes "record_wise process f"
  shows "stream_blocks app pol process s d = (d', Ok u) \<Longrightarrow>
    \<exists>ext. trace d' = trace d @ ext \<and> sunk ext = concat (map f (drain_pending s))"
proof (induction "length (drain_pending s)" arbitrary: s d rule: less_induct)
  case less
  obtain s' ob where n: "next_sub_block s = (s', ob)" by (cases "next_sub_block s")
  show ?case
  proof (cases ob)
    case None
    with less.prems n show ?thesis
      using n [unfolded None next_sub_block_None] by (auto simp: stream_blocks.simps [of app pol process s d])
  next
    case (Some blk)
    note nb = next_sub_block_Some [OF n [unfolded Some]]
    obtain out d1 l d2 u2 d3 u3 where st: "process (from_records blk) = Ok out"
      "lease_ingress_batch (from_records blk) d = (d1, l)"
      "route_dlq_entries app pol (dlq_entries out) d1 = (d2, Ok u2)"
      "call_sink app (out\<lparr>dlq_entries := []\<rparr>) d2 = (d3, Ok u3)"
      "stream_blocks app pol process s' (drop_lease l d3) = (d', Ok u)"
      using stream_blocks_Ok [OF less.prems n [unfolded Some]] .
    have "trace d3 = trace d2 @ [ESink (out\<lparr>dlq_entries := []\<rparr>) True]"
      using st(4) by (auto simp: call_sink_def emit_def split: prod.splits)
    moreover have "records out = concat (map f blk)"
      using assms st(1) by (auto simp: record_wise_def from_records_def)
    moreover have "length (drain_pending s') < length (drain_pending s)"
      using next_sub_block_decreases [of s' blk s] n Some by simp
    note less.hyps [OF this st(5)]
    moreover note trace_lease [OF st(2)] trace_route [OF st(3)] trace_drop_lease [of l d3]
    ultimately show ?thesis
      using nb(1) [symmetric] by (elim exE conjE) simp
  qed
qed

text \<open>C22. For a record-wise \<open>process\<close> (each record is transformed, dropped or fanned out on
  its own), a streaming block that succeeds has sunk exactly the records, in order, that a
  successful whole-batch block sinks, for every sub-block size; and both commit the input
  tokens once.\<close>

theorem streaming_delivers_the_same:
  assumes "record_wise process f" and "\<And>b out. process b = Ok out \<Longrightarrow> commit_tokens out = commit_tokens b"
    and "drive_block app pol process AutoCommit b \<lparr>world = w, mem_guard = g, trace = []\<rparr> = (d1, Ok ())"
    and "drive_block_streaming app pol process AutoCommit n b \<lparr>world = w', mem_guard = g', trace = []\<rparr> = (d2, Ok ())"
  shows "sunk (trace d1) = concat (map f (records b)) \<and> sunk (trace d2) = sunk (trace d1)
    \<and> committed (trace d1) = commit_tokens b \<and> committed (trace d2) = commit_tokens b"
proof -
  let ?d1 = "\<lparr>world = w, mem_guard = g, trace = []\<rparr>" and ?d2 = "\<lparr>world = w', mem_guard = g', trace = []\<rparr>"
  obtain out where out: "process b = Ok out"
    using drive_block_accepts [OF assms(3)] by (cases "process b") auto
  have "sunk (actions d1) = records out"
    using conjunct1 [OF drive_block_actions [OF assms(3) out]] by (simp add: actions_def)
  then have s1: "sunk (trace d1) = concat (map f (records b))"
    using assms(1) out by (auto simp: record_wise_def actions_def sunk_filter)
  obtain ds where st: "stream_blocks app pol process (drain_new (records b) n) ?d2 = (ds, Ok ())"
    and cm: "call_commit app AutoCommit (commit_tokens b) ds = (d2, Ok ())"
    using assms(4) by (auto simp: drive_block_streaming_def split: prod.splits sum.splits)
  have "trace d2 = trace ds @ [ECommit (commit_tokens b) True]"
    using cm by (auto simp: call_commit_def emit_def split: prod.splits sum.splits)
  then have s2: "sunk (trace d2) = concat (map f (records b))"
    using stream_blocks_sunk [OF assms(1) st] by (auto simp: drain_new_def drain_pending_def)
  have c1: "committed (trace d1) = commit_tokens b"
    using step_from_empty [OF step_drive_block [OF assms(3)]] out assms(2) by (simp add: acks_whole_def committed_commits)
  have c2: "committed (trace d2) = commit_tokens b"
    using step_from_empty [OF step_drive_block_streaming [OF assms(4)]] by (simp add: committed_commits)
  from s1 s2 c1 c2 show ?thesis by simp
qed

lemma demo_stream:
  "drive_block_streaming demo_app Reject Ok AutoCommit 1 (wb_new [bare_record Json [1]] [5])
      \<lparr>world = 0, mem_guard = None, trace = []\<rparr>
   = (\<lparr>world = 1, mem_guard = None, trace = [ESink (from_records [bare_record Json [1]]) True, ECommit [5] True]\<rparr>, Ok ())"
proof -
  have "stream_blocks demo_app Reject Ok \<lparr>iter = [], peeked = None, target_bytes = 1\<rparr> d = (d, Ok ())" for d
    by (subst stream_blocks.simps) (simp add: next_sub_block_def)
  moreover have "stream_blocks demo_app Reject Ok \<lparr>iter = [bare_record Json [1]], peeked = None, target_bytes = 1\<rparr> d
      = (let (d', r) = call_sink demo_app (from_records [bare_record Json [1]]) d in
         case r of Inl e \<Rightarrow> (d', Err e)
         | Inr _ \<Rightarrow> stream_blocks demo_app Reject Ok \<lparr>iter = [], peeked = None, target_bytes = 1\<rparr> d')"
    if "mem_guard d = None" for d
    using that by (subst stream_blocks.simps)
      (simp add: next_sub_block_def lease_ingress_batch_def from_records_def drop_lease_def Let_def split: prod.split sum.split)
  ultimately show ?thesis
    by (simp add: drive_block_streaming_def drain_new_def wb_new_def call_sink_def call_commit_def demo_app_def
        emit_def from_records_def)
qed

theorem streaming_delivers_the_same_witness:
  "sunk (trace (fst (drive_block_streaming demo_app Reject Ok AutoCommit 1 (wb_new [bare_record Json [1]] [5])
      \<lparr>world = 0, mem_guard = None, trace = []\<rparr>))) = [bare_record Json [1]]"
proof -
  have "drive_block demo_app Reject Ok AutoCommit (wb_new [bare_record Json [1]] [5]) \<lparr>world = 0, mem_guard = None, trace = []\<rparr>
      = (\<lparr>world = 1, mem_guard = None, trace = [ESink (wb_new [bare_record Json [1]] [5]) True, ECommit [5] True]\<rparr>, Ok ())"
    by (simp add: drive_block_def drive_body_def lease_ingress_batch_def drop_lease_def call_sink_def
        call_commit_def demo_app_def wb_new_def emit_def)
  from streaming_delivers_the_same [of Ok "\<lambda>r. [r]", OF _ _ this demo_stream] show ?thesis
    unfolding demo_stream by (simp add: record_wise_def wb_new_def from_records_def)
qed

subsection \<open>Peak memory of the streaming path\<close>

text \<open>The outstanding lease along a history never exceeds \<open>B\<close>, and what is outstanding after it.\<close>

fun peak_within :: "nat \<Rightarrow> nat \<Rightarrow> 't effect list \<Rightarrow> bool" where
  "peak_within B cur [] = True"
| "peak_within B cur (ELease n # tr) = (cur + unat n \<le> B \<and> peak_within B (cur + unat n) tr)"
| "peak_within B cur (ERelease n # tr) = peak_within B (cur - unat n) tr"
| "peak_within B cur (e # tr) = peak_within B cur tr"

fun after :: "nat \<Rightarrow> 't effect list \<Rightarrow> nat" where
  "after cur [] = cur"
| "after cur (ELease n # tr) = after (cur + unat n) tr"
| "after cur (ERelease n # tr) = after (cur - unat n) tr"
| "after cur (e # tr) = after cur tr"

lemma peak_within_append: "peak_within B cur (xs @ ys) \<longleftrightarrow> peak_within B cur xs \<and> peak_within B (after cur xs) ys"
  by (induction B cur xs rule: peak_within.induct) auto

lemma after_append: "after cur (xs @ ys) = after (after cur xs) ys"
  by (induction cur xs rule: after.induct) auto

text \<open>No lease is open before or after, the peak stays within \<open>B\<close>, and the guard is back where it was.\<close>

definition balanced_leases :: "nat \<Rightarrow> ('w, 't) driver \<Rightarrow> ('w, 't) driver \<Rightarrow> bool" where
  "balanced_leases B d d' \<longleftrightarrow> (\<exists>ext. trace d' = trace d @ ext \<and> peak_within B 0 ext \<and> after 0 ext = 0
     \<and> map_option mg_current (mem_guard d') = map_option mg_current (mem_guard d))"

lemma balanced_leases_trans: "balanced_leases B d d1 \<Longrightarrow> balanced_leases B d1 d2 \<Longrightarrow> balanced_leases B d d2"
  unfolding balanced_leases_def by (elim exE conjE) (simp add: peak_within_append after_append)

definition lease_free :: "('w, 't) driver \<Rightarrow> ('w, 't) driver \<Rightarrow> bool" where
  "lease_free d d' \<longleftrightarrow> (\<exists>ext. trace d' = trace d @ ext \<and> (\<forall>B cur. peak_within B cur ext \<and> after cur ext = cur)
     \<and> mem_guard d' = mem_guard d)"

lemma lease_free_trans: "lease_free d d1 \<Longrightarrow> lease_free d1 d2 \<Longrightarrow> lease_free d d2"
  unfolding lease_free_def by (elim exE conjE) (simp add: peak_within_append after_append)

lemma lease_free_refl [simp]: "lease_free d d"
  by (simp add: lease_free_def)

lemma lease_free_balanced: "lease_free d d' \<Longrightarrow> balanced_leases B d d'"
  unfolding lease_free_def balanced_leases_def by (elim exE conjE) simp

lemma lease_free_route: "route_dlq_entries app pol es d = (d', r) \<Longrightarrow> lease_free d d'"
  by (cases pol) (auto simp: route_dlq_entries_def lease_free_def emit_def split: if_splits prod.splits)

lemma lease_free_sink: "call_sink app b d = (d', r) \<Longrightarrow> lease_free d d'"
  by (auto simp: call_sink_def lease_free_def emit_def split: prod.splits)

lemma lease_free_commit: "call_commit app mode ts d = (d', r) \<Longrightarrow> lease_free d d'"
  by (cases mode) (auto simp: call_commit_def lease_free_def emit_def split: prod.splits)

text \<open>One leased section, whatever happens inside.\<close>

lemma leased_section:
  assumes "lease_ingress_batch b d = (d1, l)" and "lease_free d1 d2"
    and "unat (total_payload_bytes b) \<le> B"
    and "\<And>g. mem_guard d = Some g \<Longrightarrow> unat (mg_current g) + B < 2 ^ 64"
  shows "balanced_leases B d (drop_lease l d2)"
proof (cases "mem_guard d")
  case None
  then have "l = None" "d1 = d" using assms(1) by (auto simp: lease_ingress_batch_def)
  then show ?thesis using assms(2) by (simp add: drop_lease_def lease_free_balanced)
next
  case (Some g)
  let ?n = "total_payload_bytes b"
  have l: "l = Some ?n" and d1: "trace d1 = trace d @ [ELease ?n]" "mem_guard d1 = Some (add_bytes ?n g)"
    using assms(1) Some by (auto simp: lease_ingress_batch_def Let_def emit_def)
  obtain ext where ext: "trace d2 = trace d1 @ ext" "\<forall>B cur. peak_within B cur ext \<and> after cur ext = cur"
    "mem_guard d2 = mem_guard d1"
    using assms(2) by (auto simp: lease_free_def)
  have "unat (mg_current g) + unat ?n < 2 ^ 64" using assms(3) assms(4) [OF Some] by linarith
  from mg.credit_debit [OF this] have "mg_current (release ?n (add_bytes ?n g)) = mg_current g" .
  with l d1 ext Some assms(3) show ?thesis
    unfolding balanced_leases_def drop_lease_def
    by (intro exI [of _ "ELease ?n # ext @ [ERelease ?n]"]) (simp add: emit_def peak_within_append after_append)
qed

definition largest_payload :: "wrecord list \<Rightarrow> nat" where
  "largest_payload rs = foldr max (map (\<lambda>r. unat (payload_len r)) rs) 0"

lemma largest_payload_append: "largest_payload (xs @ ys) = max (largest_payload xs) (largest_payload ys)"
  by (induction xs) (auto simp: largest_payload_def)

lemma stream_blocks_leases:
  assumes "max (unat (target_bytes s)) (largest_payload (drain_pending s)) \<le> B"
    and "\<And>g. mem_guard d = Some g \<Longrightarrow> unat (mg_current g) + B < 2 ^ 64"
  shows "balanced_leases B d (fst (stream_blocks app pol process s d))"
  using assms
proof (induction "length (drain_pending s)" arbitrary: s d rule: less_induct)
  case less
  obtain s' ob where n: "next_sub_block s = (s', ob)" by (cases "next_sub_block s")
  show ?case
  proof (cases ob)
    case None
    with n show ?thesis by (simp add: stream_blocks.simps [of app pol process s d] lease_free_balanced)
  next
    case (Some blk)
    note nb = next_sub_block_Some [OF n [unfolded Some]] and fits = next_sub_block_fits [OF n [unfolded Some]]
    have lp: "largest_payload blk \<le> B" "largest_payload (drain_pending s') \<le> B"
      using less.prems(1) largest_payload_append [of blk "drain_pending s'"] nb(1) by simp_all
    have "unat (block_bytes blk) \<le> B"
    proof (cases "length blk = 1")
      case True
      then obtain r where "blk = [r]" by (cases blk) auto
      with lp(1) show ?thesis by (simp add: block_bytes_def largest_payload_def)
    next
      case False
      with fits have "block_bytes blk \<le> target_bytes s" by simp
      with less.prems(1) show ?thesis by (simp add: word_le_nat_alt)
    qed
    then have tot: "unat (total_payload_bytes (from_records blk :: 'b work_batch)) \<le> B"
      by (simp add: block_bytes_total)
    obtain d1 l where l: "lease_ingress_batch (from_records blk) d = (d1, l)"
      by (cases "lease_ingress_batch (from_records blk) d")
    note sec = leased_section [OF l _ tot less.prems(2)]
    show ?thesis
    proof (cases "process (from_records blk)")
      case (Inl e)
      with n Some l sec [of d1] show ?thesis by (simp add: stream_blocks.simps [of app pol process s d])
    next
      case (Inr out)
      have rt: "(if dlq_entries out \<noteq> [] then route_dlq_entries app pol (dlq_entries out) d1 else (d1, Ok ()))
          = route_dlq_entries app pol (dlq_entries out) d1"
        by (simp add: route_dlq_entries_def)
      obtain d2 r2 where d2: "route_dlq_entries app pol (dlq_entries out) d1 = (d2, r2)"
        by (cases "route_dlq_entries app pol (dlq_entries out) d1")
      obtain d3 r3 where d3: "call_sink app (out\<lparr>dlq_entries := []\<rparr>) d2 = (d3, r3)"
        by (cases "call_sink app (out\<lparr>dlq_entries := []\<rparr>) d2")
      note f2 = lease_free_route [OF d2] and f3 = lease_free_trans [OF lease_free_route [OF d2] lease_free_sink [OF d3]]
      have eq: "stream_blocks app pol process s d = (case r2 of Inl e \<Rightarrow> (drop_lease l d2, Err e) | Inr _ \<Rightarrow>
          (case r3 of Inl e \<Rightarrow> (drop_lease l d3, Err e) | Inr _ \<Rightarrow> stream_blocks app pol process s' (drop_lease l d3)))"
        using n Some l Inr d2 d3 by (subst stream_blocks.simps) (cases r2; simp add: Let_def rt)
      note b3 = sec [OF f3]
      have guard: "unat (mg_current g) + B < 2 ^ 64" if "mem_guard (drop_lease l d3) = Some g" for g
        using that b3 less.prems(2) by (cases "mem_guard d") (auto simp: balanced_leases_def)
      have "length (drain_pending s') < length (drain_pending s)"
        using next_sub_block_decreases [of s' blk s] n Some by simp
      from less.hyps [OF this _ guard] have "balanced_leases B (drop_lease l d3) (fst (stream_blocks app pol process s' (drop_lease l d3)))"
        using lp(2) less.prems(1) nb(3) by simp
      with b3 sec [OF f2] eq show ?thesis
        by (cases r2; cases r3) (auto intro: balanced_leases_trans)
    qed
  qed
qed

text \<open>C21. Peak memory of a streaming block: at any point of its history, also when it fails
  half way, the bytes leased by it are at most the sub-block target, or the largest single
  record if that is bigger; on return every lease is released and the memory guard's count
  is what it was, provided that peak fits the 64-bit counter.\<close>

theorem streaming_peak_bounded:
  assumes "drive_block_streaming app pol process mode target b d = (d', r)"
    and "mem_guard d = Some g"
    and "unat (mg_current g) + max (unat target) (largest_payload (records b)) < 2 ^ 64"
  shows "\<exists>ext. trace d' = trace d @ ext
    \<and> peak_within (max (unat target) (largest_payload (records b))) 0 ext \<and> after 0 ext = 0
    \<and> (\<exists>g'. mem_guard d' = Some g' \<and> mg_current g' = mg_current g)"
proof -
  let ?B = "max (unat target) (largest_payload (records b))"
  let ?s = "drain_new (records b) target"
  obtain d1 r1 where s: "stream_blocks app pol process ?s d = (d1, r1)"
    by (cases "stream_blocks app pol process ?s d")
  have "balanced_leases ?B d d1"
    using stream_blocks_leases [of ?s ?B d app pol process] assms(2,3) s
    by (simp add: drain_new_def drain_pending_def)
  moreover have "lease_free d1 d'"
  proof (cases r1)
    case (Inl e)
    with assms(1) s show ?thesis by (simp add: drive_block_streaming_def)
  next
    case (Inr u)
    with assms(1) s have "call_commit app mode (commit_tokens b) d1 = (d', r)"
      by (simp add: drive_block_streaming_def)
    then show ?thesis by (rule lease_free_commit)
  qed
  ultimately have "balanced_leases ?B d d'"
    using lease_free_balanced balanced_leases_trans by blast
  then show ?thesis using assms(2) by (auto simp: balanced_leases_def)
qed

theorem streaming_peak_bounded_witness:
  "\<exists>g'. mem_guard (fst (drive_block_streaming demo_app Reject Ok AutoCommit 4
      (wb_new [bare_record Json [1, 2], bare_record Json [3]] [5])
      \<lparr>world = 0, mem_guard = Some \<lparr>mg_current = 6, mg_limit = 100, mg_threshold = Fin 1, mg_under_pressure = False\<rparr>, trace = []\<rparr>))
     = Some g' \<and> mg_current g' = 6"
  using streaming_peak_bounded [OF prod.collapse [symmetric], of
      "\<lparr>world = 0, mem_guard = Some \<lparr>mg_current = 6, mg_limit = 100, mg_threshold = Fin 1, mg_under_pressure = False\<rparr>, trace = []\<rparr>"
      "\<lparr>mg_current = 6, mg_limit = 100, mg_threshold = Fin 1, mg_under_pressure = False\<rparr>"
      4 "wb_new [bare_record Json [1, 2], bare_record Json [3]] [5]" demo_app Reject Ok AutoCommit]
  by (simp add: largest_payload_def wb_new_def bare_record_def payload_len_def)

subsection \<open>The pre-parsed block\<close>

definition parses :: "('j, 'm) codec_lib \<Rightarrow> wrecord \<Rightarrow> (('j, 'm) parsed_payload, codec_error) result" where
  "parses lib r = codec_parse lib (payload r) (format (metadata r))"

definition parse_dlq :: "('j, 'm) codec_lib \<Rightarrow> (codec_error \<Rightarrow> string) \<Rightarrow> wrecord \<Rightarrow> dlq_entry list" where
  "parse_dlq lib show_err r = (case parses lib r of
     Inl e \<Rightarrow> [\<lparr>dlq_payload = payload r, dlq_key = key r, dlq_reason = ''parse error: '' @ show_err e\<rparr>]
   | Inr _ \<Rightarrow> [])"

lemma parse_loop_spec:
  assumes "parse_loop act show_err (map (\<lambda>r. (r, parses lib r)) xs) s (rs, ps, ds) = (s', res)"
  shows "(case res of
      Inr (rs', ps', ds') \<Rightarrow>
        rs' = rs @ filter (\<lambda>r. is_ok (parses lib r)) xs \<and> map Inr ps' = map Inr ps @ map (parses lib) (filter (\<lambda>r. is_ok (parses lib r)) xs)
        \<and> ds' = ds @ (if act = Dlq then concat (map (parse_dlq lib show_err) xs) else [])
        \<and> (act = FailBatch \<longrightarrow> list_all (\<lambda>r. is_ok (parses lib r)) xs)
    | Inl e \<Rightarrow> act = FailBatch \<and> list_ex (\<lambda>r. \<not> is_ok (parses lib r)) xs)"
  using assms
proof (induction xs arbitrary: s rs ps ds)
  case (Cons x xs)
  show ?case
  proof (cases "parses lib x")
    case (Inr p)
    with Cons.IH [of s "rs @ [x]" "ps @ [p]" ds] Cons.prems show ?thesis
      by (auto simp: parse_dlq_def split: sum.splits)
  next
    case (Inl e)
    with Cons.IH Cons.prems show ?thesis
      by (cases act) (fastforce simp: parse_dlq_def split: sum.splits)+
  qed
qed auto

text \<open>The pre-parsed block: the surviving records are exactly those that parse, in order
  and aligned with their parsed payloads; the commit tokens are untouched; under \<open>Dlq\<close>
  every record that does not parse is appended to the dead letters with its payload and
  key, under \<open>Skip\<close> it is dropped, and \<open>parse_block\<close> fails exactly when the action is
  \<open>FailBatch\<close> and some record does not parse.\<close>

theorem parse_block_contract:
  assumes "rayon_ordered par_map" and "parse_block par_map lib show_err eng batch = (eng', res)"
  shows "case res of
      Inr pb \<Rightarrow> pb_records pb = filter (\<lambda>r. is_ok (parses lib r)) (records batch)
        \<and> map Inr (pb_parsed pb) = map (parses lib) (pb_records pb)
        \<and> pb_commit_tokens pb = commit_tokens batch
        \<and> pb_dlq_entries pb = dlq_entries batch @
            (if parse_error_action (eng_config eng) = Dlq
             then concat (map (parse_dlq lib show_err) (records batch)) else [])
        \<and> (parse_error_action (eng_config eng) = FailBatch \<longrightarrow> list_all (\<lambda>r. is_ok (parses lib r)) (records batch))
    | Inl e \<Rightarrow> parse_error_action (eng_config eng) = FailBatch \<and> list_ex (\<lambda>r. \<not> is_ok (parses lib r)) (records batch)"
proof -
  have pm: "map_owned par_map (records batch) (\<lambda>r. (r, codec_parse lib (payload r) (format (metadata r))))
      = map (\<lambda>r. (r, parses lib r)) (records batch)"
    using assms(1) by (simp add: pool_maps_ordered parses_def)
  obtain s res' where p: "parse_loop (parse_error_action (eng_config eng)) show_err
      (map (\<lambda>r. (r, parses lib r)) (records batch)) (eng_stats eng) ([], [], dlq_entries batch) = (s, res')"
    by (cases "parse_loop (parse_error_action (eng_config eng)) show_err
      (map (\<lambda>r. (r, parses lib r)) (records batch)) (eng_stats eng) ([], [], dlq_entries batch)")
  show ?thesis
    using parse_loop_spec [OF p] assms(2) p
    by (auto simp: parse_block_def pm split: sum.splits)
qed

definition demo_codec :: "(nat, nat) codec_lib" where
  "demo_codec = \<lparr>sonic_from_slice = (\<lambda>bs. if length bs < 3 then Ok (length bs) else Err ''bad''),
     rmpv_read_value = (\<lambda>d bs. Err ''no'')\<rparr>"

theorem parse_block_contract_witness:
  "case snd (parse_block map demo_codec (\<lambda>e. ''x'') (with_pool bpc_default)
      (wb_new [bare_record Json [1], bare_record Json [1, 2, 3]] [5 :: nat])) of
     Inr pb \<Rightarrow> pb_records pb = [bare_record Json [1]] \<and> pb_commit_tokens pb = [5] \<and> length (pb_dlq_entries pb) = 1
   | Inl e \<Rightarrow> False"
proof -
  let ?p = "parse_block map demo_codec (\<lambda>e. ''x'') (with_pool bpc_default)
      (wb_new [bare_record Json [1], bare_record Json [1, 2, 3]] [5 :: nat])"
  have "rayon_ordered (map :: (wrecord \<Rightarrow> _) \<Rightarrow> _)" by (simp add: rayon_ordered_def)
  from parse_block_contract [OF this, of demo_codec "\<lambda>e. ''x''" "with_pool bpc_default"
      "wb_new [bare_record Json [1], bare_record Json [1, 2, 3]] [5 :: nat]" "fst ?p" "snd ?p"]
  show ?thesis
    by (auto simp: wb_new_def with_pool_def bpc_default_def parses_def codec_parse_def resolve_format_def bare_record_def
        json_depth_within_def demo_codec_def parse_dlq_def split: sum.splits)
qed

end
