(* ===== verification/Governor.thy ===== *)
theory Governor
  imports Memory_Guard
begin

text \<open>
  \<open>src/governor/\<close>: the pressure sources and their hysteretic latch (\<open>source.rs\<close>), the inbound
  gate that turns the latch into pause and resume edges (\<open>gate.rs\<close>), the AIMD byte budget
  (\<open>budget.rs\<close>), the configuration and the assembled governor (\<open>config.rs\<close>, \<open>runtime.rs\<close>).
  A pressure source is what it answers when sampled, so an operation that samples takes the
  current answers as an argument. The floating-point arithmetic is binary64, with the fused
  multiply-add of the moving averages rounded once.
\<close>

subsection \<open>Pressure sources and the latch\<close>

definition pressure_new :: "f64 \<Rightarrow> f64" where
  "pressure_new v = (if is_nan v then Fin 0 else f64_clamp v (Fin 0) (Fin 1))"

record source =
  src_name :: string
  src_value :: f64
  src_weight :: f64
  src_hard :: bool

definition src_sample :: "source \<Rightarrow> f64" where
  "src_sample s = pressure_new (src_value s)"

definition memory_source :: "u64 option \<Rightarrow> memory_guard \<Rightarrow> source" where
  "memory_source cgroup g = \<lparr>src_name = ''memory'', src_value = pressure_ratio cgroup g, src_weight = Fin 1, src_hard = True\<rparr>"

record hysteresis =
  pause_above :: f64
  resume_below :: f64

definition unit_range :: "f64 \<Rightarrow> bool" where
  "unit_range v \<longleftrightarrow> f64_le (Fin 0) v \<and> f64_le v (Fin 1)"

definition hysteresis_new :: "f64 \<Rightarrow> f64 \<Rightarrow> (hysteresis, string) result" where
  "hysteresis_new p r =
     (if \<not> is_finite p \<or> \<not> is_finite r then Err ''hysteresis bounds must be finite''
      else if \<not> unit_range p \<or> \<not> unit_range r then Err ''hysteresis bounds must be within [0.0, 1.0]''
      else if f64_le p r then Err ''hysteresis requires pause_above > resume_below''
      else Ok \<lparr>pause_above = p, resume_below = r\<rparr>)"

record unified =
  up_hyst :: hysteresis
  up_paused :: bool

definition unified_new :: "hysteresis \<Rightarrow> unified" where
  "unified_new h = \<lparr>up_hyst = h, up_paused = False\<rparr>"

definition soft_weight :: "f64 \<Rightarrow> f64" where
  "soft_weight w = (if is_finite w then f64_clamp w (Fin 0) (Fin 1) else Fin 1)"

fun level_loop :: "source list \<Rightarrow> f64 \<times> f64 \<Rightarrow> f64 \<times> f64" where
  "level_loop [] acc = acc"
| "level_loop (s # ss) (hard_max, soft_max) =
     (let raw = src_sample s in
      level_loop ss (if src_hard s then (f64_max hard_max raw, soft_max)
                     else (hard_max, f64_max soft_max (f64_mul raw (soft_weight (src_weight s))))))"

definition level :: "source list \<Rightarrow> f64" where
  "level ss = (case level_loop ss (Fin 0, Fin 0) of (h, s) \<Rightarrow> f64_max h s)"

definition should_hold :: "source list \<Rightarrow> unified \<Rightarrow> unified \<times> bool" where
  "should_hold ss u =
     (let l = level ss in
      if up_paused u then
        if f64_le l (resume_below (up_hyst u)) then (u\<lparr>up_paused := False\<rparr>, False) else (u, True)
      else if f64_le (pause_above (up_hyst u)) l then (u\<lparr>up_paused := True\<rparr>, True) else (u, False))"

record source_reading =
  rd_name :: string
  rd_raw :: f64
  rd_weight :: f64
  rd_hard :: bool
  rd_effective :: f64

record snapshot =
  snap_sources :: "source_reading list"
  snap_hard_max :: f64
  snap_soft_max :: f64
  snap_level :: f64
  snap_paused :: bool

definition reading :: "source \<Rightarrow> source_reading" where
  "reading s = (let raw = src_sample s in
     \<lparr>rd_name = src_name s, rd_raw = raw, rd_weight = src_weight s, rd_hard = src_hard s,
      rd_effective = (if src_hard s then raw else f64_mul raw (src_weight s))\<rparr>)"

definition snapshot :: "source list \<Rightarrow> unified \<Rightarrow> snapshot" where
  "snapshot ss u =
     (let rs = map reading ss;
          h = fold (\<lambda>r m. if rd_hard r then f64_max m (rd_raw r) else m) rs (Fin 0);
          s = fold (\<lambda>r m. if rd_hard r then m else f64_max m (rd_effective r)) rs (Fin 0)
      in \<lparr>snap_sources = rs, snap_hard_max = h, snap_soft_max = s, snap_level = f64_max h s,
          snap_paused = up_paused u\<rparr>)"

subsection \<open>The inbound gate\<close>

datatype admit = AdmitYes | AdmitHold
datatype actuation = Pause | Resume

record gate =
  paused_edge :: bool
  actuations :: "actuation list"

definition gate_new :: gate where
  "gate_new = \<lparr>paused_edge = False, actuations = []\<rparr>"

definition evaluate_gate :: "source list \<Rightarrow> unified \<times> gate \<Rightarrow> (unified \<times> gate) \<times> admit" where
  "evaluate_gate ss = (\<lambda>(u, g).
     let (u', hold) = should_hold ss u in
     if hold then
       ((u', if paused_edge g then g else \<lparr>paused_edge = True, actuations = actuations g @ [Pause]\<rparr>), AdmitHold)
     else
       ((u', if paused_edge g then \<lparr>paused_edge = False, actuations = actuations g @ [Resume]\<rparr> else g), AdmitYes))"

subsection \<open>The byte budget\<close>

record byte_budget_config =
  start_bytes :: u64
  max_bytes :: u64
  floor_records :: u64
  nominal_record_bytes :: u64
  target_rho :: f64
  ai_step :: u64
  md_factor :: f64
  ema_alpha :: f64
  record_cap :: u64

definition saturating_mul :: "u64 \<Rightarrow> u64 \<Rightarrow> u64" where
  "saturating_mul a b = (if unat a * unat b < 2 ^ 64 then a * b else - 1)"

definition bb_default :: byte_budget_config where
  "bb_default = \<lparr>start_bytes = 8 * 1024 * 1024, max_bytes = 64 * 1024 * 1024, floor_records = 1,
     nominal_record_bytes = 1024, target_rho = f64_round (7 / 10), ai_step = 256 * 1024,
     md_factor = Fin (1 / 2), ema_alpha = f64_round (3 / 10), record_cap = 2000\<rparr>"

definition min_bytes :: "byte_budget_config \<Rightarrow> u64" where
  "min_bytes c = max (saturating_mul (floor_records c) (nominal_record_bytes c)) 1"

definition sanitised :: "byte_budget_config \<Rightarrow> byte_budget_config" where
  "sanitised c =
     (let rho = (if \<not> is_finite (target_rho c) \<or> f64_le (target_rho c) (Fin 0) \<or> f64_le (Fin 1) (target_rho c)
            then f64_round (7 / 10) else target_rho c);
          alpha = (if \<not> is_finite (ema_alpha c) \<or> f64_le (ema_alpha c) (Fin 0) \<or> f64_lt (Fin 1) (ema_alpha c)
            then f64_round (3 / 10) else ema_alpha c);
          md = (if \<not> is_finite (md_factor c) \<or> f64_le (md_factor c) (Fin 0) \<or> f64_le (Fin 1) (md_factor c)
            then Fin (1 / 2) else md_factor c);
          mn = min_bytes c; mx = max (max_bytes c) mn
      in c\<lparr>target_rho := rho, ema_alpha := alpha, md_factor := md, record_cap := max (record_cap c) 1,
           max_bytes := mx, start_bytes := (if start_bytes c < mn then mn else if mx < start_bytes c then mx else start_bytes c)\<rparr>)"

record controller =
  bb_cfg :: byte_budget_config
  ema_process_s :: f64
  ema_ingest_s :: f64
  seeded :: bool
  budget :: u64

definition controller_new :: "byte_budget_config \<Rightarrow> controller" where
  "controller_new c = (let c' = sanitised c in
     \<lparr>bb_cfg = c', ema_process_s = Fin 0, ema_ingest_s = Fin 0, seeded = False, budget = start_bytes c'\<rparr>)"

text \<open>\<open>Duration::as_secs_f64\<close>, of a duration in nanoseconds.\<close>

definition as_secs_f64 :: "nat \<Rightarrow> f64" where
  "as_secs_f64 ns = f64_add (f64_round (of_nat (ns div 1000000000)))
     (f64_div (Fin (of_nat (ns mod 1000000000))) (Fin 1000000000))"

fun f64_mul_add :: "f64 \<Rightarrow> f64 \<Rightarrow> f64 \<Rightarrow> f64" where
  "f64_mul_add (Fin a) (Fin b) (Fin c) = f64_round (a * b + c)"
| "f64_mul_add a b c = f64_add (f64_mul a b) c"

definition additive_increase :: "controller \<Rightarrow> controller" where
  "additive_increase b = b\<lparr>budget := min (saturating_add (budget b) (ai_step (bb_cfg b))) (max_bytes (bb_cfg b))\<rparr>"

fun f64_floor :: "f64 \<Rightarrow> f64" where
  "f64_floor (Fin q) = Fin (of_int \<lfloor>q\<rfloor>)"
| "f64_floor x = x"

definition multiplicative_decrease :: "controller \<Rightarrow> controller" where
  "multiplicative_decrease b =
     (let scaled = f64_to_u64 (f64_floor (f64_mul (f64_of_u64 (budget b)) (md_factor (bb_cfg b))))
      in b\<lparr>budget := max scaled (min_bytes (bb_cfg b))\<rparr>)"

definition fold_ema :: "nat \<Rightarrow> nat \<Rightarrow> controller \<Rightarrow> controller" where
  "fold_ema process_time ingest_interval b =
     (let alpha = ema_alpha (bb_cfg b); p = as_secs_f64 process_time; i = as_secs_f64 ingest_interval in
      if seeded b then
        b\<lparr>ema_process_s := f64_mul_add alpha p (f64_mul (f64_sub (Fin 1) alpha) (ema_process_s b)),
          ema_ingest_s := f64_mul_add alpha i (f64_mul (f64_sub (Fin 1) alpha) (ema_ingest_s b))\<rparr>
      else b\<lparr>seeded := True, ema_process_s := p, ema_ingest_s := i\<rparr>)"

definition F64_EPSILON :: f64 where
  "F64_EPSILON = Fin (1 / 2 ^ 52)"

definition behind :: "controller \<Rightarrow> bool" where
  "behind b = (if f64_le (ema_ingest_s b) F64_EPSILON then f64_lt (Fin 0) (ema_process_s b)
     else f64_lt (target_rho (bb_cfg b)) (f64_div (ema_process_s b) (ema_ingest_s b)))"

definition observe :: "source list \<Rightarrow> u64 \<Rightarrow> nat \<Rightarrow> nat \<Rightarrow> unified \<times> controller \<Rightarrow> unified \<times> controller" where
  "observe ss batch_bytes process_time ingest_interval = (\<lambda>(u, b).
     let b1 = fold_ema process_time ingest_interval b; (u', hold) = should_hold ss u in
     (u', if hold \<or> behind b1 then multiplicative_decrease b1 else additive_increase b1))"

definition byte_budget :: "controller \<Rightarrow> u64" where
  "byte_budget b = budget b"

subsection \<open>Configuration and assembly\<close>

datatype profile = Throughput | Balanced | LowLatency

fun byte_budget_envelope :: "profile \<Rightarrow> u64 \<times> u64 \<times> u64 \<times> u64" where
  "byte_budget_envelope Throughput = (16 * 1024 * 1024, 128 * 1024 * 1024, 512 * 1024, 2000)"
| "byte_budget_envelope Balanced = (8 * 1024 * 1024, 64 * 1024 * 1024, 256 * 1024, 1000)"
| "byte_budget_envelope LowLatency = (1024 * 1024, 16 * 1024 * 1024, 128 * 1024, 500)"

record self_regulation_config =
  sr_enabled :: bool
  sr_profile :: profile
  sr_pause_above :: f64
  sr_resume_below :: f64
  sr_target_rho :: f64
  sr_md_factor :: f64

definition sr_default :: self_regulation_config where
  "sr_default = \<lparr>sr_enabled = True, sr_profile = Throughput, sr_pause_above = f64_round (80 / 100),
     sr_resume_below = f64_round (65 / 100), sr_target_rho = f64_round (7 / 10), sr_md_factor = Fin (1 / 2)\<rparr>"

text \<open>\<open>None\<close> is the panic of \<open>expect\<close>.\<close>

definition sr_hysteresis :: "self_regulation_config \<Rightarrow> hysteresis option" where
  "sr_hysteresis c = (case hysteresis_new (sr_pause_above c) (sr_resume_below c) of
     Inr h \<Rightarrow> Some h
   | Inl _ \<Rightarrow> (case hysteresis_new (f64_round (80 / 100)) (f64_round (65 / 100)) of Inr h \<Rightarrow> Some h | Inl _ \<Rightarrow> None))"

definition byte_budget_config_of :: "self_regulation_config \<Rightarrow> byte_budget_config" where
  "byte_budget_config_of c = (case byte_budget_envelope (sr_profile c) of
     (st, mx, ai, cap) \<Rightarrow> bb_default\<lparr>start_bytes := st, max_bytes := mx, ai_step := ai, record_cap := cap,
       target_rho := sr_target_rho c, md_factor := sr_md_factor c\<rparr>)"

definition governor_build :: "self_regulation_config \<Rightarrow> (unified \<times> controller) option option" where
  "governor_build c =
     (if \<not> sr_enabled c then Some None
      else case sr_hysteresis c of None \<Rightarrow> None
        | Some h \<Rightarrow> Some (Some (unified_new h, controller_new (byte_budget_config_of c))))"

subsection \<open>The combined level\<close>

text \<open>The value with which a source competes for the level, as a rational.\<close>

definition effective :: "source \<Rightarrow> rat" where
  "effective s = (case if src_hard s then src_sample s else f64_mul (src_sample s) (soft_weight (src_weight s)) of
     Fin q \<Rightarrow> q | _ \<Rightarrow> 0)"

lemma clamp_unit: "\<not> is_nan v \<Longrightarrow> \<exists>q. f64_clamp v (Fin 0) (Fin 1) = Fin q \<and> 0 \<le> q \<and> q \<le> 1"
  by (cases v) (auto simp: f64_clamp_def)

lemma sample_unit: "\<exists>q. src_sample s = Fin q \<and> 0 \<le> q \<and> q \<le> 1"
  using clamp_unit by (auto simp: src_sample_def pressure_new_def)

lemma soft_weight_unit: "\<exists>q. soft_weight w = Fin q \<and> 0 \<le> q \<and> q \<le> 1"
  using clamp_unit [of w] by (cases w) (auto simp: soft_weight_def)

lemma effective_value:
  "(if src_hard s then src_sample s else f64_mul (src_sample s) (soft_weight (src_weight s))) = Fin (effective s)
   \<and> 0 \<le> effective s \<and> effective s \<le> 1"
proof -
  obtain q where q: "src_sample s = Fin q" "0 \<le> q" "q \<le> 1" using sample_unit by blast
  obtain w where w: "soft_weight (src_weight s) = Fin w" "0 \<le> w" "w \<le> 1" using soft_weight_unit by blast
  have "\<exists>r. f64_round (q * w) = Fin r \<and> 0 \<le> r \<and> r \<le> 1"
    using q w by (intro f64_round_unit) (simp_all add: mult_le_one)
  then show ?thesis using q w by (auto simp: effective_def)
qed

lemma Max_absorb: "finite A \<Longrightarrow> Max (insert (max e m) A) = Max (insert m (insert e A))" for m :: rat
  by (cases "A = {}") (simp_all add: max.commute max.left_commute)

lemma level_loop_max:
  "\<exists>h' s'. level_loop ss (Fin h, Fin s) = (Fin h', Fin s') \<and> max h' s' = Max (insert (max h s) (effective ` set ss))"
proof (induction ss arbitrary: h s)
  case (Cons x ss)
  note e = effective_value [of x]
  let ?h = "if src_hard x then max h (effective x) else h" and ?s = "if src_hard x then s else max s (effective x)"
  obtain h' s' where 1: "level_loop ss (Fin ?h, Fin ?s) = (Fin h', Fin s')"
    and 2: "max h' s' = Max (insert (max ?h ?s) (effective ` set ss))" using Cons by blast
  have "level_loop (x # ss) (Fin h, Fin s) = (Fin h', Fin s')"
    using 1 e by (cases "src_hard x") (simp_all add: Let_def)
  moreover have "max ?h ?s = max (effective x) (max h s)" by (auto simp: max_def)
  ultimately show ?case using 2 Max_absorb [of "effective ` set ss" "effective x" "max h s"] by auto
qed simp

lemma level_max: "level ss = Fin (Max (insert 0 (effective ` set ss)))"
  using level_loop_max [of ss 0 0] by (auto simp: level_def)

lemma level_unit: "\<exists>q. level ss = Fin q \<and> 0 \<le> q \<and> q \<le> 1"
  using effective_value by (auto simp: level_max intro: Max_ge)

text \<open>The combined level is exactly the largest effective reading, or 0: a hard source
  competes with its clamped sample whatever its weight, a soft one with its sample scaled by
  its weight clamped to [0, 1]; so for any samples and weights, NaN and infinities included,
  the level lies in [0, 1] and no hard reading is masked.
\<close>

theorem pressure_level_exact:
  "(\<exists>q. level ss = Fin q \<and> 0 \<le> q \<and> q \<le> 1 \<and> q = Max (insert 0 (effective ` set ss)))
   \<and> list_all (\<lambda>s. f64_le (src_sample s) (level ss)) (filter src_hard ss)"
proof -
  have "f64_le (src_sample s) (level ss)" if "s \<in> set ss" "src_hard s" for s
  proof -
    have "src_sample s = Fin (effective s)" using effective_value [of s] that(2) by simp
    then show ?thesis using that(1) by (simp add: level_max)
  qed
  then show ?thesis using level_unit [of ss] by (auto simp: level_max list_all_iff)
qed

subsection \<open>The latch\<close>

definition latch_run :: "source list list \<Rightarrow> unified \<Rightarrow> unified" where
  "latch_run sss u = fold (\<lambda>ss u. fst (should_hold ss u)) sss u"

lemma should_hold_state:
  "should_hold ss u = (let p = (if up_paused u then \<not> f64_le (level ss) (resume_below (up_hyst u))
     else f64_le (pause_above (up_hyst u)) (level ss)) in (u\<lparr>up_paused := p\<rparr>, p))"
  by (cases u) (simp add: should_hold_def Let_def)

lemma latch_hyst [simp]: "up_hyst (latch_run sss u) = up_hyst u"
  unfolding latch_run_def by (induction sss arbitrary: u) (simp_all add: should_hold_state Let_def)

lemma latch_snoc: "latch_run (sss @ [ss]) u = fst (should_hold ss (latch_run sss u))"
  by (simp add: latch_run_def)

lemma band_ordered:
  assumes "hysteresis_new p r = Ok h"
  shows "h = \<lparr>pause_above = p, resume_below = r\<rparr> \<and> (f64_le p (level ss) \<longrightarrow> \<not> f64_le (level ss) r)"
proof -
  obtain q where "level ss = Fin q" using level_unit by blast
  then show ?thesis using assms
    by (cases p; cases r) (auto simp: hysteresis_new_def split: if_splits)
qed

lemma ex_last_snoc:
  "(\<exists>i < length (xs @ [x]). P ((xs @ [x]) ! i) \<and> (\<forall>j. i < j \<and> j < length (xs @ [x]) \<longrightarrow> Q ((xs @ [x]) ! j)))
   \<longleftrightarrow> P x \<or> Q x \<and> (\<exists>i < length xs. P (xs ! i) \<and> (\<forall>j. i < j \<and> j < length xs \<longrightarrow> Q (xs ! j)))"
  (is "?L \<longleftrightarrow> ?R")
proof
  assume ?L
  then obtain i where i: "i < Suc (length xs)" "P ((xs @ [x]) ! i)"
    and all: "\<And>j. i < j \<Longrightarrow> j < Suc (length xs) \<Longrightarrow> Q ((xs @ [x]) ! j)" by auto
  show ?R
  proof (cases "i = length xs")
    case False
    then have "i < length xs" using i(1) by simp
    moreover have "Q (xs ! j)" if "i < j" "j < length xs" for j using all [of j] that by (simp add: nth_append)
    ultimately show ?thesis using i(2) all [of "length xs"] by (auto simp: nth_append)
  qed (use i in simp)
next
  assume ?R
  then show ?L
  proof
    assume "P x"
    then show ?L by (intro exI [of _ "length xs"]) auto
  next
    assume "Q x \<and> (\<exists>i < length xs. P (xs ! i) \<and> (\<forall>j. i < j \<and> j < length xs \<longrightarrow> Q (xs ! j)))"
    then obtain i where "Q x" "i < length xs" "P (xs ! i)" "\<forall>j. i < j \<and> j < length xs \<longrightarrow> Q (xs ! j)" by blast
    then show ?L by (intro exI [of _ i]) (auto simp: nth_append)
  qed
qed

text \<open>The hold latch: after any sequence of samples from a fresh governor with a validated
  band, it holds exactly when some sample reached \<open>pause_above\<close> and no later one has come
  down to \<open>resume_below\<close>; a level inside the band never changes it.
\<close>

theorem latch_holds_exactly:
  assumes "hysteresis_new p r = Ok h"
  shows "up_paused (latch_run sss (unified_new h)) \<longleftrightarrow>
    (\<exists>i < length sss. f64_le p (level (sss ! i)) \<and> (\<forall>j. i < j \<and> j < length sss \<longrightarrow> \<not> f64_le (level (sss ! j)) r))"
proof (induction sss rule: rev_induct)
  case Nil
  then show ?case by (simp add: latch_run_def unified_new_def)
next
  case (snoc ss sss)
  let ?u = "latch_run sss (unified_new h)"
  note band = band_ordered [OF assms, of ss]
  have h: "up_hyst ?u = \<lparr>pause_above = p, resume_below = r\<rparr>" using band by (simp add: unified_new_def)
  have "up_paused (latch_run (sss @ [ss]) (unified_new h)) =
      (if up_paused ?u then \<not> f64_le (level ss) r else f64_le p (level ss))"
    using h by (simp add: latch_snoc should_hold_state Let_def)
  also have "\<dots> \<longleftrightarrow> f64_le p (level ss) \<or> \<not> f64_le (level ss) r \<and> up_paused ?u" using band by auto
  also note snoc
  also note ex_last_snoc [of sss ss "\<lambda>s. f64_le p (level s)" "\<lambda>s. \<not> f64_le (level s) r", symmetric]
  finally show ?case .
qed

theorem latch_holds_exactly_witness:
  "up_paused (latch_run [[\<lparr>src_name = ''m'', src_value = Fin 1, src_weight = Fin 1, src_hard = True\<rparr>]]
     (unified_new \<lparr>pause_above = Fin (3 / 4), resume_below = Fin (1 / 2)\<rparr>))"
  using latch_holds_exactly [of "Fin (3 / 4)" "Fin (1 / 2)" "\<lparr>pause_above = Fin (3 / 4), resume_below = Fin (1 / 2)\<rparr>"
      "[[\<lparr>src_name = ''m'', src_value = Fin 1, src_weight = Fin 1, src_hard = True\<rparr>]]"]
  by (simp add: hysteresis_new_def unit_range_def level_def src_sample_def pressure_new_def f64_clamp_def)

subsection \<open>Gate edges\<close>

text \<open>The latch is shared: between two evaluations of the gate others may sample it.\<close>

datatype gate_event = Evaluate "source list" | Elsewhere "source list"

fun gate_run :: "gate_event list \<Rightarrow> unified \<times> gate \<Rightarrow> (unified \<times> gate) \<times> admit list" where
  "gate_run [] ug = (ug, [])"
| "gate_run (Evaluate ss # es) ug =
     (let (ug', a) = evaluate_gate ss ug; (ug'', as) = gate_run es ug' in (ug'', a # as))"
| "gate_run (Elsewhere ss # es) ug = gate_run es (fst (should_hold ss (fst ug)), snd ug)"

definition edges :: "bool \<Rightarrow> admit list \<Rightarrow> actuation list" where
  "edges b as = map (\<lambda>h. if h then Pause else Resume) (tl (remdups_adj (b # map (\<lambda>a. a = AdmitHold) as)))"

lemma edges_Cons:
  "edges b (a # as) = (if (a = AdmitHold) = b then edges b as
     else (if a = AdmitHold then Pause else Resume) # edges (a = AdmitHold) as)"
  by (cases "remdups_adj ((a = AdmitHold) # map (\<lambda>a. a = AdmitHold) as)") (auto simp: edges_def remdups_adj_Cons')

lemma gate_run_edges:
  "gate_run es (u, g) = ((u', g'), as) \<Longrightarrow>
   actuations g' = actuations g @ edges (paused_edge g) as
   \<and> paused_edge g' = last (paused_edge g # map (\<lambda>a. a = AdmitHold) as)"
proof (induction es arbitrary: u g as)
  case Nil
  then show ?case by (simp add: edges_def)
next
  case (Cons e es)
  show ?case
  proof (cases e)
    case (Elsewhere ss)
    then show ?thesis using Cons by simp
  next
    case (Evaluate ss)
    obtain u1 g1 a where ev: "evaluate_gate ss (u, g) = ((u1, g1), a)" by (metis prod_cases3 prod.collapse)
    obtain as' where r: "gate_run es (u1, g1) = ((u', g'), as')" and as: "as = a # as'"
      using Cons.prems Evaluate ev by (auto split: prod.splits)
    have "paused_edge g1 = (a = AdmitHold)"
      "actuations g1 = actuations g @ (if (a = AdmitHold) = paused_edge g then [] else [if a = AdmitHold then Pause else Resume])"
      using ev by (auto simp: evaluate_gate_def split: prod.splits if_splits)
    then show ?thesis using Cons.IH [OF r] as by (simp add: edges_Cons)
  qed
qed

text \<open>The gate fires the actuator on edges only: whatever is sampled in between, the calls of
  \<open>pause\<close> and \<open>resume\<close> are exactly the changes in its sequence of decisions, starting from
  open, so they alternate, begin with \<open>pause\<close>, and the source is paused exactly when the
  last decision was to hold.
\<close>

theorem gate_fires_on_edges:
  assumes "gate_run es (unified_new h, gate_new) = ((u, g), as)"
  shows "actuations g = edges False as
    \<and> paused_edge g = (as \<noteq> [] \<and> last as = AdmitHold)
    \<and> (\<forall>i < length (actuations g). actuations g ! i = (if even i then Pause else Resume))"
proof -
  have e: "actuations g = edges False as" and p: "paused_edge g = last (False # map (\<lambda>a. a = AdmitHold) as)"
    using gate_run_edges [OF assms] by (simp_all add: gate_new_def)
  have "i < length (edges b bs) \<Longrightarrow> edges b bs ! i = (if even i = b then Resume else Pause)" for i b bs
  proof (induction bs arbitrary: b i)
    case (Cons a bs)
    then show ?case by (cases i) (auto simp: edges_Cons split: if_splits)
  qed (simp add: edges_def)
  then show ?thesis using e p by (auto simp: last_map)
qed

definition calm :: source where
  "calm = \<lparr>src_name = ''m'', src_value = Fin 0, src_weight = Fin 1, src_hard = True\<rparr>"

definition busy :: source where
  "busy = calm\<lparr>src_value := Fin 1\<rparr>"

lemma level_examples: "level [calm] = Fin 0" "level [busy] = Fin 1"
  by (simp_all add: level_def src_sample_def pressure_new_def f64_clamp_def calm_def busy_def)

theorem gate_fires_on_edges_witness:
  "actuations (snd (fst (gate_run [Evaluate [busy], Evaluate [busy], Elsewhere [calm], Evaluate [calm]]
      (unified_new \<lparr>pause_above = Fin (3 / 4), resume_below = Fin (1 / 2)\<rparr>, gate_new)))) = [Pause, Resume]"
proof -
  let ?run = "gate_run [Evaluate [busy], Evaluate [busy], Elsewhere [calm], Evaluate [calm]]
      (unified_new \<lparr>pause_above = Fin (3 / 4), resume_below = Fin (1 / 2)\<rparr>, gate_new)"
  obtain u g as where r: "?run = ((u, g), as)" by (metis prod_cases3 prod.collapse)
  have "as = [AdmitHold, AdmitHold, AdmitYes]"
    using r by (simp add: evaluate_gate_def should_hold_def level_examples unified_new_def gate_new_def Let_def)
  then show ?thesis using gate_fires_on_edges [OF r] r by (simp add: edges_def)
qed

subsection \<open>The budget envelope\<close>

definition sane_md :: "f64 \<Rightarrow> bool" where
  "sane_md m \<longleftrightarrow> (\<exists>q. m = Fin q \<and> 0 < q \<and> q < 1)"

definition in_envelope :: "controller \<Rightarrow> bool" where
  "in_envelope b \<longleftrightarrow> sane_md (md_factor (bb_cfg b)) \<and> max_bytes (bb_cfg b) < 2 ^ 53
     \<and> min_bytes (bb_cfg b) \<le> budget b \<and> budget b \<le> max_bytes (bb_cfg b)"

lemma sane_md_Fin [simp]: "sane_md (Fin q) \<longleftrightarrow> 0 < q \<and> q < 1"
  by (simp add: sane_md_def)

lemma sane_md_sanitised: "sane_md (md_factor (sanitised c))"
  by (cases "md_factor c") (auto simp: sanitised_def Let_def)

lemma min_bytes_pos: "1 \<le> min_bytes c"
  by (simp add: min_bytes_def)

lemma min_bytes_sanitised [simp]: "min_bytes (sanitised c) = min_bytes c"
  by (simp add: sanitised_def Let_def min_bytes_def)

lemma sanitised_range:
  "min_bytes c \<le> start_bytes (sanitised c)" "start_bytes (sanitised c) \<le> max_bytes (sanitised c)"
  by (auto simp: sanitised_def Let_def)

lemma new_in_envelope: "max_bytes (sanitised c) < 2 ^ 53 \<Longrightarrow> in_envelope (controller_new c)"
  using sanitised_range sane_md_sanitised by (simp add: in_envelope_def controller_new_def Let_def)

lemma truncated_le:
  assumes "0 \<le> x" and "x \<le> of_nat (unat w)"
  shows "f64_to_u64 (f64_floor (Fin x)) \<le> (w :: u64)"
proof (cases "of_int \<lfloor>x\<rfloor> < (1 :: rat)")
  case False
  have le: "\<lfloor>x\<rfloor> \<le> int (unat w)" using assms(2) by (metis floor_mono floor_of_nat of_int_of_nat_eq)
  then have "(of_int \<lfloor>x\<rfloor> :: rat) \<le> of_nat (unat w)" by (metis of_int_le_iff of_int_of_nat_eq)
  also have "\<dots> < of_nat (2 ^ 64)" using unat_less_2p [of w] by (simp only: of_nat_less_iff) simp
  finally have "f64_to_u64 (f64_floor (Fin x)) = of_nat (nat \<lfloor>x\<rfloor>)" using False by simp
  moreover have "nat \<lfloor>x\<rfloor> \<le> unat w" using le by (simp only: nat_le_iff)
  ultimately show ?thesis
    using unat_less_2p [of w] by (simp add: word_le_nat_alt unat_of_nat)
qed simp

lemma decrease_le:
  assumes "sane_md (md_factor (bb_cfg b))" and "budget b < 2 ^ 53"
  shows "budget (multiplicative_decrease b) \<le> max (budget b) (min_bytes (bb_cfg b))"
proof -
  obtain q where q: "md_factor (bb_cfg b) = Fin q" "0 < q" "q < 1" using assms(1) by (auto simp: sane_md_def)
  let ?c = "rat_of_u64 (budget b)"
  have small: "unat (budget b) < 2 ^ 53" using assms(2) by (simp add: word_less_nat_alt)
  have c: "rnd ?c = ?c" using rnd_of_nat [OF small] by (simp add: rat_of_u64_def)
  have le: "?c * q \<le> ?c" using q mult_left_mono [of q 1 ?c] by simp
  then have "f64_round (?c * q) = Fin (rnd (?c * q))"
    using rat_of_u64_less [of "budget b"] q by (intro f64_round_Fin) (simp_all add: order_trans [OF _ less_imp_le])
  moreover have "rnd (?c * q) \<le> ?c" using rnd_mono [OF le] c by simp
  moreover have "0 \<le> rnd (?c * q)" using q by (intro rnd_nonneg) simp
  ultimately have "f64_to_u64 (f64_floor (f64_mul (f64_of_u64 (budget b)) (md_factor (bb_cfg b)))) \<le> budget b"
    using truncated_le [of "rnd (?c * q)" "budget b", folded rat_of_u64_def]
    by (simp only: q(1) f64_of_u64_Fin c f64_mul.simps)
  then show ?thesis by (simp add: multiplicative_decrease_def Let_def max.coboundedI1)
qed

lemma fold_ema_fields [simp]:
  "bb_cfg (fold_ema p i b) = bb_cfg b" "budget (fold_ema p i b) = budget b"
  by (simp_all add: fold_ema_def Let_def)

lemma decrease_envelope:
  assumes "in_envelope b"
  shows "in_envelope (multiplicative_decrease b) \<and> budget (multiplicative_decrease b) \<le> budget b"
proof -
  have "budget b < 2 ^ 53" using assms by (auto simp: in_envelope_def)
  then have "budget (multiplicative_decrease b) \<le> budget b"
    using decrease_le [of b] assms by (simp add: in_envelope_def max.absorb1)
  then show ?thesis using assms by (auto simp: in_envelope_def multiplicative_decrease_def Let_def)
qed

lemma increase_envelope:
  "in_envelope b \<Longrightarrow> in_envelope (additive_increase b) \<and> budget b \<le> budget (additive_increase b)"
  using le_saturating_add [of "budget b" "ai_step (bb_cfg b)"]
  by (auto simp: in_envelope_def additive_increase_def)

lemma observe_envelope:
  assumes "in_envelope b"
  shows "in_envelope (snd (observe ss n p i (u, b)))"
    and "snd (should_hold ss u) \<Longrightarrow> budget (snd (observe ss n p i (u, b))) \<le> budget b"
proof -
  have e: "in_envelope (fold_ema p i b)" using assms by (simp add: in_envelope_def)
  show "in_envelope (snd (observe ss n p i (u, b)))"
    using decrease_envelope [OF e] increase_envelope [OF e] by (simp add: observe_def Let_def split: prod.split)
  show "budget (snd (observe ss n p i (u, b))) \<le> budget b" if "snd (should_hold ss u)"
    using decrease_envelope [OF e] that by (cases "should_hold ss u") (simp add: observe_def Let_def)
qed

definition observe_all :: "(source list \<times> u64 \<times> nat \<times> nat) list \<Rightarrow> unified \<times> controller \<Rightarrow> unified \<times> controller" where
  "observe_all obs = fold (\<lambda>(ss, n, p, i). observe ss n p i) obs"

lemma observe_cfg: "bb_cfg (snd (observe ss n p i ub)) = bb_cfg (snd ub)"
  by (simp add: observe_def Let_def multiplicative_decrease_def additive_increase_def split: prod.split)

lemma observe_all_envelope:
  "in_envelope (snd ub) \<Longrightarrow> in_envelope (snd (observe_all obs ub)) \<and> bb_cfg (snd (observe_all obs ub)) = bb_cfg (snd ub)"
proof (induction obs arbitrary: ub)
  case (Cons x obs)
  obtain ss n p i u b where x: "x = (ss, n, p, i)" and ub: "ub = (u, b)" by (metis prod_cases4 prod.exhaust)
  show ?case using Cons.IH [of "observe ss n p i ub"] observe_envelope(1) [of b ss n p i u] Cons.prems
    by (simp add: observe_all_def x ub observe_cfg)
qed (simp add: observe_all_def)

text \<open>C19. The byte budget: for any configuration with a ceiling below 2^53 bytes, however wrong
  its other fields, and any sequence of observations and pressure readings, the budget stays
  between its floor, which is at least one byte, and its ceiling; an observation made while
  the latch holds never raises it, whatever the measured utilisation says.
\<close>

theorem budget_stays_in_envelope:
  assumes "max_bytes (sanitised c) < 2 ^ 53"
    and "observe_all obs (u, controller_new c) = (u', b)"
  shows "1 \<le> byte_budget b \<and> min_bytes c \<le> byte_budget b \<and> byte_budget b \<le> max_bytes (sanitised c)
    \<and> (snd (should_hold ss u') \<longrightarrow> byte_budget (snd (observe ss n p i (u', b))) \<le> byte_budget b)"
proof -
  have e: "in_envelope b" and c: "bb_cfg b = sanitised c"
    using observe_all_envelope [of "(u, controller_new c)" obs] new_in_envelope [OF assms(1)] assms(2)
    by (simp_all add: controller_new_def Let_def)
  then have "min_bytes c \<le> budget b" "budget b \<le> max_bytes (sanitised c)" by (simp_all add: in_envelope_def)
  moreover from this(1) have "1 \<le> budget b" using min_bytes_pos order_trans by blast
  ultimately show ?thesis using observe_envelope(2) [OF e] by (simp add: byte_budget_def)
qed

theorem budget_stays_in_envelope_witness:
  "\<exists>u' b. observe_all [([busy], 10, 5, 3)] (unified_new \<lparr>pause_above = Fin (3 / 4), resume_below = Fin (1 / 2)\<rparr>, controller_new bb_default) = (u', b)
     \<and> 1 \<le> byte_budget b \<and> byte_budget b \<le> 64 * 1024 * 1024"
proof -
  obtain u' b where r: "observe_all [([busy], 10, 5, 3)] (unified_new \<lparr>pause_above = Fin (3 / 4), resume_below = Fin (1 / 2)\<rparr>, controller_new bb_default) = (u', b)"
    by fastforce
  have m: "max_bytes (sanitised bb_default) = 64 * 1024 * 1024"
    by (simp add: sanitised_def bb_default_def min_bytes_def saturating_mul_def Let_def max_def word_le_nat_alt)
  then have "max_bytes (sanitised bb_default) < 2 ^ 53" by (simp add: word_less_nat_alt)
  then show ?thesis using budget_stays_in_envelope [OF _ r] r m by fastforce
qed

text \<open>\<open>snapshot\<close> multiplies by the raw weight, so it can report a level that \<open>level\<close> never has.\<close>

lemma snapshot_level_unclamped:
  "snap_level (snapshot [\<lparr>src_name = ''q'', src_value = Fin 1, src_weight = Fin 5, src_hard = False\<rparr>] u) = f64_round 5
   \<and> level [\<lparr>src_name = ''q'', src_value = Fin 1, src_weight = Fin 5, src_hard = False\<rparr>] = Fin 1"
proof -
  have "f64_round 5 = Fin 5" "f64_round 1 = Fin 1"
    using f64_round_below [of 5 3] rnd_of_nat [of 5] f64_round_below [of 1 0] by (simp_all add: pow2_def)
  then show ?thesis
    by (simp add: snapshot_def reading_def level_def src_sample_def pressure_new_def f64_clamp_def soft_weight_def Let_def)
qed

text \<open>A configured band that is not valid falls back to the defaults: the \<open>expect\<close> never fires.\<close>

lemma sr_hysteresis_total: "\<exists>h. sr_hysteresis c = Some h"
proof -
  have r: "f64_round (80 / 100) = Fin (rnd (80 / 100))" "f64_round (65 / 100) = Fin (rnd (65 / 100))"
    using f64_round_below [of "80 / 100" 0] f64_round_below [of "65 / 100" 0] by (simp_all add: pow2_def)
  have u: "0 \<le> rnd (80 / 100)" "rnd (80 / 100) \<le> 1" "0 \<le> rnd (65 / 100)" "rnd (65 / 100) \<le> 1"
    using rnd_nonneg rnd_le_1 by simp_all
  have "rnd (65 / 100) \<le> rnd (3 / 4 :: rat)" "rnd (3 / 4) = (3 / 4 :: rat)"
    using rnd_mono [of "65 / 100" "3 / 4"] rnd_exact_pos [of 3 "- 2"] by (simp_all add: pow2_def)
  moreover have "25 * pow2 (- 5) \<le> rnd (80 / 100)"
    using rnd_mono [of "25 * pow2 (- 5)" "80 / 100"] rnd_exact_pos [of 25 "- 5"] by (simp add: pow2_def)
  ultimately have "\<not> rnd (80 / 100) \<le> rnd (65 / 100)" by (simp add: pow2_def)
  then have "\<exists>h. hysteresis_new (f64_round (80 / 100)) (f64_round (65 / 100)) = Ok h"
    using u unfolding r by (simp add: hysteresis_new_def unit_range_def)
  then show ?thesis by (auto simp: sr_hysteresis_def split: sum.splits)
qed

end
