(* ===== verification/Governed_Driver.thy ===== *)
theory Governed_Driver
  imports Engine_Driver Governor
begin

text \<open>
  \<open>BatchEngine::run_governed\<close> of \<open>src/worker/engine/driver.rs\<close>: the run loop that composes the
  streaming block driver with the governor. Each poll is limited by the current byte budget
  and the record cap, each block is streamed in sub-blocks of the current budget, and each
  block's timing is folded into the budget. The source is a function of the limits it is
  polled with; the clock and the pressure readings come with the event.
\<close>

record recv_limits =
  rl_max_records :: u64
  rl_max_bytes :: u64

datatype 't gov_event = GCancelled | GTick
  | GPolled "recv_limits \<Rightarrow> ('t work_batch, string) result" nat "source list" nat

record gov_state =
  gv_latch :: unified
  gv_budget :: controller
  last_recv :: "nat option"

definition gov_limits :: "u64 \<Rightarrow> gov_state \<Rightarrow> recv_limits" where
  "gov_limits chunk g =
     \<lparr>rl_max_records = min chunk (record_cap (bb_cfg (gv_budget g))), rl_max_bytes = byte_budget (gv_budget g)\<rparr>"

definition gov_observe :: "source list \<Rightarrow> u64 \<Rightarrow> nat \<Rightarrow> nat \<Rightarrow> gov_state \<Rightarrow> gov_state" where
  "gov_observe ss nbytes process_time interval g =
     (case observe ss nbytes process_time interval (gv_latch g, gv_budget g) of
        (u, b) \<Rightarrow> g\<lparr>gv_latch := u, gv_budget := b\<rparr>)"

fun governed_loop ::
  "('w, 't) app \<Rightarrow> filter_dlq_policy \<Rightarrow> ('t work_batch \<Rightarrow> ('t work_batch, engine_error) result) \<Rightarrow> u64 \<Rightarrow>
   't gov_event list \<Rightarrow> ('w, 't) driver \<Rightarrow> gov_state \<Rightarrow> ('w, 't) driver \<times> gov_state \<times> run_status" where
  "governed_loop app pol process chunk [] d g = (d, g, Running)"
| "governed_loop app pol process chunk (GCancelled # evs) d g = (d, g, Returned (Ok ()))"
| "governed_loop app pol process chunk (GTick # evs) d g =
     governed_loop app pol process chunk evs (d\<lparr>world := fst (tick_fn app (world d))\<rparr>) g"
| "governed_loop app pol process chunk (GPolled src now ss process_time # evs) d g =
     (let interval = (case last_recv g of Some prev \<Rightarrow> now - prev | None \<Rightarrow> 0);
          g1 = g\<lparr>last_recv := Some now\<rparr>
      in case src (gov_limits chunk g) of
           Inl e \<Rightarrow> (d, g1, Returned (Err (Transport e)))
         | Inr wb \<Rightarrow>
             (case ingest_workbatch app pol wb d of
                (d1, Inl e) \<Rightarrow> (d1, g1, Returned (Err e))
              | (d1, Inr None) \<Rightarrow> governed_loop app pol process chunk evs d1 (gov_observe ss 0 0 interval g1)
              | (d1, Inr (Some batch)) \<Rightarrow>
                  (case drive_block_streaming app pol process AutoCommit (byte_budget (gv_budget g1)) batch d1 of
                     (d2, Inl e) \<Rightarrow> (d2, g1, Returned (Err e))
                   | (d2, Inr _) \<Rightarrow> governed_loop app pol process chunk evs d2
                       (gov_observe ss (total_payload_bytes wb) process_time interval g1))))"

text \<open>Without a budget the loop is \<open>run_workbatch\<close>; its events are the polls answered without
  a byte limit.\<close>

fun ungoverned :: "u64 \<Rightarrow> 't gov_event \<Rightarrow> 't run_event" where
  "ungoverned chunk GCancelled = Cancelled"
| "ungoverned chunk GTick = Tick"
| "ungoverned chunk (GPolled src now ss p) = Received (src \<lparr>rl_max_records = chunk, rl_max_bytes = - 1\<rparr>)"

definition run_governed where
  "run_governed app pol process mode chunk gov evs d =
     (case gov of
        None \<Rightarrow> (case run_workbatch app pol process mode (map (ungoverned chunk) evs) d of (d', st) \<Rightarrow> (d', None, st))
      | Some (u, b) \<Rightarrow>
          (case mode of
             SinkManaged \<Rightarrow> (d, Some \<lparr>gv_latch = u, gv_budget = b, last_recv = None\<rparr>, Returned (Err SinkManagedUnsupported))
           | AutoCommit \<Rightarrow>
               (case governed_loop app pol process chunk evs d \<lparr>gv_latch = u, gv_budget = b, last_recv = None\<rparr> of
                  (d', g, st) \<Rightarrow> (d', Some g, st))))"

subsection \<open>Commits and limits of a governed run\<close>

text \<open>The reference: the latch and the budget with every block's bytes and timing folded in so far, the limits they
  give for each poll, and the source's answers to polls with just those limits.\<close>

record regulation =
  rg_latch :: unified
  rg_budget :: controller
  rg_last :: "nat option"

definition regulated_limits :: "u64 \<Rightarrow> regulation \<Rightarrow> recv_limits" where
  "regulated_limits chunk r = \<lparr>rl_max_records = min chunk (record_cap (bb_cfg (rg_budget r))), rl_max_bytes = byte_budget (rg_budget r)\<rparr>"

definition fold_block :: "source list \<Rightarrow> nat \<Rightarrow> u64 \<times> nat \<Rightarrow> regulation \<Rightarrow> regulation" where
  "fold_block ss now load r =
     (let interval = (case rg_last r of Some prev \<Rightarrow> now - prev | None \<Rightarrow> 0);
          (nbytes, t) = load;
          (u, c) = observe ss nbytes t interval (rg_latch r, rg_budget r)
      in \<lparr>rg_latch = u, rg_budget = c, rg_last = Some now\<rparr>)"

definition block_load :: "'t work_batch \<Rightarrow> nat \<Rightarrow> u64 \<times> nat" where
  "block_load wb process_time =
     (if records wb = [] \<and> commit_tokens wb = [] then (0, 0) else (total_payload_bytes wb, process_time))"

fun regulated_polls :: "u64 \<Rightarrow> 't gov_event list \<Rightarrow> regulation \<Rightarrow> recv_limits list" where
  "regulated_polls chunk [] r = []"
| "regulated_polls chunk (GCancelled # evs) r = []"
| "regulated_polls chunk (GTick # evs) r = regulated_polls chunk evs r"
| "regulated_polls chunk (GPolled src now ss pt # evs) r = regulated_limits chunk r #
     (case src (regulated_limits chunk r) of Inl _ \<Rightarrow> [] | Inr wb \<Rightarrow> regulated_polls chunk evs (fold_block ss now (block_load wb pt) r))"

fun regulated_answers :: "u64 \<Rightarrow> 't gov_event list \<Rightarrow> regulation \<Rightarrow> 't run_event list" where
  "regulated_answers chunk [] r = []"
| "regulated_answers chunk (GCancelled # evs) r = [Cancelled]"
| "regulated_answers chunk (GTick # evs) r = Tick # regulated_answers chunk evs r"
| "regulated_answers chunk (GPolled src now ss pt # evs) r = Received (src (regulated_limits chunk r)) #
     (case src (regulated_limits chunk r) of Inl _ \<Rightarrow> [] | Inr wb \<Rightarrow> regulated_answers chunk evs (fold_block ss now (block_load wb pt) r))"

definition limits_ok :: "u64 \<Rightarrow> byte_budget_config \<Rightarrow> recv_limits \<Rightarrow> bool" where
  "limits_ok chunk c l \<longleftrightarrow> rl_max_records l \<le> chunk \<and> rl_max_records l \<le> record_cap c
     \<and> min_bytes c \<le> rl_max_bytes l \<and> rl_max_bytes l \<le> max_bytes c"

definition reg_ok :: "byte_budget_config \<Rightarrow> regulation \<Rightarrow> bool" where
  "reg_ok c r \<longleftrightarrow> bb_cfg (rg_budget r) = c \<and> in_envelope (rg_budget r)"

lemma fold_block_ok: "reg_ok c r \<Longrightarrow> reg_ok c (fold_block ss now load r)"
  using observe_envelope(1) [of "rg_budget r" ss] observe_cfg [of ss _ _ _ "(rg_latch r, rg_budget r)"]
  by (simp add: reg_ok_def fold_block_def Let_def split_beta)

lemma regulated_polls_ok: "reg_ok c r \<Longrightarrow> list_all (limits_ok chunk c) (regulated_polls chunk evs r)"
proof (induction chunk evs r rule: regulated_polls.induct)
  case (4 chunk src now ss pt evs r)
  have "limits_ok chunk c (regulated_limits chunk r)"
    using "4.prems" by (auto simp: reg_ok_def in_envelope_def limits_ok_def regulated_limits_def byte_budget_def)
  then show ?case using "4.IH" fold_block_ok [OF "4.prems"] by (cases "src (regulated_limits chunk r)") simp_all
qed simp_all

definition reg_of :: "gov_state \<Rightarrow> regulation" where
  "reg_of g = \<lparr>rg_latch = gv_latch g, rg_budget = gv_budget g, rg_last = last_recv g\<rparr>"

lemma limits_reg: "gov_limits chunk g = regulated_limits chunk (reg_of g)"
  by (simp add: gov_limits_def regulated_limits_def reg_of_def)

lemma observe_reg:
  "reg_of (gov_observe ss nbytes pt (case last_recv g of Some prev \<Rightarrow> now - prev | None \<Rightarrow> 0) (g\<lparr>last_recv := Some now\<rparr>))
     = fold_block ss now (nbytes, pt) (reg_of g)"
  by (simp add: reg_of_def gov_observe_def fold_block_def Let_def split: prod.splits)

lemma governed_loop_commits:
  "governed_loop app pol process chunk evs d g = (d', g', st) \<Longrightarrow>
   \<exists>n. step d (\<forall>e. st \<noteq> Returned (Err e)) d' (map commit_tokens (take n (blocks (regulated_answers chunk evs (reg_of g)))))
     \<and> ((\<forall>e. st \<noteq> Returned (Err e)) \<longrightarrow> n = length (blocks (regulated_answers chunk evs (reg_of g))))"
proof (induction evs arbitrary: d g)
  case Nil
  then show ?case by auto
next
  case (Cons ev evs)
  show ?case
  proof (cases ev)
    case GCancelled
    then show ?thesis using Cons.prems by auto
  next
    case GTick
    then show ?thesis using Cons.IH [of "d\<lparr>world := fst (tick_fn app (world d))\<rparr>" g] Cons.prems by simp
  next
    case (GPolled src now ss pt)
    let ?l = "regulated_limits chunk (reg_of g)"
    have failed: ?thesis if "st = Returned (Err e)" "step d False d' []" for e
      using that by (intro exI [of _ 0]) auto
    show ?thesis
    proof (cases "src ?l")
      case (Inl e)
      then show ?thesis using Cons.prems GPolled by (auto simp: limits_reg Let_def)
    next
      case wb: (Inr wb)
      obtain d1 ir where ir: "ingest_workbatch app pol wb d = (d1, ir)" by fastforce
      show ?thesis
      proof (cases ir)
        case (Inl e)
        then have "st = Returned (Err e)" "d' = d1" using Cons.prems GPolled wb ir by (auto simp: limits_reg Let_def)
        then show ?thesis using failed ingest_Err [OF ir [unfolded Inl]] by blast
      next
        case ok: (Inr ob)
        have ob: "ob = (if records wb = [] \<and> commit_tokens wb = [] then None else Some (wb\<lparr>dlq_entries := []\<rparr>))"
          and s1: "step d True d1 []" using ingest_Ok [OF ir [unfolded ok]] by auto
        show ?thesis
        proof (cases "records wb = [] \<and> commit_tokens wb = []")
          case True
          let ?g = "gov_observe ss 0 0 (case last_recv g of Some prev \<Rightarrow> now - prev | None \<Rightarrow> 0) (g\<lparr>last_recv := Some now\<rparr>)"
          have r: "governed_loop app pol process chunk evs d1 ?g = (d', g', st)"
            using Cons.prems GPolled wb ir ok ob True by (simp add: limits_reg Let_def)
          have bl: "blocks (regulated_answers chunk (ev # evs) (reg_of g)) = blocks (regulated_answers chunk evs (reg_of ?g))"
            using True wb by (simp add: GPolled observe_reg block_load_def)
          show ?thesis unfolding bl using Cons.IH [OF r] s1 by (auto intro: step_trans0)
        next
          case False
          let ?b = "wb\<lparr>dlq_entries := []\<rparr>"
          let ?g = "gov_observe ss (total_payload_bytes wb) pt (case last_recv g of Some prev \<Rightarrow> now - prev | None \<Rightarrow> 0) (g\<lparr>last_recv := Some now\<rparr>)"
          have bl: "blocks (regulated_answers chunk (ev # evs) (reg_of g)) = ?b # blocks (regulated_answers chunk evs (reg_of ?g))"
            using False wb by (auto simp: GPolled observe_reg block_load_def)
          obtain d2 r2 where dr: "drive_block_streaming app pol process AutoCommit (byte_budget (gv_budget g)) ?b d1 = (d2, r2)" by fastforce
          have s2: "step d (is_ok r2) d2 (if is_ok r2 then [commit_tokens ?b] else [])"
            using step_trans0 [OF s1 step_drive_block_streaming [OF dr]] by (simp split: if_splits)
          show ?thesis
          proof (cases r2)
            case (Inl e)
            then have "st = Returned (Err e)" "d' = d2" using Cons.prems GPolled wb ir ok ob False dr by (auto simp: limits_reg Let_def)
            then show ?thesis using failed s2 Inl by simp
          next
            case r2: (Inr u)
            have r: "governed_loop app pol process chunk evs d2 ?g = (d', g', st)"
              using Cons.prems GPolled wb ir ok ob False dr r2 by (auto simp: limits_reg Let_def)
            from Cons.IH [OF r] obtain n where
              n: "step d2 (\<forall>e. st \<noteq> Returned (Err e)) d' (map commit_tokens (take n (blocks (regulated_answers chunk evs (reg_of ?g)))))"
                "(\<forall>e. st \<noteq> Returned (Err e)) \<longrightarrow> n = length (blocks (regulated_answers chunk evs (reg_of ?g)))" by blast
            have "step d True d2 [commit_tokens ?b]" using s2 r2 by simp
            from step_trans [OF this n(1)] n(2) show ?thesis unfolding bl by (intro exI [of _ "Suc n"]) simp
          qed
        qed
      qed
    qed
  qed
qed

text \<open>C6. Governed run loop: with the governor on, for any source, sink, pressure readings and
  timings, the source is polled each time with the limits that the regulated budget gives at that moment - the budget with
  every earlier block's bytes and timing folded in - and the acknowledgements keep the contract of
  the ungoverned loops over its answers to those polls: the tokens committed are those of an initial segment of the blocks
  received, in order and once each, all of them unless the loop stopped with an error, and
  nothing but lease releases follows a failure. Every such limit is at most the chunk size, the record cap and the upper end of the
  budget envelope, and at least its lower end (for an envelope below \<open>2 ^ 53\<close> bytes, where the budget arithmetic is exact).
\<close>

theorem governed_run_commits_prefix:
  assumes "run_governed app pol process AutoCommit chunk (Some (u, controller_new c)) evs d = (d', Some g, st)"
    and "trace d = []" and "max_bytes (sanitised c) < 2 ^ 53"
  shows "let r0 = \<lparr>rg_latch = u, rg_budget = controller_new c, rg_last = None\<rparr>; bs = blocks (regulated_answers chunk evs r0) in
    (\<exists>n. committed (trace d') = concat (map commit_tokens (take n bs)) \<and> ((\<forall>e. st \<noteq> Returned (Err e)) \<longrightarrow> n = length bs))
    \<and> barrier (trace d') \<and> list_all (limits_ok chunk (sanitised c)) (regulated_polls chunk evs r0)"
proof -
  let ?g0 = "\<lparr>gv_latch = u, gv_budget = controller_new c, last_recv = None\<rparr>"
  let ?r0 = "\<lparr>rg_latch = u, rg_budget = controller_new c, rg_last = None\<rparr>"
  have r0: "reg_of ?g0 = ?r0" by (simp add: reg_of_def)
  have r: "governed_loop app pol process chunk evs d ?g0 = (d', g, st)"
    using assms(1) by (simp add: run_governed_def split: prod.splits)
  have "reg_ok (sanitised c) ?r0"
    using new_in_envelope [OF assms(3)] by (simp add: reg_ok_def controller_new_def Let_def)
  from regulated_polls_ok [OF this] have p: "list_all (limits_ok chunk (sanitised c)) (regulated_polls chunk evs ?r0)" .
  from governed_loop_commits [OF r, unfolded r0] obtain n where
    s: "step d (\<forall>e. st \<noteq> Returned (Err e)) d' (map commit_tokens (take n (blocks (regulated_answers chunk evs ?r0))))"
    and n: "(\<forall>e. st \<noteq> Returned (Err e)) \<longrightarrow> n = length (blocks (regulated_answers chunk evs ?r0))" by blast
  show ?thesis using step_from_empty [OF s assms(2)] n p unfolding Let_def by (metis committed_commits)
qed

lemma run_governed_on:
  "\<exists>d' g st. run_governed app pol process AutoCommit chunk (Some (u, b)) evs d = (d', Some g, st)"
  by (simp add: run_governed_def split: prod.splits)

definition demo_polls :: "nat gov_event list" where
  "demo_polls = map (\<lambda>t. GPolled (\<lambda>l. Ok (wb_new [bare_record Json [1], bare_record Json [2, 3]] [t])) t [busy] 5) [7, 8, 9]"

theorem governed_run_commits_prefix_witness:
  "\<exists>d' g st n. run_governed demo_app Reject Ok AutoCommit 100
       (Some (unified_new \<lparr>pause_above = Fin (3 / 4), resume_below = Fin (1 / 2)\<rparr>, controller_new bb_default))
       demo_polls \<lparr>world = 0, mem_guard = None, trace = []\<rparr> = (d', Some g, st)
     \<and> committed (trace d') = concat (map commit_tokens (take n (blocks (regulated_answers 100 demo_polls
         \<lparr>rg_latch = unified_new \<lparr>pause_above = Fin (3 / 4), resume_below = Fin (1 / 2)\<rparr>, rg_budget = controller_new bb_default, rg_last = None\<rparr>))))"
proof -
  let ?u = "unified_new \<lparr>pause_above = Fin (3 / 4), resume_below = Fin (1 / 2)\<rparr>"
  obtain d' g st where r: "run_governed demo_app Reject Ok AutoCommit 100 (Some (?u, controller_new bb_default))
      demo_polls \<lparr>world = 0, mem_guard = None, trace = []\<rparr> = (d', Some g, st)"
    using run_governed_on by blast
  have "max_bytes (sanitised bb_default) = 64 * 1024 * 1024"
    by (simp add: sanitised_def bb_default_def min_bytes_def saturating_mul_def Let_def max_def word_le_nat_alt)
  then have "max_bytes (sanitised bb_default) < 2 ^ 53" by (simp add: word_less_nat_alt)
  then show ?thesis using governed_run_commits_prefix [OF r] r unfolding Let_def by fastforce
qed

end
