(* ===== verification/Background_Sink.thy ===== *)
theory Background_Sink
  imports Prelude
begin

text \<open>
  \<open>src/concurrency/sink.rs\<close>: the generic fire-and-forget sink, a bounded \<open>mpsc\<close> channel in
  front of an actor that batches messages and hands them to a \<open>SinkDrain\<close>. The drain is an
  argument. A state holds the channel, the senders that await a slot of it, the actor's
  batch, the two atomics, and two histories: what entered the channel, in order, and what
  the actor did. Each entry point and each arm of the actor's \<open>select!\<close> is one function; a
  run is any sequence of them, so every interleaving of callers, actor, timer and shutdown
  is a sequence of events. The flush interval is the timer that makes \<open>EvTick\<close> happen;
  metrics and the log lines are left out.
\<close>

subsection \<open>Configuration, messages, drains\<close>

datatype overflow = OverflowDrop | OverflowBlock

record bg_config =
  queue_capacity :: u64
  batch_size :: u64
  bg_overflow :: overflow

definition bg_config_default :: bg_config where
  "bg_config_default = \<lparr>queue_capacity = 10000, batch_size = 256, bg_overflow = OverflowDrop\<rparr>"

datatype drain_error = DrainIo string | DrainBackend string

datatype bg_error = BgOverflow | BgClosed | BgDrain drain_error

text \<open>A barrier carries the oneshot sender of the \<open>flush\<close> call that inserted it.\<close>

datatype 't sink_msg = SinkData 't | Barrier nat

record ('d, 't) sink_drain =
  write_batch :: "'d \<Rightarrow> 't list \<Rightarrow> 'd \<times> (unit, drain_error) result"
  flush_durable :: "'d \<Rightarrow> 'd \<times> (unit, drain_error) result"
  drain_close :: "'d \<Rightarrow> 'd \<times> (unit, drain_error) result"

datatype 't bg_event = Wrote "'t list" bool | Flushed bool | Acked nat "(unit, drain_error) result" | DrainClosed

record ('d, 't) bg_sink =
  bg_queue :: "'t sink_msg list"
  bg_waiting :: "'t sink_msg list"
  bg_closed :: bool
  bg_batch :: "'t list"
  bg_pending :: u64
  bg_dropped :: u64
  bg_drain :: 'd
  bg_exited :: bool
  bg_admitted :: "'t sink_msg list"
  bg_log :: "'t bg_event list"

text \<open>\<open>mpsc::channel\<close> panics on a capacity of zero.\<close>

definition bg_spawn :: "bg_config \<Rightarrow> 'd \<Rightarrow> ('d, 't) bg_sink option" where
  "bg_spawn c d = (if queue_capacity c = 0 then None
     else Some \<lparr>bg_queue = [], bg_waiting = [], bg_closed = False, bg_batch = [], bg_pending = 0, bg_dropped = 0,
       bg_drain = d, bg_exited = False, bg_admitted = [], bg_log = []\<rparr>)"

subsection \<open>The callers\<close>

definition admit_msg :: "'t sink_msg \<Rightarrow> ('d, 't) bg_sink \<Rightarrow> ('d, 't) bg_sink" where
  "admit_msg m s = s\<lparr>bg_queue := bg_queue s @ [m], bg_admitted := bg_admitted s @ [m]\<rparr>"

definition queue_full :: "bg_config \<Rightarrow> ('d, 't) bg_sink \<Rightarrow> bool" where
  "queue_full c s = (unat (queue_capacity c) \<le> length (bg_queue s))"

definition try_push :: "bg_config \<Rightarrow> 't \<Rightarrow> ('d, 't) bg_sink \<Rightarrow> ('d, 't) bg_sink \<times> (unit, bg_error) result" where
  "try_push c m s =
     (case bg_overflow c of
        OverflowBlock \<Rightarrow> (s, Err BgOverflow)
      | OverflowDrop \<Rightarrow>
          (let s1 = s\<lparr>bg_pending := bg_pending s + 1\<rparr> in
           if bg_closed s1 then (s1\<lparr>bg_pending := bg_pending s1 - 1\<rparr>, Err BgClosed)
           else if queue_full c s1 then
             (s1\<lparr>bg_pending := bg_pending s1 - 1, bg_dropped := bg_dropped s1 + 1\<rparr>, Err BgOverflow)
           else (admit_msg (SinkData m) s1, Ok ())))"

text \<open>
  \<open>push_blocking\<close> and \<open>flush\<close> await a slot of the channel: what runs before the await, and
  what runs when the send completes or finds the channel closed. A future that is dropped
  while it awaits runs nothing more.
\<close>

definition push_blocking :: "'t \<Rightarrow> ('d, 't) bg_sink \<Rightarrow> ('d, 't) bg_sink" where
  "push_blocking m s = s\<lparr>bg_pending := bg_pending s + 1, bg_waiting := bg_waiting s @ [SinkData m]\<rparr>"

definition flush_begin :: "nat \<Rightarrow> ('d, 't) bg_sink \<Rightarrow> ('d, 't) bg_sink" where
  "flush_begin k s = s\<lparr>bg_waiting := bg_waiting s @ [Barrier k]\<rparr>"

definition drop_nth :: "nat \<Rightarrow> 'a list \<Rightarrow> 'a list" where
  "drop_nth i xs = take i xs @ drop (Suc i) xs"

definition resume_send :: "bg_config \<Rightarrow> nat \<Rightarrow> ('d, 't) bg_sink \<Rightarrow> ('d, 't) bg_sink \<times> (unit, bg_error) result option" where
  "resume_send c i s =
     (if length (bg_waiting s) \<le> i then (s, None)
      else let m = bg_waiting s ! i; s1 = s\<lparr>bg_waiting := drop_nth i (bg_waiting s)\<rparr> in
        if bg_closed s then
          (case m of SinkData _ \<Rightarrow> s1\<lparr>bg_pending := bg_pending s1 - 1\<rparr> | Barrier _ \<Rightarrow> s1, Some (Err BgClosed))
        else if queue_full c s then (s, None)
        else (admit_msg m s1, Some (Ok ())))"

definition cancel_send :: "nat \<Rightarrow> ('d, 't) bg_sink \<Rightarrow> ('d, 't) bg_sink" where
  "cancel_send i s = s\<lparr>bg_waiting := drop_nth i (bg_waiting s)\<rparr>"

subsection \<open>The actor\<close>

definition bg_note :: "'t bg_event \<Rightarrow> ('d, 't) bg_sink \<Rightarrow> ('d, 't) bg_sink" where
  "bg_note e s = s\<lparr>bg_log := bg_log s @ [e]\<rparr>"

definition write_batch_with_metrics :: "('d, 't) sink_drain \<Rightarrow> 't list \<Rightarrow> ('d, 't) bg_sink \<Rightarrow>
    ('d, 't) bg_sink \<times> (unit, drain_error) result" where
  "write_batch_with_metrics D b s =
     (case write_batch D (bg_drain s) b of
        (d, r) \<Rightarrow> (bg_note (Wrote b (is_ok r)) (s\<lparr>bg_pending := bg_pending s - of_nat (length b), bg_drain := d\<rparr>), r))"

definition flush_batch :: "('d, 't) sink_drain \<Rightarrow> ('d, 't) bg_sink \<Rightarrow> ('d, 't) bg_sink \<times> (unit, drain_error) result" where
  "flush_batch D s = (if bg_batch s = [] then (s, Ok ())
     else write_batch_with_metrics D (bg_batch s) (s\<lparr>bg_batch := []\<rparr>))"

definition result_and :: "(unit, 'e) result \<Rightarrow> (unit, 'e) result \<Rightarrow> (unit, 'e) result" where
  "result_and a b = (case a of Inl e \<Rightarrow> Err e | Inr _ \<Rightarrow> b)"

definition barrier_drain :: "('d, 't) sink_drain \<Rightarrow> ('d, 't) bg_sink \<Rightarrow> ('d, 't) bg_sink \<times> (unit, drain_error) result" where
  "barrier_drain D s =
     (case flush_batch D s of
        (s1, write_result) \<Rightarrow>
          (case flush_durable D (bg_drain s1) of
             (d, durable_result) \<Rightarrow>
               (bg_note (Flushed (is_ok durable_result)) (s1\<lparr>bg_drain := d\<rparr>), result_and write_result durable_result)))"

fun on_msg :: "bg_config \<Rightarrow> ('d, 't) sink_drain \<Rightarrow> 't sink_msg \<Rightarrow> ('d, 't) bg_sink \<Rightarrow> ('d, 't) bg_sink" where
  "on_msg c D (SinkData t) s =
     (let s1 = s\<lparr>bg_batch := bg_batch s @ [t]\<rparr> in
      if batch_size c \<le> of_nat (length (bg_batch s1)) then fst (flush_batch D s1) else s1)"
| "on_msg c D (Barrier k) s = (case barrier_drain D s of (s1, r) \<Rightarrow> bg_note (Acked k r) s1)"

definition actor_recv :: "bg_config \<Rightarrow> ('d, 't) sink_drain \<Rightarrow> ('d, 't) bg_sink \<Rightarrow> ('d, 't) bg_sink" where
  "actor_recv c D s = (case bg_queue s of [] \<Rightarrow> s | m # q \<Rightarrow> on_msg c D m (s\<lparr>bg_queue := q\<rparr>))"

definition actor_tick :: "('d, 't) sink_drain \<Rightarrow> ('d, 't) bg_sink \<Rightarrow> ('d, 't) bg_sink" where
  "actor_tick D s = fst (flush_batch D s)"

fun drain_queue :: "bg_config \<Rightarrow> ('d, 't) sink_drain \<Rightarrow> 't sink_msg list \<Rightarrow> ('d, 't) bg_sink \<Rightarrow> ('d, 't) bg_sink" where
  "drain_queue c D [] s = s"
| "drain_queue c D (m # q) s = drain_queue c D q (on_msg c D m (s\<lparr>bg_queue := q\<rparr>))"

definition actor_exit :: "('d, 't) sink_drain \<Rightarrow> ('d, 't) bg_sink \<Rightarrow> ('d, 't) bg_sink" where
  "actor_exit D s = (let s1 = fst (flush_batch D s) in
     bg_note DrainClosed (s1\<lparr>bg_drain := fst (drain_close D (bg_drain s1)), bg_closed := True, bg_exited := True\<rparr>))"

definition actor_shutdown :: "bg_config \<Rightarrow> ('d, 't) sink_drain \<Rightarrow> ('d, 't) bg_sink \<Rightarrow> ('d, 't) bg_sink" where
  "actor_shutdown c D s = (let s1 = fst (flush_batch D (s\<lparr>bg_closed := True\<rparr>)) in
     actor_exit D (drain_queue c D (bg_queue s1) s1))"

text \<open>The senders are gone: \<open>recv\<close> answers \<open>None\<close> once the channel is empty.\<close>

definition actor_hangup :: "('d, 't) sink_drain \<Rightarrow> ('d, 't) bg_sink \<Rightarrow> ('d, 't) bg_sink" where
  "actor_hangup D s = (if bg_queue s = [] \<and> bg_waiting s = [] then actor_exit D s else s)"

subsection \<open>Runs\<close>

datatype 't bg_op = EvTryPush 't | EvPush 't | EvFlush nat | EvResume nat | EvCancel nat
  | EvRecv | EvTick | EvShutdown | EvHangup

definition actor_step :: "(('d, 't) bg_sink \<Rightarrow> ('d, 't) bg_sink) \<Rightarrow> ('d, 't) bg_sink \<Rightarrow> ('d, 't) bg_sink" where
  "actor_step f s = (if bg_exited s then s else f s)"

fun bg_step :: "bg_config \<Rightarrow> ('d, 't) sink_drain \<Rightarrow> 't bg_op \<Rightarrow> ('d, 't) bg_sink \<Rightarrow> ('d, 't) bg_sink" where
  "bg_step c D (EvTryPush m) s = fst (try_push c m s)"
| "bg_step c D (EvPush m) s = push_blocking m s"
| "bg_step c D (EvFlush k) s = flush_begin k s"
| "bg_step c D (EvResume i) s = fst (resume_send c i s)"
| "bg_step c D (EvCancel i) s = cancel_send i s"
| "bg_step c D EvRecv s = actor_step (actor_recv c D) s"
| "bg_step c D EvTick s = actor_step (actor_tick D) s"
| "bg_step c D EvShutdown s = actor_step (actor_shutdown c D) s"
| "bg_step c D EvHangup s = actor_step (actor_hangup D) s"

definition bg_run :: "bg_config \<Rightarrow> ('d, 't) sink_drain \<Rightarrow> 't bg_op list \<Rightarrow> ('d, 't) bg_sink \<Rightarrow> ('d, 't) bg_sink" where
  "bg_run c D = fold (bg_step c D)"

subsection \<open>Order and batches\<close>

text \<open>What the log says was taken from the channel: the messages of every write, and the
  barrier of every acknowledgement, in order.\<close>

definition taken :: "'t bg_event list \<Rightarrow> 't sink_msg list" where
  "taken es = concat (map (\<lambda>e. case e of Wrote b _ \<Rightarrow> map SinkData b | Acked k _ \<Rightarrow> [Barrier k] | _ \<Rightarrow> []) es)"

lemma taken_append [simp]: "taken (es @ es') = taken es @ taken es'"
  by (simp add: taken_def)

lemma taken_simps [simp]:
  "taken [] = []" "taken (Wrote b ok # es) = map SinkData b @ taken es" "taken (Flushed ok # es) = taken es"
  "taken (Acked k r # es) = Barrier k # taken es" "taken (DrainClosed # es) = taken es"
  by (simp_all add: taken_def)

definition batch_bound :: "bg_config \<Rightarrow> nat" where
  "batch_bound c = max 1 (unat (batch_size c))"

definition write_ok :: "bg_config \<Rightarrow> 't bg_event \<Rightarrow> bool" where
  "write_ok c e = (case e of Wrote b _ \<Rightarrow> b \<noteq> [] \<and> length b \<le> batch_bound c | _ \<Rightarrow> True)"

lemma write_ok_simps [simp]:
  "write_ok c (Wrote b ok) \<longleftrightarrow> b \<noteq> [] \<and> length b \<le> batch_bound c"
  "write_ok c (Flushed ok)" "write_ok c (Acked k r)" "write_ok c DrainClosed"
  by (simp_all add: write_ok_def)

text \<open>What an acknowledgement rests on: \<open>Ok\<close> only right after a successful durability flush,
  an error only when that flush or the write just before it failed.\<close>

definition ack_cause :: "'t bg_event list \<Rightarrow> (unit, drain_error) result \<Rightarrow> bool" where
  "ack_cause l1 r \<longleftrightarrow> (\<exists>l0 f. l1 = l0 @ [Flushed f] \<and> (is_ok r \<longrightarrow> f)
     \<and> (\<not> is_ok r \<longrightarrow> \<not> f \<or> (\<exists>l b. l0 = l @ [Wrote b False])))"

definition acks_ok :: "'t bg_event list \<Rightarrow> bool" where
  "acks_ok es \<longleftrightarrow> (\<forall>l1 k r l2. es = l1 @ Acked k r # l2 \<longrightarrow> ack_cause l1 r)"

lemma acks_nil [simp]: "acks_ok []"
  by (simp add: acks_ok_def)

lemma acks_snoc: "acks_ok (es @ [e]) \<longleftrightarrow> acks_ok es \<and> (\<forall>k r. e = Acked k r \<longrightarrow> ack_cause es r)"
proof
  assume *: "acks_ok (es @ [e])"
  have "ack_cause l1 r" if "es = l1 @ Acked k r # l2" for l1 k r l2
    using * that by (auto simp: acks_ok_def)
  moreover have "ack_cause es r" if "e = Acked k r" for k r
    using * that by (auto simp: acks_ok_def)
  ultimately show "acks_ok es \<and> (\<forall>k r. e = Acked k r \<longrightarrow> ack_cause es r)" by (auto simp: acks_ok_def)
next
  assume *: "acks_ok es \<and> (\<forall>k r. e = Acked k r \<longrightarrow> ack_cause es r)"
  have "ack_cause l1 r" if "es @ [e] = l1 @ Acked k r # l2" for l1 k r l2
    using that * by (cases l2 rule: rev_cases) (auto simp: acks_ok_def)
  then show "acks_ok (es @ [e])" by (simp add: acks_ok_def)
qed

lemma acks_simps [simp]:
  "acks_ok (es @ [Wrote b ok]) = acks_ok es" "acks_ok (es @ [Flushed ok]) = acks_ok es"
  "acks_ok (es @ [DrainClosed]) = acks_ok es"
  by (simp_all add: acks_snoc)

lemma acks_barrier:
  assumes "acks_ok es" and "is_ok w" shows "acks_ok (es @ [Flushed (is_ok r), Acked k (result_and w r)])"
proof -
  have "ack_cause (es @ [Flushed (is_ok r)]) (result_and w r)"
    using assms(2) by (cases w) (auto simp: ack_cause_def result_and_def)
  then show ?thesis using assms(1) acks_snoc [of "es @ [Flushed (is_ok r)]" "Acked k (result_and w r)"] by simp
qed

lemma acks_barrier_write:
  assumes "acks_ok es" shows "acks_ok (es @ [Wrote b (is_ok w), Flushed (is_ok r), Acked k (result_and w r)])"
proof -
  have "ack_cause (es @ [Wrote b (is_ok w), Flushed (is_ok r)]) (result_and w r)"
    unfolding ack_cause_def by (rule exI [of _ "es @ [Wrote b (is_ok w)]"], cases w) (auto simp: result_and_def)
  moreover have "acks_ok (es @ [Wrote b (is_ok w), Flushed (is_ok r)])"
    using assms acks_snoc [of "es @ [Wrote b (is_ok w)]" "Flushed (is_ok r)"] by simp
  ultimately show ?thesis
    using acks_snoc [of "es @ [Wrote b (is_ok w), Flushed (is_ok r)]" "Acked k (result_and w r)"] by simp
qed

definition order_ok :: "bg_config \<Rightarrow> ('d, 't) bg_sink \<Rightarrow> bool" where
  "order_ok c s \<longleftrightarrow> taken (bg_log s) @ map SinkData (bg_batch s) @ bg_queue s = bg_admitted s
     \<and> length (bg_batch s) < batch_bound c \<and> list_all (write_ok c) (bg_log s)
     \<and> acks_ok (bg_log s) \<and> length (bg_queue s) \<le> unat (queue_capacity c)"

lemmas bg_defs = try_push_def push_blocking_def flush_begin_def resume_send_def cancel_send_def admit_msg_def
  queue_full_def

lemmas bg_actor_defs = write_batch_with_metrics_def flush_batch_def bg_note_def

text \<open>The effect of one write, with its batch emptied.\<close>

lemma flush_batch_effect:
  "\<exists>d ok. fst (flush_batch D s) = (if bg_batch s = [] then s else
     s\<lparr>bg_batch := [], bg_pending := bg_pending s - of_nat (length (bg_batch s)), bg_drain := d,
       bg_log := bg_log s @ [Wrote (bg_batch s) ok]\<rparr>)
     \<and> (if bg_batch s = [] then is_ok (snd (flush_batch D s)) else ok = is_ok (snd (flush_batch D s)))"
proof (cases "write_batch D (bg_drain s) (bg_batch s)")
  case (Pair d r)
  then show ?thesis by (intro exI [of _ d] exI [of _ "is_ok r"]) (cases s, simp add: bg_actor_defs)
qed

lemma flush_batch_order:
  assumes "taken (bg_log s) @ map SinkData (bg_batch s) @ bg_queue s = bg_admitted s"
    and "length (bg_batch s) \<le> batch_bound c" "list_all (write_ok c) (bg_log s)"
    and "acks_ok (bg_log s)" "length (bg_queue s) \<le> unat (queue_capacity c)"
  shows "order_ok c (fst (flush_batch D s)) \<and> bg_batch (fst (flush_batch D s)) = []
    \<and> bg_queue (fst (flush_batch D s)) = bg_queue s \<and> bg_admitted (fst (flush_batch D s)) = bg_admitted s"
proof -
  have "0 < batch_bound c" by (simp add: batch_bound_def)
  moreover obtain d ok where "fst (flush_batch D s) = (if bg_batch s = [] then s else
     s\<lparr>bg_batch := [], bg_pending := bg_pending s - of_nat (length (bg_batch s)), bg_drain := d,
       bg_log := bg_log s @ [Wrote (bg_batch s) ok]\<rparr>)"
    using flush_batch_effect [of D s] by blast
  ultimately show ?thesis using assms by (cases "bg_batch s = []") (simp_all add: order_ok_def)
qed

lemma batch_full_iff:
  assumes "length b < batch_bound c"
  shows "batch_size c \<le> of_nat (Suc (length b)) \<longleftrightarrow> batch_bound c = Suc (length b)"
proof -
  have "unat (batch_size c) < 2 ^ 64" using unsigned_less [of "batch_size c"] by simp
  then have "Suc (length b) < 2 ^ 64" using assms by (auto simp: batch_bound_def max_def split: if_splits)
  then have "unat (of_nat (Suc (length b)) :: u64) = Suc (length b)" by (simp add: unat_of_nat del: of_nat_Suc)
  then show ?thesis using assms by (auto simp: word_le_nat_alt batch_bound_def max_def simp del: of_nat_Suc split: if_splits)
qed

lemma on_msg_order:
  assumes "taken (bg_log s) @ map SinkData (bg_batch s) @ m # bg_queue s = bg_admitted s"
    and "length (bg_batch s) < batch_bound c" "list_all (write_ok c) (bg_log s)"
    and "acks_ok (bg_log s)" "length (bg_queue s) \<le> unat (queue_capacity c)"
  shows "order_ok c (on_msg c D m s) \<and> bg_queue (on_msg c D m s) = bg_queue s
    \<and> bg_admitted (on_msg c D m s) = bg_admitted s"
proof (cases m)
  case (SinkData t)
  let ?s = "s\<lparr>bg_batch := bg_batch s @ [t]\<rparr>"
  show ?thesis
  proof (cases "batch_size c \<le> of_nat (Suc (length (bg_batch s)))")
    case True
    then have "length (bg_batch ?s) \<le> batch_bound c" using assms(2) by simp
    then show ?thesis using flush_batch_order [of ?s c D] assms True SinkData by (simp del: of_nat_Suc)
  next
    case False
    then have "Suc (length (bg_batch s)) < batch_bound c"
      using batch_full_iff [OF assms(2)] assms(2) by auto
    then show ?thesis using assms False SinkData by (simp add: order_ok_def del: of_nat_Suc)
  qed
next
  case (Barrier k)
  obtain s1 w where 1: "flush_batch D s = (s1, w)" by fastforce
  obtain d r where 2: "flush_durable D (bg_drain s1) = (d, r)" by fastforce
  have 3: "0 < batch_bound c" by (simp add: batch_bound_def)
  show ?thesis
  proof (cases "bg_batch s = []")
    case True
    then have "s1 = s" "is_ok w" using 1 by (auto simp: flush_batch_def)
    then show ?thesis using assms 2 3 Barrier True acks_barrier [of "bg_log s" w r k]
      by (simp add: 1 barrier_drain_def bg_note_def order_ok_def)
  next
    case False
    obtain d' where "s1 = s\<lparr>bg_batch := [], bg_pending := bg_pending s - of_nat (length (bg_batch s)), bg_drain := d',
       bg_log := bg_log s @ [Wrote (bg_batch s) (is_ok w)]\<rparr>"
      using flush_batch_effect [of D s] 1 False by auto
    then show ?thesis using assms 2 3 Barrier False acks_barrier_write [of "bg_log s" "bg_batch s" w r k]
      by (simp add: 1 barrier_drain_def bg_note_def order_ok_def)
  qed
qed

lemma take_msg_order:
  assumes "order_ok c s" and "bg_queue s = m # q"
  shows "order_ok c (on_msg c D m (s\<lparr>bg_queue := q\<rparr>)) \<and> bg_queue (on_msg c D m (s\<lparr>bg_queue := q\<rparr>)) = q
    \<and> bg_admitted (on_msg c D m (s\<lparr>bg_queue := q\<rparr>)) = bg_admitted s"
  using on_msg_order [of "s\<lparr>bg_queue := q\<rparr>" m c D] assms by (auto simp: order_ok_def)

lemma drain_queue_order:
  assumes "order_ok c s" and "bg_queue s = q"
  shows "order_ok c (drain_queue c D q s) \<and> bg_queue (drain_queue c D q s) = []"
  using assms
proof (induction q arbitrary: s)
  case (Cons m q)
  then show ?case using take_msg_order [OF Cons.prems, of D] by simp
qed simp

lemma flush_order:
  assumes "order_ok c s"
  shows "order_ok c (fst (flush_batch D s)) \<and> bg_batch (fst (flush_batch D s)) = []
    \<and> bg_queue (fst (flush_batch D s)) = bg_queue s"
  using flush_batch_order [of s c D] assms by (auto simp: order_ok_def)

lemma exit_order:
  assumes "order_ok c s" and "bg_queue s = []"
  shows "order_ok c (actor_exit D s) \<and> bg_batch (actor_exit D s) = [] \<and> bg_queue (actor_exit D s) = []
    \<and> bg_closed (actor_exit D s) \<and> bg_exited (actor_exit D s)"
  using flush_order [OF assms(1), of D] assms(2) by (auto simp: actor_exit_def bg_note_def Let_def order_ok_def)

definition exit_ok :: "('d, 't) bg_sink \<Rightarrow> bool" where
  "exit_ok s \<longleftrightarrow> (bg_exited s \<longrightarrow> bg_closed s \<and> bg_batch s = [] \<and> bg_queue s = [])"

lemma admit_order:
  assumes "order_ok c s" and "\<not> queue_full c s"
  shows "order_ok c (admit_msg m s)"
  using assms by (auto simp: order_ok_def admit_msg_def queue_full_def)

lemma order_irrelevant [simp]:
  "order_ok c (s\<lparr>bg_pending := p\<rparr>) = order_ok c s" "order_ok c (s\<lparr>bg_waiting := w\<rparr>) = order_ok c s"
  "order_ok c (s\<lparr>bg_dropped := n\<rparr>) = order_ok c s" "order_ok c (s\<lparr>bg_closed := b\<rparr>) = order_ok c s"
  "queue_full c (s\<lparr>bg_pending := p\<rparr>) = queue_full c s" "queue_full c (s\<lparr>bg_waiting := w\<rparr>) = queue_full c s"
  by (simp_all add: order_ok_def queue_full_def)

lemma shutdown_order:
  assumes "order_ok c s"
  shows "order_ok c (actor_shutdown c D s) \<and> exit_ok (actor_shutdown c D s)"
proof -
  let ?s1 = "fst (flush_batch D (s\<lparr>bg_closed := True\<rparr>))"
  have 1: "order_ok c ?s1" using flush_order [of c "s\<lparr>bg_closed := True\<rparr>" D] assms by simp
  then have "order_ok c (drain_queue c D (bg_queue ?s1) ?s1) \<and> bg_queue (drain_queue c D (bg_queue ?s1) ?s1) = []"
    using drain_queue_order [OF 1 refl, of D] by blast
  then show ?thesis using exit_order [of c "drain_queue c D (bg_queue ?s1) ?s1" D]
    by (simp add: actor_shutdown_def Let_def exit_ok_def)
qed

lemma on_msg_flags: "bg_exited (on_msg c D m s) = bg_exited s \<and> bg_closed (on_msg c D m s) = bg_closed s"
  by (cases m) (auto simp: barrier_drain_def bg_actor_defs Let_def split: prod.splits)

lemma on_msg_queue: "bg_queue (on_msg c D m s) = bg_queue s"
  by (cases m) (auto simp: barrier_drain_def bg_actor_defs Let_def split: prod.splits)

lemma recv_order:
  assumes "order_ok c s" and "\<not> bg_exited s"
  shows "order_ok c (actor_recv c D s) \<and> exit_ok (actor_recv c D s)"
proof (cases "bg_queue s")
  case (Cons m q)
  from take_msg_order [OF assms(1) Cons, of D] show ?thesis using Cons assms(2) on_msg_flags [of c D m "s\<lparr>bg_queue := q\<rparr>"]
    by (simp add: actor_recv_def exit_ok_def)
qed (use assms in \<open>simp add: actor_recv_def exit_ok_def\<close>)

lemma tick_order:
  assumes "order_ok c s" and "\<not> bg_exited s"
  shows "order_ok c (actor_tick D s) \<and> exit_ok (actor_tick D s)"
proof -
  have "bg_exited (fst (flush_batch D s)) = bg_exited s"
    by (auto simp: bg_actor_defs split: prod.splits)
  then show ?thesis using flush_order [OF assms(1), of D] assms(2) by (simp add: actor_tick_def exit_ok_def)
qed

lemma bg_step_order:
  assumes "order_ok c s" and "exit_ok s"
  shows "order_ok c (bg_step c D ev s) \<and> exit_ok (bg_step c D ev s)"
proof (cases ev)
  case (EvTryPush m)
  then show ?thesis using assms admit_order [of c "s\<lparr>bg_pending := bg_pending s + 1\<rparr>" "SinkData m"]
    by (auto simp: try_push_def Let_def exit_ok_def admit_msg_def split: overflow.splits)
next
  case (EvResume i)
  then show ?thesis
    using assms admit_order [of c "s\<lparr>bg_waiting := drop_nth i (bg_waiting s)\<rparr>" "bg_waiting s ! i"]
    by (auto simp: resume_send_def Let_def exit_ok_def admit_msg_def split: sink_msg.splits)
next
  case EvRecv
  then show ?thesis using assms recv_order [of c s D] by (simp add: actor_step_def)
next
  case EvTick
  then show ?thesis using assms tick_order [of c s D] by (simp add: actor_step_def)
next
  case EvShutdown
  then show ?thesis using assms shutdown_order [of c s D] by (simp add: actor_step_def)
next
  case EvHangup
  then show ?thesis using assms exit_order [of c s D] by (simp add: actor_step_def actor_hangup_def exit_ok_def)
qed (use assms in \<open>simp_all add: push_blocking_def flush_begin_def cancel_send_def exit_ok_def\<close>)

lemma bg_run_order:
  assumes "order_ok c s" and "exit_ok s"
  shows "order_ok c (bg_run c D ops s) \<and> exit_ok (bg_run c D ops s)"
  using assms unfolding bg_run_def
  by (induction ops arbitrary: s) (simp_all add: bg_step_order)

lemma bg_spawn_ok:
  assumes "bg_spawn c d = Some s"
  shows "order_ok c s \<and> exit_ok s"
  using assms by (auto simp: bg_spawn_def order_ok_def exit_ok_def batch_bound_def split: if_splits)

text \<open>C9. The background sink neither loses, duplicates nor reorders what it accepted: in every
  interleaving of pushes, flushes, cancellations, actor steps, timer ticks and shutdown,
  the messages handed to the drain, then the current batch, then the channel are exactly
  the messages and barriers admitted, in admission order; every batch handed over is
  non-empty and no longer than the batch size (a size of zero counts as one); the channel
  stays within its capacity; and once the actor has exited everything admitted has been
  handed over, each flush acknowledged at its place.
\<close>

theorem sink_hands_over_in_order:
  assumes "bg_spawn c d = Some s0" and "bg_run c D ops s0 = s"
  shows "taken (bg_log s) @ map SinkData (bg_batch s) @ bg_queue s = bg_admitted s
    \<and> (bg_exited s \<longrightarrow> taken (bg_log s) = bg_admitted s)
    \<and> list_all (write_ok c) (bg_log s) \<and> length (bg_queue s) \<le> unat (queue_capacity c)"
  using bg_run_order [of c s0 D ops] bg_spawn_ok [OF assms(1)] assms(2)
  by (auto simp: order_ok_def exit_ok_def)

definition demo_drain :: "(nat, nat) sink_drain" where
  "demo_drain = \<lparr>write_batch = (\<lambda>d b. (Suc d, if d = 0 then Err (DrainIo ''down'') else Ok ())),
     flush_durable = (\<lambda>d. (d, Ok ())), drain_close = (\<lambda>d. (d, Ok ()))\<rparr>"

definition demo_bg_config :: bg_config where
  "demo_bg_config = \<lparr>queue_capacity = 4, batch_size = 2, bg_overflow = OverflowDrop\<rparr>"

definition demo_bg_ops :: "nat bg_op list" where
  "demo_bg_ops = [EvTryPush 7, EvTryPush 8, EvPush 9, EvResume 0, EvRecv, EvRecv, EvFlush 1, EvResume 0, EvRecv, EvRecv, EvShutdown]"

lemmas demo_bg_defs = demo_drain_def demo_bg_config_def demo_bg_ops_def bg_spawn_def bg_run_def bg_defs bg_actor_defs
  actor_step_def actor_recv_def actor_shutdown_def actor_exit_def barrier_drain_def result_and_def drop_nth_def Let_def

lemma demo_bg_spawn: "bg_spawn demo_bg_config d = Some (the (bg_spawn demo_bg_config d))"
  by (simp add: bg_spawn_def demo_bg_config_def)

lemma demo_bg_run:
  "bg_run demo_bg_config demo_drain demo_bg_ops (the (bg_spawn demo_bg_config 0)) =
     \<lparr>bg_queue = [], bg_waiting = [], bg_closed = True, bg_batch = [], bg_pending = 0, bg_dropped = 0, bg_drain = 2,
      bg_exited = True, bg_admitted = [SinkData 7, SinkData 8, SinkData 9, Barrier 1],
      bg_log = [Wrote [7, 8] False, Wrote [9] True, Flushed True, Acked 1 (Ok ()), DrainClosed]\<rparr>"
  by (simp add: demo_bg_defs word_le_nat_alt)

theorem sink_hands_over_in_order_witness:
  "taken [Wrote [7, 8] False, Wrote [9] True, Flushed True, Acked 1 (Ok ()), DrainClosed]
     = [SinkData 7, SinkData 8, SinkData (9::nat), Barrier 1]"
  using sink_hands_over_in_order [of demo_bg_config 0 "the (bg_spawn demo_bg_config 0)", OF demo_bg_spawn demo_bg_run]
  by simp

subsection \<open>Flush\<close>

text \<open>A flush is a barrier: when \<open>flush\<close> number \<open>k\<close> is acknowledged, what has been handed to
  the drain is exactly what was admitted before the barrier, nothing later; it is
  acknowledged with \<open>Ok\<close> only right after the drain's durability flush succeeded, and with
  an error only when that flush or the write just before it failed.
\<close>

theorem flush_is_a_barrier:
  assumes "bg_spawn c d = Some s0" and "bg_run c D ops s0 = s" and "bg_log s = l1 @ Acked k r # l2"
  shows "(\<exists>later. bg_admitted s = taken l1 @ Barrier k # later) \<and> ack_cause l1 r"
proof -
  have "order_ok c s" using bg_run_order [of c s0 D ops] bg_spawn_ok [OF assms(1)] assms(2) by blast
  then have *: "taken (bg_log s) @ map SinkData (bg_batch s) @ bg_queue s = bg_admitted s" "acks_ok (bg_log s)"
    by (simp_all add: order_ok_def)
  from *(1) have "bg_admitted s = taken l1 @ Barrier k # (taken l2 @ map SinkData (bg_batch s) @ bg_queue s)"
    using assms(3) by (metis append.assoc append_Cons taken_append taken_simps(4))
  moreover have "ack_cause l1 r" using *(2) assms(3) unfolding acks_ok_def by blast
  ultimately show ?thesis by blast
qed

theorem flush_is_a_barrier_witness:
  "\<exists>later. [SinkData 7, SinkData 8, SinkData 9, Barrier 1]
     = taken [Wrote [7, 8] False, Wrote [9] True, Flushed True] @ Barrier 1 # (later :: nat sink_msg list)"
  using flush_is_a_barrier [of demo_bg_config 0 "the (bg_spawn demo_bg_config 0)" demo_drain demo_bg_ops _
      "[Wrote [7, 8] False, Wrote [9] True, Flushed True]" 1 "Ok ()" "[DrainClosed]", OF demo_bg_spawn demo_bg_run]
  by simp

text \<open>
  The acknowledgement does not cover earlier writes: a batch that failed when it was handed
  over by size or by the timer is lost, and the next flush still answers \<open>Ok\<close>.
\<close>

lemma flush_hides_earlier_failure:
  "\<exists>ops :: nat bg_op list. \<exists>s. bg_run demo_bg_config demo_drain ops (the (bg_spawn demo_bg_config 0)) = s
     \<and> bg_log s = [Wrote [7, 8] False, Wrote [9] True, Flushed True, Acked 1 (Ok ()), DrainClosed]"
  using demo_bg_run by (intro exI) auto

lemma recv_drains:
  assumes "order_ok c s" and "exit_ok s" and "\<not> bg_exited s" and "n = length (bg_queue s)"
  shows "bg_queue (bg_run c D (replicate n EvRecv) s) = []
    \<and> bg_admitted (bg_run c D (replicate n EvRecv) s) = bg_admitted s \<and> order_ok c (bg_run c D (replicate n EvRecv) s)"
  using assms
proof (induction n arbitrary: s)
  case (Suc n)
  then obtain m q where q: "bg_queue s = m # q" by (cases "bg_queue s") auto
  let ?s = "on_msg c D m (s\<lparr>bg_queue := q\<rparr>)"
  have step: "bg_step c D EvRecv s = ?s" using Suc.prems(3) q by (simp add: actor_step_def actor_recv_def)
  have "\<not> bg_exited ?s" using on_msg_flags [of c D m "s\<lparr>bg_queue := q\<rparr>"] Suc.prems(3) by simp
  then show ?case
    using Suc.IH [of ?s] take_msg_order [OF Suc.prems(1) q, of D] Suc.prems(4) q step
    by (simp add: bg_run_def exit_ok_def)
qed (simp add: bg_run_def)

text \<open>C27. Every flush returns: while the actor lives, a barrier in the channel is acknowledged
  after at most as many receives as there are messages in the channel, whatever the drain
  answers.
\<close>

theorem flush_returns:
  assumes "bg_spawn c d = Some s0" and "bg_run c D ops s0 = s" and "\<not> bg_exited s" and "Barrier k \<in> set (bg_queue s)"
  shows "\<exists>r. Acked k r \<in> set (bg_log (bg_run c D (replicate (length (bg_queue s)) EvRecv) s))"
proof -
  let ?t = "bg_run c D (replicate (length (bg_queue s)) EvRecv) s"
  have s: "order_ok c s" "exit_ok s"
    using bg_run_order [of c s0 D ops] bg_spawn_ok [OF assms(1)] assms(2) by blast+
  have t: "bg_queue ?t = []" "bg_admitted ?t = bg_admitted s" "order_ok c ?t"
    using recv_drains [OF s assms(3) refl, of D] by blast+
  have "Barrier k \<in> set (bg_admitted s)" using s(1) assms(4) unfolding order_ok_def by (metis UnCI set_append)
  then have "Barrier k \<in> set (taken (bg_log ?t) @ map SinkData (bg_batch ?t))"
    using t unfolding order_ok_def by simp
  then have "Barrier k \<in> set (taken (bg_log ?t))" by auto
  then obtain e where "e \<in> set (bg_log ?t)"
      "Barrier k \<in> set (case e of Wrote b _ \<Rightarrow> map SinkData b | Acked k _ \<Rightarrow> [Barrier k] | _ \<Rightarrow> [])"
    by (auto simp: taken_def)
  moreover from this(2) have "\<exists>r. e = Acked k r" by (cases e) auto
  ultimately show ?thesis by blast
qed

lemma demo_bg_queued:
  "bg_run demo_bg_config demo_drain [EvTryPush 7, EvFlush 1, EvResume 0] (the (bg_spawn demo_bg_config 0)) =
     \<lparr>bg_queue = [SinkData 7, Barrier 1], bg_waiting = [], bg_closed = False, bg_batch = [], bg_pending = 1,
      bg_dropped = 0, bg_drain = 0, bg_exited = False, bg_admitted = [SinkData 7, Barrier 1], bg_log = []\<rparr>"
  by (simp add: demo_bg_defs)

theorem flush_returns_witness:
  "\<exists>r s. Acked 1 r \<in> set (bg_log (bg_run demo_bg_config demo_drain (replicate 2 EvRecv) s))"
  using flush_returns [of demo_bg_config 0 "the (bg_spawn demo_bg_config 0)" demo_drain
    "[EvTryPush 7, EvFlush 1, EvResume 0]" _ 1, OF demo_bg_spawn demo_bg_queued]
  by (auto simp: numeral_2_eq_2)

subsection \<open>The pending counter\<close>

definition ndata :: "'t sink_msg list \<Rightarrow> nat" where
  "ndata ms = length (filter (\<lambda>m. case m of SinkData _ \<Rightarrow> True | Barrier _ \<Rightarrow> False) ms)"

lemma ndata_simps [simp]:
  "ndata [] = 0" "ndata (xs @ ys) = ndata xs + ndata ys" "ndata (SinkData t # xs) = Suc (ndata xs)"
  "ndata (Barrier k # xs) = ndata xs"
  by (simp_all add: ndata_def)

lemma ndata_drop_nth:
  "i < length ms \<Longrightarrow> ndata ms = ndata [ms ! i] + ndata (drop_nth i ms)"
  by (subst id_take_nth_drop [of i ms]) (simp_all add: drop_nth_def ndata_def)

text \<open>The difference between the counter and what is in the channel, the batch or awaiting a slot.\<close>

definition pending_gap :: "('d, 't) bg_sink \<Rightarrow> u64" where
  "pending_gap s = bg_pending s - of_nat (length (bg_batch s) + ndata (bg_queue s) + ndata (bg_waiting s))"

definition leaks :: "'t bg_op \<Rightarrow> ('d, 't) bg_sink \<Rightarrow> nat" where
  "leaks ev s = (case ev of
     EvCancel i \<Rightarrow> (if i < length (bg_waiting s) then ndata [bg_waiting s ! i] else 0) | _ \<Rightarrow> 0)"

fun leaked :: "bg_config \<Rightarrow> ('d, 't) sink_drain \<Rightarrow> 't bg_op list \<Rightarrow> ('d, 't) bg_sink \<Rightarrow> nat" where
  "leaked c D [] s = 0"
| "leaked c D (ev # evs) s = leaks ev s + leaked c D evs (bg_step c D ev s)"

lemma flush_gap [simp]: "pending_gap (fst (flush_batch D s)) = pending_gap s"
  by (auto simp: bg_actor_defs pending_gap_def split: prod.splits)

lemma gap_irrelevant [simp]:
  "pending_gap (s\<lparr>bg_log := l\<rparr>) = pending_gap s" "pending_gap (s\<lparr>bg_drain := d\<rparr>) = pending_gap s"
  "pending_gap (s\<lparr>bg_closed := b\<rparr>) = pending_gap s" "pending_gap (s\<lparr>bg_exited := b\<rparr>) = pending_gap s"
  by (simp_all add: pending_gap_def)

lemma on_msg_gap:
  assumes "bg_queue s = m # q" shows "pending_gap (on_msg c D m (s\<lparr>bg_queue := q\<rparr>)) = pending_gap s"
proof (cases m)
  case (SinkData t)
  have "pending_gap (s\<lparr>bg_queue := q, bg_batch := bg_batch s @ [t]\<rparr>) = pending_gap s"
    using assms SinkData by (simp add: pending_gap_def)
  then show ?thesis using SinkData by (simp add: Let_def)
next
  case (Barrier k)
  have "pending_gap (s\<lparr>bg_queue := q\<rparr>) = pending_gap s" using assms Barrier by (simp add: pending_gap_def)
  moreover obtain s1 w where 1: "flush_batch D (s\<lparr>bg_queue := q\<rparr>) = (s1, w)" by fastforce
  ultimately have "pending_gap s1 = pending_gap s" using flush_gap [of D "s\<lparr>bg_queue := q\<rparr>"] by simp
  then show ?thesis using Barrier 1 by (simp add: barrier_drain_def bg_note_def split: prod.splits)
qed

lemma drain_queue_gap: "bg_queue s = q \<Longrightarrow> pending_gap (drain_queue c D q s) = pending_gap s"
proof (induction q arbitrary: s)
  case (Cons m q)
  then show ?case using on_msg_gap [OF Cons.prems, of c D] on_msg_queue [of c D m "s\<lparr>bg_queue := q\<rparr>"] by simp
qed simp

lemma exit_gap: "pending_gap (actor_exit D s) = pending_gap s"
  by (simp add: actor_exit_def bg_note_def Let_def)

lemma shutdown_gap: "pending_gap (actor_shutdown c D s) = pending_gap s"
  by (simp add: actor_shutdown_def Let_def exit_gap drain_queue_gap)

lemma resume_gap: "pending_gap (fst (resume_send c i s)) = pending_gap s"
proof (cases "i < length (bg_waiting s)")
  case True
  then show ?thesis using ndata_drop_nth [OF True]
    by (cases "bg_waiting s ! i") (auto simp: resume_send_def admit_msg_def Let_def pending_gap_def)
qed (simp add: resume_send_def)

lemma cancel_gap: "pending_gap (cancel_send i s) = pending_gap s + of_nat (leaks (EvCancel i) s)"
proof (cases "i < length (bg_waiting s)")
  case True
  then show ?thesis using ndata_drop_nth [OF True] by (simp add: cancel_send_def leaks_def pending_gap_def)
qed (simp add: cancel_send_def leaks_def drop_nth_def)

lemma try_push_gap: "pending_gap (fst (try_push c m s)) = pending_gap s"
  by (simp add: try_push_def admit_msg_def Let_def pending_gap_def split: overflow.split)

lemma push_gap: "pending_gap (push_blocking m s) = pending_gap s" "pending_gap (flush_begin k s) = pending_gap s"
  by (simp_all add: push_blocking_def flush_begin_def pending_gap_def)

lemma bg_step_gap: "pending_gap (bg_step c D ev s) = pending_gap s + of_nat (leaks ev s)"
proof (cases ev)
  case EvRecv
  then show ?thesis using on_msg_gap [of s _ _ c D]
    by (simp add: actor_step_def actor_recv_def leaks_def split: list.split)
next
  case (EvCancel i)
  then show ?thesis by (simp add: cancel_gap)
qed (simp_all add: leaks_def try_push_gap push_gap resume_gap actor_step_def actor_tick_def shutdown_gap
  actor_hangup_def exit_gap)

lemma bg_run_gap: "pending_gap (bg_run c D ops s) = pending_gap s + of_nat (leaked c D ops s)"
  unfolding bg_run_def by (induction ops arbitrary: s) (simp_all add: bg_step_gap)

text \<open>The pending counter is exact: in every interleaving it equals the messages in the
  channel, in the actor's batch and waiting for a slot, plus the \<open>push_blocking\<close> calls that
  were cancelled while they waited, each of which leaves the counter one too high for good.
\<close>

theorem sink_pending_exact:
  assumes "bg_spawn c d = Some s0" and "bg_run c D ops s0 = s"
  shows "bg_pending s = of_nat (length (bg_batch s) + ndata (bg_queue s) + ndata (bg_waiting s) + leaked c D ops s0)"
proof -
  have "pending_gap s0 = 0" using assms(1) by (auto simp: bg_spawn_def pending_gap_def split: if_splits)
  then have "pending_gap s = of_nat (leaked c D ops s0)" using bg_run_gap [of c D ops s0] assms(2) by simp
  then show ?thesis by (simp add: pending_gap_def algebra_simps)
qed

theorem sink_pending_exact_witness:
  "(1 :: u64) = of_nat (length [] + ndata [SinkData (7 :: nat), Barrier 1] + ndata ([] :: nat sink_msg list)
     + leaked demo_bg_config demo_drain [EvTryPush 7, EvFlush 1, EvResume 0] (the (bg_spawn demo_bg_config 0)))"
  using sink_pending_exact [of demo_bg_config 0 "the (bg_spawn demo_bg_config 0)", OF demo_bg_spawn demo_bg_queued]
  by simp

subsection \<open>Drains that account for what they are given\<close>

definition accounted :: "('d \<Rightarrow> 't set) \<Rightarrow> ('d \<Rightarrow> 't set) \<Rightarrow> ('d, 't) bg_sink \<Rightarrow> bool" where
  "accounted held refused s \<longleftrightarrow>
     (\<forall>b. (Wrote b True \<in> set (bg_log s) \<longrightarrow> set b \<subseteq> held (bg_drain s))
        \<and> (Wrote b False \<in> set (bg_log s) \<longrightarrow> set b \<subseteq> refused (bg_drain s)))"

lemma accounted_cong:
  "bg_log s = bg_log t \<Longrightarrow> bg_drain s = bg_drain t \<Longrightarrow> accounted h r s = accounted h r t"
  by (simp add: accounted_def)

lemma accounted_irrelevant [simp]:
  "accounted h r (s\<lparr>bg_pending := p\<rparr>) = accounted h r s" "accounted h r (s\<lparr>bg_queue := q\<rparr>) = accounted h r s"
  "accounted h r (s\<lparr>bg_waiting := q\<rparr>) = accounted h r s" "accounted h r (s\<lparr>bg_batch := b\<rparr>) = accounted h r s"
  "accounted h r (s\<lparr>bg_dropped := n\<rparr>) = accounted h r s" "accounted h r (s\<lparr>bg_closed := x\<rparr>) = accounted h r s"
  "accounted h r (s\<lparr>bg_exited := x\<rparr>) = accounted h r s" "accounted h r (s\<lparr>bg_admitted := a\<rparr>) = accounted h r s"
  by (simp_all add: accounted_def)

locale accounting_drain =
  fixes D :: "('d, 't) sink_drain" and held refused :: "'d \<Rightarrow> 't set"
  assumes write_keeps: "write_batch D d b = (d', r) \<Longrightarrow> held d \<subseteq> held d' \<and> refused d \<subseteq> refused d'"
    and write_adds: "write_batch D d b = (d', r) \<Longrightarrow> set b \<subseteq> (if is_ok r then held d' else refused d')"
    and flush_keeps: "flush_durable D d = (d', r) \<Longrightarrow> held d \<subseteq> held d' \<and> refused d \<subseteq> refused d'"
    and close_keeps: "drain_close D d = (d', r) \<Longrightarrow> held d \<subseteq> held d' \<and> refused d \<subseteq> refused d'"
begin

lemma grow:
  assumes "accounted held refused s" and "held (bg_drain s) \<subseteq> held d" and "refused (bg_drain s) \<subseteq> refused d"
    and "\<And>b. Wrote b True \<in> set es \<Longrightarrow> set b \<subseteq> held d" and "\<And>b. Wrote b False \<in> set es \<Longrightarrow> set b \<subseteq> refused d"
  shows "accounted held refused (s\<lparr>bg_drain := d, bg_log := bg_log s @ es\<rparr>)"
  using assms unfolding accounted_def by simp blast

lemma accounted_write:
  assumes "accounted held refused s" and "write_batch_with_metrics D b s = (s', r)"
  shows "accounted held refused s'"
proof -
  obtain d where d: "write_batch D (bg_drain s) b = (d, r)"
      "s' = s\<lparr>bg_pending := bg_pending s - of_nat (length b), bg_drain := d, bg_log := bg_log s @ [Wrote b (is_ok r)]\<rparr>"
    using assms(2) by (auto simp: write_batch_with_metrics_def bg_note_def split: prod.splits)
  have "accounted held refused (s\<lparr>bg_drain := d, bg_log := bg_log s @ [Wrote b (is_ok r)]\<rparr>)"
    using assms(1) write_keeps [OF d(1)] write_adds [OF d(1)] by (intro grow) (auto split: if_splits)
  then show ?thesis by (rule iffD1 [OF accounted_cong, rotated 2]) (simp_all add: d(2))
qed

lemma accounted_flush:
  assumes "accounted held refused s" and "flush_batch D s = (s', r)" shows "accounted held refused s'"
  using assms accounted_write [of "s\<lparr>bg_batch := []\<rparr>"] by (auto simp: flush_batch_def split: if_splits)

lemma accounted_on_msg:
  assumes "accounted held refused s" shows "accounted held refused (on_msg c D m s)"
proof (cases m)
  case (SinkData t)
  obtain s' r where "flush_batch D (s\<lparr>bg_batch := bg_batch s @ [t]\<rparr>) = (s', r)" by fastforce
  moreover from accounted_flush [OF _ this] have "accounted held refused s'" using assms by simp
  ultimately show ?thesis using SinkData assms by (simp add: Let_def)
next
  case (Barrier k)
  obtain s1 w where 1: "flush_batch D s = (s1, w)" by fastforce
  obtain d r where 2: "flush_durable D (bg_drain s1) = (d, r)" by fastforce
  have "accounted held refused (s1\<lparr>bg_drain := d, bg_log := bg_log s1 @ [Flushed (is_ok r), Acked k (result_and w r)]\<rparr>)"
    using accounted_flush [OF assms 1] flush_keeps [OF 2] by (intro grow) auto
  then show ?thesis using Barrier by (simp add: 1 2 barrier_drain_def bg_note_def)
qed

lemma accounted_drain_queue:
  "accounted held refused s \<Longrightarrow> accounted held refused (drain_queue c D q s)"
  by (induction q arbitrary: s) (simp_all add: accounted_on_msg)

lemma accounted_exit:
  assumes "accounted held refused s" shows "accounted held refused (actor_exit D s)"
proof -
  obtain s1 w where 1: "flush_batch D s = (s1, w)" by fastforce
  obtain d r where 2: "drain_close D (bg_drain s1) = (d, r)" by fastforce
  have "accounted held refused (s1\<lparr>bg_drain := d, bg_log := bg_log s1 @ [DrainClosed]\<rparr>)"
    using accounted_flush [OF assms 1] close_keeps [OF 2] by (intro grow) auto
  then show ?thesis by (rule iffD1 [OF accounted_cong, rotated 2]) (simp_all add: 1 2 actor_exit_def bg_note_def)
qed

lemma accounted_step:
  assumes "accounted held refused s" shows "accounted held refused (bg_step c D ev s)"
proof (cases ev)
  case (EvTryPush m)
  then show ?thesis using assms by (simp add: try_push_def admit_msg_def Let_def split: overflow.split)
next
  case (EvResume i)
  then show ?thesis using assms by (simp add: resume_send_def admit_msg_def Let_def split: sink_msg.split)
next
  case EvRecv
  then show ?thesis using assms accounted_on_msg by (simp add: actor_step_def actor_recv_def split: list.split)
next
  case EvTick
  obtain s1 w where "flush_batch D s = (s1, w)" by fastforce
  then show ?thesis using EvTick assms accounted_flush by (auto simp: actor_step_def actor_tick_def)
next
  case EvShutdown
  obtain s1 w where 1: "flush_batch D (s\<lparr>bg_closed := True\<rparr>) = (s1, w)" by fastforce
  have "accounted held refused s1" using accounted_flush [OF _ 1] assms by simp
  then show ?thesis using EvShutdown assms accounted_exit accounted_drain_queue
    by (simp add: actor_step_def actor_shutdown_def 1)
next
  case EvHangup
  then show ?thesis using assms accounted_exit by (simp add: actor_step_def actor_hangup_def)
qed (use assms in \<open>simp_all add: push_blocking_def flush_begin_def cancel_send_def\<close>)

lemma accounted_run:
  assumes "accounted held refused s" shows "accounted held refused (bg_run c D ops s)"
  using assms unfolding bg_run_def by (induction ops arbitrary: s) (simp_all add: accounted_step)

lemma exited_accounts:
  assumes "bg_spawn c d = Some s0" and "bg_run c D ops s0 = s" and "bg_exited s" and "SinkData t \<in> set (bg_admitted s)"
  shows "t \<in> held (bg_drain s) \<or> t \<in> refused (bg_drain s)"
proof -
  have "order_ok c s" "exit_ok s" using bg_run_order [of c s0 D ops] bg_spawn_ok [OF assms(1)] assms(2) by auto
  then have "SinkData t \<in> set (taken (bg_log s))" using assms(3,4) by (auto simp: order_ok_def exit_ok_def)
  then obtain e where e: "e \<in> set (bg_log s)"
      "SinkData t \<in> set (case e of Wrote b _ \<Rightarrow> map SinkData b | Acked k _ \<Rightarrow> [Barrier k] | _ \<Rightarrow> [])"
    by (auto simp: taken_def)
  from e(2) obtain b ok where "e = Wrote b ok" "t \<in> set b" by (cases e) auto
  moreover have "accounted held refused s0"
    using assms(1) by (auto simp: bg_spawn_def accounted_def split: if_splits)
  then have "accounted held refused s" using accounted_run assms(2) by blast
  ultimately show ?thesis using e(1) by (cases ok) (auto simp: accounted_def)
qed

end

end
