(* ===== verification/Kafka_Producer.thy ===== *)
theory Kafka_Producer
  imports Prelude
begin

text \<open>
  \<open>src/transport/error.rs\<close> and the producer wrapper of \<open>src/transport/kafka/producer.rs\<close>:
  the transport errors with their display, and the counting, error-classifying front of
  rdkafka's threaded producer. The producer itself is an argument: a function that queues a
  record or answers with rdkafka's error text, a flush, and the number in flight.
\<close>

datatype transport_error = TeConfig string | TeConnection string | TeSend string | TeRecv string | TeCommit string
  | TeClosed | TeTimeout | TeBackpressure | TeInternal string | TeAdmin string

fun transport_error_display :: "transport_error \<Rightarrow> string" where
  "transport_error_display (TeConfig e) = ''transport config error: '' @ e"
| "transport_error_display (TeConnection e) = ''transport connection error: '' @ e"
| "transport_error_display (TeSend e) = ''transport send error: '' @ e"
| "transport_error_display (TeRecv e) = ''transport receive error: '' @ e"
| "transport_error_display (TeCommit e) = ''transport commit error: '' @ e"
| "transport_error_display TeClosed = ''transport closed''"
| "transport_error_display TeTimeout = ''transport operation timed out''"
| "transport_error_display TeBackpressure = ''transport backpressure''"
| "transport_error_display (TeInternal e) = ''transport internal error: '' @ e"
| "transport_error_display (TeAdmin e) = ''transport admin error: '' @ e"

definition is_recoverable :: "transport_error \<Rightarrow> bool" where
  "is_recoverable e \<longleftrightarrow> e = TeTimeout \<or> e = TeBackpressure"

definition is_fatal_error :: "transport_error \<Rightarrow> bool" where
  "is_fatal_error e = (case e of TeClosed \<Rightarrow> True | TeConfig _ \<Rightarrow> True | _ \<Rightarrow> False)"

lemma recoverable_not_fatal: "is_recoverable e \<Longrightarrow> \<not> is_fatal_error e"
  by (auto simp: is_recoverable_def is_fatal_error_def)

text \<open>\<open>str::contains\<close>.\<close>

fun str_contains :: "string \<Rightarrow> string \<Rightarrow> bool" where
  "str_contains pat [] = (pat = [])"
| "str_contains pat (c # s) = (take (length pat) (c # s) = pat \<or> str_contains pat s)"

lemma str_contains_iff: "str_contains pat s \<longleftrightarrow> (\<exists>a b. s = a @ pat @ b)"
proof (induction s)
  case (Cons c s)
  have "take (length pat) (c # s) = pat \<longleftrightarrow> (\<exists>b. c # s = pat @ b)"
    by (metis append_eq_conv_conj append_take_drop_id)
  then show ?case using Cons by (auto simp: Cons_eq_append_conv)
qed auto

text \<open>The texts by which the code recognises a full queue.\<close>

definition queue_full_text :: "string \<Rightarrow> bool" where
  "queue_full_text e \<longleftrightarrow> str_contains ''queue full'' e \<or> str_contains ''Local: Queue full'' e"

record 'w kafka_lib =
  kp_send :: "'w \<Rightarrow> string \<Rightarrow> bytes option \<Rightarrow> bytes \<Rightarrow> 'w \<times> (unit, string) result"
  kp_flush :: "'w \<Rightarrow> nat \<Rightarrow> 'w"
  kp_in_flight :: "'w \<Rightarrow> int"

record kafka_producer =
  messages_sent :: u64
  bytes_sent :: u64
  kp_errors :: u64

definition producer_new :: kafka_producer where
  "producer_new = \<lparr>messages_sent = 0, bytes_sent = 0, kp_errors = 0\<rparr>"

definition count_sent :: "bytes \<Rightarrow> kafka_producer \<Rightarrow> kafka_producer" where
  "count_sent p k = k\<lparr>messages_sent := messages_sent k + 1, bytes_sent := bytes_sent k + of_nat (length p)\<rparr>"

definition count_error :: "kafka_producer \<Rightarrow> kafka_producer" where
  "count_error k = k\<lparr>kp_errors := kp_errors k + 1\<rparr>"

definition producer_send :: "'w kafka_lib \<Rightarrow> string \<Rightarrow> bytes option \<Rightarrow> bytes \<Rightarrow> 'w \<times> kafka_producer \<Rightarrow>
    ('w \<times> kafka_producer) \<times> (unit, transport_error) result" where
  "producer_send l topic k p = (\<lambda>(w, kp).
     case kp_send l w topic k p of
       (w', Inr _) \<Rightarrow> ((w', count_sent p kp), Ok ())
     | (w', Inl e) \<Rightarrow> ((w', count_error kp), Err (if queue_full_text e then TeBackpressure else TeSend e)))"

text \<open>\<open>KafkaProducer::send_batch\<close> stops at the first record that is not queued.\<close>

fun producer_send_batch :: "'w kafka_lib \<Rightarrow> string \<Rightarrow> (bytes option \<times> bytes) list \<Rightarrow> 'w \<times> kafka_producer \<Rightarrow>
    ('w \<times> kafka_producer) \<times> nat" where
  "producer_send_batch l topic [] s = (s, 0)"
| "producer_send_batch l topic ((k, p) # ms) (w, kp) =
     (case kp_send l w topic k p of
        (w', Inr _) \<Rightarrow> (case producer_send_batch l topic ms (w', count_sent p kp) of (s, n) \<Rightarrow> (s, Suc n))
      | (w', Inl _) \<Rightarrow> ((w', count_error kp), 0))"

definition producer_flush :: "'w kafka_lib \<Rightarrow> nat \<Rightarrow> 'w \<Rightarrow> 'w \<times> nat" where
  "producer_flush l timeout w = (let w' = kp_flush l w timeout in (w', nat (max 0 (kp_in_flight l w'))))"

lemma producer_batch_counts:
  assumes "producer_send_batch l topic ms (w, kp) = ((w', kp'), n)"
  shows "n \<le> length ms \<and> messages_sent kp' = messages_sent kp + of_nat n
    \<and> bytes_sent kp' = bytes_sent kp + of_nat (sum_list (map (length \<circ> snd) (take n ms)))
    \<and> kp_errors kp' = kp_errors kp + (if n < length ms then 1 else 0)"
  using assms
proof (induction ms arbitrary: w kp n)
  case (Cons m ms)
  obtain k p where m: "m = (k, p)" by fastforce
  obtain w1 r where 1: "kp_send l w topic k p = (w1, r)" by fastforce
  show ?case
  proof (cases r)
    case (Inl e)
    then show ?thesis using Cons.prems by (auto simp: m 1 count_error_def)
  next
    case (Inr u)
    obtain n' where "producer_send_batch l topic ms (w1, count_sent p kp) = ((w', kp'), n')" "n = Suc n'"
      using Cons.prems by (auto simp: m 1 Inr split: prod.splits)
    then show ?thesis using Cons.IH [of w1 "count_sent p kp" n'] by (auto simp: m count_sent_def)
  qed
qed simp

end
