(* ===== verification/Dead_Letter.thy ===== *)
theory Dead_Letter
  imports Background_Sink Kafka_Producer Work_Batch
begin

text \<open>
  \<open>src/dlq/\<close>: the dead letter queue. The orchestrator (\<open>orchestrator.rs\<close>) is a background
  sink whose drain dispatches each batch over the configured backends (\<open>backend.rs\<close>), either
  in cascade or to all of them; the file backend (\<open>file.rs\<close> over \<open>src/io/ndjson_writer.rs\<close>),
  the Kafka backend (\<open>kafka.rs\<close>), the HTTP and Redis backends (\<open>http.rs\<close>, \<open>redis_dlq.rs\<close>) and the
  entry (\<open>entry.rs\<close>) and configuration types (\<open>config.rs\<close>) follow. The file system, the Kafka,
  HTTP and Redis clients and the JSON serialiser are arguments that act on an outside world.
  Building a client can fail; the outcome of each construction is an argument too.
\<close>

subsection \<open>Entries, errors, configuration\<close>

record dlq_source =
  src_topic :: "string option"
  src_partition :: "int option"
  src_offset :: "int option"

record dead_letter =
  dl_timestamp :: int
  dl_service :: string
  dl_reason :: string
  dl_attempts :: u32
  dl_payload :: bytes
  dl_destination :: "string option"
  dl_source :: "dlq_source option"

definition dead_letter_new :: "int \<Rightarrow> string \<Rightarrow> string \<Rightarrow> bytes \<Rightarrow> dead_letter" where
  "dead_letter_new now service reason p = \<lparr>dl_timestamp = now, dl_service = service, dl_reason = reason,
     dl_attempts = 0, dl_payload = p, dl_destination = None, dl_source = None\<rparr>"

datatype dlq_error = DlqIo string | DlqSerialization string | DlqFile string | DlqKafka string | BackendError string
  | AllBackendsFailed string | NotConfigured | QueueFullError | DlqClosedError

fun dlq_error_display :: "dlq_error \<Rightarrow> string" where
  "dlq_error_display (DlqIo e) = ''file DLQ I/O error: '' @ e"
| "dlq_error_display (DlqSerialization e) = ''DLQ serialisation error: '' @ e"
| "dlq_error_display (DlqFile e) = ''file DLQ error: '' @ e"
| "dlq_error_display (DlqKafka e) = ''kafka DLQ error: '' @ e"
| "dlq_error_display (BackendError e) = ''DLQ backend error: '' @ e"
| "dlq_error_display (AllBackendsFailed e) = ''all DLQ backends failed: '' @ e"
| "dlq_error_display NotConfigured = ''DLQ not configured''"
| "dlq_error_display QueueFullError = ''DLQ queue is full''"
| "dlq_error_display DlqClosedError = ''DLQ has shut down''"

datatype dlq_mode = Cascade | FanOut | FileOnly | KafkaOnly
datatype dlq_routing = PerTable | CommonTopic

record dlq_config =
  dlq_enabled :: bool
  dlq_mode_of :: dlq_mode
  dlq_queue_capacity :: u64
  dlq_batch_size :: u64
  file_enabled :: bool
  kafka_enabled :: bool
  kafka_routing :: dlq_routing
  kafka_suffix :: string
  kafka_common :: string
  http_enabled :: bool
  http_endpoint :: string
  redis_enabled :: bool
  redis_stream :: string
  redis_max_len :: "nat option"

subsection \<open>The outside world\<close>

record 'w dlq_lib =
  entry_json :: "dead_letter \<Rightarrow> (bytes, string) result"
  write_all :: "'w \<Rightarrow> bytes \<Rightarrow> 'w \<times> (unit, string) result"
  fw_flush :: "'w \<Rightarrow> 'w \<times> (unit, string) result"
  http_post :: "'w \<Rightarrow> string \<Rightarrow> bytes \<Rightarrow> 'w \<times> (bool \<times> string, string) result"
  redis_pipeline :: "'w \<Rightarrow> (string \<times> nat option \<times> bytes) list \<Rightarrow> 'w \<times> (unit, string) result"
  kafka_of :: "'w kafka_lib"

subsection \<open>The NDJSON writer\<close>

record ndjson_writer =
  lines_written :: u64
  write_errors :: u64

definition writer_new :: ndjson_writer where
  "writer_new = \<lparr>lines_written = 0, write_errors = 0\<rparr>"

text \<open>\<open>write_buf\<close> and, with a count of one, \<open>write_line\<close>.\<close>

definition write_buf :: "'w dlq_lib \<Rightarrow> bytes \<Rightarrow> u64 \<Rightarrow> 'w \<times> ndjson_writer \<Rightarrow>
    ('w \<times> ndjson_writer) \<times> (unit, string) result" where
  "write_buf l buf n = (\<lambda>(w, nw).
     case write_all l w buf of
       (w1, Inl e) \<Rightarrow> ((w1, nw\<lparr>write_errors := write_errors nw + 1\<rparr>), Err e)
     | (w1, Inr _) \<Rightarrow>
         (case fw_flush l w1 of
            (w2, Inl e) \<Rightarrow> ((w2, nw\<lparr>write_errors := write_errors nw + 1\<rparr>), Err e)
          | (w2, Inr _) \<Rightarrow> ((w2, nw\<lparr>lines_written := lines_written nw + n\<rparr>), Ok ())))"

definition writer_flush :: "'w dlq_lib \<Rightarrow> 'w \<times> ndjson_writer \<Rightarrow> ('w \<times> ndjson_writer) \<times> (unit, string) result" where
  "writer_flush l = (\<lambda>(w, nw).
     case fw_flush l w of
       (w1, Inl e) \<Rightarrow> ((w1, nw\<lparr>write_errors := write_errors nw + 1\<rparr>), Err e)
     | (w1, Inr _) \<Rightarrow> ((w1, nw), Ok ()))"

subsection \<open>Backends\<close>

record kafka_dlq =
  kd_producer :: kafka_producer
  kd_routing :: dlq_routing
  kd_suffix :: string
  kd_common :: string
  entries_written :: u64
  kd_write_errors :: u64

datatype dlq_backend = FileBackend ndjson_writer | KafkaBackend kafka_dlq | HttpBackend string
  | RedisBackend string "nat option"

fun backend_name :: "dlq_backend \<Rightarrow> string" where
  "backend_name (FileBackend _) = ''file''"
| "backend_name (KafkaBackend _) = ''kafka''"
| "backend_name (HttpBackend _) = ''http''"
| "backend_name (RedisBackend _ _) = ''redis''"

text \<open>The entries of a batch, one JSON line each; the first entry that does not serialise ends it.\<close>

fun ndjson_body :: "'w dlq_lib \<Rightarrow> dead_letter list \<Rightarrow> bytes \<Rightarrow> (bytes, string) result" where
  "ndjson_body l [] buf = Ok buf"
| "ndjson_body l (e # es) buf =
     (case entry_json l e of Inl err \<Rightarrow> Err err | Inr j \<Rightarrow> ndjson_body l es (buf @ j @ [0x0a]))"

definition file_send_batch :: "'w dlq_lib \<Rightarrow> dead_letter list \<Rightarrow> 'w \<times> ndjson_writer \<Rightarrow>
    ('w \<times> ndjson_writer) \<times> (unit, dlq_error) result" where
  "file_send_batch l b s =
     (if b = [] then (s, Ok ())
      else case ndjson_body l b [] of
        Inl e \<Rightarrow> (s, Err (DlqSerialization (''DLQ serialise: '' @ e)))
      | Inr buf \<Rightarrow>
          (case write_buf l buf (of_nat (length b)) s of
             (s', Inl e) \<Rightarrow> (s', Err (DlqFile (''DLQ write_buf: '' @ e)))
           | (s', Inr _) \<Rightarrow> (s', Ok ())))"

definition file_flush_durable :: "'w dlq_lib \<Rightarrow> 'w \<times> ndjson_writer \<Rightarrow> ('w \<times> ndjson_writer) \<times> (unit, dlq_error) result" where
  "file_flush_durable l s = (case writer_flush l s of
     (s', Inl e) \<Rightarrow> (s', Err (DlqFile (''DLQ file flush: '' @ e))) | (s', Inr _) \<Rightarrow> (s', Ok ()))"

definition resolve_topic :: "kafka_dlq \<Rightarrow> dead_letter \<Rightarrow> string" where
  "resolve_topic k e = (case kd_routing k of
     CommonTopic \<Rightarrow> kd_common k
   | PerTable \<Rightarrow> (case dl_destination e of None \<Rightarrow> kd_common k | Some dest \<Rightarrow> dest @ kd_suffix k))"

fun kafka_send_batch :: "'w dlq_lib \<Rightarrow> dead_letter list \<Rightarrow> 'w \<times> kafka_dlq \<Rightarrow>
    ('w \<times> kafka_dlq) \<times> (unit, dlq_error) result" where
  "kafka_send_batch l [] s = (s, Ok ())"
| "kafka_send_batch l (e # es) (w, k) =
     (case entry_json l e of
        Inl err \<Rightarrow> ((w, k), Err (DlqSerialization (''DLQ serialise: '' @ err)))
      | Inr j \<Rightarrow>
          (case producer_send (kafka_of l) (resolve_topic k e) None j (w, kd_producer k) of
             ((w', kp), Inr _) \<Rightarrow>
               kafka_send_batch l es (w', k\<lparr>kd_producer := kp, entries_written := entries_written k + 1\<rparr>)
           | ((w', kp), Inl err) \<Rightarrow>
               ((w', k\<lparr>kd_producer := kp, kd_write_errors := kd_write_errors k + 1\<rparr>),
                Err (DlqKafka (''DLQ send failed: '' @ transport_error_display err)))))"

definition kafka_flush_durable :: "'w dlq_lib \<Rightarrow> (nat \<Rightarrow> string) \<Rightarrow> 'w \<Rightarrow> 'w \<times> (unit, dlq_error) result" where
  "kafka_flush_durable l show_nat w = (case producer_flush (kafka_of l) 30000 w of
     (w', outstanding) \<Rightarrow> (w', if 0 < outstanding
        then Err (DlqKafka (''flush_durable timed out with '' @ show_nat outstanding @ '' messages still in flight''))
        else Ok ()))"

definition http_send_batch :: "'w dlq_lib \<Rightarrow> string \<Rightarrow> dead_letter list \<Rightarrow> 'w \<Rightarrow> 'w \<times> (unit, dlq_error) result" where
  "http_send_batch l endpoint b w =
     (if b = [] then (w, Ok ())
      else case ndjson_body l b [] of
        Inl e \<Rightarrow> (w, Err (DlqSerialization e))
      | Inr body \<Rightarrow>
          (case http_post l w endpoint body of
             (w', Inl e) \<Rightarrow> (w', Err (BackendError (''HTTP DLQ batch send failed: '' @ e)))
           | (w', Inr (success, status)) \<Rightarrow> (w', if success then Ok ()
               else Err (BackendError (''HTTP DLQ endpoint returned '' @ status)))))"

text \<open>One \<open>XADD\<close> per entry, its stream, its optional \<open>MAXLEN ~\<close> and its data, in one pipeline.\<close>

fun xadd_commands :: "'w dlq_lib \<Rightarrow> string \<Rightarrow> nat option \<Rightarrow> dead_letter list \<Rightarrow>
    ((string \<times> nat option \<times> bytes) list, string) result" where
  "xadd_commands l stream max_len [] = Ok []"
| "xadd_commands l stream max_len (e # es) =
     (case entry_json l e of
        Inl err \<Rightarrow> Err err
      | Inr j \<Rightarrow> (case xadd_commands l stream max_len es of
          Inl err \<Rightarrow> Err err | Inr cs \<Rightarrow> Ok ((stream, max_len, j) # cs)))"

definition redis_send_batch :: "'w dlq_lib \<Rightarrow> string \<Rightarrow> nat option \<Rightarrow> dead_letter list \<Rightarrow> 'w \<Rightarrow>
    'w \<times> (unit, dlq_error) result" where
  "redis_send_batch l stream max_len b w =
     (if b = [] then (w, Ok ())
      else case xadd_commands l stream max_len b of
        Inl e \<Rightarrow> (w, Err (DlqSerialization e))
      | Inr cs \<Rightarrow>
          (case redis_pipeline l w cs of
             (w', Inl e) \<Rightarrow> (w', Err (BackendError (''Redis XADD batch: '' @ e)))
           | (w', Inr _) \<Rightarrow> (w', Ok ())))"

fun backend_send_batch :: "'w dlq_lib \<Rightarrow> dead_letter list \<Rightarrow> 'w \<times> dlq_backend \<Rightarrow>
    ('w \<times> dlq_backend) \<times> (unit, dlq_error) result" where
  "backend_send_batch l b (w, FileBackend nw) =
     (case file_send_batch l b (w, nw) of ((w', nw'), r) \<Rightarrow> ((w', FileBackend nw'), r))"
| "backend_send_batch l b (w, KafkaBackend k) =
     (case kafka_send_batch l b (w, k) of ((w', k'), r) \<Rightarrow> ((w', KafkaBackend k'), r))"
| "backend_send_batch l b (w, HttpBackend url) =
     (case http_send_batch l url b w of (w', r) \<Rightarrow> ((w', HttpBackend url), r))"
| "backend_send_batch l b (w, RedisBackend stream max_len) =
     (case redis_send_batch l stream max_len b w of (w', r) \<Rightarrow> ((w', RedisBackend stream max_len), r))"

fun backend_flush_durable :: "'w dlq_lib \<Rightarrow> (nat \<Rightarrow> string) \<Rightarrow> 'w \<times> dlq_backend \<Rightarrow>
    ('w \<times> dlq_backend) \<times> (unit, dlq_error) result" where
  "backend_flush_durable l show_nat (w, FileBackend nw) =
     (case file_flush_durable l (w, nw) of ((w', nw'), r) \<Rightarrow> ((w', FileBackend nw'), r))"
| "backend_flush_durable l show_nat (w, KafkaBackend k) =
     (case kafka_flush_durable l show_nat w of (w', r) \<Rightarrow> ((w', KafkaBackend k), r))"
| "backend_flush_durable l show_nat (w, be) = ((w, be), Ok ())"

subsection \<open>Dispatch\<close>

text \<open>The drain also keeps a history of its calls: backend, batch, and whether it was accepted.\<close>

record 'w dlq_drain =
  dd_mode :: dlq_mode
  dd_backends :: "dlq_backend list"
  dd_world :: 'w
  dd_attempts :: "(string \<times> dead_letter list \<times> bool) list"

text \<open>Both loops return the world, the backends after the calls, the names and outcomes of
  the calls made, and the result.\<close>

fun cascade :: "'w dlq_lib \<Rightarrow> dead_letter list \<Rightarrow> dlq_error option \<Rightarrow> dlq_backend list \<Rightarrow> 'w \<Rightarrow>
    ('w \<times> dlq_backend list \<times> (string \<times> bool) list) \<times> (unit, dlq_error) result" where
  "cascade l b last_err [] w = ((w, [], []), Err (AllBackendsFailed
     (case last_err of None \<Rightarrow> ''no backends configured'' | Some e \<Rightarrow> dlq_error_display e)))"
| "cascade l b last_err (be # bs) w =
     (case backend_send_batch l b (w, be) of
        ((w', be'), Inr _) \<Rightarrow> ((w', be' # bs, [(backend_name be, True)]), Ok ())
      | ((w', be'), Inl e) \<Rightarrow>
          (case cascade l b (Some e) bs w' of
             ((w'', bs', as), r) \<Rightarrow> ((w'', be' # bs', (backend_name be, False) # as), r)))"

fun join_with :: "string \<Rightarrow> string list \<Rightarrow> string" where
  "join_with sep [] = []"
| "join_with sep [x] = x"
| "join_with sep (x # y # xs) = x @ sep @ join_with sep (y # xs)"

fun fan_out :: "'w dlq_lib \<Rightarrow> dead_letter list \<Rightarrow> bool \<Rightarrow> string list \<Rightarrow> dlq_backend list \<Rightarrow> 'w \<Rightarrow>
    ('w \<times> dlq_backend list \<times> (string \<times> bool) list) \<times> (unit, dlq_error) result" where
  "fan_out l b any_ok errs [] w =
     ((w, [], []), if any_ok then Ok () else Err (AllBackendsFailed (join_with ''; '' errs)))"
| "fan_out l b any_ok errs (be # bs) w =
     (case backend_send_batch l b (w, be) of
        ((w', be'), r1) \<Rightarrow>
          (case (case r1 of Inr _ \<Rightarrow> fan_out l b True errs bs w'
                 | Inl e \<Rightarrow> fan_out l b any_ok (errs @ [backend_name be @ '':'' @ dlq_error_display e]) bs w') of
             ((w'', bs', as), r) \<Rightarrow> ((w'', be' # bs', (backend_name be, is_ok r1) # as), r)))"

definition dlq_write_batch :: "'w dlq_lib \<Rightarrow> 'w dlq_drain \<Rightarrow> dead_letter list \<Rightarrow>
    'w dlq_drain \<times> (unit, drain_error) result" where
  "dlq_write_batch l d b =
     (if b = [] then (d, Ok ())
      else case (if dd_mode d = FanOut then fan_out l b False [] (dd_backends d) (dd_world d)
                 else cascade l b None (dd_backends d) (dd_world d)) of
        ((w, bs, as), r) \<Rightarrow>
          (d\<lparr>dd_world := w, dd_backends := bs, dd_attempts := dd_attempts d @ map (\<lambda>(n, ok). (n, b, ok)) as\<rparr>,
           case r of Inl e \<Rightarrow> Err (DrainBackend (dlq_error_display e)) | Inr _ \<Rightarrow> Ok ()))"

text \<open>\<open>DlqDrain\<close> implements \<open>write_batch\<close> only: \<open>flush_durable\<close> and \<open>close\<close> are the trait's defaults.\<close>

definition dlq_drain_ops :: "'w dlq_lib \<Rightarrow> ('w dlq_drain, dead_letter) sink_drain" where
  "dlq_drain_ops l = \<lparr>write_batch = dlq_write_batch l, flush_durable = (\<lambda>d. (d, Ok ())), drain_close = (\<lambda>d. (d, Ok ()))\<rparr>"

subsection \<open>The orchestrator\<close>

record dlq_env =
  has_kafka_config :: bool
  make_producer :: "(unit, string) result"
  make_writer :: "(unit, string) result"
  make_client :: "(unit, string) result"
  redis_open :: "(unit, string) result"
  redis_connect :: "(unit, string) result"

definition make_kafka :: "dlq_config \<Rightarrow> dlq_env \<Rightarrow> (dlq_backend list, dlq_error) result" where
  "make_kafka c env =
     (if dlq_mode_of c \<in> {Cascade, FanOut, KafkaOnly} \<and> kafka_enabled c then
        if \<not> has_kafka_config env
        then Err (DlqKafka ''DLQ Kafka backend enabled but no KafkaConfig provided to Dlq::spawn'')
        else (case make_producer env of
          Inl e \<Rightarrow> Err (DlqKafka (''failed to create DLQ producer: '' @ e))
        | Inr _ \<Rightarrow> Ok [KafkaBackend \<lparr>kd_producer = producer_new, kd_routing = kafka_routing c, kd_suffix = kafka_suffix c,
            kd_common = kafka_common c, entries_written = 0, kd_write_errors = 0\<rparr>])
      else Ok [])"

definition make_file :: "dlq_config \<Rightarrow> string \<Rightarrow> dlq_env \<Rightarrow> (dlq_backend list, dlq_error) result" where
  "make_file c service env =
     (if dlq_mode_of c \<in> {Cascade, FanOut, FileOnly} \<and> file_enabled c then
        (case make_writer env of
           Inl e \<Rightarrow> Err (DlqFile (''failed to create DLQ writer for '' @ service @ '': '' @ e))
         | Inr _ \<Rightarrow> Ok [FileBackend writer_new])
      else Ok [])"

definition make_http :: "dlq_config \<Rightarrow> dlq_env \<Rightarrow> (dlq_backend list, dlq_error) result" where
  "make_http c env =
     (if http_enabled c then
        if http_endpoint c = [] then Err (BackendError ''HTTP DLQ endpoint is empty'')
        else (case make_client env of
          Inl e \<Rightarrow> Err (BackendError (''failed to build HTTP DLQ client: '' @ e))
        | Inr _ \<Rightarrow> Ok [HttpBackend (http_endpoint c)])
      else Ok [])"

definition make_redis :: "dlq_config \<Rightarrow> dlq_env \<Rightarrow> (dlq_backend list, dlq_error) result" where
  "make_redis c env =
     (if redis_enabled c then
        (case redis_open env of
           Inl e \<Rightarrow> Err (BackendError (''Redis DLQ open: '' @ e))
         | Inr _ \<Rightarrow> (case redis_connect env of
             Inl e \<Rightarrow> Err (BackendError (''Redis DLQ connect: '' @ e))
           | Inr _ \<Rightarrow> Ok [RedisBackend (redis_stream c) (redis_max_len c)]))
      else Ok [])"

fun all_or_first_error :: "('a list, 'e) result list \<Rightarrow> ('a list, 'e) result" where
  "all_or_first_error [] = Ok []"
| "all_or_first_error (Inl e # rs) = Err e"
| "all_or_first_error (Inr xs # rs) = (case all_or_first_error rs of Inl e \<Rightarrow> Err e | Inr ys \<Rightarrow> Ok (xs @ ys))"

definition build_backends :: "dlq_config \<Rightarrow> string \<Rightarrow> dlq_env \<Rightarrow> (dlq_backend list, dlq_error) result" where
  "build_backends c service env =
     all_or_first_error [make_kafka c env, make_file c service env, make_http c env, make_redis c env]"

record 'w dlq =
  dlq_sink :: "('w dlq_drain, dead_letter) bg_sink option"
  dlq_is_enabled :: bool
  dlq_active_mode :: dlq_mode

definition dlq_disabled :: "'w dlq" where
  "dlq_disabled = \<lparr>dlq_sink = None, dlq_is_enabled = False, dlq_active_mode = Cascade\<rparr>"

definition dlq_sink_config :: "dlq_config \<Rightarrow> bg_config" where
  "dlq_sink_config c = \<lparr>queue_capacity = dlq_queue_capacity c, batch_size = dlq_batch_size c, bg_overflow = OverflowDrop\<rparr>"

text \<open>\<open>None\<close> is the panic of a channel of capacity zero.\<close>

definition dlq_spawn :: "dlq_config \<Rightarrow> string \<Rightarrow> dlq_env \<Rightarrow> 'w \<Rightarrow> ('w dlq, dlq_error) result option" where
  "dlq_spawn c service env w =
     (if \<not> dlq_enabled c then Some (Ok dlq_disabled)
      else case build_backends c service env of
        Inl e \<Rightarrow> Some (Err e)
      | Inr [] \<Rightarrow> Some (Ok dlq_disabled)
      | Inr bs \<Rightarrow>
          (case bg_spawn (dlq_sink_config c)
              \<lparr>dd_mode = dlq_mode_of c, dd_backends = bs, dd_world = w, dd_attempts = []\<rparr> of
             None \<Rightarrow> None
           | Some s \<Rightarrow> Some (Ok \<lparr>dlq_sink = Some s, dlq_is_enabled = True, dlq_active_mode = dlq_mode_of c\<rparr>)))"

definition drain_error_display :: "drain_error \<Rightarrow> string" where
  "drain_error_display e = (case e of DrainIo m \<Rightarrow> ''io: '' @ m | DrainBackend m \<Rightarrow> ''backend: '' @ m)"

definition map_sink_err :: "bg_error \<Rightarrow> dlq_error" where
  "map_sink_err e = (case e of BgOverflow \<Rightarrow> QueueFullError | BgClosed \<Rightarrow> DlqClosedError
     | BgDrain d \<Rightarrow> DlqFile (drain_error_display d))"

definition dlq_try_send :: "bg_config \<Rightarrow> dead_letter \<Rightarrow> 'w dlq \<Rightarrow> 'w dlq \<times> (unit, dlq_error) result" where
  "dlq_try_send c e q =
     (case dlq_sink q of
        None \<Rightarrow> (q, Ok ())
      | Some s \<Rightarrow> (case try_push c e s of
          (s', Inr _) \<Rightarrow> (q\<lparr>dlq_sink := Some s'\<rparr>, Ok ())
        | (s', Inl err) \<Rightarrow> (q\<lparr>dlq_sink := Some s'\<rparr>, Err (map_sink_err err))))"

text \<open>What \<open>flush\<close> answers when its barrier is acknowledged, or its channel is closed (\<open>None\<close>).\<close>

definition dlq_flush_result :: "(unit, drain_error) result option \<Rightarrow> (unit, dlq_error) result" where
  "dlq_flush_result ack = (case ack of
     None \<Rightarrow> Err (map_sink_err BgClosed)
   | Some (Inl e) \<Rightarrow> Err (map_sink_err (BgDrain e)) | Some (Inr _) \<Rightarrow> Ok ())"

subsection \<open>What a dispatch does\<close>

lemma backend_keeps_name: "backend_send_batch l b (w, be) = ((w', be'), r) \<Longrightarrow> backend_name be' = backend_name be"
  by (cases be) (auto split: prod.splits)

text \<open>A call list: the backends that were called, in order, and what they answered.\<close>

definition cascade_calls :: "string list \<Rightarrow> (string \<times> bool) list \<Rightarrow> bool \<Rightarrow> bool" where
  "cascade_calls names as ok \<longleftrightarrow> map fst as = take (length as) names \<and>
     (if ok then as \<noteq> [] \<and> map snd as = replicate (length as - 1) False @ [True]
      else length as = length names \<and> map snd as = replicate (length as) False)"

definition fan_calls :: "string list \<Rightarrow> (string \<times> bool) list \<Rightarrow> bool \<Rightarrow> bool" where
  "fan_calls names as ok \<longleftrightarrow> map fst as = names \<and> (ok \<longleftrightarrow> True \<in> set (map snd as))"

lemma cascade_spec:
  "cascade l b le bs w = ((w', bs', as), r) \<Longrightarrow>
     cascade_calls (map backend_name bs) as (is_ok r) \<and> map backend_name bs' = map backend_name bs"
proof (induction bs arbitrary: le w bs' as)
  case (Cons be bs)
  obtain w1 be1 r1 where 1: "backend_send_batch l b (w, be) = ((w1, be1), r1)" by (metis prod.exhaust)
  note name = backend_keeps_name [OF 1]
  show ?case
  proof (cases r1)
    case (Inl e)
    obtain as2 bs2 where 2: "cascade l b (Some e) bs w1 = ((w', bs2, as2), r)" "bs' = be1 # bs2"
        "as = (backend_name be, False) # as2"
      using Cons.prems by (auto simp: 1 Inl split: prod.splits)
    show ?thesis using Cons.IH [OF 2(1)] 2(2,3) name
      by (cases as2) (auto simp: cascade_calls_def split: if_splits)
  qed (use Cons.prems 1 name in \<open>auto simp: cascade_calls_def\<close>)
qed (auto simp: cascade_calls_def)

lemma fan_out_spec:
  "fan_out l b any_ok errs bs w = ((w', bs', as), r) \<Longrightarrow>
     map fst as = map backend_name bs \<and> (is_ok r \<longleftrightarrow> any_ok \<or> True \<in> set (map snd as))
     \<and> map backend_name bs' = map backend_name bs"
proof (induction bs arbitrary: any_ok errs w bs' as)
  case (Cons be bs)
  obtain w1 be1 r1 where 1: "backend_send_batch l b (w, be) = ((w1, be1), r1)" by (metis prod.exhaust)
  obtain any2 errs2 as2 bs2 where 2: "fan_out l b any2 errs2 bs w1 = ((w', bs2, as2), r)" "bs' = be1 # bs2"
      "as = (backend_name be, is_ok r1) # as2" "any2 = (any_ok \<or> is_ok r1)"
    using Cons.prems by (cases r1) (auto simp: 1 split: prod.splits)
  show ?case using Cons.IH [OF 2(1)] 2(2-4) backend_keeps_name [OF 1] by auto
qed (auto split: if_splits)

lemma dispatch_spec:
  assumes "dlq_write_batch l d b = (d', r)" and "b \<noteq> []"
  shows "\<exists>as. dd_attempts d' = dd_attempts d @ map (\<lambda>(n, ok). (n, b, ok)) as
    \<and> map backend_name (dd_backends d') = map backend_name (dd_backends d) \<and> dd_mode d' = dd_mode d
    \<and> (if dd_mode d = FanOut then fan_calls (map backend_name (dd_backends d)) as (is_ok r)
       else cascade_calls (map backend_name (dd_backends d)) as (is_ok r))"
proof -
  let ?x = "if dd_mode d = FanOut then fan_out l b False [] (dd_backends d) (dd_world d)
     else cascade l b None (dd_backends d) (dd_world d)"
  obtain w bs as r0 where x: "?x = ((w, bs, as), r0)" by (metis prod.exhaust)
  have d': "d' = d\<lparr>dd_world := w, dd_backends := bs, dd_attempts := dd_attempts d @ map (\<lambda>(n, ok). (n, b, ok)) as\<rparr>"
      "is_ok r = is_ok r0"
    using assms by (auto simp: dlq_write_batch_def x split: sum.splits)
  have "map backend_name bs = map backend_name (dd_backends d) \<and>
      (if dd_mode d = FanOut then fan_calls (map backend_name (dd_backends d)) as (is_ok r0)
       else cascade_calls (map backend_name (dd_backends d)) as (is_ok r0))"
  proof (cases "dd_mode d = FanOut")
    case True
    then show ?thesis using fan_out_spec [of l b False "[]" "dd_backends d" "dd_world d"] x
      by (simp add: fan_calls_def)
  next
    case False
    then show ?thesis using cascade_spec [of l b None "dd_backends d" "dd_world d"] x by simp
  qed
  then show ?thesis using d' by (intro exI [of _ as]) (simp split: if_splits)
qed

text \<open>C10. Dispatch of a batch: in cascade (and the two single-backend modes) the backends are
  called in order with the whole batch until one accepts it, none after that, and the write
  fails exactly when all were called and all refused; in fan-out every backend is called
  once and the write succeeds exactly when at least one accepted.
\<close>

theorem dlq_dispatch_exact:
  assumes "dlq_write_batch l d b = (d', r)" and "b \<noteq> []"
  shows "\<exists>as. dd_attempts d' = dd_attempts d @ map (\<lambda>(n, ok). (n, b, ok)) as
    \<and> (if dd_mode d = FanOut then fan_calls (map backend_name (dd_backends d)) as (is_ok r)
       else cascade_calls (map backend_name (dd_backends d)) as (is_ok r))"
  using dispatch_spec [OF assms] by blast

definition demo_dlq_lib :: "bytes dlq_lib" where
  "demo_dlq_lib = \<lparr>entry_json = (\<lambda>e. Ok (0x7b # dl_payload e @ [0x7d])), write_all = (\<lambda>w buf. (w @ buf, Ok ())),
     fw_flush = (\<lambda>w. (w, Ok ())), http_post = (\<lambda>w u b. (w, Ok (True, ''200 OK''))),
     redis_pipeline = (\<lambda>w cs. (w, Ok ())),
     kafka_of = \<lparr>kp_send = (\<lambda>w t k p. (w, if t = ''dfe.dlq'' then Ok () else Err ''Local: Queue full'')),
       kp_flush = (\<lambda>w t. w), kp_in_flight = (\<lambda>w. 1)\<rparr>\<rparr>"

definition demo_kafka_dlq :: kafka_dlq where
  "demo_kafka_dlq = \<lparr>kd_producer = producer_new, kd_routing = PerTable, kd_suffix = ''.dlq'', kd_common = ''dfe.dlq'',
     entries_written = 0, kd_write_errors = 0\<rparr>"

definition demo_dlq_drain :: "bytes dlq_drain" where
  "demo_dlq_drain = \<lparr>dd_mode = Cascade, dd_backends = [KafkaBackend demo_kafka_dlq, FileBackend writer_new],
     dd_world = [], dd_attempts = []\<rparr>"

definition demo_letter :: dead_letter where
  "demo_letter = (dead_letter_new 0 ''loader'' ''bad'' [0x31])\<lparr>dl_destination := Some ''acme.auth''\<rparr>"

lemmas demo_dlq_defs = demo_dlq_lib_def demo_kafka_dlq_def demo_dlq_drain_def demo_letter_def dead_letter_new_def
  writer_new_def producer_new_def dlq_write_batch_def file_send_batch_def write_buf_def resolve_topic_def producer_send_def
  queue_full_text_def count_error_def count_sent_def

lemma demo_dlq_attempts:
  "dd_attempts (fst (dlq_write_batch demo_dlq_lib demo_dlq_drain [demo_letter])) =
     [(''kafka'', [demo_letter], False), (''file'', [demo_letter], True)]"
  by (simp add: demo_dlq_defs)

theorem dlq_dispatch_exact_witness:
  "\<exists>as. [(''kafka'', [demo_letter], False), (''file'', [demo_letter], True)] = map (\<lambda>(n, ok). (n, [demo_letter], ok)) as
     \<and> cascade_calls [''kafka'', ''file''] as (is_ok (snd (dlq_write_batch demo_dlq_lib demo_dlq_drain [demo_letter])))"
  using dlq_dispatch_exact [of demo_dlq_lib demo_dlq_drain "[demo_letter]", OF surjective_pairing]
  unfolding demo_dlq_attempts by (simp add: demo_dlq_drain_def)

subsection \<open>Every entry is accounted for\<close>

text \<open>The entries some backend accepted, and those that every backend refused.\<close>

definition dlq_held :: "'w dlq_drain \<Rightarrow> dead_letter set" where
  "dlq_held d = {e. \<exists>n b. (n, b, True) \<in> set (dd_attempts d) \<and> e \<in> set b}"

definition dlq_refused :: "'w dlq_drain \<Rightarrow> dead_letter set" where
  "dlq_refused d = {e. \<exists>b. e \<in> set b \<and> (\<forall>n\<in>set (map backend_name (dd_backends d)). (n, b, False) \<in> set (dd_attempts d))}"

lemma cascade_calls_ok: "cascade_calls names as True \<Longrightarrow> \<exists>n. (n, True) \<in> set as"
proof -
  assume "cascade_calls names as True"
  then have "True \<in> set (map snd as)" by (auto simp: cascade_calls_def)
  then show ?thesis by force
qed

lemma calls_refused:
  assumes "map fst as = names" and "map snd as = replicate (length as) False" and "n \<in> set names"
  shows "(n, False) \<in> set as"
proof -
  have "n \<in> fst ` set as" using assms(1,3) by (metis list.set_map)
  moreover have "False = ok" if "(m, ok) \<in> set as" for m ok
    using assms(2) that by (metis in_set_replicate list.set_map imageI snd_conv)
  ultimately show ?thesis by fastforce
qed

lemma dispatch_accounts:
  assumes "dlq_write_batch l d b = (d', r)"
  shows "dlq_held d \<subseteq> dlq_held d' \<and> dlq_refused d \<subseteq> dlq_refused d'
    \<and> set b \<subseteq> (if is_ok r then dlq_held d' else dlq_refused d')"
proof (cases "b = []")
  case True
  then show ?thesis using assms by (auto simp: dlq_write_batch_def)
next
  case False
  let ?names = "map backend_name (dd_backends d)"
  obtain as where as: "dd_attempts d' = dd_attempts d @ map (\<lambda>(n, ok). (n, b, ok)) as"
      "map backend_name (dd_backends d') = ?names"
      "if dd_mode d = FanOut then fan_calls ?names as (is_ok r) else cascade_calls ?names as (is_ok r)"
    using dispatch_spec [OF assms False] by blast
  have keep: "dlq_held d \<subseteq> dlq_held d'" "dlq_refused d \<subseteq> dlq_refused d'"
    using as(1,2) unfolding dlq_held_def dlq_refused_def by auto
  show ?thesis
  proof (cases "is_ok r")
    case True
    then have "True \<in> set (map snd as) \<or> (\<exists>n. (n, True) \<in> set as)"
      using as(3) cascade_calls_ok [of ?names as] by (auto simp: fan_calls_def split: if_splits)
    then obtain n where "(n, True) \<in> set as" by auto
    then have "(n, b, True) \<in> set (dd_attempts d')" using as(1) by force
    then have "set b \<subseteq> dlq_held d'" by (auto simp: dlq_held_def)
    then show ?thesis using keep True by simp
  next
    case no: False
    have "map fst as = ?names \<and> map snd as = replicate (length as) False"
    proof (cases "dd_mode d = FanOut")
      case True
      then have "map fst as = ?names" "True \<notin> set (map snd as)" using as(3) no by (simp_all add: fan_calls_def)
      moreover from this(2) have "map snd as = replicate (length (map snd as)) False"
        by (intro replicate_eqI) auto
      ultimately show ?thesis by simp
    next
      case False
      then show ?thesis using as(3) no by (auto simp: cascade_calls_def)
    qed
    then have "(n, False) \<in> set as" if "n \<in> set ?names" for n using calls_refused that by metis
    then have "(n, b, False) \<in> set (dd_attempts d')" if "n \<in> set ?names" for n using as(1) that by force
    then have "set b \<subseteq> dlq_refused d'" using as(2) unfolding dlq_refused_def by auto
    then show ?thesis using keep no by simp
  qed
qed

interpretation dlq: accounting_drain "dlq_drain_ops l" dlq_held dlq_refused for l :: "'w dlq_lib"
  by unfold_locales (auto simp: dlq_drain_ops_def dest!: dispatch_accounts)

lemma spawned_sink:
  assumes "dlq_spawn c service env w = Some (Ok q)" and "dlq_sink q = Some s0"
  shows "\<exists>d. bg_spawn (dlq_sink_config c) d = Some s0"
  using assms by (auto simp: dlq_spawn_def dlq_disabled_def split: if_splits sum.splits list.splits option.splits)

text \<open>C8. No dead letter vanishes silently: for any configuration that spawns a dead letter queue,
  any backends and any interleaving of submissions, flushes, drain steps and shutdown, once
  the drain has exited every entry that was admitted is in a batch that at least one backend
  accepted, or in a batch that every configured backend was asked to take and refused.
\<close>

theorem dlq_entries_accounted:
  assumes "dlq_spawn c service env w = Some (Ok q)" and "dlq_sink q = Some s0"
    and "bg_run (dlq_sink_config c) (dlq_drain_ops l) ops s0 = s" and "bg_exited s" and "SinkData e \<in> set (bg_admitted s)"
  shows "(\<exists>n b. (n, b, True) \<in> set (dd_attempts (bg_drain s)) \<and> e \<in> set b)
    \<or> (\<exists>b. e \<in> set b \<and> (\<forall>n\<in>set (map backend_name (dd_backends (bg_drain s))). (n, b, False) \<in> set (dd_attempts (bg_drain s))))"
proof -
  obtain d where "bg_spawn (dlq_sink_config c) d = Some s0" using spawned_sink [OF assms(1,2)] by blast
  from dlq.exited_accounts [OF this assms(3-5)] show ?thesis by (simp add: dlq_held_def dlq_refused_def)
qed

definition demo_dlq_config :: dlq_config where
  "demo_dlq_config = \<lparr>dlq_enabled = True, dlq_mode_of = Cascade, dlq_queue_capacity = 2, dlq_batch_size = 2,
     file_enabled = True, kafka_enabled = True, kafka_routing = PerTable, kafka_suffix = ''.dlq'', kafka_common = ''dfe.dlq'',
     http_enabled = False, http_endpoint = [], redis_enabled = False, redis_stream = ''dlq'', redis_max_len = None\<rparr>"

definition demo_dlq_env :: dlq_env where
  "demo_dlq_env = \<lparr>has_kafka_config = True, make_producer = Ok (), make_writer = Ok (), make_client = Ok (),
     redis_open = Ok (), redis_connect = Ok ()\<rparr>"

definition demo_dlq :: "bytes dlq" where
  "demo_dlq = \<lparr>dlq_sink = Some \<lparr>bg_queue = [], bg_waiting = [], bg_closed = False, bg_batch = [], bg_pending = 0,
       bg_dropped = 0, bg_drain = demo_dlq_drain, bg_exited = False, bg_admitted = [], bg_log = []\<rparr>,
     dlq_is_enabled = True, dlq_active_mode = Cascade\<rparr>"

lemma demo_dlq_spawn: "dlq_spawn demo_dlq_config ''loader'' demo_dlq_env [] = Some (Ok demo_dlq)"
  by (simp add: dlq_spawn_def build_backends_def make_kafka_def make_file_def make_http_def make_redis_def demo_dlq_config_def
    demo_dlq_env_def bg_spawn_def dlq_sink_config_def demo_dlq_def demo_dlq_drain_def demo_kafka_dlq_def)

lemma demo_dlq_exit:
  "\<exists>s. bg_run (dlq_sink_config demo_dlq_config) (dlq_drain_ops demo_dlq_lib) [EvTryPush demo_letter, EvShutdown]
      (the (dlq_sink demo_dlq)) = s \<and> bg_exited s \<and> bg_admitted s = [SinkData demo_letter]
      \<and> dd_attempts (bg_drain s) = [(''kafka'', [demo_letter], False), (''file'', [demo_letter], True)]"
proof -
  obtain d r where 1: "dlq_write_batch demo_dlq_lib demo_dlq_drain [demo_letter] = (d, r)" by fastforce
  then have "dd_attempts d = [(''kafka'', [demo_letter], False), (''file'', [demo_letter], True)]"
    using demo_dlq_attempts by simp
  then show ?thesis
    by (simp add: demo_dlq_def demo_dlq_config_def dlq_sink_config_def bg_run_def bg_defs bg_actor_defs Let_def actor_step_def
      actor_shutdown_def actor_exit_def dlq_drain_ops_def word_le_nat_alt 1)
qed

theorem dlq_entries_accounted_witness:
  "\<exists>d :: bytes dlq_drain. dd_attempts d = [(''kafka'', [demo_letter], False), (''file'', [demo_letter], True)]
    \<and> ((\<exists>n b. (n, b, True) \<in> set (dd_attempts d) \<and> demo_letter \<in> set b)
      \<or> (\<exists>b. demo_letter \<in> set b \<and> (\<forall>n\<in>set (map backend_name (dd_backends d)). (n, b, False) \<in> set (dd_attempts d))))"
proof -
  obtain s where s: "bg_run (dlq_sink_config demo_dlq_config) (dlq_drain_ops demo_dlq_lib) [EvTryPush demo_letter, EvShutdown]
      (the (dlq_sink demo_dlq)) = s" "bg_exited s" "bg_admitted s = [SinkData demo_letter]"
      "dd_attempts (bg_drain s) = [(''kafka'', [demo_letter], False), (''file'', [demo_letter], True)]"
    using demo_dlq_exit by blast
  have "dlq_sink demo_dlq = Some (the (dlq_sink demo_dlq))" by (simp add: demo_dlq_def)
  from dlq_entries_accounted [OF demo_dlq_spawn this s(1,2), of demo_letter]
  show ?thesis using s(3,4) by (intro exI [of _ "bg_drain s"] conjI) simp_all
qed

subsection \<open>The file backend\<close>

definition appends :: "'w dlq_lib \<Rightarrow> ('w \<Rightarrow> bytes) \<Rightarrow> bool" where
  "appends l content \<longleftrightarrow> (\<forall>w buf w' u. write_all l w buf = (w', Ok u) \<longrightarrow> content w' = content w @ buf)
     \<and> (\<forall>w w' u. fw_flush l w = (w', Ok u) \<longrightarrow> content w' = content w)"

definition compact_json :: "'w dlq_lib \<Rightarrow> bool" where
  "compact_json l \<longleftrightarrow> (\<forall>e j. entry_json l e = Ok j \<longrightarrow> 0x0a \<notin> set j \<and> no_outer_ws j)"

lemma ndjson_body_lines:
  "ndjson_body l b buf = Ok out \<Longrightarrow>
     \<exists>js. map (entry_json l) b = map Ok js \<and> out = buf @ concat (map (\<lambda>j. j @ [0x0a]) js)"
proof (induction b arbitrary: buf)
  case (Cons e b)
  then obtain j where j: "entry_json l e = Ok j" "ndjson_body l b (buf @ j @ [0x0a]) = Ok out"
    by (auto split: sum.splits)
  from Cons.IH [OF j(2)] obtain js where "map (entry_json l) b = map Ok js"
      "out = (buf @ j @ [0x0a]) @ concat (map (\<lambda>j. j @ [0x0a]) js)" by blast
  then show ?case using j(1) by (intro exI [of _ "j # js"]) simp
qed simp

lemma ndjson_read_back:
  assumes "memchr_iter_spec m" and "\<forall>j\<in>set js. 0x0a \<notin> set j \<and> no_outer_ws j"
  shows "from_ndjson m (concat (map (\<lambda>j. j @ [0x0a]) js)) = from_records (map (bare_record Json) js)"
proof -
  have "concat (map line_records js) = map (bare_record Json) js"
    using assms(2) line_records_pad [of "[]" "[]"] by (induction js) simp_all
  moreover have "\<forall>j\<in>set js. 0x0a \<notin> set j" using assms(2) by simp
  from split_on_lines [OF this] have "split_on 0x0a (concat (map (\<lambda>j. j @ [0x0a]) js)) = js @ [[]]" .
  ultimately show ?thesis by (simp add: from_ndjson_eq [OF assms(1)] line_records_blank)
qed

text \<open>The file backend round-trips: when a batch is accepted, the file has grown by one line
  per entry, in order, and reading the new part back with the NDJSON framing gives exactly
  the serialised entries; the line counter has grown by their number. (The writer appends
  what it is given; the serialiser emits compact JSON without line feeds.)
\<close>

theorem dlq_file_roundtrip:
  assumes "memchr_iter_spec m" and "appends l content" and "compact_json l"
    and "file_send_batch l b (w, nw) = ((w', nw'), Ok ())"
  shows "\<exists>js. map (entry_json l) b = map Ok js
    \<and> from_ndjson m (drop (length (content w)) (content w')) = from_records (map (bare_record Json) js)
    \<and> lines_written nw' = lines_written nw + of_nat (length b) \<and> write_errors nw' = write_errors nw"
proof (cases "b = []")
  case True
  then show ?thesis using assms(4) ndjson_read_back [OF assms(1), of "[]"] by (simp add: file_send_batch_def)
next
  case False
  obtain buf where buf: "ndjson_body l b [] = Ok buf" "write_buf l buf (of_nat (length b)) (w, nw) = ((w', nw'), Ok ())"
    using assms(4) False by (auto simp: file_send_batch_def split: sum.splits prod.splits)
  obtain js where js: "map (entry_json l) b = map Ok js" "buf = concat (map (\<lambda>j. j @ [0x0a]) js)"
    using ndjson_body_lines [OF buf(1)] by auto
  obtain w1 where w: "write_all l w buf = (w1, Ok ())" "fw_flush l w1 = (w', Ok ())"
      and nw: "nw' = nw\<lparr>lines_written := lines_written nw + of_nat (length b)\<rparr>"
    using buf(2) by (auto simp: write_buf_def split: sum.splits prod.splits)
  have "content w' = content w @ buf" using assms(2) w unfolding appends_def by metis
  moreover have "\<forall>j\<in>set js. 0x0a \<notin> set j \<and> no_outer_ws j"
  proof
    fix j assume "j \<in> set js"
    then have "Ok j \<in> set (map (entry_json l) b)" unfolding js(1) by simp
    then show "0x0a \<notin> set j \<and> no_outer_ws j" using assms(3) unfolding compact_json_def by (metis (no_types) ex_map_conv list.set_map imageE)
  qed
  ultimately show ?thesis using js ndjson_read_back [OF assms(1)] nw by (intro exI [of _ js]) simp
qed

lemma demo_appends: "appends demo_dlq_lib (\<lambda>w. w)"
  by (simp add: appends_def demo_dlq_lib_def)

definition ascii_lib :: "bytes dlq_lib" where
  "ascii_lib = demo_dlq_lib\<lparr>entry_json := (\<lambda>e. Ok (0x7b # filter (\<lambda>b. b \<noteq> 0x0a) (dl_payload e) @ [0x7d]))\<rparr>"

lemma ascii_lib_specs: "appends ascii_lib (\<lambda>w. w)" "compact_json ascii_lib"
  using demo_appends
  by (simp_all add: ascii_lib_def appends_def compact_json_def no_outer_ws_def is_ascii_whitespace_def)

theorem dlq_file_roundtrip_witness:
  "from_ndjson (\<lambda>c bs. filter (\<lambda>i. bs ! i = c) [0..<length bs])
      (drop (length [0x41, 0x0a]) ([0x41, 0x0a] @ [0x7b, 0x31, 0x7d, 0x0a]))
    = from_records [bare_record Json [0x7b, 0x31, 0x7d]]"
proof -
  let ?m = "\<lambda>c bs. filter (\<lambda>i. bs ! i = c) [0..<length bs] :: nat list"
  have "memchr_iter_spec ?m" by (simp add: memchr_iter_spec_def)
  moreover have "file_send_batch ascii_lib [demo_letter] ([0x41, 0x0a], writer_new) =
      (([0x41, 0x0a] @ [0x7b, 0x31, 0x7d, 0x0a], writer_new\<lparr>lines_written := 1\<rparr>), Ok ())"
    by (simp add: ascii_lib_def demo_dlq_defs)
  ultimately show ?thesis
    using dlq_file_roundtrip [of ?m ascii_lib "\<lambda>w. w" "[demo_letter]", OF _ ascii_lib_specs]
    by (fastforce simp: ascii_lib_def demo_letter_def dead_letter_new_def)
qed

subsection \<open>Flush and modes\<close>

text \<open>
  \<open>Dlq::flush\<close> does not reach the backends: the drain keeps the default \<open>flush_durable\<close>, so a
  flush answers \<open>Ok\<close> while the Kafka producer still has messages in flight, which
  \<open>DlqBackend::flush_durable\<close>, never called, would have reported.
\<close>

lemma dlq_flush_not_durable:
  "\<exists>(l :: bytes dlq_lib) d be. be \<in> set (dd_backends d) \<and> flush_durable (dlq_drain_ops l) d = (d, Ok ())
     \<and> \<not> is_ok (snd (backend_flush_durable l show_nat (dd_world d, be)))"
  by (intro exI [of _ demo_dlq_lib] exI [of _ demo_dlq_drain] exI [of _ "KafkaBackend demo_kafka_dlq"])
    (simp add: demo_dlq_drain_def dlq_drain_ops_def kafka_flush_durable_def producer_flush_def demo_dlq_lib_def)

text \<open>Kafka comes first, then the file; the single-backend modes gate only these two.\<close>

lemma build_backends_modes:
  assumes "build_backends c service env = Ok bs"
  shows "map backend_name bs =
     (if dlq_mode_of c \<in> {Cascade, FanOut, KafkaOnly} \<and> kafka_enabled c then [''kafka''] else [])
   @ (if dlq_mode_of c \<in> {Cascade, FanOut, FileOnly} \<and> file_enabled c then [''file''] else [])
   @ (if http_enabled c then [''http''] else []) @ (if redis_enabled c then [''redis''] else [])"
  using assms
  by (auto simp: build_backends_def make_kafka_def make_file_def make_http_def make_redis_def split: if_splits sum.splits)

lemma single_mode_keeps_http:
  "\<exists>c env bs. dlq_mode_of c = FileOnly \<and> build_backends c [] env = Ok bs \<and> map backend_name bs = [''file'', ''http'']"
  by (intro exI [of _ "demo_dlq_config\<lparr>dlq_mode_of := FileOnly, http_enabled := True, http_endpoint := ''u''\<rparr>"]
      exI [of _ demo_dlq_env])
    (simp add: build_backends_def make_kafka_def make_file_def make_http_def make_redis_def demo_dlq_config_def demo_dlq_env_def)

end
