(* ===== verification/Memory_Transport.thy ===== *)
theory Memory_Transport
  imports Filter_Engine Kafka_Producer
begin

text \<open>
  The contract of a \<open>TransportSender\<close> (\<open>src/transport/traits.rs\<close>) as a locale, with what its
  default \<open>send_batch\<close> then guarantees, and the in-memory transport
  (\<open>src/transport/memory/mod.rs\<close>) that the code's own tests run against. The bounded tokio
  channel is a list with a capacity. \<open>inject\<close> and the sender handle wait for room, so they are two steps: the
  sequence number is taken first, the message enters the channel later, and other operations may come between. \<open>send\<close>
  and \<open>recv\<close> are composed from the parts between which other calls can come: the check and the numbering of a send
  and its \<open>try_send\<close>; the closed check, the lock and each turn of the loop of a receive. The runs interleave those parts.
\<close>

subsection \<open>The sender contract\<close>

definition rec_key :: "wrecord \<Rightarrow> string" where
  "rec_key r = (case key r of None \<Rightarrow> '''' | Some k \<Rightarrow> k)"

text \<open>The payloads of a block that pass the filter and go to \<open>d\<close>.\<close>

definition passing :: "('s \<Rightarrow> string \<Rightarrow> bytes \<Rightarrow> filter_disposition) \<Rightarrow> ('s \<Rightarrow> string \<Rightarrow> 'd) \<Rightarrow> 's \<Rightarrow> 'd \<Rightarrow> wrecord list \<Rightarrow> bytes list" where
  "passing disp dest s d rs = map payload (filter (\<lambda>r. disp s (rec_key r) (payload r) = DispPass \<and> dest s (rec_key r) = d) rs)"

text \<open>\<open>dest\<close> names where a key's payloads go, \<open>wire\<close> is what was put there so far, \<open>disp\<close> the
  outbound filter's verdict.\<close>

locale transport_sender =
  fixes send :: "'s \<Rightarrow> string \<Rightarrow> bytes \<Rightarrow> 's \<times> 'e send_result"
    and dest :: "'s \<Rightarrow> string \<Rightarrow> 'd"
    and wire :: "'s \<Rightarrow> 'd \<Rightarrow> bytes list"
    and disp :: "'s \<Rightarrow> string \<Rightarrow> bytes \<Rightarrow> filter_disposition"
  assumes send_ok: "send s k p = (s', SendOk) \<Longrightarrow> disp s k p \<noteq> DispDlq
      \<and> wire s' = (if disp s k p = DispPass then (wire s)(dest s k := wire s (dest s k) @ [p]) else wire s)"
    and send_dlq: "send s k p = (s', FilteredDlq) \<Longrightarrow> disp s k p = DispDlq \<and> wire s' = wire s"
    and send_refused: "send s k p = (s', r) \<Longrightarrow> \<not> accepted r \<Longrightarrow> wire s' = wire s"
    and send_frame: "send s k p = (s', r) \<Longrightarrow> dest s' = dest s \<and> disp s' = disp s"
begin

lemma passing_Nil [simp]: "passing disp dest s d [] = []"
  by (simp add: passing_def)

lemma passing_append: "passing disp dest s d (xs @ ys) = passing disp dest s d xs @ passing disp dest s d ys"
  by (simp add: passing_def)

lemma passing_frame: "send s k p = (s', r) \<Longrightarrow> passing disp dest s' = passing disp dest s"
  using send_frame[of s k p s' r] by (simp add: passing_def fun_eq_iff)

lemma send_accepted:
  assumes "send s (rec_key r) (payload r) = (s', res)" and "accepted res"
  shows "wire s' d = wire s d @ passing disp dest s d [r]"
  using assms send_ok[of s "rec_key r" "payload r" s'] send_dlq[of s "rec_key r" "payload r" s']
  by (cases res) (auto simp: passing_def)

lemma send_batch_Cons:
  "send_batch send s (r # rs) = (case send s (rec_key r) (payload r) of (s', res) \<Rightarrow>
     if accepted res then send_batch send s' rs else (s', res))"
  by (auto simp: rec_key_def Let_def split: prod.split send_result.split)

text \<open>A block reaches the wire as the passing part of a prefix of it, in order per destination; the whole of it
  when the block is accepted.\<close>

lemma batch_prefix:
  assumes "send_batch send s rs = (s', res)"
  shows "\<exists>n\<le>length rs. (\<forall>d. wire s' d = wire s d @ passing disp dest s d (take n rs)) \<and> (res = SendOk \<longleftrightarrow> n = length rs)
     \<and> dest s' = dest s \<and> disp s' = disp s"
  using assms
proof (induction rs arbitrary: s)
  case (Cons r rs)
  obtain s1 r1 where 1: "send s (rec_key r) (payload r) = (s1, r1)" by (cases "send s (rec_key r) (payload r)")
  note fr = send_frame[OF 1] passing_frame[OF 1]
  show ?case
  proof (cases "accepted r1")
    case True
    with Cons.prems 1 have "send_batch send s1 rs = (s', res)" by (simp add: send_batch_Cons del: send_batch.simps)
    from Cons.IH[OF this] obtain n where n: "n \<le> length rs" "\<forall>d. wire s' d = wire s1 d @ passing disp dest s1 d (take n rs)"
      "res = SendOk \<longleftrightarrow> n = length rs" "dest s' = dest s1" "disp s' = disp s1" by blast
    have "wire s' d = wire s d @ passing disp dest s d (take (Suc n) (r # rs))" for d
      using n(2) send_accepted[OF 1 True, of d] passing_append[of s d "[r]" "take n rs"] by (simp add: fr)
    with n fr show ?thesis by (intro exI[of _ "Suc n"]) simp
  next
    case False
    with Cons.prems 1 have "s' = s1" "res = r1" by (simp_all add: send_batch_Cons del: send_batch.simps)
    with False 1 fr send_refused[OF 1 False] show ?thesis by (intro exI[of _ 0]) auto
  qed
qed simp

end

text \<open>A caller that repeats a refused block as a whole: \<open>idle\<close> is what the world may do between two attempts, the index
  what an attempt takes from outside (its clock). The number counts the attempts that were refused.\<close>

inductive retried :: "('i \<Rightarrow> 's \<Rightarrow> string \<Rightarrow> bytes \<Rightarrow> 's \<times> 'e send_result) \<Rightarrow> ('s \<Rightarrow> 's \<Rightarrow> bool) \<Rightarrow> wrecord list \<Rightarrow> 's \<Rightarrow> nat \<Rightarrow> 's \<Rightarrow> bool"
  for send idle rs where
  retry_done: "send_batch (send i) s rs = (s', SendOk) \<Longrightarrow> retried send idle rs s 0 s'"
| retry_again: "send_batch (send i) s rs = (s1, r) \<Longrightarrow> r \<noteq> SendOk \<Longrightarrow> idle s1 s2 \<Longrightarrow> retried send idle rs s2 n s' \<Longrightarrow> retried send idle rs s (Suc n) s'"

locale retrying_sender =
  fixes send :: "'i \<Rightarrow> 's \<Rightarrow> string \<Rightarrow> bytes \<Rightarrow> 's \<times> 'e send_result"
    and dest :: "'s \<Rightarrow> string \<Rightarrow> 'd"
    and wire :: "'s \<Rightarrow> 'd \<Rightarrow> bytes list"
    and disp :: "'s \<Rightarrow> string \<Rightarrow> bytes \<Rightarrow> filter_disposition"
    and idle :: "'s \<Rightarrow> 's \<Rightarrow> bool"
  assumes attempt: "transport_sender (send i) dest wire disp"
    and idle_keeps: "idle s s' \<Longrightarrow> wire s' = wire s \<and> dest s' = dest s \<and> disp s' = disp s"
begin

text \<open>Every refused attempt leaves the passing part of a proper prefix, the accepted one the whole block: duplicates of prefixes, no loss.\<close>

lemma retries_deliver:
  "retried send idle rs s n s' \<Longrightarrow> \<exists>ns. length ns = n \<and> list_all (\<lambda>m. m < length rs) ns
     \<and> (\<forall>d. wire s' d = wire s d @ concat (map (\<lambda>m. passing disp dest s d (take m rs)) ns) @ passing disp dest s d rs)"
proof (induction rule: retried.induct)
  case (retry_done i s s')
  from transport_sender.batch_prefix[OF attempt retry_done] show ?case by auto
next
  case (retry_again i s s1 r s2 n s')
  from transport_sender.batch_prefix[OF attempt retry_again(1)] retry_again(2) obtain m where
    m: "m < length rs" "\<forall>d. wire s1 d = wire s d @ passing disp dest s d (take m rs)" "dest s1 = dest s" "disp s1 = disp s"
    by (metis le_neq_implies_less)
  note k = idle_keeps[OF retry_again(3)]
  from retry_again.IH obtain ns where "length ns = n" "list_all (\<lambda>m. m < length rs) ns"
    "\<forall>d. wire s' d = wire s2 d @ concat (map (\<lambda>m. passing disp dest s2 d (take m rs)) ns) @ passing disp dest s2 d rs" by blast
  moreover have "passing disp dest s2 = passing disp dest s" using k m(3,4) by (simp add: passing_def fun_eq_iff)
  ultimately show ?case using m k by (intro exI[of _ "m # ns"]) simp
qed

end

subsection \<open>What a receiver hands out\<close>

text \<open>A received list, filtered and collapsed into a block, is acknowledged completely.\<close>

definition collapse :: "('p, 'j, 'c) filter_lib \<Rightarrow> 'p filter_engine \<Rightarrow> 't message list \<Rightarrow> 't work_batch" where
  "collapse lib eng ms = (let fb = partition_batch lib eng ms msg_payload msg_key msg_token
     in from_recv_batch \<lparr>messages = fb_messages fb, rb_dlq_entries = fb_dlq_entries fb, filtered_tokens = fb_filtered_tokens fb\<rparr>)"

lemma collapse_tokens: "mset (commit_tokens (collapse lib eng ms)) = mset (map msg_token ms)"
  using partition_mset[of "\<lambda>m. apply_inbound lib eng (msg_payload m) = DispPass" ms]
  by (simp add: collapse_def from_recv_batch_def partition_batch_eq Let_def flip: image_mset_union)

subsection \<open>The in-memory transport\<close>

record mem_msg =
  mm_key :: "string option"
  mm_payload :: bytes
  mm_seq :: u64
  mm_timestamp_ms :: int

text \<open>\<open>mt_parked\<close> are the messages whose sender waits for room; \<open>mt_taken\<close> what was received so far.\<close>

record 'p mem_transport =
  mt_queue :: "mem_msg list"
  mt_parked :: "mem_msg list"
  mt_taken :: "mem_msg list"
  mt_buffer_size :: nat
  mt_sequence :: u64
  mt_committed_seq :: u64
  mt_closed :: bool
  mt_recv_timeout_ms :: u64
  mt_filters :: "'p filter_engine"

datatype mem_token = MemoryToken u64

fun token_seq :: "mem_token \<Rightarrow> u64" where "token_seq (MemoryToken n) = n"

record memory_config =
  mc_buffer_size :: nat
  mc_recv_timeout_ms :: u64
  mc_filters_in :: "filter_rule list"
  mc_filters_out :: "filter_rule list"

definition memory_config_default :: memory_config where
  "memory_config_default = \<lparr>mc_buffer_size = 1000, mc_recv_timeout_ms = 0, mc_filters_in = [], mc_filters_out = []\<rparr>"

text \<open>\<open>mpsc::channel(0)\<close> panics: \<open>None\<close>.\<close>

definition mem_new :: "('p, 'j, 'c) filter_lib \<Rightarrow> tier_config \<Rightarrow> memory_config \<Rightarrow> ('p mem_transport, nat \<times> filter_error) result option" where
  "mem_new lib tiers c =
     (if mc_buffer_size c = 0 then None
      else Some (case tfe_new lib (mc_filters_in c) (mc_filters_out c) tiers of
          Inl e \<Rightarrow> Err e
        | Inr eng \<Rightarrow> Ok \<lparr>mt_queue = [], mt_parked = [], mt_taken = [], mt_buffer_size = mc_buffer_size c, mt_sequence = 0,
            mt_committed_seq = 0, mt_closed = False, mt_recv_timeout_ms = mc_recv_timeout_ms c, mt_filters = eng\<rparr>))"

definition next_msg :: "string option \<Rightarrow> bytes \<Rightarrow> int \<Rightarrow> 'p mem_transport \<Rightarrow> mem_msg" where
  "next_msg k p now t = \<lparr>mm_key = k, mm_payload = p, mm_seq = mt_sequence t, mm_timestamp_ms = now\<rparr>"

text \<open>\<open>inject\<close> up to its wait; the sender handle of \<open>sender()\<close> does the same without the closed check.\<close>

definition mem_inject :: "string option \<Rightarrow> bytes \<Rightarrow> int \<Rightarrow> 'p mem_transport \<Rightarrow> 'p mem_transport \<times> (unit, transport_error) result" where
  "mem_inject k p now t =
     (if mt_closed t then (t, Err TeClosed)
      else (t\<lparr>mt_sequence := mt_sequence t + 1, mt_parked := mt_parked t @ [next_msg k p now t]\<rparr>, Ok ()))"

definition mem_handle_send :: "string option \<Rightarrow> bytes \<Rightarrow> int \<Rightarrow> 'p mem_transport \<Rightarrow> 'p mem_transport" where
  "mem_handle_send k p now t = t\<lparr>mt_sequence := mt_sequence t + 1, mt_parked := mt_parked t @ [next_msg k p now t]\<rparr>"

text \<open>The channel hands its free slots to the waiting senders in the order they came.\<close>

definition mem_admit :: "'p mem_transport \<Rightarrow> 'p mem_transport" where
  "mem_admit t = (case mt_parked t of
     [] \<Rightarrow> t
   | m # ms \<Rightarrow> if length (mt_queue t) < mt_buffer_size t then t\<lparr>mt_queue := mt_queue t @ [m], mt_parked := ms\<rparr> else t)"

definition mem_disp :: "('p, 'j, 'c) filter_lib \<Rightarrow> 'p mem_transport \<Rightarrow> string \<Rightarrow> bytes \<Rightarrow> filter_disposition" where
  "mem_disp lib t k p = (if filters_out (mt_filters t) \<noteq> [] then apply_outbound lib (mt_filters t) p else DispPass)"

text \<open>The part of \<open>send\<close> before the channel is tried: an answer, or the numbered message. A message that then finds the
  channel full has used up its number.\<close>

definition send_number :: "('p, 'j, 'c) filter_lib \<Rightarrow> int \<Rightarrow> 'p mem_transport \<Rightarrow> string \<Rightarrow> bytes \<Rightarrow> 'p mem_transport \<times> (transport_error send_result + mem_msg)" where
  "send_number lib now t k p =
     (if mt_closed t then (t, Inl (SendFatal TeClosed))
      else case mem_disp lib t k p of
        DispDrop \<Rightarrow> (t, Inl SendOk)
      | DispDlq \<Rightarrow> (t, Inl FilteredDlq)
      | DispPass \<Rightarrow> (t\<lparr>mt_sequence := mt_sequence t + 1\<rparr>, Inr (next_msg (Some k) p now t)))"

definition try_send :: "mem_msg \<Rightarrow> 'p mem_transport \<Rightarrow> 'p mem_transport \<times> transport_error send_result" where
  "try_send m t = (if length (mt_queue t) < mt_buffer_size t then (t\<lparr>mt_queue := mt_queue t @ [m]\<rparr>, SendOk) else (t, Backpressured))"

definition mem_send :: "('p, 'j, 'c) filter_lib \<Rightarrow> int \<Rightarrow> 'p mem_transport \<Rightarrow> string \<Rightarrow> bytes \<Rightarrow> 'p mem_transport \<times> transport_error send_result" where
  "mem_send lib now t k p = (case send_number lib now t k p of (t', Inl r) \<Rightarrow> (t', r) | (t', Inr m) \<Rightarrow> try_send m t')"

definition mem_message :: "mem_msg \<Rightarrow> mem_token message" where
  "mem_message m = message_new (mm_key m) (mm_payload m) (MemoryToken (mm_seq m)) (Some (mm_timestamp_ms m))"

text \<open>One turn of the loop of \<open>recv\<close>, with \<open>k\<close> turns left: \<open>None\<close> ends it, for the number of turns or because
  the channel is empty (with a timeout: when it is over). The channel cannot be disconnected: the transport keeps a sender.\<close>

fun recv_turn :: "nat \<times> mem_msg list \<Rightarrow> 'p mem_transport \<Rightarrow> ((nat \<times> mem_msg list) \<times> 'p mem_transport) option" where
  "recv_turn (0, ms) t = None"
| "recv_turn (Suc k, ms) t = (case mt_queue t of
     [] \<Rightarrow> None
   | m # q \<Rightarrow> Some ((k, ms @ [m]), t\<lparr>mt_queue := q, mt_taken := mt_taken t @ [m]\<rparr>))"

lemma recv_turn_decreases: "recv_turn (k, ms) t = Some ((k', ms'), t') \<Longrightarrow> k' < k"
  by (cases k) (auto split: list.splits)

function recv_loop :: "nat \<times> mem_msg list \<Rightarrow> 'p mem_transport \<Rightarrow> mem_msg list \<times> 'p mem_transport" where
  "recv_loop d t = (case recv_turn d t of None \<Rightarrow> (snd d, t) | Some (d', t') \<Rightarrow> recv_loop d' t')"
  by pat_completeness auto
termination by (relation "measure (fst \<circ> fst)") (auto dest: recv_turn_decreases)

declare recv_loop.simps [simp del]

definition recv_block :: "('p, 'j, 'c) filter_lib \<Rightarrow> mem_msg list \<Rightarrow> 'p mem_transport \<Rightarrow> mem_token work_batch" where
  "recv_block lib ms t = collapse lib (mt_filters t) (map mem_message ms)"

definition mem_recv :: "('p, 'j, 'c) filter_lib \<Rightarrow> nat \<Rightarrow> 'p mem_transport \<Rightarrow> 'p mem_transport \<times> (mem_token work_batch, transport_error) result" where
  "mem_recv lib max_n t =
     (if mt_closed t then (t, Err TeClosed)
      else case recv_loop (max_n, []) t of (ms, t') \<Rightarrow> (t', Ok (recv_block lib ms t')))"

definition mem_commit :: "mem_token list \<Rightarrow> 'p mem_transport \<Rightarrow> 'p mem_transport" where
  "mem_commit ts t = (case map token_seq ts of
     [] \<Rightarrow> t
   | n # ns \<Rightarrow> t\<lparr>mt_committed_seq := max (mt_committed_seq t) (foldl max n ns)\<rparr>)"

definition mem_close :: "'p mem_transport \<Rightarrow> 'p mem_transport \<times> (unit, transport_error) result" where
  "mem_close t = (t\<lparr>mt_closed := True\<rparr>, Ok ())"

definition mem_is_healthy :: "'p mem_transport \<Rightarrow> bool" where
  "mem_is_healthy t \<longleftrightarrow> \<not> mt_closed t"

text \<open>A key's traffic: what it put into the channel, received or not.\<close>

definition mem_wire :: "'p mem_transport \<Rightarrow> string \<Rightarrow> bytes list" where
  "mem_wire t k = map mm_payload (filter (\<lambda>m. mm_key m = Some k) (mt_taken t @ mt_queue t))"

interpretation mem: transport_sender "mem_send lib now" "\<lambda>t k. k" mem_wire "mem_disp lib" for lib :: "('p, 'j, 'c) filter_lib" and now
proof
  fix s s' :: "'p mem_transport" and k p r
  show "mem_send lib now s k p = (s', SendOk) \<Longrightarrow> mem_disp lib s k p \<noteq> DispDlq
      \<and> mem_wire s' = (if mem_disp lib s k p = DispPass then (mem_wire s)(k := mem_wire s k @ [p]) else mem_wire s)"
    by (auto simp: mem_send_def send_number_def try_send_def mem_wire_def next_msg_def fun_eq_iff split: if_splits filter_disposition.splits)
  show "mem_send lib now s k p = (s', FilteredDlq) \<Longrightarrow> mem_disp lib s k p = DispDlq \<and> mem_wire s' = mem_wire s"
    by (auto simp: mem_send_def send_number_def try_send_def split: if_splits filter_disposition.splits)
  show "mem_send lib now s k p = (s', r) \<Longrightarrow> \<not> accepted r \<Longrightarrow> mem_wire s' = mem_wire s"
    by (auto simp: mem_send_def send_number_def try_send_def mem_wire_def fun_eq_iff split: if_splits filter_disposition.splits)
  show "mem_send lib now s k p = (s', r) \<Longrightarrow> (\<lambda>k. k) = (\<lambda>k. k) \<and> mem_disp lib s' = mem_disp lib s"
    by (auto simp: mem_send_def send_number_def try_send_def mem_disp_def fun_eq_iff split: if_splits filter_disposition.splits)
qed

text \<open>A receive moves messages out of the channel; what a key put into it stays its traffic.\<close>

lemma recv_loop_eq:
  "recv_loop (k, ms) t = (ms @ take k (mt_queue t), t\<lparr>mt_queue := drop k (mt_queue t), mt_taken := mt_taken t @ take k (mt_queue t)\<rparr>)"
proof (induction k arbitrary: ms t)
  case 0
  show ?case by (subst recv_loop.simps) simp
next
  case (Suc k)
  show ?case by (subst recv_loop.simps) (simp add: Suc.IH split: list.split)
qed

lemma mem_recv_keeps:
  assumes "mem_recv lib n t = (t', x)"
  shows "mem_wire t' = mem_wire t" and "mem_disp lib t' = mem_disp lib t"
proof -
  have "mt_taken t' @ mt_queue t' = mt_taken t @ mt_queue t \<and> mt_filters t' = mt_filters t"
    using assms by (auto simp: mem_recv_def recv_loop_eq split: if_splits)
  then show "mem_wire t' = mem_wire t" "mem_disp lib t' = mem_disp lib t" by (simp_all add: mem_wire_def mem_disp_def fun_eq_iff)
qed

subsection \<open>Runs\<close>

text \<open>The calls in progress: numbered sends that have yet to try the channel (\<open>mp_sends\<close>), receives that have passed the
  closed check and wait for the lock (\<open>mp_calls\<close>, with their \<open>max\<close>), and the receive that holds it. Any of them may
  move at any time; a call of \<open>close\<close> stops none of them.\<close>

record 'p mem_pool =
  mp_transport :: "'p mem_transport"
  mp_sends :: "mem_msg list"
  mp_calls :: "nat list"
  mp_drain :: "(nat \<times> mem_msg list) option"

datatype mem_op = MoSend string bytes int | MoTrySend nat | MoInject "string option" bytes int | MoHandle "string option" bytes int | MoAdmit
  | MoRecv nat | MoLock nat | MoTurn | MoCommit "mem_token list" | MoClose

text \<open>What a caller is told: the result of \<open>send key payload\<close>, that an injected message is in the channel, or what
  \<open>recv\<close> returns.\<close>

datatype mem_event = SendAnswer string bytes "transport_error send_result" | InjectAnswer "string option" bytes "(unit, transport_error) result"
  | RecvAnswer "(mem_token work_batch, transport_error) result"

definition take_out :: "nat \<Rightarrow> 'a list \<Rightarrow> 'a list" where
  "take_out i xs = take i xs @ drop (Suc i) xs"

definition turn_step :: "('p, 'j, 'c) filter_lib \<Rightarrow> 'p mem_pool \<Rightarrow> 'p mem_pool \<times> mem_event list" where
  "turn_step lib s = (case mp_drain s of
     None \<Rightarrow> (s, [])
   | Some d \<Rightarrow> (case recv_turn d (mp_transport s) of
       Some (d', t') \<Rightarrow> (s\<lparr>mp_drain := Some d', mp_transport := t'\<rparr>, [])
     | None \<Rightarrow> (s\<lparr>mp_drain := None\<rparr>, [RecvAnswer (Ok (recv_block lib (snd d) (mp_transport s)))])))"

definition mem_step :: "('p, 'j, 'c) filter_lib \<Rightarrow> mem_op \<Rightarrow> 'p mem_pool \<Rightarrow> 'p mem_pool \<times> mem_event list" where
  "mem_step lib x s = (let t = mp_transport s in case x of
     MoSend k p now \<Rightarrow> (case send_number lib now t k p of
         (t', Inl r) \<Rightarrow> (s\<lparr>mp_transport := t'\<rparr>, [SendAnswer k p r])
       | (t', Inr m) \<Rightarrow> (s\<lparr>mp_transport := t', mp_sends := mp_sends s @ [m]\<rparr>, []))
   | MoTrySend i \<Rightarrow> (if i < length (mp_sends s) then
         (let m = mp_sends s ! i in case try_send m t of
            (t', r) \<Rightarrow> (s\<lparr>mp_transport := t', mp_sends := take_out i (mp_sends s)\<rparr>, [SendAnswer (the (mm_key m)) (mm_payload m) r]))
       else (s, []))
   | MoInject k p now \<Rightarrow> (case mem_inject k p now t of
         (t', Inl e) \<Rightarrow> (s\<lparr>mp_transport := t'\<rparr>, [InjectAnswer k p (Err e)])
       | (t', Inr _) \<Rightarrow> (s\<lparr>mp_transport := t'\<rparr>, []))
   | MoHandle k p now \<Rightarrow> (s\<lparr>mp_transport := mem_handle_send k p now t\<rparr>, [])
   | MoAdmit \<Rightarrow> (s\<lparr>mp_transport := mem_admit t\<rparr>,
       if mt_parked (mem_admit t) = mt_parked t then [] else [InjectAnswer (mm_key (hd (mt_parked t))) (mm_payload (hd (mt_parked t))) (Ok ())])
   | MoRecv n \<Rightarrow> if mt_closed t then (s, [RecvAnswer (Err TeClosed)]) else (s\<lparr>mp_calls := mp_calls s @ [n]\<rparr>, [])
   | MoLock i \<Rightarrow> if mp_drain s = None \<and> i < length (mp_calls s)
       then (s\<lparr>mp_drain := Some (mp_calls s ! i, []), mp_calls := take_out i (mp_calls s)\<rparr>, []) else (s, [])
   | MoTurn \<Rightarrow> turn_step lib s
   | MoCommit ts \<Rightarrow> (s\<lparr>mp_transport := mem_commit ts t\<rparr>, [])
   | MoClose \<Rightarrow> (s\<lparr>mp_transport := fst (mem_close t)\<rparr>, []))"

fun mem_run :: "('p, 'j, 'c) filter_lib \<Rightarrow> mem_op list \<Rightarrow> 'p mem_pool \<Rightarrow> 'p mem_pool \<times> mem_event list" where
  "mem_run lib [] s = (s, [])"
| "mem_run lib (x # xs) s = (case mem_step lib x s of (s1, o1) \<Rightarrow> (case mem_run lib xs s1 of (s2, o2) \<Rightarrow> (s2, o1 @ o2)))"


text \<open>A receive that nothing interrupts is \<open>mem_recv\<close>.\<close>

lemma recv_loop_step: "recv_turn d t = Some (d', t') \<Longrightarrow> recv_loop d t = recv_loop d' t'"
  by (subst recv_loop.simps) simp

lemma uninterrupted_turns:
  "mp_drain s = Some d \<Longrightarrow> \<exists>n. mem_run lib (replicate n MoTurn) s =
     (s\<lparr>mp_drain := None, mp_transport := snd (recv_loop d (mp_transport s))\<rparr>,
      [RecvAnswer (Ok (recv_block lib (fst (recv_loop d (mp_transport s))) (snd (recv_loop d (mp_transport s)))))])"
proof (induction d "mp_transport s" arbitrary: s rule: recv_loop.induct)
  case (1 d)
  show ?case
  proof (cases "recv_turn d (mp_transport s)")
    case None
    then have "recv_loop d (mp_transport s) = (snd d, mp_transport s)" by (subst recv_loop.simps) simp
    with None "1.prems" show ?thesis by (intro exI[of _ 1]) (simp add: mem_step_def turn_step_def)
  next
    case (Some dt)
    obtain d' t' where dt: "dt = (d', t')" by (cases dt)
    let ?s = "s\<lparr>mp_drain := Some d', mp_transport := t'\<rparr>"
    from "1.hyps"[OF Some, of d' ?s] dt obtain n where n: "mem_run lib (replicate n MoTurn) ?s =
      (?s\<lparr>mp_drain := None, mp_transport := snd (recv_loop d' t')\<rparr>,
       [RecvAnswer (Ok (recv_block lib (fst (recv_loop d' t')) (snd (recv_loop d' t'))))])" by auto
    have "mem_step lib MoTurn s = (?s, [])" using Some dt "1.prems" by (simp add: mem_step_def turn_step_def)
    with n recv_loop_step[OF Some[unfolded dt]] show ?thesis by (intro exI[of _ "Suc n"]) simp
  qed
qed

lemma uninterrupted_recv:
  assumes "mem_recv lib n t = (t', r)"
  shows "\<exists>xs. mem_run lib xs \<lparr>mp_transport = t, mp_sends = [], mp_calls = [], mp_drain = None\<rparr>
    = (\<lparr>mp_transport = t', mp_sends = [], mp_calls = [], mp_drain = None\<rparr>, [RecvAnswer r])"
proof (cases "mt_closed t")
  case True
  with assms show ?thesis by (intro exI[of _ "[MoRecv n]"]) (auto simp: mem_recv_def mem_step_def)
next
  case False
  let ?s = "\<lparr>mp_transport = t, mp_sends = [], mp_calls = [], mp_drain = Some (n, [])\<rparr>"
  from uninterrupted_turns[of ?s "(n, [])" lib] obtain k where "mem_run lib (replicate k MoTurn) ?s =
      (?s\<lparr>mp_drain := None, mp_transport := snd (recv_loop (n, []) t)\<rparr>,
       [RecvAnswer (Ok (recv_block lib (fst (recv_loop (n, []) t)) (snd (recv_loop (n, []) t))))])" by auto
  with False assms show ?thesis
    by (intro exI[of _ "MoRecv n # MoLock 0 # replicate k MoTurn"]) (auto simp: mem_recv_def mem_step_def take_out_def case_prod_unfold)
qed

lemma uninterrupted_send:
  assumes "mem_send lib now t k p = (t', r)"
  shows "\<exists>xs. mem_run lib xs \<lparr>mp_transport = t, mp_sends = [], mp_calls = [], mp_drain = None\<rparr>
    = (\<lparr>mp_transport = t', mp_sends = [], mp_calls = [], mp_drain = None\<rparr>, [SendAnswer k p r])"
proof -
  obtain t1 a where a: "send_number lib now t k p = (t1, a)" by fastforce
  show ?thesis
  proof (cases a)
    case (Inl x)
    with assms a show ?thesis by (intro exI[of _ "[MoSend k p now]"]) (simp add: mem_send_def mem_step_def)
  next
    case (Inr m)
    have "mm_key m = Some k" "mm_payload m = p"
      using a Inr by (auto simp: send_number_def next_msg_def split: if_splits filter_disposition.splits)
    with Inr assms a show ?thesis
      by (intro exI[of _ "[MoSend k p now, MoTrySend 0]"]) (simp add: mem_send_def mem_step_def take_out_def)
  qed
qed

text \<open>What the callers were told: the messages that were accepted into the channel (a send that passes the outbound filter and is
  answered \<open>Ok\<close>, an injection that returns), and the blocks received.\<close>

definition entered :: "('p, 'j, 'c) filter_lib \<Rightarrow> 'p mem_transport \<Rightarrow> mem_event list \<Rightarrow> (string option \<times> bytes) list" where
  "entered lib t evs = concat (map (\<lambda>e. case e of
     SendAnswer k p r \<Rightarrow> if r = SendOk \<and> mem_disp lib t k p = DispPass then [(Some k, p)] else []
   | InjectAnswer k p r \<Rightarrow> if is_ok r then [(k, p)] else []
   | RecvAnswer r \<Rightarrow> []) evs)"

definition received :: "mem_event list \<Rightarrow> mem_token work_batch list" where
  "received evs = concat (map (\<lambda>e. case e of RecvAnswer (Inr b) \<Rightarrow> [b] | _ \<Rightarrow> []) evs)"

definition committed_by :: "mem_op list \<Rightarrow> u64 list" where
  "committed_by xs = concat (map (\<lambda>x. case x of MoCommit ts \<Rightarrow> map token_seq ts | _ \<Rightarrow> []) xs)"

definition mm_view :: "mem_msg \<Rightarrow> string option \<times> bytes" where
  "mm_view m = (mm_key m, mm_payload m)"

definition in_hand :: "'p mem_pool \<Rightarrow> mem_msg list" where
  "in_hand s = (case mp_drain s of None \<Rightarrow> [] | Some (k, ms) \<Rightarrow> ms)"

lemma events_append [simp]:
  "entered lib t (xs @ ys) = entered lib t xs @ entered lib t ys" "received (xs @ ys) = received xs @ received ys"
  by (simp_all add: entered_def received_def)

lemma events_simps [simp]:
  "entered lib t [] = []" "received [] = []"
  "entered lib t [SendAnswer k p r] = (if r = SendOk \<and> mem_disp lib t k p = DispPass then [(Some k, p)] else [])"
  "entered lib t [InjectAnswer k' p r'] = (if is_ok r' then [(k', p)] else [])" "entered lib t [RecvAnswer r''] = []"
  "received [SendAnswer k p r] = []" "received [InjectAnswer k' p r'] = []" "received [RecvAnswer (Inr b)] = [b]" "received [RecvAnswer (Inl e)] = []"
  by (simp_all add: entered_def received_def)

text \<open>The books, after the events \<open>evs\<close>: the messages taken out of the channel are those of the blocks received, part by part, and
  then those in the hand of the receive in progress; what went through the channel or is still in it is what was accepted.\<close>

definition books :: "('p, 'j, 'c) filter_lib \<Rightarrow> 'p mem_transport \<Rightarrow> 'p mem_pool \<Rightarrow> mem_event list \<Rightarrow> mem_msg list list \<Rightarrow> bool" where
  "books lib t0 s evs parts \<longleftrightarrow> mt_taken (mp_transport s) = concat parts @ in_hand s
     \<and> received evs = map (\<lambda>ms. recv_block lib ms t0) parts
     \<and> map mm_view (mt_taken (mp_transport s) @ mt_queue (mp_transport s)) = entered lib t0 evs
     \<and> mt_filters (mp_transport s) = mt_filters t0 \<and> mt_buffer_size (mp_transport s) = mt_buffer_size t0
     \<and> (\<forall>m\<in>set (mp_sends s). \<exists>k. mm_key m = Some k \<and> mem_disp lib t0 k (mm_payload m) = DispPass)"

lemma mem_disp_filters: "mt_filters t = mt_filters t' \<Longrightarrow> mem_disp lib t = mem_disp lib t'"
  by (simp add: mem_disp_def fun_eq_iff)

lemma books_turn:
  assumes "books lib t0 s evs parts" and "turn_step lib s = (s', o1)"
  shows "\<exists>parts'. books lib t0 s' (evs @ o1) parts'"
proof (cases "mp_drain s")
  case (Some d)
  show ?thesis
  proof (cases "recv_turn d (mp_transport s)")
    case None
    have "recv_block lib (snd d) (mp_transport s) = recv_block lib (snd d) t0" using assms(1) by (simp add: books_def recv_block_def)
    with Some None assms show ?thesis
      by (intro exI[of _ "parts @ [snd d]"]) (auto simp: turn_step_def books_def in_hand_def split: prod.splits)
  next
    case turn: (Some dt)
    obtain k ms where d: "d = (k, ms)" by (cases d)
    from turn d obtain k' m q where k: "k = Suc k'" "mt_queue (mp_transport s) = m # q"
      by (cases k) (auto split: list.splits)
    with Some d assms show ?thesis by (intro exI[of _ parts]) (auto simp: turn_step_def books_def in_hand_def)
  qed
qed (use assms in \<open>auto simp: turn_step_def\<close>)

lemma books_send:
  assumes "books lib t0 s evs parts" and "mem_step lib (MoSend k p now) s = (s', o1)"
  shows "books lib t0 s' (evs @ o1) parts"
proof -
  have "mem_disp lib (mp_transport s) = mem_disp lib t0" using assms(1) by (intro mem_disp_filters) (simp add: books_def)
  with assms show ?thesis
    by (auto simp: mem_step_def books_def in_hand_def send_number_def next_msg_def Let_def split: if_splits filter_disposition.splits)
qed

lemma set_take_out: "set (take_out i xs) \<subseteq> set xs"
  unfolding take_out_def using set_take_subset[of i xs] set_drop_subset[of "Suc i" xs] by auto

lemma books_try_send:
  assumes "books lib t0 s evs parts" and "mem_step lib (MoTrySend i) s = (s', o1)"
  shows "books lib t0 s' (evs @ o1) parts"
proof (cases "i < length (mp_sends s)")
  case True
  let ?m = "mp_sends s ! i"
  obtain k where k: "mm_key ?m = Some k" "mem_disp lib t0 k (mm_payload ?m) = DispPass"
    using assms(1) nth_mem[OF True] unfolding books_def by blast
  with True assms set_take_out[of i "mp_sends s"] show ?thesis
    by (auto simp: mem_step_def books_def in_hand_def try_send_def mm_view_def Let_def split: if_splits)
qed (use assms in \<open>simp add: mem_step_def\<close>)

lemma books_admit:
  assumes "books lib t0 s evs parts" and "mem_step lib MoAdmit s = (s', o1)"
  shows "books lib t0 s' (evs @ o1) parts"
  using assms by (cases "mt_parked (mp_transport s)")
    (auto simp: mem_step_def books_def in_hand_def mem_admit_def mm_view_def Let_def split: if_splits)

lemma books_still:
  assumes "books lib t0 s evs parts"
    and "mt_taken (mp_transport s') = mt_taken (mp_transport s)" and "mt_queue (mp_transport s') = mt_queue (mp_transport s)"
    and "mt_filters (mp_transport s') = mt_filters (mp_transport s)" and "mt_buffer_size (mp_transport s') = mt_buffer_size (mp_transport s)"
    and "mp_sends s' = mp_sends s" and "in_hand s' = in_hand s" and "entered lib t0 o1 = []" and "received o1 = []"
  shows "books lib t0 s' (evs @ o1) parts"
  using assms unfolding books_def by auto

lemma books_step:
  assumes "books lib t0 s evs parts" and "mem_step lib x s = (s', o1)"
  shows "\<exists>parts'. books lib t0 s' (evs @ o1) parts'"
proof (cases x)
  case MoTurn
  then show ?thesis using books_turn[OF assms(1)] assms(2) by (simp add: mem_step_def)
next
  case (MoSend k p now)
  then show ?thesis using books_send[OF assms(1)] assms(2) by blast
next
  case (MoTrySend i)
  then show ?thesis using books_try_send[OF assms(1)] assms(2) by blast
next
  case MoAdmit
  then show ?thesis using books_admit[OF assms(1)] assms(2) by blast
next
  case (MoInject k p now)
  with assms(2) have "books lib t0 s' (evs @ o1) parts"
    by (intro books_still[OF assms(1)]) (auto simp: mem_step_def mem_inject_def in_hand_def Let_def split: if_splits)
  then show ?thesis ..
next
  case (MoHandle k p now)
  with assms(2) have "books lib t0 s' (evs @ o1) parts"
    by (intro books_still[OF assms(1)]) (auto simp: mem_step_def mem_handle_send_def in_hand_def Let_def)
  then show ?thesis ..
next
  case (MoRecv n)
  with assms(2) have "books lib t0 s' (evs @ o1) parts"
    by (intro books_still[OF assms(1)]) (auto simp: mem_step_def in_hand_def Let_def split: if_splits)
  then show ?thesis ..
next
  case (MoLock i)
  with assms(2) have "books lib t0 s' (evs @ o1) parts"
    by (intro books_still[OF assms(1)]) (auto simp: mem_step_def in_hand_def Let_def split: if_splits)
  then show ?thesis ..
next
  case (MoCommit ts)
  with assms(2) have "books lib t0 s' (evs @ o1) parts"
    by (intro books_still[OF assms(1)]) (auto simp: mem_step_def mem_commit_def in_hand_def Let_def split: list.splits)
  then show ?thesis ..
next
  case MoClose
  with assms(2) have "books lib t0 s' (evs @ o1) parts"
    by (intro books_still[OF assms(1)]) (auto simp: mem_step_def mem_close_def in_hand_def Let_def)
  then show ?thesis ..
qed

lemma books_run:
  "books lib t0 s evs parts \<Longrightarrow> mem_run lib xs s = (s', os) \<Longrightarrow> \<exists>parts'. books lib t0 s' (evs @ os) parts'"
proof (induction xs arbitrary: s evs parts os)
  case (Cons x xs)
  obtain s1 o1 where 1: "mem_step lib x s = (s1, o1)" by (cases "mem_step lib x s")
  obtain o2 where 2: "mem_run lib xs s1 = (s', o2)" "os = o1 @ o2" using Cons.prems(2) 1 by (auto split: prod.splits)
  obtain parts1 where "books lib t0 s1 (evs @ o1) parts1" using books_step[OF Cons.prems(1) 1] by blast
  from Cons.IH[OF this 2(1)] 2(2) show ?case by simp
qed auto


text \<open>Sequence numbers count up from 0; as long as the 64 bits have not wrapped no two messages share one.\<close>

definition mem_all :: "'p mem_pool \<Rightarrow> mem_msg list" where
  "mem_all s = mt_taken (mp_transport s) @ mt_queue (mp_transport s) @ mt_parked (mp_transport s) @ mp_sends s"

definition mem_inv :: "nat \<Rightarrow> 'p mem_pool \<Rightarrow> bool" where
  "mem_inv n s \<longleftrightarrow> length (mt_queue (mp_transport s)) \<le> mt_buffer_size (mp_transport s) \<and> mt_sequence (mp_transport s) = of_nat n
     \<and> distinct (map mm_seq (mem_all s)) \<and> mm_seq ` set (mem_all s) \<subseteq> of_nat ` {..<n}"

lemma seq_new:
  assumes "mem_inv n s" and "n < 2 ^ 64"
  shows "mt_sequence (mp_transport s) \<notin> mm_seq ` set (mem_all s)" "mt_sequence (mp_transport s) + 1 = of_nat (Suc n)"
proof -
  have "(of_nat i :: u64) \<noteq> of_nat n" if "i < n" for i
  proof
    assume "(of_nat i :: u64) = of_nat n"
    then have "unat (of_nat i :: u64) = unat (of_nat n :: u64)" by simp
    with that assms(2) show False by (simp add: unat_of_nat)
  qed
  with assms show "mt_sequence (mp_transport s) \<notin> mm_seq ` set (mem_all s)" unfolding mem_inv_def by fastforce
  show "mt_sequence (mp_transport s) + 1 = of_nat (Suc n)" using assms(1) by (simp add: mem_inv_def)
qed

lemma inv_same:
  assumes "mem_inv n s" and "mset (mem_all s') \<subseteq># mset (mem_all s)" and "mt_sequence (mp_transport s') = mt_sequence (mp_transport s)"
    and "length (mt_queue (mp_transport s')) \<le> mt_buffer_size (mp_transport s')"
  shows "mem_inv n s'"
proof -
  obtain zs where z: "mset (mem_all s) = mset (mem_all s' @ zs)"
    using assms(2) by (metis ex_mset mset_append mset_subset_eq_exists_conv)
  then have "mset (map mm_seq (mem_all s)) = mset (map mm_seq (mem_all s' @ zs))" by simp
  then have "distinct (map mm_seq (mem_all s' @ zs))" using assms(1) unfolding mem_inv_def by (metis mset_eq_imp_distinct_iff)
  then have "distinct (map mm_seq (mem_all s'))" by simp
  with assms set_mset_mono[OF assms(2)] show ?thesis by (auto simp: mem_inv_def)
qed

lemma inv_alloc:
  assumes "mem_inv n s" and "n < 2 ^ 64" and "mt_sequence (mp_transport s') = mt_sequence (mp_transport s) + 1"
    and "length (mt_queue (mp_transport s')) \<le> mt_buffer_size (mp_transport s')"
    and "mset (mem_all s') = mset (mem_all s @ [m])" and "mm_seq m = mt_sequence (mp_transport s)"
  shows "mem_inv (Suc n) s'"
proof -
  have d: "distinct (map mm_seq (mem_all s))" "mm_seq ` set (mem_all s) \<subseteq> of_nat ` {..<n}" using assms(1) by (simp_all add: mem_inv_def)
  have "mset (map mm_seq (mem_all s')) = mset (map mm_seq (mem_all s @ [m]))" using assms(5) by simp
  moreover have "distinct (map mm_seq (mem_all s @ [m]))" using d(1) seq_new(1)[OF assms(1,2)] assms(6) by simp
  ultimately have "distinct (map mm_seq (mem_all s'))" by (metis mset_eq_imp_distinct_iff)
  moreover have "set (mem_all s') = set (mem_all s @ [m])" using assms(5) by (rule mset_eq_setD)
  moreover have "mm_seq m = of_nat n" using assms(1,6) by (simp add: mem_inv_def)
  ultimately show ?thesis using d(2) assms(3,4) seq_new(2)[OF assms(1,2)] by (auto simp: mem_inv_def lessThan_Suc)
qed

lemma mset_take_out: "i < length xs \<Longrightarrow> mset xs = add_mset (xs ! i) (mset (take_out i xs))"
  unfolding take_out_def by (metis id_take_nth_drop mset.simps(2) mset_append union_mset_add_mset_right)


text \<open>A step numbers one message, or none; it never makes up a second copy of one.\<close>

lemma turn_frame:
  assumes "turn_step lib s = (s', o1)"
  shows "mem_all s' = mem_all s \<and> mt_sequence (mp_transport s') = mt_sequence (mp_transport s)
    \<and> mt_committed_seq (mp_transport s') = mt_committed_seq (mp_transport s) \<and> mt_buffer_size (mp_transport s') = mt_buffer_size (mp_transport s)
    \<and> length (mt_queue (mp_transport s')) \<le> length (mt_queue (mp_transport s))"
proof (cases "mp_drain s")
  case (Some d)
  show ?thesis
  proof (cases "recv_turn d (mp_transport s)")
    case None
    with Some assms show ?thesis by (auto simp: turn_step_def mem_all_def)
  next
    case turn: (Some dt)
    obtain k ms where d: "d = (k, ms)" by (cases d)
    from turn d obtain k' m q where "k = Suc k'" "mt_queue (mp_transport s) = m # q"
      by (cases k) (auto split: list.splits)
    with Some d assms show ?thesis by (auto simp: turn_step_def mem_all_def)
  qed
qed (use assms in \<open>auto simp: turn_step_def\<close>)

lemma turn_inv: "mem_inv n s \<Longrightarrow> turn_step lib s = (s', o1) \<Longrightarrow> mem_inv n s'"
  using turn_frame[of lib s s' o1] by (auto simp: mem_inv_def)

lemma try_send_inv:
  assumes "mem_inv n s" and "mem_step lib (MoTrySend i) s = (s', o1)"
  shows "mem_inv n s'"
proof (cases "i < length (mp_sends s)")
  case True
  with assms show ?thesis using mset_take_out[OF True]
    by (intro inv_same[OF assms(1)]) (auto simp: mem_step_def try_send_def mem_all_def mem_inv_def Let_def split: if_splits)
qed (use assms in \<open>simp add: mem_step_def\<close>)

lemma mem_step_inv:
  assumes "mem_inv n s" and "n < 2 ^ 64" and "mem_step lib x s = (s', o1)"
  shows "\<exists>n'\<le>Suc n. mem_inv n' s'"
proof -
  have q: "length (mt_queue (mp_transport s)) \<le> mt_buffer_size (mp_transport s)" using assms(1) by (simp add: mem_inv_def)
  have same: ?thesis if "mem_inv n s'" using that by (intro exI[of _ n]) simp
  have alloc: ?thesis if "mem_inv (Suc n) s'" using that by (intro exI[of _ "Suc n"]) simp
  show ?thesis
  proof (cases x)
    case MoTurn
    then have "turn_step lib s = (s', o1)" using assms(3) by (simp add: mem_step_def)
    then show ?thesis using turn_inv[OF assms(1)] same by blast
  next
    case (MoTrySend i)
    then show ?thesis using try_send_inv[OF assms(1)] assms(3) same by blast
  next
    case (MoSend k p now)
    show ?thesis
    proof (cases "snd (send_number lib now (mp_transport s) k p)")
      case (Inl r)
      with MoSend assms(1,3) same show ?thesis
        by (auto simp: mem_step_def send_number_def mem_inv_def mem_all_def Let_def split: if_splits filter_disposition.splits)
    next
      case (Inr m)
      with MoSend assms(3) q show ?thesis
        by (intro alloc inv_alloc[OF assms(1,2), where m = m])
          (auto simp: mem_step_def send_number_def next_msg_def mem_all_def Let_def split: if_splits filter_disposition.splits)
    qed
  next
    case (MoInject k p now)
    show ?thesis
    proof (cases "mt_closed (mp_transport s)")
      case False
      with MoInject assms(3) q show ?thesis
        by (intro alloc inv_alloc[OF assms(1,2), where m = "next_msg k p now (mp_transport s)"])
          (auto simp: mem_step_def mem_inject_def next_msg_def mem_all_def Let_def)
    qed (use MoInject assms same in \<open>simp add: mem_step_def mem_inject_def Let_def\<close>)
  next
    case (MoHandle k p now)
    with assms(3) q show ?thesis
      by (intro alloc inv_alloc[OF assms(1,2), where m = "next_msg k p now (mp_transport s)"])
        (auto simp: mem_step_def mem_handle_send_def next_msg_def mem_all_def Let_def)
  next
    case MoAdmit
    with assms(3) q show ?thesis
      by (intro same inv_same[OF assms(1)]) (auto simp: mem_step_def mem_admit_def mem_all_def Let_def split: list.splits)
  next
    case (MoCommit ts)
    with assms(3) q show ?thesis
      by (intro same inv_same[OF assms(1)]) (auto simp: mem_step_def mem_commit_def mem_all_def Let_def split: list.splits)
  next
    case MoClose
    with assms(3) q show ?thesis by (intro same inv_same[OF assms(1)]) (auto simp: mem_step_def mem_close_def mem_all_def Let_def)
  next
    case (MoRecv m)
    with assms(3) q show ?thesis by (intro same inv_same[OF assms(1)]) (auto simp: mem_step_def mem_all_def Let_def split: if_splits)
  next
    case (MoLock i)
    with assms(3) q show ?thesis by (intro same inv_same[OF assms(1)]) (auto simp: mem_step_def mem_all_def Let_def split: if_splits)
  qed
qed

lemma mem_run_inv:
  "mem_inv n s \<Longrightarrow> n + length xs \<le> 2 ^ 64 \<Longrightarrow> mem_run lib xs s = (s', os) \<Longrightarrow> \<exists>n'. mem_inv n' s'"
proof (induction xs arbitrary: n s os)
  case (Cons x xs)
  obtain s1 o1 where 1: "mem_step lib x s = (s1, o1)" by (cases "mem_step lib x s")
  obtain o2 where 2: "mem_run lib xs s1 = (s', o2)" using Cons.prems(3) 1 by (auto split: prod.splits)
  have "n < 2 ^ 64" using Cons.prems(2) by simp
  from mem_step_inv[OF Cons.prems(1) this 1] obtain n1 where "n1 \<le> Suc n" "mem_inv n1 s1" by blast
  with Cons.IH[OF _ _ 2] Cons.prems(2) show ?case by simp
qed auto

text \<open>The committed position is the largest sequence number that was ever committed.\<close>

lemma foldl_max_start: "foldl max (max a b) xs = max a (foldl max b (xs :: 'a :: linorder list))"
  by (induction xs arbitrary: b) (simp_all add: max.assoc)

lemma commit_step:
  "mem_step lib x s = (s', o1) \<Longrightarrow> mt_committed_seq (mp_transport s') = foldl max (mt_committed_seq (mp_transport s)) (committed_by [x])"
proof (cases x)
  case (MoCommit ts)
  assume "mem_step lib x s = (s', o1)"
  with MoCommit show ?thesis by (auto simp: mem_step_def mem_commit_def committed_by_def foldl_max_start Let_def split: list.splits)
next
  case MoTurn
  assume "mem_step lib x s = (s', o1)"
  with MoTurn have "turn_step lib s = (s', o1)" by (simp add: mem_step_def)
  with MoTurn show ?thesis using turn_frame by (auto simp: committed_by_def)
qed (auto simp: mem_step_def send_number_def try_send_def mem_inject_def mem_handle_send_def mem_admit_def mem_close_def committed_by_def
       Let_def split: if_splits filter_disposition.splits list.splits)

lemma commit_run:
  "mem_run lib xs s = (s', os) \<Longrightarrow> mt_committed_seq (mp_transport s') = foldl max (mt_committed_seq (mp_transport s)) (committed_by xs)"
proof (induction xs arbitrary: s os)
  case (Cons x xs)
  obtain s1 o1 where 1: "mem_step lib x s = (s1, o1)" by (cases "mem_step lib x s")
  obtain o2 where 2: "mem_run lib xs s1 = (s', o2)" using Cons.prems 1 by (auto split: prod.splits)
  have "committed_by (x # xs) = committed_by [x] @ committed_by xs" by (simp add: committed_by_def)
  with Cons.IH[OF 2] commit_step[OF 1] show ?case by simp
qed (simp add: committed_by_def)


definition mem_idle :: "'p mem_transport \<Rightarrow> 'p mem_pool" where
  "mem_idle t = \<lparr>mp_transport = t, mp_sends = [], mp_calls = [], mp_drain = None\<rparr>"

text \<open>C34. The in-memory transport delivers exactly once and in channel order, under every interleaving of the parts of
  concurrent sends, waiting injections, receives, commits and close (fewer than \<open>2^64\<close> of them). The messages whose callers
  were told that they are in (\<open>send\<close> answered \<open>Ok\<close> past the outbound filter, \<open>inject\<close> returned) are, key and payload,
  in the order in which they were told, exactly the messages that went into the blocks received, block after block, then those that a
  receive in progress has in hand, then those in the channel. Each block received is what the inbound filter makes of its part: no record
  is reordered, dropped or repeated but by the filter, and no two commit tokens ever handed out are the same. The channel never holds more than its
  buffer, and the committed position is the largest sequence number committed so far.\<close>

theorem memory_exactly_once:
  assumes "mem_new lib tiers c = Some (Ok t0)" and "length xs \<le> 2 ^ 64" and "mem_run lib xs (mem_idle t0) = (s, evs)"
  shows "\<exists>parts. map mm_view (concat parts @ in_hand s @ mt_queue (mp_transport s)) = entered lib t0 evs
     \<and> received evs = map (\<lambda>ms. collapse lib (mt_filters t0) (map mem_message ms)) parts
     \<and> distinct (concat (map commit_tokens (received evs)))
     \<and> length (mt_queue (mp_transport s)) \<le> mc_buffer_size c
     \<and> mt_committed_seq (mp_transport s) = foldl max 0 (committed_by xs)"
proof -
  have t0: "mem_inv 0 (mem_idle t0)" "mt_committed_seq t0 = 0" "mt_buffer_size t0 = mc_buffer_size c" "books lib t0 (mem_idle t0) [] []"
    using assms(1) by (auto simp: mem_new_def mem_inv_def mem_all_def mem_idle_def books_def in_hand_def split: if_splits sum.splits)
  obtain n where n: "mem_inv n s" using mem_run_inv[OF t0(1) _ assms(3)] assms(2) by auto
  from books_run[OF t0(4) assms(3)] obtain parts where b: "books lib t0 s evs parts" by auto
  have tok: "mset (commit_tokens (recv_block lib ms t0)) = mset (map (\<lambda>m. MemoryToken (mm_seq m)) ms)" for ms
    unfolding recv_block_def collapse_tokens by (simp add: mem_message_def message_new_def comp_def)
  have "mset (concat (map commit_tokens (map (\<lambda>ms. recv_block lib ms t0) ps))) = mset (map (\<lambda>m. MemoryToken (mm_seq m)) (concat ps))" for ps
    using tok by (induction ps) simp_all
  then have m: "mset (concat (map commit_tokens (received evs))) = mset (map (\<lambda>m. MemoryToken (mm_seq m)) (concat parts))"
    using b by (simp add: books_def del: map_map)
  have "distinct (map mm_seq (concat parts))" using n b by (simp add: mem_inv_def mem_all_def books_def)
  then have "distinct (map (\<lambda>m. MemoryToken (mm_seq m)) (concat parts))" by (auto simp: distinct_map inj_on_def)
  with m have d: "distinct (concat (map commit_tokens (received evs)))" by (metis mset_eq_imp_distinct_iff)
  have "mt_committed_seq (mp_transport s) = foldl max 0 (committed_by xs)" using commit_run[OF assms(3)] t0(2) by (simp add: mem_idle_def)
  then show ?thesis using b n d t0(3)
    by (intro exI[of _ parts]) (auto simp: books_def mem_inv_def recv_block_def)
qed

definition mem_demo :: "nat mem_transport" where
  "mem_demo = \<lparr>mt_queue = [], mt_parked = [], mt_taken = [], mt_buffer_size = 2, mt_sequence = 0, mt_committed_seq = 0,
     mt_closed = False, mt_recv_timeout_ms = 0, mt_filters = \<lparr>filters_in = [], filters_out = []\<rparr>\<rparr>"

lemma mem_demo_new:
  "mem_new toy_filter_lib tiers \<lparr>mc_buffer_size = 2, mc_recv_timeout_ms = 0, mc_filters_in = [], mc_filters_out = []\<rparr> = Some (Ok mem_demo)"
  by (simp add: mem_new_def tfe_new_def mem_demo_def)

definition mem_demo_ops :: "mem_op list" where
  "mem_demo_ops = [MoInject None [0x61] 0, MoSend ''k'' [0x62] 0, MoTrySend 0, MoRecv 5, MoLock 0, MoTurn, MoTurn, MoCommit [MemoryToken 1]]"

lemma mem_demo_run:
  "mem_run toy_filter_lib mem_demo_ops (mem_idle mem_demo) =
     (mem_idle (mem_demo\<lparr>mt_taken := [\<lparr>mm_key = Some ''k'', mm_payload = [0x62], mm_seq = 1, mm_timestamp_ms = 0\<rparr>],
        mt_parked := [\<lparr>mm_key = None, mm_payload = [0x61], mm_seq = 0, mm_timestamp_ms = 0\<rparr>], mt_sequence := 2, mt_committed_seq := 1\<rparr>),
      [SendAnswer ''k'' [0x62] SendOk, RecvAnswer (Ok (collapse toy_filter_lib \<lparr>filters_in = [], filters_out = []\<rparr>
         [mem_message \<lparr>mm_key = Some ''k'', mm_payload = [0x62], mm_seq = 1, mm_timestamp_ms = 0\<rparr>]))])"
  by (simp add: mem_demo_ops_def mem_demo_def mem_idle_def mem_step_def mem_inject_def send_number_def try_send_def take_out_def turn_step_def
      recv_block_def mem_disp_def mem_commit_def next_msg_def numeral_eq_Suc Let_def)

theorem memory_exactly_once_witness:
  "\<exists>parts. map mm_view (concat parts) = [(Some ''k'', [0x62])]
     \<and> [collapse toy_filter_lib \<lparr>filters_in = [], filters_out = []\<rparr>
          [mem_message \<lparr>mm_key = Some ''k'', mm_payload = [0x62], mm_seq = 1, mm_timestamp_ms = 0\<rparr>]]
        = map (\<lambda>ms. collapse toy_filter_lib \<lparr>filters_in = [], filters_out = []\<rparr> (map mem_message ms)) parts"
proof -
  have f: "mt_filters mem_demo = \<lparr>filters_in = [], filters_out = []\<rparr>" by (simp add: mem_demo_def)
  have d: "mem_disp toy_filter_lib mem_demo k p = DispPass" for k p by (simp add: mem_demo_def mem_disp_def)
  have "length mem_demo_ops \<le> 2 ^ 64" by (simp add: mem_demo_ops_def)
  from memory_exactly_once[OF mem_demo_new this mem_demo_run] show ?thesis unfolding f
    by (elim ex_forward conjE) (simp add: in_hand_def mem_idle_def mem_demo_def[symmetric] received_def entered_def d, simp add: mem_demo_def)
qed

text \<open>The sequence number is taken before the wait for room, so channel order need not be sequence order, and a
  commit, which is cumulative, can cover a message that has not been delivered: here number 1 is received and
  committed while number 0 still waits to enter.\<close>

lemma commit_covers_undelivered:
  "let t = mp_transport (fst (mem_run toy_filter_lib mem_demo_ops (mem_idle mem_demo)))
   in mt_committed_seq t = 1 \<and> map mm_seq (mt_taken t) = [1] \<and> map mm_seq (mt_parked t) = [0]"
  unfolding mem_demo_run by (simp add: mem_idle_def)

end
