(* ===== verification/File_Transport.thy ===== *)
theory File_Transport
  imports Memory_Transport
begin

text \<open>
  The NDJSON file transport, \<open>src/transport/file.rs\<close>: lazily opened reader and writer on one
  file, a byte offset as commit token, and a \<open>.pos\<close> sidecar that holds the committed read
  position across restarts. The state is the transport together with the two files. The
  outcomes of the file system and UTF-8 validity are arguments.
\<close>

subsection \<open>The model\<close>

datatype sidecar = NoPos | Garbage | Pos u64

datatype file_token = FileToken u64

fun token_offset :: "file_token \<Rightarrow> u64" where "token_offset (FileToken n) = n"

text \<open>\<open>ft_writer\<close> is the write cursor, \<open>ft_reader\<close> the reader's place in the file and its \<open>offset\<close> counter.\<close>

record 'p file_transport =
  ft_path :: string
  ft_append :: bool
  ft_writer :: "nat option"
  ft_reader :: "(nat \<times> u64) option"
  ft_closed :: bool
  ft_filters :: "'p filter_engine"
  ft_data :: "bytes option"
  ft_pos :: sidecar

datatype file_new_error = EmptyPath | BadFilter nat filter_error

definition file_new :: "('p, 'j, 'c) filter_lib \<Rightarrow> tier_config \<Rightarrow> string \<Rightarrow> bool \<Rightarrow> filter_rule list \<Rightarrow> filter_rule list \<Rightarrow>
    bytes option \<Rightarrow> sidecar \<Rightarrow> ('p file_transport, file_new_error) result" where
  "file_new lib tiers path app fin fout data pos =
     (if path = '''' then Err EmptyPath
      else case tfe_new lib fin fout tiers of
        Inl (i, e) \<Rightarrow> Err (BadFilter i e)
      | Inr eng \<Rightarrow> Ok \<lparr>ft_path = path, ft_append = app, ft_writer = None, ft_reader = None, ft_closed = False, ft_filters = eng,
          ft_data = data, ft_pos = pos\<rparr>)"

definition load_position :: "'p file_transport \<Rightarrow> u64" where
  "load_position t = (case ft_pos t of Pos n \<Rightarrow> n | _ \<Rightarrow> 0)"

text \<open>What the file system does in one call; a payload write may fail after some bytes.\<close>

datatype write_outcome = WriteOk | PayloadFails nat string | NewlineFails string | FlushFails string

definition ensure_writer :: "(unit, string) result \<Rightarrow> 'p file_transport \<Rightarrow> ('p file_transport, transport_error) result" where
  "ensure_writer io t = (case ft_writer t of
     Some _ \<Rightarrow> Ok t
   | None \<Rightarrow> (case io of
       Inl e \<Rightarrow> Err (TeConnection (''failed to open '' @ ft_path t @ '' for writing: '' @ e))
     | Inr _ \<Rightarrow> Ok (t\<lparr>ft_writer := Some 0, ft_data := Some (case ft_data t of None \<Rightarrow> [] | Some d \<Rightarrow> d)\<rparr>)))"

text \<open>Append mode writes at the end of the file; otherwise at the cursor, over what is there.\<close>

definition write_bytes :: "bytes \<Rightarrow> 'p file_transport \<Rightarrow> 'p file_transport" where
  "write_bytes bs t = (let d = (case ft_data t of None \<Rightarrow> [] | Some d \<Rightarrow> d); c = (case ft_writer t of None \<Rightarrow> 0 | Some c \<Rightarrow> c) in
     if ft_append t then t\<lparr>ft_data := Some (d @ bs)\<rparr>
     else t\<lparr>ft_data := Some (take c d @ bs @ drop (c + length bs) d), ft_writer := Some (c + length bs)\<rparr>)"

definition NL :: byte where "NL = 0x0a"
definition CR :: byte where "CR = 0x0d"

definition file_disp :: "('p, 'j, 'c) filter_lib \<Rightarrow> 'p file_transport \<Rightarrow> bytes \<Rightarrow> filter_disposition" where
  "file_disp lib t p = (if filters_out (ft_filters t) \<noteq> [] then apply_outbound lib (ft_filters t) p else DispPass)"

definition file_send :: "('p, 'j, 'c) filter_lib \<Rightarrow> (unit, string) result \<Rightarrow> write_outcome \<Rightarrow> bytes \<Rightarrow> 'p file_transport \<Rightarrow>
    'p file_transport \<times> transport_error send_result" where
  "file_send lib io w p t =
     (if ft_closed t then (t, SendFatal TeClosed)
      else case file_disp lib t p of
        DispDrop \<Rightarrow> (t, SendOk)
      | DispDlq \<Rightarrow> (t, FilteredDlq)
      | DispPass \<Rightarrow>
          (case ensure_writer io t of
             Inl e \<Rightarrow> (t, SendFatal e)
           | Inr t1 \<Rightarrow>
               (case w of
                  WriteOk \<Rightarrow> (write_bytes [NL] (write_bytes p t1), SendOk)
                | PayloadFails n e \<Rightarrow> (write_bytes (take n p) t1, SendFatal (TeSend (''write failed: '' @ e)))
                | NewlineFails e \<Rightarrow> (write_bytes p t1, SendFatal (TeSend (''write newline failed: '' @ e)))
                | FlushFails e \<Rightarrow> (write_bytes [NL] (write_bytes p t1), SendFatal (TeSend (''flush failed: '' @ e))))))"

definition ensure_reader :: "(unit, transport_error) result \<Rightarrow> 'p file_transport \<Rightarrow> ('p file_transport, transport_error) result" where
  "ensure_reader io t = (case ft_reader t of
     Some _ \<Rightarrow> Ok t
   | None \<Rightarrow>
       if ft_data t = None then Err (TeRecv (''file '' @ ft_path t @ '' does not exist''))
       else (case io of Inl e \<Rightarrow> Err e
             | Inr _ \<Rightarrow> Ok (t\<lparr>ft_reader := Some (unat (load_position t), load_position t)\<rparr>)))"

text \<open>\<open>read_line\<close>: up to and including the next newline, or to the end of the file.\<close>

fun read_line :: "bytes \<Rightarrow> bytes" where
  "read_line [] = []"
| "read_line (b # bs) = (if b = NL then [b] else b # read_line bs)"

definition trim_end_byte :: "byte \<Rightarrow> bytes \<Rightarrow> bytes" where
  "trim_end_byte c bs = rev (dropWhile (\<lambda>b. b = c) (rev bs))"

definition line_of :: "bytes \<Rightarrow> bytes" where
  "line_of chunk = trim_end_byte CR (trim_end_byte NL chunk)"

text \<open>The read loop: a line that is not UTF-8 is consumed, but neither counted nor returned, and the call fails.
  \<open>now\<close> is the clock, read once per message.\<close>

fun read_loop :: "(bytes \<Rightarrow> bool) \<Rightarrow> int \<Rightarrow> nat \<Rightarrow> bytes \<Rightarrow> nat \<times> u64 \<Rightarrow> (nat \<times> u64) \<times> (file_token message list, transport_error) result" where
  "read_loop valid now 0 d st = (st, Ok [])"
| "read_loop valid now (Suc n) d (i, off) =
     (let chunk = read_line (drop i d) in
      if chunk = [] then ((i, off), Ok [])
      else if \<not> valid chunk then ((i + length chunk, off), Err (TeRecv ''read failed: stream did not contain valid UTF-8''))
      else let st = (i + length chunk, off + of_nat (length chunk)); line = line_of chunk in
        if line = [] then read_loop valid now n d st
        else (case read_loop valid now n d st of
           (st', Inl e) \<Rightarrow> (st', Err e)
         | (st', Inr ms) \<Rightarrow> (st', Ok (message_new None line (FileToken (snd st)) (Some now) # ms))))"

definition file_recv :: "('p, 'j, 'c) filter_lib \<Rightarrow> (bytes \<Rightarrow> bool) \<Rightarrow> int \<Rightarrow> (unit, transport_error) result \<Rightarrow> nat \<Rightarrow> 'p file_transport \<Rightarrow>
    'p file_transport \<times> (file_token work_batch, transport_error) result" where
  "file_recv lib valid now io max_n t =
     (if ft_closed t then (t, Err TeClosed)
      else case ensure_reader io t of
        Inl e \<Rightarrow> (t, Err e)
      | Inr t1 \<Rightarrow>
          (case ft_reader t1 of
             None \<Rightarrow> (t1, Err (TeInternal ''reader not initialised''))
           | Some st \<Rightarrow>
               (case read_loop valid now max_n (case ft_data t1 of None \<Rightarrow> [] | Some d \<Rightarrow> d) st of
                  (st', Inl e) \<Rightarrow> (t1\<lparr>ft_reader := Some st'\<rparr>, Err e)
                | (st', Inr ms) \<Rightarrow> (t1\<lparr>ft_reader := Some st'\<rparr>, Ok (collapse lib (ft_filters t1) ms)))))"

definition file_commit :: "(unit, string) result \<Rightarrow> file_token list \<Rightarrow> 'p file_transport \<Rightarrow> 'p file_transport \<times> (unit, transport_error) result" where
  "file_commit io ts t = (case map token_offset ts of
     [] \<Rightarrow> (t, Ok ())
   | n # ns \<Rightarrow> (case io of
       Inl e \<Rightarrow> (t, Err (TeCommit (''failed to write position file: '' @ e)))
     | Inr _ \<Rightarrow> (t\<lparr>ft_pos := Pos (foldl max n ns)\<rparr>, Ok ())))"

definition file_close :: "'p file_transport \<Rightarrow> 'p file_transport \<times> (unit, transport_error) result" where
  "file_close t = (t\<lparr>ft_closed := True, ft_writer := None, ft_reader := None\<rparr>, Ok ())"

text \<open>A new process on the same two files.\<close>

definition file_restart :: "'p file_transport \<Rightarrow> 'p file_transport" where
  "file_restart t = t\<lparr>ft_writer := None, ft_reader := None, ft_closed := False\<rparr>"

subsection \<open>Lines\<close>

definition nl_line :: "bytes \<Rightarrow> bytes" where "nl_line p = p @ [NL]"

text \<open>What can be sent and read back unchanged.\<close>

definition line_safe :: "(bytes \<Rightarrow> bool) \<Rightarrow> bytes \<Rightarrow> bool" where
  "line_safe valid p \<longleftrightarrow> p \<noteq> [] \<and> NL \<notin> set p \<and> last p \<noteq> CR \<and> valid (nl_line p)"

lemma read_line_safe: "NL \<notin> set p \<Longrightarrow> read_line (nl_line p @ r) = nl_line p"
  by (induction p) (auto simp: nl_line_def)

lemma trim_keep: "p \<noteq> [] \<Longrightarrow> last p \<noteq> c \<Longrightarrow> trim_end_byte c p = p"
  by (cases p rule: rev_cases) (simp_all add: trim_end_byte_def)

lemma line_of_safe:
  assumes "line_safe valid p"
  shows "line_of (nl_line p) = p"
proof -
  have "trim_end_byte NL (nl_line p) = trim_end_byte NL p" by (simp add: trim_end_byte_def nl_line_def)
  also have "\<dots> = p" using assms last_in_set[of p] by (intro trim_keep) (unfold line_safe_def, metis+)
  finally show ?thesis using assms trim_keep[of p CR] by (simp add: line_of_def line_safe_def)
qed

text \<open>The messages of consecutive lines, the first starting at the given offset.\<close>

fun line_msgs :: "int \<Rightarrow> u64 \<Rightarrow> bytes list \<Rightarrow> file_token message list" where
  "line_msgs now off [] = []"
| "line_msgs now off (p # ps) = (let off' = off + of_nat (length (nl_line p))
     in message_new None p (FileToken off') (Some now) # line_msgs now off' ps)"

lemma read_loop_lines:
  assumes "\<forall>p\<in>set ps. line_safe valid p" and "drop i d = concat (map nl_line ps)"
  shows "read_loop valid now n d (i, off) =
     ((i + length (concat (map nl_line (take n ps))), off + of_nat (length (concat (map nl_line (take n ps))))), Ok (line_msgs now off (take n ps)))"
  using assms
proof (induction n arbitrary: ps i off)
  case (Suc n)
  show ?case
  proof (cases ps)
    case Nil
    with Suc.prems show ?thesis by simp
  next
    case (Cons p qs)
    have sp: "line_safe valid p" and sq: "\<forall>p\<in>set qs. line_safe valid p" using Suc.prems(1) Cons by simp_all
    have c: "read_line (drop i d) = nl_line p" using Suc.prems(2) Cons sp read_line_safe[of p] by (simp add: line_safe_def)
    have "drop (i + length (nl_line p)) d = drop (length (nl_line p)) (drop i d)" by (simp add: add.commute)
    also have "\<dots> = concat (map nl_line qs)" using Suc.prems(2) Cons by simp
    finally have r: "drop (i + length (nl_line p)) d = concat (map nl_line qs)" .
    have "nl_line p \<noteq> []" "valid (nl_line p)" "p \<noteq> []" using sp by (simp_all add: nl_line_def line_safe_def)
    with Suc.IH[OF sq r] c line_of_safe[OF sp] Cons show ?thesis
      by (simp add: Let_def add.assoc)
  qed
qed simp

subsection \<open>Writing, reading and resuming\<close>

definition file_sends :: "('p, 'j, 'c) filter_lib \<Rightarrow> bytes list \<Rightarrow> 'p file_transport \<Rightarrow> 'p file_transport" where
  "file_sends lib ps t = foldl (\<lambda>t p. fst (file_send lib (Ok ()) WriteOk p t)) t ps"

definition file_content :: "'p file_transport \<Rightarrow> bytes" where
  "file_content t = (case ft_data t of None \<Rightarrow> [] | Some d \<Rightarrow> d)"

definition open_append :: "'p file_transport \<Rightarrow> bool" where
  "open_append t \<longleftrightarrow> \<not> ft_closed t \<and> ft_append t \<and> filters_out (ft_filters t) = []"

lemma file_send_append:
  assumes "open_append t"
  shows "file_send lib (Ok ()) WriteOk p t =
     (t\<lparr>ft_writer := (if ft_writer t = None then Some 0 else ft_writer t), ft_data := Some (file_content t @ nl_line p)\<rparr>, SendOk)"
  using assms by (cases "ft_writer t"; cases "ft_data t")
    (simp_all add: file_send_def file_disp_def ensure_writer_def write_bytes_def open_append_def file_content_def nl_line_def)

lemma file_sends_append:
  assumes "open_append t" and "ps \<noteq> []"
  shows "file_sends lib ps t =
     t\<lparr>ft_writer := (if ft_writer t = None then Some 0 else ft_writer t), ft_data := Some (file_content t @ concat (map nl_line ps))\<rparr>"
  using assms
proof (induction ps arbitrary: t)
  case (Cons p ps)
  let ?t = "fst (file_send lib (Ok ()) WriteOk p t)"
  have t: "?t = t\<lparr>ft_writer := (if ft_writer t = None then Some 0 else ft_writer t), ft_data := Some (file_content t @ nl_line p)\<rparr>"
    using file_send_append[OF Cons.prems(1), of lib p] by simp
  have o: "open_append ?t" "file_content ?t = file_content t @ nl_line p" using Cons.prems(1) by (simp_all add: t open_append_def file_content_def)
  show ?case
  proof (cases "ps = []")
    case True
    then show ?thesis using t by (simp add: file_sends_def)
  next
    case False
    with Cons.IH[OF o(1)] have "file_sends lib ps ?t = ?t\<lparr>ft_writer := (if ft_writer ?t = None then Some 0 else ft_writer ?t), ft_data := Some (file_content t @ nl_line p @ concat (map nl_line ps))\<rparr>"
      using o(2) by simp
    then show ?thesis using t by (simp add: file_sends_def)
  qed
qed simp

text \<open>The transport between two calls, for a file of whole lines: the reader, if open, is behind \<open>i\<close> lines.\<close>

definition at_line :: "nat \<Rightarrow> bytes list \<Rightarrow> 'p file_transport \<Rightarrow> bool" where
  "at_line i ps t \<longleftrightarrow> \<not> ft_closed t \<and> ft_data t = Some (concat (map nl_line ps))
     \<and> (case ft_reader t of
          Some st \<Rightarrow> st = (length (concat (map nl_line (take i ps))), of_nat (length (concat (map nl_line (take i ps)))))
        | None \<Rightarrow> load_position t = of_nat (length (concat (map nl_line (take i ps)))))"

lemma drop_lines: "drop (length (concat (map f (take i ps)))) (concat (map f ps)) = concat (map f (drop i ps))"
proof -
  have "concat (map f ps) = concat (map f (take i ps)) @ concat (map f (drop i ps))"
    by (metis append_take_drop_id concat_append map_append)
  then show ?thesis by simp
qed

lemma take_lines: "length (concat (map f (take i ps))) \<le> length (concat (map f ps))"
  by (metis append_take_drop_id concat_append le_add1 length_append map_append)

definition msgs_from :: "int \<Rightarrow> nat \<Rightarrow> bytes list \<Rightarrow> file_token message list" where
  "msgs_from now i ps = line_msgs now (of_nat (length (concat (map nl_line (take i ps))))) (drop i ps)"

lemma line_msgs_take: "line_msgs now off (take n ps) = take n (line_msgs now off ps)"
  by (induction ps arbitrary: n off) (auto simp: take_Cons Let_def split: nat.split)

lemma file_recv_at:
  assumes "at_line i ps t" and "\<forall>p\<in>set ps. line_safe valid p" and "length (concat (map nl_line ps)) < 2 ^ 64"
  shows "\<exists>t'. file_recv lib valid now (Ok ()) n t = (t', Ok (collapse lib (ft_filters t) (take n (msgs_from now i ps))))
     \<and> at_line (i + n) ps t' \<and> ft_filters t' = ft_filters t \<and> ft_pos t' = ft_pos t"
proof -
  let ?l = "\<lambda>i. length (concat (map nl_line (take i ps)))"
  have u: "unat (of_nat (?l i) :: u64) = ?l i"
    using le_less_trans[OF take_lines[of nl_line i ps] assms(3)] by (simp add: unat_of_nat)
  obtain t1 where t1: "ensure_reader (Ok ()) t = Ok t1" "ft_reader t1 = Some (?l i, of_nat (?l i))" "ft_data t1 = ft_data t"
      "ft_filters t1 = ft_filters t" "ft_pos t1 = ft_pos t" "ft_closed t1 = ft_closed t"
    using assms(1) u by (cases "ft_reader t") (auto simp: ensure_reader_def at_line_def)
  have sq: "\<forall>p\<in>set (drop i ps). line_safe valid p" using assms(2) by (auto dest: in_set_dropD)
  have tk: "take (i + n) ps = take i ps @ take n (drop i ps)" by (simp add: take_add)
  from read_loop_lines[OF sq drop_lines, of now n "of_nat (?l i)"]
  have r: "read_loop valid now n (concat (map nl_line ps)) (?l i, of_nat (?l i))
      = ((?l (i + n), of_nat (?l (i + n))), Ok (take n (msgs_from now i ps)))"
    by (simp add: tk msgs_from_def line_msgs_take)
  have "file_recv lib valid now (Ok ()) n t = (t1\<lparr>ft_reader := Some (?l (i + n), of_nat (?l (i + n)))\<rparr>, Ok (collapse lib (ft_filters t) (take n (msgs_from now i ps))))"
    using assms(1) t1 r by (simp add: file_recv_def at_line_def)
  with assms(1) t1 show ?thesis by (auto simp: at_line_def)
qed

lemma of_nat_mono_u64: "a \<le> b \<Longrightarrow> b < 2 ^ 64 \<Longrightarrow> (of_nat a :: u64) \<le> of_nat b"
  by (simp add: word_le_nat_alt unat_of_nat)

lemma last_token:
  assumes "ps \<noteq> []" and "k + length (concat (map nl_line ps)) < 2 ^ 64"
  shows "Max (set (map (token_offset \<circ> msg_token) (line_msgs now (of_nat k) ps))) = of_nat (k + length (concat (map nl_line ps)))"
  using assms
proof (induction ps arbitrary: k)
  case (Cons p ps)
  let ?r = "line_msgs now (of_nat (k + length (nl_line p))) ps"
  have s: "set (map (token_offset \<circ> msg_token) (line_msgs now (of_nat k) (p # ps))) =
      insert (of_nat (k + length (nl_line p))) (set (map (token_offset \<circ> msg_token) ?r))"
    by (simp add: Let_def message_new_def)
  show ?case
  proof (cases "ps = []")
    case True
    with s show ?thesis by simp
  next
    case False
    have "k + length (nl_line p) + length (concat (map nl_line ps)) < 2 ^ 64" using Cons.prems(2) by simp
    note m = Cons.IH[OF False this]
    have ne: "set (map (token_offset \<circ> msg_token) ?r) \<noteq> {}" using False by (cases ps) (simp_all add: Let_def)
    have le: "(of_nat (k + length (nl_line p)) :: u64) \<le> of_nat (k + length (nl_line p) + length (concat (map nl_line ps)))"
      using Cons.prems(2) by (intro of_nat_mono_u64) simp_all
    from ne have "Max (set (map (token_offset \<circ> msg_token) (line_msgs now (of_nat k) (p # ps)))) =
        max (of_nat (k + length (nl_line p))) (Max (set (map (token_offset \<circ> msg_token) ?r)))"
      unfolding s by (intro Max_insert) simp_all
    also have "\<dots> = of_nat (k + length (nl_line p) + length (concat (map nl_line ps)))"
      unfolding m using le by (rule max.absorb2)
    finally show ?thesis by (simp add: add.assoc)
  qed
qed simp

lemma foldl_max: "foldl max a ys = Max (set (a # ys))"
  for a :: "'b::linorder"
proof (induction ys arbitrary: a)
  case (Cons y ys)
  show ?case by (cases "ys = []") (simp_all add: Cons max.assoc)
qed simp

lemma file_commit_max:
  assumes "mset ts = mset us" and "us \<noteq> []"
  shows "file_commit (Ok ()) ts t = (t\<lparr>ft_pos := Pos (Max (set (map token_offset us)))\<rparr>, Ok ())"
proof -
  have "ts \<noteq> []" using assms by auto
  then obtain x xs where ts: "ts = x # xs" by (cases ts) simp_all
  have "foldl max (token_offset x) (map token_offset xs) = Max (set (map token_offset (x # xs)))"
    unfolding list.map by (rule foldl_max)
  also have "set (map token_offset (x # xs)) = set (map token_offset us)"
    unfolding set_map ts[symmetric] mset_eq_setD[OF assms(1)] by (rule refl)
  finally show ?thesis by (simp add: file_commit_def ts)
qed

lemma msgs_from_ne: "i < length ps \<Longrightarrow> 0 < n \<Longrightarrow> take n (msgs_from now i ps) \<noteq> []"
  by (cases "drop i ps") (simp_all add: msgs_from_def Let_def)

text \<open>After committing a whole block, a new process starts at the line behind it.\<close>

lemma commit_restart:
  assumes "at_line i ps t" and "load_position t = of_nat (length (concat (map nl_line (take i ps))))" and "length (concat (map nl_line ps)) < 2 ^ 64"
    and "mset ts = mset (map msg_token (take n (msgs_from now i ps)))"
  shows "at_line (i + n) ps (file_restart (fst (file_commit (Ok ()) ts t)))"
proof (cases "take n (msgs_from now i ps) = []")
  case True
  have "ts = []" using assms(4) unfolding True by simp
  from True have "length ps \<le> i \<or> n = 0" using msgs_from_ne[of i ps n now] by linarith
  then have "take (i + n) ps = take i ps" by auto
  with \<open>ts = []\<close> assms(1,2) show ?thesis by (auto simp: file_commit_def file_restart_def at_line_def load_position_def)
next
  case False
  let ?k = "length (concat (map nl_line (take i ps)))" and ?q = "take n (drop i ps)"
  have tk: "take (i + n) ps = take i ps @ ?q" by (simp add: take_add)
  have m: "take n (msgs_from now i ps) = line_msgs now (of_nat ?k) ?q" by (simp add: msgs_from_def line_msgs_take)
  have q: "?q \<noteq> []" using False m by (metis line_msgs.simps(1))
  have b: "?k + length (concat (map nl_line ?q)) < 2 ^ 64"
    using le_less_trans[OF take_lines[of nl_line "i + n" ps] assms(3)] by (simp add: tk)
  have "map msg_token (take n (msgs_from now i ps)) \<noteq> []" using False by simp
  note c = file_commit_max[OF assms(4) this, of t]
  have "set (map token_offset (map msg_token (take n (msgs_from now i ps)))) = set (map (token_offset \<circ> msg_token) (line_msgs now (of_nat ?k) ?q))"
    by (simp add: m)
  with last_token[OF q b, of now] c have "file_commit (Ok ()) ts t = (t\<lparr>ft_pos := Pos (of_nat (?k + length (concat (map nl_line ?q))))\<rparr>, Ok ())"
    by simp
  with assms(1) show ?thesis by (simp add: at_line_def file_restart_def load_position_def tk)
qed

text \<open>C35. The file transport resumes exactly where it was committed. Payloads (not empty, no newline in them, not ending
  in a carriage return, valid UTF-8) are sent to a new file, up to \<open>2^64\<close> bytes of it; the receiver takes a block of
  \<open>n\<close> lines. If it commits the block's tokens, the next process receives the lines behind it, and nothing else; if it
  stops before the commit, the next process receives the block again. Both processes hand out the lines in order, with
  the inbound filters applied.\<close>

theorem file_resume_exact:
  assumes "file_new lib tiers path True fin [] None NoPos = Ok t0" and "ps \<noteq> []" and "\<forall>p\<in>set ps. line_safe valid p"
    and "length (concat (map nl_line ps)) < 2 ^ 64"
    and "file_recv lib valid now (Ok ()) n (file_sends lib ps t0) = (t1, r1)"
  shows "\<exists>b1. r1 = Ok b1 \<and> b1 = collapse lib (ft_filters t0) (take n (msgs_from now 0 ps))
     \<and> snd (file_recv lib valid now (Ok ()) m (file_restart (fst (file_commit (Ok ()) (commit_tokens b1) t1))))
         = Ok (collapse lib (ft_filters t0) (take m (msgs_from now n ps)))
     \<and> snd (file_recv lib valid now (Ok ()) m (file_restart t1)) = Ok (collapse lib (ft_filters t0) (take m (msgs_from now 0 ps)))"
proof -
  obtain eng where t0: "t0 = \<lparr>ft_path = path, ft_append = True, ft_writer = None, ft_reader = None, ft_closed = False, ft_filters = eng,
      ft_data = None, ft_pos = NoPos\<rparr>" "filters_out eng = []"
    using assms(1) by (auto simp: file_new_def tfe_new_def split: if_splits sum.splits)
  have "open_append t0" by (simp add: t0 open_append_def)
  from file_sends_append[OF this assms(2), of lib]
  have a: "at_line 0 ps (file_sends lib ps t0)" "load_position (file_sends lib ps t0) = 0" "ft_filters (file_sends lib ps t0) = ft_filters t0"
    by (simp_all add: t0 at_line_def load_position_def file_content_def)
  from file_recv_at[OF a(1) assms(3,4), of lib now n] assms(5) a(3)
  have r: "r1 = Ok (collapse lib (ft_filters t0) (take n (msgs_from now 0 ps)))" "at_line (0 + n) ps t1" "ft_filters t1 = ft_filters t0"
      "ft_pos t1 = ft_pos (file_sends lib ps t0)"
    by auto
  have lp: "load_position t1 = 0" using a(2) r(4) by (simp add: load_position_def)
  let ?b = "collapse lib (ft_filters t0) (take n (msgs_from now 0 ps))"
  have a0: "at_line 0 ps (file_restart t1)" "ft_filters (file_restart t1) = ft_filters t0"
    using r(2,3) lp by (simp_all add: at_line_def file_restart_def load_position_def)
  have "file_restart (fst (file_commit (Ok ()) ts (file_restart t1))) = file_restart (fst (file_commit (Ok ()) ts t1))" for ts
    by (cases ts) (simp_all add: file_commit_def file_restart_def)
  with commit_restart[OF a0(1) _ assms(4) collapse_tokens[of lib "ft_filters t0" "take n (msgs_from now 0 ps)"]] lp
  have c: "at_line n ps (file_restart (fst (file_commit (Ok ()) (commit_tokens ?b) t1)))"
    by (simp add: file_restart_def load_position_def)
  have f: "ft_filters (file_restart (fst (file_commit (Ok ()) ts t1))) = ft_filters t0" for ts
    using r(3) by (cases ts) (simp_all add: file_commit_def file_restart_def)
  from file_recv_at[OF c assms(3,4), of lib now m] file_recv_at[OF a0(1) assms(3,4), of lib now m] r(1) f a0(2) show ?thesis
    by auto
qed

definition file_demo :: "nat file_transport" where
  "file_demo = \<lparr>ft_path = ''f'', ft_append = True, ft_writer = None, ft_reader = None, ft_closed = False,
     ft_filters = \<lparr>filters_in = [], filters_out = []\<rparr>, ft_data = None, ft_pos = NoPos\<rparr>"

lemma file_demo_new: "file_new toy_filter_lib tiers ''f'' True [] [] None NoPos = Ok file_demo"
  by (simp add: file_new_def tfe_new_def file_demo_def)

theorem file_resume_exact_witness:
  "map payload (case snd (file_recv toy_filter_lib (\<lambda>_. True) 0 (Ok ()) 5 (file_restart (fst (file_recv toy_filter_lib (\<lambda>_. True) 0 (Ok ()) 1
     (file_sends toy_filter_lib [[0x61], [0x62]] file_demo))))) of Inr b \<Rightarrow> records b | Inl _ \<Rightarrow> []) = [[0x61], [0x62]]"
proof -
  let ?r = "file_recv toy_filter_lib (\<lambda>_. True) 0 (Ok ()) 1 (file_sends toy_filter_lib [[0x61], [0x62]] file_demo)"
  have s: "\<forall>p\<in>set [[0x61::byte], [0x62]]. line_safe (\<lambda>_. True) p" "length (concat (map nl_line [[0x61::byte], [0x62]])) < 2 ^ 64"
    by (simp_all add: line_safe_def NL_def CR_def nl_line_def)
  have r: "?r = (fst ?r, snd ?r)" by simp
  show ?thesis
    using file_resume_exact[OF file_demo_new _ s r, of 5]
    by (auto simp: collapse_def partition_batch_def file_demo_def passthrough_def from_recv_batch_def msgs_from_def record_of_message_def
        message_new_def Let_def)
qed

subsection \<open>Torn lines and bad lines\<close>

text \<open>The payload and its newline are two writes. When the second fails the send is reported as failed, but its payload
  is in the file, and the next payload is appended to it: the two are read as one line.\<close>

lemma newline_failure_glues:
  assumes "open_append t" and "file_send lib (Ok ()) (NewlineFails e) p t = (t1, r1)" and "file_send lib (Ok ()) WriteOk q t1 = (t2, r2)"
  shows "r1 = SendFatal (TeSend (''write newline failed: '' @ e)) \<and> r2 = SendOk \<and> ft_data t2 = Some (file_content t @ nl_line (p @ q))"
proof -
  have "t1 = t\<lparr>ft_writer := (if ft_writer t = None then Some 0 else ft_writer t), ft_data := Some (file_content t @ p)\<rparr>"
      "r1 = SendFatal (TeSend (''write newline failed: '' @ e))"
    using assms(1,2) by (cases "ft_writer t"; cases "ft_data t";
      auto simp: file_send_def file_disp_def ensure_writer_def write_bytes_def open_append_def file_content_def)+
  moreover from this(1) have "open_append t1" "file_content t1 = file_content t @ p"
    using assms(1) by (simp_all add: open_append_def file_content_def)
  ultimately show ?thesis using assms(3) file_send_append[of t1 lib q] by (auto simp: nl_line_def)
qed

text \<open>A line that is not UTF-8 fails the whole receive. The good lines before it in the same block have been consumed
  but are not handed out; the next receive starts behind the bad line, and its offsets are short by the bad line's
  length.\<close>

lemma bad_line_loses_block:
  assumes "\<forall>p\<in>set ps. line_safe valid p" and "NL \<notin> set bad" and "\<not> valid (nl_line bad)"
    and "d = concat (map nl_line ps) @ nl_line bad @ rest" and "length ps < n"
  shows "read_loop valid now n d (0, 0) =
     ((length (concat (map nl_line ps)) + length (nl_line bad), of_nat (length (concat (map nl_line ps)))),
      Err (TeRecv ''read failed: stream did not contain valid UTF-8''))"
proof -
  have "read_loop valid now n d (i, off) =
     ((i + length (concat (map nl_line qs)) + length (nl_line bad), off + of_nat (length (concat (map nl_line qs)))),
      Err (TeRecv ''read failed: stream did not contain valid UTF-8''))"
    if "\<forall>p\<in>set qs. line_safe valid p" "drop i d = concat (map nl_line qs) @ nl_line bad @ rest" "length qs < n" for qs i off
    using that
  proof (induction qs arbitrary: i off n)
    case Nil
    then obtain n' where "n = Suc n'" by (cases n) simp_all
    moreover have "read_line (drop i d) = nl_line bad" using Nil assms(2) by (simp add: read_line_safe)
    ultimately show ?case using assms(3) by (simp add: nl_line_def)
  next
    case (Cons p qs)
    then obtain n' where n: "n = Suc n'" "length qs < n'" by (cases n) simp_all
    have sp: "line_safe valid p" using Cons.prems(1) by simp
    have c: "read_line (drop i d) = nl_line p" using Cons.prems(2) sp read_line_safe[of p] by (simp add: line_safe_def)
    have "drop (i + length (nl_line p)) d = drop (length (nl_line p)) (drop i d)" by (simp add: add.commute)
    then have r: "drop (i + length (nl_line p)) d = concat (map nl_line qs) @ nl_line bad @ rest" using Cons.prems(2) by simp
    have "nl_line p \<noteq> []" "valid (nl_line p)" "p \<noteq> []" using sp by (simp_all add: nl_line_def line_safe_def)
    with Cons.IH[OF _ r n(2)] Cons.prems(1) c line_of_safe[OF sp] n(1) show ?case by (simp add: Let_def add.assoc)
  qed
  from this[OF assms(1), of 0 0] assms(4,5) show ?thesis by simp
qed

end
