(* ===== verification/Kafka_Transport.thy ===== *)
theory Kafka_Transport
  imports Kafka_Producer Filter_Engine Governed_Driver
begin

text \<open>
  \<open>src/transport/kafka/mod.rs\<close>, \<open>token.rs\<close> and the refresh handle of \<open>topic_resolver.rs\<close>: the
  Kafka transport the engine reads from and commits to. The rdkafka consumer and producer are
  arguments acting on an outside world; the receive arena, the spans into it, the gate and
  topic refresh that run before a poll, the drain loop with its three stop conditions, and the
  commit list are the code's. The monotonic clock is read from the world. The trace headers,
  the metrics and the partition-limit diagnostic's broker queries are left out.
\<close>

subsection \<open>Tokens, messages, the client\<close>

record kafka_token =
  tk_topic :: string
  tk_partition :: int
  tk_offset :: int

record kafka_msg =
  km_topic :: string
  km_payload :: "bytes option"
  km_partition :: int
  km_offset :: int
  km_timestamp :: "int option"

record 'w kafka_client =
  kc_poll :: "'w \<Rightarrow> nat \<Rightarrow> 'w \<times> (kafka_msg, string) result option"
  kc_now :: "'w \<Rightarrow> nat"
  kc_subscribe :: "'w \<Rightarrow> string list \<Rightarrow> 'w \<times> (unit, string) result"
  kc_assignment :: "'w \<Rightarrow> ((string \<times> int) list, string) result"
  kc_pause :: "'w \<Rightarrow> (string \<times> int) list \<Rightarrow> 'w \<times> (unit, string) result"
  kc_resume :: "'w \<Rightarrow> (string \<times> int) list \<Rightarrow> 'w \<times> (unit, string) result"
  kc_add_offset :: "string \<Rightarrow> int \<Rightarrow> int \<Rightarrow> (unit, string) result"
  kc_map_order :: "((string \<times> int) \<times> int) list \<Rightarrow> ((string \<times> int) \<times> int) list"
  kc_commit :: "'w \<Rightarrow> (string \<times> int \<times> int) list \<Rightarrow> bool \<Rightarrow> 'w \<times> (unit, string) result"
  kc_send :: "'w \<Rightarrow> string \<Rightarrow> bytes \<Rightarrow> 'w \<times> (unit, string) result"

record topic_refresh =
  tr_value :: "string list"
  tr_changed :: bool
  tr_last_seen :: "string list"

record ('w, 'p) kafka_transport =
  kt_consumer :: bool
  kt_producer :: bool
  kt_cache :: "string list"
  kt_closed :: bool
  kt_healthy :: bool
  kt_subscribed :: "string list"
  kt_refresh :: "topic_refresh option"
  kt_filters :: "'p filter_engine"
  kt_gate :: "(unified \<times> gate) option"
  kt_world :: 'w

definition POLL_TIMEOUT_MS :: nat where "POLL_TIMEOUT_MS = 50"
definition MAX_DRAIN_MS :: nat where "MAX_DRAIN_MS = 100"

definition kt_close :: "('w, 'p) kafka_transport \<Rightarrow> ('w, 'p) kafka_transport" where
  "kt_close t = t\<lparr>kt_closed := True, kt_healthy := False\<rparr>"

definition kt_send :: "'w kafka_client \<Rightarrow> ('p, 'j, 'c) filter_lib \<Rightarrow> string \<Rightarrow> bytes \<Rightarrow> ('w, 'p) kafka_transport \<Rightarrow>
    ('w, 'p) kafka_transport \<times> transport_error send_result" where
  "kt_send K lib topic p t =
     (if kt_closed t then (t, SendFatal TeClosed)
      else if \<not> kt_producer t then
        (t, SendFatal (TeSend ''send on a consumer-only Kafka transport (no producer)''))
      else case (if filters_out (kt_filters t) \<noteq> [] then apply_outbound lib (kt_filters t) p else DispPass) of
        DispDrop \<Rightarrow> (t, SendOk)
      | DispDlq \<Rightarrow> (t, FilteredDlq)
      | DispPass \<Rightarrow>
          (case kc_send K (kt_world t) topic p of
             (w, Inr _) \<Rightarrow> (t\<lparr>kt_world := w\<rparr>, SendOk)
           | (w, Inl e) \<Rightarrow> (t\<lparr>kt_world := w\<rparr>, if queue_full_text e then Backpressured else SendFatal (TeSend e))))"

subsection \<open>Before a poll: gate and topic refresh\<close>

definition kafka_pause :: "'w kafka_client \<Rightarrow> 'w \<Rightarrow> 'w" where
  "kafka_pause K w = (case kc_assignment K w of Inl _ \<Rightarrow> w | Inr tpl \<Rightarrow> fst (kc_pause K w tpl))"

definition kafka_resume :: "'w kafka_client \<Rightarrow> 'w \<Rightarrow> 'w" where
  "kafka_resume K w = (case kc_assignment K w of Inl _ \<Rightarrow> w | Inr tpl \<Rightarrow> fst (kc_resume K w tpl))"

definition actuate :: "'w kafka_client \<Rightarrow> actuation \<Rightarrow> 'w \<Rightarrow> 'w" where
  "actuate K a w = (case a of Pause \<Rightarrow> kafka_pause K w | Resume \<Rightarrow> kafka_resume K w)"

text \<open>The actuator runs on the edge; while held, the current assignment is paused again.\<close>

definition gate_poll :: "'w kafka_client \<Rightarrow> source list \<Rightarrow> ('w, 'p) kafka_transport \<Rightarrow> ('w, 'p) kafka_transport" where
  "gate_poll K ss t =
     (case kt_gate t of
        None \<Rightarrow> t
      | Some (u, g) \<Rightarrow>
          (case evaluate_gate ss (u, g) of
             ((u', g'), _) \<Rightarrow>
               (let w1 = fold (actuate K) (drop (length (actuations g)) (actuations g')) (kt_world t);
                    w2 = (if paused_edge g' then
                            (case kc_assignment K w1 of Inl _ \<Rightarrow> w1
                             | Inr tpl \<Rightarrow> if tpl \<noteq> [] then fst (kc_pause K w1 tpl) else w1)
                          else w1)
                in t\<lparr>kt_gate := Some (u', g'), kt_world := w2\<rparr>)))"

text \<open>\<open>mark_changed\<close> leaves the channel marked as changed; the comparison decides.\<close>

definition check_changed :: "topic_refresh \<Rightarrow> topic_refresh \<times> string list option" where
  "check_changed r =
     (if tr_changed r then
        (if tr_value r = tr_last_seen r then (r, None)
         else (r\<lparr>tr_last_seen := tr_value r\<rparr>, Some (tr_value r)))
      else (r, None))"

definition refresh_topics :: "'w kafka_client \<Rightarrow> ('w, 'p) kafka_transport \<Rightarrow> ('w, 'p) kafka_transport" where
  "refresh_topics K t =
     (case kt_refresh t of
        None \<Rightarrow> t
      | Some r \<Rightarrow>
          (case check_changed r of
             (r', None) \<Rightarrow> t\<lparr>kt_refresh := Some r'\<rparr>
           | (r', Some topics) \<Rightarrow>
               (case kc_subscribe K (kt_world t) topics of
                  (w, Inr _) \<Rightarrow> t\<lparr>kt_refresh := Some r', kt_world := w, kt_subscribed := topics\<rparr>
                | (w, Inl _) \<Rightarrow> t\<lparr>kt_refresh := Some r', kt_world := w\<rparr>)))"

subsection \<open>The receive arena\<close>

record span =
  span_key :: "string option"
  span_token :: kafka_token
  span_timestamp :: "int option"
  span_format :: payload_format
  span_start :: nat
  span_end :: nat

definition build_batch_from_spans :: "bytes \<Rightarrow> span list \<Rightarrow> kafka_token message list" where
  "build_batch_from_spans arena spans = map (\<lambda>s. \<lparr>msg_key = span_key s, msg_payload = byte_slice arena (span_start s) (span_end s),
     msg_token = span_token s, msg_timestamp_ms = span_timestamp s, msg_format = span_format s\<rparr>) spans"

definition arena_byte_limit_reached :: "nat \<Rightarrow> nat \<Rightarrow> u64 option \<Rightarrow> bool" where
  "arena_byte_limit_reached arena_len span_count cap =
     (case cap of Some c \<Rightarrow> 0 < span_count \<and> unat c \<le> arena_len | None \<Rightarrow> False)"

definition get_or_insert_topic :: "string \<Rightarrow> string list \<Rightarrow> string list" where
  "get_or_insert_topic topic cache = (if topic \<in> set cache then cache else cache @ [topic])"

definition payload_of :: "kafka_msg \<Rightarrow> bytes" where
  "payload_of m = (case km_payload m of None \<Rightarrow> [] | Some p \<Rightarrow> p)"

definition token_of :: "kafka_msg \<Rightarrow> kafka_token" where
  "token_of m = \<lparr>tk_topic = km_topic m, tk_partition = km_partition m, tk_offset = km_offset m\<rparr>"

type_synonym recv_buffers = "string list \<times> bytes \<times> span list"

definition take_msg :: "kafka_msg \<Rightarrow> recv_buffers \<Rightarrow> recv_buffers" where
  "take_msg m = (\<lambda>(cache, arena, spans).
     (get_or_insert_topic (km_topic m) cache, arena @ payload_of m,
      spans @ [\<lparr>span_key = Some (km_topic m), span_token = token_of m, span_timestamp = km_timestamp m, span_format = Auto,
                span_start = length arena, span_end = length arena + length (payload_of m)\<rparr>]))"

function drain_polls :: "'w kafka_client \<Rightarrow> nat \<Rightarrow> nat \<Rightarrow> u64 option \<Rightarrow> 'w \<Rightarrow> recv_buffers \<Rightarrow>
    ('w \<times> recv_buffers) \<times> (unit, transport_error) result" where
  "drain_polls K deadline max_msgs cap w (cache, arena, spans) =
     (if length spans < max_msgs then
        if deadline \<le> kc_now K w then ((w, cache, arena, spans), Ok ())
        else if arena_byte_limit_reached (length arena) (length spans) cap then ((w, cache, arena, spans), Ok ())
        else (case kc_poll K w 0 of
            (w', Some (Inr m)) \<Rightarrow> drain_polls K deadline max_msgs cap w' (take_msg m (cache, arena, spans))
          | (w', Some (Inl e)) \<Rightarrow> ((w', cache, arena, spans), if spans = [] then Err (TeRecv e) else Ok ())
          | (w', None) \<Rightarrow> ((w', cache, arena, spans), Ok ()))
      else ((w, cache, arena, spans), Ok ()))"
  by pat_completeness auto
termination
  by (relation "measure (\<lambda>(K, deadline, max_msgs, cap, w, (cache, arena, spans)). max_msgs - length spans)")
    (auto simp: take_msg_def)

declare drain_polls.simps [simp del]

definition deliver :: "('p, 'j, 'c) filter_lib \<Rightarrow> 'p filter_engine \<Rightarrow> kafka_token message list \<Rightarrow> kafka_token work_batch" where
  "deliver lib eng ms = (let fb = partition_batch lib eng ms msg_payload msg_key msg_token in
     from_recv_batch \<lparr>messages = fb_messages fb, rb_dlq_entries = fb_dlq_entries fb, filtered_tokens = fb_filtered_tokens fb\<rparr>)"

definition recv_inner :: "'w kafka_client \<Rightarrow> ('p, 'j, 'c) filter_lib \<Rightarrow> source list \<Rightarrow> nat \<Rightarrow> u64 option \<Rightarrow>
    ('w, 'p) kafka_transport \<Rightarrow> ('w, 'p) kafka_transport \<times> (kafka_token work_batch, transport_error) result" where
  "recv_inner K lib ss max_msgs cap t =
     (if kt_closed t then (t, Err TeClosed)
      else if \<not> kt_consumer t then
        (t, Err (TeRecv ''recv on a producer-only Kafka transport (no consumer group)''))
      else let t1 = refresh_topics K (gate_poll K ss t); deadline = kc_now K (kt_world t1) + MAX_DRAIN_MS in
        case kc_poll K (kt_world t1) POLL_TIMEOUT_MS of
          (w, None) \<Rightarrow> (t1\<lparr>kt_world := w\<rparr>, Ok (from_recv_batch \<lparr>messages = [], rb_dlq_entries = [], filtered_tokens = []\<rparr>))
        | (w, Some (Inl e)) \<Rightarrow> (t1\<lparr>kt_world := w\<rparr>, Err (TeRecv e))
        | (w, Some (Inr m)) \<Rightarrow>
            (case drain_polls K deadline max_msgs cap w (take_msg m (kt_cache t1, [], [])) of
               ((w', cache, arena, spans), r) \<Rightarrow>
                 (t1\<lparr>kt_world := w', kt_cache := cache\<rparr>,
                  case r of Inl e \<Rightarrow> Err e | Inr _ \<Rightarrow> Ok (deliver lib (kt_filters t1) (build_batch_from_spans arena spans)))))"

definition kt_recv :: "'w kafka_client \<Rightarrow> ('p, 'j, 'c) filter_lib \<Rightarrow> source list \<Rightarrow> nat \<Rightarrow> ('w, 'p) kafka_transport \<Rightarrow>
    ('w, 'p) kafka_transport \<times> (kafka_token work_batch, transport_error) result" where
  "kt_recv K lib ss max_msgs t = recv_inner K lib ss max_msgs None t"

definition kt_recv_limited :: "'w kafka_client \<Rightarrow> ('p, 'j, 'c) filter_lib \<Rightarrow> source list \<Rightarrow> recv_limits \<Rightarrow> ('w, 'p) kafka_transport \<Rightarrow>
    ('w, 'p) kafka_transport \<times> (kafka_token work_batch, transport_error) result" where
  "kt_recv_limited K lib ss limits t = recv_inner K lib ss (unat (rl_max_records limits)) (Some (rl_max_bytes limits)) t"

subsection \<open>Commit\<close>

fun bump :: "'k \<Rightarrow> int \<Rightarrow> ('k \<times> int) list \<Rightarrow> ('k \<times> int) list" where
  "bump k off [] = [(k, off)]"
| "bump k off ((k', current) # xs) =
     (if k = k' then (k', if current < off then off else current) # xs else (k', current) # bump k off xs)"

definition part :: "kafka_token \<Rightarrow> string \<times> int" where
  "part t = (tk_topic t, tk_partition t)"

definition highest_offsets_per_partition :: "kafka_token list \<Rightarrow> ((string \<times> int) \<times> int) list" where
  "highest_offsets_per_partition tokens = fold (\<lambda>t. bump (part t) (tk_offset t)) tokens []"

definition i64_succ :: "int \<Rightarrow> int" where
  "i64_succ x = (x + 1 + 2 ^ 63) mod 2 ^ 64 - 2 ^ 63"

fun add_offsets :: "'w kafka_client \<Rightarrow> ((string \<times> int) \<times> int) list \<Rightarrow> ((string \<times> int \<times> int) list, transport_error) result" where
  "add_offsets K [] = Ok []"
| "add_offsets K (((topic, p), off) # xs) =
     (case kc_add_offset K topic p (i64_succ off) of
        Inl e \<Rightarrow> Err (TeCommit (''Failed to build TPL: '' @ e))
      | Inr _ \<Rightarrow> (case add_offsets K xs of Inl e \<Rightarrow> Err e | Inr tpl \<Rightarrow> Ok ((topic, p, i64_succ off) # tpl)))"

text \<open>The entries of the hash map come in an order of its own, \<open>kc_map_order\<close>.\<close>

definition build_commit_tpl :: "'w kafka_client \<Rightarrow> kafka_token list \<Rightarrow> ((string \<times> int \<times> int) list, transport_error) result" where
  "build_commit_tpl K tokens = add_offsets K (kc_map_order K (highest_offsets_per_partition tokens))"

text \<open>\<open>commit\<close> waits for the broker (\<open>sync\<close>); \<open>commit_weak_async\<close> does not.\<close>

definition commit_with :: "bool \<Rightarrow> 'w kafka_client \<Rightarrow> kafka_token list \<Rightarrow> ('w, 'p) kafka_transport \<Rightarrow>
    ('w, 'p) kafka_transport \<times> (unit, transport_error) result" where
  "commit_with sync K tokens t =
     (if tokens = [] then (t, Ok ())
      else if \<not> kt_consumer t then
        (t, Err (TeCommit ''commit on a producer-only Kafka transport (no consumer group)''))
      else case build_commit_tpl K tokens of
        Inl e \<Rightarrow> (t, Err e)
      | Inr tpl \<Rightarrow>
          (case kc_commit K (kt_world t) tpl sync of
             (w, Inl e) \<Rightarrow> (t\<lparr>kt_world := w\<rparr>, Err (TeCommit e))
           | (w, Inr _) \<Rightarrow> (t\<lparr>kt_world := w\<rparr>, Ok ())))"

definition kt_commit :: "'w kafka_client \<Rightarrow> kafka_token list \<Rightarrow> ('w, 'p) kafka_transport \<Rightarrow>
    ('w, 'p) kafka_transport \<times> (unit, transport_error) result" where
  "kt_commit = commit_with True"

definition commit_weak_async :: "'w kafka_client \<Rightarrow> kafka_token list \<Rightarrow> ('w, 'p) kafka_transport \<Rightarrow>
    ('w, 'p) kafka_transport \<times> (unit, transport_error) result" where
  "commit_weak_async = commit_with False"

definition partition_limited :: "nat \<Rightarrow> nat \<Rightarrow> u64 \<Rightarrow> bool" where
  "partition_limited members partitions lag \<longleftrightarrow> 0 < partitions \<and> partitions \<le> members \<and> 0 < lag"

definition should_warn_at :: "nat \<Rightarrow> nat option \<Rightarrow> nat \<Rightarrow> nat option \<times> bool" where
  "should_warn_at cooldown last_warn now = (case last_warn of
     Some prev \<Rightarrow> if now - prev < cooldown then (last_warn, False) else (Some now, True)
   | None \<Rightarrow> (Some now, True))"

subsection \<open>What a receive returns\<close>

text \<open>The consecutive messages \<open>ms\<close> a client hands out, the first poll with the given timeout and the rest with zero, and the
  world they leave: the one after the last message, or after one more poll that had no message.\<close>

inductive polled :: "'w kafka_client \<Rightarrow> 'w \<Rightarrow> nat \<Rightarrow> kafka_msg list \<Rightarrow> 'w \<Rightarrow> bool" for K where
  poll_stop: "polled K w timeout [] w"
| poll_quiet: "kc_poll K w timeout = (w', p) \<Longrightarrow> (\<And>m. p \<noteq> Some (Ok m)) \<Longrightarrow> polled K w timeout [] w'"
| poll_some: "kc_poll K w timeout = (w', Some (Ok m)) \<Longrightarrow> polled K w' 0 ms w'' \<Longrightarrow> polled K w timeout (m # ms) w''"

definition message_of :: "kafka_msg \<Rightarrow> kafka_token message" where
  "message_of m = \<lparr>msg_key = Some (km_topic m), msg_payload = payload_of m, msg_token = token_of m,
     msg_timestamp_ms = km_timestamp m, msg_format = Auto\<rparr>"

text \<open>The buffers hold exactly the messages \<open>ms\<close>, laid out one after the other.\<close>

definition holds_msgs :: "recv_buffers \<Rightarrow> kafka_msg list \<Rightarrow> bool" where
  "holds_msgs buf ms = (case buf of (cache, arena, spans) \<Rightarrow>
     arena = concat (map payload_of ms) \<and> length spans = length ms
     \<and> (\<forall>i<length ms. span_key (spans ! i) = Some (km_topic (ms ! i)) \<and> span_token (spans ! i) = token_of (ms ! i)
          \<and> span_timestamp (spans ! i) = km_timestamp (ms ! i) \<and> span_format (spans ! i) = Auto
          \<and> span_start (spans ! i) = length (concat (map payload_of (take i ms)))
          \<and> span_end (spans ! i) = length (concat (map payload_of (take (Suc i) ms)))))"

lemma take_msg_holds:
  assumes "holds_msgs buf ms" shows "holds_msgs (take_msg m buf) (ms @ [m])"
  using assms by (cases buf) (auto simp: holds_msgs_def take_msg_def nth_append less_Suc_eq)

lemma slice_of_arena:
  assumes "i < length ms"
  shows "byte_slice (concat (map payload_of ms)) (length (concat (map payload_of (take i ms))))
      (length (concat (map payload_of (take (Suc i) ms)))) = payload_of (ms ! i)"
proof -
  have "ms = take i ms @ ms ! i # drop (Suc i) ms" using assms by (rule id_take_nth_drop)
  then have "concat (map payload_of ms) =
      concat (map payload_of (take i ms)) @ payload_of (ms ! i) @ concat (map payload_of (drop (Suc i) ms))"
    by (metis concat.simps(2) concat_append list.simps(9) map_append)
  then show ?thesis using assms by (simp add: byte_slice_def take_Suc_conv_app_nth)
qed

lemma build_batch_exact:
  assumes "holds_msgs (cache, arena, spans) ms"
  shows "build_batch_from_spans arena spans = map message_of ms"
  using assms slice_of_arena [of _ ms]
  by (intro nth_equalityI) (auto simp: build_batch_from_spans_def holds_msgs_def message_of_def)

text \<open>When the drain may go on: another message fits by count, and by bytes.\<close>

definition within_caps :: "nat \<Rightarrow> u64 option \<Rightarrow> kafka_msg list \<Rightarrow> bool" where
  "within_caps max_msgs cap ms \<longleftrightarrow> length ms \<le> max 1 max_msgs
     \<and> (\<forall>c. cap = Some c \<longrightarrow> 1 < length ms \<longrightarrow> sum_list (map (length \<circ> payload_of) (butlast ms)) < unat c)"

lemma drain_polls_spec:
  assumes "drain_polls K deadline max_msgs cap w buf = ((w', buf'), r)" and "holds_msgs buf ms" and "ms \<noteq> []"
    and "within_caps max_msgs cap ms"
  shows "r = Ok () \<and> (\<exists>more. polled K w 0 more w' \<and> holds_msgs buf' (ms @ more) \<and> within_caps max_msgs cap (ms @ more))"
  using assms
proof (induction K deadline max_msgs cap w buf arbitrary: ms rule: drain_polls.induct)
  case (1 K deadline max_msgs cap w cache arena spans)
  have len: "length spans = length ms" and arena: "arena = concat (map payload_of ms)"
    using "1.prems"(2) by (auto simp: holds_msgs_def)
  have ne: "spans \<noteq> []" using len "1.prems"(3) by auto
  have stop: ?case if "buf' = (cache, arena, spans)" "r = Ok ()" "polled K w 0 [] w'"
    using that "1.prems" by (intro conjI exI [of _ "[]"]) auto
  show ?case
  proof (cases "length spans < max_msgs \<and> \<not> deadline \<le> kc_now K w
      \<and> \<not> arena_byte_limit_reached (length arena) (length spans) cap")
    case False
    then show ?thesis using "1.prems"(1) stop poll_stop [of K w 0] by (subst (asm) drain_polls.simps) (auto split: if_splits)
  next
    case go: True
    obtain w1 p where p: "kc_poll K w 0 = (w1, p)" by fastforce
    show ?thesis
    proof (cases p)
      case None
      then show ?thesis using "1.prems"(1) go p stop poll_quiet [OF p] by (subst (asm) drain_polls.simps) auto
    next
      case (Some x)
      show ?thesis
      proof (cases x)
        case (Inl e)
        then show ?thesis using "1.prems"(1) go p stop ne Some poll_quiet [OF p] by (subst (asm) drain_polls.simps) auto
      next
        case (Inr m)
        have run: "drain_polls K deadline max_msgs cap w1 (take_msg m (cache, arena, spans)) = ((w', buf'), r)"
          using "1.prems"(1) go p Some Inr by (subst (asm) drain_polls.simps) auto
        have "length arena = sum_list (map (length \<circ> payload_of) ms)" by (simp add: arena length_concat comp_def)
        then have "within_caps max_msgs cap (ms @ [m])"
          using go len "1.prems"(3) by (auto simp: within_caps_def arena_byte_limit_reached_def)
        from "1.IH" [OF _ _ _ p [symmetric] Some Inr run take_msg_holds [OF "1.prems"(2)] _ this] go
        obtain more where "r = Ok ()" "polled K w1 0 more w'" "holds_msgs buf' ((ms @ [m]) @ more)"
            "within_caps max_msgs cap ((ms @ [m]) @ more)" by auto
        then show ?thesis using poll_some [of K w 0 w1 m more w'] p Some Inr
          by (intro conjI exI [of _ "m # more"]) auto
      qed
    qed
  qed
qed

lemma gate_poll_same [simp]:
  "kt_filters (gate_poll K ss t) = kt_filters t" "kt_filters (refresh_topics K t) = kt_filters t"
  by (auto simp: gate_poll_def refresh_topics_def Let_def split: option.splits prod.splits sum.splits)

lemma deliver_tokens:
  "mset (commit_tokens (deliver lib eng (map message_of ms))) = mset (map token_of ms)"
proof -
  let ?P = "\<lambda>m. apply_inbound lib eng (msg_payload m) = DispPass"
  let ?M = "map message_of ms"
  have "commit_tokens (deliver lib eng ?M) = map msg_token (filter ?P ?M) @ map msg_token (filter (\<lambda>m. \<not> ?P m) ?M)"
    by (simp add: deliver_def Let_def partition_batch_eq from_recv_batch_def)
  then have "mset (commit_tokens (deliver lib eng ?M)) =
      image_mset msg_token (mset (filter ?P ?M) + mset (filter (\<lambda>m. \<not> ?P m) ?M))"
    by (simp only: mset_append mset_map image_mset_union)
  also have "\<dots> = mset (map msg_token ?M)" by (simp only: partition_mset mset_map)
  also have "map msg_token ?M = map token_of ms" by (simp add: message_of_def)
  finally show ?thesis .
qed

text \<open>C7. A Kafka receive returns exactly what it polled: for every client, an open consumer's
  batch is the inbound-filtered image of the consecutive messages that take the client from the state after the gate and the
  topic refresh to the state the receive leaves it in (up to one last poll without a message), with each payload
  cut back out of the shared arena unchanged and every polled message's ack among the
  batch's commit tokens, once; it holds at most \<open>max\<close> messages (one at least), and under a
  byte cap only the last one can go past it. An error is returned only when the first poll
  failed, and nothing else was polled then, so no polled message is lost to one.
\<close>

theorem kafka_recv_exact:
  assumes "recv_inner K lib ss max_msgs cap t = (t', r)" and "\<not> kt_closed t" and "kt_consumer t"
  shows "(case r of
      Inl e \<Rightarrow> \<exists>err. kc_poll K (kt_world (refresh_topics K (gate_poll K ss t))) POLL_TIMEOUT_MS = (kt_world t', Some (Err err)) \<and> e = TeRecv err
    | Inr wb \<Rightarrow> \<exists>ms. polled K (kt_world (refresh_topics K (gate_poll K ss t))) POLL_TIMEOUT_MS ms (kt_world t')
        \<and> wb = deliver lib (kt_filters t) (map message_of ms) \<and> mset (commit_tokens wb) = mset (map token_of ms)
        \<and> within_caps max_msgs cap ms)"
proof -
  define t1 where "t1 = refresh_topics K (gate_poll K ss t)"
  define deadline where "deadline = kc_now K (kt_world t1) + MAX_DRAIN_MS"
  obtain w p where p: "kc_poll K (kt_world t1) POLL_TIMEOUT_MS = (w, p)" by fastforce
  have f: "kt_filters t1 = kt_filters t" by (simp add: t1_def)
  note tokens = deliver_tokens [of lib]
  show ?thesis
  proof (cases p)
    case None
    then have "r = Ok (deliver lib (kt_filters t) (map message_of [])) \<and> kt_world t' = w"
      using assms p by (auto simp: recv_inner_def t1_def [symmetric] Let_def deliver_def partition_batch_eq)
    moreover have "polled K (kt_world t1) POLL_TIMEOUT_MS [] w" using p None by (auto intro: poll_quiet)
    ultimately show ?thesis using tokens [of "kt_filters t" "[]"]
      by (auto simp: within_caps_def t1_def [symmetric] intro!: exI [of _ "[]"])
  next
    case (Some x)
    show ?thesis
    proof (cases x)
      case (Inl e)
      then show ?thesis using assms p Some by (auto simp: recv_inner_def t1_def [symmetric] Let_def)
    next
      case (Inr m)
      obtain w' cache arena spans r1 where
        dr: "drain_polls K deadline max_msgs cap w (take_msg m (kt_cache t1, [], [])) = ((w', cache, arena, spans), r1)"
        by (metis prod.exhaust)
      have "holds_msgs (take_msg m (kt_cache t1, [], [])) [m]"
        using take_msg_holds [of "(kt_cache t1, [], [])" "[]" m] by (simp add: holds_msgs_def)
      from drain_polls_spec [OF dr this] obtain more where
        *: "r1 = Ok ()" "polled K w 0 more w'" "holds_msgs (cache, arena, spans) (m # more)" "within_caps max_msgs cap (m # more)"
        by (auto simp: within_caps_def)
      have "r = Ok (deliver lib (kt_filters t) (map message_of (m # more))) \<and> kt_world t' = w'"
        using assms p Some Inr dr *(1) build_batch_exact [OF *(3)] f
        by (auto simp: recv_inner_def t1_def [symmetric] deadline_def [symmetric] Let_def)
      moreover have "polled K (kt_world t1) POLL_TIMEOUT_MS (m # more) w'"
        using p Some Inr *(2) by (auto intro: poll_some)
      ultimately show ?thesis using *(4) tokens [of "kt_filters t" "m # more"] unfolding t1_def by auto
    qed
  qed
qed

definition demo_client :: "(kafka_msg list \<times> (string \<times> int \<times> int) list) kafka_client" where
  "demo_client = \<lparr>kc_poll = (\<lambda>(q, c) timeout. case q of [] \<Rightarrow> (([], c), None) | m # ms \<Rightarrow> ((ms, c), Some (Ok m))),
     kc_now = (\<lambda>w. 0), kc_subscribe = (\<lambda>w ts. (w, Ok ())), kc_assignment = (\<lambda>w. Ok []), kc_pause = (\<lambda>w tpl. (w, Ok ())),
     kc_resume = (\<lambda>w tpl. (w, Ok ())), kc_add_offset = (\<lambda>topic p off. Ok ()), kc_map_order = rev,
     kc_commit = (\<lambda>(q, c) tpl sync. ((q, c @ tpl), Ok ())), kc_send = (\<lambda>w topic p. (w, Ok ()))\<rparr>"

definition demo_msg :: "int \<Rightarrow> bytes \<Rightarrow> kafka_msg" where
  "demo_msg off p = \<lparr>km_topic = ''t'', km_payload = Some p, km_partition = 0, km_offset = off, km_timestamp = None\<rparr>"

definition demo_transport :: "kafka_msg list \<Rightarrow> (kafka_msg list \<times> (string \<times> int \<times> int) list, nat) kafka_transport" where
  "demo_transport q = \<lparr>kt_consumer = True, kt_producer = False, kt_cache = [], kt_closed = False, kt_healthy = True,
     kt_subscribed = [''t''], kt_refresh = None, kt_filters = \<lparr>filters_in = [], filters_out = []\<rparr>, kt_gate = None, kt_world = (q, [])\<rparr>"

lemma demo_transport_refresh: "refresh_topics K (gate_poll K ss (demo_transport q)) = demo_transport q"
  by (simp add: refresh_topics_def gate_poll_def demo_transport_def)

theorem kafka_recv_exact_witness:
  "let (t', r) = recv_inner demo_client toy_filter_lib [] 2 None (demo_transport [demo_msg 5 [1, 2], demo_msg 6 [3], demo_msg 7 []]) in
   case r of
     Inl e \<Rightarrow> False
   | Inr wb \<Rightarrow> \<exists>ms. polled demo_client ([demo_msg 5 [1, 2], demo_msg 6 [3], demo_msg 7 []], []) POLL_TIMEOUT_MS ms (kt_world t')
       \<and> mset (commit_tokens wb) = mset (map token_of ms) \<and> within_caps 2 None ms"
proof -
  let ?q = "[demo_msg 5 [1, 2], demo_msg 6 [3], demo_msg 7 []]"
  obtain t' r where r: "recv_inner demo_client toy_filter_lib [] 2 None (demo_transport ?q) = (t', r)" by fastforce
  have o: "\<not> kt_closed (demo_transport ?q)" "kt_consumer (demo_transport ?q)" "kt_world (demo_transport ?q) = (?q, [])"
    by (simp_all add: demo_transport_def)
  note x = kafka_recv_exact [OF r o(1,2), unfolded demo_transport_refresh o(3)]
  show ?thesis
  proof (cases r)
    case (Inl e)
    then show ?thesis using x by (simp add: demo_client_def)
  next
    case (Inr wb)
    then show ?thesis using x unfolding r by auto
  qed
qed

subsection \<open>Commit offsets\<close>

lemma map_of_bump:
  "map_of (bump k off xs) = (map_of xs)(k \<mapsto> (case map_of xs k of None \<Rightarrow> off | Some c \<Rightarrow> max c off))"
  by (induction k off xs rule: bump.induct) (auto simp: fun_eq_iff max_def)

lemma keys_bump: "fst ` set (bump k off xs) = insert k (fst ` set xs)"
  by (induction k off xs rule: bump.induct) auto

lemma distinct_bump: "distinct (map fst xs) \<Longrightarrow> distinct (map fst (bump k off xs))"
  by (induction k off xs rule: bump.induct) (auto simp: keys_bump)

definition offsets_of :: "string \<times> int \<Rightarrow> kafka_token list \<Rightarrow> int set" where
  "offsets_of k ts = tk_offset ` {t \<in> set ts. part t = k}"

lemma finite_offsets_of [simp]: "finite (offsets_of k ts)"
  by (simp add: offsets_of_def)

lemma offsets_of_Nil [simp]: "offsets_of k [] = {}"
  by (simp add: offsets_of_def)

lemma offsets_of_append: "offsets_of k (xs @ ys) = offsets_of k xs \<union> offsets_of k ys"
  by (auto simp: offsets_of_def)

lemma highest_spec:
  "distinct (map fst (highest_offsets_per_partition ts)) \<and>
   map_of (highest_offsets_per_partition ts) k = (if offsets_of k ts = {} then None else Some (Max (offsets_of k ts)))"
proof (induction ts rule: rev_induct)
  case (snoc t ts)
  let ?h = "highest_offsets_per_partition ts"
  have h: "highest_offsets_per_partition (ts @ [t]) = bump (part t) (tk_offset t) ?h"
    by (simp add: highest_offsets_per_partition_def)
  have fin: "finite (offsets_of k ts)" by simp
  have new: "offsets_of k (ts @ [t]) = (if part t = k then insert (tk_offset t) (offsets_of k ts) else offsets_of k ts)"
    by (auto simp: offsets_of_def)
  have upd: "map_of (bump (part t) (tk_offset t) ?h) k =
      (if part t = k then Some (case map_of ?h k of None \<Rightarrow> tk_offset t | Some c \<Rightarrow> max c (tk_offset t)) else map_of ?h k)"
    by (simp add: map_of_bump)
  have "map_of (bump (part t) (tk_offset t) ?h) k =
      (if offsets_of k (ts @ [t]) = {} then None else Some (Max (offsets_of k (ts @ [t]))))"
  proof (cases "part t = k")
    case True
    show ?thesis
    proof (cases "offsets_of k ts = {}")
      case e: True
      with snoc have "map_of ?h k = None" by simp
      then show ?thesis unfolding upd new e by (simp add: True)
    next
      case ne: False
      with snoc have "map_of ?h k = Some (Max (offsets_of k ts))" by simp
      then show ?thesis unfolding upd new using Max_insert [OF fin ne, of "tk_offset t"] True by (simp add: max.commute)
    qed
  next
    case False
    then show ?thesis unfolding upd new using snoc by simp
  qed
  then show ?case unfolding h using distinct_bump [OF conjunct1 [OF snoc]] by (intro conjI)
qed (simp add: highest_offsets_per_partition_def)

definition map_order_ok :: "'w kafka_client \<Rightarrow> bool" where
  "map_order_ok K \<longleftrightarrow> (\<forall>xs. mset (kc_map_order K xs) = mset xs)"

lemma map_order_same:
  assumes "map_order_ok K" and "distinct (map fst xs)"
  shows "distinct (map fst (kc_map_order K xs))" "map_of (kc_map_order K xs) = map_of xs"
proof -
  have m: "mset (kc_map_order K xs) = mset xs" using assms(1) by (simp add: map_order_ok_def)
  then have "mset (map fst (kc_map_order K xs)) = mset (map fst xs)" by simp
  then show d: "distinct (map fst (kc_map_order K xs))" using assms(2) mset_eq_imp_distinct_iff by blast
  show "map_of (kc_map_order K xs) = map_of xs"
    using m d assms(2) by (subst map_of_inject_set) (auto dest: mset_eq_setD)
qed

definition apply_tpl :: "(string \<times> int \<times> int) list \<Rightarrow> (string \<times> int \<rightharpoonup> int) \<Rightarrow> (string \<times> int \<rightharpoonup> int)" where
  "apply_tpl tpl m = fold (\<lambda>(topic, p, off) m. m((topic, p) \<mapsto> off)) tpl m"

lemma add_offsets_Ok: "add_offsets K xs = Ok tpl \<Longrightarrow> tpl = map (\<lambda>((topic, p), off). (topic, p, i64_succ off)) xs"
  by (induction K xs arbitrary: tpl rule: add_offsets.induct) (auto split: sum.splits)

lemma i64_succ_plain: "- (2 ^ 63) \<le> x \<Longrightarrow> x < 2 ^ 63 - 1 \<Longrightarrow> i64_succ x = x + 1"
  by (simp add: i64_succ_def)

lemma map_of_pairs: "map_of (map (\<lambda>x. (fst x, f (snd x))) xs) k = map_option f (map_of xs k)"
  by (induction xs) auto

lemma apply_tpl_map_of:
  assumes "distinct (map fst xs)"
  shows "apply_tpl (map (\<lambda>((topic, p), off). (topic, p, f off)) xs) m k =
    (case map_of xs k of None \<Rightarrow> m k | Some off \<Rightarrow> Some (f off))"
  using assms
proof (induction xs arbitrary: m)
  case (Cons x xs)
  obtain topic p off where x: "x = ((topic, p), off)" by (metis prod.exhaust)
  have "map_of xs (topic, p) = None" using Cons.prems x by (simp add: map_of_eq_None_iff)
  then show ?case using Cons x by (auto simp: apply_tpl_def split: option.splits)
qed (simp add: apply_tpl_def)

text \<open>What the commit list the code builds does to the committed positions.\<close>

lemma apply_commit_tpl:
  assumes "map_order_ok K" "build_commit_tpl K ts = Ok tpl"
  shows "apply_tpl tpl m k = (if offsets_of k ts = {} then m k else Some (i64_succ (Max (offsets_of k ts))))"
proof -
  note h = highest_spec [of ts k]
  note o = map_order_same [OF assms(1) conjunct1 [OF h]]
  have "tpl = map (\<lambda>((topic, p), off). (topic, p, i64_succ off)) (kc_map_order K (highest_offsets_per_partition ts))"
    using assms(2) by (auto simp: build_commit_tpl_def dest: add_offsets_Ok)
  then show ?thesis using h apply_tpl_map_of [OF o(1), of i64_succ m k] by (simp add: o(2) split: if_splits)
qed

definition i64_offsets :: "kafka_token list \<Rightarrow> bool" where
  "i64_offsets ts \<longleftrightarrow> (\<forall>t\<in>set ts. - (2 ^ 63) \<le> tk_offset t \<and> tk_offset t < 2 ^ 63 - 1)"

definition before_in_partition :: "kafka_token list \<Rightarrow> kafka_token list \<Rightarrow> bool" where
  "before_in_partition xs ys \<longleftrightarrow> (\<forall>x\<in>set xs. \<forall>y\<in>set ys. part x = part y \<longrightarrow> tk_offset x < tk_offset y)"

lemma succ_Max:
  assumes "i64_offsets ts" and "offsets_of k ts \<noteq> {}"
  shows "i64_succ (Max (offsets_of k ts)) = Max (offsets_of k ts) + 1"
proof -
  have "Max (offsets_of k ts) \<in> offsets_of k ts" using assms(2) by (intro Max_in) auto
  then show ?thesis using assms(1) by (intro i64_succ_plain) (auto simp: i64_offsets_def offsets_of_def)
qed

text \<open>A commit of the tokens \<open>ts\<close> that took effect: none is sent for an empty list.\<close>

definition advanced :: "'w kafka_client \<Rightarrow> kafka_token list \<Rightarrow> (string \<times> int \<rightharpoonup> int) \<Rightarrow> (string \<times> int \<rightharpoonup> int) \<Rightarrow> bool" where
  "advanced K ts m m' = (if ts = [] then m' = m else \<exists>tpl. build_commit_tpl K ts = Ok tpl \<and> m' = apply_tpl tpl m)"

primrec advanced_all :: "'w kafka_client \<Rightarrow> kafka_token list list \<Rightarrow> (string \<times> int \<rightharpoonup> int) \<Rightarrow> (string \<times> int \<rightharpoonup> int) \<Rightarrow> bool" where
  "advanced_all K [] m m' = (m' = m)"
| "advanced_all K (ts # tss) m m' = (\<exists>m1. advanced K ts m m1 \<and> advanced_all K tss m1 m')"

lemma advanced_spec:
  assumes "map_order_ok K" "i64_offsets ts" "advanced K ts m m'"
  shows "m' k = (if offsets_of k ts = {} then m k else Some (Max (offsets_of k ts) + 1))"
proof (cases "ts = []")
  case True
  then show ?thesis using assms(3) by (simp add: advanced_def)
next
  case False
  then obtain tpl where t: "build_commit_tpl K ts = Ok tpl" "m' = apply_tpl tpl m" using assms(3) by (auto simp: advanced_def)
  show ?thesis unfolding t(2) apply_commit_tpl [OF assms(1) t(1)] using succ_Max [OF assms(2), of k] by simp
qed

lemma watermark_spec:
  assumes "map_order_ok K" "sorted_wrt before_in_partition tss" "list_all i64_offsets tss" "advanced_all K tss m m'"
  shows "m' k = (if offsets_of k (concat tss) = {} then m k else Some (Max (offsets_of k (concat tss)) + 1))"
  using assms(2-4)
proof (induction tss arbitrary: m)
  case (Cons ts tss)
  let ?new = "offsets_of k (concat tss)" and ?old = "offsets_of k ts"
  have un: "offsets_of k (concat (ts # tss)) = ?old \<union> ?new" by (simp add: offsets_of_append)
  obtain m1 where m1: "advanced K ts m m1" "advanced_all K tss m1 m'" using Cons.prems(3) by auto
  have IH: "m' k = (if ?new = {} then m1 k else Some (Max ?new + 1))" using Cons.IH [OF _ _ m1(2)] Cons.prems by simp
  have old: "m1 k = (if ?old = {} then m k else Some (Max ?old + 1))" using advanced_spec [OF assms(1) _ m1(1)] Cons.prems(2) by simp
  show ?case
  proof (cases "?new = {}")
    case True
    then show ?thesis unfolding un IH old by simp
  next
    case False
    have fin: "finite ?old" "finite ?new" by simp_all
    have lt: "x < y" if "x \<in> ?old" "y \<in> ?new" for x y
      using that Cons.prems(1) by (fastforce simp: before_in_partition_def offsets_of_def)
    have "Max (?old \<union> ?new) = Max ?new"
    proof (rule Max_eqI)
      fix y assume "y \<in> ?old \<union> ?new"
      then show "y \<le> Max ?new" using lt [of y "Max ?new"] Max_in [OF fin(2) False] Max_ge [OF fin(2)] by fastforce
    qed (use fin Max_in [OF fin(2) False] in auto)
    then show ?thesis unfolding un IH using False by simp
  qed
qed simp

text \<open>The commit list is exact: a Kafka commit that succeeds on a non-empty token list has
  handed the client the list that \<open>build_commit_tpl\<close> built, one entry per partition named by the tokens, carrying that partition's
  highest offset plus one (plus-one wraps at \<open>i64::MAX\<close>), and an empty list is accepted without any call.\<close>

theorem kafka_commit_exact:
  assumes "commit_with sync K tokens t = (t', Ok ())" and "map_order_ok K"
  shows "if tokens = [] then t' = t
    else \<exists>tpl. build_commit_tpl K tokens = Ok tpl \<and> kc_commit K (kt_world t) tpl sync = (kt_world t', Ok ()) \<and> t' = t\<lparr>kt_world := kt_world t'\<rparr>
      \<and> (\<forall>k. apply_tpl tpl Map.empty k = (if offsets_of k tokens = {} then None else Some (i64_succ (Max (offsets_of k tokens)))))"
proof (cases "tokens = []")
  case False
  obtain tpl where b: "build_commit_tpl K tokens = Ok tpl" and c: "kt_consumer t"
    using assms(1) False by (cases "build_commit_tpl K tokens") (auto simp: commit_with_def split: if_splits)
  obtain w r where k: "kc_commit K (kt_world t) tpl sync = (w, r)" by fastforce
  have w: "t' = t\<lparr>kt_world := w\<rparr> \<and> r = Ok ()"
    using assms(1) False b c k by (cases r) (auto simp: commit_with_def)
  show ?thesis using False k w b apply_commit_tpl [OF assms(2) b] by simp
qed (use assms(1) in \<open>simp add: commit_with_def\<close>)

lemma demo_map_order: "map_order_ok demo_client"
  by (simp add: map_order_ok_def demo_client_def)

theorem kafka_commit_exact_witness:
  "\<exists>tpl. build_commit_tpl demo_client [token_of (demo_msg 5 []), token_of (demo_msg 4 [])] = Ok tpl \<and> apply_tpl tpl Map.empty (''t'', 0) = Some 6"
proof -
  let ?ts = "[token_of (demo_msg 5 []), token_of (demo_msg 4 [])]"
  have "add_offsets demo_client xs = Ok (map (\<lambda>((topic, p), off). (topic, p, i64_succ off)) xs)" for xs
    by (induction demo_client xs rule: add_offsets.induct) (auto simp: demo_client_def)
  then obtain tpl where b: "build_commit_tpl demo_client ?ts = Ok tpl" by (simp add: build_commit_tpl_def)
  then have "commit_with True demo_client ?ts (demo_transport []) = ((demo_transport [])\<lparr>kt_world := ([], tpl)\<rparr>, Ok ())"
    by (simp add: commit_with_def demo_transport_def) (simp add: demo_client_def)
  note x = kafka_commit_exact [OF this demo_map_order]
  have o: "offsets_of (''t'', 0) ?ts = {5, 4}"
    unfolding offsets_of_def by (force simp: token_of_def demo_msg_def part_def)
  obtain tpl' where "build_commit_tpl demo_client ?ts = Ok tpl'"
    "apply_tpl tpl' Map.empty (''t'', 0) = Some (i64_succ (Max (offsets_of (''t'', 0) ?ts)))"
    using x o by (metis insert_not_empty list.distinct(1))
  then show ?thesis unfolding o by (simp add: i64_succ_def)
qed

subsection \<open>The engine on a Kafka transport\<close>

text \<open>A service whose source is a Kafka transport: its own dead-letter route, sink and ticker act on their world, the commit
  of the run loop is the transport's.\<close>

definition kafka_app :: "(transport_error \<Rightarrow> string) \<Rightarrow> 'w kafka_client \<Rightarrow> ('x, kafka_token) app \<Rightarrow> ('x \<times> ('w, 'p) kafka_transport, kafka_token) app" where
  "kafka_app show_err K svc = \<lparr>
     route_fn = (\<lambda>(x, t) es. case route_fn svc x es of (x', r) \<Rightarrow> ((x', t), r)),
     sink_fn = (\<lambda>(x, t) b. case sink_fn svc x b of (x', r) \<Rightarrow> ((x', t), r)),
     commit_fn = (\<lambda>(x, t) ts. case kt_commit K ts t of (t', r) \<Rightarrow> ((x, t'), case r of Inl e \<Rightarrow> Err (show_err e) | Inr u \<Rightarrow> Ok u)),
     tick_fn = (\<lambda>(x, t). case tick_fn svc x of (x', r) \<Rightarrow> ((x', t), r))\<rparr>"

text \<open>What the broker keeps of a commit: an acknowledged list is applied; a commit that fails on the way back may have been
  applied or not.\<close>

definition broker_keeps :: "'w kafka_client \<Rightarrow> ('w \<Rightarrow> (string \<times> int \<rightharpoonup> int)) \<Rightarrow> bool" where
  "broker_keeps K pos \<longleftrightarrow> (\<forall>w tpl sync w' r. kc_commit K w tpl sync = (w', r) \<longrightarrow>
     pos w' = apply_tpl tpl (pos w) \<or> (r \<noteq> Ok () \<and> pos w' = pos w))"

definition positions :: "('w \<Rightarrow> (string \<times> int \<rightharpoonup> int)) \<Rightarrow> ('x \<times> ('w, 'p) kafka_transport, kafka_token) driver \<Rightarrow> (string \<times> int \<rightharpoonup> int)" where
  "positions pos d = pos (kt_world (snd (world d)))"

definition sinks :: "'t effect list \<Rightarrow> 't work_batch list" where
  "sinks tr = concat (map (\<lambda>e. case e of ESink b True \<Rightarrow> [b] | _ \<Rightarrow> []) tr)"

definition sink_of :: "('t work_batch \<Rightarrow> ('t work_batch, engine_error) result) \<Rightarrow> 't work_batch \<Rightarrow> 't work_batch list" where
  "sink_of process b = (case process b of Inl _ \<Rightarrow> [] | Inr out \<Rightarrow> if records out = [] then [] else [out\<lparr>dlq_entries := []\<rparr>])"

lemma sinks_append [simp]: "sinks (xs @ ys) = sinks xs @ sinks ys"
  by (simp add: sinks_def)

lemma sinks_simps [simp]:
  "sinks [] = []" "sinks [ESink b ok] = (if ok then [b] else [])" "sinks [ECommit ts ok] = []" "sinks [ERoute es ok] = []" "sinks [EDiscard n] = []"
  "sinks [ELease m] = []" "sinks [ERelease m] = []"
  by (simp_all add: sinks_def)

text \<open>What a part of the driver that is not the commit leaves alone.\<close>

definition quiet :: "('w \<Rightarrow> (string \<times> int \<rightharpoonup> int)) \<Rightarrow> ('x \<times> ('w, 'p) kafka_transport, kafka_token) driver \<Rightarrow>
    ('x \<times> ('w, 'p) kafka_transport, kafka_token) driver \<Rightarrow> bool" where
  "quiet pos d d' \<longleftrightarrow> positions pos d' = positions pos d \<and> sinks (trace d') = sinks (trace d)"

lemma quiet_refl [simp]: "quiet pos d d" by (simp add: quiet_def)

lemma quiet_trans: "quiet pos d d1 \<Longrightarrow> quiet pos d1 d2 \<Longrightarrow> quiet pos d d2" by (simp add: quiet_def)

lemma quiet_route: "route_dlq_entries (kafka_app se K svc) pol es d = (d', r) \<Longrightarrow> quiet pos d d'"
  by (cases "world d") (auto simp: route_dlq_entries_def quiet_def positions_def kafka_app_def emit_def split: if_splits filter_dlq_policy.splits prod.splits)

lemma quiet_lease: "lease_ingress_batch b d = (d', l) \<Longrightarrow> quiet pos d d'"
  by (auto simp: lease_ingress_batch_def quiet_def positions_def emit_def Let_def split: option.splits)

lemma quiet_drop [simp]: "quiet pos d0 (drop_lease l d) = quiet pos d0 d" "positions pos (drop_lease l d) = positions pos d"
  "sinks (trace (drop_lease l d)) = sinks (trace d)"
  by (auto simp: drop_lease_def quiet_def positions_def emit_def split: option.splits)

lemma quiet_ingest: "ingest_workbatch (kafka_app se K svc) pol b d = (d', r) \<Longrightarrow> quiet pos d d'"
  using quiet_route [of se K svc pol "dlq_entries b" d]
  by (auto simp: ingest_workbatch_def apply_workbatch_dlq_policy_def split: if_splits prod.splits sum.splits)

lemma kafka_sink:
  "call_sink (kafka_app se K svc) b d = (d', r) \<Longrightarrow>
   positions pos d' = positions pos d \<and> sinks (trace d') = sinks (trace d) @ (if is_ok r then [b] else [])"
  by (cases "world d") (auto simp: call_sink_def positions_def kafka_app_def emit_def split: prod.splits)

lemma kafka_commit:
  assumes "call_commit (kafka_app se K svc) AutoCommit ts d = (d', r)" "broker_keeps K pos"
  shows "sinks (trace d') = sinks (trace d) \<and> (advanced K ts (positions pos d) (positions pos d') \<or> (\<not> is_ok r \<and> positions pos d' = positions pos d))"
proof -
  obtain x t where w: "world d = (x, t)" by fastforce
  obtain t' c where c: "kt_commit K ts t = (t', c)" by fastforce
  have d': "d' = emit (ECommit ts (is_ok c)) (d\<lparr>world := (x, t')\<rparr>)" "is_ok r = is_ok c"
    using assms(1) w c by (auto simp: call_commit_def kafka_app_def Let_def is_ok_def split: sum.splits)
  have "advanced K ts (pos (kt_world t)) (pos (kt_world t')) \<or> (\<not> is_ok c \<and> pos (kt_world t') = pos (kt_world t))"
  proof (cases "ts = [] \<or> \<not> kt_consumer t \<or> \<not> is_ok (build_commit_tpl K ts)")
    case True
    then show ?thesis using c by (auto simp: kt_commit_def commit_with_def advanced_def is_ok_def split: sum.splits if_splits)
  next
    case False
    then obtain tpl where b: "build_commit_tpl K ts = Ok tpl" by (auto simp: is_ok_def split: sum.splits)
    obtain w' r' where k: "kc_commit K (kt_world t) tpl True = (w', r')" by fastforce
    have "pos w' = apply_tpl tpl (pos (kt_world t)) \<or> (r' \<noteq> Ok () \<and> pos w' = pos (kt_world t))"
      using assms(2) k unfolding broker_keeps_def by blast
    moreover have "kt_world t' = w' \<and> (is_ok c \<longleftrightarrow> r' = Ok ())"
      using c False b k by (auto simp: kt_commit_def commit_with_def is_ok_def split: sum.splits)
    ultimately show ?thesis using b False by (auto simp: advanced_def)
  qed
  then show ?thesis using d' w by (simp add: positions_def emit_def)
qed

text \<open>One block: when it is done its output has been sunk and its tokens have been committed, in that order; when it fails, either nothing
  was sunk or committed, or it was sunk and at most its own commit took effect.\<close>

lemma kafka_body:
  assumes "drive_body (kafka_app se K svc) pol process AutoCommit b d = (d', r)" "broker_keeps K pos"
    and "\<And>out. process b = Ok out \<Longrightarrow> commit_tokens out = commit_tokens b"
  shows "(sinks (trace d') = sinks (trace d) @ sink_of process b \<and> advanced K (commit_tokens b) (positions pos d) (positions pos d'))
    \<or> (\<not> is_ok r \<and> positions pos d' = positions pos d \<and> (sinks (trace d') = sinks (trace d) @ sink_of process b \<or> sinks (trace d') = sinks (trace d)))"
proof (cases "process b")
  case (Inl e)
  then show ?thesis using assms(1) by (auto simp: drive_body_def)
next
  case (Inr out)
  let ?out = "out\<lparr>dlq_entries := []\<rparr>"
  obtain d1 r1 where rt: "(if dlq_entries out \<noteq> [] then route_dlq_entries (kafka_app se K svc) pol (dlq_entries out) d else (d, Ok ())) = (d1, r1)" by fastforce
  have q1: "quiet pos d d1" using rt quiet_route by (auto split: if_splits)
  obtain d2 r2 where sk: "(if records out \<noteq> [] then call_sink (kafka_app se K svc) ?out d1 else (d1, Ok ())) = (d2, r2)" by fastforce
  have s2: "positions pos d2 = positions pos d1" "is_ok r2 \<Longrightarrow> sinks (trace d2) = sinks (trace d1) @ sink_of process b"
    "\<not> is_ok r2 \<Longrightarrow> sinks (trace d2) = sinks (trace d1)"
    using sk kafka_sink [of se K svc ?out d1 _ _ pos] Inr by (auto simp: sink_of_def split: if_splits)
  show ?thesis
  proof (cases "is_ok r1")
    case False
    then obtain e where "r1 = Err e" by (auto simp: is_ok_def split: sum.splits)
    then have "d' = d1 \<and> r = Err e" using assms(1) Inr rt by (auto simp: drive_body_def Let_def split: if_splits)
    then show ?thesis using q1 by (simp add: quiet_def)
  next
    case ok1: True
    then obtain u1 where u1: "r1 = Ok u1" by (auto simp: is_ok_def split: sum.splits)
    show ?thesis
    proof (cases "is_ok r2")
      case False
      then obtain e where "r2 = Err e" by (auto simp: is_ok_def split: sum.splits)
      then have "d' = d2 \<and> r = Err e" using assms(1) Inr rt u1 sk by (auto simp: drive_body_def Let_def split: if_splits)
      then show ?thesis using q1 s2 False by (simp add: quiet_def)
    next
      case ok2: True
      then obtain u2 where u2: "r2 = Ok u2" by (auto simp: is_ok_def split: sum.splits)
      have "call_commit (kafka_app se K svc) AutoCommit (commit_tokens out) d2 = (d', r)"
        using assms(1) Inr rt u1 sk u2 by (auto simp: drive_body_def Let_def split: if_splits)
      from kafka_commit [OF this assms(2)] show ?thesis using q1 s2 ok2 assms(3) [OF Inr] by (auto simp: quiet_def)
    qed
  qed
qed

lemma kafka_block:
  assumes "drive_block (kafka_app se K svc) pol process AutoCommit b d = (d', r)" "broker_keeps K pos"
    and "\<And>out. process b = Ok out \<Longrightarrow> commit_tokens out = commit_tokens b"
  shows "(sinks (trace d') = sinks (trace d) @ sink_of process b \<and> advanced K (commit_tokens b) (positions pos d) (positions pos d'))
    \<or> (\<not> is_ok r \<and> positions pos d' = positions pos d \<and> (sinks (trace d') = sinks (trace d) @ sink_of process b \<or> sinks (trace d') = sinks (trace d)))"
proof -
  obtain d1 l where l: "lease_ingress_batch b d = (d1, l)" by fastforce
  obtain d2 where b: "drive_body (kafka_app se K svc) pol process AutoCommit b d1 = (d2, r)" "d' = drop_lease l d2"
    using assms(1) l by (auto simp: drive_block_def split: prod.splits)
  show ?thesis using kafka_body [OF b(1) assms(2,3)] quiet_lease [OF l, of pos] b(2) by (simp add: quiet_def)
qed

definition from_position :: "(string \<times> int \<rightharpoonup> int) \<Rightarrow> kafka_token \<Rightarrow> bool" where
  "from_position m t = (case m (part t) of None \<Rightarrow> True | Some c \<Rightarrow> c \<le> tk_offset t)"

definition no_error :: "run_status \<Rightarrow> bool" where
  "no_error st = (case st of Returned (Inl _) \<Rightarrow> False | _ \<Rightarrow> True)"

lemma kafka_run:
  assumes "run_workbatch (kafka_app se K svc) pol process AutoCommit evs d = (d', st)" "broker_keeps K pos"
    and "\<And>b out. process b = Ok out \<Longrightarrow> commit_tokens out = commit_tokens b"
  shows "\<exists>n m. n \<le> m \<and> m \<le> length (blocks evs) \<and> (no_error st \<longrightarrow> n = length (blocks evs))
    \<and> sinks (trace d') = sinks (trace d) @ concat (map (sink_of process) (take m (blocks evs)))
    \<and> advanced_all K (map commit_tokens (take n (blocks evs))) (positions pos d) (positions pos d')"
  using assms(1) unfolding run_workbatch_def
proof (induction evs arbitrary: d)
  case Nil
  then show ?case by auto
next
  case (Cons ev evs)
  let ?app = "kafka_app se K svc"
  have none: ?case if "quiet pos d d'" "\<not> no_error st"
    using that by (intro exI [of _ 0]) (simp add: quiet_def)
  show ?case
  proof (cases ev)
    case Cancelled
    then show ?thesis using Cons.prems by (auto simp: no_error_def)
  next
    case Tick
    let ?d = "d\<lparr>world := fst (tick_fn ?app (world d))\<rparr>"
    have "positions pos ?d = positions pos d" by (cases "world d") (simp add: positions_def kafka_app_def split: prod.splits)
    then show ?thesis using Cons.IH [of ?d] Cons.prems Tick by simp
  next
    case (Received rc)
    show ?thesis
    proof (cases rc)
      case (Inl e)
      then show ?thesis using Cons.prems Received none by (auto simp: no_error_def)
    next
      case (Inr wb)
      obtain d1 ir where ir: "ingest_workbatch ?app pol wb d = (d1, ir)" by fastforce
      note q = quiet_ingest [OF ir, of pos]
      show ?thesis
      proof (cases ir)
        case (Inl e)
        then show ?thesis using Cons.prems Received Inr ir q none by (auto simp: no_error_def)
      next
        case ok: (Inr ob)
        have ob: "ob = (if records wb = [] \<and> commit_tokens wb = [] then None else Some (wb\<lparr>dlq_entries := []\<rparr>))"
          using ingest_Ok [OF ir [unfolded ok]] by simp
        show ?thesis
        proof (cases "records wb = [] \<and> commit_tokens wb = []")
          case True
          then have "run_loop ?app pol (drive_block ?app pol process AutoCommit) evs d1 = (d', st)" using Cons.prems Received Inr ir ok ob by simp
          from Cons.IH [OF this] show ?thesis using q True Received Inr by (simp add: quiet_def)
        next
          case False
          let ?b = "wb\<lparr>dlq_entries := []\<rparr>"
          have bl: "blocks (ev # evs) = ?b # blocks evs" using False Received Inr by auto
          obtain d2 r2 where dr: "drive_block ?app pol process AutoCommit ?b d1 = (d2, r2)" by fastforce
          note k = kafka_block [OF dr assms(2,3)]
          show ?thesis
          proof (cases "is_ok r2")
            case True
            then obtain u where "r2 = Ok u" by (auto simp: is_ok_def split: sum.splits)
            then have run: "run_loop ?app pol (drive_block ?app pol process AutoCommit) evs d2 = (d', st)"
              using Cons.prems Received Inr ir ok ob dr False by simp
            have k: "sinks (trace d2) = sinks (trace d1) @ sink_of process ?b" "advanced K (commit_tokens ?b) (positions pos d1) (positions pos d2)"
              using k True by auto
            obtain n m where nm: "n \<le> m" "m \<le> length (blocks evs)" "no_error st \<longrightarrow> n = length (blocks evs)"
              "sinks (trace d') = sinks (trace d2) @ concat (map (sink_of process) (take m (blocks evs)))"
              "advanced_all K (map commit_tokens (take n (blocks evs))) (positions pos d2) (positions pos d')"
              using Cons.IH [OF run] by blast
            show ?thesis unfolding bl using nm k q
              by (intro exI [of _ "Suc n"] exI [of _ "Suc m"]) (auto simp: quiet_def)
          next
            case False
            then obtain e where "r2 = Err e" by (auto simp: is_ok_def split: sum.splits)
            then have d': "d' = d2" "\<not> no_error st"
              using Cons.prems Received Inr ir ok ob dr \<open>\<not> (records wb = [] \<and> commit_tokens wb = [])\<close> by (auto simp: no_error_def)
            from k consider "sinks (trace d2) = sinks (trace d1) @ sink_of process ?b" "advanced K (commit_tokens ?b) (positions pos d1) (positions pos d2)"
              | "positions pos d2 = positions pos d1" "sinks (trace d2) = sinks (trace d1) @ sink_of process ?b" | "quiet pos d1 d2"
              by (auto simp: quiet_def)
            then show ?thesis
            proof cases
              case 1
              then show ?thesis unfolding bl d'(1) using q d'(2) by (intro exI [of _ 1]) (auto simp: quiet_def)
            next
              case 2
              then show ?thesis unfolding bl d'(1) using q d'(2) by (intro exI [of _ 0] exI [of _ 1]) (auto simp: quiet_def)
            next
              case 3
              then show ?thesis using none quiet_trans [OF q] d' by blast
            qed
          qed
        qed
      qed
    qed
  qed
qed

text \<open>C1. Kafka under the run loop, end to end. The service's commits are \<open>KafkaTransport::commit\<close>, the source hands over each
  partition's records in offset order, from the committed position on, and \<open>process\<close> keeps a block's commit tokens. Then the
  positions on the broker are an exact watermark: there is an \<open>n\<close> such that a token lies below its partition's committed position exactly when
  it came in one of the first \<open>n\<close> blocks, and what the sink has accepted is exactly the output of the first \<open>m\<close> blocks, in order, with
  \<open>n \<le> m\<close>: nothing is committed whose block was not sunk first. Unless the loop stopped with an error, \<open>n\<close> is all the received blocks.
  A commit that fails on the way back may have been applied or not.\<close>

theorem kafka_watermark_exact:
  assumes "run_workbatch (kafka_app show_err K svc) pol process AutoCommit evs d = (d', st)" and "trace d = []"
    and "\<And>b out. process b = Ok out \<Longrightarrow> commit_tokens out = commit_tokens b"
    and "sorted_wrt before_in_partition (map commit_tokens (blocks evs))"
    and "list_all i64_offsets (map commit_tokens (blocks evs))"
    and "list_all (from_position (positions pos d)) (concat (map commit_tokens (blocks evs)))"
    and "map_order_ok K" and "broker_keeps K pos"
  shows "\<exists>n m. n \<le> m \<and> (no_error st \<longrightarrow> n = length (blocks evs))
    \<and> sinks (trace d') = concat (map (sink_of process) (take m (blocks evs)))
    \<and> (\<forall>i<length (blocks evs). \<forall>t\<in>set (commit_tokens (blocks evs ! i)).
         i < n \<longleftrightarrow> (\<exists>c. positions pos d' (part t) = Some c \<and> tk_offset t < c))"
proof -
  let ?B = "map commit_tokens (blocks evs)"
  obtain n m where n: "n \<le> m" "no_error st \<longrightarrow> n = length (blocks evs)"
    and s: "sinks (trace d') = concat (map (sink_of process) (take m (blocks evs)))"
    and c: "advanced_all K (take n ?B) (positions pos d) (positions pos d')"
    using kafka_run [OF assms(1,8,3)] assms(2) by (auto simp: take_map)
  have split: "sorted_wrt before_in_partition (take n ?B @ drop n ?B)" using assms(4) by simp
  have all: "list_all i64_offsets (take n ?B)" using assms(5) by (meson in_set_takeD list_all_iff)
  have sp: "positions pos d' k = (if offsets_of k (concat (take n ?B)) = {} then positions pos d k
      else Some (Max (offsets_of k (concat (take n ?B))) + 1))" for k
    using split watermark_spec [OF assms(7) _ all c] unfolding sorted_wrt_append by blast
  have "i < n \<longleftrightarrow> (\<exists>c. positions pos d' (part t) = Some c \<and> tk_offset t < c)"
    if i: "i < length ?B" and t: "t \<in> set (?B ! i)" for i t
  proof (cases "i < n")
    case True
    have "?B ! i \<in> set (take n ?B)" using True i by (auto simp: in_set_conv_nth intro!: exI [of _ i])
    then have "tk_offset t \<in> offsets_of (part t) (concat (take n ?B))" using t by (auto simp: offsets_of_def)
    then show ?thesis using True unfolding sp
      by (auto simp: less_Suc_eq_le intro!: Max_ge zle_add1_eq_le [THEN iffD2])
  next
    case False
    have "?B ! i \<in> set (drop n ?B)" using False i by (auto simp: in_set_conv_nth intro!: exI [of _ "i - n"])
    then have before: "before_in_partition ts (?B ! i)" if "ts \<in> set (take n ?B)" for ts
      using split that unfolding sorted_wrt_append by blast
    have lt: "x < tk_offset t" if "x \<in> offsets_of (part t) (concat (take n ?B))" for x
      using that before t by (auto simp: offsets_of_def before_in_partition_def)
    have "t \<in> set (concat ?B)" unfolding set_concat using nth_mem [OF i] t by blast
    then have start: "c \<le> tk_offset t" if "positions pos d (part t) = Some c" for c
      using assms(6) that unfolding list_all_iff from_position_def by fastforce
    have "Max (offsets_of (part t) (concat (take n ?B))) + 1 \<le> tk_offset t"
      if "offsets_of (part t) (concat (take n ?B)) \<noteq> {}"
      using lt [OF Max_in [OF finite_offsets_of that]] by simp
    then have "c \<le> tk_offset t" if "positions pos d' (part t) = Some c" for c
      using that start unfolding sp by (auto split: if_splits)
    then show ?thesis using False by force
  qed
  with n s show ?thesis by (intro exI [of _ n] exI [of _ m]) auto
qed

definition kafka_demo_svc :: "(nat, kafka_token) app" where
  "kafka_demo_svc = \<lparr>route_fn = (\<lambda>w es. (w, Ok ())), sink_fn = (\<lambda>w b. (w + 1, if w < 1 then Ok () else Err (SinkError ''full''))),
     commit_fn = (\<lambda>w ts. (w, Ok ())), tick_fn = (\<lambda>w. (w, Ok ()))\<rparr>"

definition kafka_demo_events :: "kafka_token run_event list" where
  "kafka_demo_events = map (\<lambda>off. Received (Ok (wb_new [bare_record Json [1]] [token_of (demo_msg off [])]))) [3, 4]"

definition kafka_demo_run where
  "kafka_demo_run = run_workbatch (kafka_app (\<lambda>e. ''commit'') demo_client kafka_demo_svc) Reject Ok AutoCommit kafka_demo_events
     \<lparr>world = (0, demo_transport []), mem_guard = None, trace = []\<rparr>"

definition demo_positions :: "kafka_msg list \<times> (string \<times> int \<times> int) list \<Rightarrow> (string \<times> int \<rightharpoonup> int)" where
  "demo_positions w = apply_tpl (snd w) Map.empty"

lemma demo_broker_keeps: "broker_keeps demo_client demo_positions"
  by (auto simp: broker_keeps_def demo_client_def demo_positions_def apply_tpl_def split: prod.splits)

lemma kafka_demo_blocks: "map commit_tokens (blocks kafka_demo_events) = [[token_of (demo_msg 3 [])], [token_of (demo_msg 4 [])]]"
  by (simp add: kafka_demo_events_def wb_new_def)

text \<open>The second block is refused by the sink: one block is committed.\<close>

theorem kafka_watermark_exact_witness:
  "\<exists>n m. n \<le> m \<and> sinks (trace (fst kafka_demo_run)) = concat (map (sink_of Ok) (take m (blocks kafka_demo_events)))
     \<and> (0 < n \<longleftrightarrow> (\<exists>c. positions demo_positions (fst kafka_demo_run) (''t'', 0) = Some c \<and> 3 < c))
     \<and> (1 < n \<longleftrightarrow> (\<exists>c. positions demo_positions (fst kafka_demo_run) (''t'', 0) = Some c \<and> 4 < c))"
proof -
  let ?d = "\<lparr>world = (0, demo_transport []), mem_guard = None, trace = []\<rparr>"
  obtain d' st where r: "run_workbatch (kafka_app (\<lambda>e. ''commit'') demo_client kafka_demo_svc) Reject Ok AutoCommit kafka_demo_events ?d = (d', st)"
    by fastforce
  have d': "fst kafka_demo_run = d'" using r by (simp add: kafka_demo_run_def)
  have s: "sorted_wrt before_in_partition (map commit_tokens (blocks kafka_demo_events))"
    "list_all i64_offsets (map commit_tokens (blocks kafka_demo_events))"
    unfolding kafka_demo_blocks by (simp_all add: before_in_partition_def i64_offsets_def token_of_def demo_msg_def)
  have p: "positions demo_positions ?d k = None" for k by (simp add: positions_def demo_positions_def demo_transport_def apply_tpl_def)
  have st: "list_all (from_position (positions demo_positions ?d)) (concat (map commit_tokens (blocks kafka_demo_events)))"
    by (simp add: list_all_iff from_position_def p)
  have ok: "commit_tokens out = commit_tokens b" if "Ok b = (Ok out :: (kafka_token work_batch, engine_error) result)" for b out
    using that by simp
  obtain n m where nm: "n \<le> m" "sinks (trace d') = concat (map (sink_of Ok) (take m (blocks kafka_demo_events)))"
    and x: "\<And>i t. i < length (blocks kafka_demo_events) \<Longrightarrow> t \<in> set (commit_tokens (blocks kafka_demo_events ! i)) \<Longrightarrow>
      i < n \<longleftrightarrow> (\<exists>c. positions demo_positions d' (part t) = Some c \<and> tk_offset t < c)"
    using kafka_watermark_exact [OF r _ ok s st demo_map_order demo_broker_keeps] by auto
  have "length (blocks kafka_demo_events) = 2" "token_of (demo_msg 3 []) \<in> set (commit_tokens (blocks kafka_demo_events ! 0))"
    "token_of (demo_msg 4 []) \<in> set (commit_tokens (blocks kafka_demo_events ! 1))"
    by (simp_all add: kafka_demo_events_def wb_new_def)
  then show ?thesis using nm x [of 0 "token_of (demo_msg 3 [])"] x [of 1 "token_of (demo_msg 4 [])"] unfolding d'
    by (intro exI [of _ n] exI [of _ m]) (simp add: token_of_def demo_msg_def part_def)
qed

end
