(* ===== verification/Routing.thy ===== *)
theory Routing
  imports File_Transport Kafka_Transport
begin

text \<open>
  \<open>src/transport/routed.rs\<close> and \<open>src/transport/factory.rs\<close>: the sender that routes by key to
  its own backends with an optional default, and the type-erased sender, receiver and commit
  token that the factory builds from configuration. The erased types are those of a build with
  the Kafka, memory and file transports, the ones modelled here; any other transport type is
  answered by the factory's last branch. A routed sender's backends are an argument.
\<close>

subsection \<open>The routed sender\<close>

text \<open>\<open>rt_routes\<close> is the hash map in its iteration order.\<close>

record 's routed_sender =
  rt_routes :: "(string \<times> 's) list"
  rt_default :: "'s option"
  rt_closed :: bool

definition routed_new :: "(string \<times> 's) list \<Rightarrow> 's option \<Rightarrow> 's routed_sender" where
  "routed_new routes d = \<lparr>rt_routes = routes, rt_default = d, rt_closed = False\<rparr>"

text \<open>\<open>from_route_configs\<close> builds every route's sender, then the default's; the first failure ends it.\<close>

fun build_routes :: "('c \<Rightarrow> ('s, transport_error) result) \<Rightarrow> (string \<times> 'c) list \<Rightarrow> ((string \<times> 's) list, transport_error) result" where
  "build_routes mk [] = Ok []"
| "build_routes mk ((k, c) # cs) = (case mk c of
     Inl e \<Rightarrow> Err e
   | Inr s \<Rightarrow> (case build_routes mk cs of Inl e \<Rightarrow> Err e | Inr rs \<Rightarrow> Ok ((k, s) # rs)))"

definition from_route_configs :: "('c \<Rightarrow> ('s, transport_error) result) \<Rightarrow> (string \<times> 'c) list \<Rightarrow> 'c option \<Rightarrow> ('s routed_sender, transport_error) result" where
  "from_route_configs mk cs d = (case build_routes mk cs of
     Inl e \<Rightarrow> Err e
   | Inr rs \<Rightarrow> (case d of None \<Rightarrow> Ok (routed_new rs None)
       | Some c \<Rightarrow> (case mk c of Inl e \<Rightarrow> Err e | Inr s \<Rightarrow> Ok (routed_new rs (Some s)))))"

definition has_route :: "string \<Rightarrow> 's routed_sender \<Rightarrow> bool" where
  "has_route k r \<longleftrightarrow> map_of (rt_routes r) k \<noteq> None"

text \<open>The route's name and its sender; the name is what the metrics are labelled with.\<close>

definition resolve :: "string \<Rightarrow> 's routed_sender \<Rightarrow> (string option \<times> 's) option" where
  "resolve k r = (case map_of (rt_routes r) k of
     Some s \<Rightarrow> Some (Some k, s)
   | None \<Rightarrow> (case rt_default r of None \<Rightarrow> None | Some s \<Rightarrow> Some (None, s)))"

fun set_backend :: "string option \<Rightarrow> 's \<Rightarrow> 's routed_sender \<Rightarrow> 's routed_sender" where
  "set_backend (Some k) s r = r\<lparr>rt_routes := map (\<lambda>(k', x). if k' = k then (k', s) else (k', x)) (rt_routes r)\<rparr>"
| "set_backend None s r = r\<lparr>rt_default := Some s\<rparr>"

definition routed_send :: "('s \<Rightarrow> string \<Rightarrow> bytes \<Rightarrow> 's \<times> transport_error send_result) \<Rightarrow> 's routed_sender \<Rightarrow> string \<Rightarrow> bytes \<Rightarrow>
    's routed_sender \<times> transport_error send_result" where
  "routed_send send r k p =
     (if rt_closed r then (r, SendFatal TeClosed)
      else case resolve k r of
        None \<Rightarrow> (r, SendFatal (TeConfig (''no route configured for key '' @ k @ '' and no default sender'')))
      | Some (n, s) \<Rightarrow> (case send s k p of (s', res) \<Rightarrow> (set_backend n s' r, res)))"

fun close_loop :: "('s \<Rightarrow> 's \<times> (unit, transport_error) result) \<Rightarrow> (string \<times> 's) list \<Rightarrow> (string \<times> 's) list \<times> (unit, transport_error) result" where
  "close_loop cl [] = ([], Ok ())"
| "close_loop cl ((k, s) # rs) = (case cl s of
     (s', Inl e) \<Rightarrow> ((k, s') # rs, Err e)
   | (s', Inr _) \<Rightarrow> (case close_loop cl rs of (rs', x) \<Rightarrow> ((k, s') # rs', x)))"

definition routed_close :: "('s \<Rightarrow> 's \<times> (unit, transport_error) result) \<Rightarrow> 's routed_sender \<Rightarrow> 's routed_sender \<times> (unit, transport_error) result" where
  "routed_close cl r = (let r0 = r\<lparr>rt_closed := True\<rparr> in
     case close_loop cl (rt_routes r) of
       (rs, Inl e) \<Rightarrow> (r0\<lparr>rt_routes := rs\<rparr>, Err e)
     | (rs, Inr _) \<Rightarrow>
         (case rt_default r of
            None \<Rightarrow> (r0\<lparr>rt_routes := rs\<rparr>, Ok ())
          | Some s \<Rightarrow> (case cl s of (s', x) \<Rightarrow> (r0\<lparr>rt_routes := rs, rt_default := Some s'\<rparr>, x))))"

definition routed_is_healthy :: "('s \<Rightarrow> bool) \<Rightarrow> 's routed_sender \<Rightarrow> bool" where
  "routed_is_healthy h r \<longleftrightarrow> \<not> rt_closed r \<and> (\<forall>x\<in>set (rt_routes r). h (snd x)) \<and> (case rt_default r of None \<Rightarrow> True | Some s \<Rightarrow> h s)"

subsection \<open>The contract of a routed sender\<close>

definition routed_dest :: "('s \<Rightarrow> string \<Rightarrow> 'd) \<Rightarrow> 's routed_sender \<Rightarrow> string \<Rightarrow> (string option \<times> 'd) option" where
  "routed_dest dest r k = map_option (\<lambda>(n, s). (n, dest s k)) (resolve k r)"

definition backend :: "string option \<Rightarrow> 's routed_sender \<Rightarrow> 's option" where
  "backend n r = (case n of None \<Rightarrow> rt_default r | Some k \<Rightarrow> map_of (rt_routes r) k)"

definition routed_wire :: "('s \<Rightarrow> 'd \<Rightarrow> bytes list) \<Rightarrow> 's routed_sender \<Rightarrow> (string option \<times> 'd) option \<Rightarrow> bytes list" where
  "routed_wire wire r x = (case x of None \<Rightarrow> [] | Some (n, d) \<Rightarrow> (case backend n r of None \<Rightarrow> [] | Some s \<Rightarrow> wire s d))"

definition routed_disp :: "('s \<Rightarrow> string \<Rightarrow> bytes \<Rightarrow> filter_disposition) \<Rightarrow> 's routed_sender \<Rightarrow> string \<Rightarrow> bytes \<Rightarrow> filter_disposition" where
  "routed_disp disp r k p = (case resolve k r of None \<Rightarrow> DispPass | Some (n, s) \<Rightarrow> disp s k p)"

lemma map_of_set_route:
  "map_of (map (\<lambda>(k', x). if k' = k then (k', s) else (k', x)) rs) j = (if j = k then map_option (\<lambda>_. s) (map_of rs k) else map_of rs j)"
  by (induction rs) auto

lemma resolve_backend: "resolve k r = Some (n, s) \<Longrightarrow> backend n r = Some s"
  by (auto simp: resolve_def backend_def split: option.splits)

lemma backend_set: "backend n r = Some s0 \<Longrightarrow> backend m (set_backend n s r) = (if m = n then Some s else backend m r)"
  by (cases n; cases m) (auto simp: backend_def map_of_set_route)

lemma resolve_set:
  assumes "backend n r = Some s0"
  shows "resolve k (set_backend n s r) = map_option (\<lambda>(m, x). (m, if m = n then s else x)) (resolve k r)"
  using assms by (cases n) (auto simp: resolve_def backend_def map_of_set_route split: option.splits)

lemma routed_send_cases:
  assumes "routed_send send r k p = (r', res)"
  obtains "r' = r" "res = SendFatal TeClosed"
  | "r' = r" "resolve k r = None" "\<exists>m. res = SendFatal (TeConfig m)"
  | n s s' where "resolve k r = Some (n, s)" "send s k p = (s', res)" "r' = set_backend n s' r" "\<not> rt_closed r"
  using assms by (auto simp: routed_send_def split: if_splits option.splits prod.splits)

text \<open>Routing over any sender that keeps the contract keeps it, destination by destination.\<close>

lemma routed_is_sender:
  assumes S: "transport_sender send dest wire disp"
  shows "transport_sender (routed_send send) (routed_dest dest) (routed_wire wire) (routed_disp disp)"
proof
  fix r r' :: "'a routed_sender" and k p
  have wire_set: "routed_wire wire (set_backend n s' r) = (routed_wire wire r)(Some (n, d) := wire s' d)"
    if "backend n r = Some s" "\<forall>d'. d' \<noteq> d \<longrightarrow> wire s' d' = wire s d'" for n s s' d
    using that backend_set[OF that(1), of _ s'] by (auto simp: routed_wire_def fun_eq_iff split: option.splits)
  show "routed_disp disp r k p \<noteq> DispDlq \<and> routed_wire wire r' =
      (if routed_disp disp r k p = DispPass then (routed_wire wire r)(routed_dest dest r k := routed_wire wire r (routed_dest dest r k) @ [p])
       else routed_wire wire r)" if "routed_send send r k p = (r', SendOk)"
    using that
  proof (cases rule: routed_send_cases)
    case (3 n s s')
    note b = resolve_backend[OF 3(1)] and ok = transport_sender.send_ok[OF S 3(2)]
    from ok wire_set[OF b, of "dest s k" s'] b 3 show ?thesis
      by (auto simp: routed_disp_def routed_dest_def routed_wire_def fun_eq_iff split: if_splits)
  qed auto
  show "routed_disp disp r k p = DispDlq \<and> routed_wire wire r' = routed_wire wire r" if "routed_send send r k p = (r', FilteredDlq)"
    using that
  proof (cases rule: routed_send_cases)
    case (3 n s s')
    note b = resolve_backend[OF 3(1)] and ok = transport_sender.send_dlq[OF S 3(2)]
    from ok wire_set[OF b, of undefined s'] b 3 show ?thesis by (auto simp: routed_disp_def routed_wire_def fun_eq_iff)
  qed auto
  fix res
  show "routed_wire wire r' = routed_wire wire r" if "routed_send send r k p = (r', res)" "\<not> accepted res"
    using that(1)
  proof (cases rule: routed_send_cases)
    case (3 n s s')
    note b = resolve_backend[OF 3(1)] and ok = transport_sender.send_refused[OF S 3(2) that(2)]
    from ok wire_set[OF b, of undefined s'] b 3 show ?thesis by (auto simp: routed_wire_def fun_eq_iff)
  qed auto
  show "routed_dest dest r' = routed_dest dest r \<and> routed_disp disp r' = routed_disp disp r" if "routed_send send r k p = (r', res)"
    using that
  proof (cases rule: routed_send_cases)
    case (3 n s s')
    note b = resolve_backend[OF 3(1)] and fr = transport_sender.send_frame[OF S 3(2)]
    have "x = s" if "resolve j r = Some (n, x)" for j x using resolve_backend[OF that] b by simp
    with fr 3(3) show ?thesis
      by (auto simp: routed_dest_def routed_disp_def resolve_set[OF b] fun_eq_iff option.map_comp comp_def split: option.splits
          intro!: option.map_cong)
  qed auto
qed

interpretation rm: transport_sender "routed_send (mem_send lib now)" "routed_dest (\<lambda>t k. k)" "routed_wire mem_wire" "routed_disp (mem_disp lib)"
  for lib :: "('p, 'j, 'c) filter_lib" and now
  by (rule routed_is_sender) (rule mem.transport_sender_axioms)

text \<open>Between two attempts the consumers of the backends may receive, any number of times.\<close>

inductive routed_idle :: "('p, 'j, 'c) filter_lib \<Rightarrow> 'p mem_transport routed_sender \<Rightarrow> 'p mem_transport routed_sender \<Rightarrow> bool" for lib where
  idle_none: "routed_idle lib r r"
| idle_recv: "routed_idle lib r r1 \<Longrightarrow> backend route r1 = Some b \<Longrightarrow> mem_recv lib n b = (b', x) \<Longrightarrow> routed_idle lib r (set_backend route b' r1)"

lemma routed_idle_keeps:
  "routed_idle lib r r' \<Longrightarrow> routed_wire mem_wire r' = routed_wire mem_wire r \<and> routed_dest (\<lambda>t k. k) r' = routed_dest (\<lambda>t k. k) r
     \<and> routed_disp (mem_disp lib) r' = routed_disp (mem_disp lib) r"
proof (induction rule: routed_idle.induct)
  case (idle_recv r r1 route b n b' x)
  note b = idle_recv(2) and k = mem_recv_keeps[OF idle_recv(3)]
  have "y = b" if "resolve j r1 = Some (route, y)" for j y using resolve_backend[OF that] b by simp
  then have "routed_dest (\<lambda>t k. k) (set_backend route b' r1) = routed_dest (\<lambda>t k. k) r1 \<and> routed_disp (mem_disp lib) (set_backend route b' r1) = routed_disp (mem_disp lib) r1"
    using k(2) by (auto simp: routed_dest_def routed_disp_def resolve_set[OF b] fun_eq_iff option.map_comp comp_def split: option.splits
        intro!: option.map_cong)
  moreover have "routed_wire mem_wire (set_backend route b' r1) = routed_wire mem_wire r1"
    using k(1) b by (auto simp: routed_wire_def backend_set[OF b] fun_eq_iff split: option.splits)
  ultimately show ?case using idle_recv.IH by simp
qed simp

interpretation rr: retrying_sender "\<lambda>now. routed_send (mem_send lib now)" "routed_dest (\<lambda>t k. k)" "routed_wire mem_wire" "routed_disp (mem_disp lib)" "routed_idle lib"
  for lib :: "('p, 'j, 'c) filter_lib"
  by (rule retrying_sender.intro) (rule rm.transport_sender_axioms, rule routed_idle_keeps)

text \<open>The records of a block that pass the outbound filter of their backend and go to \<open>route\<close> under the key \<open>k\<close>.\<close>

definition routed_to :: "('p, 'j, 'c) filter_lib \<Rightarrow> 'p mem_transport routed_sender \<Rightarrow> string option \<Rightarrow> string \<Rightarrow> wrecord list \<Rightarrow> bytes list" where
  "routed_to lib r route k rs = map payload (filter (\<lambda>m. routed_disp (mem_disp lib) r (rec_key m) (payload m) = DispPass
     \<and> rec_key m = k \<and> map_option fst (resolve k r) = Some route) rs)"

text \<open>C36. A block sent through a routed sender over in-memory backends, refused any number of times and repeated as a whole until it
  is accepted, while the consumers of the backends receive between the attempts. For every route (or the default) and key, what
  arrives there is what was there before, then for each refused attempt the passing records of a proper prefix of the block, then
  all its passing records that resolve there, each time in block order: duplicates of prefixes are possible, a loss or a
  record at the wrong backend is not. (No other sender uses the backends meanwhile.)\<close>

theorem routed_block_at_least_once:
  assumes "retried (\<lambda>now. routed_send (mem_send lib now)) (routed_idle lib) rs r n r'"
    and "backend route r = Some b0" and "backend route r' = Some b"
  shows "\<exists>ns. length ns = n \<and> list_all (\<lambda>m. m < length rs) ns
     \<and> mem_wire b k = mem_wire b0 k @ concat (map (\<lambda>m. routed_to lib r route k (take m rs)) ns) @ routed_to lib r route k rs"
proof -
  have d: "(routed_dest (\<lambda>t k. k) r j = Some (route, k)) = (j = k \<and> map_option fst (resolve k r) = Some route)" for j
    by (auto simp: routed_dest_def)
  have p: "passing (routed_disp (mem_disp lib)) (routed_dest (\<lambda>t k. k)) r (Some (route, k)) xs = routed_to lib r route k xs" for xs
    unfolding passing_def routed_to_def d ..
  have "routed_wire mem_wire r' (Some (route, k)) = mem_wire b k" "routed_wire mem_wire r (Some (route, k)) = mem_wire b0 k"
    using assms(2,3) by (simp_all add: routed_wire_def)
  with rr.retries_deliver[OF assms(1)] show ?thesis unfolding p[symmetric] by metis
qed

text \<open>A channel of two with one message in it refuses the second record of a block of two; after the consumer has received, it
  takes the block.\<close>

definition full_demo :: "nat mem_transport" where
  "full_demo = mem_demo\<lparr>mt_queue := [\<lparr>mm_key = None, mm_payload = [0], mm_seq = 0, mm_timestamp_ms = 0\<rparr>], mt_sequence := 1\<rparr>"

definition routed_demo :: "nat mem_transport routed_sender" where
  "routed_demo = routed_new [(''a'', full_demo)] (Some mem_demo)"

definition rdemo_recs :: "wrecord list" where
  "rdemo_recs = [(bare_record Json [1])\<lparr>key := Some ''a''\<rparr>, (bare_record Json [2])\<lparr>key := Some ''a''\<rparr>]"

lemmas rdemo_simps = rdemo_recs_def routed_demo_def full_demo_def routed_new_def mem_demo_def bare_record_def routed_send_def resolve_def
  mem_send_def send_number_def try_send_def mem_disp_def next_msg_def Let_def

lemma rdemo_retried:
  "\<exists>r' b. retried (\<lambda>now. routed_send (mem_send toy_filter_lib now)) (routed_idle toy_filter_lib) rdemo_recs routed_demo 1 r'
     \<and> backend (Some ''a'') r' = Some b"
proof -
  let ?snd = "send_batch (routed_send (mem_send toy_filter_lib 0))"
  obtain r1 b1 where 1: "?snd routed_demo rdemo_recs = (r1, Backpressured)" and b1: "backend (Some ''a'') r1 = Some b1"
      and r1: "r1 = routed_new [(''a'', b1)] (Some mem_demo)" "\<not> mt_closed b1" "mt_buffer_size b1 = 2" "mt_filters b1 = mt_filters mem_demo"
        "length (mt_queue b1) = 2"
    by (simp add: rdemo_simps backend_def)
  obtain b2 x where x: "mem_recv toy_filter_lib 5 b1 = (b2, x)" by fastforce
  let ?r2 = "routed_new [(''a'', b2)] (Some mem_demo)"
  have b2: "mt_queue b2 = []" "\<not> mt_closed b2" "mt_buffer_size b2 = 2" "filters_out (mt_filters b2) = []"
    using x r1 by (auto simp: mem_recv_def recv_loop_eq mem_demo_def)
  have idle: "routed_idle toy_filter_lib r1 ?r2"
    using idle_recv[OF idle_none b1 x] r1(1) by (simp add: routed_new_def)
  obtain r3 b3 where 3: "?snd ?r2 rdemo_recs = (r3, SendOk)" "backend (Some ''a'') r3 = Some b3"
    using b2 by (simp add: rdemo_recs_def bare_record_def routed_new_def routed_send_def resolve_def mem_send_def send_number_def
        try_send_def mem_disp_def next_msg_def backend_def Let_def)
  have "retried (\<lambda>now. routed_send (mem_send toy_filter_lib now)) (routed_idle toy_filter_lib) rdemo_recs routed_demo (Suc 0) r3"
    using retry_again[where send = "\<lambda>now. routed_send (mem_send toy_filter_lib now)" and i = 0 and idle = "routed_idle toy_filter_lib", OF 1 _ idle]
      retry_done[where send = "\<lambda>now. routed_send (mem_send toy_filter_lib now)" and i = 0 and idle = "routed_idle toy_filter_lib", OF 3(1)] by blast
  with 3(2) show ?thesis by auto
qed

theorem routed_block_at_least_once_witness:
  "\<exists>r' b m. retried (\<lambda>now. routed_send (mem_send toy_filter_lib now)) (routed_idle toy_filter_lib) rdemo_recs routed_demo 1 r'
     \<and> backend (Some ''a'') r' = Some b \<and> m < 2 \<and> mem_wire b ''a'' = take m [[1], [2]] @ [[1], [2]]"
proof -
  obtain r' b where r: "retried (\<lambda>now. routed_send (mem_send toy_filter_lib now)) (routed_idle toy_filter_lib) rdemo_recs routed_demo 1 r'"
    "backend (Some ''a'') r' = Some b" using rdemo_retried by blast
  have b0: "backend (Some ''a'') routed_demo = Some full_demo" "mem_wire full_demo ''a'' = []"
    by (simp_all add: backend_def routed_demo_def routed_new_def mem_wire_def full_demo_def mem_demo_def)
  have to: "routed_to toy_filter_lib routed_demo (Some ''a'') ''a'' (take m rdemo_recs) = take m [[1], [2]]" if "m \<le> 2" for m
    using that by (auto simp: routed_to_def rdemo_simps routed_disp_def rec_key_def le_Suc_eq numeral_2_eq_2)
  have l: "length rdemo_recs = 2" by (simp add: rdemo_recs_def)
  from routed_block_at_least_once[OF r(1) b0(1) r(2), of "''a''"] obtain ns where
    ns: "length ns = 1" "list_all (\<lambda>m. m < length rdemo_recs) ns"
    "mem_wire b ''a'' = mem_wire full_demo ''a'' @ concat (map (\<lambda>m. routed_to toy_filter_lib routed_demo (Some ''a'') ''a'' (take m rdemo_recs)) ns)
       @ routed_to toy_filter_lib routed_demo (Some ''a'') ''a'' rdemo_recs" by blast
  from ns(1) obtain m where m: "ns = [m]" by (cases ns) auto
  with ns l to[of m] to[of 2] b0(2) have "m < 2" "mem_wire b ''a'' = take m [[1], [2]] @ [[1], [2]]" by simp_all
  with r show ?thesis by blast
qed

text \<open>\<open>close\<close> stops at the first backend whose close fails: those behind it stay open, although the routed sender
  itself is closed and will not be asked again.\<close>

lemma close_stops_at_error:
  assumes "cl s = (s', Err e)"
  shows "routed_close cl \<lparr>rt_routes = (k, s) # rest, rt_default = d, rt_closed = False\<rparr>
     = (\<lparr>rt_routes = (k, s') # rest, rt_default = d, rt_closed = True\<rparr>, Err e)"
  using assms by (simp add: routed_close_def)

subsection \<open>The factory\<close>

datatype transport_type = TyKafka | TyGrpc | TyMemory | TyFile | TyPipe | TyHttp | TyRedis

fun type_name :: "transport_type \<Rightarrow> string" where
  "type_name TyKafka = ''kafka''"
| "type_name TyGrpc = ''grpc''"
| "type_name TyMemory = ''memory''"
| "type_name TyFile = ''file''"
| "type_name TyPipe = ''pipe''"
| "type_name TyHttp = ''http''"
| "type_name TyRedis = ''redis''"

record file_config =
  fc_path :: string
  fc_append :: bool
  fc_filters_in :: "filter_rule list"
  fc_filters_out :: "filter_rule list"

record 'k transport_config =
  tc_type :: transport_type
  tc_kafka :: "'k option"
  tc_memory :: "memory_config option"
  tc_file :: "file_config option"

datatype ('w, 'p) any_transport = AnyKafka "('w, 'p) kafka_transport" | AnyMemory "'p mem_transport" | AnyFile "'p file_transport"

datatype any_token = TokKafka kafka_token | TokMemory mem_token | TokFile file_token

text \<open>What the transports take from outside in one call. The constructor of the Kafka client, the text of a filter
  error and the files on disk are arguments of the factory.\<close>

record ('w, 'p, 'j, 'c) any_env =
  ae_client :: "'w kafka_client"
  ae_lib :: "('p, 'j, 'c) filter_lib"
  ae_sources :: "source list"
  ae_now :: int
  ae_valid :: "bytes \<Rightarrow> bool"
  ae_open_w :: "(unit, string) result"
  ae_open_r :: "(unit, transport_error) result"
  ae_write :: write_outcome
  ae_save :: "(unit, string) result"

record ('k, 'w, 'p) factory_env =
  fe_kafka_new :: "'k \<Rightarrow> (('w, 'p) kafka_transport, transport_error) result"
  fe_filter_error :: "nat \<times> filter_error \<Rightarrow> transport_error"
  fe_tiers :: tier_config
  fe_data :: "string \<Rightarrow> bytes option"
  fe_pos :: "string \<Rightarrow> sidecar"

text \<open>\<open>AnySender\<close> and \<open>AnyReceiver\<close> are built by the same branches. \<open>None\<close> is the panic of a memory transport
  with a buffer of size 0.\<close>

definition from_transport_config :: "('k, 'w, 'p) factory_env \<Rightarrow> ('p, 'j, 'c) filter_lib \<Rightarrow> 'k transport_config \<Rightarrow>
    (('w, 'p) any_transport, transport_error) result option" where
  "from_transport_config F lib c = (case tc_type c of
     TyKafka \<Rightarrow> (case tc_kafka c of
         None \<Rightarrow> Some (Err (TeConfig ''kafka config missing''))
       | Some k \<Rightarrow> Some (case fe_kafka_new F k of Inl e \<Rightarrow> Err e | Inr t \<Rightarrow> Ok (AnyKafka t)))
   | TyMemory \<Rightarrow> (case mem_new lib (fe_tiers F) (case tc_memory c of None \<Rightarrow> memory_config_default | Some m \<Rightarrow> m) of
         None \<Rightarrow> None
       | Some (Inl e) \<Rightarrow> Some (Err (fe_filter_error F e))
       | Some (Inr t) \<Rightarrow> Some (Ok (AnyMemory t)))
   | TyFile \<Rightarrow> (case tc_file c of
         None \<Rightarrow> Some (Err (TeConfig ''file config missing''))
       | Some f \<Rightarrow> Some (case file_new lib (fe_tiers F) (fc_path f) (fc_append f) (fc_filters_in f) (fc_filters_out f)
             (fe_data F (fc_path f)) (fe_pos F (fc_path f)) of
           Inl EmptyPath \<Rightarrow> Err (TeConfig ''file path is empty'')
         | Inl (BadFilter i e) \<Rightarrow> Err (fe_filter_error F (i, e))
         | Inr t \<Rightarrow> Ok (AnyFile t)))
   | other \<Rightarrow> Some (Err (TeConfig (''transport type '' @ [CHR 39] @ type_name other @ [CHR 39] @
         '' is not available (feature not enabled or not yet implemented)''))))"

fun any_send :: "('w, 'p, 'j, 'c) any_env \<Rightarrow> ('w, 'p) any_transport \<Rightarrow> string \<Rightarrow> bytes \<Rightarrow> ('w, 'p) any_transport \<times> transport_error send_result" where
  "any_send E (AnyKafka t) k p = (case kt_send (ae_client E) (ae_lib E) k p t of (t', r) \<Rightarrow> (AnyKafka t', r))"
| "any_send E (AnyMemory t) k p = (case mem_send (ae_lib E) (ae_now E) t k p of (t', r) \<Rightarrow> (AnyMemory t', r))"
| "any_send E (AnyFile t) k p = (case file_send (ae_lib E) (ae_open_w E) (ae_write E) p t of (t', r) \<Rightarrow> (AnyFile t', r))"

text \<open>\<open>send_batch\<close> is forwarded; none of the three backends overrides the default.\<close>

fun any_send_batch :: "('w, 'p, 'j, 'c) any_env \<Rightarrow> ('w, 'p) any_transport \<Rightarrow> wrecord list \<Rightarrow> ('w, 'p) any_transport \<times> transport_error send_result" where
  "any_send_batch E (AnyKafka t) rs = (case send_batch (\<lambda>t k p. kt_send (ae_client E) (ae_lib E) k p t) t rs of (t', r) \<Rightarrow> (AnyKafka t', r))"
| "any_send_batch E (AnyMemory t) rs = (case send_batch (mem_send (ae_lib E) (ae_now E)) t rs of (t', r) \<Rightarrow> (AnyMemory t', r))"
| "any_send_batch E (AnyFile t) rs = (case send_batch (\<lambda>t k p. file_send (ae_lib E) (ae_open_w E) (ae_write E) p t) t rs of (t', r) \<Rightarrow> (AnyFile t', r))"

fun any_close :: "('w, 'p) any_transport \<Rightarrow> ('w, 'p) any_transport \<times> (unit, transport_error) result" where
  "any_close (AnyKafka t) = (AnyKafka (kt_close t), Ok ())"
| "any_close (AnyMemory t) = (case mem_close t of (t', r) \<Rightarrow> (AnyMemory t', r))"
| "any_close (AnyFile t) = (case file_close t of (t', r) \<Rightarrow> (AnyFile t', r))"

fun any_is_healthy :: "('w, 'p) any_transport \<Rightarrow> bool" where
  "any_is_healthy (AnyKafka t) = kt_healthy t"
| "any_is_healthy (AnyMemory t) = mem_is_healthy t"
| "any_is_healthy (AnyFile t) = (\<not> ft_closed t)"

definition wrap_batch :: "('b \<Rightarrow> any_token) \<Rightarrow> 'b work_batch \<Rightarrow> any_token work_batch" where
  "wrap_batch wrap b = with_dlq_entries (dlq_entries b) (wb_new (records b) (map wrap (commit_tokens b)))"

definition wrap_result :: "('b \<Rightarrow> any_token) \<Rightarrow> ('b work_batch, transport_error) result \<Rightarrow> (any_token work_batch, transport_error) result" where
  "wrap_result wrap r = (case r of Inl e \<Rightarrow> Err e | Inr b \<Rightarrow> Ok (wrap_batch wrap b))"

fun any_recv :: "('w, 'p, 'j, 'c) any_env \<Rightarrow> nat \<Rightarrow> ('w, 'p) any_transport \<Rightarrow> ('w, 'p) any_transport \<times> (any_token work_batch, transport_error) result" where
  "any_recv E n (AnyKafka t) = (case kt_recv (ae_client E) (ae_lib E) (ae_sources E) n t of (t', r) \<Rightarrow> (AnyKafka t', wrap_result TokKafka r))"
| "any_recv E n (AnyMemory t) = (case mem_recv (ae_lib E) n t of (t', r) \<Rightarrow> (AnyMemory t', wrap_result TokMemory r))"
| "any_recv E n (AnyFile t) = (case file_recv (ae_lib E) (ae_valid E) (ae_now E) (ae_open_r E) n t of (t', r) \<Rightarrow> (AnyFile t', wrap_result TokFile r))"

text \<open>Only Kafka has a byte-aware receive of its own.\<close>

fun any_recv_limited :: "('w, 'p, 'j, 'c) any_env \<Rightarrow> recv_limits \<Rightarrow> ('w, 'p) any_transport \<Rightarrow>
    ('w, 'p) any_transport \<times> (any_token work_batch, transport_error) result" where
  "any_recv_limited E l (AnyKafka t) = (case kt_recv_limited (ae_client E) (ae_lib E) (ae_sources E) l t of (t', r) \<Rightarrow> (AnyKafka t', wrap_result TokKafka r))"
| "any_recv_limited E l (AnyMemory t) = any_recv E (unat (rl_max_records l)) (AnyMemory t)"
| "any_recv_limited E l (AnyFile t) = any_recv E (unat (rl_max_records l)) (AnyFile t)"

definition extract_tokens :: "(any_token \<Rightarrow> 't option) \<Rightarrow> any_token list \<Rightarrow> 't list" where
  "extract_tokens pick ts = List.map_filter pick ts"

fun pick_kafka :: "any_token \<Rightarrow> kafka_token option" where "pick_kafka (TokKafka t) = Some t" | "pick_kafka _ = None"
fun pick_memory :: "any_token \<Rightarrow> mem_token option" where "pick_memory (TokMemory t) = Some t" | "pick_memory _ = None"
fun pick_file :: "any_token \<Rightarrow> file_token option" where "pick_file (TokFile t) = Some t" | "pick_file _ = None"

fun any_commit :: "('w, 'p, 'j, 'c) any_env \<Rightarrow> any_token list \<Rightarrow> ('w, 'p) any_transport \<Rightarrow> ('w, 'p) any_transport \<times> (unit, transport_error) result" where
  "any_commit E ts (AnyKafka t) = (case kt_commit (ae_client E) (extract_tokens pick_kafka ts) t of (t', r) \<Rightarrow> (AnyKafka t', r))"
| "any_commit E ts (AnyMemory t) = (AnyMemory (mem_commit (extract_tokens pick_memory ts) t), Ok ())"
| "any_commit E ts (AnyFile t) = (case file_commit (ae_save E) (extract_tokens pick_file ts) t of (t', r) \<Rightarrow> (AnyFile t', r))"

lemma extract_own:
  "extract_tokens pick_kafka (map TokKafka ks) = ks" "extract_tokens pick_memory (map TokMemory ms) = ms"
  "extract_tokens pick_file (map TokFile fs) = fs"
  by (simp_all add: extract_tokens_def map_filter_def filter_map comp_def)

lemma extract_foreign:
  "extract_tokens pick (xs @ ys) = extract_tokens pick xs @ extract_tokens pick ys"
  "(\<forall>x\<in>set ys. pick x = None) \<Longrightarrow> extract_tokens pick ys = []"
  by (simp_all add: extract_tokens_def map_filter_def filter_empty_conv)

lemma wrap_tokens [simp]:
  "commit_tokens (wrap_batch w b) = map w (commit_tokens b)" "records (wrap_batch w b) = records b" "dlq_entries (wrap_batch w b) = dlq_entries b"
  by (simp_all add: wrap_batch_def with_dlq_entries_def wb_new_def)

text \<open>A file receiver behind the factory's interface resumes as the file transport itself does: what it was handed
  through \<open>recv\<close>, committed through \<open>commit\<close>, is what the next process does not see again.\<close>

lemma any_file_commit:
  assumes "any_recv E n (AnyFile t) = (AnyFile t1, Ok b)" and "\<forall>x\<in>set foreign. pick_file x = None"
  shows "\<exists>b0. file_recv (ae_lib E) (ae_valid E) (ae_now E) (ae_open_r E) n t = (t1, Ok b0) \<and> records b = records b0 \<and> dlq_entries b = dlq_entries b0
     \<and> any_commit E (commit_tokens b @ foreign) (AnyFile t1)
         = (case file_commit (ae_save E) (commit_tokens b0) t1 of (t', r) \<Rightarrow> (AnyFile t', r))"
  using assms by (auto simp: wrap_result_def extract_own extract_foreign split: prod.splits sum.splits)

end
