(* ===== verification/Topic_Resolver.thy ===== *)
theory Topic_Resolver
  imports Kafka_Transport "HOL-Library.List_Lexorder" "HOL-Library.Char_ord"
begin

text \<open>
  Topic discovery, \<open>src/transport/kafka/topic_resolver.rs\<close>: suppression rules (a topic with
  the preferred suffix hides its sibling with the suppressed one), include and exclude
  patterns, and the refresh loop that feeds the watch channel the Kafka transport polls. The
  broker's topic list and the regular expressions are arguments. Topic names are byte strings,
  ordered byte by byte.
\<close>

subsection \<open>The model\<close>

record suppression_rule =
  preferred_suffix :: string
  suppressed_suffix :: string

definition strip_suffix :: "string \<Rightarrow> string \<Rightarrow> string option" where
  "strip_suffix suf t = (if length suf \<le> length t \<and> drop (length t - length suf) t = suf then Some (take (length t - length suf) t) else None)"

definition preferred_bases :: "suppression_rule \<Rightarrow> string list \<Rightarrow> string set" where
  "preferred_bases r ts = set (List.map_filter (strip_suffix (preferred_suffix r)) ts)"

definition retained :: "suppression_rule \<Rightarrow> string list \<Rightarrow> string \<Rightarrow> bool" where
  "retained r ts t = (case strip_suffix (suppressed_suffix r) t of Some base \<Rightarrow> base \<notin> preferred_bases r ts | None \<Rightarrow> True)"

definition apply_rule :: "suppression_rule \<Rightarrow> string list \<Rightarrow> string list" where
  "apply_rule r ts = filter (retained r ts) ts"

definition apply_suppression_rules :: "string list \<Rightarrow> suppression_rule list \<Rightarrow> string list" where
  "apply_suppression_rules ts rules = (if rules = [] then ts else fold apply_rule rules ts)"

definition passes_filters :: "('r \<Rightarrow> string \<Rightarrow> bool) \<Rightarrow> string \<Rightarrow> 'r list \<Rightarrow> 'r list \<Rightarrow> bool" where
  "passes_filters is_match t incl excl =
     (if incl \<noteq> [] \<and> \<not> (\<exists>r\<in>set incl. is_match r t) then False
      else if \<exists>r\<in>set excl. is_match r t then False else True)"

fun compile_patterns :: "(string \<Rightarrow> ('r, string) result) \<Rightarrow> string list \<Rightarrow> ('r list, transport_error) result" where
  "compile_patterns mk [] = Ok []"
| "compile_patterns mk (p # ps) = (case mk p of
     Inl e \<Rightarrow> Err (TeConfig (''Invalid topic filter regex '' @ p @ '': '' @ e))
   | Inr r \<Rightarrow> (case compile_patterns mk ps of Inl e \<Rightarrow> Err e | Inr rs \<Rightarrow> Ok (r # rs)))"

record 'r topic_resolver =
  suppression_rules :: "suppression_rule list"
  include_patterns :: "'r list"
  exclude_patterns :: "'r list"

definition resolver_new :: "(string \<Rightarrow> ('r, string) result) \<Rightarrow> (unit, transport_error) result \<Rightarrow> suppression_rule list \<Rightarrow> string list \<Rightarrow> string list \<Rightarrow>
    ('r topic_resolver, transport_error) result" where
  "resolver_new mk admin rules incl excl = (case admin of
     Inl e \<Rightarrow> Err e
   | Inr _ \<Rightarrow> (case compile_patterns mk incl of
       Inl e \<Rightarrow> Err e
     | Inr is \<Rightarrow> (case compile_patterns mk excl of
         Inl e \<Rightarrow> Err e
       | Inr xs \<Rightarrow> Ok \<lparr>suppression_rules = rules, include_patterns = is, exclude_patterns = xs\<rparr>)))"

text \<open>\<open>dedup\<close> removes consecutive repetitions.\<close>

fun dedup :: "'a list \<Rightarrow> 'a list" where
  "dedup [] = []"
| "dedup [x] = [x]"
| "dedup (x # y # xs) = (if x = y then dedup (x # xs) else x # dedup (y # xs))"

definition resolve_topics :: "('r \<Rightarrow> string \<Rightarrow> bool) \<Rightarrow> (string list, transport_error) result \<Rightarrow> 'r topic_resolver \<Rightarrow> (string list, transport_error) result" where
  "resolve_topics is_match broker r = (case broker of
     Inl e \<Rightarrow> Err e
   | Inr all_topics \<Rightarrow> Ok (dedup (sort (filter (\<lambda>t. passes_filters is_match t (include_patterns r) (exclude_patterns r))
        (apply_suppression_rules all_topics (suppression_rules r))))))"

text \<open>The refresh loop: the channel starts with the first resolution (empty when it fails); a tick that resolves sends
  its list, changed or not; a tick that fails keeps the previous one.\<close>

definition refresh_start :: "(string list, transport_error) result \<Rightarrow> topic_refresh" where
  "refresh_start r = (let ts = (case r of Inl _ \<Rightarrow> [] | Inr ts \<Rightarrow> ts) in \<lparr>tr_value = ts, tr_changed = False, tr_last_seen = ts\<rparr>)"

definition refresh_tick :: "(string list, transport_error) result \<Rightarrow> topic_refresh \<Rightarrow> topic_refresh" where
  "refresh_tick r h = (case r of Inl _ \<Rightarrow> h | Inr ts \<Rightarrow> h\<lparr>tr_value := ts, tr_changed := True\<rparr>)"

datatype refresh_op = Tick "(string list, transport_error) result" | Check

fun refresh_run :: "refresh_op list \<Rightarrow> topic_refresh \<Rightarrow> topic_refresh \<times> string list list" where
  "refresh_run [] h = (h, [])"
| "refresh_run (Tick r # xs) h = refresh_run xs (refresh_tick r h)"
| "refresh_run (Check # xs) h = (case check_changed h of (h1, x) \<Rightarrow>
     (case refresh_run xs h1 of (h2, outs) \<Rightarrow> (h2, (case x of None \<Rightarrow> outs | Some ts \<Rightarrow> ts # outs))))"

subsection \<open>What is resolved\<close>

lemma strip_suffix_iff: "strip_suffix suf t = Some b \<longleftrightarrow> t = b @ suf"
proof
  assume "strip_suffix suf t = Some b"
  then show "t = b @ suf" by (auto simp: strip_suffix_def split: if_splits) (metis append_take_drop_id)
qed (simp add: strip_suffix_def)

lemma preferred_bases_iff: "b \<in> preferred_bases r ts \<longleftrightarrow> b @ preferred_suffix r \<in> set ts"
  by (auto simp: preferred_bases_def map_filter_def strip_suffix_iff[symmetric] image_iff)
    (metis option.discI option.sel strip_suffix_iff)+

text \<open>A topic is hidden by a rule exactly when its sibling with the preferred suffix exists.\<close>

lemma retained_iff: "retained r ts t \<longleftrightarrow> \<not> (\<exists>b. t = b @ suppressed_suffix r \<and> b @ preferred_suffix r \<in> set ts)"
  by (auto simp: retained_def preferred_bases_iff strip_suffix_iff split: option.splits)
    (metis option.discI strip_suffix_iff)+

lemma dedup_set [simp]: "set (dedup xs) = set xs"
  by (induction xs rule: dedup.induct) auto

lemma dedup_sorted: "sorted xs \<Longrightarrow> sorted (dedup xs) \<and> distinct (dedup xs)"
  by (induction xs rule: dedup.induct) (auto simp: order_antisym)

definition hides :: "string list \<Rightarrow> suppression_rule \<Rightarrow> string \<Rightarrow> bool" where
  "hides ts r t \<longleftrightarrow> (\<exists>b. t = b @ suppressed_suffix r \<and> b @ preferred_suffix r \<in> set ts)"

text \<open>No topic that some rule prefers is one that some rule would suppress.\<close>

definition rules_apart :: "suppression_rule list \<Rightarrow> string list \<Rightarrow> bool" where
  "rules_apart rules ts \<longleftrightarrow> (\<forall>r\<in>set rules. \<forall>r'\<in>set rules. \<forall>b c. b @ preferred_suffix r \<in> set ts \<longrightarrow> b @ preferred_suffix r \<noteq> c @ suppressed_suffix r')"

lemma default_rule_apart: "rules_apart [\<lparr>preferred_suffix = ''_load'', suppressed_suffix = ''_land''\<rparr>] ts"
  by (simp add: rules_apart_def)

lemma apartD: "rules_apart rules ts \<Longrightarrow> r \<in> set rules \<Longrightarrow> r' \<in> set rules \<Longrightarrow> b @ preferred_suffix r \<in> set ts \<Longrightarrow> \<not> hides ts r' (b @ preferred_suffix r)"
  unfolding rules_apart_def hides_def by blast

lemma fold_rules:
  assumes "rules_apart (done @ rules) ts"
  shows "fold apply_rule rules (filter (\<lambda>t. \<forall>r\<in>set done. \<not> hides ts r t) ts) = filter (\<lambda>t. \<forall>r\<in>set (done @ rules). \<not> hides ts r t) ts"
  using assms
proof (induction rules arbitrary: "done")
  case (Cons r rules)
  let ?cur = "filter (\<lambda>t. \<forall>r\<in>set done. \<not> hides ts r t) ts"
  have "b @ preferred_suffix r \<in> set ?cur \<longleftrightarrow> b @ preferred_suffix r \<in> set ts" for b
    using apartD[OF Cons.prems, of r _ b] by auto
  then have "retained r ?cur t \<longleftrightarrow> \<not> hides ts r t" for t unfolding retained_iff hides_def by blast
  then have "apply_rule r ?cur = filter (\<lambda>t. \<forall>q\<in>set (done @ [r]). \<not> hides ts q t) ts"
    by (simp add: apply_rule_def conj_commute ball_Un)
  with Cons.IH[of "done @ [r]"] Cons.prems show ?case by simp
qed simp

text \<open>C37. Topic resolution. The result is sorted and without repetitions. When no preferred topic is itself suppressible
  (true of the built-in rule \<open>_load\<close> over \<open>_land\<close>), it is exactly the broker's topics that no rule hides, judged
  on the full list whatever the order of the rules, and that match an include pattern (or there is none) and no
  exclude pattern; and for every topic that a rule hides, the preferred sibling is still there before the patterns:
  suppression never removes a stream altogether.\<close>

theorem resolve_exact:
  assumes "resolve_topics is_match (Ok ts) r = Ok res"
  shows "sorted res \<and> distinct res \<and> (rules_apart (suppression_rules r) ts \<longrightarrow>
     set res = {t \<in> set ts. (\<forall>q\<in>set (suppression_rules r). \<not> hides ts q t)
        \<and> (include_patterns r = [] \<or> (\<exists>p\<in>set (include_patterns r). is_match p t)) \<and> \<not> (\<exists>p\<in>set (exclude_patterns r). is_match p t)}
     \<and> (\<forall>q\<in>set (suppression_rules r). \<forall>b. hides ts q (b @ suppressed_suffix q) \<longrightarrow>
          b @ preferred_suffix q \<in> set (apply_suppression_rules ts (suppression_rules r))))"
proof -
  let ?f = "\<lambda>t. passes_filters is_match t (include_patterns r) (exclude_patterns r)"
  have res: "res = dedup (sort (filter ?f (apply_suppression_rules ts (suppression_rules r))))" using assms by (simp add: resolve_topics_def)
  have "sorted res \<and> distinct res" unfolding res by (rule dedup_sorted) simp
  moreover have sup: "apply_suppression_rules ts (suppression_rules r) = filter (\<lambda>t. \<forall>q\<in>set (suppression_rules r). \<not> hides ts q t) ts"
    if "rules_apart (suppression_rules r) ts"
    using fold_rules[of "[]" "suppression_rules r" ts] that by (simp add: apply_suppression_rules_def)
  moreover have "?f t \<longleftrightarrow> (include_patterns r = [] \<or> (\<exists>p\<in>set (include_patterns r). is_match p t)) \<and> \<not> (\<exists>p\<in>set (exclude_patterns r). is_match p t)" for t
    by (simp add: passes_filters_def)
  moreover have "b @ preferred_suffix q \<in> set (filter (\<lambda>t. \<forall>q\<in>set (suppression_rules r). \<not> hides ts q t) ts)"
    if "rules_apart (suppression_rules r) ts" "q \<in> set (suppression_rules r)" "hides ts q (b @ suppressed_suffix q)" for q b
    using that(3) apartD[OF that(1,2), of _ b] by (auto simp: hides_def)
  ultimately show ?thesis unfolding res by auto
qed

definition demo_resolver :: "string topic_resolver" where
  "demo_resolver = \<lparr>suppression_rules = [\<lparr>preferred_suffix = ''_load'', suppressed_suffix = ''_land''\<rparr>], include_patterns = [], exclude_patterns = [''x'']\<rparr>"

theorem resolve_exact_witness:
  "set (dedup (sort (filter (\<lambda>t. passes_filters (=) t [] [''x'']) (apply_suppression_rules [''b_load'', ''b_land'', ''x'', ''a_land''] (suppression_rules demo_resolver)))))
    = {t \<in> {''b_load'', ''b_land'', ''x'', ''a_land''}. \<not> hides [''b_load'', ''b_land'', ''x'', ''a_land''] \<lparr>preferred_suffix = ''_load'', suppressed_suffix = ''_land''\<rparr> t \<and> t \<noteq> ''x''}"
  using resolve_exact[of "(=)" "[''b_load'', ''b_land'', ''x'', ''a_land'']" demo_resolver, OF
      resolve_topics_def[of "(=)" "Ok [''b_load'', ''b_land'', ''x'', ''a_land'']" demo_resolver, unfolded sum.case]]
    default_rule_apart[of "[''b_load'', ''b_land'', ''x'', ''a_land'']"]
  by (auto simp: demo_resolver_def)

text \<open>A rule whose two suffixes are the same hides every topic with that suffix.\<close>

lemma same_suffix_hides_all:
  "preferred_suffix r = suppressed_suffix r \<Longrightarrow> apply_suppression_rules ts [r] = filter (\<lambda>t. strip_suffix (suppressed_suffix r) t = None) ts"
  by (auto simp: apply_suppression_rules_def apply_rule_def retained_iff intro!: filter_cong)
    (metis not_None_eq strip_suffix_iff)+

subsection \<open>The refresh loop\<close>

definition seen_inv :: "topic_refresh \<Rightarrow> bool" where
  "seen_inv h \<longleftrightarrow> tr_changed h \<or> tr_value h = tr_last_seen h"

fun latest :: "string list \<Rightarrow> refresh_op list \<Rightarrow> string list" where
  "latest ts [] = ts"
| "latest ts (Tick (Inr us) # xs) = latest us xs"
| "latest ts (_ # xs) = latest ts xs"

lemma refresh_run_inv:
  assumes "refresh_run xs h = (h', outs)" and "seen_inv h"
  shows "seen_inv h' \<and> tr_value h' = latest (tr_value h) xs \<and> distinct_adj (tr_last_seen h # outs) \<and> tr_last_seen h' = last (tr_last_seen h # outs)"
  using assms
proof (induction xs h arbitrary: outs rule: refresh_run.induct)
  case (2 r xs h)
  have "seen_inv (refresh_tick r h)" using "2.prems"(2) by (cases r) (simp_all add: refresh_tick_def seen_inv_def)
  moreover have "refresh_run xs (refresh_tick r h) = (h', outs)" using "2.prems"(1) by simp
  ultimately show ?case using "2.IH" by (cases r) (simp_all add: refresh_tick_def)
next
  case (3 xs h)
  obtain h1 x where c: "check_changed h = (h1, x)" by (cases "check_changed h")
  obtain os where r: "refresh_run xs h1 = (h', os)" "outs = (case x of None \<Rightarrow> os | Some ts \<Rightarrow> ts # os)"
    using "3.prems"(1) c by (auto split: prod.splits)
  have h1: "seen_inv h1" "tr_value h1 = tr_value h" "case x of None \<Rightarrow> h1 = h | Some ts \<Rightarrow> ts = tr_value h \<and> ts \<noteq> tr_last_seen h \<and> tr_last_seen h1 = ts"
    using c "3.prems"(2) by (auto simp: check_changed_def seen_inv_def split: if_splits)
  from "3.IH"[OF c[symmetric] r(1) h1(1)] h1 r(2) show ?case by (cases x) auto
qed simp

text \<open>The consumer of the refresh loop: every list it is notified of differs from the one before, a failed refresh
  changes nothing, and a check brings it to the last list that was resolved successfully.\<close>

lemma refresh_converges:
  assumes "refresh_run (xs @ [Check]) (refresh_start r0) = (h', outs)"
  shows "tr_last_seen h' = latest (tr_value (refresh_start r0)) xs \<and> distinct_adj (tr_value (refresh_start r0) # outs)"
proof -
  have app: "refresh_run (ys @ [Check]) h = (h', os) \<Longrightarrow> tr_last_seen h' = tr_value h'" if "seen_inv h" for ys h os
    using that
  proof (induction ys h arbitrary: os rule: refresh_run.induct)
    case (1 h)
    then show ?case by (auto simp: check_changed_def seen_inv_def split: if_splits)
  next
    case (2 r xs h)
    then show ?case by (cases r) (simp_all add: refresh_tick_def seen_inv_def)
  next
    case (3 xs h)
    obtain h1 x where c: "check_changed h = (h1, x)" by (cases "check_changed h")
    then have "seen_inv h1" using "3.prems"(2) by (auto simp: check_changed_def seen_inv_def split: if_splits)
    with "3.IH"[OF c[symmetric]] "3.prems" c show ?case by (auto split: prod.splits)
  qed
  have i: "seen_inv (refresh_start r0)" by (simp add: refresh_start_def seen_inv_def Let_def)
  have l: "latest ts (xs @ [Check]) = latest ts xs" for ts by (induction ts xs rule: latest.induct) auto
  from refresh_run_inv[OF assms i] app[OF i assms] show ?thesis by (simp add: l) (simp add: refresh_start_def Let_def)
qed

end
