(* ===== verification/Accumulator.thy ===== *)
theory Accumulator
  imports Work_Batch
begin

text \<open>
  \<open>src/worker/accumulator.rs\<close> and \<open>src/worker/ndjson.rs\<close>: the bounded batch accumulator
  between push-ingest handlers and the engine, and the line splitter. Producers, the clock
  and the drainer act on one state; a call of \<open>next_batch\<close> is open while it waits, and each
  \<open>AcSelect\<close> is one turn of its biased \<open>select!\<close>. The channel is tokio's bounded mpsc: a queue
  with a capacity that hands over in order. Byte counts are \<open>usize\<close> and wrap. The histories of
  accepted items and returned batches (marked \<open>False\<close> when they come from the final drain)
  are kept beside the state.
\<close>

subsection \<open>State and operations\<close>

record accumulator_config =
  channel_capacity :: nat
  acc_max_items :: nat
  acc_max_bytes :: u64
  max_wait :: nat

definition accumulator_config_default :: accumulator_config where
  "accumulator_config_default = \<lparr>channel_capacity = 10000, acc_max_items = 100, acc_max_bytes = 1024 * 1024, max_wait = 10\<rparr>"

record 'a accumulator =
  acc_queue :: "('a \<times> u64) list"
  acc_closed :: bool
  acc_buffer :: "('a \<times> u64) list"
  buffer_bytes :: u64
  acc_now :: nat
  waiting_until :: "nat option"
  accepted :: "'a list"
  returned :: "(bool \<times> ('a \<times> u64) list) list"

text \<open>\<open>None\<close> is the panic of a channel of capacity zero.\<close>

definition acc_new :: "accumulator_config \<Rightarrow> 'a accumulator option" where
  "acc_new c = (if channel_capacity c = 0 then None
     else Some \<lparr>acc_queue = [], acc_closed = False, acc_buffer = [], buffer_bytes = 0, acc_now = 0, waiting_until = None,
       accepted = [], returned = []\<rparr>)"

definition acc_push :: "accumulator_config \<Rightarrow> 'a \<Rightarrow> u64 \<Rightarrow> 'a accumulator \<Rightarrow> 'a accumulator \<times> (unit, nat) result" where
  "acc_push c x sz s =
     (if length (acc_queue s) < channel_capacity c
      then (s\<lparr>acc_queue := acc_queue s @ [(x, sz)], accepted := accepted s @ [x]\<rparr>, Ok ())
      else (s, Err (channel_capacity c)))"

definition threshold_met :: "accumulator_config \<Rightarrow> 'a accumulator \<Rightarrow> bool" where
  "threshold_met c s \<longleftrightarrow> acc_max_items c \<le> length (acc_buffer s) \<or> acc_max_bytes c \<le> buffer_bytes s"

definition take_buffer :: "'a accumulator \<Rightarrow> 'a accumulator \<times> ('a \<times> u64) list" where
  "take_buffer s = (s\<lparr>buffer_bytes := 0, acc_buffer := []\<rparr>, acc_buffer s)"

text \<open>\<open>next_batch\<close> returns the buffer; the call is over.\<close>

definition return_batch :: "'a accumulator \<Rightarrow> 'a accumulator" where
  "return_batch s = (case take_buffer s of (s', b) \<Rightarrow> s'\<lparr>waiting_until := None, returned := returned s @ [(True, b)]\<rparr>)"

definition buffer_item :: "'a \<times> u64 \<Rightarrow> 'a accumulator \<Rightarrow> 'a accumulator" where
  "buffer_item i s = s\<lparr>buffer_bytes := buffer_bytes s + snd i, acc_buffer := acc_buffer s @ [i]\<rparr>"

definition next_batch_call :: "accumulator_config \<Rightarrow> 'a accumulator \<Rightarrow> 'a accumulator" where
  "next_batch_call c s =
     (if threshold_met c s then return_batch s
      else s\<lparr>waiting_until := Some (acc_now s + max_wait c)\<rparr>)"

definition next_batch_select :: "accumulator_config \<Rightarrow> 'a accumulator \<Rightarrow> 'a accumulator" where
  "next_batch_select c s =
     (case waiting_until s of
        None \<Rightarrow> s
      | Some deadline \<Rightarrow>
          if deadline \<le> acc_now s then
            (if acc_buffer s = [] then s\<lparr>waiting_until := Some (acc_now s + max_wait c)\<rparr>
             else return_batch s)
          else (case acc_queue s of
              i # q \<Rightarrow>
                (let s' = buffer_item i (s\<lparr>acc_queue := q\<rparr>) in
                 if threshold_met c s' then return_batch s' else s')
            | [] \<Rightarrow> if acc_closed s then return_batch s else s))"

fun drain_channel :: "('a \<times> u64) list \<Rightarrow> 'a accumulator \<Rightarrow> 'a accumulator" where
  "drain_channel [] s = s"
| "drain_channel (i # q) s = drain_channel q (buffer_item i (s\<lparr>acc_queue := q\<rparr>))"

definition drain_remaining :: "'a accumulator \<Rightarrow> 'a accumulator \<times> ('a \<times> u64) list" where
  "drain_remaining s = take_buffer (drain_channel (acc_queue s) s)"

text \<open>What can happen: a push, time passing, a call of \<open>next_batch\<close>, a turn of its select, the
  caller dropping the call, the last producer going away, and the final drain. The drainer is
  borrowed while a call is open, and producers are gone once the channel is closed.\<close>

datatype 'a acc_op = AcPush 'a u64 | AcAdvance nat | AcCall | AcSelect | AcAbandon | AcClose | AcDrain

fun acc_step :: "accumulator_config \<Rightarrow> 'a acc_op \<Rightarrow> 'a accumulator \<Rightarrow> 'a accumulator" where
  "acc_step c (AcPush x sz) s = (if acc_closed s then s else fst (acc_push c x sz s))"
| "acc_step c (AcAdvance n) s = s\<lparr>acc_now := acc_now s + n\<rparr>"
| "acc_step c AcCall s = (if waiting_until s = None then next_batch_call c s else s)"
| "acc_step c AcSelect s = next_batch_select c s"
| "acc_step c AcAbandon s = s\<lparr>waiting_until := None\<rparr>"
| "acc_step c AcClose s = s\<lparr>acc_closed := True\<rparr>"
| "acc_step c AcDrain s = (if waiting_until s = None
     then (case drain_remaining s of (s', b) \<Rightarrow> s'\<lparr>returned := returned s @ [(False, b)]\<rparr>) else s)"

definition acc_run :: "accumulator_config \<Rightarrow> 'a acc_op list \<Rightarrow> 'a accumulator \<Rightarrow> 'a accumulator" where
  "acc_run c ops s = fold (acc_step c) ops s"

lemmas acc_defs = acc_push_def threshold_met_def take_buffer_def return_batch_def buffer_item_def next_batch_call_def
  next_batch_select_def drain_remaining_def

lemma drain_channel_eq:
  "acc_queue s = q \<Longrightarrow> drain_channel q s =
     s\<lparr>acc_queue := [], acc_buffer := acc_buffer s @ q, buffer_bytes := buffer_bytes s + sum_list (map snd q)\<rparr>"
  by (induction q arbitrary: s) (simp_all add: buffer_item_def add.assoc)

subsection \<open>What the drainer returns\<close>

definition batch_fits :: "accumulator_config \<Rightarrow> ('a \<times> u64) list \<Rightarrow> bool" where
  "batch_fits c b \<longleftrightarrow> length b \<le> max 1 (acc_max_items c) \<and>
     (1 < length b \<longrightarrow> sum_list (map snd (butlast b)) < acc_max_bytes c)"

definition acc_inv :: "accumulator_config \<Rightarrow> 'a accumulator \<Rightarrow> bool" where
  "acc_inv c s \<longleftrightarrow> accepted s = map fst (concat (map snd (returned s)) @ acc_buffer s @ acc_queue s)
     \<and> buffer_bytes s = sum_list (map snd (acc_buffer s))
     \<and> (acc_buffer s = [] \<or> \<not> threshold_met c s) \<and> batch_fits c (acc_buffer s)
     \<and> (\<forall>b. (True, b) \<in> set (returned s) \<longrightarrow> batch_fits c b)
     \<and> length (acc_queue s) \<le> channel_capacity c
     \<and> (0 < acc_max_items c \<longrightarrow> 0 < acc_max_bytes c \<longrightarrow> (True, []) \<in> set (returned s) \<longrightarrow>
          acc_closed s \<and> acc_queue s = [] \<and> acc_buffer s = [])
     \<and> (\<forall>d. waiting_until s = Some d \<longrightarrow> d \<le> acc_now s + max_wait c)"

lemma acc_new_inv: "acc_new c = Some s \<Longrightarrow> acc_inv c s"
  by (auto simp: acc_new_def acc_inv_def batch_fits_def split: if_splits)

lemma below_threshold_fits:
  assumes "acc_inv c s" shows "batch_fits c (acc_buffer s @ [i])"
  using assms by (auto simp: acc_inv_def batch_fits_def threshold_met_def)

lemma return_inv:
  assumes "acc_inv c s" and "acc_buffer s = [] \<Longrightarrow> 0 < acc_max_items c \<Longrightarrow> 0 < acc_max_bytes c \<Longrightarrow> acc_closed s \<and> acc_queue s = []"
  shows "acc_inv c (return_batch s)"
  using assms by (auto simp: acc_inv_def return_batch_def take_buffer_def batch_fits_def)

lemma return_full_inv:
  assumes "acc_inv c (s\<lparr>acc_queue := i # q\<rparr>)" and "waiting_until s = Some d"
  shows "acc_inv c (let s' = buffer_item i (s\<lparr>acc_queue := q\<rparr>) in if threshold_met c s' then return_batch s' else s')"
proof -
  have "batch_fits c (acc_buffer s @ [i])" using below_threshold_fits [OF assms(1)] by simp
  then show ?thesis using assms
    by (auto simp: acc_inv_def return_batch_def take_buffer_def buffer_item_def batch_fits_def [of c "[]"] Let_def)
qed

lemma select_inv:
  assumes "acc_inv c s" shows "acc_inv c (next_batch_select c s)"
proof (cases "waiting_until s")
  case (Some d)
  consider (timer) "d \<le> acc_now s" | (item) i q where "\<not> d \<le> acc_now s" "acc_queue s = i # q"
    | (closed) "\<not> d \<le> acc_now s" "acc_queue s = []" by (cases "acc_queue s") auto
  then show ?thesis
  proof cases
    case timer
    show ?thesis
    proof (cases "acc_buffer s = []")
      case True
      then show ?thesis using timer assms Some by (auto simp: next_batch_select_def acc_inv_def threshold_met_def)
    next
      case False
      then show ?thesis using timer Some return_inv [OF assms] by (simp add: next_batch_select_def)
    qed
  next
    case item
    then have "s\<lparr>acc_queue := i # q\<rparr> = s" by simp
    then have "acc_inv c (s\<lparr>acc_queue := i # q\<rparr>)" using assms by metis
    from return_full_inv [OF this Some] show ?thesis using Some item by (simp add: next_batch_select_def)
  next
    case closed
    then show ?thesis using assms Some return_inv [OF assms] by (simp add: next_batch_select_def)
  qed
qed (use assms in \<open>simp add: next_batch_select_def\<close>)

lemma call_inv:
  assumes "acc_inv c s" shows "acc_inv c (next_batch_call c s)"
proof (cases "threshold_met c s")
  case True
  then have "acc_buffer s = []" "\<not> (0 < acc_max_items c \<and> 0 < acc_max_bytes c)"
    using assms by (auto simp: acc_inv_def threshold_met_def)
  then have "acc_inv c (return_batch s)" by (intro return_inv [OF assms]) auto
  then show ?thesis using True by (simp add: next_batch_call_def)
qed (use assms in \<open>auto simp: next_batch_call_def acc_inv_def threshold_met_def\<close>)

lemma drain_inv:
  assumes "acc_inv c s" and "drain_remaining s = (s', b)"
  shows "acc_inv c (s'\<lparr>returned := returned s @ [(False, b)]\<rparr>)"
  using assms by (auto simp: acc_inv_def drain_remaining_def take_buffer_def drain_channel_eq batch_fits_def)

lemma acc_step_inv: "acc_inv c s \<Longrightarrow> acc_inv c (acc_step c op s)"
proof (cases op)
  case (AcPush x sz)
  assume "acc_inv c s"
  then show ?thesis using AcPush by (auto simp: acc_inv_def acc_push_def threshold_met_def)
next
  case (AcAdvance n)
  assume "acc_inv c s"
  then show ?thesis using AcAdvance by (auto simp: acc_inv_def threshold_met_def trans_le_add1)
next
  case AcDrain
  assume "acc_inv c s"
  then show ?thesis using AcDrain drain_inv [of c s] by (cases "drain_remaining s") auto
qed (auto simp: call_inv select_inv, auto simp: acc_inv_def threshold_met_def)

lemma acc_run_inv: "acc_inv c s \<Longrightarrow> acc_inv c (acc_run c ops s)"
  unfolding acc_run_def by (induction ops arbitrary: s) (auto simp: acc_step_inv)

text \<open>C28. The accumulator neither loses, duplicates nor reorders: after any sequence of pushes,
  calls, turns of the select, dropped calls, closing and draining, the items accepted so far
  are those returned in batches, those in the buffer and those in the channel, in acceptance
  order. Every batch a call returned has at most \<open>acc_max_items\<close> items (one at least is allowed)
  and was below the byte threshold before its last item; and, with both thresholds
  positive, a call answers with the empty batch only when every producer is gone and
  everything accepted has been returned.\<close>

theorem accumulator_exact:
  assumes "acc_new c = Some s0" and "s = acc_run c ops s0"
  shows "accepted s = map fst (concat (map snd (returned s)) @ acc_buffer s @ acc_queue s)
    \<and> (\<forall>b. (True, b) \<in> set (returned s) \<longrightarrow> batch_fits c b)
    \<and> (0 < acc_max_items c \<and> 0 < acc_max_bytes c \<and> (True, []) \<in> set (returned s) \<longrightarrow>
         acc_closed s \<and> accepted s = map fst (concat (map snd (returned s))))"
  using acc_run_inv [OF acc_new_inv [OF assms(1)], of ops] unfolding assms(2) by (auto simp: acc_inv_def)

definition demo_acc_config :: accumulator_config where
  "demo_acc_config = \<lparr>channel_capacity = 4, acc_max_items = 2, acc_max_bytes = 100, max_wait = 10\<rparr>"

definition demo_acc_ops :: "nat acc_op list" where
  "demo_acc_ops = [AcPush 1 10, AcPush 2 10, AcPush 3 10, AcCall, AcSelect, AcSelect, AcClose, AcCall, AcSelect, AcSelect, AcCall, AcSelect]"

theorem accumulator_exact_witness:
  "accepted (acc_run demo_acc_config demo_acc_ops (the (acc_new demo_acc_config))) = [1, 2, 3]"
proof -
  let ?s = "acc_run demo_acc_config demo_acc_ops (the (acc_new demo_acc_config))"
  have "acc_new demo_acc_config = Some (the (acc_new demo_acc_config) :: nat accumulator)"
    by (simp add: acc_new_def demo_acc_config_def)
  from accumulator_exact [OF this, of ?s demo_acc_ops] show ?thesis
    by (simp add: acc_run_def demo_acc_ops_def demo_acc_config_def acc_new_def acc_defs)
qed

subsection \<open>The flush deadline\<close>

fun ingest_op :: "'a acc_op \<Rightarrow> bool" where
  "ingest_op (AcPush _ _) = True"
| "ingest_op (AcAdvance _) = True"
| "ingest_op AcSelect = True"
| "ingest_op AcClose = True"
| "ingest_op _ = False"

text \<open>The call opened with deadline \<open>d\<close> still waits on the items \<open>b\<close>, or has returned them.\<close>

definition still_due :: "nat \<Rightarrow> ('a \<times> u64) list \<Rightarrow> 'a accumulator \<Rightarrow> bool" where
  "still_due d b s \<longleftrightarrow> waiting_until s = Some d \<and> b \<noteq> [] \<and> prefix b (acc_buffer s)"

definition gave_back :: "('a \<times> u64) list \<Rightarrow> 'a accumulator \<Rightarrow> 'a accumulator \<Rightarrow> bool" where
  "gave_back b s s' \<longleftrightarrow> (\<exists>b' rest. returned s' = returned s @ (True, b') # rest \<and> prefix b b')"

lemma gave_back_mono: "gave_back b s s' \<Longrightarrow> ingest_op op \<Longrightarrow> gave_back b s (acc_step c op s')"
  by (cases op) (auto simp: gave_back_def acc_defs Let_def split: option.splits list.splits)

lemma still_due_step:
  assumes "still_due d b s" and "ingest_op op"
  shows "if op = AcSelect \<and> d \<le> acc_now s then gave_back b s (acc_step c op s)
    else gave_back b s (acc_step c op s) \<or> (still_due d b (acc_step c op s) \<and> returned (acc_step c op s) = returned s)"
  using assms by (cases op) (auto simp: still_due_def gave_back_def acc_defs Let_def split: option.splits list.splits)

lemma due_run:
  assumes "still_due d b s" and "list_all ingest_op ops"
  shows "gave_back b s (acc_run c ops s) \<or> (still_due d b (acc_run c ops s) \<and> returned (acc_run c ops s) = returned s)"
  using assms(2)
proof (induction ops rule: rev_induct)
  case (snoc op ops)
  let ?t = "acc_run c ops s"
  have run: "acc_run c (ops @ [op]) s = acc_step c op ?t" by (simp add: acc_run_def)
  have op: "ingest_op op" using snoc.prems by simp
  from snoc consider "gave_back b s ?t" | "still_due d b ?t" "returned ?t = returned s" by auto
  then show ?case
  proof cases
    case 2
    have "gave_back b ?t x = gave_back b s x" for x by (simp add: gave_back_def 2(2))
    then show ?thesis using still_due_step [OF 2(1) op, of c] 2(2) run by (auto split: if_splits)
  next
    case 1
    then show ?thesis using gave_back_mono [OF 1 op, of c] run by simp
  qed
qed (use assms(1) in \<open>simp add: acc_run_def\<close>)

text \<open>A trickle of arrivals cannot defer a flush: once an open call has buffered something,
  its deadline is at most \<open>max_wait\<close> away and no later push, arrival or passing of time moves
  it; the first turn of the select at or after the deadline, if not an earlier one, returns
  a batch that begins with what was buffered.\<close>

theorem trickle_cannot_defer:
  assumes "acc_new c = Some s0" and "s = acc_run c before s0" and "waiting_until s = Some d" and "acc_buffer s \<noteq> []"
    and "list_all ingest_op ops" and "d \<le> acc_now (acc_run c ops s)"
  shows "d \<le> acc_now s + max_wait c \<and> gave_back (acc_buffer s) s (acc_run c (ops @ [AcSelect]) s)"
proof -
  let ?t = "acc_run c ops s"
  have run: "acc_run c (ops @ [AcSelect]) s = acc_step c AcSelect ?t" by (simp add: acc_run_def)
  have inv: "acc_inv c s" using acc_run_inv [OF acc_new_inv [OF assms(1)]] assms(2) by simp
  have due: "still_due d (acc_buffer s) s" using assms(3,4) by (simp add: still_due_def)
  have "gave_back (acc_buffer s) s (acc_step c AcSelect ?t)"
  proof (cases "gave_back (acc_buffer s) s ?t")
    case True
    then show ?thesis by (intro gave_back_mono) auto
  next
    case False
    with due_run [OF due assms(5), of c] have *: "still_due d (acc_buffer s) ?t" "returned ?t = returned s" by auto
    from still_due_step [OF *(1), of AcSelect c] assms(6) have "gave_back (acc_buffer s) ?t (acc_step c AcSelect ?t)" by simp
    then show ?thesis by (simp only: gave_back_def *(2))
  qed
  then show ?thesis using inv assms(3) run by (simp add: acc_inv_def)
qed

theorem trickle_cannot_defer_witness:
  "let s = acc_run demo_acc_config [AcPush 1 10, AcCall, AcSelect] (the (acc_new demo_acc_config) :: nat accumulator)
   in gave_back (acc_buffer s) s (acc_run demo_acc_config ([AcAdvance 9, AcPush 2 5, AcAdvance 1] @ [AcSelect]) s)"
proof -
  let ?s0 = "the (acc_new demo_acc_config) :: nat accumulator"
  let ?pre = "[AcPush 1 10, AcCall, AcSelect] :: nat acc_op list"
  let ?ops = "[AcAdvance 9, AcPush 2 5, AcAdvance 1] :: nat acc_op list"
  have new: "acc_new demo_acc_config = Some ?s0" by (simp add: acc_new_def demo_acc_config_def)
  have s: "waiting_until (acc_run demo_acc_config ?pre ?s0) = Some 10" "acc_buffer (acc_run demo_acc_config ?pre ?s0) \<noteq> []"
      "acc_now (acc_run demo_acc_config ?ops (acc_run demo_acc_config ?pre ?s0)) = 10"
    by (simp_all add: acc_run_def demo_acc_config_def acc_new_def acc_defs)
  show ?thesis using trickle_cannot_defer [OF new refl s(1,2), of ?ops] s(3) by (simp add: Let_def)
qed

text \<open>With \<open>acc_max_items\<close> (or \<open>max_bytes\<close>) zero a call answers at once with an empty batch, which
  the drain loop of the module documentation reads as shutdown.\<close>

lemma zero_threshold_looks_closed:
  assumes "acc_max_items c = 0" and "acc_new c = Some s"
  shows "returned (acc_step c AcCall (acc_step c (AcPush x sz) s)) = [(True, [])] \<and> \<not> acc_closed s"
  using assms by (auto simp: acc_new_def acc_defs split: if_splits)

subsection \<open>NDJSON lines\<close>

text \<open>\<open>split_lines\<close> walks the payload once, with the offset of the current line's start.\<close>

fun split_loop :: "bytes \<Rightarrow> bytes \<Rightarrow> nat \<Rightarrow> nat \<Rightarrow> bytes list \<Rightarrow> bytes list \<times> nat" where
  "split_loop p [] i start lines = (lines, start)"
| "split_loop p (b # bs) i start lines =
     (if b = 0x0a then
        (let e = (if start < i \<and> p ! (i - 1) = 0x0d then i - 1 else i)
         in split_loop p bs (Suc i) (Suc i) (if start < e then lines @ [byte_slice p start e] else lines))
      else split_loop p bs (Suc i) start lines)"

definition split_lines :: "bytes \<Rightarrow> bytes list" where
  "split_lines p = (case split_loop p p 0 0 [] of (lines, start) \<Rightarrow>
     if start < length p then
       (let e = (if p ! (length p - 1) = 0x0d then length p - 1 else length p)
        in if start < e then lines @ [byte_slice p start e] else lines)
     else lines)"

definition count_lines :: "bytes \<Rightarrow> nat" where
  "count_lines p = (if p = [] then 0
     else length (filter (\<lambda>b. b = 0x0a) p) + (if last p \<noteq> 0x0a then 1 else 0))"

text \<open>The reference: cut at every line feed, drop one carriage return at the end of each piece,
  leave out the empty pieces.\<close>

fun pieces :: "bytes \<Rightarrow> bytes \<Rightarrow> bytes list" where
  "pieces cur [] = [cur]"
| "pieces cur (b # bs) = (if b = 0x0a then cur # pieces [] bs else pieces (cur @ [b]) bs)"

definition strip_cr :: "bytes \<Rightarrow> bytes" where
  "strip_cr l = (if l \<noteq> [] \<and> last l = 0x0d then butlast l else l)"

definition nonempty_lines :: "bytes list \<Rightarrow> bytes list" where
  "nonempty_lines ps = filter (\<lambda>l. l \<noteq> []) (map strip_cr ps)"

lemma nonempty_lines_Cons: "nonempty_lines (l # ps) = (if strip_cr l = [] then [] else [strip_cr l]) @ nonempty_lines ps"
  by (simp add: nonempty_lines_def)

lemma slice_last_byte: "start < i \<Longrightarrow> i \<le> length p \<Longrightarrow> byte_slice p start i \<noteq> [] \<and> last (byte_slice p start i) = p ! (i - 1)
    \<and> butlast (byte_slice p start i) = byte_slice p start (i - 1)"
  using slice_snoc [of start "i - 1" p] by (cases i) auto

lemma slice_not_empty: "start < i \<Longrightarrow> i \<le> length p \<Longrightarrow> byte_slice p start i \<noteq> []"
  using slice_last_byte by blast

lemma cut_line:
  assumes "start \<le> i" and "i \<le> length p" and "e = (if start < i \<and> p ! (i - 1) = 0x0d then i - 1 else i)"
  shows "(if start < e then [byte_slice p start e] else []) =
    (if strip_cr (byte_slice p start i) = [] then [] else [strip_cr (byte_slice p start i)])"
proof (cases "start < i")
  case True
  note l = slice_last_byte [OF True assms(2)]
  have "byte_slice p start (i - 1) \<noteq> [] \<longleftrightarrow> start < i - 1"
    using slice_not_empty [of start "i - 1" p] assms(2) by (cases "start < i - 1") auto
  then show ?thesis using l True assms(3) by (auto simp: strip_cr_def)
qed (use assms in \<open>auto simp: strip_cr_def\<close>)

lemma split_loop_spec:
  assumes "start \<le> i" and "i \<le> length p" and "split_loop p (drop i p) i start lines = (lines', start')"
  shows "start' \<le> length p \<and> lines @ nonempty_lines (pieces (byte_slice p start i) (drop i p)) =
    lines' @ nonempty_lines [byte_slice p start' (length p)]"
  using assms
proof (induction "length p - i" arbitrary: i start lines)
  case 0
  then show ?case by simp
next
  case (Suc n)
  then have i: "i < length p" by linarith
  have d: "drop i p = p ! i # drop (Suc i) p" using i by (simp add: Cons_nth_drop_Suc)
  show ?case
  proof (cases "p ! i = 0x0a")
    case True
    let ?e = "if start < i \<and> p ! (i - 1) = 0x0d then i - 1 else i"
    let ?l = "if start < ?e then lines @ [byte_slice p start ?e] else lines"
    have run: "split_loop p (drop (Suc i) p) (Suc i) (Suc i) ?l = (lines', start')"
      using Suc.prems(3) True unfolding d by (simp only: split_loop.simps Let_def simp_thms if_True)
    from Suc.hyps(1) [OF _ _ _ run] i Suc.hyps(2)
    have "start' \<le> length p \<and> ?l @ nonempty_lines (pieces [] (drop (Suc i) p)) =
        lines' @ nonempty_lines [byte_slice p start' (length p)]" by simp
    moreover have "?l = lines @ (if strip_cr (byte_slice p start i) = [] then [] else [strip_cr (byte_slice p start i)])"
      using cut_line [OF Suc.prems(1,2) refl] by (auto split: if_splits)
    ultimately show ?thesis using True by (simp add: d nonempty_lines_Cons)
  next
    case False
    have run: "split_loop p (drop (Suc i) p) (Suc i) start lines = (lines', start')"
      using Suc.prems(3) False by (simp add: d)
    have s: "byte_slice p start (Suc i) = byte_slice p start i @ [p ! i]" by (rule slice_snoc [OF Suc.prems(1) i])
    from Suc.hyps(1) [OF _ _ _ run] i Suc.hyps(2) Suc.prems(1) show ?thesis using False by (simp add: d s)
  qed
qed

lemma pieces_length: "length (pieces cur bs) = Suc (length (filter (\<lambda>b. b = 0x0a) bs))"
  by (induction cur bs rule: pieces.induct) auto

text \<open>The one-pass splitter equals the reference that cuts at line feeds, drops a trailing
  carriage return of each piece and leaves out empty pieces; and \<open>count_lines\<close> never
  under-counts, so a buffer sized by it holds every line.\<close>

theorem split_lines_exact:
  "split_lines p = nonempty_lines (pieces [] p) \<and> length (split_lines p) \<le> count_lines p"
proof -
  obtain lines start where r: "split_loop p p 0 0 [] = (lines, start)" by fastforce
  from split_loop_spec [of 0 0 p "[]" lines start] r
  have st: "start \<le> length p" and eq: "nonempty_lines (pieces [] p) = lines @ nonempty_lines [byte_slice p start (length p)]"
    by simp_all
  have e1: "split_lines p = nonempty_lines (pieces [] p)"
  proof (cases "start < length p")
    case True
    show ?thesis using True cut_line [OF st order_refl refl] eq r
      by (auto simp: split_lines_def nonempty_lines_def Let_def split: if_splits)
  next
    case False
    with st have "start = length p" by simp
    then show ?thesis using eq r by (simp add: split_lines_def nonempty_lines_def strip_cr_def)
  qed
  moreover have "length (nonempty_lines (pieces [] p)) \<le> count_lines p"
  proof (cases "p = [] \<or> last p \<noteq> 0x0a")
    case True
    have "length (nonempty_lines (pieces [] p)) \<le> length (pieces [] p)"
      unfolding nonempty_lines_def by (metis length_filter_le length_map)
    then show ?thesis using True by (auto simp: pieces_length count_lines_def nonempty_lines_def strip_cr_def)
  next
    case False
    then obtain q where p: "p = q @ [0x0a]" by (metis append_butlast_last_id)
    have "pieces cur (q @ [0x0a]) = pieces cur q @ [[]]" for cur
      by (induction cur q rule: pieces.induct) auto
    then have "nonempty_lines (pieces [] p) = nonempty_lines (pieces [] q)"
      by (simp add: p nonempty_lines_def strip_cr_def)
    moreover have "length (nonempty_lines (pieces [] q)) \<le> length (pieces [] q)"
      unfolding nonempty_lines_def by (metis length_filter_le length_map)
    ultimately show ?thesis by (simp add: p pieces_length count_lines_def)
  qed
  ultimately show ?thesis by simp
qed

end
