(* ===== verification/Worker_Pool.thy ===== *)
theory Worker_Pool
  imports Memory_Guard
begin

text \<open>
  \<open>src/worker/pool.rs\<close>, \<open>scaler.rs\<close> and \<open>config.rs\<close>: the concurrency limiter of the worker
  pool with its condition variable, the watermark scaler that sets its target, and the two
  asynchronous fan-outs. The limiter is interleaved at the grain of its lock: a thread parks
  by releasing the lock in the same step, and a notification is sent after the lock has been
  released, so it is in flight for a while. The futures handed to the fan-outs are arguments.
\<close>

subsection \<open>Configuration\<close>

record worker_pool_config =
  min_threads :: nat
  max_threads :: nat
  grow_below :: f64
  shrink_above :: f64
  emergency_above :: f64
  memory_pressure_cap :: f64
  scale_interval_secs :: nat
  async_concurrency :: nat

datatype pool_config_error = MinAboveMax | GrowNotBelowShrink | ShrinkNotBelowEmergency | ZeroConcurrency | ZeroMinThreads

definition pool_validate :: "worker_pool_config \<Rightarrow> (unit, pool_config_error) result" where
  "pool_validate c =
     (if max_threads c \<noteq> 0 \<and> max_threads c < min_threads c then Err MinAboveMax
      else if f64_le (shrink_above c) (grow_below c) then Err GrowNotBelowShrink
      else if f64_le (emergency_above c) (shrink_above c) then Err ShrinkNotBelowEmergency
      else if async_concurrency c = 0 then Err ZeroConcurrency
      else if min_threads c = 0 then Err ZeroMinThreads
      else Ok ())"

definition resolve_max_threads :: "nat \<Rightarrow> worker_pool_config \<Rightarrow> worker_pool_config" where
  "resolve_max_threads available c =
     c\<lparr>max_threads := if max_threads c = 0 then available else min (max_threads c) available\<rparr>"

subsection \<open>The limiter\<close>

text \<open>\<open>parked\<close> threads wait on the condition variable, \<open>woken\<close> ones have been taken off it and
  want the lock back; \<open>note_one\<close> and \<open>note_all\<close> count the guard drops and target changes that
  have released the lock and not yet notified.\<close>

record semaphore =
  sem_target :: nat
  leased :: nat
  max_permits :: nat
  parked :: nat
  woken :: nat
  note_one :: nat
  note_all :: nat

definition clamp_nat :: "nat \<Rightarrow> nat \<Rightarrow> nat \<Rightarrow> nat" where
  "clamp_nat x lo hi = (if x < lo then lo else if hi < x then hi else x)"

definition sem_new :: "nat \<Rightarrow> nat \<Rightarrow> semaphore" where
  "sem_new initial_target max_p = (let m = max max_p 1 in
     \<lparr>sem_target = clamp_nat initial_target 1 m, leased = 0, max_permits = m, parked = 0, woken = 0, note_one = 0, note_all = 0\<rparr>)"

text \<open>\<open>acquire\<close> from the lock to the end of its loop condition: a lease, or parked.\<close>

definition acquire_check :: "semaphore \<Rightarrow> semaphore" where
  "acquire_check s = (if sem_target s \<le> leased s then s\<lparr>parked := parked s + 1\<rparr> else s\<lparr>leased := leased s + 1\<rparr>)"

definition set_target :: "nat \<Rightarrow> semaphore \<Rightarrow> semaphore" where
  "set_target t s = (let clamped = clamp_nat t 1 (max_permits s) in
     s\<lparr>sem_target := clamped, note_all := (if sem_target s < clamped then note_all s + 1 else note_all s)\<rparr>)"

definition guard_drop :: "semaphore \<Rightarrow> semaphore" where
  "guard_drop s = s\<lparr>leased := leased s - 1, note_one := note_one s + 1\<rparr>"

definition notify_one :: "semaphore \<Rightarrow> semaphore" where
  "notify_one s = (if 0 < parked s then s\<lparr>parked := parked s - 1, woken := woken s + 1, note_one := note_one s - 1\<rparr>
     else s\<lparr>note_one := note_one s - 1\<rparr>)"

definition notify_all :: "semaphore \<Rightarrow> semaphore" where
  "notify_all s = s\<lparr>parked := 0, woken := woken s + parked s, note_all := note_all s - 1\<rparr>"

definition sem_available :: "semaphore \<Rightarrow> nat" where
  "sem_available s = sem_target s - leased s"

inductive sem_step :: "semaphore \<Rightarrow> semaphore \<Rightarrow> bool" where
  st_acquire: "sem_step s (acquire_check s)"
| st_recheck: "0 < woken s \<Longrightarrow> sem_step s (acquire_check (s\<lparr>woken := woken s - 1\<rparr>))"
| st_spurious: "0 < parked s \<Longrightarrow> sem_step s (s\<lparr>parked := parked s - 1, woken := woken s + 1\<rparr>)"
| st_drop: "0 < leased s \<Longrightarrow> sem_step s (guard_drop s)"
| st_notify_one: "0 < note_one s \<Longrightarrow> sem_step s (notify_one s)"
| st_set_target: "sem_step s (set_target t s)"
| st_notify_all: "0 < note_all s \<Longrightarrow> sem_step s (notify_all s)"

inductive sem_reach :: "nat \<Rightarrow> nat \<Rightarrow> semaphore \<Rightarrow> bool" for i m where
  reach_new: "sem_reach i m (sem_new i m)"
| reach_step: "sem_reach i m s \<Longrightarrow> sem_step s s' \<Longrightarrow> sem_reach i m s'"

inductive_cases sem_stepE: "sem_step s s'"

lemmas sem_defs = acquire_check_def set_target_def guard_drop_def notify_one_def notify_all_def clamp_nat_def Let_def

definition sem_inv :: "semaphore \<Rightarrow> bool" where
  "sem_inv s \<longleftrightarrow> 1 \<le> sem_target s \<and> sem_target s \<le> max_permits s \<and> leased s \<le> max_permits s
     \<and> (0 < parked s \<longrightarrow> note_all s = 0 \<longrightarrow> sem_target s \<le> leased s + woken s + note_one s)"

lemma sem_new_inv: "sem_inv (sem_new i m)"
  by (auto simp: sem_inv_def sem_new_def clamp_nat_def Let_def max_def)

lemma sem_step_inv: "sem_step s s' \<Longrightarrow> sem_inv s \<Longrightarrow> sem_inv s'"
  by (erule sem_stepE) (auto simp: sem_inv_def sem_defs split: if_splits)

lemma sem_step_max: "sem_step s s' \<Longrightarrow> max_permits s' = max_permits s"
  by (erule sem_stepE) (auto simp: sem_defs)

lemma sem_reach_inv: "sem_reach i m s \<Longrightarrow> sem_inv s \<and> max_permits s = max m 1"
  by (induction rule: sem_reach.induct) (auto simp: sem_new_inv sem_step_inv sem_step_max, simp add: sem_new_def Let_def)

text \<open>C29. The limiter never over-admits and never loses a wake-up, under every interleaving of
  acquirers, guard drops, target changes, notifications and spurious wake-ups: a lease is
  granted only below the target, the leases never exceed the pool size, the target stays
  in its range, and when no notification is in flight and no woken thread is still on its
  way, a parked thread means that the target is exhausted.\<close>

theorem limiter_no_lost_wakeup:
  assumes "sem_reach i m s"
  shows "1 \<le> sem_target s \<and> sem_target s \<le> max m 1 \<and> leased s \<le> max m 1
    \<and> (\<forall>s'. sem_step s s' \<and> leased s < leased s' \<longrightarrow> leased s' = leased s + 1 \<and> leased s' \<le> sem_target s)
    \<and> (0 < parked s \<and> woken s = 0 \<and> note_one s = 0 \<and> note_all s = 0 \<longrightarrow> sem_available s = 0)"
proof -
  have inv: "sem_inv s" and m: "max_permits s = max m 1" using sem_reach_inv [OF assms] by auto
  have "leased s' = leased s + 1 \<and> leased s' \<le> sem_target s" if "sem_step s s'" "leased s < leased s'" for s'
    using that by (elim sem_stepE) (auto simp: sem_defs split: if_splits)
  moreover have "1 \<le> sem_target s \<and> sem_target s \<le> max m 1 \<and> leased s \<le> max m 1" using inv m by (auto simp: sem_inv_def)
  moreover have "0 < parked s \<and> woken s = 0 \<and> note_one s = 0 \<and> note_all s = 0 \<longrightarrow> sem_available s = 0"
    using inv by (auto simp: sem_inv_def sem_available_def)
  ultimately show ?thesis by blast
qed

theorem limiter_no_lost_wakeup_witness:
  "sem_available (acquire_check (acquire_check (sem_new 1 4))) = 0 \<and> 0 < parked (acquire_check (acquire_check (sem_new 1 4)))"
proof -
  have "sem_reach 1 4 (acquire_check (acquire_check (sem_new 1 4)))"
    by (intro reach_step [OF reach_step [OF reach_new st_acquire] st_acquire])
  from limiter_no_lost_wakeup [OF this] show ?thesis
    by (simp add: sem_new_def acquire_check_def clamp_nat_def Let_def)
qed

subsection \<open>The scaler\<close>

datatype direction = Up | Steady | Down | EmergencyDown | MemoryCap

record scaling_input =
  cpu_util :: f64
  in_memory_pressure :: f64
  in_current :: nat
  in_min :: nat
  in_max :: nat
  in_grow_below :: f64
  in_shrink_above :: f64
  in_emergency_above :: f64
  in_memory_cap :: f64

definition USIZE_MAX :: nat where "USIZE_MAX = 2 ^ 64 - 1"

text \<open>\<open>None\<close> is the panic of \<open>Ord::clamp\<close> on an empty range.\<close>

definition scale_evaluate :: "scaling_input \<Rightarrow> (nat \<times> direction) option" where
  "scale_evaluate inp =
     (if f64_lt (in_memory_cap inp) (in_memory_pressure inp) then Some (in_min inp, MemoryCap)
      else let (raw, dir) =
          (if f64_lt (cpu_util inp) (in_grow_below inp) then (min (in_current inp + 2) USIZE_MAX, Up)
           else if f64_le (cpu_util inp) (in_shrink_above inp) then (in_current inp, Steady)
           else if f64_le (cpu_util inp) (in_emergency_above inp) then (in_current inp - 1, Down)
           else (in_current inp - 2, EmergencyDown))
        in if in_max inp < in_min inp then None else Some (clamp_nat raw (in_min inp) (in_max inp), dir))"

record worker_pool =
  pool_config :: worker_pool_config
  pool_sem :: semaphore

definition pool_try_new :: "nat \<Rightarrow> worker_pool_config \<Rightarrow> (worker_pool, pool_config_error) result" where
  "pool_try_new available c = (let r = resolve_max_threads available c in
     case pool_validate r of
       Inl e \<Rightarrow> Err e
     | Inr _ \<Rightarrow> Ok \<lparr>pool_config = r, pool_sem = sem_new (min_threads r) (max_threads r)\<rparr>)"

text \<open>The memory signal: the attached guard, else the cgroup, else the host.\<close>

definition effective_memory_pressure :: "(u64 option \<times> memory_guard) option \<Rightarrow> f64 option \<Rightarrow> u64 \<Rightarrow> u64 \<Rightarrow> f64" where
  "effective_memory_pressure mg cgroup used host_total =
     (case mg of Some (heap, g) \<Rightarrow> pressure_ratio heap g
      | None \<Rightarrow> (case cgroup of Some p \<Rightarrow> p
          | None \<Rightarrow> if 0 < host_total then f64_div (f64_of_u64 used) (f64_of_u64 host_total) else Fin 0))"

definition input_of :: "worker_pool \<Rightarrow> f64 \<Rightarrow> f64 \<Rightarrow> scaling_input" where
  "input_of p cpu mem = (let c = pool_config p in
     \<lparr>cpu_util = cpu, in_memory_pressure = mem, in_current = sem_target (pool_sem p), in_min = min_threads c, in_max = max_threads c,
      in_grow_below = grow_below c, in_shrink_above = shrink_above c, in_emergency_above = emergency_above c,
      in_memory_cap = memory_pressure_cap c\<rparr>)"

definition scaler_tick :: "f64 \<Rightarrow> f64 \<Rightarrow> worker_pool \<Rightarrow> worker_pool option" where
  "scaler_tick cpu mem p = (case scale_evaluate (input_of p cpu mem) of
     None \<Rightarrow> None | Some (t, _) \<Rightarrow> Some (p\<lparr>pool_sem := set_target t (pool_sem p)\<rparr>))"

definition sized_ok :: "worker_pool_config \<Rightarrow> worker_pool \<Rightarrow> bool" where
  "sized_ok c p \<longleftrightarrow> pool_config p = c \<and> 0 < min_threads c \<and> min_threads c \<le> max_threads c \<and> max_threads c \<le> USIZE_MAX
     \<and> max_permits (pool_sem p) = max_threads c
     \<and> min_threads c \<le> sem_target (pool_sem p) \<and> sem_target (pool_sem p) \<le> max_threads c"

lemma try_new_ok:
  assumes "pool_try_new available c = Ok p" and "0 < available" and "available \<le> USIZE_MAX"
  shows "sized_ok (pool_config p) p"
  using assms
  by (auto simp: pool_try_new_def pool_validate_def resolve_max_threads_def sized_ok_def sem_new_def clamp_nat_def Let_def
      split: if_splits)

lemma evaluate_range:
  assumes "sized_ok c p"
  obtains t dir where "scale_evaluate (input_of p cpu mem) = Some (t, dir)" "min_threads c \<le> t" "t \<le> max_threads c"
    "f64_lt (memory_pressure_cap c) mem \<longrightarrow> t = min_threads c"
    "\<not> f64_lt (memory_pressure_cap c) mem \<longrightarrow> t \<le> sem_target (pool_sem p) + 2 \<and> sem_target (pool_sem p) \<le> t + 2"
proof (cases "f64_lt (memory_pressure_cap c) mem")
  case True
  then show ?thesis using assms that [of "min_threads c" MemoryCap]
    by (simp add: sized_ok_def scale_evaluate_def input_of_def Let_def)
next
  case False
  define raw where "raw = (if f64_lt cpu (grow_below c) then min (sem_target (pool_sem p) + 2) USIZE_MAX
    else if f64_le cpu (shrink_above c) then sem_target (pool_sem p)
    else if f64_le cpu (emergency_above c) then sem_target (pool_sem p) - 1 else sem_target (pool_sem p) - 2)"
  have "\<exists>dir. scale_evaluate (input_of p cpu mem) = Some (clamp_nat raw (min_threads c) (max_threads c), dir)"
    using assms False by (auto simp: sized_ok_def scale_evaluate_def input_of_def raw_def Let_def)
  moreover have "raw \<le> sem_target (pool_sem p) + 2 \<and> sem_target (pool_sem p) \<le> raw + 2"
    using assms by (auto simp: raw_def sized_ok_def)
  ultimately show ?thesis using assms False that
    by (auto simp: sized_ok_def clamp_nat_def split: if_splits)
qed

lemma tick_ok:
  assumes "sized_ok c p"
  obtains q where "scaler_tick cpu mem p = Some q" "sized_ok c q"
    "if f64_lt (memory_pressure_cap c) mem then sem_target (pool_sem q) = min_threads c
     else sem_target (pool_sem q) \<le> sem_target (pool_sem p) + 2 \<and> sem_target (pool_sem p) \<le> sem_target (pool_sem q) + 2"
proof -
  obtain t dir where e: "scale_evaluate (input_of p cpu mem) = Some (t, dir)" "min_threads c \<le> t" "t \<le> max_threads c"
    "f64_lt (memory_pressure_cap c) mem \<longrightarrow> t = min_threads c"
    "\<not> f64_lt (memory_pressure_cap c) mem \<longrightarrow> t \<le> sem_target (pool_sem p) + 2 \<and> sem_target (pool_sem p) \<le> t + 2"
    using evaluate_range [OF assms] by metis
  show ?thesis using that [of "p\<lparr>pool_sem := set_target t (pool_sem p)\<rparr>"] assms e
    by (auto simp: scaler_tick_def sized_ok_def set_target_def clamp_nat_def Let_def split: if_splits)
qed

definition scaler_run :: "(f64 \<times> f64) list \<Rightarrow> worker_pool \<Rightarrow> worker_pool option" where
  "scaler_run readings p = fold (\<lambda>(cpu, mem) q. Option.bind q (scaler_tick cpu mem)) readings (Some p)"

lemma scaler_run_ok: "sized_ok c p \<Longrightarrow> \<exists>q. scaler_run readings p = Some q \<and> sized_ok c q"
  unfolding scaler_run_def
proof (induction readings arbitrary: p)
  case (Cons r rs)
  obtain q where "scaler_tick (fst r) (snd r) p = Some q" "sized_ok c q" using tick_ok [OF Cons.prems] by metis
  then show ?case using Cons.IH [of q] by (simp add: split_def)
qed simp

text \<open>The scaler keeps a validated pool in range: from a pool built by \<open>try_new\<close>, whatever
  sequence of CPU and memory readings arrives (infinite and NaN ones included), no tick
  panics, the target stays between the configured minimum and the resolved maximum, a
  memory reading above the cap puts it at the minimum, and any other tick moves it by at
  most two.\<close>

theorem scaler_in_range:
  assumes "pool_try_new available c = Ok p" and "0 < available" and "available \<le> USIZE_MAX"
  shows "\<exists>q. scaler_run readings p = Some q \<and> sized_ok (pool_config p) q
    \<and> (\<forall>cpu mem. \<exists>q'. scaler_tick cpu mem q = Some q'
         \<and> (if f64_lt (memory_pressure_cap (pool_config p)) mem then sem_target (pool_sem q') = min_threads (pool_config p)
            else sem_target (pool_sem q') \<le> sem_target (pool_sem q) + 2 \<and> sem_target (pool_sem q) \<le> sem_target (pool_sem q') + 2))"
proof -
  obtain q where q: "scaler_run readings p = Some q" "sized_ok (pool_config p) q"
    using scaler_run_ok [OF try_new_ok [OF assms]] by blast
  then show ?thesis using tick_ok [OF q(2)] by metis
qed

definition demo_pool_config :: worker_pool_config where
  "demo_pool_config = \<lparr>min_threads = 2, max_threads = 0, grow_below = Fin (3 / 5), shrink_above = Fin (17 / 20),
     emergency_above = Fin (19 / 20), memory_pressure_cap = Fin (4 / 5), scale_interval_secs = 5, async_concurrency = 32\<rparr>"

theorem scaler_in_range_witness:
  "\<exists>p. pool_try_new 8 demo_pool_config = Ok p \<and> (\<exists>q. scaler_run [(Fin 0, Fin 0), (NaN, Fin 0)] p = Some q \<and> sized_ok (pool_config p) q)"
proof -
  obtain p where "pool_try_new 8 demo_pool_config = Ok p"
    by (simp add: pool_try_new_def demo_pool_config_def resolve_max_threads_def pool_validate_def)
  then show ?thesis using scaler_in_range [of 8 demo_pool_config p "[(Fin 0, Fin 0), (NaN, Fin 0)]"]
    by (auto simp: USIZE_MAX_def)
qed

subsection \<open>Fan-out\<close>

text \<open>\<open>fan_out_async\<close>: chunks of \<open>concurrency\<close> items; a task that panicked leaves its slot \<open>None\<close>.
  \<open>None\<close> for the whole is the panic of \<open>step_by(0)\<close>.\<close>

fun join_chunk :: "('a \<Rightarrow> 'r option) \<Rightarrow> nat \<Rightarrow> 'a list \<Rightarrow> 'r option list \<Rightarrow> 'r option list" where
  "join_chunk f idx [] results = results"
| "join_chunk f idx (x # xs) results =
     join_chunk f (Suc idx) xs (case f x of Some r \<Rightarrow> results[idx := Some r] | None \<Rightarrow> results)"

function fan_out_loop :: "nat \<Rightarrow> ('a \<Rightarrow> 'r option) \<Rightarrow> 'a list \<Rightarrow> nat \<Rightarrow> 'r option list \<Rightarrow> 'r option list" where
  "fan_out_loop concurrency f items start results =
     (if concurrency = 0 \<or> length items \<le> start then results
      else let e = min (start + concurrency) (length items) in
        fan_out_loop concurrency f items (start + concurrency)
          (join_chunk f start (take (e - start) (drop start items)) results))"
  by pat_completeness auto
termination by (relation "measure (\<lambda>(c, f, items, start, r). length items - start)") auto

declare fan_out_loop.simps [simp del]

definition fan_out_async :: "nat \<Rightarrow> ('a \<Rightarrow> 'r option) \<Rightarrow> 'a list \<Rightarrow> 'r option list option" where
  "fan_out_async concurrency f items =
     (if concurrency = 0 then None else Some (fan_out_loop concurrency f items 0 (replicate (length items) None)))"

lemma join_chunk_eq:
  "idx + length xs \<le> length results \<Longrightarrow> \<forall>i. idx \<le> i \<and> i < length results \<longrightarrow> results ! i = None \<Longrightarrow>
   join_chunk f idx xs results = take idx results @ map f xs @ drop (idx + length xs) results"
proof (induction f idx xs results rule: join_chunk.induct)
  case (2 f idx x xs results)
  let ?r = "case f x of Some r \<Rightarrow> results[idx := Some r] | None \<Rightarrow> results"
  have idx: "idx < length results" using 2(2) by simp
  have r: "?r = results[idx := f x]"
    using 2(3) idx list_update_id [of results idx] by (cases "f x") auto
  have "join_chunk f (Suc idx) xs ?r = take (Suc idx) ?r @ map f xs @ drop (Suc idx + length xs) ?r"
    using 2(2,3) r by (intro 2(1)) auto
  then have "join_chunk f idx (x # xs) results = take (Suc idx) (results[idx := f x]) @ map f xs @ drop (Suc idx + length xs) (results[idx := f x])"
    by (simp only: join_chunk.simps r)
  then show ?case using idx by (simp add: take_Suc_conv_app_nth upd_conv_take_nth_drop add.commute)
qed simp

lemma fan_out_loop_eq:
  assumes "0 < concurrency" and "start \<le> length items"
    and "results = map f (take start items) @ replicate (length items - start) None"
  shows "fan_out_loop concurrency f items start results = map f items"
  using assms
proof (induction concurrency f items start results rule: fan_out_loop.induct)
  case (1 concurrency f items start results)
  show ?case
  proof (cases "length items \<le> start")
    case True
    then show ?thesis using 1 by (simp add: fan_out_loop.simps)
  next
    case False
    let ?e = "min (start + concurrency) (length items)"
    let ?c = "take (?e - start) (drop start items)"
    have len: "start + length ?c = ?e" using False by auto
    have c: "take start items @ ?c = take ?e items"
      using False by (metis le_add_diff_inverse len linorder_not_le less_imp_le_nat min.bounded_iff nat_le_iff_add take_add)
    have "join_chunk f start ?c results = take start results @ map f ?c @ drop (start + length ?c) results"
      using 1(4) False len by (intro join_chunk_eq) (auto simp: nth_append)
    also have "\<dots> = map f (take start items @ ?c) @ replicate (length items - ?e) None"
      using 1(4) False len by simp
    finally have j: "join_chunk f start ?c results = map f (take ?e items) @ replicate (length items - ?e) None"
      by (simp only: c)
    show ?thesis
    proof (cases "start + concurrency \<le> length items")
      case True
      then show ?thesis using 1 False j by (subst fan_out_loop.simps) (simp add: Let_def)
    next
      case over: False
      then have "join_chunk f start ?c results = map f items" using j by simp
      then show ?thesis using False over 1(2)
        by (subst fan_out_loop.simps) (simp add: Let_def fan_out_loop.simps [of _ _ _ "start + concurrency"])
    qed
  qed
qed

text \<open>\<open>fan_out_async_with_policy\<close>. How a task ends is a function of its item; which of the tasks in
  flight ends at the \<open>j\<close>-th join, and from which look at the token on it is cancelled, are
  arguments. The state is the next item to spawn, the indices in flight, the looks at the
  token and the joins so far, and the results.\<close>

datatype ('r, 'e) task_end = Finished "('r, 'e) result" | Expired | Panic
datatype ('r, 'e) fan_out_result = FoOk 'r | FoErr 'e | TimedOut | Panicked | FoCancelled

fun fan_outcome :: "('r, 'e) task_end \<Rightarrow> ('r, 'e) fan_out_result" where
  "fan_outcome (Finished (Inr r)) = FoOk r"
| "fan_outcome (Finished (Inl e)) = FoErr e"
| "fan_outcome Expired = TimedOut"
| "fan_outcome Panic = Panicked"

definition is_cancelled :: "nat option \<Rightarrow> nat \<Rightarrow> bool" where
  "is_cancelled cancel_at looks = (case cancel_at of None \<Rightarrow> False | Some k \<Rightarrow> k \<le> looks)"

function seed :: "nat \<Rightarrow> nat \<Rightarrow> nat option \<Rightarrow> nat \<times> nat list \<times> nat \<Rightarrow> nat \<times> nat list \<times> nat" where
  "seed concurrency n cancel_at (nxt, fl, looks) =
     (if length fl < concurrency \<and> nxt < n then
        if is_cancelled cancel_at looks then (nxt, fl, looks + 1)
        else seed concurrency n cancel_at (nxt + 1, fl @ [nxt], looks + 1)
      else (nxt, fl, looks))"
  by pat_completeness auto
termination by (relation "measure (\<lambda>(c, n, a, nxt, fl, looks). n - nxt)") auto

declare seed.simps [simp del]

definition remove_nth :: "nat \<Rightarrow> 'a list \<Rightarrow> 'a list" where
  "remove_nth i xs = take i xs @ drop (Suc i) xs"

lemma seed_measure:
  "seed c n a (nxt, fl, looks) = (nxt', fl', looks') \<Longrightarrow> 2 * (n - nxt') + length fl' \<le> 2 * (n - nxt) + length fl"
  by (induction c n a "(nxt, fl, looks)" arbitrary: nxt fl looks rule: seed.induct) (subst (asm) seed.simps, auto split: if_splits)

lemma policy_measure:
  assumes "(nxt', fl', looks') = seed c n a (nxt, fl, looks)" and "fl' \<noteq> []"
  shows "2 * (n - nxt') + length (remove_nth (k mod length fl') fl') < 2 * (n - nxt) + length fl"
proof -
  have "k mod length fl' < length fl'" using assms(2) by simp
  then have "length (remove_nth (k mod length fl') fl') < length fl'" by (simp add: remove_nth_def)
  then show ?thesis using seed_measure [OF assms(1) [symmetric]] by linarith
qed

function policy_loop :: "nat \<Rightarrow> ('a \<Rightarrow> ('r, 'e) task_end) \<Rightarrow> nat option \<Rightarrow> (nat \<Rightarrow> nat) \<Rightarrow> 'a list \<Rightarrow>
    nat \<Rightarrow> nat list \<Rightarrow> nat \<Rightarrow> nat \<Rightarrow> ('r, 'e) fan_out_result list \<Rightarrow> ('r, 'e) fan_out_result list" where
  "policy_loop concurrency f cancel_at pick items nxt fl looks joins results =
     (case seed concurrency (length items) cancel_at (nxt, fl, looks) of
        (nxt', fl', looks') \<Rightarrow>
          if fl' = [] then results
          else let p = pick joins mod length fl'; idx = fl' ! p; left = remove_nth p fl';
                   results' = results[idx := fan_outcome (f (items ! idx))]
            in if is_cancelled cancel_at looks' \<and> left = [] then results'
               else policy_loop concurrency f cancel_at pick items nxt' left (looks' + 1) (joins + 1) results')"
  by pat_completeness auto
termination
proof (relation "measure (\<lambda>(c, f, a, pick, items, nxt, fl, looks, joins, r). 2 * (length items - nxt) + length fl)", goal_cases)
  case (2 concurrency f cancel_at pick items nxt fl looks joins results)
  then show ?case by (auto intro: policy_measure)
qed simp

declare policy_loop.simps [simp del]

definition fan_out_async_with_policy :: "nat \<Rightarrow> ('a \<Rightarrow> ('r, 'e) task_end) \<Rightarrow> nat option \<Rightarrow> (nat \<Rightarrow> nat) \<Rightarrow> 'a list \<Rightarrow>
    ('r, 'e) fan_out_result list" where
  "fan_out_async_with_policy concurrency f cancel_at pick items =
     policy_loop (max concurrency 1) f cancel_at pick items 0 [] 0 0 (replicate (length items) FoCancelled)"

definition fan_inv :: "nat \<Rightarrow> ('a \<Rightarrow> ('r, 'e) task_end) \<Rightarrow> 'a list \<Rightarrow> nat \<Rightarrow> nat list \<Rightarrow> ('r, 'e) fan_out_result list \<Rightarrow> bool" where
  "fan_inv c f items nxt fl results \<longleftrightarrow> nxt \<le> length items \<and> length results = length items \<and> distinct fl \<and> length fl \<le> c
     \<and> (\<forall>i\<in>set fl. i < nxt)
     \<and> (\<forall>i<length items. results ! i = (if i < nxt \<and> i \<notin> set fl then fan_outcome (f (items ! i)) else FoCancelled))"

lemma seed_inv:
  assumes "seed c (length items) a (nxt, fl, looks) = (nxt', fl', looks')" and "fan_inv c f items nxt fl results"
  shows "fan_inv c f items nxt' fl' results \<and> (a = None \<longrightarrow> nxt' = length items \<or> length fl' = c)"
  using assms
proof (induction c "length items" a "(nxt, fl, looks)" arbitrary: nxt fl looks rule: seed.induct)
  case (1 c a nxt fl looks)
  show ?case
  proof (cases "length fl < c \<and> nxt < length items \<and> \<not> is_cancelled a looks")
    case True
    have "fan_inv c f items (nxt + 1) (fl @ [nxt]) results"
      using 1(3) True by (fastforce simp: fan_inv_def less_Suc_eq)
    moreover have "seed c (length items) a (nxt + 1, fl @ [nxt], looks + 1) = (nxt', fl', looks')"
      using 1(2) True by (subst (asm) seed.simps) simp
    ultimately show ?thesis using 1(1) True by simp
  next
    case False
    then show ?thesis using 1(2,3)
      by (subst (asm) seed.simps) (auto simp: is_cancelled_def fan_inv_def split: if_splits option.splits)
  qed
qed

lemma join_inv:
  assumes "fan_inv c f items nxt fl results" and "p < length fl"
  shows "fan_inv c f items nxt (remove_nth p fl) (results[fl ! p := fan_outcome (f (items ! (fl ! p)))])"
proof -
  have fl: "fl = take p fl @ fl ! p # drop (Suc p) fl" using assms(2) by (rule id_take_nth_drop)
  have "distinct (take p fl @ fl ! p # drop (Suc p) fl)" using assms(1) fl by (simp add: fan_inv_def)
  then have notin: "fl ! p \<notin> set (remove_nth p fl)" "distinct (remove_nth p fl)" by (auto simp: remove_nth_def)
  have sub: "set fl = insert (fl ! p) (set (remove_nth p fl))" by (subst fl) (auto simp: remove_nth_def)
  have idx: "fl ! p < nxt" using assms by (auto simp: fan_inv_def)
  have "length (remove_nth p fl) \<le> length fl" by (simp add: remove_nth_def)
  then show ?thesis using assms(1) notin idx sub by (auto simp: fan_inv_def nth_list_update)
qed

lemma fan_inv_done:
  assumes "fan_inv c f items nxt [] results"
  shows "results = map (\<lambda>x. fan_outcome (f x)) (take nxt items) @ replicate (length items - nxt) FoCancelled"
  using assms by (intro nth_equalityI) (auto simp: fan_inv_def nth_append)

lemma policy_loop_spec:
  assumes "fan_inv c f items nxt fl results" and "0 < c"
  shows "\<exists>k\<le>length items. policy_loop c f a pick items nxt fl looks joins results =
      map (\<lambda>x. fan_outcome (f x)) (take k items) @ replicate (length items - k) FoCancelled \<and> (a = None \<longrightarrow> k = length items)"
  using assms
proof (induction c f a pick items nxt fl looks joins results rule: policy_loop.induct)
  case (1 c f a pick items nxt fl looks joins results)
  obtain nxt' fl' looks' where sd: "seed c (length items) a (nxt, fl, looks) = (nxt', fl', looks')" by (metis prod_cases3)
  note si = seed_inv [OF sd 1(2)]
  show ?case
  proof (cases "fl' = []")
    case True
    then have "policy_loop c f a pick items nxt fl looks joins results = results"
      by (subst policy_loop.simps) (simp add: sd)
    then show ?thesis using fan_inv_done [of c f items nxt' results] si True 1(3)
      by (intro exI [of _ nxt']) (auto simp: fan_inv_def)
  next
    case False
    define p where "p = pick joins mod length fl'"
    define results' where "results' = results[fl' ! p := fan_outcome (f (items ! (fl' ! p)))]"
    have j: "fan_inv c f items nxt' (remove_nth p fl') results'"
      unfolding results'_def p_def using si False by (intro join_inv) auto
    show ?thesis
    proof (cases "is_cancelled a looks' \<and> remove_nth p fl' = []")
      case True
      then have "policy_loop c f a pick items nxt fl looks joins results = results'"
        using False by (subst policy_loop.simps) (simp add: sd Let_def p_def results'_def)
      then show ?thesis using fan_inv_done [of c f items nxt' results'] j True
        by (intro exI [of _ nxt']) (auto simp: fan_inv_def is_cancelled_def)
    next
      case go: False
      then have "policy_loop c f a pick items nxt fl looks joins results =
          policy_loop c f a pick items nxt' (remove_nth p fl') (looks' + 1) (joins + 1) results'"
        using False go unfolding p_def results'_def
        by (subst policy_loop.simps) (simp only: sd Let_def prod.case if_False simp_thms)
      then show ?thesis
        using 1(1) [OF sd [symmetric] refl False p_def refl refl results'_def go j 1(3)] by simp
    qed
  qed
qed

text \<open>Both fan-outs answer every item in its own slot: \<open>fan_out_async\<close> is the plain map for any
  positive chunk size, and the policy variant, for every order in which tasks end and every
  moment of cancellation, answers a prefix of the items with what their tasks ended with
  (result, error, timeout or panic) and the rest with \<open>Cancelled\<close>; without cancellation
  the prefix is everything.\<close>

theorem fan_out_in_input_order:
  "(0 < concurrency \<longrightarrow> fan_out_async concurrency g items = Some (map g items)) \<and>
   (\<exists>k\<le>length items. fan_out_async_with_policy concurrency f cancel_at pick items =
      map (\<lambda>x. fan_outcome (f x)) (take k items) @ replicate (length items - k) FoCancelled
      \<and> (cancel_at = None \<longrightarrow> k = length items))"
proof
  show "0 < concurrency \<longrightarrow> fan_out_async concurrency g items = Some (map g items)"
    by (simp add: fan_out_async_def fan_out_loop_eq)
  have "fan_inv (max concurrency 1) f items 0 [] (replicate (length items) FoCancelled)" by (simp add: fan_inv_def)
  then show "\<exists>k\<le>length items. fan_out_async_with_policy concurrency f cancel_at pick items =
      map (\<lambda>x. fan_outcome (f x)) (take k items) @ replicate (length items - k) FoCancelled
      \<and> (cancel_at = None \<longrightarrow> k = length items)"
    unfolding fan_out_async_with_policy_def by (intro policy_loop_spec) auto
qed

theorem fan_out_in_input_order_witness:
  "fan_out_async 2 (\<lambda>x. if x then None else Some x) [False, True, False] = Some [Some False, None, Some False]"
  using fan_out_in_input_order [of 2 "\<lambda>x. if x then None else Some x" "[False, True, False]" "\<lambda>x. Panic" None id]
  by (elim conjE) simp

end
