(* ===== verification/Scaling.thy ===== *)
theory Scaling
  imports F64
begin

text \<open>
  \<open>src/scaling/\<close>: the gated weighted composite (\<open>pressure.rs\<close>), the sliding rate window
  (\<open>rate_window.rs\<close>), the per-transport pressure ratios (\<open>transport_pressure.rs\<close>) and the
  pressure engine with its smart default and last-good hold (\<open>engine.rs\<close>, \<open>config.rs\<close>), all in
  binary64 arithmetic. The CEL compiler and interpreter are arguments; atomics that are
  loaded and stored one by one are plain fields; the gauges a tick sets are the list it returns.
\<close>

subsection \<open>The weighted composite\<close>

datatype gate_type = GateCircuit | GateMemory

record component_entry =
  ce_name :: string
  ce_weight :: f64
  ce_saturation :: f64
  ce_value :: f64

record scaling_pressure =
  sp_enabled :: bool
  memory_gate_threshold :: f64
  sp_components :: "component_entry list"
  sp_circuit_open :: bool
  memory_used :: u64
  memory_limit :: u64

definition sp_new :: "bool \<Rightarrow> f64 \<Rightarrow> (string \<times> f64 \<times> f64) list \<Rightarrow> scaling_pressure" where
  "sp_new enabled threshold cs = \<lparr>sp_enabled = enabled, memory_gate_threshold = threshold,
     sp_components = map (\<lambda>(n, w, s). \<lparr>ce_name = n, ce_weight = w, ce_saturation = s, ce_value = Fin 0\<rparr>) cs,
     sp_circuit_open = False, memory_used = 0, memory_limit = 0\<rparr>"

fun store_component :: "string \<Rightarrow> f64 \<Rightarrow> component_entry list \<Rightarrow> component_entry list" where
  "store_component n v [] = []"
| "store_component n v (e # es) = (if ce_name e = n then e\<lparr>ce_value := v\<rparr> # es else e # store_component n v es)"

definition set_component :: "string \<Rightarrow> f64 \<Rightarrow> scaling_pressure \<Rightarrow> scaling_pressure" where
  "set_component n v p = p\<lparr>sp_components := store_component n v (sp_components p)\<rparr>"

definition set_circuit_open :: "bool \<Rightarrow> scaling_pressure \<Rightarrow> scaling_pressure" where
  "set_circuit_open is_open p = p\<lparr>sp_circuit_open := is_open\<rparr>"

definition set_memory :: "u64 \<Rightarrow> u64 \<Rightarrow> scaling_pressure \<Rightarrow> scaling_pressure" where
  "set_memory used limit p = p\<lparr>memory_used := used, memory_limit := limit\<rparr>"

definition memory_ratio :: "scaling_pressure \<Rightarrow> f64" where
  "memory_ratio p = (let used = f64_of_u64 (memory_used p); limit = f64_of_u64 (memory_limit p) in
     if f64_lt (Fin 0) limit then f64_div used limit else Fin 0)"

definition component_score :: "component_entry \<Rightarrow> f64" where
  "component_score e = (if f64_lt (Fin 0) (ce_saturation e)
     then f64_mul (f64_mul (f64_min (f64_div (ce_value e) (ce_saturation e)) (Fin 1)) (ce_weight e)) (Fin 100)
     else Fin 0)"

definition sp_total :: "component_entry list \<Rightarrow> f64" where
  "sp_total es = foldl (\<lambda>total e. f64_add total (component_score e)) (Fin 0) es"

definition sp_calculate :: "scaling_pressure \<Rightarrow> f64" where
  "sp_calculate p =
     (if \<not> sp_enabled p then Fin 0
      else if sp_circuit_open p then Fin 0
      else if f64_le (memory_gate_threshold p) (memory_ratio p) then Fin 100
      else f64_min (sp_total (sp_components p)) (Fin 100))"

definition gate_active :: "scaling_pressure \<Rightarrow> gate_type option" where
  "gate_active p =
     (if \<not> sp_enabled p then None
      else if sp_circuit_open p then Some GateCircuit
      else if f64_le (memory_gate_threshold p) (memory_ratio p) then Some GateMemory
      else None)"

record pressure_snapshot =
  snap_value :: f64
  snap_gate :: "gate_type option"
  snap_components :: "(string \<times> f64 \<times> f64 \<times> f64 \<times> f64) list"
  snap_memory_ratio :: f64
  snap_circuit_open :: bool

definition sp_snapshot :: "scaling_pressure \<Rightarrow> pressure_snapshot" where
  "sp_snapshot p = \<lparr>snap_value = sp_calculate p, snap_gate = gate_active p,
     snap_components = map (\<lambda>e. (ce_name e, ce_value e, component_score e, ce_weight e, ce_saturation e)) (sp_components p),
     snap_memory_ratio = memory_ratio p, snap_circuit_open = sp_circuit_open p\<rparr>"

subsection \<open>The rate window\<close>

text \<open>Instants are nanoseconds; \<open>origin\<close> is the earliest instant that can be represented.\<close>

record rate_window =
  rw_samples :: "(int \<times> u64) list"
  rw_window :: int

definition rw_record :: "int \<Rightarrow> int \<Rightarrow> u64 \<Rightarrow> rate_window \<Rightarrow> rate_window" where
  "rw_record origin now v w =
     (let cutoff = (if origin \<le> now - rw_window w then now - rw_window w else now)
      in w\<lparr>rw_samples := filter (\<lambda>(t, _). cutoff \<le> t) (rw_samples w) @ [(now, v)]\<rparr>)"

definition duration_secs_f64 :: "int \<Rightarrow> f64" where
  "duration_secs_f64 d = f64_add (f64_round (of_int (d div 10 ^ 9))) (f64_div (f64_round (of_int (d mod 10 ^ 9))) (Fin (10 ^ 9)))"

text \<open>\<open>duration_since\<close> saturates at zero.\<close>

definition rate_per_second :: "rate_window \<Rightarrow> f64" where
  "rate_per_second w =
     (if length (rw_samples w) < 2 then Fin 0
      else let a = hd (rw_samples w); z = last (rw_samples w);
               duration = duration_secs_f64 (max 0 (fst z - fst a))
        in if f64_le duration (Fin 0) then Fin 0
           else f64_div (f64_of_u64 (saturating_sub (snd z) (snd a))) duration)"

definition rw_clear :: "rate_window \<Rightarrow> rate_window" where
  "rw_clear w = w\<lparr>rw_samples := []\<rparr>"

subsection \<open>Transport ratios\<close>

datatype scaling_transport = StKafka | StRedis | StHttp | StGrpc | StFile | StPipe | StMemory | StOther

definition is_horizontally_scalable_inbound :: "scaling_transport \<Rightarrow> bool" where
  "is_horizontally_scalable_inbound k \<longleftrightarrow> k \<in> {StKafka, StRedis, StHttp, StGrpc}"

record transport_signals =
  kafka_assigned_lag :: "f64 option"
  redis_pending :: "f64 option"
  inflight :: "f64 option"
  shed_rate :: "f64 option"
  send_backpressure_rate :: "f64 option"
  refused_rate :: "f64 option"
  produce_queue_depth :: "f64 option"
  sig_circuit_open :: bool
  custom :: "(string \<times> f64) list"

record pressure_targets =
  lag_target :: "f64 option"
  redis_lag_target :: "f64 option"
  http_concurrency_target :: f64
  grpc_concurrency_target :: f64
  shed_target :: f64
  produce_queue_target :: "f64 option"

abbreviation or_else :: "'a option \<Rightarrow> 'a \<Rightarrow> 'a" where
  "or_else x d \<equiv> (case x of None \<Rightarrow> d | Some v \<Rightarrow> v)"

definition from_params :: "(string \<times> f64) list \<Rightarrow> pressure_targets" where
  "from_params ps = \<lparr>lag_target = map_of ps ''lag_target'', redis_lag_target = map_of ps ''redis_lag_target'',
     http_concurrency_target = or_else (map_of ps ''http_concurrency_target'') (Fin 100),
     grpc_concurrency_target = or_else (map_of ps ''grpc_concurrency_target'') (Fin 100),
     shed_target = or_else (map_of ps ''shed_target'') (Fin 10), produce_queue_target = map_of ps ''produce_queue_target''\<rparr>"

definition ratio :: "f64 \<Rightarrow> f64 \<Rightarrow> f64" where
  "ratio v t = (if f64_lt (Fin 0) t \<and> is_finite v then f64_max (f64_div v t) (Fin 0) else Fin 0)"

definition ratio_opt :: "f64 \<Rightarrow> f64 option \<Rightarrow> f64" where
  "ratio_opt v target = (case target of None \<Rightarrow> Fin 0 | Some t \<Rightarrow> ratio v t)"

definition inbound_pressure :: "scaling_transport \<Rightarrow> transport_signals \<Rightarrow> pressure_targets \<Rightarrow> f64" where
  "inbound_pressure k s t = (case k of
     StKafka \<Rightarrow> ratio_opt (or_else (kafka_assigned_lag s) (Fin 0)) (lag_target t)
   | StRedis \<Rightarrow> ratio_opt (or_else (redis_pending s) (Fin 0)) (redis_lag_target t)
   | StHttp \<Rightarrow> f64_max (ratio (or_else (inflight s) (Fin 0)) (http_concurrency_target t))
       (ratio (or_else (shed_rate s) (Fin 0)) (shed_target t))
   | StGrpc \<Rightarrow> f64_max (ratio (or_else (inflight s) (Fin 0)) (grpc_concurrency_target t))
       (ratio (or_else (shed_rate s) (Fin 0)) (shed_target t))
   | _ \<Rightarrow> Fin 0)"

definition outbound_pressure :: "transport_signals \<Rightarrow> pressure_targets \<Rightarrow> f64" where
  "outbound_pressure s t = f64_max (f64_max (ratio (or_else (send_backpressure_rate s) (Fin 0)) (shed_target t))
     (ratio (or_else (refused_rate s) (Fin 0)) (shed_target t)))
     (ratio_opt (or_else (produce_queue_depth s) (Fin 0)) (produce_queue_target t))"

text \<open>The signals cell: NaN stands for a signal that was not set.\<close>

record signals_cell =
  cell_kafka_lag :: f64
  cell_redis_pending :: f64
  cell_inflight :: f64
  cell_shed_rate :: f64
  cell_backpressure :: f64
  cell_refused :: f64
  cell_queue_depth :: f64
  cell_circuit_open :: bool
  cell_custom :: "(string \<times> f64) list"

definition cell_new :: signals_cell where
  "cell_new = \<lparr>cell_kafka_lag = NaN, cell_redis_pending = NaN, cell_inflight = NaN, cell_shed_rate = NaN, cell_backpressure = NaN,
     cell_refused = NaN, cell_queue_depth = NaN, cell_circuit_open = False, cell_custom = []\<rparr>"

definition read_cell :: "f64 \<Rightarrow> f64 option" where
  "read_cell v = (if is_nan v then None else Some v)"

definition cell_snapshot :: "signals_cell \<Rightarrow> transport_signals" where
  "cell_snapshot c = \<lparr>kafka_assigned_lag = read_cell (cell_kafka_lag c), redis_pending = read_cell (cell_redis_pending c),
     inflight = read_cell (cell_inflight c), shed_rate = read_cell (cell_shed_rate c),
     send_backpressure_rate = read_cell (cell_backpressure c), refused_rate = read_cell (cell_refused c),
     produce_queue_depth = read_cell (cell_queue_depth c), sig_circuit_open = cell_circuit_open c, custom = cell_custom c\<rparr>"

definition set_custom :: "string \<Rightarrow> f64 \<Rightarrow> signals_cell \<Rightarrow> signals_cell" where
  "set_custom n v c = c\<lparr>cell_custom := (n, v) # filter (\<lambda>(m, _). m \<noteq> n) (cell_custom c)\<rparr>"

subsection \<open>The pressure engine\<close>

datatype cel_value = CelFloat f64 | CelInt int | CelUInt u64 | CelBool bool | CelOther

record cel_context =
  ctx_cpu :: f64
  ctx_circuit_open :: bool
  ctx_inbound :: f64
  ctx_outbound :: f64
  ctx_memory :: f64
  ctx_params :: "(string \<times> f64) list"
  ctx_metrics :: "(string \<times> f64) list"
  ctx_custom :: "(string \<times> f64) list"

datatype cel_error = NoSuchKey string | OtherCelError string

record 'p cel_lib =
  compile :: "string \<Rightarrow> ('p, string) result"
  make_context :: "cel_context \<Rightarrow> (unit, string) result"
  execute :: "'p \<Rightarrow> cel_context \<Rightarrow> (cel_value, cel_error) result"

record 'p compiled_pressure =
  cp_name :: string
  cp_program :: "'p option"
  cp_enabled :: bool

record 'p scaling_engine =
  se_enabled :: bool
  cpu_target :: f64
  se_targets :: pressure_targets
  inbound_kind :: scaling_transport
  outbound_kind :: scaling_transport
  se_params :: "(string \<times> f64) list"
  se_pressures :: "'p compiled_pressure list"
  last_good :: "string \<rightharpoonup> f64"

record pressure_expr =
  px_name :: string
  px_expression :: string
  px_enabled :: bool

record scaling_engine_config =
  sec_enabled :: bool
  sec_params :: "(string \<times> f64) list"
  sec_pressures :: "pressure_expr list"

definition config_cpu_target :: "scaling_engine_config \<Rightarrow> f64" where
  "config_cpu_target c = (case map_of (sec_params c) ''cpu_target'' of
     Some v \<Rightarrow> if f64_lt (Fin 0) v then v else f64_round (7 / 10) | None \<Rightarrow> f64_round (7 / 10))"

definition metric_names :: "string list" where
  "metric_names = [''kafka_assigned_lag'', ''redis_pending'', ''inflight'', ''shed_rate'', ''send_backpressure_rate'',
     ''refused_rate'', ''produce_queue_depth'']"

text \<open>The dry run at load: only a missing map key is forgiven. The list of available names that
  the code appends to its messages is left out.\<close>

definition compile_and_check :: "'p cel_lib \<Rightarrow> string \<Rightarrow> (string \<times> f64) list \<Rightarrow> ('p, string) result" where
  "compile_and_check L expr params =
     (case compile L expr of
        Inl e \<Rightarrow> Err (''compile error: '' @ e)
      | Inr prog \<Rightarrow>
          (let ctx = \<lparr>ctx_cpu = Fin 0, ctx_circuit_open = False, ctx_inbound = Fin 0, ctx_outbound = Fin 0, ctx_memory = Fin 0,
              ctx_params = params, ctx_metrics = map (\<lambda>k. (k, Fin 0)) metric_names, ctx_custom = []\<rparr>
           in case make_context L ctx of
                Inl e \<Rightarrow> Err (''context build error: '' @ e)
              | Inr _ \<Rightarrow>
                  (case execute L prog ctx of
                     Inr v \<Rightarrow> (case v of CelFloat _ \<Rightarrow> Ok prog | CelInt _ \<Rightarrow> Ok prog | CelUInt _ \<Rightarrow> Ok prog
                         | _ \<Rightarrow> Err ''expression must evaluate to a number'')
                   | Inl (NoSuchKey _) \<Rightarrow> Ok prog
                   | Inl (OtherCelError e) \<Rightarrow> Err (''evaluation error: '' @ e))))"

fun compile_pressures :: "'p cel_lib \<Rightarrow> (string \<times> f64) list \<Rightarrow> pressure_expr list \<Rightarrow> 'p compiled_pressure list \<times> string list" where
  "compile_pressures L params [] = ([], [])"
| "compile_pressures L params (p # ps) =
     (let (program, errs) = (if px_enabled p then (case compile_and_check L (px_expression p) params of
            Inr prog \<Rightarrow> (Some prog, [])
          | Inl msg \<Rightarrow> (None, [''scaling pressure '' @ px_name p @ '' is invalid -- falling back to the rustlib smart default. '' @ msg]))
          else (None, []));
          (cs, es) = compile_pressures L params ps
      in (\<lparr>cp_name = px_name p, cp_program = program, cp_enabled = px_enabled p\<rparr> # cs, errs @ es))"

fun duplicate_names :: "string list \<Rightarrow> string list \<Rightarrow> string list" where
  "duplicate_names seen [] = []"
| "duplicate_names seen (n # ns) =
     (if n \<in> set seen then (''duplicate scaling pressure name '' @ n @ '' -- names must be unique'') # duplicate_names seen ns
      else duplicate_names (n # seen) ns)"

definition engine_new :: "'p cel_lib \<Rightarrow> scaling_engine_config \<Rightarrow> scaling_transport \<Rightarrow> scaling_transport \<Rightarrow> 'p scaling_engine \<times> string list" where
  "engine_new L c inb outb =
     (let (ps, errs) = (if sec_pressures c = [] then ([\<lparr>cp_name = ''default'', cp_program = None, cp_enabled = True\<rparr>], [])
            else compile_pressures L (sec_params c) (sec_pressures c))
      in (\<lparr>se_enabled = sec_enabled c, cpu_target = config_cpu_target c, se_targets = from_params (sec_params c), inbound_kind = inb,
           outbound_kind = outb, se_params = sec_params c, se_pressures = ps, last_good = Map.empty\<rparr>,
          errs @ duplicate_names [] (map cp_name ps)))"

definition smart_default :: "'p scaling_engine \<Rightarrow> f64 \<Rightarrow> f64 \<Rightarrow> bool \<Rightarrow> f64" where
  "smart_default e cpu inb circuit =
     (if circuit then Fin 0
      else let cpu_term = (if f64_lt (Fin 0) (cpu_target e) then f64_div cpu (cpu_target e) else Fin 0)
        in f64_mul (Fin 100) (f64_clamp (f64_max cpu_term inb) (Fin 0) (Fin 1)))"

definition signal_metrics :: "transport_signals \<Rightarrow> (string \<times> f64) list" where
  "signal_metrics s = concat (map (\<lambda>(k, v). case v of None \<Rightarrow> [] | Some x \<Rightarrow> [(k, x)])
     (zip metric_names [kafka_assigned_lag s, redis_pending s, inflight s, shed_rate s, send_backpressure_rate s, refused_rate s,
        produce_queue_depth s]))"

definition eval_context :: "'p scaling_engine \<Rightarrow> transport_signals \<Rightarrow> f64 \<Rightarrow> f64 \<Rightarrow> f64 \<Rightarrow> f64 \<Rightarrow> cel_context" where
  "eval_context e s cpu inb outb mem = \<lparr>ctx_cpu = cpu, ctx_circuit_open = sig_circuit_open s, ctx_inbound = inb, ctx_outbound = outb,
     ctx_memory = mem, ctx_params = se_params e, ctx_metrics = signal_metrics s, ctx_custom = custom s\<rparr>"

definition f64_of_int :: "int \<Rightarrow> f64" where
  "f64_of_int i = f64_round (of_int i)"

definition eval_program :: "'p cel_lib \<Rightarrow> 'p \<Rightarrow> cel_context \<Rightarrow> f64 option" where
  "eval_program L p ctx = (case make_context L ctx of Inl _ \<Rightarrow> None
     | Inr _ \<Rightarrow> (case execute L p ctx of Inl _ \<Rightarrow> None
        | Inr v \<Rightarrow> (case v of CelFloat f \<Rightarrow> Some f | CelInt i \<Rightarrow> Some (f64_of_int i) | CelUInt u \<Rightarrow> Some (f64_of_u64 u)
            | CelBool b \<Rightarrow> Some (if b then Fin 1 else Fin 0) | CelOther \<Rightarrow> None)))"

fun evaluate_loop :: "'p cel_lib \<Rightarrow> cel_context \<Rightarrow> f64 \<Rightarrow> 'p compiled_pressure list \<Rightarrow> (string \<rightharpoonup> f64) \<Rightarrow>
    (string \<rightharpoonup> f64) \<times> (string \<times> f64) list" where
  "evaluate_loop L ctx dflt [] lg = (lg, [])"
| "evaluate_loop L ctx dflt (p # ps) lg =
     (if \<not> cp_enabled p then evaluate_loop L ctx dflt ps lg
      else let (lg', v) = (case cp_program p of
              None \<Rightarrow> (lg, dflt)
            | Some prog \<Rightarrow>
                (case eval_program L prog ctx of
                   Some x \<Rightarrow> if is_finite x then (lg(cp_name p \<mapsto> x), x) else (lg, or_else (lg (cp_name p)) dflt)
                 | None \<Rightarrow> (lg, or_else (lg (cp_name p)) dflt)));
               (lg'', out) = evaluate_loop L ctx dflt ps lg'
        in (lg'', (cp_name p, v) # out))"

definition engine_evaluate :: "'p cel_lib \<Rightarrow> transport_signals \<Rightarrow> f64 \<Rightarrow> f64 \<Rightarrow> 'p scaling_engine \<Rightarrow> 'p scaling_engine \<times> (string \<times> f64) list" where
  "engine_evaluate L s cpu mem e =
     (let inb = inbound_pressure (inbound_kind e) s (se_targets e); outb = outbound_pressure s (se_targets e);
          (lg, out) = evaluate_loop L (eval_context e s cpu inb outb mem) (smart_default e cpu inb (sig_circuit_open s))
            (se_pressures e) (last_good e)
      in (e\<lparr>last_good := lg\<rparr>, out))"

text \<open>What a tick sets: the gauges \<open>{ns}_scaling_pressure\<close> (labelled with the pressure's name),
  \<open>{ns}_transport_inbound_pressure_ratio\<close>, \<open>{ns}_transport_outbound_pressure_ratio\<close> and \<open>{ns}_scaling_circuit_open\<close>.\<close>

datatype scaling_gauge = PressureGauge string f64 | InboundRatio f64 | OutboundRatio f64 | CircuitGauge f64

definition engine_tick :: "'p cel_lib \<Rightarrow> transport_signals \<Rightarrow> f64 \<Rightarrow> f64 \<Rightarrow> 'p scaling_engine \<Rightarrow> 'p scaling_engine \<times> scaling_gauge list" where
  "engine_tick L s cpu mem e =
     (if \<not> se_enabled e then (e, [])
      else let inb = inbound_pressure (inbound_kind e) s (se_targets e); outb = outbound_pressure s (se_targets e);
               (e', values) = engine_evaluate L s cpu mem e
           in (e', map (\<lambda>(name, v). PressureGauge name v) values
                 @ [InboundRatio inb, OutboundRatio outb, CircuitGauge (if sig_circuit_open s then Fin 1 else Fin 0)]))"

subsection \<open>Bounds\<close>

definition nonneg :: "f64 \<Rightarrow> bool" where
  "nonneg x \<longleftrightarrow> x = PInf \<or> (\<exists>q. x = Fin q \<and> 0 \<le> q)"

definition in_unit :: "f64 \<Rightarrow> bool" where
  "in_unit x \<longleftrightarrow> (\<exists>q. x = Fin q \<and> 0 \<le> q \<and> q \<le> 1)"

definition in_percent :: "f64 \<Rightarrow> bool" where
  "in_percent x \<longleftrightarrow> (\<exists>q. x = Fin q \<and> 0 \<le> q \<and> q \<le> 100)"

lemma nonneg_Fin [simp]: "nonneg (Fin q) \<longleftrightarrow> 0 \<le> q"
  by (simp add: nonneg_def)

lemma nonneg_round: "0 \<le> q \<Longrightarrow> nonneg (f64_round q)"
proof -
  assume "0 \<le> q"
  then have "0 \<le> rnd q" by (rule rnd_nonneg)
  moreover have "(0 :: rat) < 2 ^ 1024" by simp
  ultimately have "\<not> rnd q \<le> - (2 ^ 1024)" by linarith
  with \<open>0 \<le> rnd q\<close> show ?thesis by (simp add: f64_round_def nonneg_def Let_def del: power_numeral)
qed

lemma nonneg_add: "nonneg x \<Longrightarrow> nonneg y \<Longrightarrow> nonneg (f64_add x y)"
  by (auto simp: nonneg_def [of x] nonneg_def [of y] nonneg_round, auto simp: nonneg_def)

lemma nonneg_min: "nonneg x \<Longrightarrow> in_percent (f64_min x (Fin 100))"
  by (auto simp: nonneg_def in_percent_def f64_min_def)

lemma rnd_100 [simp]: "rnd 100 = 100"
  using rnd_of_nat [of 100] by simp

lemma percent_of_unit: "in_unit x \<Longrightarrow> in_percent (f64_mul (Fin 100) x)"
proof -
  assume "in_unit x"
  then obtain q where q: "x = Fin q" "0 \<le> q" "q \<le> 1" by (auto simp: in_unit_def)
  have le: "100 * q \<le> 100" using q by simp
  have "(100 :: rat) \<le> pow2 7" by (simp add: pow2_def)
  then have "f64_round (100 * q) = Fin (rnd (100 * q))" using q le by (intro f64_round_below [of _ 7]) auto
  moreover have "rnd (100 * q) \<le> 100" using rnd_mono [OF le] by simp
  moreover have "0 \<le> rnd (100 * q)" using q by (simp add: rnd_nonneg)
  ultimately show ?thesis by (simp add: q in_percent_def)
qed

text \<open>A ratio clipped at one is in the unit interval, whatever the value: a NaN counts as one.\<close>

lemma clipped_ratio:
  assumes "nonneg v \<or> is_nan v" and "f64_lt (Fin 0) s"
  shows "in_unit (f64_min (f64_div v s) (Fin 1))"
proof -
  consider (nan) "v = NaN" | (pos) "nonneg v" using assms(1) by (cases v) auto
  then show ?thesis
  proof cases
    case pos
    then consider (inf) "v = PInf" | (fin) q where "v = Fin q" "0 \<le> q" by (auto simp: nonneg_def)
    then have "nonneg (f64_div v s) \<or> f64_div v s = NaN"
    proof cases
      case inf
      then show ?thesis using assms(2) by (cases s) (auto simp: f64_inf_def nonneg_def)
    next
      case fin
      then show ?thesis using assms(2) by (cases s) (auto simp: nonneg_round)
    qed
    then show ?thesis by (auto simp: nonneg_def in_unit_def f64_min_def)
  qed (simp add: in_unit_def f64_min_def)
qed

lemma score_nonneg:
  assumes "nonneg (ce_value e) \<or> is_nan (ce_value e)" and "is_finite (ce_weight e)" and "nonneg (ce_weight e)"
  shows "nonneg (component_score e)"
proof (cases "f64_lt (Fin 0) (ce_saturation e)")
  case True
  obtain q where q: "f64_min (f64_div (ce_value e) (ce_saturation e)) (Fin 1) = Fin q" "0 \<le> q"
    using clipped_ratio [OF assms(1) True] by (auto simp: in_unit_def)
  obtain w where w: "ce_weight e = Fin w" "0 \<le> w" using assms(2,3) by (cases "ce_weight e") auto
  have "nonneg (f64_mul (f64_round (q * w)) (Fin 100))"
    using nonneg_round [of "q * w"] q w(2) by (auto simp: nonneg_def [of "f64_round (q * w)"] nonneg_round f64_inf_def, simp add: nonneg_def)
  then show ?thesis using True q w(1) by (simp add: component_score_def)
qed (simp add: component_score_def)

definition sane_component :: "component_entry \<Rightarrow> bool" where
  "sane_component e \<longleftrightarrow> (nonneg (ce_value e) \<or> is_nan (ce_value e)) \<and> is_finite (ce_weight e) \<and> nonneg (ce_weight e)"

lemma total_nonneg:
  assumes "list_all sane_component es" shows "nonneg (sp_total es)"
proof -
  have "nonneg t \<Longrightarrow> list_all sane_component es \<Longrightarrow> nonneg (foldl (\<lambda>total e. f64_add total (component_score e)) t es)" for t
  proof (induction es arbitrary: t)
    case (Cons e es)
    have "nonneg (component_score e)" using Cons.prems(2) score_nonneg [of e] by (auto simp: sane_component_def)
    then show ?case using Cons nonneg_add by simp
  qed simp
  then show ?thesis using assms by (simp add: sp_total_def)
qed

text \<open>The scaling pressure is a percentage, gates first: with non-negative finite weights and
  component values that are non-negative, infinite or NaN, \<open>calculate\<close> is a finite number
  between 0 and 100; it is 0 when disabled or while the circuit is open, and 100 when the
  memory ratio has reached its threshold; and the diagnostic snapshot names the gate that
  decided exactly in those last two cases.\<close>

theorem scaling_pressure_percentage:
  assumes "list_all sane_component (sp_components p)"
  shows "in_percent (sp_calculate p) \<and>
    (case snap_gate (sp_snapshot p) of
       Some GateCircuit \<Rightarrow> snap_value (sp_snapshot p) = Fin 0
     | Some GateMemory \<Rightarrow> snap_value (sp_snapshot p) = Fin 100
     | None \<Rightarrow> snap_value (sp_snapshot p) = (if sp_enabled p then f64_min (sp_total (sp_components p)) (Fin 100) else Fin 0))"
proof -
  have "in_percent (f64_min (sp_total (sp_components p)) (Fin 100))" using total_nonneg [OF assms] by (rule nonneg_min)
  moreover have "in_percent (Fin 0)" "in_percent (Fin 100)" by (simp_all add: in_percent_def)
  ultimately show ?thesis by (auto simp: sp_calculate_def sp_snapshot_def gate_active_def)
qed

definition demo_pressure :: scaling_pressure where
  "demo_pressure = set_component ''lag'' (Fin 50) (sp_new True (Fin (4 / 5)) [(''lag'', Fin (1 / 2), Fin 100)])"

theorem scaling_pressure_percentage_witness: "in_percent (sp_calculate demo_pressure)"
  using scaling_pressure_percentage [of demo_pressure]
  by (simp add: demo_pressure_def set_component_def sp_new_def sane_component_def)

text \<open>A negative component value makes the pressure negative, which the documentation rules out.\<close>

lemma negative_value_negative_pressure:
  "sp_calculate (set_component ''a'' (Fin (- 1)) (sp_new True (Fin 1) [(''a'', Fin 1, Fin 1)])) = Fin (- 100)"
proof -
  have "rnd (- 1) = - 1" "rnd (- 100) = - 100" using rnd_1 rnd_100 by (simp_all add: rnd_def)
  then have "f64_round (- 1) = Fin (- 1)" "f64_round (- 100) = Fin (- 100)" by (simp_all add: f64_round_def Let_def)
  then show ?thesis
    by (simp add: sp_calculate_def set_component_def sp_new_def memory_ratio_def f64_of_u64_def sp_total_def component_score_def
        f64_round_def Let_def f64_min_def)
qed

subsection \<open>The engine's outputs\<close>

lemma nonneg_max0: "x \<noteq> NaN \<Longrightarrow> nonneg (f64_max x (Fin 0))"
  by (cases x) (auto simp: f64_max_def nonneg_def)

lemma nonneg_max: "nonneg x \<Longrightarrow> nonneg y \<Longrightarrow> nonneg (f64_max x y)"
  by (simp add: f64_max_def nonneg_def)

lemma ratio_nonneg [simp]: "nonneg (ratio v t)" "nonneg (ratio_opt v target)"
proof -
  show r: "nonneg (ratio v t)" for t
  proof (cases "f64_lt (Fin 0) t \<and> is_finite v")
    case True
    have "f64_round q \<noteq> NaN" for q by (simp add: f64_round_def Let_def)
    then have "f64_div v t \<noteq> NaN" using True by (cases v; cases t) auto
    then show ?thesis using True nonneg_max0 by (simp add: ratio_def)
  qed (auto simp: ratio_def)
  show "nonneg (ratio_opt v target)" using r by (simp add: ratio_opt_def split: option.split)
qed

lemma inbound_nonneg: "nonneg (inbound_pressure k s t)" "nonneg (outbound_pressure s t)"
  by (cases k) (auto simp: inbound_pressure_def outbound_pressure_def intro!: nonneg_max)

lemma clamp_in_unit: "x \<noteq> NaN \<Longrightarrow> in_unit (f64_clamp x (Fin 0) (Fin 1))"
  by (cases x) (auto simp: f64_clamp_def in_unit_def)

lemma smart_default_percent: "nonneg inb \<Longrightarrow> in_percent (smart_default e cpu inb circuit)"
proof (cases circuit)
  case False
  assume "nonneg inb"
  then have "f64_max x inb \<noteq> NaN" for x by (cases x) (auto simp: f64_max_def nonneg_def)
  then show ?thesis using False by (simp add: smart_default_def Let_def percent_of_unit clamp_in_unit)
qed (simp add: smart_default_def in_percent_def)

definition good_finite :: "(string \<rightharpoonup> f64) \<Rightarrow> bool" where
  "good_finite lg \<longleftrightarrow> (\<forall>n v. lg n = Some v \<longrightarrow> is_finite v)"

text \<open>What a program's evaluation, the held value and the default give for one pressure.\<close>

definition held_value :: "f64 option \<Rightarrow> f64 option \<Rightarrow> f64 \<Rightarrow> f64" where
  "held_value now before dflt = (case now of Some v \<Rightarrow> if is_finite v then v else or_else before dflt | None \<Rightarrow> or_else before dflt)"

text \<open>What a pressure may be published as: the smart default if it has no program, the program's result if that is a finite
  number, and a finite number in any case.\<close>

definition publishable :: "'p cel_lib \<Rightarrow> cel_context \<Rightarrow> f64 \<Rightarrow> 'p compiled_pressure \<Rightarrow> string \<times> f64 \<Rightarrow> bool" where
  "publishable L ctx dflt p = (\<lambda>(n, v). n = cp_name p \<and> is_finite v \<and>
     (case cp_program p of None \<Rightarrow> v = dflt
      | Some prog \<Rightarrow> (case eval_program L prog ctx of Some x \<Rightarrow> is_finite x \<longrightarrow> v = x | None \<Rightarrow> True)))"

lemma evaluate_loop_spec:
  assumes "evaluate_loop L ctx dflt ps lg = (lg', out)" and "good_finite lg" and "is_finite dflt"
  shows "good_finite lg' \<and> list_all2 (publishable L ctx dflt) (filter cp_enabled ps) out"
  using assms
proof (induction L ctx dflt ps lg arbitrary: lg' out rule: evaluate_loop.induct)
  case (2 L ctx dflt p ps lg)
  show ?case
  proof (cases "cp_enabled p")
    case True
    define r where "r = (case cp_program p of
              None \<Rightarrow> (lg, dflt)
            | Some prog \<Rightarrow>
                (case eval_program L prog ctx of
                   Some x \<Rightarrow> if is_finite x then (lg(cp_name p \<mapsto> x), x) else (lg, or_else (lg (cp_name p)) dflt)
                 | None \<Rightarrow> (lg, or_else (lg (cp_name p)) dflt)))"
    obtain lg1 v where r1: "r = (lg1, v)" by fastforce
    have fin: "good_finite lg1" "publishable L ctx dflt p (cp_name p, v)"
      using r1 2(4,5) by (auto simp: r_def good_finite_def publishable_def split: option.splits if_splits)
    obtain lg2 out2 where rest: "evaluate_loop L ctx dflt ps lg1 = (lg2, out2)" by fastforce
    have eq: "lg' = lg2" "out = (cp_name p, v) # out2"
      using 2(3) True r1 rest by (auto simp: r_def [symmetric] Let_def)
    from 2(2) [OF _ r_def r1 [symmetric] rest fin(1) 2(5)] True show ?thesis using eq fin(2) by simp
  qed (use 2 in simp)
qed auto

lemma single_pressure_value:
  "evaluate_loop L ctx dflt [\<lparr>cp_name = n, cp_program = Some prog, cp_enabled = True\<rparr>] lg =
    (let v = held_value (eval_program L prog ctx) (lg n) dflt in
     (if \<exists>x. eval_program L prog ctx = Some x \<and> is_finite x then lg(n \<mapsto> v) else lg, [(n, v)]))"
  by (auto simp: held_value_def split: option.splits)

definition engine_run :: "'p cel_lib \<Rightarrow> (transport_signals \<times> f64 \<times> f64) list \<Rightarrow> 'p scaling_engine \<Rightarrow> 'p scaling_engine" where
  "engine_run L ins e = fold (\<lambda>(s, cpu, mem) e. fst (engine_tick L s cpu mem e)) ins e"

text \<open>What the engine's tick computes before it sets the gauges.\<close>

definition tick_context :: "transport_signals \<Rightarrow> f64 \<Rightarrow> f64 \<Rightarrow> 'p scaling_engine \<Rightarrow> cel_context" where
  "tick_context s cpu mem e = eval_context e s cpu (inbound_pressure (inbound_kind e) s (se_targets e)) (outbound_pressure s (se_targets e)) mem"

definition tick_default :: "transport_signals \<Rightarrow> f64 \<Rightarrow> 'p scaling_engine \<Rightarrow> f64" where
  "tick_default s cpu e = smart_default e cpu (inbound_pressure (inbound_kind e) s (se_targets e)) (sig_circuit_open s)"

lemma tick_default_percent: "in_percent (tick_default s cpu e)"
  unfolding tick_default_def by (rule smart_default_percent [OF inbound_nonneg(1)])

lemma tick_spec:
  assumes "good_finite (last_good e)" and "engine_tick L s cpu mem e = (e', out)"
  shows "good_finite (last_good e') \<and> se_pressures e' = se_pressures e \<and> se_enabled e' = se_enabled e
    \<and> (if se_enabled e then \<exists>vs. list_all2 (publishable L (tick_context s cpu mem e) (tick_default s cpu e))
          (filter cp_enabled (se_pressures e)) vs
        \<and> out = map (\<lambda>(n, v). PressureGauge n v) vs
            @ [InboundRatio (inbound_pressure (inbound_kind e) s (se_targets e)), OutboundRatio (outbound_pressure s (se_targets e)),
               CircuitGauge (if sig_circuit_open s then Fin 1 else Fin 0)]
       else out = [])"
proof (cases "se_enabled e")
  case True
  obtain lg out' where l: "evaluate_loop L (tick_context s cpu mem e) (tick_default s cpu e) (se_pressures e) (last_good e) = (lg, out')"
    by fastforce
  have "is_finite (tick_default s cpu e)" using tick_default_percent [of s cpu e] by (auto simp: in_percent_def)
  from evaluate_loop_spec [OF l assms(1) this] show ?thesis
    using assms(2) True l by (auto simp: engine_tick_def engine_evaluate_def Let_def tick_context_def tick_default_def)
qed (use assms in \<open>auto simp: engine_tick_def\<close>)

lemma engine_run_spec:
  "good_finite (last_good e) \<Longrightarrow> good_finite (last_good (engine_run L ins e)) \<and> se_pressures (engine_run L ins e) = se_pressures e
    \<and> se_enabled (engine_run L ins e) = se_enabled e"
proof (induction ins arbitrary: e)
  case (Cons i ins)
  obtain s cpu mem where i: "i = (s, cpu, mem)" by (metis prod_cases3)
  obtain e' out where t: "engine_tick L s cpu mem e = (e', out)" by fastforce
  have run: "engine_run L (i # ins) e = engine_run L ins e'" by (simp add: engine_run_def i t)
  show ?case using Cons.IH [of e'] tick_spec [OF Cons.prems t] unfolding run by auto
qed (simp add: engine_run_def)

text \<open>C30. The pressures of the engine are always finite: for every CEL library, every configuration and every history of ticks,
  with any signals and CPU and memory readings (NaN and infinite ones included), a tick of an enabled engine sets one pressure
  gauge per enabled pressure, in configuration order, to a finite number - the smart default, a percentage, where there is no
  expression, and the expression's own value whenever that is finite - then the two transport ratio gauges, which are never NaN
  or negative (but can be infinite: \<open>inbound_gauge_infinite\<close>), and the circuit gauge to 0 or 1. A disabled engine
  sets nothing.\<close>

theorem engine_publishes_finite:
  assumes "engine_new L c inb outb = (e0, errs)" and "engine_run L ins e0 = e" and "engine_tick L s cpu mem e = (e', out)"
  shows "if sec_enabled c
    then \<exists>vs i x.
      list_all2 (publishable L (tick_context s cpu mem e) (tick_default s cpu e)) (filter cp_enabled (se_pressures e0)) vs
      \<and> map fst vs = map cp_name (filter cp_enabled (se_pressures e0))
      \<and> list_all (\<lambda>(n, v). is_finite v) vs \<and> in_percent (tick_default s cpu e)
      \<and> out = map (\<lambda>(n, v). PressureGauge n v) vs @ [InboundRatio i, OutboundRatio x, CircuitGauge (if sig_circuit_open s then Fin 1 else Fin 0)]
      \<and> nonneg i \<and> nonneg x
      \<and> map cp_name (se_pressures e0) = (if sec_pressures c = [] then [''default''] else map px_name (sec_pressures c))
    else out = []"
proof -
  have names: "map cp_name (fst (compile_pressures L ps xs)) = map px_name xs" for ps xs
    by (induction xs) (auto simp: Let_def split: prod.splits)
  have new: "good_finite (last_good e0)" "se_enabled e0 = sec_enabled c"
      "map cp_name (se_pressures e0) = (if sec_pressures c = [] then [''default''] else map px_name (sec_pressures c))"
    using assms(1) names [of "sec_params c" "sec_pressures c"]
    by (auto simp: engine_new_def good_finite_def Let_def split: prod.splits if_splits)
  have run: "good_finite (last_good e)" "se_pressures e = se_pressures e0" "se_enabled e = sec_enabled c"
    using engine_run_spec [OF new(1), of L ins] new(2) assms(2) by auto
  have names_finite: "map fst vs = map cp_name ps \<and> list_all (\<lambda>(n, v). is_finite v) vs" if "list_all2 (publishable L ctx dflt) ps vs" for ctx dflt ps vs
    using that by (induction rule: list_all2_induct) (auto simp: publishable_def)
  show ?thesis
  proof (cases "sec_enabled c")
    case True
    with tick_spec [OF run(1) assms(3)] run obtain vs where
      v: "list_all2 (publishable L (tick_context s cpu mem e) (tick_default s cpu e)) (filter cp_enabled (se_pressures e0)) vs"
      and o: "out = map (\<lambda>(n, v). PressureGauge n v) vs
            @ [InboundRatio (inbound_pressure (inbound_kind e) s (se_targets e)), OutboundRatio (outbound_pressure s (se_targets e)),
               CircuitGauge (if sig_circuit_open s then Fin 1 else Fin 0)]" by auto
    show ?thesis using True v o names_finite [OF v] tick_default_percent [of s cpu e] new(3) inbound_nonneg by auto
  next
    case False
    then show ?thesis using tick_spec [OF run(1) assms(3)] run(3) by simp
  qed
qed

text \<open>The ratio gauges have no such guard: a lag of 20 against a target of \<open>2 ^ - 1022\<close> (the smallest normal number) overflows.\<close>

lemma inbound_gauge_infinite: "ratio (Fin 20) (Fin (pow2 (- 1022))) = PInf"
proof -
  have q: "20 / pow2 (- 1022) = 20 * pow2 1022" by (simp add: pow2_def del: power_numeral)
  have "pow2 (2 + 1022) \<le> 20 * pow2 1022" unfolding pow2_add using pow2_pos [of 1022] by (simp add: pow2_def [of 2])
  from rnd_mono [OF this] have "pow2 1024 \<le> rnd (20 * pow2 1022)" using rnd_pow2 [of 1024] by simp
  then have "2 ^ 1024 \<le> rnd (20 * pow2 1022)" using pow2_nat [of 1024] by (simp del: power_numeral)
  then have "f64_round (20 / pow2 (- 1022)) = PInf" by (simp add: q f64_round_def Let_def del: power_numeral)
  moreover have "pow2 (- 1022) \<noteq> 0" using pow2_pos [of "- 1022"] by (metis less_irrefl)
  ultimately show ?thesis by (simp add: ratio_def f64_max_def)
qed

definition toy_cel :: "nat cel_lib" where
  "toy_cel = \<lparr>compile = (\<lambda>_. Ok 0), make_context = (\<lambda>_. Ok ()), execute = (\<lambda>_ ctx. Ok (CelFloat (f64_div (Fin 1) (ctx_cpu ctx))))\<rparr>"

definition no_signals :: transport_signals where
  "no_signals = cell_snapshot cell_new"

definition toy_engine_config :: scaling_engine_config where
  "toy_engine_config = \<lparr>sec_enabled = True, sec_params = [], sec_pressures = [\<lparr>px_name = ''p'', px_expression = ''1/cpu'', px_enabled = True\<rparr>]\<rparr>"

theorem engine_publishes_finite_witness:
  "\<exists>e errs e' v i x. engine_new toy_cel toy_engine_config StKafka StKafka = (e, errs)
     \<and> engine_tick toy_cel no_signals (Fin 0) NaN (engine_run toy_cel [(no_signals, NaN, PInf)] e)
        = (e', [PressureGauge ''p'' v, InboundRatio i, OutboundRatio x, CircuitGauge (Fin 0)])
     \<and> is_finite v \<and> nonneg i \<and> nonneg x"
proof -
  obtain e errs where e: "engine_new toy_cel toy_engine_config StKafka StKafka = (e, errs)" by fastforce
  obtain e' out where t: "engine_tick toy_cel no_signals (Fin 0) NaN (engine_run toy_cel [(no_signals, NaN, PInf)] e) = (e', out)"
    by fastforce
  have ps: "map cp_name (filter cp_enabled (se_pressures e)) = [''p'']"
    using e by (auto simp: engine_new_def toy_engine_config_def Let_def split: prod.splits)
  have c: "\<not> sig_circuit_open no_signals" by (simp add: no_signals_def cell_snapshot_def cell_new_def)
  have on: "sec_enabled toy_engine_config = True" by (simp add: toy_engine_config_def)
  note pf = engine_publishes_finite [OF e refl t]
  from pf [unfolded on if_True ps] c obtain vs i x where
    v: "map fst vs = [''p'']" "list_all (\<lambda>(n, v). is_finite v) vs" "nonneg i" "nonneg x"
    and o: "out = map (\<lambda>(n, v). PressureGauge n v) vs @ [InboundRatio i, OutboundRatio x, CircuitGauge (Fin 0)]"
    by (elim exE conjE) simp
  from v(1) obtain v where "vs = [(''p'', v)]" by (cases vs) auto
  then show ?thesis using e t v o by auto
qed

subsection \<open>The window's samples\<close>

definition window_inv :: "rate_window \<Rightarrow> bool" where
  "window_inv w \<longleftrightarrow> 0 \<le> rw_window w \<and> sorted (map fst (rw_samples w)) \<and>
     (rw_samples w \<noteq> [] \<longrightarrow> (\<forall>(t, v)\<in>set (rw_samples w). fst (last (rw_samples w)) - rw_window w \<le> t))"

lemma record_inv:
  assumes "window_inv w" and "rw_samples w \<noteq> [] \<Longrightarrow> fst (last (rw_samples w)) \<le> now"
  shows "window_inv (rw_record origin now v w) \<and> last (rw_samples (rw_record origin now v w)) = (now, v)"
proof -
  let ?c = "if origin \<le> now - rw_window w then now - rw_window w else now"
  have c: "now - rw_window w \<le> ?c" using assms(1) by (simp add: window_inv_def)
  have le: "t \<le> now" if "(t, x) \<in> set (rw_samples w)" for t x
  proof -
    have ne: "rw_samples w \<noteq> []" using that by auto
    then obtain ys y where ys: "rw_samples w = ys @ [y]" by (cases "rw_samples w" rule: rev_cases) auto
    have "t \<le> fst y" using that assms(1) unfolding window_inv_def ys by (auto simp: sorted_append)
    then show ?thesis using assms(2) [OF ne] ys by simp
  qed
  have "sorted (map fst (filter (\<lambda>(t, _). ?c \<le> t) (rw_samples w)))"
    using assms(1) by (auto simp: window_inv_def intro: sorted_filter)
  then show ?thesis using assms(1) le c
    by (auto simp: window_inv_def rw_record_def Let_def sorted_append split_def)
qed

fun recorded :: "int \<Rightarrow> (int \<times> u64) list \<Rightarrow> rate_window \<Rightarrow> rate_window" where
  "recorded origin [] w = w"
| "recorded origin ((now, v) # ps) w = recorded origin ps (rw_record origin now v w)"

lemma recorded_inv:
  assumes "window_inv w" and "sorted (map fst ps)" and "ps \<noteq> [] \<Longrightarrow> rw_samples w \<noteq> [] \<Longrightarrow> fst (last (rw_samples w)) \<le> fst (hd ps)"
  shows "window_inv (recorded origin ps w)"
  using assms
proof (induction origin ps w rule: recorded.induct)
  case (2 origin now v ps w)
  have r: "window_inv (rw_record origin now v w)" "last (rw_samples (rw_record origin now v w)) = (now, v)"
    using record_inv [of w now origin v] 2(2,4) by auto
  show ?case using 2(1) [OF r(1)] 2(3) r(2) by (cases ps) auto
qed simp

lemma nonneg_div_Fin:
  assumes "nonneg x" and "0 < b" shows "nonneg (f64_div x (Fin b))"
proof -
  consider "x = PInf" | q where "x = Fin q" "0 \<le> q" using assms(1) by (auto simp: nonneg_def)
  then show ?thesis
  proof cases
    case 1
    then show ?thesis using assms(2) by (simp add: f64_inf_def nonneg_def)
  next
    case 2
    then show ?thesis using assms(2) nonneg_round [of "q / b"] by simp
  qed
qed

lemma as_secs_nonneg: "0 \<le> d \<Longrightarrow> nonneg (duration_secs_f64 d)"
proof -
  assume d: "0 \<le> d"
  have "nonneg (f64_round (of_int (d mod 10 ^ 9)))" by (intro nonneg_round) simp
  then have "nonneg (f64_div (f64_round (of_int (d mod 10 ^ 9))) (Fin (10 ^ 9)))"
    by (rule nonneg_div_Fin) simp
  moreover have "nonneg (f64_round (of_int (d div 10 ^ 9)))" using d by (intro nonneg_round) (simp add: pos_imp_zdiv_nonneg_iff)
  ultimately show ?thesis unfolding duration_secs_f64_def by (rule nonneg_add [rotated])
qed

lemma rate_nonneg: "nonneg (rate_per_second w)"
proof -
  let ?d = "duration_secs_f64 (max 0 (fst (last (rw_samples w)) - fst (hd (rw_samples w))))"
  have "nonneg ?d" by (simp add: as_secs_nonneg)
  then have "nonneg (f64_div (f64_of_u64 x) ?d)" if "\<not> f64_le ?d (Fin 0)" for x
    using that by (auto simp: nonneg_def [of ?d] f64_of_u64_Fin nonneg_round rnd_nonneg)
  then show ?thesis by (auto simp: rate_per_second_def Let_def)
qed

text \<open>A rate window fed by a clock that does not go back holds its samples in time order and
  none older than the window before the newest one, and its rate is never negative or NaN,
  also when the counter went backwards or two samples share an instant.\<close>

theorem rate_window_sound:
  assumes "sorted (map fst ps)" and "0 \<le> size_ns"
  shows "(let w = recorded origin ps \<lparr>rw_samples = [], rw_window = size_ns\<rparr> in
      sorted (map fst (rw_samples w)) \<and> nonneg (rate_per_second w)
      \<and> (\<forall>(t, v)\<in>set (rw_samples w). fst (last (rw_samples w)) - rw_window w \<le> t))"
proof -
  have "window_inv (recorded origin ps \<lparr>rw_samples = [], rw_window = size_ns\<rparr>)"
    using assms by (intro recorded_inv) (auto simp: window_inv_def)
  then show ?thesis using rate_nonneg by (auto simp: window_inv_def Let_def)
qed

theorem rate_window_sound_witness:
  "nonneg (rate_per_second (recorded 0 [(0, 10), (5 * 10 ^ 9, 4), (90 * 10 ^ 9, 30)] \<lparr>rw_samples = [], rw_window = 60 * 10 ^ 9\<rparr>))"
  using rate_window_sound [of "[(0, 10), (5 * 10 ^ 9, 4), (90 * 10 ^ 9, 30)]" "60 * 10 ^ 9" 0] by (simp add: Let_def)

end
