(* ===== verification/Secrets.thy ===== *)
theory Secrets
  imports Prelude
begin

text \<open>
  \<open>src/secrets/\<close>: the two-tier secret cache (\<open>cache.rs\<close>), the envelope around AES-GCM
  (\<open>crypto.rs\<close>), the value, entry and configuration types (\<open>types.rs\<close>) and the manager that
  puts the cache in front of the providers (\<open>mod.rs\<close>). HKDF, AES-GCM, base64, serde, the
  providers and the file system's failures are arguments; the disk tier is a map from file
  name to contents, with the history of what was written. Times are nanoseconds on the
  system clock, which may go backwards. Directory modes and metrics are left out.
\<close>

subsection \<open>Types\<close>

record secret_metadata =
  sm_version :: "string option"
  sm_source_path :: "string option"
  sm_provider :: "string option"

record secret_value =
  sv_data :: bytes
  fetched_at :: int
  sv_metadata :: secret_metadata

record cache_entry =
  en_data :: string
  fetched_at_secs :: nat
  en_metadata :: secret_metadata

record cache_config =
  cc_enabled :: bool
  ttl_secs :: u64
  stale_grace_secs :: u64
  encryption_key :: "string option"
  allow_plaintext_disk_cache :: bool

datatype secrets_error = SecNotFound string | ProviderNotConfigured string | ProviderError string | AuthError string
  | SecIoError string | CacheError string | InvalidData string | RefreshFailed string | SecConfigError string

definition cache_validate :: "bool \<Rightarrow> cache_config \<Rightarrow> (unit, string) result" where
  "cache_validate is_production c =
     (if is_production \<and> cc_enabled c \<and> encryption_key c = None \<and> allow_plaintext_disk_cache c
      then Err ''secrets cache: allow_plaintext_disk_cache=true is not permitted in production''
      else Ok ())"

text \<open>\<open>elapsed\<close> is an error when the clock is behind the fetch; whole seconds otherwise.\<close>

definition elapsed_secs :: "int \<Rightarrow> secret_value \<Rightarrow> nat option" where
  "elapsed_secs now v = (if now < fetched_at v then None else Some (nat ((now - fetched_at v) div 10 ^ 9)))"

definition is_expired :: "int \<Rightarrow> u64 \<Rightarrow> secret_value \<Rightarrow> bool" where
  "is_expired now ttl v = (case elapsed_secs now v of None \<Rightarrow> True | Some d \<Rightarrow> unat ttl \<le> d)"

text \<open>\<open>ttl_secs + grace_secs\<close> is a \<open>u64\<close> sum and wraps.\<close>

definition is_within_grace :: "int \<Rightarrow> u64 \<Rightarrow> u64 \<Rightarrow> secret_value \<Rightarrow> bool" where
  "is_within_grace now ttl grace v = (case elapsed_secs now v of None \<Rightarrow> False | Some d \<Rightarrow> d \<le> unat (ttl + grace))"

subsection \<open>The envelope\<close>

record envelope =
  env_v :: nat
  env_nonce :: string
  env_ct :: string

record sec_lib =
  b64 :: "bytes \<Rightarrow> string"
  unb64 :: "string \<Rightarrow> (bytes, string) result"
  url64 :: "bytes \<Rightarrow> string"
  unurl64 :: "string \<Rightarrow> (bytes, string) result"
  derive_key :: "string \<Rightarrow> bytes"
  gcm_encrypt :: "bytes \<Rightarrow> bytes \<Rightarrow> bytes \<Rightarrow> bytes \<Rightarrow> (bytes, string) result"
  gcm_decrypt :: "bytes \<Rightarrow> bytes \<Rightarrow> bytes \<Rightarrow> bytes \<Rightarrow> bytes option"
  env_json :: "envelope \<Rightarrow> bytes"
  parse_env :: "bytes \<Rightarrow> (envelope, string) result"
  entry_to_json :: "cache_entry \<Rightarrow> bytes"
  parse_entry :: "bytes \<Rightarrow> cache_entry option"
  utf8 :: "string \<Rightarrow> bytes"

definition ENVELOPE_VERSION :: nat where "ENVELOPE_VERSION = 1"
definition NONCE_LEN :: nat where "NONCE_LEN = 12"

definition aad_for :: "sec_lib \<Rightarrow> string \<Rightarrow> bytes" where
  "aad_for L k = utf8 L ''hyperi-rustlib:secrets-cache:v1:'' @ utf8 L k"

fun has_window :: "bytes \<Rightarrow> bytes \<Rightarrow> bool" where
  "has_window w [] = (w = [])"
| "has_window w (b # bs) = (take (length w) (b # bs) = w \<or> has_window w bs)"

definition looks_like :: "bytes \<Rightarrow> bool" where
  "looks_like raw \<longleftrightarrow> raw \<noteq> [] \<and> hd raw = 0x7b \<and> has_window [0x22, 0x76, 0x22, 0x3a] raw"

definition sec_seal :: "sec_lib \<Rightarrow> bytes \<Rightarrow> string \<Rightarrow> bytes \<Rightarrow> bytes \<Rightarrow> (bytes, secrets_error) result" where
  "sec_seal L nonce user_key plaintext aad =
     (case gcm_encrypt L (derive_key L user_key) nonce aad plaintext of
        Inl e \<Rightarrow> Err (CacheError (''encrypt failed: '' @ e))
      | Inr ct \<Rightarrow> Ok (env_json L \<lparr>env_v = ENVELOPE_VERSION, env_nonce = url64 L nonce, env_ct = url64 L ct\<rparr>))"

definition sec_open :: "sec_lib \<Rightarrow> string \<Rightarrow> bytes \<Rightarrow> bytes \<Rightarrow> (bytes, secrets_error) result" where
  "sec_open L user_key raw aad =
     (case parse_env L raw of
        Inl e \<Rightarrow> Err (CacheError (''envelope parse: '' @ e))
      | Inr env \<Rightarrow>
          if env_v env \<noteq> ENVELOPE_VERSION then Err (CacheError ''unsupported envelope version'')
          else (case unurl64 L (env_nonce env) of
              Inl e \<Rightarrow> Err (CacheError (''nonce base64: '' @ e))
            | Inr nonce \<Rightarrow>
                if length nonce \<noteq> NONCE_LEN then Err (CacheError ''nonce length'')
                else (case unurl64 L (env_ct env) of
                    Inl e \<Rightarrow> Err (CacheError (''ct base64: '' @ e))
                  | Inr ct \<Rightarrow>
                      (case gcm_decrypt L (derive_key L user_key) nonce aad ct of
                         None \<Rightarrow> Err (CacheError ''decrypt failed: wrong key, wrong AAD, or tampered data'')
                       | Some p \<Rightarrow> Ok p))))"

definition entry_from_value :: "sec_lib \<Rightarrow> secret_value \<Rightarrow> cache_entry" where
  "entry_from_value L v = \<lparr>en_data = b64 L (sv_data v),
     fetched_at_secs = (if fetched_at v < 0 then 0 else nat (fetched_at v div 10 ^ 9)), en_metadata = sv_metadata v\<rparr>"

definition entry_to_value :: "sec_lib \<Rightarrow> cache_entry \<Rightarrow> (secret_value, secrets_error) result" where
  "entry_to_value L e = (case unb64 L (en_data e) of
     Inl m \<Rightarrow> Err (CacheError (''invalid base64: '' @ m))
   | Inr d \<Rightarrow> Ok \<lparr>sv_data = d, fetched_at = int (fetched_at_secs e) * 10 ^ 9, sv_metadata = en_metadata e\<rparr>)"

subsection \<open>The cache\<close>

record secret_cache =
  sc_memory :: "string \<rightharpoonup> secret_value"
  sc_disk :: "string \<rightharpoonup> bytes"
  sc_has_dir :: bool
  sc_config :: cache_config
  sc_hits :: u64
  sc_misses :: u64
  sc_stale_hits :: u64
  sc_written :: "(string \<times> bytes) list"

text \<open>\<open>disk\<close> is what an earlier process left in the directory; creating it may fail.\<close>

definition cache_new :: "bool \<Rightarrow> (unit, secrets_error) result \<Rightarrow> (string \<rightharpoonup> bytes) \<Rightarrow> cache_config \<Rightarrow> (secret_cache, secrets_error) result" where
  "cache_new is_production mkdir disk c =
     (case cache_validate is_production c of
        Inl e \<Rightarrow> Err (SecConfigError e)
      | Inr _ \<Rightarrow>
          (let s = \<lparr>sc_memory = Map.empty, sc_disk = disk, sc_has_dir = cc_enabled c, sc_config = c, sc_hits = 0, sc_misses = 0,
                    sc_stale_hits = 0, sc_written = []\<rparr>
           in if cc_enabled c then (case mkdir of Inl e \<Rightarrow> Err e | Inr _ \<Rightarrow> Ok s) else Ok s))"

definition key_to_filename :: "sec_lib \<Rightarrow> string \<Rightarrow> string" where
  "key_to_filename L k = url64 L (utf8 L k) @ ''.json''"

definition load_from_disk :: "sec_lib \<Rightarrow> string \<Rightarrow> secret_cache \<Rightarrow> secret_value option" where
  "load_from_disk L k s =
     (if \<not> sc_has_dir s then None
      else case sc_disk s (key_to_filename L k) of
        None \<Rightarrow> None
      | Some raw \<Rightarrow>
          (case (if looks_like raw then
                   (case encryption_key (sc_config s) of
                      None \<Rightarrow> None
                    | Some uk \<Rightarrow> (case sec_open L uk raw (aad_for L k) of Inl _ \<Rightarrow> None | Inr p \<Rightarrow> Some p))
                 else Some raw) of
             None \<Rightarrow> None
           | Some plain \<Rightarrow>
               (case parse_entry L plain of None \<Rightarrow> None
                | Some e \<Rightarrow> (case entry_to_value L e of Inl _ \<Rightarrow> None | Inr v \<Rightarrow> Some v))))"

definition cache_get :: "sec_lib \<Rightarrow> int \<Rightarrow> string \<Rightarrow> secret_cache \<Rightarrow> secret_cache \<times> secret_value option" where
  "cache_get L now k s = (let ttl = ttl_secs (sc_config s) in
     case sc_memory s k of
       Some v \<Rightarrow> if \<not> is_expired now ttl v then (s\<lparr>sc_hits := sc_hits s + 1\<rparr>, Some v)
         else (case load_from_disk L k s of
             Some w \<Rightarrow> if \<not> is_expired now ttl w then (s\<lparr>sc_hits := sc_hits s + 1\<rparr>, Some w) else (s\<lparr>sc_misses := sc_misses s + 1\<rparr>, None)
           | None \<Rightarrow> (s\<lparr>sc_misses := sc_misses s + 1\<rparr>, None))
     | None \<Rightarrow> (case load_from_disk L k s of
             Some w \<Rightarrow> if \<not> is_expired now ttl w then (s\<lparr>sc_hits := sc_hits s + 1\<rparr>, Some w) else (s\<lparr>sc_misses := sc_misses s + 1\<rparr>, None)
           | None \<Rightarrow> (s\<lparr>sc_misses := sc_misses s + 1\<rparr>, None)))"

definition grace_ok :: "int \<Rightarrow> cache_config \<Rightarrow> secret_value option \<Rightarrow> bool" where
  "grace_ok now c v = (case v of None \<Rightarrow> False | Some x \<Rightarrow> is_within_grace now (ttl_secs c) (stale_grace_secs c) x)"

definition get_stale :: "sec_lib \<Rightarrow> int \<Rightarrow> string \<Rightarrow> secret_cache \<Rightarrow> secret_cache \<times> secret_value option" where
  "get_stale L now k s =
     (if grace_ok now (sc_config s) (sc_memory s k) then (s\<lparr>sc_stale_hits := sc_stale_hits s + 1\<rparr>, sc_memory s k)
      else if grace_ok now (sc_config s) (load_from_disk L k s) then (s\<lparr>sc_stale_hits := sc_stale_hits s + 1\<rparr>, load_from_disk L k s)
      else (s, None))"

text \<open>\<open>io\<close> is the outcome of the atomic file write (temporary file, mode, rename). What was handed to it, with the name of
  the file, is in \<open>sc_written\<close> either way: a write that fails may leave its temporary file behind, with the
  same bytes; no lookup reads it.\<close>

definition save_to_disk :: "sec_lib \<Rightarrow> bytes \<Rightarrow> (unit, secrets_error) result \<Rightarrow> string \<Rightarrow> secret_value \<Rightarrow> secret_cache \<Rightarrow>
    secret_cache \<times> (unit, secrets_error) result" where
  "save_to_disk L nonce io k v s =
     (if \<not> sc_has_dir s then (s, Ok ())
      else let plaintext = entry_to_json L (entry_from_value L v);
               payload = (case encryption_key (sc_config s) of
                   Some uk \<Rightarrow> (case sec_seal L nonce uk plaintext (aad_for L k) of Inl e \<Rightarrow> Err e | Inr p \<Rightarrow> Ok (Some p))
                 | None \<Rightarrow> if allow_plaintext_disk_cache (sc_config s) then Ok (Some plaintext) else Ok None)
        in case payload of
             Inl e \<Rightarrow> (s, Err e)
           | Inr None \<Rightarrow> (s, Ok ())
           | Inr (Some p) \<Rightarrow>
               (let s1 = s\<lparr>sc_written := sc_written s @ [(key_to_filename L k, p)]\<rparr>
                in case io of Inl e \<Rightarrow> (s1, Err e) | Inr _ \<Rightarrow> (s1\<lparr>sc_disk := (sc_disk s)(key_to_filename L k \<mapsto> p)\<rparr>, Ok ())))"

definition cache_set :: "sec_lib \<Rightarrow> bytes \<Rightarrow> (unit, secrets_error) result \<Rightarrow> string \<Rightarrow> secret_value \<Rightarrow> secret_cache \<Rightarrow>
    secret_cache \<times> (unit, secrets_error) result" where
  "cache_set L nonce io k v s =
     (if \<not> cc_enabled (sc_config s) then (s, Ok ())
      else save_to_disk L nonce io k v (s\<lparr>sc_memory := (sc_memory s)(k \<mapsto> v)\<rparr>))"

text \<open>\<open>clear\<close> empties the directory unless removing it failed.\<close>

definition cache_clear :: "bool \<Rightarrow> secret_cache \<Rightarrow> secret_cache" where
  "cache_clear removed s = (let s1 = s\<lparr>sc_memory := Map.empty\<rparr> in
     if sc_has_dir s \<and> removed then s1\<lparr>sc_disk := Map.empty\<rparr> else s1)"

subsection \<open>The manager\<close>

text \<open>What the outside does during one call: the clock, the nonce, the file write and the
  provider's answer. A source whose provider is not configured answers before any provider
  is called, and without the stale fall-back.\<close>

record outside =
  o_now :: int
  o_nonce :: bytes
  o_write :: "(unit, secrets_error) result"
  o_fetch :: "(secret_value, secrets_error) result"

datatype secret_source = FileSource string | OpenBaoSource string string | AwsSource string "string option"

record secrets_manager =
  mgr_cache :: secret_cache
  mgr_sources :: "(string \<times> secret_source) list"
  has_vault :: bool
  has_aws :: bool
  mgr_fetches :: "string list"
  mgr_rotations :: "(string \<times> string option \<times> string) list"

definition not_configured :: "secret_source \<Rightarrow> secrets_manager \<Rightarrow> string option" where
  "not_configured src m = (case src of FileSource _ \<Rightarrow> None
     | OpenBaoSource _ _ \<Rightarrow> if has_vault m then None else Some ''openbao''
     | AwsSource _ _ \<Rightarrow> if has_aws m then None else Some ''aws'')"

definition get_from_source :: "sec_lib \<Rightarrow> outside \<Rightarrow> string \<Rightarrow> secret_source \<Rightarrow> secrets_manager \<Rightarrow>
    secrets_manager \<times> (secret_value, secrets_error) result" where
  "get_from_source L out k src m =
     (case cache_get L (o_now out) k (mgr_cache m) of
        (c1, Some v) \<Rightarrow> (m\<lparr>mgr_cache := c1\<rparr>, Ok v)
      | (c1, None) \<Rightarrow>
          (case not_configured src m of
             Some p \<Rightarrow> (m\<lparr>mgr_cache := c1\<rparr>, Err (ProviderNotConfigured p))
           | None \<Rightarrow>
               (let m1 = m\<lparr>mgr_cache := c1, mgr_fetches := mgr_fetches m @ [k]\<rparr> in
                case o_fetch out of
                  Inr v \<Rightarrow> (m1\<lparr>mgr_cache := fst (cache_set L (o_nonce out) (o_write out) k v c1)\<rparr>, Ok v)
                | Inl e \<Rightarrow>
                    (case get_stale L (o_now out) k c1 of
                       (c2, Some v) \<Rightarrow> (m1\<lparr>mgr_cache := c2\<rparr>, Ok v)
                     | (c2, None) \<Rightarrow> (m1\<lparr>mgr_cache := c2\<rparr>, Err e)))))"

definition mgr_get :: "sec_lib \<Rightarrow> outside \<Rightarrow> string \<Rightarrow> secrets_manager \<Rightarrow> secrets_manager \<times> (secret_value, secrets_error) result" where
  "mgr_get L out name m = (case map_of (mgr_sources m) name of
     None \<Rightarrow> (m, Err (SecNotFound (''unknown secret source: '' @ name)))
   | Some src \<Rightarrow> get_from_source L out name src m)"

definition get_file :: "sec_lib \<Rightarrow> outside \<Rightarrow> string \<Rightarrow> secrets_manager \<Rightarrow> secrets_manager \<times> (secret_value, secrets_error) result" where
  "get_file L out path m = (let k = ''file:'' @ path in
     case cache_get L (o_now out) k (mgr_cache m) of
       (c1, Some v) \<Rightarrow> (m\<lparr>mgr_cache := c1\<rparr>, Ok v)
     | (c1, None) \<Rightarrow>
         (let m1 = m\<lparr>mgr_cache := c1, mgr_fetches := mgr_fetches m @ [k]\<rparr> in
          case o_fetch out of
            Inl e \<Rightarrow> (m1, Err e)
          | Inr v \<Rightarrow> (m1\<lparr>mgr_cache := fst (cache_set L (o_nonce out) (o_write out) k v c1)\<rparr>, Ok v)))"

text \<open>One source of \<open>refresh_all\<close>: the old version, the fetch, the rotation event.\<close>

definition refresh_one :: "sec_lib \<Rightarrow> outside \<Rightarrow> string \<times> secret_source \<Rightarrow> secrets_manager \<Rightarrow> secrets_manager \<times> (string \<times> secrets_error) list" where
  "refresh_one L out ns m = (case ns of (name, src) \<Rightarrow>
     (case cache_get L (o_now out) name (mgr_cache m) of
        (c1, old) \<Rightarrow>
          (let old_version = Option.bind old (\<lambda>v. sm_version (sv_metadata v)) in
           case get_from_source L out name src (m\<lparr>mgr_cache := c1\<rparr>) of
             (m', Inl e) \<Rightarrow> (m', [(name, e)])
           | (m', Inr v) \<Rightarrow>
               (case sm_version (sv_metadata v) of
                  None \<Rightarrow> (m', [])
                | Some nv \<Rightarrow> if old_version \<noteq> Some nv
                    then (m'\<lparr>mgr_rotations := mgr_rotations m' @ [(name, old_version, nv)]\<rparr>, []) else (m', [])))))"

fun refresh_loop :: "sec_lib \<Rightarrow> (string \<Rightarrow> outside) \<Rightarrow> (string \<times> secret_source) list \<Rightarrow> secrets_manager \<Rightarrow>
    secrets_manager \<times> (string \<times> secrets_error) list" where
  "refresh_loop L out [] m = (m, [])"
| "refresh_loop L out (ns # rest) m =
     (case refresh_one L (out (fst ns)) ns m of (m1, es1) \<Rightarrow>
        (case refresh_loop L out rest m1 of (m2, es2) \<Rightarrow> (m2, es1 @ es2)))"

definition refresh_all :: "sec_lib \<Rightarrow> (string \<Rightarrow> outside) \<Rightarrow> secrets_manager \<Rightarrow> secrets_manager \<times> (unit, (string \<times> secrets_error) list) result" where
  "refresh_all L out m = (case refresh_loop L out (mgr_sources m) m of (m', es) \<Rightarrow> (m', if es = [] then Ok () else Err es))"

definition clear_cache :: "bool \<Rightarrow> secrets_manager \<Rightarrow> secrets_manager" where
  "clear_cache removed m = m\<lparr>mgr_cache := cache_clear removed (mgr_cache m)\<rparr>"

text \<open>The operations of a manager, with what the outside does in each.\<close>

datatype mgr_op = MGet outside string | MGetFile outside string | MRefresh "string \<Rightarrow> outside" | MClear bool

definition mgr_step :: "sec_lib \<Rightarrow> mgr_op \<Rightarrow> secrets_manager \<Rightarrow> secrets_manager" where
  "mgr_step L x m = (case x of MGet out n \<Rightarrow> fst (mgr_get L out n m) | MGetFile out p \<Rightarrow> fst (get_file L out p m)
     | MRefresh out \<Rightarrow> fst (refresh_all L out m) | MClear b \<Rightarrow> clear_cache b m)"

definition mgr_run :: "sec_lib \<Rightarrow> mgr_op list \<Rightarrow> secrets_manager \<Rightarrow> secrets_manager" where
  "mgr_run L xs m = fold (mgr_step L) xs m"

subsection \<open>What reaches the disk\<close>

text \<open>A relation between the cache before and after that every primitive keeps: the
  configuration stays, and what was written to a file is sealed under the configured key and bound to the cache key that the
  file's name stands for; a file on disk is one that was there before or one that was written.\<close>

definition sealed_under :: "sec_lib \<Rightarrow> cache_config \<Rightarrow> string \<times> bytes \<Rightarrow> bool" where
  "sealed_under L c = (\<lambda>(f, p). \<exists>uk nonce k v. encryption_key c = Some uk \<and> f = key_to_filename L k \<and>
     sec_seal L nonce uk (entry_to_json L (entry_from_value L v)) (aad_for L k) = Ok p)"

definition disk_write_ok :: "sec_lib \<Rightarrow> secret_cache \<Rightarrow> string \<times> bytes \<Rightarrow> bool" where
  "disk_write_ok L s p \<longleftrightarrow> sealed_under L (sc_config s) p
     \<or> encryption_key (sc_config s) = None \<and> allow_plaintext_disk_cache (sc_config s) \<and> sc_has_dir s"

definition sealed_ext :: "sec_lib \<Rightarrow> secret_cache \<Rightarrow> secret_cache \<Rightarrow> bool" where
  "sealed_ext L s s' \<longleftrightarrow> sc_config s' = sc_config s \<and> sc_has_dir s' = sc_has_dir s \<and>
     (\<exists>ps. sc_written s' = sc_written s @ ps \<and> (\<forall>p\<in>set ps. disk_write_ok L s p)
        \<and> (\<forall>f p. sc_disk s' f = Some p \<longrightarrow> sc_disk s f = Some p \<or> (f, p) \<in> set ps))"

lemma sealed_refl [simp]: "sealed_ext L s s"
  by (simp add: sealed_ext_def)

lemma sealed_trans:
  assumes "sealed_ext L s s1" and "sealed_ext L s1 s2"
  shows "sealed_ext L s s2"
proof -
  have "disk_write_ok L s1 = disk_write_ok L s" using assms(1) by (simp add: sealed_ext_def disk_write_ok_def fun_eq_iff)
  moreover obtain ps where "sc_written s1 = sc_written s @ ps" "\<forall>p\<in>set ps. disk_write_ok L s p"
      "\<forall>f p. sc_disk s1 f = Some p \<longrightarrow> sc_disk s f = Some p \<or> (f, p) \<in> set ps" using assms(1) unfolding sealed_ext_def by blast
  moreover obtain qs where "sc_written s2 = sc_written s1 @ qs" "\<forall>p\<in>set qs. disk_write_ok L s1 p"
      "\<forall>f p. sc_disk s2 f = Some p \<longrightarrow> sc_disk s1 f = Some p \<or> (f, p) \<in> set qs" using assms(2) unfolding sealed_ext_def by blast
  ultimately show ?thesis
    using assms unfolding sealed_ext_def by (intro conjI exI[of _ "ps @ qs"]) (simp_all, blast+)
qed

lemma cache_get_frame:
  "sc_written (fst (cache_get L now k s)) = sc_written s \<and> sc_config (fst (cache_get L now k s)) = sc_config s
   \<and> sc_memory (fst (cache_get L now k s)) = sc_memory s \<and> sc_disk (fst (cache_get L now k s)) = sc_disk s
   \<and> sc_has_dir (fst (cache_get L now k s)) = sc_has_dir s"
  by (simp add: cache_get_def Let_def split: option.split)

lemma get_stale_frame:
  "sc_written (fst (get_stale L now k s)) = sc_written s \<and> sc_config (fst (get_stale L now k s)) = sc_config s
   \<and> sc_memory (fst (get_stale L now k s)) = sc_memory s \<and> sc_disk (fst (get_stale L now k s)) = sc_disk s
   \<and> sc_has_dir (fst (get_stale L now k s)) = sc_has_dir s"
  by (simp add: get_stale_def)

lemma sealed_get [simp]: "sealed_ext L s (fst (cache_get L now k s))"
  by (simp add: sealed_ext_def cache_get_frame)

lemma sealed_stale [simp]: "sealed_ext L s (fst (get_stale L now k s))"
  by (simp add: sealed_ext_def get_stale_frame)

lemma sealed_clear [simp]: "sealed_ext L s (cache_clear b s)"
  by (simp add: sealed_ext_def cache_clear_def Let_def)

lemma sealed_save: "sealed_ext L s (fst (save_to_disk L nonce io k v s))"
proof (cases "encryption_key (sc_config s)")
  case None
  then show ?thesis by (cases io) (simp_all add: save_to_disk_def sealed_ext_def disk_write_ok_def Let_def)
next
  case (Some uk)
  show ?thesis
  proof (cases "sec_seal L nonce uk (entry_to_json L (entry_from_value L v)) (aad_for L k)")
    case (Inl e)
    with Some show ?thesis by (simp add: save_to_disk_def Let_def)
  next
    case (Inr p)
    with Some have "sealed_under L (sc_config s) (key_to_filename L k, p)" unfolding sealed_under_def by blast
    with Some Inr show ?thesis by (cases io) (simp_all add: save_to_disk_def sealed_ext_def disk_write_ok_def Let_def)
  qed
qed

lemma sealed_set [simp]: "sealed_ext L s (fst (cache_set L nonce io k v s))"
proof -
  have "sealed_ext L s (s\<lparr>sc_memory := (sc_memory s)(k \<mapsto> v)\<rparr>)" by (simp add: sealed_ext_def)
  from sealed_trans[OF this sealed_save] show ?thesis by (simp add: cache_set_def)
qed

lemma sealed_source: "sealed_ext L (mgr_cache m) (mgr_cache (fst (get_from_source L out k src m)))"
proof -
  obtain c1 r where g: "cache_get L (o_now out) k (mgr_cache m) = (c1, r)" by (cases "cache_get L (o_now out) k (mgr_cache m)")
  have c1: "sealed_ext L (mgr_cache m) c1" using sealed_get[of L "mgr_cache m" "o_now out" k] by (simp add: g)
  obtain c2 w where st: "get_stale L (o_now out) k c1 = (c2, w)" by (cases "get_stale L (o_now out) k c1")
  have c2: "sealed_ext L c1 c2" using sealed_stale[of L c1 "o_now out" k] by (simp add: st)
  show ?thesis
    using c1 sealed_trans[OF c1 c2] sealed_trans[OF c1 sealed_set]
    by (simp add: get_from_source_def g st Let_def split: option.split sum.split)
qed

lemma sealed_file: "sealed_ext L (mgr_cache m) (mgr_cache (fst (get_file L out p m)))"
proof -
  define k where "k = ''file:'' @ p"
  obtain c1 r where g: "cache_get L (o_now out) k (mgr_cache m) = (c1, r)" by (cases "cache_get L (o_now out) k (mgr_cache m)")
  have c1: "sealed_ext L (mgr_cache m) c1" using sealed_get[of L "mgr_cache m" "o_now out" k] by (simp add: g)
  show ?thesis
    using c1 sealed_trans[OF c1 sealed_set] unfolding get_file_def k_def[symmetric]
    by (simp add: g Let_def split: option.split sum.split)
qed

lemma sealed_refresh_one: "sealed_ext L (mgr_cache m) (mgr_cache (fst (refresh_one L out ns m)))"
proof -
  obtain n src where ns: "ns = (n, src)" by (cases ns)
  obtain c1 r where g: "cache_get L (o_now out) n (mgr_cache m) = (c1, r)" by (cases "cache_get L (o_now out) n (mgr_cache m)")
  obtain m' res where f: "get_from_source L out n src (m\<lparr>mgr_cache := c1\<rparr>) = (m', res)"
    by (cases "get_from_source L out n src (m\<lparr>mgr_cache := c1\<rparr>)")
  have c1: "sealed_ext L (mgr_cache m) c1" using sealed_get[of L "mgr_cache m" "o_now out" n] by (simp add: g)
  have "sealed_ext L c1 (mgr_cache m')" using sealed_source[of L "m\<lparr>mgr_cache := c1\<rparr>" out n src] by (simp add: f)
  from sealed_trans[OF c1 this] show ?thesis
    by (simp add: refresh_one_def ns g f Let_def split: sum.split option.split)
qed

lemma sealed_refresh: "sealed_ext L (mgr_cache m) (mgr_cache (fst (refresh_loop L out nss m)))"
proof (induction nss arbitrary: m)
  case (Cons ns nss)
  show ?case
    using sealed_trans[OF sealed_refresh_one[of L m "out (fst ns)" ns] Cons.IH] by (simp add: case_prod_unfold)
qed simp

lemma sealed_step: "sealed_ext L (mgr_cache m) (mgr_cache (mgr_step L x m))"
  by (cases x) (simp_all add: mgr_step_def mgr_get_def sealed_source sealed_file sealed_refresh refresh_all_def clear_cache_def
      case_prod_unfold split: option.split)

lemma sealed_run: "sealed_ext L (mgr_cache m) (mgr_cache (mgr_run L xs m))"
proof (induction xs arbitrary: m)
  case (Cons x xs)
  show ?case using sealed_trans[OF sealed_step Cons.IH] by (simp add: mgr_run_def)
qed (simp add: mgr_run_def)

text \<open>C31. In production, whatever sequence of lookups, file reads, refreshes and clears is run, with whatever
  answers of the providers, the clock and the file system: everything the cache ever handed to the file system (temporary files
  included) is a cache entry sealed by \<open>seal\<close> under the configured key, with the associated data of that very cache key
  whose encoding is the file's name, and every file of the directory is such an entry or was there before; with no key nothing
  is written at all. The same holds outside production when plaintext caching was not opted into.\<close>

theorem disk_never_plaintext:
  assumes "cache_new is_production mkdir disk c = Ok s" and "is_production \<or> \<not> allow_plaintext_disk_cache c"
    and "mgr_cache m = s" and "mgr_cache (mgr_run L xs m) = s'"
  shows "(\<forall>w\<in>set (sc_written s'). sealed_under L c w)
    \<and> (\<forall>f p. sc_disk s' f = Some p \<longrightarrow> disk f = Some p \<or> sealed_under L c (f, p))"
proof -
  have s: "sc_written s = []" "sc_config s = c" "sc_has_dir s = cc_enabled c" "sc_disk s = disk"
    and ok: "\<not> (is_production \<and> cc_enabled c \<and> encryption_key c = None \<and> allow_plaintext_disk_cache c)"
    using assms(1) by (auto simp: cache_new_def cache_validate_def Let_def split: if_splits sum.splits)
  have "sealed_ext L s s'" using sealed_run[of L m xs] assms(3,4) by simp
  then obtain ps where ps: "sc_written s' = ps" "\<forall>p\<in>set ps. disk_write_ok L s p"
      "\<forall>f p. sc_disk s' f = Some p \<longrightarrow> disk f = Some p \<or> (f, p) \<in> set ps" unfolding sealed_ext_def s by auto
  have "sealed_under L c w" if "w \<in> set ps" for w using ps(2) that ok assms(2) s unfolding disk_write_ok_def by auto
  with ps show ?thesis by blast
qed

subsection \<open>Reading back\<close>

text \<open>What the code relies on of its libraries: the encodings are inverted by their decoders, the envelope's JSON
  starts with its version field, and authenticated decryption returns the plaintext under the same key, nonce and
  associated data and fails under other associated data.\<close>

definition lib_laws :: "sec_lib \<Rightarrow> bool" where
  "lib_laws L \<longleftrightarrow> (\<forall>b. unb64 L (b64 L b) = Ok b) \<and> (\<forall>b. unurl64 L (url64 L b) = Ok b)
     \<and> (\<forall>e. parse_env L (env_json L e) = Ok e \<and> looks_like (env_json L e)) \<and> (\<forall>e. parse_entry L (entry_to_json L e) = Some e)
     \<and> (\<forall>k n a p ct. gcm_encrypt L k n a p = Ok ct \<longrightarrow> gcm_decrypt L k n a ct = Some p \<and> (\<forall>a'. a' \<noteq> a \<longrightarrow> gcm_decrypt L k n a' ct = None))
     \<and> inj (utf8 L)"

lemma seal_open:
  assumes "lib_laws L" and "sec_seal L nonce uk p a = Ok raw" and "length nonce = NONCE_LEN"
  shows "looks_like raw" and "sec_open L uk raw a = Ok p" and "a' \<noteq> a \<Longrightarrow> \<exists>e. sec_open L uk raw a' = Err e"
proof -
  obtain ct where ct: "gcm_encrypt L (derive_key L uk) nonce a p = Ok ct"
    "raw = env_json L \<lparr>env_v = ENVELOPE_VERSION, env_nonce = url64 L nonce, env_ct = url64 L ct\<rparr>"
    using assms(2) by (auto simp: sec_seal_def split: sum.splits)
  with assms(1) have d: "gcm_decrypt L (derive_key L uk) nonce a ct = Some p"
      "a' \<noteq> a \<Longrightarrow> gcm_decrypt L (derive_key L uk) nonce a' ct = None"
      "parse_env L raw = Ok \<lparr>env_v = ENVELOPE_VERSION, env_nonce = url64 L nonce, env_ct = url64 L ct\<rparr>" "looks_like raw"
      "unurl64 L (url64 L nonce) = Ok nonce" "unurl64 L (url64 L ct) = Ok ct"
    unfolding lib_laws_def by blast+
  from d show "looks_like raw" by simp
  from d assms(3) show "sec_open L uk raw a = Ok p" by (simp add: sec_open_def)
  from d assms(3) show "a' \<noteq> a \<Longrightarrow> \<exists>e. sec_open L uk raw a' = Err e" by (simp add: sec_open_def)
qed

definition whole_secs :: "secret_value \<Rightarrow> secret_value" where
  "whole_secs v = v\<lparr>fetched_at := fetched_at v div 10 ^ 9 * 10 ^ 9\<rparr>"

lemma entry_roundtrip:
  assumes "lib_laws L" and "0 \<le> fetched_at v"
  shows "entry_to_value L (entry_from_value L v) = Ok (whole_secs v)"
  using assms by (simp add: entry_to_value_def entry_from_value_def whole_secs_def lib_laws_def pos_imp_zdiv_nonneg_iff)

text \<open>A secret saved with a key is what the next process with the same key reads back: its bytes and metadata
  exactly, its fetch time cut to whole seconds. The file is bound to its cache key: copied to the place of another
  key it is not served.\<close>

theorem disk_roundtrip:
  assumes "lib_laws L" and "encryption_key (sc_config s) = Some uk" and "sc_has_dir s" and "cc_enabled (sc_config s)"
    and "length nonce = NONCE_LEN" and "0 \<le> fetched_at v" and "gcm_encrypt L (derive_key L uk) nonce (aad_for L k) (entry_to_json L (entry_from_value L v)) = Ok ct"
    and "cache_set L nonce (Ok ()) k v s = (s', r)"
    and "sc_has_dir t" and "sc_config t = sc_config s"
  shows "r = Ok () \<and> sc_memory s' k = Some v
     \<and> (sc_disk t (key_to_filename L k) = sc_disk s' (key_to_filename L k) \<longrightarrow> load_from_disk L k t = Some (whole_secs v))
     \<and> (k' \<noteq> k \<longrightarrow> sc_disk t (key_to_filename L k') = sc_disk s' (key_to_filename L k) \<longrightarrow> load_from_disk L k' t = None)"
proof -
  define p where "p = entry_to_json L (entry_from_value L v)"
  obtain raw where raw: "sec_seal L nonce uk p (aad_for L k) = Ok raw" using assms(7) by (simp add: sec_seal_def p_def)
  have pe: "parse_entry L p = Some (entry_from_value L v)" using assms(1) by (simp add: p_def lib_laws_def)
  have s': "s' = s\<lparr>sc_memory := (sc_memory s)(k \<mapsto> v), sc_written := sc_written s @ [(key_to_filename L k, raw)],
      sc_disk := (sc_disk s)(key_to_filename L k \<mapsto> raw)\<rparr>"
    and r: "r = Ok ()"
    using assms(2-4,8) raw by (auto simp: cache_set_def save_to_disk_def p_def Let_def)
  have aad: "k' \<noteq> k \<Longrightarrow> aad_for L k' \<noteq> aad_for L k" using assms(1) by (auto simp: aad_for_def lib_laws_def inj_def)
  note so = seal_open[OF assms(1) raw assms(5)]
  have 1: "load_from_disk L k t = Some (whole_secs v)" if "sc_disk t (key_to_filename L k) = Some raw"
    using that so(1,2) assms(2,9,10) pe entry_roundtrip[OF assms(1,6)] by (simp add: load_from_disk_def)
  have 2: "load_from_disk L k' t = None" if k: "k' \<noteq> k" and "sc_disk t (key_to_filename L k') = Some raw"
    using so(3)[OF aad[OF k]] that(2) so(1) assms(2,9,10) by (auto simp: load_from_disk_def)
  from r 1 2 show ?thesis by (simp add: s')
qed

subsection \<open>Freshness and outages\<close>

lemma cache_get_result:
  "snd (cache_get L now k s) = Some v \<longleftrightarrow>
     (sc_memory s k = Some v \<and> \<not> is_expired now (ttl_secs (sc_config s)) v)
     \<or> (\<forall>w. sc_memory s k = Some w \<longrightarrow> is_expired now (ttl_secs (sc_config s)) w)
        \<and> load_from_disk L k s = Some v \<and> \<not> is_expired now (ttl_secs (sc_config s)) v"
  by (auto simp: cache_get_def Let_def split: option.splits)

lemma load_frame: "sc_disk s' = sc_disk s \<Longrightarrow> sc_config s' = sc_config s \<Longrightarrow> sc_has_dir s' = sc_has_dir s \<Longrightarrow> load_from_disk L k s' = load_from_disk L k s"
  by (simp only: load_from_disk_def)

definition cached_for :: "sec_lib \<Rightarrow> string \<Rightarrow> secret_cache \<Rightarrow> secret_value set" where
  "cached_for L k s = {v. sc_memory s k = Some v \<or> load_from_disk L k s = Some v}"

lemma cached_frame:
  "cached_for L k (fst (cache_get L now k' s)) = cached_for L k s" "cached_for L k (fst (get_stale L now k' s)) = cached_for L k s"
  using load_frame[of "fst (cache_get L now k' s)" s L k] load_frame[of "fst (get_stale L now k' s)" s L k]
  by (simp_all add: cached_for_def cache_get_frame get_stale_frame)

definition fresh_in :: "sec_lib \<Rightarrow> int \<Rightarrow> string \<Rightarrow> secret_cache \<Rightarrow> secret_value set" where
  "fresh_in L now k s = {v \<in> cached_for L k s. \<not> is_expired now (ttl_secs (sc_config s)) v}"

definition grace_in :: "sec_lib \<Rightarrow> int \<Rightarrow> string \<Rightarrow> secret_cache \<Rightarrow> secret_value set" where
  "grace_in L now k s = {v \<in> cached_for L k s. is_within_grace now (ttl_secs (sc_config s)) (stale_grace_secs (sc_config s)) v}"

lemma get_some: "cache_get L now k s = (c, Some v) \<Longrightarrow> v \<in> fresh_in L now k s"
  using cache_get_result[of L now k s v] by (auto simp: fresh_in_def cached_for_def)

lemma get_none: "cache_get L now k s = (c, None) \<Longrightarrow> fresh_in L now k s = {}"
  using cache_get_result[of L now k s] by (auto simp: fresh_in_def cached_for_def)

lemma stale_some: "get_stale L now k s = (c, Some v) \<Longrightarrow> v \<in> grace_in L now k s"
  by (auto simp: get_stale_def grace_ok_def grace_in_def cached_for_def split: if_splits option.splits)

lemma stale_none: "get_stale L now k s = (c, None) \<Longrightarrow> grace_in L now k s = {}"
  by (auto simp: get_stale_def grace_ok_def grace_in_def cached_for_def split: if_splits option.splits)

lemma source_branches:
  assumes "get_from_source L out k src m = (m', r)"
  shows "(if fresh_in L (o_now out) k (mgr_cache m) \<noteq> {} then (\<exists>v\<in>fresh_in L (o_now out) k (mgr_cache m). r = Ok v) \<and> mgr_fetches m' = mgr_fetches m
     else case not_configured src m of
        Some p \<Rightarrow> r = Err (ProviderNotConfigured p) \<and> mgr_fetches m' = mgr_fetches m
      | None \<Rightarrow> mgr_fetches m' = mgr_fetches m @ [k] \<and>
          (case o_fetch out of
             Inr v \<Rightarrow> r = Ok v \<and> (cc_enabled (sc_config (mgr_cache m)) \<longrightarrow> sc_memory (mgr_cache m') k = Some v)
           | Inl e \<Rightarrow> if grace_in L (o_now out) k (mgr_cache m) \<noteq> {} then \<exists>v\<in>grace_in L (o_now out) k (mgr_cache m). r = Ok v
               else r = Err e))"
proof -
  obtain c1 g where g: "cache_get L (o_now out) k (mgr_cache m) = (c1, g)" by (cases "cache_get L (o_now out) k (mgr_cache m)")
  obtain c2 w where st: "get_stale L (o_now out) k c1 = (c2, w)" by (cases "get_stale L (o_now out) k c1")
  have c1: "c1 = fst (cache_get L (o_now out) k (mgr_cache m))" by (simp add: g)
  have gr: "grace_in L (o_now out) k c1 = grace_in L (o_now out) k (mgr_cache m)"
    by (simp add: grace_in_def c1 cached_frame cache_get_frame)
  have cfg: "sc_config c1 = sc_config (mgr_cache m)" by (simp add: c1 cache_get_frame)
  have mem: "sc_memory (fst (cache_set L n io k v c)) k = Some v" if "cc_enabled (sc_config c)" for n io v c
    using that by (simp add: cache_set_def save_to_disk_def Let_def split: option.split sum.split)
  show ?thesis
  proof (cases g)
    case (Some v)
    with g get_some[of L "o_now out" k "mgr_cache m" c1 v] assms show ?thesis by (auto simp: get_from_source_def)
  next
    case None
    have nf: "fresh_in L (o_now out) k (mgr_cache m) = {}" using g None by (simp add: get_none)
    show ?thesis
    proof (cases "not_configured src m")
      case (Some p)
      with g None nf assms show ?thesis by (auto simp: get_from_source_def)
    next
      case nc: None
      show ?thesis
      proof (cases "o_fetch out")
        case (Inr v)
        with g None nc assms have "m' = m\<lparr>mgr_fetches := mgr_fetches m @ [k], mgr_cache := fst (cache_set L (o_nonce out) (o_write out) k v c1)\<rparr>" "r = Ok v"
          by (auto simp: get_from_source_def Let_def)
        with Inr nf nc show ?thesis by (simp add: mem cfg)
      next
        case (Inl e)
        show ?thesis
        proof (cases w)
          case w: None
          with g None nc Inl st assms have "m' = m\<lparr>mgr_fetches := mgr_fetches m @ [k], mgr_cache := c2\<rparr>" "r = Err e"
            by (auto simp: get_from_source_def Let_def)
          with nf nc Inl w st stale_none[of L "o_now out" k c1 c2] gr show ?thesis by simp
        next
          case (Some x)
          with g None nc Inl st assms have "m' = m\<lparr>mgr_fetches := mgr_fetches m @ [k], mgr_cache := c2\<rparr>" "r = Ok x"
            by (auto simp: get_from_source_def Let_def)
          with nf nc Inl Some st stale_some[of L "o_now out" k c1 c2 x] gr show ?thesis by auto
        qed
      qed
    qed
  qed
qed

text \<open>C32. What a lookup by name answers, on every branch. An unknown name is reported and nothing happens. With a fresh
  cached copy (memory or disk) one of those is returned and no provider is called. Otherwise: an unconfigured provider
  is reported; a provider that answers is believed, and its answer is in the memory tier when the cache is on; when it
  fails, a copy within the grace period is returned, and the provider's error only when there is none.\<close>

theorem mgr_get_contract:
  assumes "mgr_get L out name m = (m', r)"
  shows "(case map_of (mgr_sources m) name of
       None \<Rightarrow> m' = m \<and> r = Err (SecNotFound (''unknown secret source: '' @ name))
     | Some src \<Rightarrow>
        if fresh_in L (o_now out) name (mgr_cache m) \<noteq> {}
        then (\<exists>v\<in>fresh_in L (o_now out) name (mgr_cache m). r = Ok v) \<and> mgr_fetches m' = mgr_fetches m
        else case not_configured src m of
          Some p \<Rightarrow> r = Err (ProviderNotConfigured p) \<and> mgr_fetches m' = mgr_fetches m
        | None \<Rightarrow> mgr_fetches m' = mgr_fetches m @ [name] \<and>
            (case o_fetch out of
               Inr v \<Rightarrow> r = Ok v \<and> (cc_enabled (sc_config (mgr_cache m)) \<longrightarrow> sc_memory (mgr_cache m') name = Some v)
             | Inl e \<Rightarrow> if grace_in L (o_now out) name (mgr_cache m) \<noteq> {} then \<exists>v\<in>grace_in L (o_now out) name (mgr_cache m). r = Ok v
                 else r = Err e))"
proof (cases "map_of (mgr_sources m) name")
  case None
  with assms show ?thesis by (simp add: mgr_get_def)
next
  case (Some src)
  with assms have "get_from_source L out name src m = (m', r)" by (simp add: mgr_get_def)
  from source_branches[OF this] Some show ?thesis by simp
qed

text \<open>Operations during an outage: every provider fails and the cache is not cleared.\<close>

definition down :: "mgr_op \<Rightarrow> bool" where
  "down x = (case x of MGet out _ \<Rightarrow> (\<exists>e. o_fetch out = Inl e) | MGetFile out _ \<Rightarrow> (\<exists>e. o_fetch out = Inl e)
     | MRefresh out \<Rightarrow> (\<forall>n. \<exists>e. o_fetch (out n) = Inl e) | MClear _ \<Rightarrow> False)"

definition same_env :: "secrets_manager \<Rightarrow> secrets_manager \<Rightarrow> bool" where
  "same_env m m' \<longleftrightarrow> sc_memory (mgr_cache m') = sc_memory (mgr_cache m) \<and> sc_config (mgr_cache m') = sc_config (mgr_cache m)
     \<and> mgr_sources m' = mgr_sources m \<and> has_vault m' = has_vault m \<and> has_aws m' = has_aws m"

lemma same_env_trans: "same_env m m1 \<Longrightarrow> same_env m1 m2 \<Longrightarrow> same_env m m2"
  by (simp add: same_env_def)

lemma frames_of:
  assumes "cache_get L now k s = (c, r)"
  shows "sc_memory c = sc_memory s" "sc_config c = sc_config s"
  using cache_get_frame[of L now k s] assms by simp_all

lemma source_down:
  assumes "o_fetch out = Inl e"
  shows "same_env m (fst (get_from_source L out k src m))"
proof -
  obtain c1 g where g: "cache_get L (o_now out) k (mgr_cache m) = (c1, g)" by (cases "cache_get L (o_now out) k (mgr_cache m)")
  obtain c2 w where st: "get_stale L (o_now out) k c1 = (c2, w)" by (cases "get_stale L (o_now out) k c1")
  have "sc_memory c2 = sc_memory c1" "sc_config c2 = sc_config c1" using get_stale_frame[of L "o_now out" k c1] st by simp_all
  with frames_of[OF g] assms show ?thesis
    by (simp add: get_from_source_def g st same_env_def Let_def split: option.split)
qed

lemma file_down:
  assumes "o_fetch out = Inl e"
  shows "same_env m (fst (get_file L out p m))"
proof -
  define k where "k = ''file:'' @ p"
  obtain c1 g where g: "cache_get L (o_now out) k (mgr_cache m) = (c1, g)" by (cases "cache_get L (o_now out) k (mgr_cache m)")
  with frames_of[OF g] assms show ?thesis unfolding get_file_def k_def[symmetric]
    by (simp add: same_env_def Let_def split: option.split)
qed

lemma refresh_one_down:
  assumes "o_fetch out = Inl e"
  shows "same_env m (fst (refresh_one L out ns m))"
proof -
  obtain n src where ns: "ns = (n, src)" by (cases ns)
  obtain c1 r where g: "cache_get L (o_now out) n (mgr_cache m) = (c1, r)" by (cases "cache_get L (o_now out) n (mgr_cache m)")
  obtain m' res where f: "get_from_source L out n src (m\<lparr>mgr_cache := c1\<rparr>) = (m', res)"
    by (cases "get_from_source L out n src (m\<lparr>mgr_cache := c1\<rparr>)")
  have "same_env m (m\<lparr>mgr_cache := c1\<rparr>)" using frames_of[OF g] by (simp add: same_env_def)
  moreover have "same_env (m\<lparr>mgr_cache := c1\<rparr>) m'" using source_down[OF assms, of "m\<lparr>mgr_cache := c1\<rparr>" L n src] by (simp add: f)
  ultimately have "same_env m m'" by (rule same_env_trans)
  then show ?thesis by (simp add: refresh_one_def ns g f Let_def same_env_def split: sum.split option.split)
qed

lemma refresh_down:
  assumes "\<forall>n. \<exists>e. o_fetch (out n) = Inl e"
  shows "same_env m (fst (refresh_loop L out nss m))"
proof (induction nss arbitrary: m)
  case (Cons ns nss)
  from assms obtain e where "o_fetch (out (fst ns)) = Inl e" by blast
  from same_env_trans[OF refresh_one_down[OF this] Cons.IH] show ?case by (simp add: case_prod_unfold)
qed (simp add: same_env_def)

lemma step_down: "down x \<Longrightarrow> same_env m (mgr_step L x m)"
proof (cases x)
  case (MGet out n)
  assume "down x"
  with MGet obtain e where "o_fetch out = Inl e" by (auto simp: down_def)
  from source_down[OF this] MGet show ?thesis by (simp add: mgr_step_def mgr_get_def same_env_def split: option.split)
next
  case (MGetFile out p)
  assume "down x"
  with MGetFile obtain e where "o_fetch out = Inl e" by (auto simp: down_def)
  from file_down[OF this] MGetFile show ?thesis by (simp add: mgr_step_def)
next
  case (MRefresh out)
  assume "down x"
  with MRefresh have "\<forall>n. \<exists>e. o_fetch (out n) = Inl e" by (simp add: down_def)
  from refresh_down[OF this] MRefresh show ?thesis by (simp add: mgr_step_def refresh_all_def case_prod_unfold)
qed (simp add: down_def)

lemma run_down: "\<forall>x\<in>set xs. down x \<Longrightarrow> same_env m (mgr_run L xs m)"
proof (induction xs arbitrary: m)
  case (Cons x xs)
  then have "same_env m (mgr_step L x m)" "same_env (mgr_step L x m) (mgr_run L xs (mgr_step L x m))" by (simp_all add: step_down)
  from same_env_trans[OF this] show ?case by (simp add: mgr_run_def)
qed (simp add: mgr_run_def same_env_def)

lemma grace_memory:
  assumes "sc_memory s k = Some v" and "ttl_secs (sc_config s) \<le> ttl_secs (sc_config s) + stale_grace_secs (sc_config s)"
    and "fetched_at v \<le> now" and "now < fetched_at v + (int (unat (ttl_secs (sc_config s))) + int (unat (stale_grace_secs (sc_config s))) + 1) * 10 ^ 9"
  shows "v \<in> grace_in L now k s"
proof -
  have u: "unat (ttl_secs (sc_config s) + stale_grace_secs (sc_config s)) = unat (ttl_secs (sc_config s)) + unat (stale_grace_secs (sc_config s))"
    using assms(2) unat_plus_simple by blast
  have "(now - fetched_at v) div 10 ^ 9 < int (unat (ttl_secs (sc_config s))) + int (unat (stale_grace_secs (sc_config s))) + 1"
    using assms(4) by simp
  then have "nat ((now - fetched_at v) div 10 ^ 9) \<le> unat (ttl_secs (sc_config s)) + unat (stale_grace_secs (sc_config s))"
    by linarith
  with assms(1,3) u show ?thesis by (simp add: grace_in_def cached_for_def is_within_grace_def elapsed_secs_def)
qed

lemma not_configured_cong: "has_vault m' = has_vault m \<Longrightarrow> has_aws m' = has_aws m \<Longrightarrow> not_configured src m' = not_configured src m"
  by (cases src) (simp_all add: not_configured_def)

text \<open>C33. An outage is survived for the time-to-live and the grace period. A secret was fetched with the cache on; from
  then on every provider fails, through any further lookups, file reads and refreshes. Every lookup of it until
  \<open>ttl_secs + stale_grace_secs\<close> whole seconds have passed since the fetch still returns a value (one that is fresh
  or within grace), provided that sum fits in 64 bits.\<close>

theorem outage_survived:
  assumes "map_of (mgr_sources m) name = Some src" and "not_configured src m = None" and "cc_enabled (sc_config (mgr_cache m))"
    and "fresh_in L (o_now out) name (mgr_cache m) = {}" and "o_fetch out = Inr v"
    and "\<forall>x\<in>set xs. down x" and "o_fetch out' = Inl e"
    and "ttl_secs (sc_config (mgr_cache m)) \<le> ttl_secs (sc_config (mgr_cache m)) + stale_grace_secs (sc_config (mgr_cache m))"
    and "fetched_at v \<le> o_now out'"
    and "o_now out' < fetched_at v + (int (unat (ttl_secs (sc_config (mgr_cache m)))) + int (unat (stale_grace_secs (sc_config (mgr_cache m)))) + 1) * 10 ^ 9"
  defines "m1 \<equiv> mgr_run L xs (fst (mgr_get L out name m))"
  shows "\<exists>v'. snd (mgr_get L out' name m1) = Ok v' \<and> v' \<in> fresh_in L (o_now out') name (mgr_cache m1) \<union> grace_in L (o_now out') name (mgr_cache m1)"
proof -
  let ?g = "get_from_source L out name src m"
  have nf: "mgr_get L out name m = ?g" using assms(1) by (simp add: mgr_get_def)
  have f: "sc_memory (mgr_cache (fst ?g)) name = Some v"
    using source_branches[of L out name src m "fst ?g" "snd ?g"] assms(2-5) by simp
  have cfg: "sc_config (mgr_cache (fst ?g)) = sc_config (mgr_cache m)" using sealed_source[of L m out name src] by (simp add: sealed_ext_def)
  have src0: "mgr_sources (fst ?g) = mgr_sources m" "has_vault (fst ?g) = has_vault m" "has_aws (fst ?g) = has_aws m"
    by (simp_all add: get_from_source_def Let_def case_prod_unfold split: option.split sum.split)
  have e: "same_env (fst ?g) m1" using run_down[OF assms(6)] by (simp add: m1_def nf)
  have g: "v \<in> grace_in L (o_now out') name (mgr_cache m1)"
    using e f cfg assms(8-10) by (intro grace_memory) (simp_all add: same_env_def)
  have nc: "not_configured src m1 = None" using assms(2) e src0 not_configured_cong[of m1 m src] by (simp add: same_env_def)
  have "mgr_get L out' name m1 = get_from_source L out' name src m1" using e src0 assms(1) by (simp add: mgr_get_def same_env_def)
  then show ?thesis
    using source_branches[of L out' name src m1 "fst (get_from_source L out' name src m1)" "snd (get_from_source L out' name src m1)"] nc g assms(7)
    by (cases "fresh_in L (o_now out') name (mgr_cache m1) = {}") (auto split: if_splits)
qed

text \<open>\<open>refresh_all\<close> goes through the cache: a source with a fresh copy is not fetched, so no refresh happens before
  the time-to-live is over.\<close>

lemma refresh_skips_fresh:
  assumes "fresh_in L (o_now out) n (mgr_cache m) \<noteq> {}"
  shows "mgr_fetches (fst (refresh_one L out (n, src) m)) = mgr_fetches m"
proof -
  obtain c1 r where g: "cache_get L (o_now out) n (mgr_cache m) = (c1, r)" by (cases "cache_get L (o_now out) n (mgr_cache m)")
  have c1: "c1 = fst (cache_get L (o_now out) n (mgr_cache m))" by (simp add: g)
  obtain m' res where f: "get_from_source L out n src (m\<lparr>mgr_cache := c1\<rparr>) = (m', res)"
    by (cases "get_from_source L out n src (m\<lparr>mgr_cache := c1\<rparr>)")
  have "fresh_in L (o_now out) n c1 \<noteq> {}" using assms by (simp add: fresh_in_def c1 cached_frame cache_get_frame)
  with source_branches[OF f] have "mgr_fetches m' = mgr_fetches m" by simp
  with g f show ?thesis by (simp add: refresh_one_def Let_def split: sum.split option.split)
qed

text \<open>After the time-to-live the old version is not found (the copy is expired), so a provider that answers with the
  very same version still raises a rotation event, with no old version.\<close>

lemma same_version_rotates:
  assumes "fresh_in L (o_now out) n (mgr_cache m) = {}" and "not_configured src m = None"
    and "o_fetch out = Inr v" and "sm_version (sv_metadata v) = Some nv"
  shows "mgr_rotations (fst (refresh_one L out (n, src) m)) = mgr_rotations m @ [(n, None, nv)]"
proof -
  obtain c1 r where g: "cache_get L (o_now out) n (mgr_cache m) = (c1, r)" by (cases "cache_get L (o_now out) n (mgr_cache m)")
  have r: "r = None" using get_some[of L "o_now out" n "mgr_cache m" c1] g assms(1) by (cases r) auto
  have c1: "c1 = fst (cache_get L (o_now out) n (mgr_cache m))" by (simp add: g)
  obtain c2 r2 where g2: "cache_get L (o_now out) n c1 = (c2, r2)" by (cases "cache_get L (o_now out) n c1")
  have "fresh_in L (o_now out) n c1 = {}" using assms(1) by (simp add: fresh_in_def c1 cached_frame cache_get_frame)
  then have r2: "r2 = None" using get_some[of L "o_now out" n c1 c2] g2 by (cases r2) auto
  have "not_configured src (m\<lparr>mgr_cache := c1\<rparr>) = None" using assms(2) not_configured_cong[of "m\<lparr>mgr_cache := c1\<rparr>" m src] by simp
  with g r g2 r2 assms(3,4) show ?thesis by (simp add: refresh_one_def get_from_source_def Let_def)
qed

subsection \<open>A concrete library\<close>

text \<open>Length-prefixed encodings and a cipher that carries its associated data in the clear.\<close>

definition put :: "bytes \<Rightarrow> bytes" where "put bs = replicate (length bs) 1 @ 0 # bs"

definition unput :: "bytes \<Rightarrow> bytes \<times> bytes" where
  "unput xs = (let n = length (takeWhile (\<lambda>b. b = 1) xs) in (take n (drop (Suc n) xs), drop (Suc (2 * n)) xs))"

lemma takeWhile_put: "takeWhile (\<lambda>b. b = (1::byte)) (replicate n 1 @ 0 # r) = replicate n 1"
  by (induction n) simp_all

lemma unput_put [simp]: "unput (put bs @ r) = (bs, r)"
  by (simp add: unput_def put_def takeWhile_put Let_def mult_2)

definition str_bytes :: "string \<Rightarrow> bytes" where "str_bytes cs = map (\<lambda>c. of_nat (of_char c)) cs"
definition bytes_str :: "bytes \<Rightarrow> string" where "bytes_str bs = map (\<lambda>b. char_of (unat b)) bs"

lemma str_bytes_inv [simp]: "bytes_str (str_bytes cs) = cs"
  by (simp add: str_bytes_def bytes_str_def comp_def unat_of_nat map_idI)

lemma bytes_str_inv [simp]: "str_bytes (bytes_str bs) = bs"
proof -
  have "unat b < 256" for b :: byte using unat_less_2p[of b] by simp
  then show ?thesis by (simp add: str_bytes_def bytes_str_def comp_def map_idI of_char_of)
qed

definition put_opt :: "string option \<Rightarrow> bytes" where
  "put_opt x = put (case x of None \<Rightarrow> [] | Some cs \<Rightarrow> 0 # str_bytes cs)"

definition get_opt :: "bytes \<Rightarrow> string option" where
  "get_opt bs = (case bs of [] \<Rightarrow> None | _ # r \<Rightarrow> Some (bytes_str r))"

definition toy_sec_lib :: sec_lib where
  "toy_sec_lib = \<lparr>b64 = bytes_str, unb64 = (\<lambda>cs. Ok (str_bytes cs)), url64 = bytes_str, unurl64 = (\<lambda>cs. Ok (str_bytes cs)),
     derive_key = str_bytes, gcm_encrypt = (\<lambda>k n a p. Ok (put a @ p)),
     gcm_decrypt = (\<lambda>k n a c. if fst (unput c) = a then Some (snd (unput c)) else None),
     env_json = (\<lambda>e. [0x7b, 0x22, 0x76, 0x22, 0x3a] @ put (replicate (env_v e) 0) @ put (str_bytes (env_nonce e)) @ str_bytes (env_ct e)),
     parse_env = (\<lambda>raw. let (v, r) = unput (drop 5 raw); (n, c) = unput r in
        Ok \<lparr>env_v = length v, env_nonce = bytes_str n, env_ct = bytes_str c\<rparr>),
     entry_to_json = (\<lambda>e. put (str_bytes (en_data e)) @ put (replicate (fetched_at_secs e) 0) @ put_opt (sm_version (en_metadata e))
        @ put_opt (sm_source_path (en_metadata e)) @ put_opt (sm_provider (en_metadata e))),
     parse_entry = (\<lambda>raw. let (d, r1) = unput raw; (f, r2) = unput r1; (v, r3) = unput r2; (sp, r4) = unput r3; (pr, r5) = unput r4 in
        Some \<lparr>en_data = bytes_str d, fetched_at_secs = length f,
          en_metadata = \<lparr>sm_version = get_opt v, sm_source_path = get_opt sp, sm_provider = get_opt pr\<rparr>\<rparr>),
     utf8 = str_bytes\<rparr>"

lemma put_opt_inv: "get_opt (fst (unput (put_opt x @ r))) = x" "snd (unput (put_opt x @ r)) = r"
  by (cases x; simp add: put_opt_def get_opt_def)+

lemma put_opt_end: "get_opt (fst (unput (put_opt x))) = x"
  using put_opt_inv(1)[of x "[]"] by simp

lemma toy_laws: "lib_laws toy_sec_lib"
proof -
  have e: "parse_entry toy_sec_lib (entry_to_json toy_sec_lib x) = Some x" for x
    by (simp add: toy_sec_lib_def case_prod_unfold Let_def put_opt_inv put_opt_end)
  have v: "parse_env toy_sec_lib (env_json toy_sec_lib x) = Ok x \<and> looks_like (env_json toy_sec_lib x)" for x
    by (simp add: toy_sec_lib_def case_prod_unfold Let_def looks_like_def)
  have i: "inj (utf8 toy_sec_lib)" by (rule inj_on_inverseI[where g = bytes_str]) (simp add: toy_sec_lib_def)
  have g: "gcm_decrypt toy_sec_lib k n a ct = Some p \<and> (\<forall>a'. a' \<noteq> a \<longrightarrow> gcm_decrypt toy_sec_lib k n a' ct = None)"
    if "gcm_encrypt toy_sec_lib k n a p = Ok ct" for k n a p ct
  proof -
    from that have "ct = put a @ p" by (simp add: toy_sec_lib_def)
    then show ?thesis by (simp add: toy_sec_lib_def)
  qed
  show ?thesis unfolding lib_laws_def using e v i g by (simp add: toy_sec_lib_def)
qed

subsection \<open>Instances\<close>

definition demo_cc :: cache_config where
  "demo_cc = \<lparr>cc_enabled = True, ttl_secs = 60, stale_grace_secs = 30, encryption_key = Some ''k'', allow_plaintext_disk_cache = True\<rparr>"

definition demo_cache :: secret_cache where
  "demo_cache = \<lparr>sc_memory = Map.empty, sc_disk = Map.empty, sc_has_dir = True, sc_config = demo_cc, sc_hits = 0, sc_misses = 0,
     sc_stale_hits = 0, sc_written = []\<rparr>"

definition demo_secret :: secret_value where
  "demo_secret = \<lparr>sv_data = [1, 2], fetched_at = 5, sv_metadata = \<lparr>sm_version = Some ''1'', sm_source_path = None, sm_provider = None\<rparr>\<rparr>"

definition demo_mgr :: secrets_manager where
  "demo_mgr = \<lparr>mgr_cache = demo_cache, mgr_sources = [(''a'', AwsSource ''id'' None)], has_vault = False, has_aws = True,
     mgr_fetches = [], mgr_rotations = []\<rparr>"

definition demo_out :: "int \<Rightarrow> (secret_value, secrets_error) result \<Rightarrow> outside" where
  "demo_out t r = \<lparr>o_now = t, o_nonce = replicate 12 7, o_write = Ok (), o_fetch = r\<rparr>"

lemma demo_new: "cache_new True (Ok ()) Map.empty demo_cc = Ok demo_cache"
  by (simp add: cache_new_def cache_validate_def demo_cc_def demo_cache_def)

lemma demo_fresh: "fresh_in L t k demo_cache = {}"
  by (simp add: fresh_in_def cached_for_def load_from_disk_def demo_cache_def)

theorem disk_never_plaintext_witness:
  "list_all (sealed_under toy_sec_lib demo_cc) (sc_written (mgr_cache (mgr_run toy_sec_lib [MGet (demo_out 6 (Ok demo_secret)) ''a''] demo_mgr)))"
  using disk_never_plaintext[OF demo_new _ _ refl, of demo_mgr toy_sec_lib "[MGet (demo_out 6 (Ok demo_secret)) ''a'']"]
  by (simp add: demo_mgr_def list_all_iff)

theorem disk_roundtrip_witness:
  "load_from_disk toy_sec_lib ''a'' (fst (cache_set toy_sec_lib (replicate 12 7) (Ok ()) ''a'' demo_secret demo_cache)) = Some (whole_secs demo_secret)"
proof -
  obtain s' r where s: "cache_set toy_sec_lib (replicate 12 7) (Ok ()) ''a'' demo_secret demo_cache = (s', r)"
    by (cases "cache_set toy_sec_lib (replicate 12 7) (Ok ()) ''a'' demo_secret demo_cache")
  have "sealed_ext toy_sec_lib demo_cache s'" using sealed_set[of toy_sec_lib demo_cache "replicate 12 7" "Ok ()" "''a''" demo_secret] s by simp
  then have "sc_has_dir s'" "sc_config s' = sc_config demo_cache" by (simp_all add: sealed_ext_def demo_cache_def)
  then show ?thesis
    using disk_roundtrip[OF toy_laws, of demo_cache "''k''" "replicate 12 7" demo_secret "''a''"
        "put (aad_for toy_sec_lib ''a'') @ entry_to_json toy_sec_lib (entry_from_value toy_sec_lib demo_secret)" s' r s' "''b''"] s
    by (simp add: demo_cache_def demo_cc_def demo_secret_def NONCE_LEN_def toy_sec_lib_def)
qed

theorem mgr_get_contract_witness:
  "snd (mgr_get toy_sec_lib (demo_out 6 (Ok demo_secret)) ''a'' demo_mgr) = Ok demo_secret
   \<and> mgr_fetches (fst (mgr_get toy_sec_lib (demo_out 6 (Ok demo_secret)) ''a'' demo_mgr)) = [''a'']"
  using mgr_get_contract[of toy_sec_lib "demo_out 6 (Ok demo_secret)" "''a''" demo_mgr
      "fst (mgr_get toy_sec_lib (demo_out 6 (Ok demo_secret)) ''a'' demo_mgr)" "snd (mgr_get toy_sec_lib (demo_out 6 (Ok demo_secret)) ''a'' demo_mgr)"]
  by (simp add: demo_mgr_def demo_fresh not_configured_def demo_out_def)

lemma demo_facts:
  "map_of (mgr_sources demo_mgr) ''a'' = Some (AwsSource ''id'' None)" "not_configured (AwsSource ''id'' None) demo_mgr = None"
  "cc_enabled (sc_config (mgr_cache demo_mgr))" "fresh_in L (o_now (demo_out t r)) k (mgr_cache demo_mgr) = {}"
  "ttl_secs (sc_config (mgr_cache demo_mgr)) = 60" "stale_grace_secs (sc_config (mgr_cache demo_mgr)) = 30"
  "o_fetch (demo_out t r) = r" "o_now (demo_out t r) = t"
  by (simp_all add: demo_mgr_def demo_fresh not_configured_def demo_out_def) (simp_all add: demo_cache_def demo_cc_def)

theorem outage_survived_witness:
  "\<exists>v'. snd (mgr_get toy_sec_lib (demo_out (80 * 10 ^ 9) (Err (ProviderError ''x''))) ''a''
     (mgr_run toy_sec_lib [MRefresh (\<lambda>_. demo_out (70 * 10 ^ 9) (Err (ProviderError ''x'')))]
       (fst (mgr_get toy_sec_lib (demo_out 6 (Ok demo_secret)) ''a'' demo_mgr)))) = Ok v'"
proof -
  let ?x = "ProviderError ''x''"
  have d: "\<forall>x\<in>set [MRefresh (\<lambda>_. demo_out (70 * 10 ^ 9) (Err ?x))]. down x" by (simp add: down_def demo_facts)
  have b: "fetched_at demo_secret \<le> 80 * 10 ^ 9" "80 * 10 ^ 9 < fetched_at demo_secret + (int (unat (60::u64)) + int (unat (30::u64)) + 1) * 10 ^ 9"
    "(60::u64) \<le> 60 + 30"
    by (simp_all add: demo_secret_def)
  show ?thesis
    using outage_survived[of demo_mgr "''a''" "AwsSource ''id'' None" toy_sec_lib "demo_out 6 (Ok demo_secret)" demo_secret _
        "demo_out (80 * 10 ^ 9) (Err ?x)" ?x, OF demo_facts(1,2,3,4) demo_facts(7) d demo_facts(7)] b
    unfolding demo_facts by blast
qed

end
