(* ===== verification/Str_Match.thy ===== *)
theory Str_Match
  imports Prelude
begin

text \<open>
  \<open>src/strmatch/\<close>: the classifier (\<open>classify.rs\<close>) that turns a parsed regular expression
  into the cheapest plan, the plans' match-time dispatch (\<open>plan.rs\<close>), and the builder, the
  multi-pattern set and the log limiter (\<open>mod.rs\<close>). The regex parser and engine, the literal
  extractor, \<open>memchr\<close>, \<open>memmem\<close> and Aho-Corasick are arguments; what the theorems use of
  them are their documented results. The reference is the meaning of the parsed expression.
\<close>

subsection \<open>Parsed expressions and their meaning\<close>

text \<open>\<open>regex_syntax::hir\<close>: the word-boundary and the line assertions are kept apart by number.\<close>

datatype look = LookStart | LookEnd | LookWord nat | LookLine nat

datatype hir_class = ClassBytes "(byte \<times> byte) list" | ClassUnicode "(nat \<times> nat) list"

datatype hir = HEmpty | HLit bytes | HClass hir_class | HLook look | HRep nat "nat option" hir | HCap hir
  | HConcat "hir list" | HAlt "hir list"

record re_sem =
  sem_look :: "look \<Rightarrow> bytes \<Rightarrow> nat \<Rightarrow> bool"
  sem_utf8 :: "nat \<Rightarrow> bytes"

text \<open>A literal at a place: \<open>hay[i..j]\<close>.\<close>

definition lit_at :: "bytes \<Rightarrow> bytes \<Rightarrow> nat \<Rightarrow> nat \<Rightarrow> bool" where
  "lit_at hay l i j \<longleftrightarrow> j = i + length l \<and> j \<le> length hay \<and> take (length l) (drop i hay) = l"

definition class_words :: "re_sem \<Rightarrow> hir_class \<Rightarrow> bytes set" where
  "class_words S c = (case c of
     ClassBytes rs \<Rightarrow> {[b] | b. \<exists>(x, y)\<in>set rs. x \<le> b \<and> b \<le> y}
   | ClassUnicode rs \<Rightarrow> {sem_utf8 S cp | cp. \<exists>(x, y)\<in>set rs. x \<le> cp \<and> cp \<le> y})"

inductive hmatch :: "re_sem \<Rightarrow> bytes \<Rightarrow> hir \<Rightarrow> nat \<Rightarrow> nat \<Rightarrow> bool" for S hay where
  m_empty: "i \<le> length hay \<Longrightarrow> hmatch S hay HEmpty i i"
| m_lit: "lit_at hay l i j \<Longrightarrow> hmatch S hay (HLit l) i j"
| m_class: "w \<in> class_words S c \<Longrightarrow> lit_at hay w i j \<Longrightarrow> hmatch S hay (HClass c) i j"
| m_look: "i \<le> length hay \<Longrightarrow> (case l of LookStart \<Rightarrow> i = 0 | LookEnd \<Rightarrow> i = length hay | _ \<Rightarrow> sem_look S l hay i) \<Longrightarrow> hmatch S hay (HLook l) i i"
| m_cap: "hmatch S hay h i j \<Longrightarrow> hmatch S hay (HCap h) i j"
| m_nil: "i \<le> length hay \<Longrightarrow> hmatch S hay (HConcat []) i i"
| m_cons: "hmatch S hay h i j \<Longrightarrow> hmatch S hay (HConcat hs) j k \<Longrightarrow> hmatch S hay (HConcat (h # hs)) i k"
| m_alt: "h \<in> set hs \<Longrightarrow> hmatch S hay h i j \<Longrightarrow> hmatch S hay (HAlt hs) i j"
| m_rep0: "i \<le> length hay \<Longrightarrow> hmatch S hay (HRep 0 mx h) i i"
| m_rep: "mx \<noteq> Some 0 \<Longrightarrow> hmatch S hay h i j \<Longrightarrow> hmatch S hay (HRep (n - 1) (map_option (\<lambda>m. m - 1) mx) h) j k \<Longrightarrow> hmatch S hay (HRep n mx h) i k"

inductive_simps hmatch_simps [simp]:
  "hmatch S hay HEmpty i j" "hmatch S hay (HLit l) i j" "hmatch S hay (HClass c) i j" "hmatch S hay (HLook l) i j" "hmatch S hay (HCap h) i j"
  "hmatch S hay (HConcat []) i j" "hmatch S hay (HConcat (h # hs)) i j" "hmatch S hay (HAlt hs) i j"

definition re_matches :: "re_sem \<Rightarrow> hir \<Rightarrow> bytes \<Rightarrow> bool" where
  "re_matches S h hay \<longleftrightarrow> (\<exists>i j. hmatch S hay h i j)"

subsection \<open>Plans\<close>

datatype anchor = Anywhere | AtStart | AtEnd | Exact

datatype shape_op = ContainsByte byte | ByteSet bytes | Contains bytes | StartsWith bytes | EndsWith bytes | ExactMatch bytes

datatype plan = LiteralOnly anchor "bytes list" bool | Shape shape_op | Meta string

datatype matcher_tier = TByte | TLiteral | TLiteralSet | TRegex

text \<open>The library: first and all positions of one of up to three bytes, of a literal; the first and the successive
  non-overlapping hits of a literal set (start, end, index of the literal), leftmost-first or leftmost-longest; the
  parser, the exact prefix literals the extractor finds, and the regex engine.\<close>

record search_lib =
  memchr :: "bytes \<Rightarrow> bytes \<Rightarrow> nat option"
  memchr_iter :: "bytes \<Rightarrow> bytes \<Rightarrow> nat list"
  memmem :: "bytes \<Rightarrow> bytes \<Rightarrow> nat option"
  memmem_iter :: "bytes \<Rightarrow> bytes \<Rightarrow> nat list"
  ac_find :: "bytes list \<Rightarrow> bool \<Rightarrow> bytes \<Rightarrow> (nat \<times> nat \<times> nat) option"
  ac_iter :: "bytes list \<Rightarrow> bool \<Rightarrow> bytes \<Rightarrow> (nat \<times> nat \<times> nat) list"
  acl_find :: "bytes list \<Rightarrow> bool \<Rightarrow> bytes \<Rightarrow> (nat \<times> nat \<times> nat) option"
  acl_iter :: "bytes list \<Rightarrow> bool \<Rightarrow> bytes \<Rightarrow> (nat \<times> nat \<times> nat) list"
  re_parse :: "string \<Rightarrow> (hir, string) result"
  extract_exact :: "hir \<Rightarrow> bytes list option"
  meta_find :: "string \<Rightarrow> bytes \<Rightarrow> (nat \<times> nat) option"
  meta_iter :: "string \<Rightarrow> bytes \<Rightarrow> (nat \<times> nat) list"

definition span_of :: "nat \<times> nat \<times> nat \<Rightarrow> nat \<times> nat" where
  "span_of m = (case m of (s, e, _) \<Rightarrow> (s, e))"

fun anchor_ok :: "anchor \<Rightarrow> bytes \<Rightarrow> nat \<times> nat \<times> nat \<Rightarrow> bool" where
  "anchor_ok Anywhere hay (s, e, _) = True"
| "anchor_ok AtStart hay (s, e, _) = (s = 0)"
| "anchor_ok AtEnd hay (s, e, _) = (e = length hay)"
| "anchor_ok Exact hay (s, e, _) = (s = 0 \<and> e = length hay)"

definition match_set_is :: "search_lib \<Rightarrow> bytes list \<Rightarrow> bool \<Rightarrow> anchor \<Rightarrow> bytes \<Rightarrow> bool" where
  "match_set_is L lits ci a hay = (case a of
     Anywhere \<Rightarrow> ac_find L lits ci hay \<noteq> None
   | AtStart \<Rightarrow> (case ac_find L lits ci hay of None \<Rightarrow> False | Some m \<Rightarrow> anchor_ok AtStart hay m)
   | _ \<Rightarrow> (\<exists>m\<in>set (ac_iter L lits ci hay). anchor_ok a hay m))"

definition match_set_find :: "search_lib \<Rightarrow> bytes list \<Rightarrow> bool \<Rightarrow> anchor \<Rightarrow> bytes \<Rightarrow> (nat \<times> nat) option" where
  "match_set_find L lits ci a hay = (case a of
     Anywhere \<Rightarrow> map_option span_of (ac_find L lits ci hay)
   | AtStart \<Rightarrow> (case ac_find L lits ci hay of None \<Rightarrow> None | Some m \<Rightarrow> if anchor_ok AtStart hay m then Some (span_of m) else None)
   | _ \<Rightarrow> map_option span_of (find (anchor_ok a hay) (ac_iter L lits ci hay)))"

definition starts_with :: "bytes \<Rightarrow> bytes \<Rightarrow> bool" where
  "starts_with hay l \<longleftrightarrow> length l \<le> length hay \<and> take (length l) hay = l"

definition ends_with :: "bytes \<Rightarrow> bytes \<Rightarrow> bool" where
  "ends_with hay l \<longleftrightarrow> length l \<le> length hay \<and> drop (length hay - length l) hay = l"

definition match_shape_find :: "search_lib \<Rightarrow> shape_op \<Rightarrow> bytes \<Rightarrow> (nat \<times> nat) option" where
  "match_shape_find L op hay = (case op of
     ContainsByte b \<Rightarrow> map_option (\<lambda>i. (i, i + 1)) (memchr L [b] hay)
   | ByteSet bs \<Rightarrow> map_option (\<lambda>i. (i, i + 1)) (memchr L bs hay)
   | Contains l \<Rightarrow> map_option (\<lambda>i. (i, i + length l)) (memmem L l hay)
   | StartsWith l \<Rightarrow> if starts_with hay l then Some (0, length l) else None
   | EndsWith l \<Rightarrow> if ends_with hay l then Some (length hay - length l, length hay) else None
   | ExactMatch l \<Rightarrow> if hay = l then Some (0, length hay) else None)"

definition match_shape_is :: "search_lib \<Rightarrow> shape_op \<Rightarrow> bytes \<Rightarrow> bool" where
  "match_shape_is L op hay = (case op of
     ContainsByte b \<Rightarrow> memchr L [b] hay \<noteq> None
   | ByteSet bs \<Rightarrow> memchr L bs hay \<noteq> None
   | Contains l \<Rightarrow> memmem L l hay \<noteq> None
   | StartsWith l \<Rightarrow> starts_with hay l
   | EndsWith l \<Rightarrow> ends_with hay l
   | ExactMatch l \<Rightarrow> hay = l)"

definition collect_set :: "search_lib \<Rightarrow> bytes list \<Rightarrow> bool \<Rightarrow> anchor \<Rightarrow> bytes \<Rightarrow> (nat \<times> nat) list" where
  "collect_set L lits ci a hay = (let ms = filter (anchor_ok a hay) (ac_iter L lits ci hay)
     in map span_of (if a = Anywhere then ms else take 1 ms))"

definition collect_shape :: "search_lib \<Rightarrow> shape_op \<Rightarrow> bytes \<Rightarrow> (nat \<times> nat) list" where
  "collect_shape L op hay = (case op of
     ContainsByte b \<Rightarrow> map (\<lambda>i. (i, i + 1)) (memchr_iter L [b] hay)
   | ByteSet bs \<Rightarrow> map (\<lambda>i. (i, i + 1)) (memchr_iter L bs hay)
   | Contains l \<Rightarrow> map (\<lambda>i. (i, i + length l)) (memmem_iter L l hay)
   | _ \<Rightarrow> (case match_shape_find L op hay of None \<Rightarrow> [] | Some m \<Rightarrow> [m]))"

fun plan_is_match :: "search_lib \<Rightarrow> plan \<Rightarrow> bytes \<Rightarrow> bool" where
  "plan_is_match L (LiteralOnly a lits ci) hay = match_set_is L lits ci a hay"
| "plan_is_match L (Shape op) hay = match_shape_is L op hay"
| "plan_is_match L (Meta p) hay = (meta_find L p hay \<noteq> None)"

fun plan_find :: "search_lib \<Rightarrow> plan \<Rightarrow> bytes \<Rightarrow> (nat \<times> nat) option" where
  "plan_find L (LiteralOnly a lits ci) hay = match_set_find L lits ci a hay"
| "plan_find L (Shape op) hay = match_shape_find L op hay"
| "plan_find L (Meta p) hay = meta_find L p hay"

fun collect_matches :: "search_lib \<Rightarrow> plan \<Rightarrow> bytes \<Rightarrow> (nat \<times> nat) list" where
  "collect_matches L (LiteralOnly a lits ci) hay = collect_set L lits ci a hay"
| "collect_matches L (Shape op) hay = collect_shape L op hay"
| "collect_matches L (Meta p) hay = meta_iter L p hay"

fun merge_literals :: "plan \<Rightarrow> (bytes list \<times> bool) option" where
  "merge_literals (LiteralOnly Anywhere lits ci) = Some (lits, ci)"
| "merge_literals (Shape (ContainsByte b)) = Some ([[b]], False)"
| "merge_literals (Shape (ByteSet bs)) = Some (map (\<lambda>b. [b]) bs, False)"
| "merge_literals (Shape (Contains l)) = Some ([l], False)"
| "merge_literals _ = None"

subsection \<open>The classifier\<close>

definition CLASS_BYTE_CAP :: nat where "CLASS_BYTE_CAP = 16"
definition LITERAL_SET_CAP :: nat where "LITERAL_SET_CAP = 2048"

definition within_cap :: "bytes \<Rightarrow> bytes option" where
  "within_cap out = (if length out > CLASS_BYTE_CAP then None else Some out)"

fun collect_class_bytes :: "hir_class \<Rightarrow> bytes option" where
  "collect_class_bytes (ClassBytes rs) = within_cap (concat (map (\<lambda>(x, y). map of_nat [unat x..<Suc (unat y)]) rs))"
| "collect_class_bytes (ClassUnicode rs) =
     (if \<exists>(x, y)\<in>set rs. 0x7f < y then None else within_cap (concat (map (\<lambda>(x, y). map of_nat [x..<Suc y]) rs)))"

text \<open>The reason of the first disqualifying feature.\<close>

fun hard_reject :: "hir \<Rightarrow> string option" and hard_reject_any :: "hir list \<Rightarrow> string option" where
  "hard_reject (HLook l) = (case l of LookStart \<Rightarrow> None | LookEnd \<Rightarrow> None | LookWord _ \<Rightarrow> Some ''word-boundary'' | LookLine _ \<Rightarrow> Some ''multiline-anchor'')"
| "hard_reject (HRep n mx h) = (if mx = Some n then hard_reject h else Some ''unbounded-quantifier'')"
| "hard_reject (HCap h) = hard_reject h"
| "hard_reject (HClass c) = (if collect_class_bytes c = None then Some ''unicode-class'' else None)"
| "hard_reject (HConcat hs) = hard_reject_any hs"
| "hard_reject (HAlt hs) = hard_reject_any hs"
| "hard_reject HEmpty = None"
| "hard_reject (HLit l) = None"
| "hard_reject_any [] = None"
| "hard_reject_any (h # hs) = (case hard_reject h of None \<Rightarrow> hard_reject_any hs | Some r \<Rightarrow> Some r)"

definition simple_literal :: "bytes \<Rightarrow> shape_op option" where
  "simple_literal bs = (case bs of [] \<Rightarrow> None | [b] \<Rightarrow> Some (ContainsByte b) | _ \<Rightarrow> Some (Contains bs))"

definition simple_class :: "hir_class \<Rightarrow> shape_op option" where
  "simple_class c = (case collect_class_bytes c of
     None \<Rightarrow> None
   | Some bs \<Rightarrow> (case bs of [] \<Rightarrow> None | [b] \<Rightarrow> Some (ContainsByte b) | _ \<Rightarrow> if length bs \<le> 3 then Some (ByteSet bs) else None))"

text \<open>A run of literals, captures of literals included.\<close>

fun collect_parts :: "hir list \<Rightarrow> bytes option" and node_literal :: "hir \<Rightarrow> bytes option" and capture_literal_bytes :: "hir \<Rightarrow> bytes option" where
  "collect_parts [] = Some []"
| "collect_parts (p # ps) = (case node_literal p of None \<Rightarrow> None | Some b \<Rightarrow> (case collect_parts ps of None \<Rightarrow> None | Some bs \<Rightarrow> Some (b @ bs)))"
| "node_literal (HLit b) = Some b"
| "node_literal (HCap h) = capture_literal_bytes h"
| "node_literal _ = None"
| "capture_literal_bytes (HLit b) = Some b"
| "capture_literal_bytes (HConcat ps) = (if ps = [] then None else collect_parts ps)"
| "capture_literal_bytes _ = None"

definition collect_literal_bytes :: "hir list \<Rightarrow> bytes option" where
  "collect_literal_bytes ps = (if ps = [] then None else collect_parts ps)"

definition strip_anchors :: "hir list \<Rightarrow> (bool \<times> hir list \<times> bool) option" where
  "strip_anchors parts =
     (let start = (parts \<noteq> [] \<and> hd parts = HLook LookStart); lo = (if start then 1 else 0);
          fin = (parts \<noteq> [] \<and> last parts = HLook LookEnd); hi = length parts - (if fin then 1 else 0)
      in if hi \<le> lo then None else Some (start, drop lo (take hi parts), fin))"

definition anchored_literal :: "hir list \<Rightarrow> shape_op option" where
  "anchored_literal parts = (case strip_anchors parts of
     None \<Rightarrow> None
   | Some (s, body, e) \<Rightarrow>
       (case collect_literal_bytes body of
          None \<Rightarrow> None
        | Some bs \<Rightarrow>
            if bs = [] then None
            else if s \<and> e then Some (ExactMatch bs) else if s then Some (StartsWith bs) else if e then Some (EndsWith bs)
            else simple_literal bs))"

fun try_simple_shape :: "hir \<Rightarrow> shape_op option" where
  "try_simple_shape (HLit l) = simple_literal l"
| "try_simple_shape (HClass c) = simple_class c"
| "try_simple_shape (HConcat ps) = anchored_literal ps"
| "try_simple_shape (HCap h) = try_simple_shape h"
| "try_simple_shape _ = None"

fun anchor_of :: "bool \<Rightarrow> bool \<Rightarrow> anchor" where
  "anchor_of True True = Exact"
| "anchor_of True False = AtStart"
| "anchor_of False True = AtEnd"
| "anchor_of False False = Anywhere"

fun strip_outer_concat_anchors :: "hir \<Rightarrow> (anchor \<times> hir) option" where
  "strip_outer_concat_anchors (HConcat parts) = (case strip_anchors parts of
     None \<Rightarrow> None
   | Some (s, body, e) \<Rightarrow> (case body of [h] \<Rightarrow> Some (anchor_of s e, h) | _ \<Rightarrow> None))"
| "strip_outer_concat_anchors h = Some (Anywhere, h)"

fun branch_literal :: "hir \<Rightarrow> bytes option" where
  "branch_literal (HLit b) = Some b"
| "branch_literal (HConcat ps) = collect_literal_bytes ps"
| "branch_literal (HCap h) = capture_literal_bytes h"
| "branch_literal _ = None"

fun branch_literals :: "hir list \<Rightarrow> bytes list option" where
  "branch_literals [] = Some []"
| "branch_literals (h # hs) = (case branch_literal h of
     None \<Rightarrow> None
   | Some b \<Rightarrow> if b = [] then None else (case branch_literals hs of None \<Rightarrow> None | Some bs \<Rightarrow> Some (b # bs)))"

text \<open>Building the automaton of a few thousand literals does not fail.\<close>

definition try_literal_alternation :: "hir \<Rightarrow> (anchor \<times> bytes list) option" where
  "try_literal_alternation h = (case strip_outer_concat_anchors h of
     Some (a, HAlt branches) \<Rightarrow>
       (case branch_literals branches of
          None \<Rightarrow> None
        | Some lits \<Rightarrow> if length lits < 2 \<or> LITERAL_SET_CAP < length lits then None else Some (a, lits))
   | _ \<Rightarrow> None)"

definition try_single_literal_for_case_insensitive :: "hir \<Rightarrow> (anchor \<times> bytes list) option" where
  "try_single_literal_for_case_insensitive h = (case strip_outer_concat_anchors h of
     None \<Rightarrow> None
   | Some (a, inner) \<Rightarrow> (case branch_literal inner of None \<Rightarrow> None | Some b \<Rightarrow> if b = [] then None else Some (a, [b])))"

definition try_extractor_fallback :: "search_lib \<Rightarrow> hir \<Rightarrow> (anchor \<times> bytes list) option" where
  "try_extractor_fallback L h = (case extract_exact L h of
     None \<Rightarrow> None
   | Some lits \<Rightarrow> if length lits < 2 \<or> LITERAL_SET_CAP < length lits then None else Some (Anywhere, lits))"

fun tier_for_shape :: "shape_op \<Rightarrow> matcher_tier" where
  "tier_for_shape (ContainsByte _) = TByte"
| "tier_for_shape (ByteSet _) = TByte"
| "tier_for_shape (Contains _) = TLiteral"
| "tier_for_shape (StartsWith l) = (if length l = 1 then TByte else TLiteral)"
| "tier_for_shape (EndsWith l) = (if length l = 1 then TByte else TLiteral)"
| "tier_for_shape (ExactMatch l) = (if length l = 1 then TByte else TLiteral)"

fun shape_reason :: "shape_op \<Rightarrow> string" where
  "shape_reason (ContainsByte _) = ''shape:contains-byte''"
| "shape_reason (ByteSet _) = ''shape:byte-set''"
| "shape_reason (Contains _) = ''shape:contains-literal''"
| "shape_reason (StartsWith _) = ''shape:starts-with''"
| "shape_reason (EndsWith _) = ''shape:ends-with''"
| "shape_reason (ExactMatch _) = ''shape:exact-match''"

record classified =
  cl_plan :: plan
  cl_tier :: matcher_tier
  cl_reason :: string

datatype build_error = EmptyPattern | SyntaxError string string | TierTooLow string matcher_tier matcher_tier string

definition classify_pattern :: "search_lib \<Rightarrow> string \<Rightarrow> bool \<Rightarrow> (classified, build_error) result" where
  "classify_pattern L pattern ci =
     (if pattern = '''' then Err EmptyPattern
      else case re_parse L pattern of
        Inl e \<Rightarrow> Err (SyntaxError pattern e)
      | Inr h \<Rightarrow> Ok
          (case hard_reject h of
             Some reason \<Rightarrow> \<lparr>cl_plan = Meta pattern, cl_tier = TRegex, cl_reason = reason\<rparr>
           | None \<Rightarrow>
               (case if ci then None else try_simple_shape h of
                  Some op \<Rightarrow> \<lparr>cl_plan = Shape op, cl_tier = tier_for_shape op, cl_reason = shape_reason op\<rparr>
                | None \<Rightarrow>
                    (case try_literal_alternation h of
                       Some (a, lits) \<Rightarrow> \<lparr>cl_plan = LiteralOnly a lits ci, cl_tier = TLiteralSet, cl_reason = ''literal-only:alternation''\<rparr>
                     | None \<Rightarrow>
                         (case if ci then try_single_literal_for_case_insensitive h else None of
                            Some (a, lits) \<Rightarrow> \<lparr>cl_plan = LiteralOnly a lits ci, cl_tier = TLiteralSet, cl_reason = ''literal-only:case-insensitive''\<rparr>
                          | None \<Rightarrow>
                              (case try_extractor_fallback L h of
                                 Some (a, lits) \<Rightarrow> \<lparr>cl_plan = LiteralOnly a lits ci, cl_tier = TLiteralSet, cl_reason = ''literal-only:extracted''\<rparr>
                               | None \<Rightarrow> \<lparr>cl_plan = Meta pattern, cl_tier = TRegex, cl_reason = ''complex-shape''\<rparr>))))))"

subsection \<open>Simple shapes are exact\<close>

lemma lit_at_append: "lit_at hay (x @ y) i k \<longleftrightarrow> (\<exists>j. lit_at hay x i j \<and> lit_at hay y j k)"
proof -
  have "take (length x + length y) (drop i hay) = x @ y \<longleftrightarrow> take (length x) (drop i hay) = x \<and> take (length y) (drop (i + length x) hay) = y"
    if "i + length x + length y \<le> length hay"
  proof -
    have s: "take (length x + length y) (drop i hay) = take (length x) (drop i hay) @ take (length y) (drop (i + length x) hay)"
      by (simp add: take_add add.commute)
    have "length (take (length x) (drop i hay)) = length x" using that by simp
    then show ?thesis unfolding s by simp
  qed
  then show ?thesis by (auto simp: lit_at_def add.assoc)
qed

lemma hmatch_bound: "hmatch S hay h i j \<Longrightarrow> i \<le> j \<and> j \<le> length hay"
  by (induction rule: hmatch.induct) (auto simp: lit_at_def)

lemma concat_append: "hmatch S hay (HConcat (hs @ gs)) i k \<longleftrightarrow> (\<exists>j. hmatch S hay (HConcat hs) i j \<and> hmatch S hay (HConcat gs) j k)"
proof (induction hs arbitrary: i)
  case Nil
  then show ?case using hmatch_bound[of S hay "HConcat gs" i k] by auto
next
  case (Cons h hs)
  then show ?case by auto
qed

lemma literal_nodes:
  "collect_parts ps = Some b \<Longrightarrow> ps \<noteq> [] \<Longrightarrow> hmatch S hay (HConcat ps) i j \<longleftrightarrow> lit_at hay b i j"
  "node_literal p = Some b \<Longrightarrow> hmatch S hay p i j \<longleftrightarrow> lit_at hay b i j"
  "capture_literal_bytes h = Some b \<Longrightarrow> hmatch S hay h i j \<longleftrightarrow> lit_at hay b i j"
proof (induction ps and p and h arbitrary: b i j and b i j and b i j rule: collect_parts_node_literal_capture_literal_bytes.induct)
  case (2 p ps)
  obtain x y where x: "node_literal p = Some x" "collect_parts ps = Some y" "b = x @ y"
    using "2.prems"(1) by (auto split: option.splits)
  show ?case
  proof (cases "ps = []")
    case True
    with x 2(1)[OF x(1)] show ?thesis by (auto simp: lit_at_def)
  next
    case False
    with x 2(1)[OF x(1)] 2(2)[OF x(1,2)] show ?thesis by (simp add: lit_at_append)
  qed
qed (auto split: if_splits)

lemma strip_anchors_parts:
  assumes "strip_anchors parts = Some (s, body, e)"
  shows "parts = (if s then [HLook LookStart] else []) @ body @ (if e then [HLook LookEnd] else [])" and "body \<noteq> []"
proof -
  let ?hi = "length parts - (if e then 1 else 0)" and ?lo = "if s then 1 else 0 :: nat"
  have a: "s = (parts \<noteq> [] \<and> hd parts = HLook LookStart)" "e = (parts \<noteq> [] \<and> last parts = HLook LookEnd)"
      "\<not> ?hi \<le> ?lo" "body = drop ?lo (take ?hi parts)"
    using assms by (auto simp: strip_anchors_def Let_def split: if_splits)
  show "body \<noteq> []" using a(3,4) by auto
  have "parts = take ?hi parts @ drop ?hi parts" by simp
  also have "drop ?hi parts = (if e then [HLook LookEnd] else [])"
    using a(2) by (cases parts rule: rev_cases) auto
  also have "take ?hi parts = take ?lo (take ?hi parts) @ body" unfolding a(4) by (rule append_take_drop_id[symmetric])
  also have "take ?lo (take ?hi parts) = (if s then [HLook LookStart] else [])"
    using a(1,3) by (cases parts) (auto simp: take_Suc min_def)
  finally show "parts = (if s then [HLook LookStart] else []) @ body @ (if e then [HLook LookEnd] else [])" by simp
qed

lemma anchored_match:
  assumes "strip_anchors parts = Some (s, body, e)"
  shows "hmatch S hay (HConcat parts) i j \<longleftrightarrow> hmatch S hay (HConcat body) i j \<and> (s \<longrightarrow> i = 0) \<and> (e \<longrightarrow> j = length hay)"
  using hmatch_bound[of S hay "HConcat body" i j]
  unfolding strip_anchors_parts(1)[OF assms] by (auto simp: concat_append)

fun shape_span :: "shape_op \<Rightarrow> bytes \<Rightarrow> nat \<Rightarrow> nat \<Rightarrow> bool" where
  "shape_span (ContainsByte b) hay i j = lit_at hay [b] i j"
| "shape_span (ByteSet bs) hay i j = (\<exists>b\<in>set bs. lit_at hay [b] i j)"
| "shape_span (Contains l) hay i j = lit_at hay l i j"
| "shape_span (StartsWith l) hay i j = (lit_at hay l i j \<and> i = 0)"
| "shape_span (EndsWith l) hay i j = (lit_at hay l i j \<and> j = length hay)"
| "shape_span (ExactMatch l) hay i j = (lit_at hay l i j \<and> i = 0 \<and> j = length hay)"

definition utf8_ok :: "re_sem \<Rightarrow> bool" where
  "utf8_ok S \<longleftrightarrow> (\<forall>cp\<le>0x7f. sem_utf8 S cp = [of_nat cp])"

lemma simple_literal_span: "simple_literal l = Some op \<Longrightarrow> shape_span op hay i j \<longleftrightarrow> lit_at hay l i j"
  by (auto simp: simple_literal_def split: list.splits)

lemma byte_range: "set (map of_nat [unat x..<Suc (unat y)]) = {b :: byte. x \<le> b \<and> b \<le> y}"
proof (intro equalityI subsetI)
  fix b :: byte assume "b \<in> set (map of_nat [unat x..<Suc (unat y)])"
  then obtain n where n: "b = of_nat n" "unat x \<le> n" "n \<le> unat y" by auto
  then have "unat b = n" using unat_less_2p[of y] by (simp add: unat_of_nat)
  with n show "b \<in> {b. x \<le> b \<and> b \<le> y}" by (simp add: word_le_nat_alt)
next
  fix b :: byte assume "b \<in> {b. x \<le> b \<and> b \<le> y}"
  then have "unat b \<in> set [unat x..<Suc (unat y)]" by (auto simp: word_le_nat_alt)
  then have "of_nat (unat b) \<in> set (map of_nat [unat x..<Suc (unat y)] :: byte list)" by (metis image_eqI set_map)
  then show "b \<in> set (map of_nat [unat x..<Suc (unat y)])" by simp
qed

lemma class_words_collect:
  assumes "utf8_ok S" and "collect_class_bytes c = Some bs"
  shows "class_words S c = {[b] | b. b \<in> set bs}"
proof (cases c)
  case (ClassBytes rs)
  then have "bs = concat (map (\<lambda>(x, y). map of_nat [unat x..<Suc (unat y)]) rs)"
    using assms(2) by (simp add: within_cap_def del: upt_Suc split: if_splits)
  then have "set bs = (\<Union>z\<in>set rs. set ((\<lambda>(x, y). map of_nat [unat x..<Suc (unat y)]) z))" by (simp del: upt_Suc)
  also have "\<dots> = (\<Union>(x, y)\<in>set rs. {b. x \<le> b \<and> b \<le> y})"
    by (intro SUP_cong refl) (simp only: split_paired_all prod.case byte_range)
  finally show ?thesis using ClassBytes by (auto simp: class_words_def)
next
  case (ClassUnicode rs)
  then have le: "\<forall>(x, y)\<in>set rs. y \<le> 0x7f" and c: "bs = concat (map (\<lambda>(x, y). map of_nat [x..<Suc y]) rs)"
    using assms(2) by (auto simp: within_cap_def not_less simp del: upt_Suc split: if_splits)
  have "set bs = (\<Union>z\<in>set rs. set ((\<lambda>(x, y). map of_nat [x..<Suc y]) z))" unfolding c by (simp del: upt_Suc)
  also have "\<dots> = (\<Union>(x, y)\<in>set rs. of_nat ` {x..y})"
    by (intro SUP_cong refl) (simp add: split_paired_all atLeastLessThanSuc_atLeastAtMost del: upt_Suc)
  finally have bs: "set bs = (\<Union>(x, y)\<in>set rs. of_nat ` {x..y})" .
  have u: "sem_utf8 S cp = [of_nat cp]" if "(x, y) \<in> set rs" "cp \<le> y" for x y cp
  proof -
    have "y \<le> 0x7f" using le that(1) by blast
    with that(2) assms(1) show ?thesis by (simp add: utf8_ok_def)
  qed
  show ?thesis
  proof (intro equalityI subsetI)
    fix w assume "w \<in> class_words S c"
    then obtain cp x y where "(x, y) \<in> set rs" "x \<le> cp" "cp \<le> y" "w = sem_utf8 S cp" using ClassUnicode by (auto simp: class_words_def)
    then show "w \<in> {[b] | b. b \<in> set bs}" unfolding bs by (auto simp: u intro!: bexI[of _ "(x, y)"])
  next
    fix w assume "w \<in> {[b] | b. b \<in> set bs}"
    then obtain cp x y where "(x, y) \<in> set rs" "x \<le> cp" "cp \<le> y" "w = [of_nat cp]" unfolding bs by auto
    moreover from this have "w = sem_utf8 S cp" using u[of x y cp] by simp
    ultimately show "w \<in> class_words S c" unfolding class_words_def ClassUnicode hir_class.case
      by (intro CollectI exI[of _ cp] conjI bexI[of _ "(x, y)"]) auto
  qed
qed

lemma simple_class_span:
  assumes "utf8_ok S" and "simple_class c = Some op"
  shows "hmatch S hay (HClass c) i j \<longleftrightarrow> shape_span op hay i j"
proof -
  obtain bs where bs: "collect_class_bytes c = Some bs" using assms(2) by (auto simp: simple_class_def split: option.splits)
  have "hmatch S hay (HClass c) i j \<longleftrightarrow> (\<exists>b\<in>set bs. lit_at hay [b] i j)"
    using class_words_collect[OF assms(1) bs] by auto
  with assms(2) bs show ?thesis by (auto simp: simple_class_def split: list.splits if_splits)
qed

lemma shape_meaning:
  assumes "utf8_ok S" and "try_simple_shape h = Some op"
  shows "hmatch S hay h i j \<longleftrightarrow> shape_span op hay i j"
  using assms(2)
proof (induction h rule: try_simple_shape.induct)
  case (1 l)
  then show ?case by (simp add: simple_literal_span)
next
  case (2 c)
  then show ?case using simple_class_span[OF assms(1)] by simp
next
  case (3 ps)
  obtain s body e where sa: "strip_anchors ps = Some (s, body, e)" using 3 by (auto simp: anchored_literal_def split: option.splits)
  obtain bs where bs: "collect_literal_bytes body = Some bs" "bs \<noteq> []"
    using 3 sa by (auto simp: anchored_literal_def split: option.splits if_splits)
  have "hmatch S hay (HConcat body) i j \<longleftrightarrow> lit_at hay bs i j"
    using literal_nodes(1)[of body bs S hay i j] bs(1) by (simp add: collect_literal_bytes_def split: if_splits)
  with anchored_match[OF sa] 3 sa bs show ?case
    by (auto simp: anchored_literal_def simple_literal_span split: if_splits)
qed auto

subsection \<open>The search libraries\<close>

text \<open>Case folding of ASCII letters, and a hit of a literal set.\<close>

definition fold_byte :: "bool \<Rightarrow> byte \<Rightarrow> byte" where
  "fold_byte ci b = (if ci \<and> 0x41 \<le> b \<and> b \<le> 0x5a then b + 0x20 else b)"

definition set_hit :: "bytes list \<Rightarrow> bool \<Rightarrow> bytes \<Rightarrow> nat \<times> nat \<times> nat \<Rightarrow> bool" where
  "set_hit lits ci hay m = (case m of (s, e, k) \<Rightarrow> k < length lits \<and> lit_at (map (fold_byte ci) hay) (map (fold_byte ci) (lits ! k)) s e)"

text \<open>The documented result of a leftmost-first search from a position: the smallest start, and there the literal
  listed first; iteration goes on behind each hit.\<close>

definition lf_hit :: "bytes list \<Rightarrow> bool \<Rightarrow> bytes \<Rightarrow> nat \<Rightarrow> (nat \<times> nat \<times> nat) option" where
  "lf_hit lits ci hay from = find (set_hit lits ci hay)
     (concat (map (\<lambda>s. map (\<lambda>k. (s, s + length (lits ! k), k)) [0..<length lits]) [from..<Suc (length hay)]))"

function lf_iter :: "bytes list \<Rightarrow> bool \<Rightarrow> bytes \<Rightarrow> nat \<Rightarrow> (nat \<times> nat \<times> nat) list" where
  "lf_iter lits ci hay from = (case lf_hit lits ci hay from of
     None \<Rightarrow> []
   | Some (s, e, k) \<Rightarrow> (s, e, k) # (if from < e \<and> e \<le> length hay then lf_iter lits ci hay e else []))"
  by pat_completeness auto
termination by (relation "measure (\<lambda>(lits, ci, hay, from). length hay - from)") auto

declare lf_iter.simps [simp del]

definition search_ok :: "search_lib \<Rightarrow> bool" where
  "search_ok L \<longleftrightarrow> (\<forall>bs hay. memchr L bs hay = find (\<lambda>i. hay ! i \<in> set bs) [0..<length hay])
     \<and> (\<forall>l hay. l \<noteq> [] \<longrightarrow> memmem L l hay = find (\<lambda>i. lit_at hay l i (i + length l)) [0..<Suc (length hay)])
     \<and> (\<forall>lits ci hay. ac_find L lits ci hay = lf_hit lits ci hay 0 \<and> ([] \<notin> set lits \<longrightarrow> ac_iter L lits ci hay = lf_iter lits ci hay 0))
     \<and> (\<forall>lits ci hay. (case acl_find L lits ci hay of
          None \<Rightarrow> \<forall>m. \<not> set_hit lits ci hay m
        | Some m \<Rightarrow> set_hit lits ci hay m \<and> (\<forall>m'. set_hit lits ci hay m' \<longrightarrow> fst m \<le> fst m' \<and> (fst m' = fst m \<longrightarrow> fst (snd m') \<le> fst (snd m)))))"

lemma find_upt_Some:
  assumes "find P [0..<n] = Some i"
  shows "P i" "i < n" "\<And>j. j < n \<Longrightarrow> P j \<Longrightarrow> i \<le> j"
proof -
  from assms obtain k where k: "k < n" "P k" "i = k" "\<forall>j<k. \<not> P j" by (auto simp: find_Some_iff)
  then show "P i" "i < n" by simp_all
  fix j assume "j < n" "P j"
  with k show "i \<le> j" by (meson not_le)
qed

lemma find_upt_None: "find P [0..<n] = None \<longleftrightarrow> (\<forall>i<n. \<not> P i)"
  by (auto simp: find_None_iff)

lemma lit_at_byte: "lit_at hay [b] i j \<longleftrightarrow> i < length hay \<and> hay ! i = b \<and> j = Suc i"
  by (auto simp: lit_at_def take_Suc_conv_app_nth Cons_nth_drop_Suc[symmetric])

lemma lit_at_bound: "lit_at hay l i j \<Longrightarrow> i \<le> length hay"
  by (simp add: lit_at_def)

lemma lit_at_start: "lit_at hay l 0 j \<longleftrightarrow> starts_with hay l \<and> j = length l"
  by (auto simp: lit_at_def starts_with_def)

lemma lit_at_end: "lit_at hay l i (length hay) \<longleftrightarrow> ends_with hay l \<and> i = length hay - length l"
proof
  assume "lit_at hay l i (length hay)"
  then show "ends_with hay l \<and> i = length hay - length l" by (auto simp: lit_at_def ends_with_def)
next
  assume "ends_with hay l \<and> i = length hay - length l"
  then show "lit_at hay l i (length hay)" by (auto simp: lit_at_def ends_with_def)
qed

text \<open>The place a shape's search returns is the leftmost match, and it returns none only when there is none.\<close>

lemma shape_find_leftmost:
  assumes "search_ok L" and "\<forall>l. op = Contains l \<longrightarrow> l \<noteq> []"
  shows "case match_shape_find L op hay of
      None \<Rightarrow> \<forall>i j. \<not> shape_span op hay i j
    | Some (i, j) \<Rightarrow> shape_span op hay i j \<and> (\<forall>i' j'. shape_span op hay i' j' \<longrightarrow> i \<le> i')"
proof -
  have mc: "memchr L bs hay = find (\<lambda>i. hay ! i \<in> set bs) [0..<length hay]" for bs using assms(1) by (simp add: search_ok_def)
  have byteset: "case map_option (\<lambda>i. (i, i + 1)) (memchr L bs hay) of
      None \<Rightarrow> \<forall>i j. \<not> (\<exists>b\<in>set bs. lit_at hay [b] i j)
    | Some (i, j) \<Rightarrow> (\<exists>b\<in>set bs. lit_at hay [b] i j) \<and> (\<forall>i' j'. (\<exists>b\<in>set bs. lit_at hay [b] i' j') \<longrightarrow> i \<le> i')" for bs
    unfolding mc by (auto simp: lit_at_byte find_upt_None dest: find_upt_Some split: option.split)
  show ?thesis
  proof (cases op)
    case (ContainsByte b)
    then show ?thesis using byteset[of "[b]"] by (cases "memchr L [b] hay") (auto simp: match_shape_find_def)
  next
    case (ByteSet bs)
    then show ?thesis using byteset[of bs] by (cases "memchr L bs hay") (auto simp: match_shape_find_def)
  next
    case (Contains l)
    then have mm: "memmem L l hay = find (\<lambda>i. lit_at hay l i (i + length l)) [0..<Suc (length hay)]"
      using assms by (simp add: search_ok_def del: upt_Suc)
    have j: "lit_at hay l i j \<Longrightarrow> j = i + length l" for i j by (simp add: lit_at_def)
    show ?thesis
    proof (cases "memmem L l hay")
      case None
      have "\<not> lit_at hay l i j" for i j using None lit_at_bound[of hay l i j] j[of i j] unfolding mm find_upt_None by force
      with None Contains show ?thesis by (simp add: match_shape_find_def)
    next
      case (Some i)
      have f: "find (\<lambda>i. lit_at hay l i (i + length l)) [0..<Suc (length hay)] = Some i" using Some mm by simp
      have "i \<le> i'" if "lit_at hay l i' j'" for i' j'
        using find_upt_Some(3)[OF f, of i'] that lit_at_bound[OF that] j[OF that] by simp
      with Some Contains find_upt_Some(1)[OF f] show ?thesis by (auto simp: match_shape_find_def)
    qed
  next
    case (StartsWith l)
    then show ?thesis using lit_at_start[of hay l] by (auto simp: match_shape_find_def intro: gr0I)
  next
    case (EndsWith l)
    then show ?thesis using lit_at_end[of hay l] by (auto simp: match_shape_find_def)
  next
    case (ExactMatch l)
    have "lit_at hay l 0 (length hay) \<longleftrightarrow> hay = l" by (auto simp: lit_at_def)
    then show ?thesis using ExactMatch by (auto simp: match_shape_find_def)
  qed
qed

lemma shape_is_find: "match_shape_is L op hay \<longleftrightarrow> match_shape_find L op hay \<noteq> None"
  by (simp add: match_shape_is_def match_shape_find_def split: shape_op.split)

lemma shape_contains_nonempty: "try_simple_shape h = Some (Contains l) \<Longrightarrow> l \<noteq> []"
  by (induction h rule: try_simple_shape.induct)
    (auto simp: simple_literal_def simple_class_def anchored_literal_def split: list.splits option.splits if_splits)

subsection \<open>Literal sets\<close>

definition candidates :: "bytes list \<Rightarrow> bytes \<Rightarrow> nat \<Rightarrow> (nat \<times> nat \<times> nat) list" where
  "candidates lits hay from = concat (map (\<lambda>s. map (\<lambda>k. (s, s + length (lits ! k), k)) [0..<length lits]) [from..<Suc (length hay)])"

lemma candidates_sorted: "sorted (map fst (candidates lits hay from))"
proof -
  have "sorted (map fst (concat (map (\<lambda>s. map (\<lambda>k. (s, s + length (lits ! k), k)) ks) [a..<b])))" for a b ks
  proof (induction b)
    case (Suc b)
    have "sorted (map fst (map (\<lambda>k. (b, b + length (lits ! k), k)) ks))" by (induction ks) auto
    with Suc show ?case by (auto simp: sorted_append)
  qed simp
  then show ?thesis unfolding candidates_def .
qed

lemma hit_candidate: "set_hit lits ci hay m \<Longrightarrow> from \<le> fst m \<Longrightarrow> m \<in> set (candidates lits hay from)"
proof -
  assume h: "set_hit lits ci hay m" "from \<le> fst m"
  obtain s e k where m: "m = (s, e, k)" by (cases m)
  have "e = s + length (lits ! k)" "k < length lits" "s \<le> length hay" "from \<le> s"
    using h by (auto simp: m set_hit_def lit_at_def)
  then show ?thesis by (auto simp: m candidates_def simp del: upt_Suc intro!: bexI[of _ s])
qed

lemma candidate_from: "m \<in> set (candidates lits hay from) \<Longrightarrow> from \<le> fst m"
  by (auto simp: candidates_def simp del: upt_Suc)

lemma lf_hit_None: "lf_hit lits ci hay from = None \<longleftrightarrow> (\<forall>m. from \<le> fst m \<longrightarrow> \<not> set_hit lits ci hay m)"
  unfolding lf_hit_def candidates_def[symmetric] find_None_iff using hit_candidate candidate_from by blast

lemma lf_hit_Some:
  assumes "lf_hit lits ci hay from = Some m"
  shows "set_hit lits ci hay m" "from \<le> fst m" "\<And>m'. set_hit lits ci hay m' \<Longrightarrow> from \<le> fst m' \<Longrightarrow> fst m \<le> fst m'"
proof -
  let ?c = "candidates lits hay from"
  obtain n where n: "n < length ?c" "set_hit lits ci hay (?c ! n)" "m = ?c ! n" "\<forall>j<n. \<not> set_hit lits ci hay (?c ! j)"
    using assms unfolding lf_hit_def candidates_def[symmetric] find_Some_iff by blast
  show "set_hit lits ci hay m" using n by simp
  show "from \<le> fst m" using n(1,3) candidate_from nth_mem by blast
  fix m' assume h: "set_hit lits ci hay m'" "from \<le> fst m'"
  then obtain q where q: "q < length ?c" "m' = ?c ! q" using hit_candidate by (metis in_set_conv_nth)
  with h(1) n(4) have "n \<le> q" by (meson not_le)
  with q(1) have "map fst ?c ! n \<le> map fst ?c ! q" by (intro sorted_nth_mono[OF candidates_sorted]) simp_all
  with n(1,3) q show "fst m \<le> fst m'" by simp
qed

lemma lf_iter_hits: "m \<in> set (lf_iter lits ci hay from) \<Longrightarrow> set_hit lits ci hay m"
proof (induction lits ci hay "from" rule: lf_iter.induct)
  case (1 lits ci hay "from")
  show ?case
  proof (cases "lf_hit lits ci hay from")
    case None
    with "1.prems" show ?thesis by (simp add: lf_iter.simps[of lits ci hay "from"])
  next
    case (Some x)
    obtain s e k where x: "x = (s, e, k)" by (cases x)
    have "m = x \<or> from < e \<and> e \<le> length hay \<and> m \<in> set (lf_iter lits ci hay e)"
      using "1.prems" Some by (auto simp: lf_iter.simps[of lits ci hay "from"] x split: if_splits)
    with "1.IH"[OF Some] lf_hit_Some(1)[OF Some] x show ?thesis by auto
  qed
qed

lemma fold_byte_sensitive [simp]: "map (fold_byte False) xs = xs"
  by (simp add: fold_byte_def map_idI)

lemma set_hit_sensitive: "set_hit lits False hay (s, e, k) \<longleftrightarrow> k < length lits \<and> lit_at hay (lits ! k) s e"
  by (simp add: set_hit_def)

lemma hits_iff: "(\<exists>k. set_hit lits False hay (s, e, k)) \<longleftrightarrow> (\<exists>l\<in>set lits. lit_at hay l s e)"
  by (auto simp: set_hit_sensitive in_set_conv_nth Bex_def)

fun anchor_span :: "anchor \<Rightarrow> bytes \<Rightarrow> nat \<Rightarrow> nat \<Rightarrow> bool" where
  "anchor_span Anywhere hay i j = True"
| "anchor_span AtStart hay i j = (i = 0)"
| "anchor_span AtEnd hay i j = (j = length hay)"
| "anchor_span Exact hay i j = (i = 0 \<and> j = length hay)"

lemma anchor_ok_span: "anchor_ok a hay (s, e, k) = anchor_span a hay s e"
  by (cases a) simp_all

lemma match_set_sound:
  assumes "search_ok L" and "[] \<notin> set lits" and "match_set_is L lits False a hay"
  shows "\<exists>i j. (\<exists>l\<in>set lits. lit_at hay l i j) \<and> anchor_span a hay i j"
proof -
  have ac: "ac_find L lits False hay = lf_hit lits False hay 0" "ac_iter L lits False hay = lf_iter lits False hay 0"
    using assms(1,2) by (simp_all add: search_ok_def)
  have "\<exists>m. set_hit lits False hay m \<and> anchor_ok a hay m"
  proof -
    have f: "set_hit lits False hay m" if "lf_hit lits False hay 0 = Some m" for m using lf_hit_Some(1)[OF that] .
    have g: "set_hit lits False hay m" if "m \<in> set (lf_iter lits False hay 0)" for m using lf_iter_hits[OF that] .
    have an: "anchor_ok Anywhere hay m" for m by (cases m) simp
    show ?thesis
    proof (cases a)
      case Anywhere
      then obtain m where "lf_hit lits False hay 0 = Some m" using assms(3) by (auto simp: match_set_is_def ac)
      with f an Anywhere show ?thesis by blast
    next
      case AtStart
      then obtain m where "lf_hit lits False hay 0 = Some m" "anchor_ok AtStart hay m"
        using assms(3) by (auto simp: match_set_is_def ac split: option.splits)
      with f AtStart show ?thesis by blast
    next
      case AtEnd
      then obtain m where "m \<in> set (lf_iter lits False hay 0)" "anchor_ok a hay m"
        using assms(3) by (auto simp: match_set_is_def ac simp del: anchor_ok.simps)
      with g show ?thesis by blast
    next
      case Exact
      then obtain m where "m \<in> set (lf_iter lits False hay 0)" "anchor_ok a hay m"
        using assms(3) by (auto simp: match_set_is_def ac simp del: anchor_ok.simps)
      with g show ?thesis by blast
    qed
  qed
  then obtain s e k where "set_hit lits False hay (s, e, k)" "anchor_ok a hay (s, e, k)" by (metis prod_cases3)
  then show ?thesis using hits_iff[of lits hay s e] anchor_ok_span by blast
qed

lemma match_set_complete:
  assumes "search_ok L" and "[] \<notin> set lits" and "a = Anywhere \<or> a = AtStart" and "l \<in> set lits" "lit_at hay l i j" "anchor_span a hay i j"
  shows "match_set_is L lits False a hay"
proof -
  have ac: "ac_find L lits False hay = lf_hit lits False hay 0" using assms(1,2) by (simp add: search_ok_def)
  obtain k where k: "set_hit lits False hay (i, j, k)" using hits_iff[of lits hay i j] assms(4,5) by blast
  then obtain m where m: "lf_hit lits False hay 0 = Some m" using lf_hit_None[of lits False hay 0] by fastforce
  have "fst m \<le> i" using lf_hit_Some(3)[OF m k] by simp
  with m assms(3,6) show ?thesis by (cases m) (auto simp: match_set_is_def ac)
qed

lemma branch_meaning: "branch_literal h = Some b \<Longrightarrow> hmatch S hay h i j \<longleftrightarrow> lit_at hay b i j"
  by (cases h) (auto simp: literal_nodes collect_literal_bytes_def split: if_splits)

lemma branches_meaning:
  "branch_literals hs = Some lits \<Longrightarrow> (\<exists>h\<in>set hs. hmatch S hay h i j) \<longleftrightarrow> (\<exists>l\<in>set lits. lit_at hay l i j)"
  by (induction hs arbitrary: lits) (auto simp: branch_meaning split: option.splits if_splits)

lemma branches_nonempty: "branch_literals hs = Some lits \<Longrightarrow> [] \<notin> set lits"
  by (induction hs arbitrary: lits) (auto split: option.splits if_splits)

lemma alternation_meaning:
  assumes "try_literal_alternation h = Some (a, lits)"
  shows "hmatch S hay h i j \<longleftrightarrow> (\<exists>l\<in>set lits. lit_at hay l i j) \<and> anchor_span a hay i j" and "[] \<notin> set lits"
proof -
  obtain bs where so: "strip_outer_concat_anchors h = Some (a, HAlt bs)" and bl: "branch_literals bs = Some lits"
    using assms by (auto simp: try_literal_alternation_def split: option.splits hir.splits if_splits)
  show "[] \<notin> set lits" by (rule branches_nonempty[OF bl])
  have "hmatch S hay h i j \<longleftrightarrow> hmatch S hay (HAlt bs) i j \<and> anchor_span a hay i j"
  proof (cases "\<exists>ps. h = HConcat ps")
    case True
    then obtain ps where h: "h = HConcat ps" ..
    obtain s body e where sa: "strip_anchors ps = Some (s, body, e)" "body = [HAlt bs]" "a = anchor_of s e"
      using so h by (auto split: option.splits list.splits)
    have "hmatch S hay (HConcat [HAlt bs]) i j \<longleftrightarrow> hmatch S hay (HAlt bs) i j"
      using hmatch_bound[of S hay "HAlt bs" i j] by auto
    moreover have "hmatch S hay h i j \<longleftrightarrow> hmatch S hay (HConcat [HAlt bs]) i j \<and> anchor_span a hay i j"
      unfolding h anchored_match[OF sa(1)] sa(2,3) by (cases s; cases e) (simp_all only: anchor_of.simps anchor_span.simps simp_thms)
    ultimately show ?thesis by blast
  next
    case False
    with so have "a = Anywhere" "h = HAlt bs" by (cases h; simp)+
    then show ?thesis by simp
  qed
  with branches_meaning[OF bl, of S hay i j] show "hmatch S hay h i j \<longleftrightarrow> (\<exists>l\<in>set lits. lit_at hay l i j) \<and> anchor_span a hay i j"
    by (simp add: Bex_def)
qed

text \<open>C38. What a case-sensitive pattern compiles to agrees with its meaning. A shape plan (one byte, a small set of bytes, a
  literal, anchored or not) matches a haystack exactly when the expression matches somewhere in it, and the place it
  reports is a match of the expression at the leftmost position. A literal-set plan made from an alternation never
  claims a match that is not there, and is exact when the alternation is not anchored at its end.\<close>

theorem plan_agrees:
  assumes "search_ok L" and "utf8_ok S" and "re_parse L pattern = Ok h" and "classify_pattern L pattern False = Ok c"
    and "cl_reason c \<noteq> ''literal-only:extracted''"
  shows "case cl_plan c of
      Shape op \<Rightarrow> (plan_is_match L (cl_plan c) hay \<longleftrightarrow> re_matches S h hay)
        \<and> (\<forall>i j. plan_find L (cl_plan c) hay = Some (i, j) \<longrightarrow> hmatch S hay h i j \<and> (\<forall>i' j'. hmatch S hay h i' j' \<longrightarrow> i \<le> i'))
    | LiteralOnly a lits ci \<Rightarrow> (plan_is_match L (cl_plan c) hay \<longrightarrow> re_matches S h hay)
        \<and> (a \<in> {Anywhere, AtStart} \<longrightarrow> re_matches S h hay \<longrightarrow> plan_is_match L (cl_plan c) hay)
    | Meta p \<Rightarrow> p = pattern"
proof -
  consider (shape) op where "try_simple_shape h = Some op" "cl_plan c = Shape op"
    | (alt) a lits where "try_literal_alternation h = Some (a, lits)" "cl_plan c = LiteralOnly a lits False"
    | (meta) "cl_plan c = Meta pattern"
    using assms(3-5) by (auto simp: classify_pattern_def split: if_splits option.splits)
  then show ?thesis
  proof cases
    case shape
    note m = shape_meaning[OF assms(2) shape(1)]
    have "\<forall>l. op = Contains l \<longrightarrow> l \<noteq> []" using shape(1) shape_contains_nonempty by blast
    from shape_find_leftmost[OF assms(1) this, of hay] show ?thesis
      by (cases "match_shape_find L op hay") (auto simp: shape(2) m re_matches_def shape_is_find)
  next
    case alt
    note m = alternation_meaning[OF alt(1)]
    show ?thesis
      using match_set_sound[OF assms(1) m(2), of a hay] match_set_complete[OF assms(1) m(2), of a _ hay]
      by (auto simp: alt(2) m(1) re_matches_def)
  next
    case meta
    then show ?thesis by simp
  qed
qed

subsection \<open>Where the plans and the expressions part\<close>

text \<open>\<open>^(?:a|ab)$\<close> matches \<open>ab\<close>, but the automaton reports \<open>a\<close> first and goes on behind it: the plan says no.
  \<open>(?:ab|bc)$\<close> on \<open>abc\<close> is the same for an end anchor alone.\<close>

lemma lf_ab: "lf_iter [[0x61], [0x61, 0x62]] False [0x61, 0x62] 0 = [(0, 1, 0)]"
  by (simp add: lf_iter.simps[of _ _ _ 0] lf_iter.simps[of _ _ _ "Suc 0"] lf_hit_def set_hit_def lit_at_def upt_rec fold_byte_def)

lemma lf_abc: "lf_iter [[0x61, 0x62], [0x62, 0x63]] False [0x61, 0x62, 0x63] 0 = [(0, 2, 0)]"
  by (simp add: lf_iter.simps[of _ _ _ 0] lf_iter.simps[of _ _ _ "Suc (Suc 0)"] lf_hit_def set_hit_def lit_at_def upt_rec numeral_2_eq_2 fold_byte_def)

lemma end_anchor_misses:
  assumes "search_ok L"
  defines "h \<equiv> HConcat [HLook LookStart, HAlt [HLit [0x61], HLit [0x61, 0x62]], HLook LookEnd]"
    and "h' \<equiv> HConcat [HAlt [HLit [0x61, 0x62], HLit [0x62, 0x63]], HLook LookEnd]"
  shows "try_literal_alternation h = Some (Exact, [[0x61], [0x61, 0x62]]) \<and> re_matches S h [0x61, 0x62]
     \<and> \<not> plan_is_match L (LiteralOnly Exact [[0x61], [0x61, 0x62]] False) [0x61, 0x62]
     \<and> try_literal_alternation h' = Some (AtEnd, [[0x61, 0x62], [0x62, 0x63]]) \<and> re_matches S h' [0x61, 0x62, 0x63]
     \<and> \<not> plan_is_match L (LiteralOnly AtEnd [[0x61, 0x62], [0x62, 0x63]] False) [0x61, 0x62, 0x63]"
proof -
  have i: "ac_iter L [[0x61], [0x61, 0x62]] False [0x61, 0x62] = [(0, 1, 0)]"
      "ac_iter L [[0x61, 0x62], [0x62, 0x63]] False [0x61, 0x62, 0x63] = [(0, 2, 0)]"
    using assms(1) by (simp_all add: search_ok_def lf_ab lf_abc)
  have "hmatch S [0x61, 0x62] h 0 2" "hmatch S [0x61, 0x62, 0x63] h' 1 3"
    unfolding h_def h'_def by (auto simp: lit_at_def)
  then have "re_matches S h [0x61, 0x62]" "re_matches S h' [0x61, 0x62, 0x63]" unfolding re_matches_def by blast+
  then show ?thesis
    by (simp add: h_def h'_def try_literal_alternation_def strip_anchors_def LITERAL_SET_CAP_def match_set_is_def i)
qed

text \<open>The extractor ignores anchors. When it finds the literals of \<open>^[ab]c\<close>, the plan searches them anywhere: it
  matches \<open>xac\<close>, the expression does not.\<close>

lemma extracted_drops_anchor:
  assumes "search_ok L" and "re_parse L p = Ok h" and "p \<noteq> []"
    and h: "h = HConcat [HLook LookStart, HClass (ClassBytes [(0x61, 0x62)]), HLit [0x63]]"
    and "extract_exact L h = Some [[0x61, 0x63], [0x62, 0x63]]"
  shows "\<exists>c. classify_pattern L p False = Ok c \<and> cl_plan c = LiteralOnly Anywhere [[0x61, 0x63], [0x62, 0x63]] False
     \<and> plan_is_match L (cl_plan c) [0x78, 0x61, 0x63] \<and> \<not> re_matches S h [0x78, 0x61, 0x63]"
proof -
  let ?lits = "[[0x61, 0x63], [0x62, 0x63]] :: bytes list"
  have c: "classify_pattern L p False = Ok \<lparr>cl_plan = LiteralOnly Anywhere ?lits False, cl_tier = TLiteralSet, cl_reason = ''literal-only:extracted''\<rparr>"
    using assms(2,3,5) by (simp add: h classify_pattern_def within_cap_def CLASS_BYTE_CAP_def anchored_literal_def strip_anchors_def collect_literal_bytes_def
        try_literal_alternation_def try_extractor_fallback_def LITERAL_SET_CAP_def upt_rec)
  have "match_set_is L ?lits False Anywhere [0x78, 0x61, 0x63]"
    using match_set_complete[OF assms(1), of ?lits Anywhere "[0x61, 0x63]" "[0x78, 0x61, 0x63]" 1 3] by (simp add: lit_at_def)
  moreover have "\<not> re_matches S h [0x78, 0x61, 0x63]"
    by (auto simp: re_matches_def h class_words_def lit_at_def)
  ultimately show ?thesis by (simp add: c)
qed

text \<open>A pattern that falls through to the engine is compiled as it was written: the case-insensitive option is lost.\<close>

lemma meta_ignores_case_option:
  assumes "re_parse L p = Ok h" and "p \<noteq> []" and "hard_reject h = Some reason"
  shows "classify_pattern L p True = classify_pattern L p False"
  using assms by (simp add: classify_pattern_def)

subsection \<open>The builder and the log limiter\<close>

fun rank :: "matcher_tier \<Rightarrow> nat" where
  "rank TByte = 4" | "rank TLiteral = 3" | "rank TLiteralSet = 2" | "rank TRegex = 1"

datatype on_below_min = BelowAllow | BelowWarn | BelowReject

record matcher_builder =
  min_tier :: "matcher_tier option"
  on_below :: on_below_min
  case_insensitive :: bool

record str_matcher =
  m_plan :: plan
  m_tier :: matcher_tier
  m_pattern :: string
  m_reason :: string

datatype log_line = LogWarn string | LogDebug string | LogInfo

text \<open>The process-wide state: hashes seen, distinct patterns counted, summary emitted, the fallback counter, the log.\<close>

record warn_state =
  warned_hashes :: "u64 set"
  distinct_count :: nat
  summary_emitted :: bool
  fallback_total :: nat
  log_lines :: "log_line list"

definition WARN_CAP :: nat where "WARN_CAP = 10"

definition on_regex_fallback :: "(string \<Rightarrow> u64) \<Rightarrow> string \<Rightarrow> bool \<Rightarrow> warn_state \<Rightarrow> warn_state" where
  "on_regex_fallback hash_pattern pattern force st =
     (let h = hash_pattern pattern; already_warned = (h \<in> warned_hashes st); st1 = st\<lparr>warned_hashes := insert h (warned_hashes st)\<rparr>
      in if already_warned \<and> \<not> force then st1
         else let n = (if force then distinct_count st else distinct_count st + 1);
                  st2 = (if force then st1 else st1\<lparr>distinct_count := n\<rparr>);
                  st3 = st2\<lparr>log_lines := log_lines st2 @ [if force \<or> n \<le> WARN_CAP then LogWarn pattern else LogDebug pattern]\<rparr>
           in if \<not> force \<and> n = WARN_CAP + 1 \<and> \<not> summary_emitted st3
              then st3\<lparr>summary_emitted := True, log_lines := log_lines st3 @ [LogInfo]\<rparr> else st3)"

definition count_fallback :: "warn_state \<Rightarrow> warn_state" where
  "count_fallback st = st\<lparr>fallback_total := fallback_total st + 1\<rparr>"

definition matcher_of :: "string \<Rightarrow> classified \<Rightarrow> str_matcher" where
  "matcher_of pattern c = \<lparr>m_plan = cl_plan c, m_tier = cl_tier c, m_pattern = pattern, m_reason = cl_reason c\<rparr>"

definition apply_below_min :: "(string \<Rightarrow> u64) \<Rightarrow> matcher_builder \<Rightarrow> string \<Rightarrow> matcher_tier \<Rightarrow> classified \<Rightarrow> warn_state \<Rightarrow>
    warn_state \<times> (str_matcher, build_error) result" where
  "apply_below_min hp b pattern wanted c st = (case on_below b of
     BelowReject \<Rightarrow> (st, Err (TierTooLow pattern wanted (cl_tier c) (cl_reason c)))
   | BelowWarn \<Rightarrow> (count_fallback (on_regex_fallback hp pattern True st), Ok (matcher_of pattern c))
   | BelowAllow \<Rightarrow> (if cl_tier c = TRegex then count_fallback (on_regex_fallback hp pattern False st) else st, Ok (matcher_of pattern c)))"

definition build_matcher :: "search_lib \<Rightarrow> (string \<Rightarrow> u64) \<Rightarrow> matcher_builder \<Rightarrow> string \<Rightarrow> warn_state \<Rightarrow> warn_state \<times> (str_matcher, build_error) result" where
  "build_matcher L hp b pattern st = (case classify_pattern L pattern (case_insensitive b) of
     Inl e \<Rightarrow> (st, Err e)
   | Inr c \<Rightarrow>
       (case min_tier b of
          Some mn \<Rightarrow> if rank (cl_tier c) < rank mn then apply_below_min hp b pattern mn c st
            else (if cl_tier c = TRegex then count_fallback (on_regex_fallback hp pattern False st) else st, Ok (matcher_of pattern c))
        | None \<Rightarrow> (if cl_tier c = TRegex then count_fallback (on_regex_fallback hp pattern False st) else st, Ok (matcher_of pattern c))))"

text \<open>With a minimum tier and \<open>Reject\<close> no matcher below it is ever built.\<close>

lemma reject_enforces_min:
  "build_matcher L hp b p st = (st', Ok m) \<Longrightarrow> min_tier b = Some mn \<Longrightarrow> on_below b = BelowReject \<Longrightarrow> rank mn \<le> rank (m_tier m)"
  by (auto simp: build_matcher_def apply_below_min_def matcher_of_def split: sum.splits if_splits)

text \<open>\<open>Warn\<close> counts as a regex fallback, and logs as one, a pattern that is not one.\<close>

lemma warn_counts_non_regex:
  "classify_pattern L p (case_insensitive b) = Ok c \<Longrightarrow> min_tier b = Some TByte \<Longrightarrow> on_below b = BelowWarn \<Longrightarrow> cl_tier c = TLiteralSet
   \<Longrightarrow> fallback_total (fst (build_matcher L hp b p st)) = fallback_total st + 1"
  by (simp add: build_matcher_def apply_below_min_def count_fallback_def on_regex_fallback_def Let_def)

definition is_warn :: "log_line \<Rightarrow> bool" where
  "is_warn x = (case x of LogWarn _ \<Rightarrow> True | _ \<Rightarrow> False)"

lemma warn_invariant:
  assumes "length (filter is_warn (log_lines st)) = min (distinct_count st) WARN_CAP"
  shows "length (filter is_warn (log_lines (on_regex_fallback hp p False st))) = min (distinct_count (on_regex_fallback hp p False st)) WARN_CAP"
  using assms by (auto simp: on_regex_fallback_def Let_def is_warn_def)

text \<open>At most ten patterns are warned about, however many fall through.\<close>

lemma warn_cap:
  assumes "log_lines st = []" "distinct_count st = 0"
  shows "length (filter is_warn (log_lines (fold (\<lambda>p. on_regex_fallback hp p False) ps st))) \<le> WARN_CAP"
proof -
  have "length (filter is_warn (log_lines (fold (\<lambda>p. on_regex_fallback hp p False) ps s))) = min (distinct_count (fold (\<lambda>p. on_regex_fallback hp p False) ps s)) WARN_CAP"
    if "length (filter is_warn (log_lines s)) = min (distinct_count s) WARN_CAP" for s
    using that by (induction ps arbitrary: s) (simp_all add: warn_invariant)
  from this[of st] assms show ?thesis by simp
qed

subsection \<open>Sets of patterns\<close>

record matcher_set =
  ms_lits :: "bytes list"
  ms_indices :: "nat list"
  ms_ci :: bool
  ms_individual :: "(nat \<times> str_matcher) list"
  ms_tiers :: "matcher_tier list"

text \<open>\<open>build_set\<close>: a pattern whose plan is a set of literals that may stand anywhere joins the shared automaton.\<close>

definition add_matcher :: "nat \<Rightarrow> str_matcher \<Rightarrow> matcher_set \<Rightarrow> matcher_set" where
  "add_matcher idx m ms = (let ms1 = ms\<lparr>ms_tiers := ms_tiers ms @ [m_tier m]\<rparr> in
     case merge_literals (m_plan m) of
       Some (lits, ci) \<Rightarrow> if ci = ms_ci ms
         then ms1\<lparr>ms_lits := ms_lits ms @ lits, ms_indices := ms_indices ms @ replicate (length lits) idx\<rparr>
         else ms1\<lparr>ms_individual := ms_individual ms @ [(idx, m)]\<rparr>
     | None \<Rightarrow> ms1\<lparr>ms_individual := ms_individual ms @ [(idx, m)]\<rparr>)"

fun build_set_loop :: "search_lib \<Rightarrow> (string \<Rightarrow> u64) \<Rightarrow> matcher_builder \<Rightarrow> nat \<Rightarrow> string list \<Rightarrow> matcher_set \<Rightarrow> warn_state \<Rightarrow>
    warn_state \<times> (matcher_set, build_error) result" where
  "build_set_loop L hp b idx [] ms st = (st, Ok ms)"
| "build_set_loop L hp b idx (p # ps) ms st = (case build_matcher L hp b p st of
     (st', Inl e) \<Rightarrow> (st', Err e)
   | (st', Inr m) \<Rightarrow> build_set_loop L hp b (Suc idx) ps (add_matcher idx m ms) st')"

definition build_set :: "search_lib \<Rightarrow> (string \<Rightarrow> u64) \<Rightarrow> matcher_builder \<Rightarrow> string list \<Rightarrow> warn_state \<Rightarrow> warn_state \<times> (matcher_set, build_error) result" where
  "build_set L hp b ps st = build_set_loop L hp b 0 ps
     \<lparr>ms_lits = [], ms_indices = [], ms_ci = case_insensitive b, ms_individual = [], ms_tiers = []\<rparr> st"

text \<open>There is a shared automaton when there are literals for it.\<close>

definition merged_find :: "search_lib \<Rightarrow> matcher_set \<Rightarrow> bytes \<Rightarrow> (nat \<times> nat \<times> nat) option" where
  "merged_find L ms hay = (if ms_lits ms = [] then None else acl_find L (ms_lits ms) (ms_ci ms) hay)"

definition set_is_match :: "search_lib \<Rightarrow> matcher_set \<Rightarrow> bytes \<Rightarrow> bool" where
  "set_is_match L ms hay = (merged_find L ms hay \<noteq> None \<or> (\<exists>x\<in>set (ms_individual ms). plan_is_match L (m_plan (snd x)) hay))"

type_synonym set_match = "nat \<times> nat \<times> nat"

definition better :: "set_match option \<Rightarrow> set_match \<Rightarrow> set_match option" where
  "better best cand = (case best of
     None \<Rightarrow> Some cand
   | Some b \<Rightarrow> if fst cand < fst b then Some cand
       else if fst cand = fst b \<and> snd (snd cand) < snd (snd b) then Some cand else Some b)"

definition earliest_match :: "search_lib \<Rightarrow> matcher_set \<Rightarrow> bytes \<Rightarrow> set_match option" where
  "earliest_match L ms hay =
     foldl (\<lambda>best (idx, m). case plan_find L (m_plan m) hay of None \<Rightarrow> best | Some (s, e) \<Rightarrow> better best (s, e, idx))
       (map_option (\<lambda>(s, e, k). (s, e, ms_indices ms ! k)) (merged_find L ms hay)) (ms_individual ms)"

definition set_find_iter :: "search_lib \<Rightarrow> matcher_set \<Rightarrow> bytes \<Rightarrow> set_match list" where
  "set_find_iter L ms hay = sort_key (\<lambda>m. fst m * Suc (length (ms_tiers ms)) + snd (snd m))
     ((if ms_lits ms = [] then [] else map (\<lambda>(s, e, k). (s, e, ms_indices ms ! k)) (acl_iter L (ms_lits ms) (ms_ci ms) hay))
      @ concat (map (\<lambda>(idx, m). map (\<lambda>(s, e). (s, e, idx)) (collect_matches L (m_plan m) hay)) (ms_individual ms)))"

definition occurs :: "bytes list \<Rightarrow> bool \<Rightarrow> bytes \<Rightarrow> bool" where
  "occurs lits ci hay \<longleftrightarrow> (\<exists>l\<in>set lits. \<exists>s e. lit_at (map (fold_byte ci) hay) (map (fold_byte ci) l) s e)"

lemma occursI: "lit_at hay l s e \<Longrightarrow> l \<in> set lits \<Longrightarrow> occurs lits False hay"
  unfolding occurs_def fold_byte_sensitive by blast

lemma occursE:
  assumes "occurs lits False hay"
  obtains l s e where "l \<in> set lits" "lit_at hay l s e"
  using assms unfolding occurs_def fold_byte_sensitive by blast

lemma occurs_hit: "occurs lits ci hay \<longleftrightarrow> (\<exists>m. set_hit lits ci hay m)"
  by (auto simp: occurs_def set_hit_def in_set_conv_nth Bex_def)

lemma occurs_append [simp]: "occurs (xs @ ys) ci hay \<longleftrightarrow> occurs xs ci hay \<or> occurs ys ci hay"
  by (auto simp: occurs_def)

lemma merged_occurs:
  assumes "search_ok L"
  shows "merged_find L ms hay \<noteq> None \<longleftrightarrow> occurs (ms_lits ms) (ms_ci ms) hay"
proof (cases "ms_lits ms = []")
  case True
  then show ?thesis by (simp add: merged_find_def occurs_def)
next
  case False
  have "\<forall>lits ci hay. (case acl_find L lits ci hay of
          None \<Rightarrow> \<forall>m. \<not> set_hit lits ci hay m
        | Some m \<Rightarrow> set_hit lits ci hay m \<and> (\<forall>m'. set_hit lits ci hay m' \<longrightarrow> fst m \<le> fst m' \<and> (fst m' = fst m \<longrightarrow> fst (snd m') \<le> fst (snd m))))"
    using assms unfolding search_ok_def by (elim conjE) assumption
  from this[THEN spec, of "ms_lits ms", THEN spec, of "ms_ci ms", THEN spec, of hay]
  have "acl_find L (ms_lits ms) (ms_ci ms) hay \<noteq> None \<longleftrightarrow> (\<exists>m. set_hit (ms_lits ms) (ms_ci ms) hay m)"
    by (cases "acl_find L (ms_lits ms) (ms_ci ms) hay") (simp_all only: option.case not_None_eq, blast+)
  with False show ?thesis by (simp add: merged_find_def occurs_hit)
qed

text \<open>A plan's literals say all of what the plan matches.\<close>

lemma merge_exact:
  assumes "search_ok L" and "classify_pattern L p ci = Ok c" and "merge_literals (cl_plan c) = Some (lits, ci)"
  shows "plan_is_match L (cl_plan c) hay \<longleftrightarrow> occurs lits ci hay"
proof (cases "cl_plan c")
  case (LiteralOnly a ls x)
  with assms(3) have "a = Anywhere" "ls = lits" "x = ci" by (cases a; auto)+
  moreover have "ac_find L lits ci hay = lf_hit lits ci hay 0" using assms(1) by (simp add: search_ok_def)
  moreover have "lf_hit lits ci hay 0 \<noteq> None \<longleftrightarrow> (\<exists>m. set_hit lits ci hay m)" using lf_hit_None[of lits ci hay 0] by auto
  ultimately show ?thesis using LiteralOnly by (simp add: match_set_is_def occurs_hit)
next
  case (Shape op)
  obtain h where "try_simple_shape h = Some op" "ci = False"
    using assms(2) Shape by (auto simp: classify_pattern_def split: if_splits sum.splits option.splits)
  then have "\<forall>l. op = Contains l \<longrightarrow> l \<noteq> []" using shape_contains_nonempty by blast
  from shape_find_leftmost[OF assms(1) this, of hay]
  have "match_shape_is L op hay \<longleftrightarrow> (\<exists>i j. shape_span op hay i j)"
    unfolding shape_is_find by (cases "match_shape_find L op hay") auto
  moreover have "(\<exists>i j. shape_span op hay i j) \<longleftrightarrow> occurs lits False hay"
    using assms(3) Shape \<open>ci = False\<close> by (cases op) (auto intro: occursI elim!: occursE, blast+)
  ultimately show ?thesis using Shape \<open>ci = False\<close> by simp
next
  case (Meta q)
  with assms(3) show ?thesis by simp
qed

lemma add_matcher_match:
  assumes "search_ok L" and "classify_pattern L p (ms_ci ms) = Ok c" and "m_plan m = cl_plan c"
  shows "set_is_match L (add_matcher idx m ms) hay \<longleftrightarrow> set_is_match L ms hay \<or> plan_is_match L (m_plan m) hay"
proof -
  have ci: "ms_ci (add_matcher idx m ms) = ms_ci ms" by (simp add: add_matcher_def Let_def split: option.split prod.split)
  show ?thesis
  proof (cases "\<exists>lits. merge_literals (m_plan m) = Some (lits, ms_ci ms)")
    case True
    then obtain lits where l: "merge_literals (m_plan m) = Some (lits, ms_ci ms)" ..
    then have "add_matcher idx m ms = ms\<lparr>ms_tiers := ms_tiers ms @ [m_tier m], ms_lits := ms_lits ms @ lits, ms_indices := ms_indices ms @ replicate (length lits) idx\<rparr>"
      by (simp add: add_matcher_def Let_def)
    with merge_exact[OF assms(1,2), of lits hay] l assms(3) show ?thesis
      unfolding set_is_match_def merged_occurs[OF assms(1)] by auto
  next
    case False
    then have "add_matcher idx m ms = ms\<lparr>ms_tiers := ms_tiers ms @ [m_tier m], ms_individual := ms_individual ms @ [(idx, m)]\<rparr>"
      by (auto simp: add_matcher_def Let_def split: option.split)
    then show ?thesis by (auto simp: set_is_match_def merged_find_def)
  qed
qed

text \<open>A set of patterns matches exactly when one of its patterns does on its own: folding the unanchored literals of all
  patterns into one leftmost-longest automaton neither adds nor hides a match.\<close>

theorem set_matches_iff_any:
  assumes "search_ok L" and "build_set L hp b ps st = (st', Ok ms)"
  shows "set_is_match L ms hay \<longleftrightarrow> (\<exists>p\<in>set ps. \<exists>c. classify_pattern L p (case_insensitive b) = Ok c \<and> plan_is_match L (cl_plan c) hay)"
proof -
  have "set_is_match L ms hay \<longleftrightarrow> set_is_match L ms0 hay \<or> (\<exists>p\<in>set ps. \<exists>c. classify_pattern L p (case_insensitive b) = Ok c \<and> plan_is_match L (cl_plan c) hay)"
    if "build_set_loop L hp b idx ps ms0 s = (s', Ok ms)" "ms_ci ms0 = case_insensitive b" for idx ms0 s s'
    using that
  proof (induction ps arbitrary: idx ms0 s)
    case (Cons p ps)
    obtain s1 m where m: "build_matcher L hp b p s = (s1, Ok m)" and r: "build_set_loop L hp b (Suc idx) ps (add_matcher idx m ms0) s1 = (s', Ok ms)"
      using Cons.prems(1) by (auto split: prod.splits sum.splits)
    from m obtain c where c: "classify_pattern L p (case_insensitive b) = Ok c" "m_plan m = cl_plan c"
      by (auto simp: build_matcher_def apply_below_min_def matcher_of_def split: sum.splits option.splits if_splits on_below_min.splits)
    have "ms_ci (add_matcher idx m ms0) = case_insensitive b"
      using Cons.prems(2) by (simp add: add_matcher_def Let_def split: option.split prod.split)
    from Cons.IH[OF r this] add_matcher_match[OF assms(1) _ c(2), of p ms0 idx hay] c Cons.prems(2) show ?case by auto
  qed simp
  from this[OF assms(2)[unfolded build_set_def]] show ?thesis by (simp add: set_is_match_def merged_find_def)
qed

subsection \<open>A naive library\<close>

definition hit_cost :: "bytes \<Rightarrow> nat \<times> nat \<times> nat \<Rightarrow> nat" where
  "hit_cost hay m = fst m * Suc (length hay) + (length hay - fst (snd m))"

definition naive_longest :: "bytes list \<Rightarrow> bool \<Rightarrow> bytes \<Rightarrow> (nat \<times> nat \<times> nat) option" where
  "naive_longest lits ci hay = (let hs = filter (set_hit lits ci hay) (candidates lits hay 0)
     in if hs = [] then None else Some (arg_min_list (hit_cost hay) hs))"

definition naive_lib :: "(string \<Rightarrow> (hir, string) result) \<Rightarrow> search_lib" where
  "naive_lib parse = \<lparr>memchr = (\<lambda>bs hay. find (\<lambda>i. hay ! i \<in> set bs) [0..<length hay]),
     memchr_iter = (\<lambda>bs hay. filter (\<lambda>i. hay ! i \<in> set bs) [0..<length hay]),
     memmem = (\<lambda>l hay. find (\<lambda>i. lit_at hay l i (i + length l)) [0..<Suc (length hay)]), memmem_iter = (\<lambda>l hay. []),
     ac_find = (\<lambda>lits ci hay. lf_hit lits ci hay 0), ac_iter = (\<lambda>lits ci hay. lf_iter lits ci hay 0),
     acl_find = naive_longest, acl_iter = (\<lambda>lits ci hay. []), re_parse = parse, extract_exact = (\<lambda>h. None),
     meta_find = (\<lambda>p hay. None), meta_iter = (\<lambda>p hay. [])\<rparr>"

lemma cost_order:
  assumes "hit_cost hay m \<le> hit_cost hay m'" and "fst (snd m) \<le> length hay" "fst (snd m') \<le> length hay"
  shows "fst m \<le> fst m' \<and> (fst m' = fst m \<longrightarrow> fst (snd m') \<le> fst (snd m))"
proof
  have c: "fst m * Suc (length hay) + (length hay - fst (snd m)) \<le> fst m' * Suc (length hay) + (length hay - fst (snd m'))"
    using assms(1) by (simp only: hit_cost_def)
  show "fst m \<le> fst m'"
  proof (rule ccontr)
    assume "\<not> fst m \<le> fst m'"
    then have "Suc (fst m') * Suc (length hay) \<le> fst m * Suc (length hay)" by (intro mult_le_mono1) simp
    with c show False by simp
  qed
  show "fst m' = fst m \<longrightarrow> fst (snd m') \<le> fst (snd m)" using c assms(2,3) by auto
qed

lemma naive_longest_ok:
  "case naive_longest lits ci hay of
     None \<Rightarrow> \<forall>m. \<not> set_hit lits ci hay m
   | Some m \<Rightarrow> set_hit lits ci hay m \<and> (\<forall>m'. set_hit lits ci hay m' \<longrightarrow> fst m \<le> fst m' \<and> (fst m' = fst m \<longrightarrow> fst (snd m') \<le> fst (snd m)))"
proof -
  let ?hs = "filter (set_hit lits ci hay) (candidates lits hay 0)"
  have mem: "m \<in> set ?hs \<longleftrightarrow> set_hit lits ci hay m" for m using hit_candidate[of lits ci hay m 0] by auto
  have e: "set_hit lits ci hay m \<Longrightarrow> fst (snd m) \<le> length hay" for m by (cases m) (auto simp: set_hit_def lit_at_def)
  show ?thesis
  proof (cases "?hs = []")
    case True
    have "\<not> set_hit lits ci hay m" for m using mem[of m] unfolding True by simp
    with True show ?thesis by (simp add: naive_longest_def)
  next
    case False
    let ?m = "arg_min_list (hit_cost hay) ?hs"
    have m: "set_hit lits ci hay ?m" using arg_min_list_in[OF False, of "hit_cost hay"] mem by simp
    have min: "hit_cost hay ?m = Min (hit_cost hay ` set ?hs)" by (rule f_arg_min_list_f[OF False])
    have "fst ?m \<le> fst m' \<and> (fst m' = fst ?m \<longrightarrow> fst (snd m') \<le> fst (snd ?m))" if "set_hit lits ci hay m'" for m'
    proof -
      have "hit_cost hay ?m \<le> hit_cost hay m'" unfolding min
        by (rule Min_le[OF finite_imageI[OF finite_set] imageI]) (use that mem in blast)
      from cost_order[OF this e[OF m] e[OF that]] show ?thesis .
    qed
    with m False show ?thesis by (simp add: naive_longest_def)
  qed
qed

lemma naive_ok: "search_ok (naive_lib parse)"
  unfolding search_ok_def using naive_longest_ok by (simp add: naive_lib_def)

definition demo_sem :: re_sem where
  "demo_sem = \<lparr>sem_look = (\<lambda>l hay i. False), sem_utf8 = (\<lambda>cp. [of_nat cp])\<rparr>"

theorem plan_agrees_witness:
  "plan_is_match (naive_lib (\<lambda>_. Ok (HConcat [HLook LookStart, HLit [0x61, 0x62]]))) (Shape (StartsWith [0x61, 0x62])) [0x61, 0x62, 0x63]
   \<longleftrightarrow> re_matches demo_sem (HConcat [HLook LookStart, HLit [0x61, 0x62]]) [0x61, 0x62, 0x63]"
  using plan_agrees[OF naive_ok, of demo_sem "\<lambda>_. Ok (HConcat [HLook LookStart, HLit [0x61, 0x62]])" "''^ab''" "HConcat [HLook LookStart, HLit [0x61, 0x62]]"
      "\<lparr>cl_plan = Shape (StartsWith [0x61, 0x62]), cl_tier = TLiteral, cl_reason = ''shape:starts-with''\<rparr>" "[0x61, 0x62, 0x63]"]
  by (simp add: utf8_ok_def demo_sem_def naive_lib_def classify_pattern_def anchored_literal_def strip_anchors_def collect_literal_bytes_def)

definition demo_builder :: matcher_builder where
  "demo_builder = \<lparr>min_tier = None, on_below = BelowAllow, case_insensitive = False\<rparr>"

definition demo_parse :: "string \<Rightarrow> (hir, string) result" where
  "demo_parse p = Ok (HLit (if p = ''a'' then [0x61] else [0x62, 0x63]))"

definition demo_warn :: warn_state where
  "demo_warn = \<lparr>warned_hashes = {}, distinct_count = 0, summary_emitted = False, fallback_total = 0, log_lines = []\<rparr>"

theorem set_matches_iff_any_witness:
  "\<exists>ms. snd (build_set (naive_lib demo_parse) (\<lambda>_. 0) demo_builder [''a'', ''bc''] demo_warn) = Ok ms
     \<and> set_is_match (naive_lib demo_parse) ms [0x78, 0x61]"
proof -
  let ?L = "naive_lib demo_parse"
  have c: "classify_pattern ?L ''a'' False = Ok \<lparr>cl_plan = Shape (ContainsByte 0x61), cl_tier = TByte, cl_reason = ''shape:contains-byte''\<rparr>"
    "classify_pattern ?L ''bc'' False = Ok \<lparr>cl_plan = Shape (Contains [0x62, 0x63]), cl_tier = TLiteral, cl_reason = ''shape:contains-literal''\<rparr>"
    by (simp_all add: classify_pattern_def naive_lib_def demo_parse_def simple_literal_def)
  obtain st' ms where b: "build_set ?L (\<lambda>_. 0) demo_builder [''a'', ''bc''] demo_warn = (st', Ok ms)"
    by (simp add: build_set_def build_matcher_def demo_builder_def c)
  have "plan_is_match ?L (Shape (ContainsByte 0x61)) [0x78, 0x61]"
    by (auto simp: match_shape_is_def naive_lib_def find_None_iff simp flip: not_None_eq intro!: bexI[of _ 1])
  then show ?thesis
    using c(1) set_matches_iff_any[OF naive_ok b, of "[0x78, 0x61]"] b by (auto simp: demo_builder_def)
qed

end
