(* ===== verification/Redaction.thy ===== *)
theory Redaction
  imports Prelude "HOL-Library.List_Lexorder"
begin

text \<open>
  What keeps secrets out of logs and dumps: \<open>src/logger/masking.rs\<close> (the masking writer with its
  JSON and text redaction, and \<open>mask_sensitive_string\<close>), \<open>src/config/registry.rs\<close> (the redacted
  dump of the registered configuration) and \<open>src/sensitive.rs\<close> (\<open>SensitiveString\<close>). A Rust string
  is a list of code points; a byte offset at a character boundary is a split of that list, and
  where the code takes offsets of one string to cut another they are counted in UTF-8 bytes,
  with \<open>None\<close> for the panic of a cut inside a character. The Unicode tables (alphanumeric,
  whitespace, lower case) and serde's parser and printer are arguments.
\<close>

type_synonym ustr = "nat list"

definition asc :: "string \<Rightarrow> ustr" where
  "asc = map of_char"

definition utf8_len :: "nat \<Rightarrow> nat" where
  "utf8_len c = (if c < 128 then 1 else if c < 2048 then 2 else if c < 65536 then 3 else 4)"

definition blen :: "ustr \<Rightarrow> nat" where
  "blen s = sum_list (map utf8_len s)"

fun split_at :: "nat \<Rightarrow> ustr \<Rightarrow> (ustr \<times> ustr) option" where
  "split_at n [] = (if n = 0 then Some ([], []) else None)"
| "split_at n (c # cs) = (if n = 0 then Some ([], c # cs)
     else if utf8_len c \<le> n then map_option (apfst ((#) c)) (split_at (n - utf8_len c) cs) else None)"

fun find_sub :: "ustr \<Rightarrow> ustr \<Rightarrow> nat option" where
  "find_sub n [] = (if n = [] then Some 0 else None)"
| "find_sub n (c # cs) = (if prefix n (c # cs) then Some 0 else map_option ((+) (utf8_len c)) (find_sub n cs))"

definition contains :: "ustr \<Rightarrow> ustr \<Rightarrow> bool" where
  "contains s p \<longleftrightarrow> find_sub p s \<noteq> None"

record unicode =
  u_alnum :: "nat \<Rightarrow> bool"
  u_space :: "nat \<Rightarrow> bool"
  u_lower :: "ustr \<Rightarrow> ustr"

datatype json = JNull | JBool bool | JNum ustr | JStr ustr | JArr "json list" | JObj "(ustr \<times> json) list"

record serde =
  j_parse :: "ustr \<Rightarrow> json option"
  j_print :: "json \<Rightarrow> ustr option"

section \<open>The masking writer\<close>

definition REDACTED :: ustr where
  "REDACTED = asc ''[REDACTED]''"

definition default_sensitive_fields :: "ustr list" where
  "default_sensitive_fields = map asc
     [''password'', ''passwd'', ''pwd'', ''pass'', ''token'', ''secret'', ''api_key'', ''apikey'', ''api-key'', ''access_key'',
      ''secret_key'', ''private_key'', ''privatekey'', ''auth'', ''authorization'', ''bearer'', ''credential'', ''credentials'',
      ''client_secret'', ''refresh_token'', ''access_token'', ''ssn'', ''credit_card'', ''creditcard'', ''cvv'', ''pin'']"

definition with_fields :: "unicode \<Rightarrow> ustr list \<Rightarrow> ustr set" where
  "with_fields U fs = set (map (u_lower U) fs)"

definition add_fields :: "unicode \<Rightarrow> ustr list \<Rightarrow> ustr set \<Rightarrow> ustr set" where
  "add_fields U fs s = fold (\<lambda>f. insert (u_lower U f)) fs s"

definition should_mask_field :: "unicode \<Rightarrow> ustr set \<Rightarrow> ustr \<Rightarrow> bool" where
  "should_mask_field U sensitive name \<longleftrightarrow> (\<exists>s\<in>sensitive. contains (u_lower U name) s)"

fun redact_json_value :: "ustr \<Rightarrow> (ustr \<Rightarrow> bool) \<Rightarrow> json \<Rightarrow> json" where
  "redact_json_value r m (JObj kvs) = JObj (map (\<lambda>(k, v). (k, if m k then JStr r else redact_json_value r m v)) kvs)"
| "redact_json_value r m (JArr xs) = JArr (map (redact_json_value r m) xs)"
| "redact_json_value r m v = v"

fun map_insert :: "ustr \<Rightarrow> json \<Rightarrow> (ustr \<times> json) list \<Rightarrow> (ustr \<times> json) list" where
  "map_insert k v [] = [(k, v)]"
| "map_insert k v ((k', v') # m) = (if k = k' then (k, v) # m else if k < k' then (k, v) # (k', v') # m
     else (k', v') # map_insert k v m)"

definition insert_opt :: "string \<Rightarrow> ustr option \<Rightarrow> (ustr \<times> json) list \<Rightarrow> (ustr \<times> json) list" where
  "insert_opt k v m = (case v of None \<Rightarrow> m | Some s \<Rightarrow> map_insert (asc k) (JStr s) m)"

record log_context =
  service_name :: "ustr option"
  service_version :: "ustr option"
  pod_name :: "ustr option"
  k8s_namespace :: "ustr option"
  node_name :: "ustr option"

definition inject :: "log_context \<Rightarrow> json \<Rightarrow> json" where
  "inject ctx v = (case v of
     JObj m \<Rightarrow> JObj (insert_opt ''node_name'' (node_name ctx) (insert_opt ''namespace'' (k8s_namespace ctx)
        (insert_opt ''pod_name'' (pod_name ctx) (insert_opt ''version'' (service_version ctx) (insert_opt ''service'' (service_name ctx) m)))))
   | _ \<Rightarrow> v)"

definition trim_end_newlines :: "ustr \<Rightarrow> ustr" where
  "trim_end_newlines l = rev (dropWhile (\<lambda>c. c = 10) (rev l))"

definition inject_and_redact_json_line :: "unicode \<Rightarrow> serde \<Rightarrow> log_context \<Rightarrow> ustr set \<Rightarrow> ustr \<Rightarrow> ustr" where
  "inject_and_redact_json_line U J ctx sensitive line =
     (let trimmed = trim_end_newlines line in
      case j_parse J trimmed of
        None \<Rightarrow> line
      | Some v \<Rightarrow>
          (let printed = (case j_print J (redact_json_value REDACTED (should_mask_field U sensitive) (inject ctx v)) of
               Some s \<Rightarrow> s | None \<Rightarrow> trimmed)
           in if line \<noteq> [] \<and> last line = 10 then printed @ [10] else printed))"

definition EQ :: nat where "EQ = 61"
definition QUOTE :: nat where "QUOTE = 34"
definition BACKSLASH :: nat where "BACKSLASH = 92"

fun skip_quoted :: "nat \<Rightarrow> ustr \<Rightarrow> ustr" where
  "skip_quoted prev [] = []"
| "skip_quoted prev (c # cs) = (if c = QUOTE \<and> prev \<noteq> BACKSLASH then cs else skip_quoted c cs)"

definition skip_field_value :: "unicode \<Rightarrow> ustr \<Rightarrow> ustr" where
  "skip_field_value U s = (case s of
     [] \<Rightarrow> []
   | c # cs \<Rightarrow> if c = QUOTE then skip_quoted QUOTE cs else dropWhile (\<lambda>c. \<not> u_space U c) s)"

definition name_char :: "unicode \<Rightarrow> nat \<Rightarrow> bool" where
  "name_char U c \<longleftrightarrow> u_alnum U c \<or> c = 95 \<or> c = 45 \<or> c = 46"

lemma skip_quoted_shorter: "length (skip_quoted p s) \<le> length s"
  by (induction p s rule: skip_quoted.induct) auto

lemma skip_field_value_shorter: "length (skip_field_value U s) \<le> length s"
  using skip_quoted_shorter[of QUOTE "tl s"] length_dropWhile_le[of "\<lambda>c. \<not> u_space U c" s]
  by (auto simp: skip_field_value_def split: list.splits)

function redact_text_line :: "unicode \<Rightarrow> ustr set \<Rightarrow> ustr \<Rightarrow> ustr" where
  "redact_text_line U sensitive line =
     (case dropWhile (\<lambda>c. c \<noteq> EQ) line of
        [] \<Rightarrow> line
      | e # after \<Rightarrow>
          (let seg = takeWhile (\<lambda>c. c \<noteq> EQ) line;
               field_name = rev (takeWhile (name_char U) (rev seg))
           in if field_name \<noteq> [] \<and> should_mask_field U sensitive field_name
              then seg @ [EQ] @ REDACTED @ redact_text_line U sensitive (skip_field_value U after)
              else seg @ [EQ] @ redact_text_line U sensitive after))"
  by pat_completeness auto
termination
proof (relation "measure (\<lambda>(U, s, l). length l)", goal_cases)
  case 1 then show ?case by simp
next
  case (2 U s line e after x xa)
  then have "length after < length line" using length_dropWhile_le[of "\<lambda>c. c \<noteq> EQ" line] by simp
  with skip_field_value_shorter[of U after] show ?case by simp
next
  case (3 U s line e after x xa)
  then show ?case using length_dropWhile_le[of "\<lambda>c. c \<noteq> EQ" line] by simp
qed

declare redact_text_line.simps [simp del]


datatype io_outcome = IoOk | IoFails nat

record masking_writer =
  mw_inner :: ustr
  mw_buffer :: ustr
  mw_fields :: "ustr set"
  mw_json :: bool
  mw_context :: log_context
  mw_flushed :: "(ustr \<times> nat) list"

definition needs_buffering :: "masking_writer \<Rightarrow> bool" where
  "needs_buffering w \<longleftrightarrow> mw_fields w \<noteq> {} \<or> service_name (mw_context w) \<noteq> None \<or> service_version (mw_context w) \<noteq> None"

definition redact_line :: "unicode \<Rightarrow> serde \<Rightarrow> masking_writer \<Rightarrow> ustr \<Rightarrow> ustr" where
  "redact_line U J w line = (if mw_json w then inject_and_redact_json_line U J (mw_context w) (mw_fields w) line
     else redact_text_line U (mw_fields w) line)"

definition flush_buffer :: "unicode \<Rightarrow> serde \<Rightarrow> io_outcome \<Rightarrow> masking_writer \<Rightarrow> masking_writer \<times> bool" where
  "flush_buffer U J io w =
     (if mw_buffer w = [] then (w, True)
      else let redacted = redact_line U J w (mw_buffer w) in
        case io of
          IoOk \<Rightarrow> (w\<lparr>mw_inner := mw_inner w @ redacted, mw_buffer := [],
             mw_flushed := mw_flushed w @ [(mw_buffer w, length redacted)]\<rparr>, True)
        | IoFails n \<Rightarrow> (w\<lparr>mw_inner := mw_inner w @ take n redacted,
             mw_flushed := mw_flushed w @ [(mw_buffer w, min n (length redacted))]\<rparr>, False))"

definition mw_write :: "ustr \<Rightarrow> masking_writer \<Rightarrow> masking_writer" where
  "mw_write s w = (if \<not> needs_buffering w then w\<lparr>mw_inner := mw_inner w @ s\<rparr> else w\<lparr>mw_buffer := mw_buffer w @ s\<rparr>)"

definition mw_flush :: "unicode \<Rightarrow> serde \<Rightarrow> io_outcome \<Rightarrow> masking_writer \<Rightarrow> masking_writer \<times> bool" where
  "mw_flush U J io w = (if needs_buffering w then flush_buffer U J io w else (w, True))"

definition mw_drop :: "unicode \<Rightarrow> serde \<Rightarrow> io_outcome \<Rightarrow> masking_writer \<Rightarrow> masking_writer" where
  "mw_drop U J io w = (if needs_buffering w then fst (flush_buffer U J io w) else w)"

definition make_masking_writer :: "ustr set \<Rightarrow> bool \<Rightarrow> log_context \<Rightarrow> masking_writer" where
  "make_masking_writer sensitive is_json ctx =
     \<lparr>mw_inner = [], mw_buffer = [], mw_fields = sensitive, mw_json = is_json, mw_context = ctx, mw_flushed = []\<rparr>"

datatype mw_op = MwWrite ustr | MwFlush io_outcome | MwDrop io_outcome

fun mw_step :: "unicode \<Rightarrow> serde \<Rightarrow> mw_op \<Rightarrow> masking_writer \<Rightarrow> masking_writer" where
  "mw_step U J (MwWrite s) w = mw_write s w"
| "mw_step U J (MwFlush io) w = fst (mw_flush U J io w)"
| "mw_step U J (MwDrop io) w = mw_drop U J io w"

definition mw_run :: "unicode \<Rightarrow> serde \<Rightarrow> mw_op list \<Rightarrow> masking_writer \<Rightarrow> masking_writer" where
  "mw_run U J ops w = fold (mw_step U J) ops w"

section \<open>Masking of a dumped string\<close>

definition needles :: "unicode \<Rightarrow> ustr list \<Rightarrow> ustr list" where
  "needles U patterns = concat (map (\<lambda>p. let l = u_lower U p in [l @ asc ''='', l @ asc '':'', asc ''\"'' @ l @ asc ''\"'']) patterns)"

definition next_hit :: "ustr list \<Rightarrow> ustr \<Rightarrow> (nat \<times> nat) option" where
  "next_hit ns s = (case List.map_filter (\<lambda>n. map_option (\<lambda>off. (off, blen n)) (find_sub n s)) ns of
     [] \<Rightarrow> None
   | h # hs \<Rightarrow> Some (foldl (\<lambda>best x. if fst x < fst best then x else best) h hs))"

definition separator :: "nat \<Rightarrow> bool" where
  "separator c \<longleftrightarrow> c \<in> set (asc '' :='')"

definition value_of :: "unicode \<Rightarrow> ustr \<Rightarrow> ustr" where
  "value_of U rest =
     (if rest \<noteq> [] \<and> hd rest \<in> set (asc '':='')
      then takeWhile separator rest @ takeWhile (\<lambda>c. c \<notin> set (asc '',});'') \<and> c \<noteq> 10) (dropWhile separator rest)
      else takeWhile (\<lambda>c. \<not> (u_space U c \<or> c \<in> set (asc '',\"}''))) rest)"

definition emitted_separator :: "ustr \<Rightarrow> ustr" where
  "emitted_separator v = (if list_all separator v then [] else takeWhile separator v)"

lemma utf8_len_pos [simp]: "0 < utf8_len c"
  by (simp add: utf8_len_def)

lemma blen_append [simp]: "blen (a @ b) = blen a + blen b"
  by (simp add: blen_def)

lemma blen_eq_0 [simp]: "blen s = 0 \<longleftrightarrow> s = []"
  by (cases s) (auto simp: blen_def)

lemma blen_pos: "s \<noteq> [] \<Longrightarrow> 0 < blen s"
  using blen_eq_0[of s] by linarith

lemma needles_nonempty: "n \<in> set (needles U ps) \<Longrightarrow> n \<noteq> []"
  by (auto simp: needles_def Let_def asc_def)

lemma foldl_best_in: "foldl (\<lambda>b x. if fst x < fst b then x else b) h hs \<in> set (h # hs)"
proof (induction hs arbitrary: h)
  case (Cons a hs)
  from Cons[of "if fst a < fst h then a else h"] show ?case by (auto split: if_splits)
qed simp

lemma next_hit_some:
  assumes "next_hit ns s = Some (off, l)"
  shows "\<exists>n\<in>set ns. find_sub n s = Some off \<and> l = blen n"
proof -
  obtain h hs where hs: "List.map_filter (\<lambda>n. map_option (\<lambda>off. (off, blen n)) (find_sub n s)) ns = h # hs"
    and b: "(off, l) = foldl (\<lambda>b x. if fst x < fst b then x else b) h hs"
    using assms by (auto simp: next_hit_def split: list.splits)
  have "(off, l) \<in> set (List.map_filter (\<lambda>n. map_option (\<lambda>off. (off, blen n)) (find_sub n s)) ns)"
    using foldl_best_in[of h hs] unfolding hs b by simp
  then show ?thesis by (auto simp: map_filter_def)
qed

function mask_loop :: "unicode \<Rightarrow> ustr list \<Rightarrow> ustr \<Rightarrow> ustr \<Rightarrow> nat \<Rightarrow> ustr option" where
  "mask_loop U patterns lower input cursor =
     (if blen lower \<le> cursor then Some []
      else case split_at cursor lower of
        None \<Rightarrow> None
      | Some (_, lrest) \<Rightarrow>
          (case next_hit (needles U patterns) lrest of
             None \<Rightarrow> map_option snd (split_at cursor input)
           | Some (off, needle_len) \<Rightarrow>
               (case split_at cursor input of
                  None \<Rightarrow> None
                | Some (_, irest) \<Rightarrow>
                    (case split_at (off + needle_len) irest of
                       None \<Rightarrow> None
                     | Some (copied, rest) \<Rightarrow>
                         (let v = value_of U rest in
                          map_option (\<lambda>tail. copied @ emitted_separator v @ REDACTED @ tail)
                            (mask_loop U patterns lower input (cursor + off + needle_len + blen v)))))))"
  by pat_completeness auto
termination
proof (relation "measure (\<lambda>(U, ps, l, i, c). blen l - c)", goal_cases)
  case 1 then show ?case by simp
next
  case (2 U ps lower input cursor x1 p lrest x2 off nl x3 p' irest x4 copied rest v)
  then have "next_hit (needles U ps) lrest = Some (off, nl)" by simp
  then obtain n where "n \<in> set (needles U ps)" "nl = blen n" using next_hit_some by blast
  then have "0 < nl" using needles_nonempty blen_pos by blast
  with 2 show ?case by simp
qed

declare mask_loop.simps [simp del]

definition mask_sensitive_string :: "unicode \<Rightarrow> ustr \<Rightarrow> ustr list \<Rightarrow> ustr option" where
  "mask_sensitive_string U input patterns = mask_loop U patterns (u_lower U input) input 0"

section \<open>The configuration registry\<close>

definition REGISTRY_REDACTED :: ustr where
  "REGISTRY_REDACTED = asc ''***REDACTED***''"

definition SENSITIVE_PATTERNS :: "ustr list" where
  "SENSITIVE_PATTERNS = map asc [''password'', ''secret'', ''token'', ''key'', ''credential'', ''auth'', ''private'', ''cert'',
     ''encryption'', ''connection_string'', ''dsn'']"

definition sensitive_key :: "unicode \<Rightarrow> ustr \<Rightarrow> bool" where
  "sensitive_key U k \<longleftrightarrow> list_ex (contains (u_lower U k)) SENSITIVE_PATTERNS"

fun is_object :: "json \<Rightarrow> bool" where
  "is_object (JObj _) = True"
| "is_object _ = False"

fun redact_sensitive_fields :: "(ustr \<Rightarrow> bool) \<Rightarrow> json \<Rightarrow> json" where
  "redact_sensitive_fields m (JObj kvs) =
     JObj (map (\<lambda>(k, v). (k, if m k then JStr REGISTRY_REDACTED else redact_sensitive_fields m v)) kvs)"
| "redact_sensitive_fields m (JArr xs) = JArr (map (\<lambda>x. if is_object x then redact_sensitive_fields m x else x) xs)"
| "redact_sensitive_fields m v = v"

record config_section =
  cs_type_name :: string
  cs_defaults :: json
  cs_effective :: json

record registry =
  rg_sections :: "(ustr \<times> config_section) list"
  rg_listeners :: "(ustr \<times> nat list) list"

fun section_insert :: "ustr \<Rightarrow> 'a \<Rightarrow> (ustr \<times> 'a) list \<Rightarrow> (ustr \<times> 'a) list" where
  "section_insert k v [] = [(k, v)]"
| "section_insert k v ((k', v') # m) = (if k = k' then (k, v) # m else if k < k' then (k, v) # (k', v') # m
     else (k', v') # section_insert k v m)"

definition reg_register :: "ustr \<Rightarrow> config_section \<Rightarrow> registry \<Rightarrow> registry" where
  "reg_register k s r = r\<lparr>rg_sections := section_insert k s (rg_sections r)\<rparr>"

definition reg_on_change :: "ustr \<Rightarrow> nat \<Rightarrow> registry \<Rightarrow> registry" where
  "reg_on_change k cb r = r\<lparr>rg_listeners := section_insert k
     ((case map_of (rg_listeners r) k of None \<Rightarrow> [] | Some cbs \<Rightarrow> cbs) @ [cb]) (rg_listeners r)\<rparr>"

definition reg_update :: "ustr \<Rightarrow> config_section \<Rightarrow> registry \<Rightarrow> registry \<times> (nat \<times> json) list" where
  "reg_update k s r = (reg_register k s r,
     (case map_of (rg_listeners r) k of None \<Rightarrow> [] | Some cbs \<Rightarrow> map (\<lambda>cb. (cb, cs_effective s)) cbs))"

definition dump :: "unicode \<Rightarrow> (config_section \<Rightarrow> json) \<Rightarrow> registry \<Rightarrow> json" where
  "dump U part r = JObj (map (\<lambda>(k, s). (k, if is_object (part s) then redact_sensitive_fields (sensitive_key U) (part s) else part s)) (rg_sections r))"

definition dump_effective :: "unicode \<Rightarrow> registry \<Rightarrow> json" where
  "dump_effective U r = dump U cs_effective r"

definition dump_defaults :: "unicode \<Rightarrow> registry \<Rightarrow> json" where
  "dump_defaults U r = dump U cs_defaults r"

section \<open>Sensitive strings\<close>

definition serialize_sensitive :: "bool \<Rightarrow> ustr \<Rightarrow> ustr" where
  "serialize_sensitive expose s = (if expose then s else REGISTRY_REDACTED)"

datatype expose_prog = Serialize ustr | ExposeDuring "expose_prog list" bool

fun run_prog :: "expose_prog \<Rightarrow> bool \<Rightarrow> bool \<times> ustr list \<times> bool"
  and run_progs :: "expose_prog list \<Rightarrow> bool \<Rightarrow> bool \<times> ustr list \<times> bool" where
  "run_prog (Serialize s) flag = (flag, [serialize_sensitive flag s], False)"
| "run_prog (ExposeDuring body panics) flag = (case run_progs body True of (_, out, p) \<Rightarrow> (flag, out, p \<or> panics))"
| "run_progs [] flag = (flag, [], False)"
| "run_progs (x # xs) flag = (case run_prog x flag of
     (flag1, out1, True) \<Rightarrow> (flag1, out1, True)
   | (flag1, out1, False) \<Rightarrow> (case run_progs xs flag1 of (flag2, out2, p) \<Rightarrow> (flag2, out1 @ out2, p)))"


section \<open>JSON log lines\<close>

inductive low_eq :: "(ustr \<Rightarrow> bool) \<Rightarrow> json \<Rightarrow> json \<Rightarrow> bool" for m where
  low_refl: "low_eq m v v"
| low_arr: "length xs = length ys \<Longrightarrow> (\<And>i. i < length xs \<Longrightarrow> low_eq m (xs ! i) (ys ! i)) \<Longrightarrow> low_eq m (JArr xs) (JArr ys)"
| low_obj: "map fst a = map fst b \<Longrightarrow> (\<And>i. i < length a \<Longrightarrow> \<not> m (fst (a ! i)) \<Longrightarrow> low_eq m (snd (a ! i)) (snd (b ! i)))
    \<Longrightarrow> low_eq m (JObj a) (JObj b)"

lemma low_eq_redact: "low_eq m v w \<Longrightarrow> redact_json_value r m v = redact_json_value r m w"
proof (induction rule: low_eq.induct)
  case (low_obj a b)
  then have l: "length a = length b" using map_eq_imp_length_eq by blast
  have "map (\<lambda>(k, v). (k, if m k then JStr r else redact_json_value r m v)) a
      = map (\<lambda>(k, v). (k, if m k then JStr r else redact_json_value r m v)) b"
  proof (rule nth_equalityI)
    fix i assume "i < length (map (\<lambda>(k, v). (k, if m k then JStr r else redact_json_value r m v)) a)"
    then have i: "i < length a" by simp
    with low_obj(1) l have "fst (a ! i) = fst (b ! i)" by (metis nth_map)
    with low_obj(3)[OF i] i l show "map (\<lambda>(k, v). (k, if m k then JStr r else redact_json_value r m v)) a ! i
        = map (\<lambda>(k, v). (k, if m k then JStr r else redact_json_value r m v)) b ! i"
      by (simp add: case_prod_beta)
  qed (simp add: l)
  then show ?case by simp
qed (auto intro: nth_equalityI)

lemma low_eq_objE:
  assumes "low_eq m (JObj a) w"
  obtains b where "w = JObj b" "map fst a = map fst b" "\<And>i. i < length a \<Longrightarrow> \<not> m (fst (a ! i)) \<Longrightarrow> low_eq m (snd (a ! i)) (snd (b ! i))"
  using assms by (cases rule: low_eq.cases) (auto intro: low_refl)

definition low_maps :: "(ustr \<Rightarrow> bool) \<Rightarrow> (ustr \<times> json) list \<Rightarrow> (ustr \<times> json) list \<Rightarrow> bool" where
  "low_maps m a b \<longleftrightarrow> list_all2 (\<lambda>(k, v) (k', v'). k = k' \<and> (\<not> m k \<longrightarrow> low_eq m v v')) a b"

lemma low_maps_iff: "low_maps m a b \<longleftrightarrow> low_eq m (JObj a) (JObj b)"
proof
  assume l: "low_maps m a b"
  then have "length a = length b" by (simp add: low_maps_def list_all2_lengthD)
  with l show "low_eq m (JObj a) (JObj b)"
    by (intro low_obj) (auto simp: low_maps_def list_all2_conv_all_nth case_prod_beta intro: nth_equalityI)
next
  assume "low_eq m (JObj a) (JObj b)"
  then show "low_maps m a b"
  proof (rule low_eq_objE)
    fix b' assume b: "JObj b = JObj b'" "map fst a = map fst b'" and low: "\<And>i. i < length a \<Longrightarrow> \<not> m (fst (a ! i)) \<Longrightarrow> low_eq m (snd (a ! i)) (snd (b' ! i))"
    from b have l: "length a = length b" using map_eq_imp_length_eq by auto
    from b l have "fst (a ! i) = fst (b ! i)" if "i < length a" for i by (metis json.inject(5) nth_map that)
    with b l low show ?thesis by (auto simp: low_maps_def list_all2_conv_all_nth case_prod_beta)
  qed
qed

lemma low_maps_insert: "low_maps m a b \<Longrightarrow> low_maps m (map_insert k v a) (map_insert k v b)"
proof (induction k v a arbitrary: b rule: map_insert.induct)
  case (2 k v k' v' a)
  then obtain w b' where "b = (k', w) # b'" "\<not> m k' \<longrightarrow> low_eq m v' w" "low_maps m a b'"
    by (cases b) (auto simp: low_maps_def)
  with 2 show ?case by (auto simp: low_maps_def intro: low_refl)
qed (auto simp: low_maps_def intro: low_refl)

lemma low_maps_insert_opt: "low_maps m a b \<Longrightarrow> low_maps m (insert_opt k v a) (insert_opt k v b)"
  by (auto simp: insert_opt_def low_maps_insert split: option.splits)

lemma low_eq_inject:
  assumes "low_eq m v w"
  shows "low_eq m (inject ctx v) (inject ctx w)"
  using assms
proof (cases rule: low_eq.cases)
  case (low_arr xs ys)
  then show ?thesis by (auto simp: inject_def intro: low_eq.low_arr)
next
  case (low_obj a b)
  then have "low_maps m a b" by (simp add: low_maps_iff low_eq.low_obj)
  with low_obj show ?thesis by (simp add: inject_def low_maps_insert_opt flip: low_maps_iff)
qed (auto intro: low_refl)

fun at_path :: "(ustr + nat) list \<Rightarrow> json \<Rightarrow> json option" where
  "at_path [] v = Some v"
| "at_path (Inl k # p) (JObj kvs) = (case map_of kvs k of None \<Rightarrow> None | Some v \<Rightarrow> at_path p v)"
| "at_path (Inr i # p) (JArr xs) = (if i < length xs then at_path p (xs ! i) else None)"
| "at_path _ _ = None"

definition public_path :: "(ustr \<Rightarrow> bool) \<Rightarrow> (ustr + nat) list \<Rightarrow> bool" where
  "public_path m p \<longleftrightarrow> list_all (\<lambda>s. case s of Inl k \<Rightarrow> \<not> m k | Inr _ \<Rightarrow> True) p"

lemma map_of_redact: "map_of (map (\<lambda>(k, v). (k, if m k then JStr r else redact_json_value r m v)) kvs) k
    = map_option (\<lambda>v. if m k then JStr r else redact_json_value r m v) (map_of kvs k)"
  by (induction kvs) auto

lemma redact_at_public: "public_path m p \<Longrightarrow> at_path p (redact_json_value r m v) = map_option (redact_json_value r m) (at_path p v)"
  by (induction p v rule: at_path.induct) (auto simp: public_path_def map_of_redact split: option.splits)

lemma redact_at_secret:
  assumes "m k"
  shows "at_path (p @ [Inl k]) (redact_json_value r m v) \<in> {None, Some (JStr r)}"
proof (induction p v rule: at_path.induct)
  case (1 v)
  with assms show ?case by (cases v) (auto simp: map_of_redact split: option.splits)
next
  case (2 k' p kvs)
  then show ?case by (cases "map_of kvs k'") (auto simp: map_of_redact elim: at_path.elims)
qed (auto elim: at_path.elims)

lemma line_redacted:
  assumes "j_parse J (trim_end_newlines line) = Some v" "j_print J (redact_json_value REDACTED (should_mask_field U S) (inject ctx v)) = Some s"
  shows "inject_and_redact_json_line U J ctx S line = s @ (if line \<noteq> [] \<and> last line = 10 then [10] else [])"
  using assms by (simp add: inject_and_redact_json_line_def)

text \<open>C39. A JSON log line gives nothing away about the values of its sensitive fields. Two lines that parse to
  values equal up to what stands under sensitive keys, at any depth, come out as the same text. What comes
  out is the print of a value in which every sensitive key has the placeholder and everything else, on a path
  without a sensitive key, is what the service context and the line had there.\<close>

theorem json_log_noninterference:
  assumes "j_parse J (trim_end_newlines l1) = Some v1" and "j_parse J (trim_end_newlines l2) = Some v2"
    and "low_eq (should_mask_field U S) v1 v2" and "(l1 \<noteq> [] \<and> last l1 = 10) = (l2 \<noteq> [] \<and> last l2 = 10)"
    and "\<And>v. j_print J v \<noteq> None"
  shows "inject_and_redact_json_line U J ctx S l1 = inject_and_redact_json_line U J ctx S l2
    \<and> (\<exists>r. inject_and_redact_json_line U J ctx S l1 = the (j_print J r) @ (if l1 \<noteq> [] \<and> last l1 = 10 then [10] else [])
       \<and> (\<forall>p k. should_mask_field U S k \<longrightarrow> at_path (p @ [Inl k]) r \<in> {None, Some (JStr REDACTED)})
       \<and> (\<forall>p x. public_path (should_mask_field U S) p \<longrightarrow> at_path p (inject ctx v1) = Some x \<longrightarrow>
             at_path p r = Some (redact_json_value REDACTED (should_mask_field U S) x)))"
proof -
  let ?m = "should_mask_field U S"
  have eq: "redact_json_value REDACTED ?m (inject ctx v1) = redact_json_value REDACTED ?m (inject ctx v2)"
    using assms(3) by (intro low_eq_redact low_eq_inject)
  obtain s where s: "j_print J (redact_json_value REDACTED ?m (inject ctx v1)) = Some s" using assms(5) by blast
  note out = line_redacted[OF assms(1) s] line_redacted[OF assms(2) s[unfolded eq]]
  show ?thesis
    using out assms(4) s redact_at_secret[of ?m _ _ REDACTED "inject ctx v1"] redact_at_public[of ?m _ REDACTED "inject ctx v1"]
    by (intro conjI exI[of _ "redact_json_value REDACTED ?m (inject ctx v1)"]) auto
qed


section \<open>Text log lines\<close>

datatype tvalue = Quoted ustr | Bare ustr

type_synonym tfield = "ustr \<times> ustr \<times> tvalue"

fun render_value :: "tvalue \<Rightarrow> ustr" where
  "render_value (Quoted q) = QUOTE # q @ [QUOTE]"
| "render_value (Bare b) = b"

fun render :: "tfield list \<Rightarrow> ustr \<Rightarrow> ustr" where
  "render [] tail = tail"
| "render ((pre, n, v) # fs) tail = pre @ n @ EQ # render_value v @ render fs tail"

fun closes :: "nat \<Rightarrow> ustr \<Rightarrow> bool" where
  "closes prev [] \<longleftrightarrow> prev \<noteq> BACKSLASH"
| "closes prev (c # cs) \<longleftrightarrow> (c = QUOTE \<longrightarrow> prev = BACKSLASH) \<and> closes c cs"

fun wf_value :: "unicode \<Rightarrow> tvalue \<Rightarrow> ustr \<Rightarrow> bool" where
  "wf_value U (Quoted q) after \<longleftrightarrow> closes QUOTE q"
| "wf_value U (Bare b) after \<longleftrightarrow> b \<noteq> [] \<and> hd b \<noteq> QUOTE \<and> list_all (\<lambda>c. \<not> u_space U c) b \<and> (after = [] \<or> u_space U (hd after))"

fun wf_line :: "unicode \<Rightarrow> ustr set \<Rightarrow> bool \<Rightarrow> tfield list \<Rightarrow> ustr \<Rightarrow> bool" where
  "wf_line U S start [] tail \<longleftrightarrow> EQ \<notin> set tail"
| "wf_line U S start ((pre, n, v) # fs) tail \<longleftrightarrow>
     EQ \<notin> set pre \<and> (if pre = [] then start else \<not> name_char U (last pre))
     \<and> n \<noteq> [] \<and> list_all (\<lambda>c. name_char U c \<and> c \<noteq> EQ) n
     \<and> wf_value U v (render fs tail) \<and> (\<not> should_mask_field U S n \<longrightarrow> EQ \<notin> set (render_value v))
     \<and> wf_line U S False fs tail"

definition mask_fields :: "unicode \<Rightarrow> ustr set \<Rightarrow> tfield list \<Rightarrow> tfield list" where
  "mask_fields U S = map (\<lambda>(pre, n, v). (pre, n, if should_mask_field U S n then Bare REDACTED else v))"

lemma skip_quoted_closes: "closes p q \<Longrightarrow> skip_quoted p (q @ QUOTE # rest) = rest"
  by (induction p q rule: closes.induct) auto

lemma dropWhile_all_append: "list_all P b \<Longrightarrow> rest = [] \<or> \<not> P (hd rest) \<Longrightarrow> dropWhile P (b @ rest) = rest"
  by (induction b; cases rest) auto

lemma skip_wf_value: "wf_value U v rest \<Longrightarrow> skip_field_value U (render_value v @ rest) = rest"
proof (cases v)
  case (Quoted q)
  assume "wf_value U v rest"
  with Quoted show ?thesis by (simp add: skip_field_value_def skip_quoted_closes)
next
  case (Bare b)
  assume "wf_value U v rest"
  with Bare obtain c cs where b: "b = c # cs" "c \<noteq> QUOTE" "list_all (\<lambda>c. \<not> u_space U c) b" "rest = [] \<or> u_space U (hd rest)"
    by (cases b) auto
  with dropWhile_all_append[of "\<lambda>c. \<not> u_space U c" b rest] Bare show ?thesis by (simp add: skip_field_value_def)
qed

lemma field_name_found:
  assumes "list_all (name_char U) n" "x = [] \<or> \<not> name_char U (last x)"
  shows "rev (takeWhile (name_char U) (rev (x @ n))) = n"
proof -
  have all: "takeWhile (name_char U) (rev n) = rev n" using assms(1) by (simp add: takeWhile_eq_all_conv list_all_iff)
  show ?thesis
  proof (cases x rule: rev_cases)
    case Nil
    show ?thesis unfolding Nil append_Nil all by simp
  next
    case (snoc y c)
    with assms have "\<not> name_char U c" by simp
    then have "takeWhile (name_char U) (rev n @ c # rev y) = rev n" using assms(1) by (simp add: takeWhile_append list_all_iff)
    with snoc show ?thesis by simp
  qed
qed

lemma text_line_from:
  assumes "EQ \<notin> set x" and "fs = [] \<or> x = [] \<or> fst (hd fs) \<noteq> []" and "wf_line U S (x = []) fs tail"
  shows "redact_text_line U S (x @ render fs tail) = x @ render (mask_fields U S fs) tail"
  using assms
proof (induction fs arbitrary: x)
  case Nil
  then have "dropWhile (\<lambda>c. c \<noteq> EQ) (x @ tail) = []" by (auto simp: dropWhile_eq_Nil_conv)
  then show ?case by (subst redact_text_line.simps) (simp only: mask_fields_def list.map render.simps list.case)
next
  case (Cons f fs)
  obtain pre n v where f: "f = (pre, n, v)" by (cases f) auto
  let ?R = "render fs tail" and ?seg = "x @ pre @ n"
  have wf: "EQ \<notin> set pre" "if pre = [] then x = [] else \<not> name_char U (last pre)" "n \<noteq> []" "list_all (name_char U) n" "EQ \<notin> set n"
    "wf_value U v ?R" "\<not> should_mask_field U S n \<Longrightarrow> EQ \<notin> set (render_value v)" "wf_line U S False fs tail"
    using Cons.prems(3) f by (auto simp: list_all_iff)
  have no: "\<forall>c\<in>set ?seg. c \<noteq> EQ" using wf Cons.prems(1) by auto
  have dw: "dropWhile (\<lambda>c. c \<noteq> EQ) (?seg @ EQ # render_value v @ ?R) = EQ # render_value v @ ?R"
    and tw: "takeWhile (\<lambda>c. c \<noteq> EQ) (?seg @ EQ # render_value v @ ?R) = ?seg"
    using no by (simp_all add: dropWhile_append2 takeWhile_append2)
  have name: "rev (takeWhile (name_char U) (rev ?seg)) = n"
    using field_name_found[of U n "x @ pre"] wf by (auto split: if_splits)
  then have nm: "takeWhile (name_char U) (rev n @ rev pre @ rev x) = rev n" by (simp add: rev_swap)
  have next_pre: "fs = [] \<or> fst (hd fs) \<noteq> []" using wf(8) by (cases fs) (auto split: if_splits)
  have wf': "wf_line U S (y = []) fs tail" for y using wf(8) by (cases fs) (auto split: if_splits)
  have step: "redact_text_line U S (x @ render (f # fs) tail) = ?seg @ EQ #
      (if should_mask_field U S n then REDACTED @ redact_text_line U S ?R else redact_text_line U S (render_value v @ ?R))"
    using dw tw wf(3) skip_wf_value[OF wf(6)] by (subst redact_text_line.simps) (simp add: f Let_def nm)
  have "redact_text_line U S ?R = render (mask_fields U S fs) tail" using Cons.IH[of "[]"] wf'[of "[]"] by simp
  moreover have "redact_text_line U S (render_value v @ ?R) = render_value v @ render (mask_fields U S fs) tail"
    if "\<not> should_mask_field U S n" using Cons.IH[of "render_value v"] wf' wf(7)[OF that] next_pre by blast
  ultimately show ?case using step by (simp add: f mask_fields_def)
qed

text \<open>In a text log line the values of exactly the sensitive fields are replaced. For a line of fields
  \<open>name=value\<close> with text between them (values quoted, with quotes inside escaped and no backslash right before the
  closing quote, or bare words), the output is the same line with the placeholder in place of the value of every field
  whose name contains a sensitive pattern: nothing of the value is left, and nothing else changes.\<close>

theorem text_line_masks_exactly:
  assumes "wf_line U S True fs tail"
  shows "redact_text_line U S (render fs tail) = render (mask_fields U S fs) tail"
  using text_line_from[of "[]" fs U S tail] assms by (cases fs) auto


section \<open>The writer\<close>

definition mw_inv :: "unicode \<Rightarrow> serde \<Rightarrow> masking_writer \<Rightarrow> masking_writer \<Rightarrow> bool" where
  "mw_inv U J w0 w \<longleftrightarrow> mw_fields w = mw_fields w0 \<and> mw_json w = mw_json w0 \<and> mw_context w = mw_context w0
     \<and> mw_inner w = concat (map (\<lambda>(l, n). take n (redact_line U J w0 l)) (mw_flushed w))"

lemma redact_line_cong: "mw_fields w = mw_fields w0 \<Longrightarrow> mw_json w = mw_json w0 \<Longrightarrow> mw_context w = mw_context w0
    \<Longrightarrow> redact_line U J w = redact_line U J w0"
  by (auto simp: redact_line_def fun_eq_iff)

lemma flush_buffer_inv: "mw_inv U J w0 w \<Longrightarrow> mw_inv U J w0 (fst (flush_buffer U J io w))"
  using redact_line_cong[of w w0 U J] by (auto simp: mw_inv_def flush_buffer_def Let_def min_def split: io_outcome.splits)

lemma mw_step_inv:
  assumes "mw_inv U J w0 w" "needs_buffering w0"
  shows "mw_inv U J w0 (mw_step U J op w)"
proof -
  have "needs_buffering w" using assms by (simp add: mw_inv_def needs_buffering_def)
  with assms show ?thesis
    by (cases op) (auto simp: mw_write_def mw_flush_def mw_drop_def flush_buffer_inv, simp add: mw_inv_def)
qed

fun failing :: "mw_op \<Rightarrow> bool" where
  "failing (MwWrite _) = False"
| "failing (MwFlush io) = (io \<noteq> IoOk)"
| "failing (MwDrop io) = (io \<noteq> IoOk)"

fun text_of :: "mw_op \<Rightarrow> ustr" where
  "text_of (MwWrite s) = s"
| "text_of _ = []"

lemma mw_step_text:
  assumes "\<not> failing op" "needs_buffering w"
  shows "concat (map fst (mw_flushed (mw_step U J op w))) @ mw_buffer (mw_step U J op w)
    = concat (map fst (mw_flushed w)) @ mw_buffer w @ text_of op
    \<and> (\<forall>x\<in>set (mw_flushed w). snd x = length (redact_line U J w (fst x))) =
      (\<forall>x\<in>set (mw_flushed (mw_step U J op w)). snd x = length (redact_line U J w (fst x)))"
  using assms by (cases op) (auto simp: mw_write_def mw_flush_def mw_drop_def flush_buffer_def Let_def)

text \<open>What leaves a masking writer is redacted text only: over any sequence of writes, flushes and drops, with failing
  writes of the stream below, the output is made of (prefixes of) redactions of what was buffered; when no write
  fails, each buffered text leaves whole and once, and what was flushed or is buffered is what was written.\<close>

theorem writer_only_redacted:
  assumes "w0 = make_masking_writer S is_json ctx" and "needs_buffering w0" and "w = mw_run U J ops w0"
  shows "mw_inner w = concat (map (\<lambda>(l, n). take n (redact_line U J w0 l)) (mw_flushed w))
    \<and> (list_all (\<lambda>op. \<not> failing op) ops \<longrightarrow> mw_inner w = concat (map (redact_line U J w0 \<circ> fst) (mw_flushed w))
         \<and> concat (map fst (mw_flushed w)) @ mw_buffer w = concat (map text_of ops))"
proof -
  have inv: "mw_inv U J w0 (mw_run U J ops w0)" for ops
  proof (induction ops rule: rev_induct)
    case Nil then show ?case using assms(1) by (simp add: mw_run_def mw_inv_def make_masking_writer_def)
  next
    case (snoc op ops) then show ?case using mw_step_inv[OF _ assms(2)] by (simp add: mw_run_def)
  qed
  have whole: "(\<forall>x\<in>set (mw_flushed (mw_run U J ops w0)). snd x = length (redact_line U J w0 (fst x)))
      \<and> concat (map fst (mw_flushed (mw_run U J ops w0))) @ mw_buffer (mw_run U J ops w0) = concat (map text_of ops)"
    if "list_all (\<lambda>op. \<not> failing op) ops" for ops
    using that
  proof (induction ops rule: rev_induct)
    case Nil then show ?case using assms(1) by (simp add: mw_run_def make_masking_writer_def)
  next
    case (snoc op ops)
    let ?w = "mw_run U J ops w0"
    have nb: "needs_buffering ?w" using inv[of ops] assms(2) by (simp add: mw_inv_def needs_buffering_def)
    have rl: "redact_line U J ?w = redact_line U J w0" using inv[of ops] by (intro redact_line_cong) (auto simp: mw_inv_def)
    have run: "mw_run U J (ops @ [op]) w0 = mw_step U J op ?w" by (simp add: mw_run_def)
    from snoc have ih: "(\<forall>x\<in>set (mw_flushed ?w). snd x = length (redact_line U J w0 (fst x)))"
      "concat (map fst (mw_flushed ?w)) @ mw_buffer ?w = concat (map text_of ops)" and op: "\<not> failing op" by auto
    note st = mw_step_text[OF op nb, of U J, unfolded rl]
    from st ih(1) have "\<forall>x\<in>set (mw_flushed (mw_step U J op ?w)). snd x = length (redact_line U J w0 (fst x))" by blast
    moreover from st ih(2) have "concat (map fst (mw_flushed (mw_step U J op ?w))) @ mw_buffer (mw_step U J op ?w) = concat (map text_of (ops @ [op]))"
      by (metis append.assoc concat_append concat.simps map_append list.map append_Nil2)
    ultimately show ?case unfolding run by blast
  qed
  have "concat (map (\<lambda>(l, n). take n (redact_line U J w0 l)) xs) = concat (map (redact_line U J w0 \<circ> fst) xs)"
    if "\<forall>x\<in>set xs. snd x = length (redact_line U J w0 (fst x))" for xs
    using that by (induction xs) auto
  with inv[of ops] whole[of ops] assms(3) show ?thesis by (auto simp: mw_inv_def)
qed

section \<open>Dumped strings\<close>

lemma split_at_blen [simp]: "split_at (blen a) (a @ b) = Some (a, b)"
proof (induction a)
  case Nil then show ?case by (cases b) (auto simp: blen_def)
next
  case (Cons c a) then show ?case by (simp add: blen_def)
qed

lemma split_at_some: "split_at n s = Some (a, b) \<Longrightarrow> s = a @ b \<and> n = blen a"
  by (induction n s arbitrary: a rule: split_at.induct) (auto simp: blen_def split: if_splits)

lemma find_sub_some: "find_sub n s = Some off \<Longrightarrow> \<exists>a b. s = a @ n @ b \<and> off = blen a"
proof (induction s arbitrary: off)
  case Nil then show ?case by (auto split: if_splits simp: blen_def)
next
  case (Cons c cs)
  show ?case
  proof (cases "prefix n (c # cs)")
    case True
    with Cons.prems have "off = 0" by simp
    moreover from True obtain b where "c # cs = [] @ n @ b" by (auto simp: prefix_def)
    ultimately show ?thesis using blen_eq_0 by metis
  next
    case False
    with Cons.prems obtain o' where o: "find_sub n cs = Some o'" "off = utf8_len c + o'" by auto
    from Cons.IH[OF o(1)] obtain a b where "cs = a @ n @ b" "o' = blen a" by blast
    with o show ?thesis by (intro exI[of _ "c # a"] exI[of _ b]) (simp add: blen_def)
  qed
qed

lemma same_widths_split:
  assumes "map utf8_len s = map utf8_len t" "split_at n s = Some (a, b)"
  shows "\<exists>a' b'. split_at n t = Some (a', b') \<and> map utf8_len a = map utf8_len a' \<and> map utf8_len b = map utf8_len b'"
proof -
  have s: "s = a @ b" "n = blen a" using split_at_some[OF assms(2)] by auto
  let ?a = "take (length a) t" and ?b = "drop (length a) t"
  have "map utf8_len ?a = map utf8_len a" "map utf8_len ?b = map utf8_len b"
    using assms(1) s by (metis append_eq_conv_conj length_map map_append take_map, metis append_eq_conv_conj length_map map_append drop_map)
  moreover from this have "blen ?a = n" using s by (simp add: blen_def)
  then have "split_at n t = Some (?a, ?b)" using split_at_blen[of ?a ?b] by simp
  ultimately show ?thesis by metis
qed

lemma value_of_prefix: "\<exists>r. rest = value_of U rest @ r"
proof (cases "rest \<noteq> [] \<and> hd rest \<in> set (asc '':='')")
  case True
  then have "rest = value_of U rest @ dropWhile (\<lambda>c. c \<notin> set (asc '',});'') \<and> c \<noteq> 10) (dropWhile separator rest)"
    by (simp add: value_of_def)
  then show ?thesis by blast
next
  case False
  then show ?thesis
    by (auto simp: value_of_def intro!: exI[of _ "dropWhile (\<lambda>c. \<not> (u_space U c \<or> c \<in> set (asc '',\"}''))) rest"] simp del: de_Morgan_disj)
qed

lemma mask_loop_returns:
  assumes "map utf8_len lower = map utf8_len input" and "split_at cursor lower \<noteq> None"
  shows "mask_loop U patterns lower input cursor \<noteq> None"
  using assms
proof (induction U patterns lower input cursor rule: mask_loop.induct)
  case (1 U patterns lower input cursor)
  show ?case
  proof (cases "blen lower \<le> cursor")
    case False
    from 1(3) obtain la lrest where l: "split_at cursor lower = Some (la, lrest)" by auto
    from same_widths_split[OF 1(2) l] obtain ia irest where i: "split_at cursor input = Some (ia, irest)"
      and w: "map utf8_len lrest = map utf8_len irest" by blast
    show ?thesis
    proof (cases "next_hit (needles U patterns) lrest")
      case None
      with False l i show ?thesis by (subst mask_loop.simps) simp
    next
      case (Some h)
      obtain off nl where h: "h = (off, nl)" by fastforce
      with Some obtain n where "find_sub n lrest = Some off" "nl = blen n" using next_hit_some by blast
      then obtain a b where "lrest = a @ n @ b" "off + nl = blen (a @ n)" using find_sub_some by fastforce
      then have "split_at (off + nl) lrest = Some (a @ n, b)" using split_at_blen[of "a @ n" b] by simp
      from same_widths_split[OF w this] obtain copied rest where c: "split_at (off + nl) irest = Some (copied, rest)" by blast
      let ?v = "value_of U rest"
      obtain r where r: "rest = ?v @ r" using value_of_prefix by blast
      have inp: "input = (ia @ copied @ ?v) @ r" "cursor = blen ia" "off + nl = blen copied"
        using split_at_some[OF i] split_at_some[OF c] r by auto
      then have "split_at (cursor + off + nl + blen ?v) input = Some (ia @ copied @ ?v, r)"
        using split_at_blen[of "ia @ copied @ ?v" r] by (simp add: add.assoc)
      from same_widths_split[OF 1(2)[symmetric] this] have "split_at (cursor + off + nl + blen ?v) lower \<noteq> None" by blast
      from 1(1)[OF False l refl Some h[symmetric] i refl c refl refl 1(2) this] False l i c Some h show ?thesis
        by (subst mask_loop.simps) (auto simp: Let_def)
    qed
  qed (subst mask_loop.simps, simp)
qed

text \<open>Masking a dumped string always returns, without a panic, when lowering the string changes no character's
  width in bytes (which is so for ASCII).\<close>

theorem mask_sensitive_string_returns:
  assumes "map utf8_len (u_lower U input) = map utf8_len input"
  shows "\<exists>out. mask_sensitive_string U input patterns = Some out"
proof -
  have "split_at 0 (u_lower U input) \<noteq> None" by (cases "u_lower U input") auto
  with mask_loop_returns[OF assms, of 0 U patterns] show ?thesis by (auto simp: mask_sensitive_string_def)
qed


section \<open>The registry dump\<close>

fun is_array :: "json \<Rightarrow> bool" where
  "is_array (JArr _) = True"
| "is_array _ = False"

fun flat_arrays :: "(ustr \<Rightarrow> bool) \<Rightarrow> json \<Rightarrow> bool" where
  "flat_arrays m (JObj kvs) \<longleftrightarrow> (\<forall>(k, v)\<in>set kvs. m k \<or> flat_arrays m v)"
| "flat_arrays m (JArr xs) \<longleftrightarrow> (\<forall>x\<in>set xs. \<not> is_array x \<and> flat_arrays m x)"
| "flat_arrays m v \<longleftrightarrow> True"

lemma registry_redaction_complete:
  "flat_arrays m v \<Longrightarrow> redact_sensitive_fields m v = redact_json_value REGISTRY_REDACTED m v"
proof (induction m v rule: redact_sensitive_fields.induct)
  case (1 m kvs)
  then show ?case by (fastforce simp: case_prod_beta)
next
  case (2 m xs)
  have "redact_json_value REGISTRY_REDACTED m x = x" if "\<not> is_object x" "\<not> is_array x" for x using that by (cases x) auto
  with 2 show ?case by auto
qed auto

lemma reg_update_notifies:
  "reg_update k s (reg_on_change k cb r) = (r', out) \<Longrightarrow> (cb, cs_effective s) \<in> set out
     \<and> map_of (rg_sections r') k = Some s \<and> set out \<subseteq> UNIV \<times> {cs_effective s}"
proof -
  have ins': "map_of (section_insert j x m) i = (if i = j then Some x else map_of m i)" for j :: ustr and x :: "nat list" and m i
    by (induction j x m rule: section_insert.induct) auto
  have ins'': "map_of (section_insert j x m) i = (if i = j then Some x else map_of m i)" for j :: ustr and x :: config_section and m i
    by (induction j x m rule: section_insert.induct) auto
  assume "reg_update k s (reg_on_change k cb r) = (r', out)"
  then show ?thesis by (auto simp: reg_update_def reg_on_change_def reg_register_def ins' ins'' split: option.splits)
qed

text \<open>The redacted dump of the registry gives away nothing under a sensitive key, for sections that are objects without
  arrays directly inside arrays: two registries whose sections are equal up to what stands under sensitive keys are
  dumped alike.\<close>

theorem registry_dump_noninterference:
  assumes "map fst (rg_sections r1) = map fst (rg_sections r2)"
    and "\<And>i. i < length (rg_sections r1) \<Longrightarrow> low_eq (sensitive_key U) (cs_effective (snd (rg_sections r1 ! i))) (cs_effective (snd (rg_sections r2 ! i)))"
    and "\<forall>(k, s)\<in>set (rg_sections r1 @ rg_sections r2). is_object (cs_effective s) \<and> flat_arrays (sensitive_key U) (cs_effective s)"
  shows "dump_effective U r1 = dump_effective U r2"
proof -
  have len: "length (rg_sections r1) = length (rg_sections r2)" using assms(1) map_eq_imp_length_eq by blast
  have "(case rg_sections r1 ! i of (k, s) \<Rightarrow> (k, redact_sensitive_fields (sensitive_key U) (cs_effective s)))
      = (case rg_sections r2 ! i of (k, s) \<Rightarrow> (k, redact_sensitive_fields (sensitive_key U) (cs_effective s)))" if i: "i < length (rg_sections r1)" for i
  proof -
    have "fst (rg_sections r1 ! i) = fst (rg_sections r2 ! i)" using assms(1) i len by (metis nth_map)
    moreover have "flat_arrays (sensitive_key U) (cs_effective (snd (rg_sections r1 ! i)))" "flat_arrays (sensitive_key U) (cs_effective (snd (rg_sections r2 ! i)))"
      using assms(3) i len nth_mem by (fastforce simp: case_prod_beta)+
    ultimately show ?thesis
      using low_eq_redact[OF assms(2)[OF i]] by (simp add: case_prod_beta registry_redaction_complete)
  qed
  then have "map (\<lambda>(k, s). (k, redact_sensitive_fields (sensitive_key U) (cs_effective s))) (rg_sections r1)
      = map (\<lambda>(k, s). (k, redact_sensitive_fields (sensitive_key U) (cs_effective s))) (rg_sections r2)"
    using len by (auto intro!: nth_equalityI)
  moreover have "dump_effective U r = JObj (map (\<lambda>(k, s). (k, redact_sensitive_fields (sensitive_key U) (cs_effective s))) (rg_sections r))"
    if "\<forall>(k, s)\<in>set (rg_sections r). is_object (cs_effective s)" for r
    using that by (auto simp: dump_effective_def dump_def)
  moreover have "\<forall>(k, s)\<in>set (rg_sections r1). is_object (cs_effective s)" "\<forall>(k, s)\<in>set (rg_sections r2). is_object (cs_effective s)"
    using assms(3) by fastforce+
  ultimately show ?thesis by simp
qed

lemma expose_restores:
  "fst (run_prog x flag) = flag" "fst (run_progs xs flag) = flag"
  by (induction x flag and xs flag rule: run_prog_run_progs.induct) (auto split: prod.splits bool.splits)

section \<open>Concrete runs\<close>

definition demo_unicode :: unicode where
  "demo_unicode = \<lparr>u_alnum = (\<lambda>c. 48 \<le> c \<and> c \<le> 57 \<or> 65 \<le> c \<and> c \<le> 90 \<or> 97 \<le> c \<and> c \<le> 122),
     u_space = (\<lambda>c. c = 32 \<or> 9 \<le> c \<and> c \<le> 13),
     u_lower = (\<lambda>s. concat (map (\<lambda>c. if 65 \<le> c \<and> c \<le> 90 then [c + 32] else if c = 304 then [105, 775] else [c]) s))\<rparr>"

definition demo_serde :: serde where
  "demo_serde = \<lparr>j_parse = (\<lambda>s. Some (JObj [(asc ''password'', JStr s), (asc ''user'', JStr (asc ''bob''))])), j_print = (\<lambda>v. Some (asc ''x''))\<rparr>"

definition demo_ctx :: log_context where
  "demo_ctx = \<lparr>service_name = None, service_version = None, pod_name = None, k8s_namespace = None, node_name = None\<rparr>"

lemmas redact_eval = mask_sensitive_string_def asc_def demo_unicode_def

lemma config_check_leaks_secret:
  "mask_sensitive_string demo_unicode (asc ''password: \"hunter2\",'') [asc ''password''] = Some (asc ''password:[REDACTED] \"hunter2\",'')"
  by code_simp

lemma wide_lowercase_panics:
  "mask_sensitive_string demo_unicode ([304, 32] @ asc ''password='' @ [233]) [asc ''password''] = None"
  by code_simp

lemma escaped_backslash_leaks:
  "redact_text_line demo_unicode {asc ''token'', asc ''password''} (asc ''password=\"a'' @ [92, 92] @ asc ''\" token=\"s3cr et\"'')
     = asc ''password=[REDACTED]s3cr et\"''"
  by code_simp

lemma debug_value_leaks_tail:
  "redact_text_line demo_unicode {asc ''token''} (asc ''token=Some(\"a b\") n=1'') = asc ''token=[REDACTED] b\") n=1''"
  by code_simp

lemma nested_array_leaks:
  "redact_sensitive_fields (sensitive_key demo_unicode) (JObj [(asc ''a'', JArr [JArr [JObj [(asc ''password'', JStr (asc ''x''))]]])])
     = JObj [(asc ''a'', JArr [JArr [JObj [(asc ''password'', JStr (asc ''x''))]]])]"
  by code_simp


theorem json_log_noninterference_witness:
  "inject_and_redact_json_line demo_unicode demo_serde demo_ctx {asc ''password''} (asc ''s1'')
     = inject_and_redact_json_line demo_unicode demo_serde demo_ctx {asc ''password''} (asc ''other'')"
proof -
  have "low_eq (should_mask_field demo_unicode {asc ''password''})
      (JObj [(asc ''password'', JStr a), (asc ''user'', JStr (asc ''bob''))]) (JObj [(asc ''password'', JStr b), (asc ''user'', JStr (asc ''bob''))])" for a b
  proof -
    have "should_mask_field demo_unicode {asc ''password''} (asc ''password'')" by code_simp
    then show ?thesis by (intro low_obj) (auto simp: nth_Cons' intro: low_refl)
  qed
  then have low: "low_eq (should_mask_field demo_unicode {asc ''password''})
      (the (j_parse demo_serde (trim_end_newlines (asc ''s1'')))) (the (j_parse demo_serde (trim_end_newlines (asc ''other''))))"
    by (simp add: demo_serde_def)
  show ?thesis
    by (rule json_log_noninterference[where ctx = demo_ctx, OF _ _ low, THEN conjunct1]) (simp_all add: demo_serde_def, simp add: asc_def)
qed

theorem text_line_masks_exactly_witness:
  "redact_text_line demo_unicode {asc ''token''} (asc ''INFO user=bob token=\"s e\" n=1'') = asc ''INFO user=bob token=[REDACTED] n=1''"
proof -
  let ?fs = "[(asc ''INFO '', asc ''user'', Bare (asc ''bob'')), (asc '' '', asc ''token'', Quoted (asc ''s e'')), (asc '' '', asc ''n'', Bare (asc ''1''))]"
  have "wf_line demo_unicode {asc ''token''} True ?fs []" by code_simp
  from text_line_masks_exactly[OF this]
  have "redact_text_line demo_unicode {asc ''token''} (render ?fs []) = render (mask_fields demo_unicode {asc ''token''} ?fs) []" .
  moreover have "render ?fs [] = asc ''INFO user=bob token=\"s e\" n=1''" by code_simp
  moreover have "render (mask_fields demo_unicode {asc ''token''} ?fs) [] = asc ''INFO user=bob token=[REDACTED] n=1''" by code_simp
  ultimately show ?thesis by simp
qed

theorem mask_sensitive_string_returns_witness:
  "\<exists>out. mask_sensitive_string demo_unicode (asc ''password=x'') [asc ''password''] = Some out"
  by (rule mask_sensitive_string_returns) code_simp

end
