(* ===== verification/Directory_Store.thy ===== *)
theory Directory_Store
  imports Prelude "HOL-Library.List_Lexorder" "HOL-Library.Char_ord"
begin

text \<open>
  \<open>src/directory_config/{store,refresh,types,error}.rs\<close>: a directory of YAML files as tables, cached in
  memory, polled for changes and written through with an advisory lock. The disk is the list of
  the files below the directory, by relative path, in the order the directory walk meets them,
  each with its text (\<open>None\<close>: not readable) and modification time. The YAML parser and printer, the
  clock, the failures of the file system and the outcome of a git commit are arguments. A YAML
  mapping keeps its insertion order and removes by swapping in its last entry; tagged values are
  left out. The broadcast channel is the history of what was sent.
\<close>

datatype yaml = YNull | YBool bool | YNum string | YString string | YSeq "yaml list" | YMap "(yaml \<times> yaml) list"

record yaml_lib =
  y_parse :: "string \<Rightarrow> (yaml, string) result"
  y_print :: "yaml \<Rightarrow> (string, string) result"

datatype dc_error = DirectoryNotFound string | TableNotFound string | DcKeyNotFound string string | DcParseError string string
  | DcReadOnly | AlreadyRunning | NotStarted | InvalidTableName string | SerializationError string | IoError string | GitError string

datatype write_mode = ReadOnly | DirectWrite | GitCommit

datatype change_operation = Updated | Deleted | Refreshed

record dfile =
  df_text :: "string option"
  df_modified :: nat

record dir_store =
  ds_disk :: "(string \<times> dfile) list"
  ds_cache :: "string \<rightharpoonup> yaml"
  ds_timestamps :: "string \<rightharpoonup> nat"
  ds_write_mode :: write_mode
  ds_running :: bool
  ds_events :: "(string \<times> change_operation) list"

fun split_char :: "char \<Rightarrow> string \<Rightarrow> string list" where
  "split_char d [] = [[]]"
| "split_char d (c # cs) = (if c = d then [] # split_char d cs
     else case split_char d cs of [] \<Rightarrow> [[c]] | s # ss \<Rightarrow> (c # s) # ss)"

definition trim_matches :: "char \<Rightarrow> string \<Rightarrow> string" where
  "trim_matches d s = rev (dropWhile (\<lambda>c. c = d) (rev (dropWhile (\<lambda>c. c = d) s)))"

definition SLASH :: char where "SLASH = CHR ''/''"
definition DOT :: char where "DOT = CHR ''.''"
definition BSLASH :: char where "BSLASH = CHR 92"

section \<open>Names and paths\<close>

fun check_segments :: "string list \<Rightarrow> (unit, dc_error) result" where
  "check_segments [] = Ok ()"
| "check_segments (s # ss) =
     (if s = '''' then Err (InvalidTableName ''empty path segment'')
      else if s = ''..'' then Err (InvalidTableName ''path traversal not allowed'')
      else if s = ''.'' then Err (InvalidTableName ''current directory reference not allowed'')
      else check_segments ss)"

definition normalize_table_name :: "string \<Rightarrow> string" where
  "normalize_table_name t = trim_matches SLASH t"

definition validate_table_name :: "string \<Rightarrow> (unit, dc_error) result" where
  "validate_table_name t =
     (let trimmed = trim_matches SLASH t in
      if trimmed = '''' then Err (InvalidTableName ''table name is empty'')
      else if BSLASH \<in> set t then Err (InvalidTableName ''backslash not allowed'')
      else check_segments (split_char SLASH trimmed))"

definition file_exists :: "(string \<times> dfile) list \<Rightarrow> string \<Rightarrow> bool" where
  "file_exists disk p \<longleftrightarrow> map_of disk p \<noteq> None"

definition table_path :: "string \<Rightarrow> dir_store \<Rightarrow> string" where
  "table_path t s = (let t = normalize_table_name t; yaml_path = t @ ''.yaml''; yml_path = t @ ''.yml'' in
     if file_exists (ds_disk s) yaml_path then yaml_path
     else if file_exists (ds_disk s) yml_path then yml_path else yaml_path)"

section \<open>Keys in a document\<close>

fun navigate :: "yaml \<Rightarrow> string list \<Rightarrow> yaml option" where
  "navigate v [] = Some v"
| "navigate (YMap m) (k # ks) = (case map_of m (YString k) of None \<Rightarrow> None | Some v \<Rightarrow> navigate v ks)"
| "navigate _ (k # ks) = None"

definition navigate_yaml :: "yaml \<Rightarrow> string \<Rightarrow> yaml option" where
  "navigate_yaml v key = navigate v (split_char DOT key)"

fun ymap_insert :: "yaml \<Rightarrow> yaml \<Rightarrow> (yaml \<times> yaml) list \<Rightarrow> (yaml \<times> yaml) list" where
  "ymap_insert k v [] = [(k, v)]"
| "ymap_insert k v ((k', v') # m) = (if k = k' then (k, v) # m else (k', v') # ymap_insert k v m)"

fun set_at :: "yaml \<Rightarrow> string list \<Rightarrow> yaml \<Rightarrow> yaml" where
  "set_at v [] doc = doc"
| "set_at v [k] doc = (case doc of YMap m \<Rightarrow> YMap (ymap_insert (YString k) v m) | _ \<Rightarrow> doc)"
| "set_at v (k # k' # ks) doc =
     (let m = (case doc of YMap m \<Rightarrow> m | _ \<Rightarrow> []);
          child = (case map_of m (YString k) of Some c \<Rightarrow> c | None \<Rightarrow> YMap [])
      in YMap (ymap_insert (YString k) (set_at v (k' # ks) child) m))"

definition set_yaml_key :: "yaml \<Rightarrow> string \<Rightarrow> yaml \<Rightarrow> yaml" where
  "set_yaml_key doc key v = set_at v (split_char DOT key) doc"

definition swap_remove :: "yaml \<Rightarrow> (yaml \<times> yaml) list \<Rightarrow> (yaml \<times> yaml) list" where
  "swap_remove k m = (let a = takeWhile (\<lambda>e. fst e \<noteq> k) m; b = tl (dropWhile (\<lambda>e. fst e \<noteq> k) m)
     in if b = [] then a else a @ last b # butlast b)"

fun remove_at :: "string list \<Rightarrow> yaml \<Rightarrow> yaml option" where
  "remove_at [] doc = None"
| "remove_at [k] doc = (case doc of
     YMap m \<Rightarrow> (case map_of m (YString k) of None \<Rightarrow> None | Some _ \<Rightarrow> Some (YMap (swap_remove (YString k) m)))
   | _ \<Rightarrow> None)"
| "remove_at (k # k' # ks) doc = (case doc of
     YMap m \<Rightarrow> (case map_of m (YString k) of
         None \<Rightarrow> None
       | Some c \<Rightarrow> map_option (\<lambda>c'. YMap (ymap_insert (YString k) c' m)) (remove_at (k' # ks) c))
   | _ \<Rightarrow> None)"

definition remove_yaml_key :: "yaml \<Rightarrow> string \<Rightarrow> yaml option" where
  "remove_yaml_key doc key = remove_at (split_char DOT key) doc"

section \<open>Loading\<close>

definition hidden :: "string \<Rightarrow> bool" where
  "hidden p \<longleftrightarrow> list_ex (\<lambda>s. s \<noteq> [] \<and> hd s = DOT) (split_char SLASH p)"

definition strip_ext :: "string \<Rightarrow> string \<Rightarrow> string option" where
  "strip_ext e p = (if suffix e p then Some (take (length p - length e) p) else None)"

definition table_of :: "string \<Rightarrow> string option" where
  "table_of p = (if hidden p then None
     else map_option (map (\<lambda>c. if c = BSLASH then SLASH else c))
       (case strip_ext ''.yaml'' p of Some t \<Rightarrow> Some t | None \<Rightarrow> strip_ext ''.yml'' p))"

fun load_file :: "yaml_lib \<Rightarrow> (string \<rightharpoonup> yaml) \<Rightarrow> (string \<rightharpoonup> nat) \<Rightarrow> string \<times> dfile \<Rightarrow>
    (string \<rightharpoonup> yaml) \<times> (string \<rightharpoonup> nat) \<Rightarrow> (string \<rightharpoonup> yaml) \<times> (string \<rightharpoonup> nat)" where
  "load_file Y cache ts (p, f) (nc, nt) = (case table_of p of
     None \<Rightarrow> (nc, nt)
   | Some [] \<Rightarrow> (nc, nt)
   | Some t \<Rightarrow> (case df_text f of
       None \<Rightarrow> (nc, nt)
     | Some txt \<Rightarrow> (case y_parse Y txt of
         Inr v \<Rightarrow> (nc(t \<mapsto> v), nt(t \<mapsto> df_modified f))
       | Inl _ \<Rightarrow> ((case cache t of Some v \<Rightarrow> nc(t \<mapsto> v) | None \<Rightarrow> nc), (case ts t of Some m \<Rightarrow> nt(t \<mapsto> m) | None \<Rightarrow> nt)))))"

definition load_tables :: "yaml_lib \<Rightarrow> (string \<rightharpoonup> yaml) \<Rightarrow> (string \<rightharpoonup> nat) \<Rightarrow> (string \<times> dfile) list \<Rightarrow> (string \<rightharpoonup> yaml) \<times> (string \<rightharpoonup> nat)" where
  "load_tables Y cache ts disk = fold (load_file Y cache ts) disk (Map.empty, Map.empty)"

definition load_all_tables :: "yaml_lib \<Rightarrow> (unit, string) result \<Rightarrow> dir_store \<Rightarrow> dir_store \<times> (unit, dc_error) result" where
  "load_all_tables Y io s = (case io of
     Inl e \<Rightarrow> (s, Err (IoError e))
   | Inr _ \<Rightarrow> (case load_tables Y (ds_cache s) (ds_timestamps s) (ds_disk s) of
       (nc, nt) \<Rightarrow> (s\<lparr>ds_cache := nc, ds_timestamps := nt\<rparr>, Ok ())))"

definition detect_write_mode :: "bool \<Rightarrow> bool \<Rightarrow> bool \<Rightarrow> write_mode" where
  "detect_write_mode probe_ok git_enabled has_git = (if \<not> probe_ok then ReadOnly else if git_enabled \<and> has_git then GitCommit else DirectWrite)"

definition store_new :: "yaml_lib \<Rightarrow> (unit, string) result \<Rightarrow> string \<Rightarrow> bool \<Rightarrow> write_mode \<Rightarrow> (string \<times> dfile) list \<Rightarrow> (dir_store, dc_error) result" where
  "store_new Y io dir is_dir mode disk =
     (if \<not> is_dir then Err (DirectoryNotFound dir)
      else case load_all_tables Y io \<lparr>ds_disk = disk, ds_cache = Map.empty, ds_timestamps = Map.empty, ds_write_mode = mode,
                ds_running = False, ds_events = []\<rparr> of
          (s, Inl e) \<Rightarrow> Err e
        | (s, Inr _) \<Rightarrow> Ok s)"

definition store_start :: "dir_store \<Rightarrow> dir_store \<times> (unit, dc_error) result" where
  "store_start s = (if ds_running s then (s, Err AlreadyRunning) else (s\<lparr>ds_running := True\<rparr>, Ok ()))"

definition store_stop :: "dir_store \<Rightarrow> dir_store \<times> (unit, dc_error) result" where
  "store_stop s = (if ds_running s then (s\<lparr>ds_running := False\<rparr>, Ok ()) else (s, Err NotStarted))"

section \<open>Reading\<close>

definition store_get :: "string \<Rightarrow> dir_store \<Rightarrow> (yaml, dc_error) result" where
  "store_get t s = (case validate_table_name t of
     Inl e \<Rightarrow> Err e
   | Inr _ \<Rightarrow> (let t = normalize_table_name t in case ds_cache s t of None \<Rightarrow> Err (TableNotFound t) | Some v \<Rightarrow> Ok v))"

definition get_key :: "string \<Rightarrow> string \<Rightarrow> dir_store \<Rightarrow> (yaml, dc_error) result" where
  "get_key t key s = (case store_get t s of
     Inl e \<Rightarrow> Err e
   | Inr v \<Rightarrow> (case navigate_yaml v key of None \<Rightarrow> Err (DcKeyNotFound (normalize_table_name t) key) | Some x \<Rightarrow> Ok x))"

section \<open>Writing\<close>

datatype dw_outcome = DwOk | DwOpenFails string | DwWriteFails nat string

definition load_yaml_file :: "yaml_lib \<Rightarrow> string \<Rightarrow> dir_store \<Rightarrow> (yaml, dc_error) result" where
  "load_yaml_file Y p s = (case map_of (ds_disk s) p of
     None \<Rightarrow> Err (IoError p)
   | Some f \<Rightarrow> (case df_text f of
       None \<Rightarrow> Err (IoError p)
     | Some txt \<Rightarrow> (case y_parse Y txt of Inl e \<Rightarrow> Err (DcParseError p e) | Inr v \<Rightarrow> Ok v)))"

fun put_file :: "string \<Rightarrow> dfile \<Rightarrow> (string \<times> dfile) list \<Rightarrow> (string \<times> dfile) list" where
  "put_file p f [] = [(p, f)]"
| "put_file p f ((q, g) # d) = (if p = q then (p, f) # d else (q, g) # put_file p f d)"

definition old_text :: "string \<Rightarrow> dir_store \<Rightarrow> string" where
  "old_text p s = (case map_of (ds_disk s) p of Some f \<Rightarrow> (case df_text f of Some t \<Rightarrow> t | None \<Rightarrow> []) | None \<Rightarrow> [])"

definition write_yaml_locked :: "yaml_lib \<Rightarrow> dw_outcome \<Rightarrow> nat \<Rightarrow> string \<Rightarrow> yaml \<Rightarrow> dir_store \<Rightarrow> dir_store \<times> (unit, dc_error) result" where
  "write_yaml_locked Y io now p doc s = (case y_print Y doc of
     Inl e \<Rightarrow> (s, Err (SerializationError e))
   | Inr txt \<Rightarrow> (case io of
       DwOk \<Rightarrow> (s\<lparr>ds_disk := put_file p \<lparr>df_text = Some txt, df_modified = now\<rparr> (ds_disk s)\<rparr>, Ok ())
     | DwOpenFails e \<Rightarrow> (s, Err (IoError e))
     | DwWriteFails n e \<Rightarrow>
         (s\<lparr>ds_disk := put_file p \<lparr>df_text = Some (take n txt @ drop n (old_text p s)), df_modified = now\<rparr> (ds_disk s)\<rparr>, Err (IoError e))))"

definition check_writable :: "dir_store \<Rightarrow> (unit, dc_error) result" where
  "check_writable s = (if ds_write_mode s = ReadOnly then Err DcReadOnly else Ok ())"

record git_env =
  ge_commit :: "string \<Rightarrow> string \<Rightarrow> (string option \<times> string, string) result"
  ge_push :: "(unit, string) result option"

definition maybe_git_commit :: "git_env \<Rightarrow> string \<Rightarrow> string option \<Rightarrow> dir_store \<Rightarrow> (string option \<times> string option, dc_error) result" where
  "maybe_git_commit G t msg s =
     (if ds_write_mode s \<noteq> GitCommit then Ok (None, None)
      else case ge_commit G (table_path t s) (case msg of Some m \<Rightarrow> m | None \<Rightarrow> ''config: update '' @ normalize_table_name t) of
        Inl e \<Rightarrow> Err (GitError e)
      | Inr (branch, commit) \<Rightarrow> (case ge_push G of Some (Inl e) \<Rightarrow> Err (GitError e) | _ \<Rightarrow> Ok (branch, Some commit)))"

record write_result =
  wr_table :: string
  wr_operation :: change_operation
  wr_branch :: "string option"
  wr_commit :: "string option"

definition store_commit :: "yaml_lib \<Rightarrow> git_env \<Rightarrow> dw_outcome \<Rightarrow> nat \<Rightarrow> string \<Rightarrow> string \<Rightarrow> yaml \<Rightarrow> string option \<Rightarrow> change_operation \<Rightarrow> dir_store \<Rightarrow>
    dir_store \<times> (write_result, dc_error) result" where
  "store_commit Y G io now t p doc msg op s = (case write_yaml_locked Y io now p doc s of
     (s1, Inl e) \<Rightarrow> (s1, Err e)
   | (s1, Inr _) \<Rightarrow>
       (let s2 = s1\<lparr>ds_cache := (ds_cache s1)(t \<mapsto> doc)\<rparr> in
        case maybe_git_commit G t msg s2 of
          Inl e \<Rightarrow> (s2, Err e)
        | Inr (branch, commit) \<Rightarrow> (s2\<lparr>ds_events := ds_events s2 @ [(t, op)]\<rparr>,
            Ok \<lparr>wr_table = t, wr_operation = op, wr_branch = branch, wr_commit = commit\<rparr>)))"

definition set_load :: "yaml_lib \<Rightarrow> (unit, string) result \<Rightarrow> string \<Rightarrow> string \<Rightarrow> yaml \<Rightarrow> dir_store \<Rightarrow> (string \<times> string \<times> yaml, dc_error) result" where
  "set_load Y mkdir table key v s = (case check_writable s of
     Inl e \<Rightarrow> Err e
   | Inr _ \<Rightarrow> (case validate_table_name table of
       Inl e \<Rightarrow> Err e
     | Inr _ \<Rightarrow> (let t = normalize_table_name table; p = table_path t s in
         case mkdir of
           Inl e \<Rightarrow> Err (IoError e)
         | Inr _ \<Rightarrow> (case (if file_exists (ds_disk s) p then load_yaml_file Y p s else Ok (YMap [])) of
             Inl e \<Rightarrow> Err e
           | Inr doc \<Rightarrow> Ok (t, p, set_yaml_key doc key v)))))"

definition store_set :: "yaml_lib \<Rightarrow> git_env \<Rightarrow> (unit, string) result \<Rightarrow> dw_outcome \<Rightarrow> nat \<Rightarrow> string \<Rightarrow> string \<Rightarrow> yaml \<Rightarrow> string option \<Rightarrow> dir_store \<Rightarrow>
    dir_store \<times> (write_result, dc_error) result" where
  "store_set Y G mkdir io now table key v msg s = (case set_load Y mkdir table key v s of
     Inl e \<Rightarrow> (s, Err e)
   | Inr (t, p, doc) \<Rightarrow> store_commit Y G io now t p doc msg Updated s)"

definition delete_key :: "yaml_lib \<Rightarrow> git_env \<Rightarrow> dw_outcome \<Rightarrow> nat \<Rightarrow> string \<Rightarrow> string \<Rightarrow> string option \<Rightarrow> dir_store \<Rightarrow>
    dir_store \<times> (write_result, dc_error) result" where
  "delete_key Y G io now table key msg s = (case check_writable s of
     Inl e \<Rightarrow> (s, Err e)
   | Inr _ \<Rightarrow> (case validate_table_name table of
       Inl e \<Rightarrow> (s, Err e)
     | Inr _ \<Rightarrow> (let t = normalize_table_name table; p = table_path t s in
         if \<not> file_exists (ds_disk s) p then (s, Err (TableNotFound t))
         else case load_yaml_file Y p s of
           Inl e \<Rightarrow> (s, Err e)
         | Inr doc \<Rightarrow> (case remove_yaml_key doc key of
             None \<Rightarrow> (s, Err (DcKeyNotFound t key))
           | Some doc' \<Rightarrow> store_commit Y G io now t p doc' msg Deleted s))))"

section \<open>Refreshing\<close>

definition changed_tables :: "string list \<Rightarrow> (string \<rightharpoonup> nat) \<Rightarrow> (string \<rightharpoonup> nat) \<Rightarrow> (string \<times> change_operation) list" where
  "changed_tables keys old new = map (\<lambda>t. (t, Refreshed)) (filter (\<lambda>t. case old t of Some ts \<Rightarrow> new t \<noteq> Some ts | None \<Rightarrow> True) keys)"

definition removed_tables :: "string list \<Rightarrow> (string \<rightharpoonup> nat) \<Rightarrow> (string \<times> change_operation) list" where
  "removed_tables keys new = map (\<lambda>t. (t, Deleted)) (filter (\<lambda>t. new t = None) keys)"

definition store_refresh_tick :: "yaml_lib \<Rightarrow> (unit, string) result \<Rightarrow> string list \<Rightarrow> string list \<Rightarrow> dir_store \<Rightarrow> dir_store" where
  "store_refresh_tick Y io new_keys old_keys s = (case load_all_tables Y io s of
     (s1, Inl e) \<Rightarrow> s1
   | (s1, Inr _) \<Rightarrow>
       s1\<lparr>ds_events := ds_events s1 @ changed_tables new_keys (ds_timestamps s) (ds_timestamps s1)
          @ removed_tables old_keys (ds_timestamps s1)\<rparr>)"

section \<open>Names stay inside the directory\<close>

fun norm_path :: "string list \<Rightarrow> string list \<Rightarrow> string list" where
  "norm_path acc [] = acc"
| "norm_path acc (c # cs) = (if c = '''' \<or> c = ''.'' then norm_path acc cs
     else if c = ''..'' then norm_path (butlast acc) cs else norm_path (acc @ [c]) cs)"

definition plain :: "string \<Rightarrow> bool" where
  "plain c \<longleftrightarrow> c \<notin> {'''', ''.'', ''..''}"

lemma split_char_nonempty [simp]: "split_char d s \<noteq> []"
  by (induction s) (auto split: list.splits)

lemma split_char_append: "d \<notin> set e \<Longrightarrow> split_char d (s @ e) = butlast (split_char d s) @ [last (split_char d s) @ e]"
proof (induction s)
  case Nil
  then show ?case by (induction e) auto
next
  case (Cons c s)
  then show ?case by (cases "split_char d s") (auto split: list.splits)
qed

lemma check_segments_ok: "check_segments ss = Inr u \<longleftrightarrow> list_all plain ss"
  by (induction ss) (auto simp: plain_def)

lemma norm_plain: "list_all plain cs \<Longrightarrow> norm_path acc cs = acc @ cs"
  by (induction cs arbitrary: acc) (auto simp: plain_def)

lemma plain_ext: "plain c \<Longrightarrow> length e \<ge> 3 \<Longrightarrow> plain (c @ e)"
  by (auto simp: plain_def append_eq_Cons_conv)

lemma plain_last_ext:
  assumes "list_all plain ss" "ss \<noteq> []" "length e \<ge> 3"
  shows "list_all plain (butlast ss @ [last ss @ e])"
  using assms plain_ext[of "last ss" e] by (auto simp: list_all_iff dest: in_set_butlastD)

lemma table_path_ext: "table_path t s = normalize_table_name t @ ''.yaml'' \<or> table_path t s = normalize_table_name t @ ''.yml''"
  by (simp add: table_path_def Let_def)

text \<open>A table name that passes validation cannot leave the directory: the file it is read from or written to, after
  \<open>..\<close>, \<open>.\<close> and empty components are resolved, lies strictly below the directory, and its path has no
  backslash. (Names with slashes reach subdirectories, leading and trailing slashes are ignored.)\<close>

theorem table_path_inside:
  assumes "validate_table_name t = Ok ()"
  shows "\<exists>segs. segs \<noteq> [] \<and> list_all plain segs \<and> norm_path D (split_char SLASH (table_path t s)) = D @ segs \<and> BSLASH \<notin> set (table_path t s)"
proof -
  let ?n = "normalize_table_name t"
  have ok: "list_all plain (split_char SLASH ?n)" "BSLASH \<notin> set t"
    using assms by (auto simp: validate_table_name_def normalize_table_name_def Let_def check_segments_ok split: if_splits)
  have sub: "set ?n \<subseteq> set t"
    by (auto simp: normalize_table_name_def trim_matches_def dest!: set_dropWhileD)
  obtain e where e: "table_path t s = ?n @ e" "e = ''.yaml'' \<or> e = ''.yml''" using table_path_ext[of t s] by blast
  from e(2) have e': "SLASH \<notin> set e" "BSLASH \<notin> set e" "3 \<le> length e" by (auto simp: SLASH_def BSLASH_def)
  let ?segs = "butlast (split_char SLASH ?n) @ [last (split_char SLASH ?n) @ e]"
  have "split_char SLASH (table_path t s) = ?segs" using e(1) split_char_append[OF e'(1)] by simp
  moreover have "list_all plain ?segs" using plain_last_ext[OF ok(1) _ e'(3)] by simp
  moreover have "BSLASH \<notin> set (table_path t s)" using e(1) e'(2) ok(2) sub by auto
  ultimately show ?thesis using norm_plain by (intro exI[of _ ?segs]) simp
qed


section \<open>Keys\<close>

fun settable :: "yaml \<Rightarrow> string list \<Rightarrow> bool" where
  "settable doc [] \<longleftrightarrow> False"
| "settable doc [k] \<longleftrightarrow> (case doc of YMap _ \<Rightarrow> True | _ \<Rightarrow> False)"
| "settable doc (k # k' # ks) \<longleftrightarrow> (case doc of
     YMap m \<Rightarrow> (case map_of m (YString k) of Some c \<Rightarrow> settable c (k' # ks) | None \<Rightarrow> True)
   | _ \<Rightarrow> True)"

definition apart :: "string list \<Rightarrow> string list \<Rightarrow> bool" where
  "apart p q \<longleftrightarrow> \<not> prefix p q \<and> \<not> prefix q p"

lemma map_of_ymap_insert [simp]: "map_of (ymap_insert k v m) j = (if j = k then Some v else map_of m j)"
  by (induction k v m rule: ymap_insert.induct) auto

lemma ymap_insert_same: "map_of m k = Some v \<Longrightarrow> ymap_insert k v m = m"
  by (induction k v m rule: ymap_insert.induct) (auto split: if_splits)

lemma settable_empty: "settable (YMap []) (k # ks)"
  by (cases ks) auto

lemma navigate_set: "settable doc ks \<Longrightarrow> navigate (set_at v ks doc) ks = Some v"
proof (induction v ks doc rule: set_at.induct)
  case (3 v k k' ks doc)
  then show ?case by (auto simp: Let_def settable_empty split: yaml.splits option.splits)
qed (auto split: yaml.splits)

lemma set_ignored: "\<not> settable doc ks \<Longrightarrow> set_at v ks doc = doc"
proof (induction v ks doc rule: set_at.induct)
  case (3 v k k' ks doc)
  then show ?case by (auto simp: Let_def ymap_insert_same split: yaml.splits option.splits)
qed (auto split: yaml.splits)

lemma navigate_nonmap: "navigate v (k # ks) = (case v of YMap m \<Rightarrow> (case map_of m (YString k) of None \<Rightarrow> None | Some c \<Rightarrow> navigate c ks) | _ \<Rightarrow> None)"
  by (cases v) auto

lemma navigate_set_apart: "apart ks q \<Longrightarrow> navigate (set_at v ks doc) q = navigate doc q"
proof (induction v ks doc arbitrary: q rule: set_at.induct)
  case (2 v k doc)
  then obtain j js where "q = j # js" "j \<noteq> k" by (cases q) (auto simp: apart_def)
  then show ?case by (cases doc) auto
next
  case (3 v k k' ks doc)
  then obtain j js where q: "q = j # js" by (cases q) (auto simp: apart_def)
  let ?m = "case doc of YMap m \<Rightarrow> m | _ \<Rightarrow> []"
  let ?child = "case map_of ?m (YString k) of Some c \<Rightarrow> c | None \<Rightarrow> YMap []"
  have old: "navigate doc q = (case map_of ?m (YString j) of None \<Rightarrow> None | Some c \<Rightarrow> navigate c js)"
    unfolding q by (cases doc) auto
  show ?case
  proof (cases "j = k")
    case True
    with 3(2) q have ap: "apart (k' # ks) js" by (simp add: apart_def)
    then obtain i ii where js: "js = i # ii" by (cases js) (auto simp: apart_def)
    from 3(1)[OF refl refl ap] old True js q show ?thesis
      by (auto simp: Let_def split: option.splits)
  qed (use old q in \<open>auto simp: Let_def\<close>)
qed (auto simp: apart_def)

fun ywf :: "yaml \<Rightarrow> bool" where
  "ywf (YMap m) \<longleftrightarrow> distinct (map fst m) \<and> (\<forall>(k, v)\<in>set m. ywf v)"
| "ywf (YSeq xs) \<longleftrightarrow> (\<forall>x\<in>set xs. ywf x)"
| "ywf _ \<longleftrightarrow> True"

lemma ymap_insert_keys: "set (map fst (ymap_insert k v m)) = insert k (set (map fst m))"
  by (induction k v m rule: ymap_insert.induct) auto

lemma ymap_insert_distinct: "distinct (map fst m) \<Longrightarrow> distinct (map fst (ymap_insert k v m))"
  by (induction k v m rule: ymap_insert.induct) (use ymap_insert_keys in auto)

lemma ymap_insert_values: "(j, x) \<in> set (ymap_insert k v m) \<Longrightarrow> x = v \<or> (j, x) \<in> set m"
  by (induction k v m rule: ymap_insert.induct) (auto split: if_splits)

lemma ywf_insert: "ywf (YMap m) \<Longrightarrow> ywf v \<Longrightarrow> ywf (YMap (ymap_insert k v m))"
  by (auto simp: ymap_insert_distinct dest!: ymap_insert_values)

lemma ywf_child: "ywf (YMap m) \<Longrightarrow> map_of m k = Some c \<Longrightarrow> ywf c"
  by (auto dest!: map_of_SomeD)

lemma set_at_ywf: "ywf doc \<Longrightarrow> ywf v \<Longrightarrow> ywf (set_at v ks doc)"
proof (induction v ks doc rule: set_at.induct)
  case (2 v k doc)
  then show ?case by (cases doc) (simp_all add: ywf_insert del: ywf.simps(1))
next
  case (3 v k k' ks doc)
  let ?m = "case doc of YMap m \<Rightarrow> m | _ \<Rightarrow> []"
  have m: "ywf (YMap ?m)" using 3(2) by (cases doc) auto
  have "ywf (case map_of ?m (YString k) of Some c \<Rightarrow> c | None \<Rightarrow> YMap [])" using ywf_child[OF m] by (auto split: option.splits)
  from 3(1)[OF refl refl this 3(3)] m show ?case by (simp add: Let_def ywf_insert del: ywf.simps(1))
qed auto

lemma mset_rotate: "xs \<noteq> [] \<Longrightarrow> mset (last xs # butlast xs) = mset xs"
  by (cases xs rule: rev_cases) auto

lemma split_first:
  assumes "map_of m k = Some v"
  obtains a b where "m = a @ (k, v) # b" "takeWhile (\<lambda>e. fst e \<noteq> k) m = a" "dropWhile (\<lambda>e. fst e \<noteq> k) m = (k, v) # b"
proof -
  have d: "dropWhile (\<lambda>e. fst e \<noteq> k) m \<noteq> [] \<and> hd (dropWhile (\<lambda>e. fst e \<noteq> k) m) = (k, v)"
    using assms by (induction m) (auto split: if_splits)
  obtain b where b: "dropWhile (\<lambda>e. fst e \<noteq> k) m = (k, v) # b"
    using d by (cases "dropWhile (\<lambda>e. fst e \<noteq> k) m") simp_all
  have "m = takeWhile (\<lambda>e. fst e \<noteq> k) m @ (k, v) # b" unfolding b[symmetric] takeWhile_dropWhile_id by (rule refl)
  with b that show ?thesis by blast
qed

lemma swap_remove_mset:
  assumes "map_of m k = Some v"
  shows "mset m = mset (swap_remove k m) + {#(k, v)#}"
proof -
  obtain a b where ab: "m = a @ (k, v) # b" "takeWhile (\<lambda>e. fst e \<noteq> k) m = a" "dropWhile (\<lambda>e. fst e \<noteq> k) m = (k, v) # b"
    using split_first[OF assms] .
  have "mset (swap_remove k m) = mset a + mset b"
    unfolding swap_remove_def ab(2,3) Let_def using mset_rotate[of b] by auto
  then show ?thesis unfolding ab(1) by simp
qed

lemma swap_remove_map:
  assumes "distinct (map fst m)" "map_of m k = Some v"
  shows "map_of (swap_remove k m) = (map_of m)(k := None) \<and> distinct (map fst (swap_remove k m)) \<and> set (swap_remove k m) \<subseteq> set m"
proof -
  note ms = swap_remove_mset[OF assms(2)]
  have "mset (map fst m) = mset (map fst (swap_remove k m)) + {#k#}" using arg_cong[OF ms, of "image_mset fst"] by simp
  then have "mset (k # map fst (swap_remove k m)) = mset (map fst m)" by simp
  from mset_eq_imp_distinct_iff[OF this] have dist: "distinct (k # map fst (swap_remove k m))" using assms(1) by simp
  have "mset ((k, v) # swap_remove k m) = mset m" using ms by simp
  from mset_eq_setD[OF this] have "set ((k, v) # swap_remove k m) = set m" .
  moreover have "distinct (map fst ((k, v) # swap_remove k m))" using dist by simp
  ultimately have "map_of ((k, v) # swap_remove k m) = map_of m" using map_of_inject_set assms(1) by blast
  from this[symmetric] have "(map_of m)(k := None) = (map_of (swap_remove k m))(k := None)" by simp
  moreover have "map_of (swap_remove k m) k = None" using dist by (simp add: map_of_eq_None_iff)
  ultimately have "map_of (swap_remove k m) = (map_of m)(k := None)" by (simp add: fun_upd_idem)
  moreover have "set (swap_remove k m) \<subseteq> set m" using ms by (metis mset_subset_eq_add_left set_mset_mono set_mset_mset)
  ultimately show ?thesis using dist by auto
qed


lemma navigate_remove:
  assumes "ywf doc" "remove_at ks doc = Some doc'"
  shows "navigate doc' ks = None \<and> navigate doc ks \<noteq> None \<and> ywf doc'"
  using assms
proof (induction ks doc arbitrary: doc' rule: remove_at.induct)
  case (2 k doc)
  then obtain m v where m: "doc = YMap m" "map_of m (YString k) = Some v" "doc' = YMap (swap_remove (YString k) m)"
    by (auto split: yaml.splits option.splits)
  with 2(1) swap_remove_map[OF _ m(2)] show ?case by auto
next
  case (3 k k' ks doc)
  then obtain m c c' where m: "doc = YMap m" "map_of m (YString k) = Some c" "remove_at (k' # ks) c = Some c'"
      "doc' = YMap (ymap_insert (YString k) c' m)"
    by (auto split: yaml.splits option.splits)
  from 3(1)[OF m(1,2) _ m(3)] ywf_child[OF 3(2)[unfolded m(1)] m(2)] have "navigate c' (k' # ks) = None" "navigate c (k' # ks) \<noteq> None" "ywf c'" by auto
  with m 3(2) ywf_insert[of m c'] show ?case by (simp del: ywf.simps)
qed auto

lemma navigate_remove_apart:
  assumes "ywf doc" "remove_at ks doc = Some doc'" "apart ks q"
  shows "navigate doc' q = navigate doc q"
  using assms
proof (induction ks doc arbitrary: doc' q rule: remove_at.induct)
  case (2 k doc)
  then obtain m v where m: "doc = YMap m" "map_of m (YString k) = Some v" "doc' = YMap (swap_remove (YString k) m)"
    by (auto split: yaml.splits option.splits)
  from 2(3) obtain j js where "q = j # js" "j \<noteq> k" by (cases q) (auto simp: apart_def)
  with m 2(1) swap_remove_map[OF _ m(2)] show ?case by auto
next
  case (3 k k' ks doc)
  then obtain m c c' where m: "doc = YMap m" "map_of m (YString k) = Some c" "remove_at (k' # ks) c = Some c'"
      "doc' = YMap (ymap_insert (YString k) c' m)"
    by (auto split: yaml.splits option.splits)
  from 3(4) obtain j js where q: "q = j # js" by (cases q) (auto simp: apart_def)
  have "navigate c' js = navigate c js" if "j = k"
    using 3(1)[OF m(1,2) ywf_child[OF 3(2)[unfolded m(1)] m(2)] m(3)] 3(4) q that by (simp add: apart_def)
  with m q show ?case by auto
qed auto

section \<open>The store\<close>

definition yaml_spec :: "yaml_lib \<Rightarrow> bool" where
  "yaml_spec Y \<longleftrightarrow> (\<forall>d txt. y_print Y d = Ok txt \<longrightarrow> y_parse Y txt = Ok d)"

definition current_doc :: "yaml_lib \<Rightarrow> string \<Rightarrow> dir_store \<Rightarrow> yaml" where
  "current_doc Y t s = (case load_yaml_file Y (table_path t s) s of Inr d \<Rightarrow> d | Inl _ \<Rightarrow> YMap [])"

lemma map_of_put_file [simp]: "map_of (put_file p f d) q = (if q = p then Some f else map_of d q)"
  by (induction p f d rule: put_file.induct) auto

lemma put_file_keys: "set (map fst (put_file p f d)) = insert p (set (map fst d))"
  by (induction p f d rule: put_file.induct) auto

lemma put_file_distinct: "distinct (map fst d) \<Longrightarrow> distinct (map fst (put_file p f d))"
  by (induction p f d rule: put_file.induct) (use put_file_keys in auto)

lemma store_commit_ok:
  assumes "store_commit Y G io now t p doc msg op s = (s', Inr r)"
  shows "\<exists>txt. y_print Y doc = Ok txt \<and> ds_disk s' = put_file p \<lparr>df_text = Some txt, df_modified = now\<rparr> (ds_disk s)
    \<and> ds_cache s' = (ds_cache s)(t \<mapsto> doc) \<and> ds_timestamps s' = ds_timestamps s \<and> ds_events s' = ds_events s @ [(t, op)]
    \<and> ds_write_mode s' = ds_write_mode s \<and> wr_table r = t \<and> wr_operation r = op"
  using assms by (auto simp: store_commit_def write_yaml_locked_def Let_def split: sum.splits dw_outcome.splits prod.splits)

lemma store_set_ok:
  assumes "store_set Y G mkdir io now table key v msg s = (s', Inr r)"
  defines "t \<equiv> normalize_table_name table"
  shows "validate_table_name table = Ok () \<and> ds_write_mode s \<noteq> ReadOnly
     \<and> store_commit Y G io now t (table_path t s) (set_yaml_key (current_doc Y t s) key v) msg Updated s = (s', Inr r)"
proof -
  obtain t' p doc where l: "set_load Y mkdir table key v s = Inr (t', p, doc)" and c: "store_commit Y G io now t' p doc msg Updated s = (s', Inr r)"
    using assms(1) by (auto simp: store_set_def split: sum.splits)
  have "t' = t" "p = table_path t s" "doc = set_yaml_key (current_doc Y t s) key v" "validate_table_name table = Ok ()" "ds_write_mode s \<noteq> ReadOnly"
    using l by (auto simp: set_load_def t_def Let_def current_doc_def check_writable_def file_exists_def load_yaml_file_def
        split: sum.splits if_splits option.splits)
  with c show ?thesis by simp
qed

lemma normalize_idem: "normalize_table_name (normalize_table_name t) = normalize_table_name t"
proof -
  have drop2: "dropWhile P (dropWhile P x) = dropWhile P x" for P and x :: string by (induction x) auto
  have keep: "dropWhile P (rev (dropWhile P (rev x))) = rev (dropWhile P (rev x))" if "x = [] \<or> \<not> P (hd x)" for P and x :: string
  proof (cases x)
    case (Cons a y)
    with that have "dropWhile P (rev y @ [a]) \<noteq> [] \<and> last (dropWhile P (rev y @ [a])) = a" by (induction "rev y" arbitrary: y) (auto simp: dropWhile_append)
    with that Cons show ?thesis by (cases "rev (dropWhile P (rev x))") (auto simp: hd_rev simp flip: hd_rev)
  qed simp
  let ?P = "\<lambda>c. c = SLASH"
  let ?y = "rev (dropWhile ?P (rev (dropWhile ?P t)))"
  have "dropWhile ?P t = [] \<or> \<not> ?P (hd (dropWhile ?P t))" using hd_dropWhile[of ?P t] by blast
  then have y: "dropWhile ?P ?y = ?y" by (rule keep[of "dropWhile ?P t" ?P])
  have "dropWhile ?P (rev ?y) = rev ?y" unfolding rev_rev_ident by (rule drop2)
  then show ?thesis unfolding normalize_table_name_def trim_matches_def y by simp
qed


lemma load_file_other:
  assumes "table_of p \<noteq> Some t"
  shows "fst (load_file Y c ts (p, f) st) t = fst st t" "snd (load_file Y c ts (p, f) st) t = snd st t"
  using assms by (cases st; auto split: option.splits list.splits sum.splits)+

lemma load_tables_absent:
  assumes "\<forall>x\<in>set disk. table_of (fst x) \<noteq> Some t"
  shows "fst (fold (load_file Y c ts) disk st) t = fst st t \<and> snd (fold (load_file Y c ts) disk st) t = snd st t"
  using assms
proof (induction disk arbitrary: st)
  case (Cons x disk)
  obtain p f where x: "x = (p, f)" by fastforce
  with Cons load_file_other[of p t Y c ts f st] show ?case by simp
qed simp

definition loaded :: "yaml_lib \<Rightarrow> (string \<rightharpoonup> yaml) \<Rightarrow> string \<Rightarrow> dfile \<Rightarrow> yaml option" where
  "loaded Y c t f = (case df_text f of None \<Rightarrow> None | Some txt \<Rightarrow> (case y_parse Y txt of Inr v \<Rightarrow> Some v | Inl _ \<Rightarrow> c t))"

definition stamped :: "yaml_lib \<Rightarrow> (string \<rightharpoonup> nat) \<Rightarrow> string \<Rightarrow> dfile \<Rightarrow> nat option" where
  "stamped Y ts t f = (case df_text f of None \<Rightarrow> None | Some txt \<Rightarrow> (case y_parse Y txt of Inr v \<Rightarrow> Some (df_modified f) | Inl _ \<Rightarrow> ts t))"

lemma load_tables_one:
  assumes "(p, f) \<in> set disk" "table_of p = Some t" "t \<noteq> []" "distinct (map fst disk)" "\<forall>x\<in>set disk. table_of (fst x) = Some t \<longrightarrow> fst x = p"
  shows "fst (load_tables Y c ts disk) t = loaded Y c t f \<and> snd (load_tables Y c ts disk) t = stamped Y ts t f"
proof -
  obtain a b where ab: "disk = a @ (p, f) # b" using assms(1) split_list by metis
  have other: "\<forall>x\<in>set a. table_of (fst x) \<noteq> Some t" "\<forall>x\<in>set b. table_of (fst x) \<noteq> Some t"
    using assms(4,5) ab by (auto simp: image_iff)
  let ?st = "fold (load_file Y c ts) a (Map.empty, Map.empty)"
  have st: "fst ?st t = None" "snd ?st t = None" using load_tables_absent[OF other(1), of Y c ts "(Map.empty, Map.empty)"] by simp_all
  obtain nc nt where s: "?st = (nc, nt)" by fastforce
  have "fst (load_file Y c ts (p, f) ?st) t = loaded Y c t f \<and> snd (load_file Y c ts (p, f) ?st) t = stamped Y ts t f"
    using st assms(2,3) unfolding s by (cases t) (auto simp: loaded_def stamped_def split: option.splits sum.splits)
  with load_tables_absent[OF other(2), of Y c ts "load_file Y c ts (p, f) ?st"] show ?thesis by (simp add: load_tables_def ab)
qed

lemma refresh_ok:
  "store_refresh_tick Y (Inr u) kn ko s = s\<lparr>ds_cache := fst (load_tables Y (ds_cache s) (ds_timestamps s) (ds_disk s)),
     ds_timestamps := snd (load_tables Y (ds_cache s) (ds_timestamps s) (ds_disk s)),
     ds_events := ds_events s @ changed_tables kn (ds_timestamps s) (snd (load_tables Y (ds_cache s) (ds_timestamps s) (ds_disk s)))
       @ removed_tables ko (snd (load_tables Y (ds_cache s) (ds_timestamps s) (ds_disk s)))\<rparr>"
  by (cases "load_tables Y (ds_cache s) (ds_timestamps s) (ds_disk s)") (simp add: store_refresh_tick_def load_all_tables_def)

definition only_file :: "string \<Rightarrow> string \<Rightarrow> dir_store \<Rightarrow> bool" where
  "only_file p t s \<longleftrightarrow> distinct (map fst (ds_disk s)) \<and> table_of p = Some t \<and> (\<forall>x\<in>set (ds_disk s). table_of (fst x) = Some t \<longrightarrow> fst x = p)"

lemma get_key_cached:
  "validate_table_name table = Ok () \<Longrightarrow> ds_cache s (normalize_table_name table) = Some d \<Longrightarrow> navigate_yaml d key = Some v \<Longrightarrow> get_key table key s = Ok v"
  by (simp add: get_key_def store_get_def)

text \<open>C40. What was set is what is read, now and after the files are read again. When \<open>set\<close> reports success for a key that
  the document can hold, \<open>get_key\<close> returns the value, every key apart from it (neither above nor below) reads in the
  new document as in the old one, no other table changes, and one \<open>Updated\<close> event is sent. If the file written is one that the
  loader sees (it is not hidden: its name stands for the table) and no other file of the directory stands for the same table,
  the value is still there after a refresh from disk.\<close>

theorem set_roundtrip:
  assumes "yaml_spec Y" and "store_set Y G mkdir io now table key v msg s = (s', Inr r)"
    and "settable (current_doc Y (normalize_table_name table) s) (split_char DOT key)"
  shows "get_key table key s' = Ok v
    \<and> (\<exists>d. ds_cache s' (normalize_table_name table) = Some d \<and> (\<forall>q. apart (split_char DOT key) q \<longrightarrow>
          navigate d q = navigate (current_doc Y (normalize_table_name table) s) q))
    \<and> (\<forall>t. t \<noteq> normalize_table_name table \<longrightarrow> ds_cache s' t = ds_cache s t)
    \<and> ds_events s' = ds_events s @ [(normalize_table_name table, Updated)]
    \<and> (only_file (table_path (normalize_table_name table) s) (normalize_table_name table) s \<longrightarrow>
         get_key table key (store_refresh_tick Y (Ok ()) kn ko s') = Ok v)"
proof -
  let ?t = "normalize_table_name table" and ?ks = "split_char DOT key"
  let ?p = "table_path ?t s" and ?d = "current_doc Y ?t s"
  let ?d' = "set_at v ?ks ?d"
  note set = store_set_ok[OF assms(2)]
  then have val: "validate_table_name table = Ok ()" by blast
  obtain out where c: "y_print Y ?d' = Ok out" "ds_disk s' = put_file ?p \<lparr>df_text = Some out, df_modified = now\<rparr> (ds_disk s)"
    "ds_cache s' = (ds_cache s)(?t \<mapsto> ?d')" "ds_events s' = ds_events s @ [(?t, Updated)]"
    using set store_commit_ok by (fastforce simp: set_yaml_key_def)
  have nav: "navigate_yaml ?d' key = Some v" using navigate_set[OF assms(3)] by (simp add: navigate_yaml_def)
  have "get_key table key s' = Ok v" using get_key_cached[OF val _ nav, of s'] c(3) by simp
  moreover have "get_key table key (store_refresh_tick Y (Ok ()) kn ko s') = Ok v" if one: "only_file ?p ?t s"
  proof -
    have disk: "distinct (map fst (ds_disk s'))" "(?p, \<lparr>df_text = Some out, df_modified = now\<rparr>) \<in> set (ds_disk s')"
      using one c(2) put_file_distinct[of "ds_disk s" ?p] map_of_SomeD[of "ds_disk s'" ?p] by (auto simp: only_file_def)
    have uniq: "\<forall>x\<in>set (ds_disk s'). table_of (fst x) = Some ?t \<longrightarrow> fst x = ?p"
      using one put_file_keys[of ?p _ "ds_disk s"] unfolding only_file_def c(2) by (fastforce simp: image_iff)
    have ne: "?t \<noteq> []" using val by (auto simp: validate_table_name_def normalize_table_name_def Let_def split: if_splits)
    have "loaded Y (ds_cache s') ?t \<lparr>df_text = Some out, df_modified = now\<rparr> = Some ?d'"
      using assms(1) c(1) by (simp add: loaded_def yaml_spec_def)
    with load_tables_one[OF disk(2) _ ne disk(1) uniq, of Y "ds_cache s'" "ds_timestamps s'"] one
    have "fst (load_tables Y (ds_cache s') (ds_timestamps s') (ds_disk s')) ?t = Some ?d'" by (simp add: only_file_def)
    then show ?thesis by (intro get_key_cached[OF val _ nav]) (simp add: refresh_ok)
  qed
  ultimately show ?thesis using c navigate_set_apart by simp
qed


text \<open>A refresh, on every branch. When the directory cannot be walked nothing changes. Otherwise a table with one readable
  file has the file's document, or its last good one when the file does not parse; a table without a file is gone; and
  the events are one \<open>Refreshed\<close> for every table whose recorded time is new or different and one \<open>Deleted\<close> for every
  table that lost its record.\<close>

theorem refresh_exact:
  assumes "s' = store_refresh_tick Y (Ok ()) kn ko s" and "set kn = dom (ds_timestamps s')" and "set ko = dom (ds_timestamps s)"
  shows "store_refresh_tick Y (Err e) kn ko s = s
    \<and> (\<forall>p f t. (p, f) \<in> set (ds_disk s) \<and> t \<noteq> [] \<and> only_file p t s \<longrightarrow> ds_cache s' t = loaded Y (ds_cache s) t f)
    \<and> (\<forall>t. (\<forall>x\<in>set (ds_disk s). table_of (fst x) \<noteq> Some t) \<longrightarrow> ds_cache s' t = None)
    \<and> (\<exists>evs. ds_events s' = ds_events s @ evs \<and> set evs =
          {(t, Refreshed) | t. t \<in> dom (ds_timestamps s') \<and> ds_timestamps s t \<noteq> ds_timestamps s' t}
          \<union> {(t, Deleted) | t. t \<in> dom (ds_timestamps s) - dom (ds_timestamps s')})"
proof -
  have "ds_cache s' t = loaded Y (ds_cache s) t f" if "(p, f) \<in> set (ds_disk s)" "t \<noteq> []" "only_file p t s" for p f t
    using load_tables_one[OF that(1) _ that(2)] that(3) assms(1) by (simp add: refresh_ok only_file_def)
  moreover have "ds_cache s' t = None" if "\<forall>x\<in>set (ds_disk s). table_of (fst x) \<noteq> Some t" for t
    using load_tables_absent[OF that] assms(1) by (simp add: refresh_ok load_tables_def)
  moreover have "ds_events s' = ds_events s @ changed_tables kn (ds_timestamps s) (ds_timestamps s') @ removed_tables ko (ds_timestamps s')"
    using assms(1) by (simp add: refresh_ok)
  moreover have "set (changed_tables kn (ds_timestamps s) (ds_timestamps s') @ removed_tables ko (ds_timestamps s')) =
      {(t, Refreshed) | t. t \<in> dom (ds_timestamps s') \<and> ds_timestamps s t \<noteq> ds_timestamps s' t}
      \<union> {(t, Deleted) | t. t \<in> dom (ds_timestamps s) - dom (ds_timestamps s')}"
    using assms(2,3) by (auto simp: changed_tables_def removed_tables_def dom_def split: option.splits)
  moreover have "store_refresh_tick Y (Err e) kn ko s = s" by (simp add: store_refresh_tick_def load_all_tables_def)
  ultimately show ?thesis by blast
qed

section \<open>Concrete runs\<close>

definition demo_yaml :: yaml_lib where
  "demo_yaml = (let docs = [(''0'', YMap []), (''1'', YMap [(YString ''a'', YNum ''1'')]), (''2'', YMap [(YString ''b'', YNum ''2'')]),
        (''12'', YMap [(YString ''a'', YNum ''1''), (YString ''b'', YNum ''2'')]), (''null'', YNull)]
     in \<lparr>y_parse = (\<lambda>s. case map_of docs s of Some d \<Rightarrow> Ok d | None \<Rightarrow> Err ''bad''),
         y_print = (\<lambda>d. case map_of (map (\<lambda>(a, b). (b, a)) docs) d of Some s \<Rightarrow> Ok s | None \<Rightarrow> Err ''bad'')\<rparr>)"

definition demo_git :: git_env where
  "demo_git = \<lparr>ge_commit = (\<lambda>_ _. Err ''none''), ge_push = None\<rparr>"

definition demo_store :: dir_store where
  "demo_store = \<lparr>ds_disk = [(''t.yaml'', \<lparr>df_text = Some ''1'', df_modified = 1\<rparr>), (''n.yaml'', \<lparr>df_text = Some ''null'', df_modified = 1\<rparr>)],
     ds_cache = Map.empty, ds_timestamps = Map.empty, ds_write_mode = DirectWrite, ds_running = False, ds_events = []\<rparr>"

lemma demo_yaml_spec: "yaml_spec demo_yaml"
  by (auto simp: yaml_spec_def demo_yaml_def Let_def split: option.splits if_splits)

definition demo_set :: "string \<Rightarrow> string \<Rightarrow> yaml \<Rightarrow> dir_store \<Rightarrow> dir_store \<times> (write_result, dc_error) result" where
  "demo_set t k v s = store_set demo_yaml demo_git (Ok ()) DwOk 2 t k v None s"

lemma set_below_scalar_ignored:
  "is_ok (snd (demo_set ''t'' ''a.x'' (YNum ''9'') demo_store))
     \<and> get_key ''t'' ''a.x'' (fst (demo_set ''t'' ''a.x'' (YNum ''9'') demo_store)) = Err (DcKeyNotFound ''t'' ''a.x'')"
  by code_simp

lemma set_in_empty_file_ignored:
  "is_ok (snd (demo_set ''n'' ''k'' (YNum ''9'') demo_store))
     \<and> get_key ''n'' ''k'' (fst (demo_set ''n'' ''k'' (YNum ''9'') demo_store)) = Err (DcKeyNotFound ''n'' ''k'')"
  by code_simp

lemma hidden_table_lost:
  "is_ok (snd (demo_set ''.h'' ''a'' (YNum ''1'') demo_store))
     \<and> get_key ''.h'' ''a'' (store_refresh_tick demo_yaml (Ok ()) [] [] (fst (demo_set ''.h'' ''a'' (YNum ''1'') demo_store))) = Err (TableNotFound ''.h'')"
  by code_simp

lemma concurrent_sets_lose_update:
  "\<exists>p d1 d2 s1 s2. set_load demo_yaml (Ok ()) ''u'' ''a'' (YNum ''1'') demo_store = Ok (''u'', p, d1)
     \<and> set_load demo_yaml (Ok ()) ''u'' ''b'' (YNum ''2'') demo_store = Ok (''u'', p, d2)
     \<and> is_ok (snd (store_commit demo_yaml demo_git DwOk 2 ''u'' p d1 None Updated demo_store))
     \<and> s1 = fst (store_commit demo_yaml demo_git DwOk 2 ''u'' p d1 None Updated demo_store)
     \<and> is_ok (snd (store_commit demo_yaml demo_git DwOk 3 ''u'' p d2 None Updated s1))
     \<and> s2 = fst (store_commit demo_yaml demo_git DwOk 3 ''u'' p d2 None Updated s1)
     \<and> get_key ''u'' ''a'' s2 = Err (DcKeyNotFound ''u'' ''a'')"
proof (intro exI conjI)
  show "set_load demo_yaml (Ok ()) ''u'' ''a'' (YNum ''1'') demo_store = Ok (''u'', ''u.yaml'', YMap [(YString ''a'', YNum ''1'')])" by code_simp
  show "set_load demo_yaml (Ok ()) ''u'' ''b'' (YNum ''2'') demo_store = Ok (''u'', ''u.yaml'', YMap [(YString ''b'', YNum ''2'')])" by code_simp
qed (rule refl | code_simp)+

theorem set_roundtrip_witness:
  "get_key ''t'' ''b'' (fst (demo_set ''t'' ''b'' (YNum ''2'') demo_store)) = Ok (YNum ''2'')"
proof -
  obtain s' r where s: "store_set demo_yaml demo_git (Ok ()) DwOk 2 ''t'' ''b'' (YNum ''2'') None demo_store = (s', Inr r)"
  proof -
    have "is_ok (snd (store_set demo_yaml demo_git (Ok ()) DwOk 2 ''t'' ''b'' (YNum ''2'') None demo_store))" by code_simp
    with that show thesis by (cases "store_set demo_yaml demo_git (Ok ()) DwOk 2 ''t'' ''b'' (YNum ''2'') None demo_store") (auto simp: is_ok_def split: sum.splits)
  qed
  have "settable (current_doc demo_yaml (normalize_table_name ''t'') demo_store) (split_char DOT ''b'')" by code_simp
  from set_roundtrip[OF demo_yaml_spec s this] s show ?thesis by (simp add: demo_set_def)
qed

theorem table_path_inside_witness:
  "\<exists>segs. segs \<noteq> [] \<and> list_all plain segs \<and> norm_path [''etc''] (split_char SLASH (table_path ''/a/b/'' demo_store)) = [''etc''] @ segs
     \<and> BSLASH \<notin> set (table_path ''/a/b/'' demo_store)"
  by (rule table_path_inside) code_simp

end
