(* ===== verification/Stream_Transports.thy ===== *)
theory Stream_Transports
  imports File_Transport
begin

text \<open>
  The Unix pipe transport (\<open>src/transport/pipe.rs\<close>) and the Redis Streams transport
  (\<open>src/transport/redis_transport.rs\<close>). The pipe reads lines that arrive in pieces: a call of \<open>recv\<close>
  consumes a list of arrivals, one per wait. The Redis server is a record of functions with three
  observers (the entries of a stream, how many a group was given, its pending entries);
  \<open>redis_spec\<close> states the documented behaviour of the commands, lost replies included.
\<close>

section \<open>Pipe\<close>

record pipe_config =
  pcfg_recv_timeout_ms :: u64
  pcfg_filters_in :: "filter_rule list"
  pcfg_filters_out :: "filter_rule list"

definition pipe_config_default :: pipe_config where
  "pipe_config_default = \<lparr>pcfg_recv_timeout_ms = 100, pcfg_filters_in = [], pcfg_filters_out = []\<rparr>"

datatype pipe_token = PipeToken u64

text \<open>\<open>pi_stdin\<close> is what has arrived and was not read, \<open>pi_stdout\<close> what was written.\<close>

record 'p pipe_transport =
  pi_stdin :: bytes
  pi_stdout :: bytes
  pi_sequence :: u64
  pi_closed :: bool
  pi_recv_timeout_ms :: u64
  pi_filters :: "'p filter_engine"

text \<open>Filters that do not compile are replaced by none.\<close>

definition pipe_new :: "('p, 'j, 'c) filter_lib \<Rightarrow> tier_config \<Rightarrow> pipe_config \<Rightarrow> 'p pipe_transport" where
  "pipe_new lib tiers c = \<lparr>pi_stdin = [], pi_stdout = [], pi_sequence = 0, pi_closed = False, pi_recv_timeout_ms = pcfg_recv_timeout_ms c,
     pi_filters = (case tfe_new lib (pcfg_filters_in c) (pcfg_filters_out c) tiers of
        Inl _ \<Rightarrow> \<lparr>filters_in = [], filters_out = []\<rparr> | Inr eng \<Rightarrow> eng)\<rparr>"

definition pipe_close :: "(unit, string) result \<Rightarrow> 'p pipe_transport \<Rightarrow> 'p pipe_transport \<times> (unit, transport_error) result" where
  "pipe_close io t = (t\<lparr>pi_closed := True\<rparr>, case io of Inl e \<Rightarrow> Err (TeInternal (''stdout flush failed: '' @ e)) | Inr _ \<Rightarrow> Ok ())"

definition pipe_is_healthy :: "'p pipe_transport \<Rightarrow> bool" where
  "pipe_is_healthy t \<longleftrightarrow> \<not> pi_closed t"

definition pipe_disp :: "('p, 'j, 'c) filter_lib \<Rightarrow> 'p pipe_transport \<Rightarrow> bytes \<Rightarrow> filter_disposition" where
  "pipe_disp lib t p = (if filters_out (pi_filters t) \<noteq> [] then apply_outbound lib (pi_filters t) p else DispPass)"

definition pipe_send :: "('p, 'j, 'c) filter_lib \<Rightarrow> write_outcome \<Rightarrow> bytes \<Rightarrow> 'p pipe_transport \<Rightarrow> 'p pipe_transport \<times> transport_error send_result" where
  "pipe_send lib w p t =
     (if pi_closed t then (t, SendFatal TeClosed)
      else case pipe_disp lib t p of
        DispDrop \<Rightarrow> (t, SendOk)
      | DispDlq \<Rightarrow> (t, FilteredDlq)
      | DispPass \<Rightarrow> (case w of
          WriteOk \<Rightarrow> (t\<lparr>pi_stdout := pi_stdout t @ p @ [NL]\<rparr>, SendOk)
        | PayloadFails n e \<Rightarrow> (t\<lparr>pi_stdout := pi_stdout t @ take n p\<rparr>, SendFatal (TeSend (''stdout write failed: '' @ e)))
        | NewlineFails e \<Rightarrow> (t\<lparr>pi_stdout := pi_stdout t @ p\<rparr>, SendFatal (TeSend (''stdout newline write failed: '' @ e)))
        | FlushFails e \<Rightarrow> (t\<lparr>pi_stdout := pi_stdout t @ p @ [NL]\<rparr>, SendFatal (TeSend (''stdout flush failed: '' @ e)))))"

text \<open>What arrives until the wait of a turn ends: bytes, and perhaps the end of the stream. A turn whose line is still
  incomplete then is cut off by its timeout, and what \<open>read_line\<close> had taken is lost; without a timeout it waits on.\<close>

datatype turn = TEof | TLine bytes | TCut | TMore

definition read_turn :: "u64 \<Rightarrow> bool \<Rightarrow> bytes \<Rightarrow> turn" where
  "read_turn timeout eof buf =
     (if NL \<in> set buf then TLine (read_line buf)
      else if eof then (if buf = [] then TEof else TLine buf)
      else if timeout = 0 then TMore else TCut)"

text \<open>The loop over what is left to read, the arrivals, the unread bytes, the sequence counter and the messages so far.
  The result \<open>None\<close> means the call is still waiting when the arrivals are used up.\<close>

fun pipe_loop :: "(bytes \<Rightarrow> bool) \<Rightarrow> int \<Rightarrow> u64 \<Rightarrow> nat \<Rightarrow> (bytes \<times> bool) list \<Rightarrow> bytes \<Rightarrow> u64 \<Rightarrow> pipe_token message list \<Rightarrow>
    (bytes \<times> u64) \<times> (pipe_token message list, transport_error) result option" where
  "pipe_loop valid now timeout 0 as buf n ms = ((buf, n), Some (Ok ms))"
| "pipe_loop valid now timeout (Suc k) [] buf n ms = ((buf, n), None)"
| "pipe_loop valid now timeout (Suc k) ((arrived, eof) # as) buf n ms =
     (let buf = buf @ arrived in case read_turn timeout eof buf of
        TMore \<Rightarrow> pipe_loop valid now timeout (Suc k) as buf n ms
      | TCut \<Rightarrow> (([], n), Some (Ok ms))
      | TEof \<Rightarrow> ((buf, n), Some (if ms = [] then Err TeClosed else Ok ms))
      | TLine chunk \<Rightarrow>
          (let rest = drop (length chunk) buf; line = line_of chunk in
           if \<not> valid chunk then ((rest, n), Some (Err (TeRecv ''stdin read failed: stream did not contain valid UTF-8'')))
           else if line = [] then pipe_loop valid now timeout k as rest n ms
           else pipe_loop valid now timeout k as rest (n + 1) (ms @ [message_new None line (PipeToken n) (Some now)])))"

definition pipe_recv :: "('p, 'j, 'c) filter_lib \<Rightarrow> (bytes \<Rightarrow> bool) \<Rightarrow> int \<Rightarrow> nat \<Rightarrow> (bytes \<times> bool) list \<Rightarrow> 'p pipe_transport \<Rightarrow>
    'p pipe_transport \<times> (pipe_token work_batch, transport_error) result option" where
  "pipe_recv lib valid now max_n as t =
     (if pi_closed t then (t, Some (Err TeClosed))
      else case pipe_loop valid now (pi_recv_timeout_ms t) max_n as (pi_stdin t) (pi_sequence t) [] of
        ((buf, n), r) \<Rightarrow> (t\<lparr>pi_stdin := buf, pi_sequence := n\<rparr>,
          case r of None \<Rightarrow> None | Some (Inl e) \<Rightarrow> Some (Err e) | Some (Inr ms) \<Rightarrow> Some (Ok (collapse lib (pi_filters t) ms))))"

definition pipe_commit :: "pipe_token list \<Rightarrow> 'p pipe_transport \<Rightarrow> 'p pipe_transport \<times> (unit, transport_error) result" where
  "pipe_commit ts t = (t, Ok ())"


text \<open>In blocking mode lines survive any splitting of the stream: with \<open>m\<close> further turns after the last arrival, at least one per
  line, the call returns every line.\<close>

fun pipe_msgs :: "int \<Rightarrow> u64 \<Rightarrow> bytes list \<Rightarrow> pipe_token message list" where
  "pipe_msgs now n [] = []"
| "pipe_msgs now n (p # ps) = message_new None p (PipeToken n) (Some now) # pipe_msgs now (n + 1) ps"

lemma read_line_prefix:
  assumes "xs @ ys = concat (map nl_line ps)" and "NL \<in> set xs" and "\<forall>p\<in>set ps. line_safe valid p"
  shows "\<exists>p qs. ps = p # qs \<and> read_line xs = nl_line p \<and> drop (length (nl_line p)) xs @ ys = concat (map nl_line qs)"
proof (cases ps)
  case (Cons p qs)
  have p: "NL \<notin> set p" using assms(3) Cons by (simp add: line_safe_def)
  have e: "xs @ ys = nl_line p @ concat (map nl_line qs)" using assms(1) Cons by simp
  have "length (nl_line p) \<le> length xs"
  proof (rule ccontr)
    assume "\<not> length (nl_line p) \<le> length xs"
    then have "xs = take (length xs) p" using arg_cong[OF e, of "take (length xs)"] by (simp add: nl_line_def)
    then have "set xs \<subseteq> set p" by (metis set_take_subset)
    with p assms(2) show False by blast
  qed
  then obtain zs where z: "xs = nl_line p @ zs" using e by (metis append_eq_append_conv_if append_take_drop_id)
  then have "read_line xs = nl_line p" using read_line_safe[OF p] by simp
  with z e Cons show ?thesis by simp
qed (use assms in auto)

lemma pipe_loop_lines:
  assumes "buf @ concat (map fst as) = concat (map nl_line ps)" and "\<forall>p\<in>set ps. line_safe valid p" and "list_all (Not \<circ> snd) as"
    and "length ps \<le> m" and "k = length ps"
  shows "pipe_loop valid now 0 k (as @ replicate m ([], False)) buf n ms = (([], n + of_nat (length ps)), Some (Ok (ms @ pipe_msgs now n ps)))"
  using assms
proof (induction "as @ replicate m ([], False)" arbitrary: as m ps k buf n ms)
  case Nil
  then show ?case by (cases ps) (simp_all add: nl_line_def)
next
  case (Cons a rest)
  show ?case
  proof (cases ps)
    case Nil
    with Cons.prems show ?thesis by (cases as) auto
  next
    case (Cons p0 qs0)
    obtain arr as' m' where a: "a = (arr, False)" "rest = as' @ replicate m' ([], False)" "arr @ concat (map fst as') = concat (map fst as)"
        "list_all (Not \<circ> snd) as'" "m' = m \<and> as \<noteq> [] \<or> m = Suc m' \<and> as = [] \<and> arr = []"
    proof (cases as)
      case Nil
      with Cons.hyps(2) have "m = Suc (m - 1)" "a = ([], False)" "rest = replicate (m - 1) ([], False)" by (cases m; simp)+
      then show ?thesis using that[of "[]" "[]" "m - 1"] Nil by simp
    next
      case (Cons a' as')
      with Cons.hyps(2) Cons.prems(3) have "a = (fst a, False)" "rest = as' @ replicate m ([], False)" "list_all (Not \<circ> snd) as'" "as = a # as'"
        by (cases a', auto)+
      then show ?thesis using that[of "fst a" as' m] by simp
    qed
    have e: "(buf @ arr) @ concat (map fst as') = concat (map nl_line ps)" using Cons.prems(1) a(3) by simp
    have step: "as @ replicate m ([], False) = (arr, False) # as' @ replicate m' ([], False)" using Cons.hyps(2) a(1,2) by simp
    obtain k' where k: "k = Suc k'" using Cons.prems(5) Cons by simp
    show ?thesis
    proof (cases "NL \<in> set (buf @ arr)")
      case True
      from read_line_prefix[OF e True Cons.prems(2)] obtain p qs where p: "ps = p # qs" "read_line (buf @ arr) = nl_line p"
        "drop (length (nl_line p)) (buf @ arr) @ concat (map fst as') = concat (map nl_line qs)" by blast
      have s: "line_safe valid p" "\<forall>p\<in>set qs. line_safe valid p" "p \<noteq> []" "valid (nl_line p)" using Cons.prems(2) p(1) by (simp_all add: line_safe_def)
      have "length qs \<le> m'" using a(5) Cons.prems(4) p(1) by auto
      note ih = Cons.hyps(1)[OF a(2) p(3) s(2) a(4) this, of k' "n + 1" "ms @ [message_new None p (PipeToken n) (Some now)]"]
      have "k' = length qs" using k Cons.prems(5) p(1) by simp
      with ih show ?thesis unfolding step k a(2)[symmetric] using p True s line_of_safe[OF s(1)]
        by (simp add: read_turn_def Let_def add.assoc)
    next
      case False
      have "as \<noteq> []"
      proof
        assume "as = []"
        with Cons.prems(1) Cons have "buf = p0 @ NL # concat (map nl_line qs0)" by (simp add: nl_line_def)
        with False show False by simp
      qed
      with a(5) have "m' = m" "as \<noteq> []" by auto
      have "pipe_loop valid now 0 k (as @ replicate m ([], False)) buf n ms = pipe_loop valid now 0 k rest (buf @ arr) n ms"
        unfolding step k a(2)[symmetric] using False by (simp add: read_turn_def Let_def)
      with Cons.hyps(1)[OF a(2) e Cons.prems(2) a(4), of k n ms] Cons.prems(4,5) \<open>m' = m\<close> a(2) show ?thesis by simp
    qed
  qed
qed


text \<open>What is sent down one pipe in blocking mode is received at its other end, however the stream is cut into pieces:
  payloads that are lines, in order, with consecutive tokens.\<close>

theorem pipe_roundtrip:
  assumes "pi_stdout (foldl (\<lambda>t p. fst (pipe_send lib WriteOk p t)) t0 ps) = concat (map fst as)"
    and "pi_stdout t0 = []" and "\<not> pi_closed t0" and "filters_out (pi_filters t0) = []" and "\<forall>p\<in>set ps. line_safe valid p"
    and "list_all (Not \<circ> snd) as" and "length ps \<le> m" and "\<not> pi_closed t" and "pi_stdin t = []" and "pi_recv_timeout_ms t = 0"
  shows "snd (pipe_recv lib valid now (length ps) (as @ replicate m ([], False)) t) = Some (Ok (collapse lib (pi_filters t) (pipe_msgs now (pi_sequence t) ps)))"
proof -
  have "pi_stdout (foldl (\<lambda>t p. fst (pipe_send lib WriteOk p t)) u ps) = pi_stdout u @ concat (map nl_line ps)"
    if "\<not> pi_closed u" "filters_out (pi_filters u) = []" for u :: "'a pipe_transport"
    using that by (induction ps arbitrary: u) (simp_all add: pipe_send_def pipe_disp_def nl_line_def)
  from this[OF assms(3,4)] assms(1,2) have "pi_stdin t @ concat (map fst as) = concat (map nl_line ps)" using assms(9) by simp
  from pipe_loop_lines[OF this assms(5,6,7) refl, of now "pi_sequence t" "[]"] assms(8,10) show ?thesis by (simp add: pipe_recv_def)
qed

definition demo_pipe :: "u64 \<Rightarrow> nat pipe_transport" where
  "demo_pipe timeout = \<lparr>pi_stdin = [], pi_stdout = [], pi_sequence = 0, pi_closed = False, pi_recv_timeout_ms = timeout,
     pi_filters = \<lparr>filters_in = [], filters_out = []\<rparr>\<rparr>"

text \<open>With a timeout (the default is 100 ms) a line that arrives in two pieces is torn: its first piece is lost, its second
  piece is delivered as a message of its own.\<close>

lemma timeout_tears_line:
  "snd (pipe_recv toy_filter_lib (\<lambda>_. True) 0 5 [([0x61, 0x62], False)] (demo_pipe 100)) = Some (Ok (collapse toy_filter_lib (pi_filters (demo_pipe 100)) []))
   \<and> pi_stdin (fst (pipe_recv toy_filter_lib (\<lambda>_. True) 0 5 [([0x61, 0x62], False)] (demo_pipe 100))) = []
   \<and> map payload (records (case snd (pipe_recv toy_filter_lib (\<lambda>_. True) 0 5 [([0x63, NL], False), ([], False)]
        (fst (pipe_recv toy_filter_lib (\<lambda>_. True) 0 5 [([0x61, 0x62], False)] (demo_pipe 100)))) of Some (Inr b) \<Rightarrow> b | _ \<Rightarrow> wb_empty)) = [[0x63]]"
  by (intro conjI; code_simp)

text \<open>A line that is not UTF-8 fails the call, and the lines the call had read before it are lost.\<close>

lemma bad_line_loses_good_ones:
  "snd (pipe_recv toy_filter_lib (\<lambda>c. c \<noteq> [0xff, NL]) 0 5 [([0x61, NL, 0xff, NL], False), ([], False)] (demo_pipe 0))
     = Some (Err (TeRecv ''stdin read failed: stream did not contain valid UTF-8''))
   \<and> pi_stdin (fst (pipe_recv toy_filter_lib (\<lambda>c. c \<noteq> [0xff, NL]) 0 5 [([0x61, NL, 0xff, NL], False), ([], False)] (demo_pipe 0))) = []"
  by (intro conjI; code_simp)

text \<open>Filters that do not compile leave the pipe open to everything, inbound and outbound; the file transport refuses them.\<close>

lemma pipe_filters_fail_open:
  assumes "tfe_new lib (pcfg_filters_in c) (pcfg_filters_out c) tiers = Inl e"
  shows "pipe_disp lib (pipe_new lib tiers c) p = DispPass
     \<and> file_new lib tiers path app (pcfg_filters_in c) (pcfg_filters_out c) d pos \<noteq> Ok f"
  using assms by (cases e) (simp add: pipe_disp_def pipe_new_def file_new_def)


section \<open>Redis Streams\<close>

record redis_config =
  rc_url :: string
  rc_stream :: "string option"
  rc_group :: string
  rc_consumer :: string
  rc_max_stream_len :: "nat option"
  rc_block_ms :: nat
  rc_filters_in :: "filter_rule list"
  rc_filters_out :: "filter_rule list"

definition redis_config_default :: redis_config where
  "redis_config_default = \<lparr>rc_url = ''redis://127.0.0.1:6379'', rc_stream = None, rc_group = ''dfe'', rc_consumer = ''consumer-1'',
     rc_max_stream_len = None, rc_block_ms = 5000, rc_filters_in = [], rc_filters_out = []\<rparr>"

record redis_token =
  rk_stream :: string
  rk_entry_id :: string

text \<open>The commands the code uses. \<open>XADD\<close> has an optional \<open>MAXLEN\<close>; a reply of \<open>XREADGROUP\<close> lists entries per stream, each with its id
  and its \<open>payload\<close> field if it has one.\<close>

record 'r redis_lib =
  rl_xadd :: "string \<Rightarrow> nat option \<Rightarrow> bytes \<Rightarrow> 'r \<Rightarrow> 'r \<times> (string, string) result"
  rl_xgroup_create :: "string \<Rightarrow> string \<Rightarrow> 'r \<Rightarrow> 'r \<times> (unit, string) result"
  rl_xreadgroup :: "string \<Rightarrow> string \<Rightarrow> string \<Rightarrow> nat \<Rightarrow> 'r \<Rightarrow> 'r \<times> ((string \<times> bytes option) list list, string) result"
  rl_xack :: "string \<Rightarrow> string \<Rightarrow> string list \<Rightarrow> 'r \<Rightarrow> 'r \<times> (unit, string) result"

record ('r, 'p) redis_transport =
  rt_conn :: 'r
  rt_config :: redis_config
  rt_closed :: bool
  rt_group_created :: "string list"
  rt_filters :: "'p filter_engine"

datatype redis_new_error = RneTransport transport_error | RneFilter nat filter_error

definition redis_new :: "('p, 'j, 'c) filter_lib \<Rightarrow> tier_config \<Rightarrow> (unit, string) result \<Rightarrow> ('r, string) result \<Rightarrow> redis_config \<Rightarrow>
    (('r, 'p) redis_transport, redis_new_error) result" where
  "redis_new lib tiers url_ok conn c = (case url_ok of
     Inl e \<Rightarrow> Err (RneTransport (TeConfig (''invalid Redis URL '' @ rc_url c @ '': '' @ e)))
   | Inr _ \<Rightarrow> (case conn of
       Inl e \<Rightarrow> Err (RneTransport (TeConnection (''failed to connect to Redis at '' @ rc_url c @ '': '' @ e)))
     | Inr r \<Rightarrow> (case tfe_new lib (rc_filters_in c) (rc_filters_out c) tiers of
         Inl (i, e) \<Rightarrow> Err (RneFilter i e)
       | Inr eng \<Rightarrow> Ok \<lparr>rt_conn = r, rt_config = c, rt_closed = False, rt_group_created = [], rt_filters = eng\<rparr>)))"

definition resolve_stream :: "string \<Rightarrow> ('r, 'p) redis_transport \<Rightarrow> (string, transport_error) result" where
  "resolve_stream k t = (if k \<noteq> '''' then Ok k
     else case rc_stream (rt_config t) of
       None \<Rightarrow> Err (TeConfig ''no stream name: key is empty and config.stream is not set'')
     | Some s \<Rightarrow> Ok s)"

definition ensure_group :: "'r redis_lib \<Rightarrow> string \<Rightarrow> ('r, 'p) redis_transport \<Rightarrow> ('r, 'p) redis_transport \<times> (unit, transport_error) result" where
  "ensure_group L s t =
     (if s \<in> set (rt_group_created t) then (t, Ok ())
      else case rl_xgroup_create L s (rc_group (rt_config t)) (rt_conn t) of
        (r, Inl e) \<Rightarrow>
          (if \<not> str_contains ''BUSYGROUP'' e
           then (t\<lparr>rt_conn := r\<rparr>, Err (TeConnection (''failed to create consumer group '' @ rc_group (rt_config t) @ '' on stream '' @ s @ '': '' @ e)))
           else (t\<lparr>rt_conn := r, rt_group_created := s # rt_group_created t\<rparr>, Ok ()))
      | (r, Inr _) \<Rightarrow> (t\<lparr>rt_conn := r, rt_group_created := s # rt_group_created t\<rparr>, Ok ()))"

definition redis_disp :: "('p, 'j, 'c) filter_lib \<Rightarrow> ('r, 'p) redis_transport \<Rightarrow> bytes \<Rightarrow> filter_disposition" where
  "redis_disp lib t p = (if filters_out (rt_filters t) \<noteq> [] then apply_outbound lib (rt_filters t) p else DispPass)"

definition redis_send :: "('p, 'j, 'c) filter_lib \<Rightarrow> 'r redis_lib \<Rightarrow> string \<Rightarrow> bytes \<Rightarrow> ('r, 'p) redis_transport \<Rightarrow> ('r, 'p) redis_transport \<times> transport_error send_result" where
  "redis_send lib L k p t =
     (if rt_closed t then (t, SendFatal TeClosed)
      else case redis_disp lib t p of
        DispDrop \<Rightarrow> (t, SendOk)
      | DispDlq \<Rightarrow> (t, FilteredDlq)
      | DispPass \<Rightarrow> (case resolve_stream k t of
          Inl e \<Rightarrow> (t, SendFatal e)
        | Inr s \<Rightarrow> (case rl_xadd L s (rc_max_stream_len (rt_config t)) p (rt_conn t) of
            (r, Inr _) \<Rightarrow> (t\<lparr>rt_conn := r\<rparr>, SendOk)
          | (r, Inl e) \<Rightarrow> (t\<lparr>rt_conn := r\<rparr>, SendFatal (TeSend (''XADD to stream '' @ s @ '' failed: '' @ e))))))"

text \<open>\<open>split_once('-')\<close> and \<open>str::parse::<i64>\<close>.\<close>

definition parse_i64 :: "string \<Rightarrow> int option" where
  "parse_i64 s = (let sg = (s \<noteq> [] \<and> (hd s = CHR ''-'' \<or> hd s = CHR ''+'')); ds = (if sg then tl s else s);
       n = foldl (\<lambda>a c. 10 * a + (int (of_char c) - 48)) 0 ds; v = (if sg \<and> hd s = CHR ''-'' then - n else n) in
     if ds = [] \<or> \<not> list_all (\<lambda>c. 48 \<le> (of_char c :: nat) \<and> (of_char c :: nat) \<le> 57) ds then None
     else if - (2 ^ 63) \<le> v \<and> v < 2 ^ 63 then Some v else None)"

definition parse_entry_timestamp :: "string \<Rightarrow> int option" where
  "parse_entry_timestamp eid = (if CHR ''-'' \<in> set eid then parse_i64 (takeWhile (\<lambda>c. c \<noteq> CHR ''-'') eid) else None)"

definition redis_message :: "string \<Rightarrow> string \<times> bytes option \<Rightarrow> redis_token message" where
  "redis_message s e = (let p = (case snd e of None \<Rightarrow> [] | Some b \<Rightarrow> b) in
     message_new (Some s) p \<lparr>rk_stream = s, rk_entry_id = fst e\<rparr> (parse_entry_timestamp (fst e)))"

definition redis_read :: "'r redis_lib \<Rightarrow> nat \<Rightarrow> ('r, 'p) redis_transport \<Rightarrow>
    ('r, 'p) redis_transport \<times> (redis_token message list, transport_error) result" where
  "redis_read L max_n t =
     (if rt_closed t then (t, Err TeClosed)
      else case rc_stream (rt_config t) of
        None \<Rightarrow> (t, Err (TeConfig ''config.stream must be set for recv()''))
      | Some s \<Rightarrow> (case ensure_group L s t of
          (t1, Inl e) \<Rightarrow> (t1, Err e)
        | (t1, Inr _) \<Rightarrow> (case rl_xreadgroup L s (rc_group (rt_config t)) (rc_consumer (rt_config t)) max_n (rt_conn t1) of
            (r, Inl e) \<Rightarrow> (t1\<lparr>rt_conn := r\<rparr>, Err (TeRecv (''XREADGROUP on stream '' @ s @ '' failed: '' @ e)))
          | (r, Inr reply) \<Rightarrow> (t1\<lparr>rt_conn := r\<rparr>, Ok (map (redis_message s) (concat reply))))))"

definition redis_recv :: "('p, 'j, 'c) filter_lib \<Rightarrow> 'r redis_lib \<Rightarrow> nat \<Rightarrow> ('r, 'p) redis_transport \<Rightarrow>
    ('r, 'p) redis_transport \<times> (redis_token work_batch, transport_error) result" where
  "redis_recv lib L max_n t = (case redis_read L max_n t of
     (t1, Inl e) \<Rightarrow> (t1, Err e)
   | (t1, Inr ms) \<Rightarrow> (t1, Ok (collapse lib (rt_filters t1) ms)))"

text \<open>The tokens grouped by stream; \<open>order\<close> is the iteration order of the hash map.\<close>

fun push_token_group :: "redis_token \<Rightarrow> (string \<times> string list) list \<Rightarrow> (string \<times> string list) list" where
  "push_token_group k [] = [(rk_stream k, [rk_entry_id k])]"
| "push_token_group k ((s, ids) # gs) = (if s = rk_stream k then (s, ids @ [rk_entry_id k]) # gs else (s, ids) # push_token_group k gs)"

definition by_stream :: "redis_token list \<Rightarrow> (string \<times> string list) list" where
  "by_stream ks = fold push_token_group ks []"

fun ack_loop :: "'r redis_lib \<Rightarrow> string \<Rightarrow> (string \<times> string list) list \<Rightarrow> 'r \<Rightarrow> 'r \<times> (unit, transport_error) result" where
  "ack_loop L g [] r = (r, Ok ())"
| "ack_loop L g ((s, ids) # gs) r = (case rl_xack L s g ids r of
     (r', Inl e) \<Rightarrow> (r', Err (TeCommit (''XACK on stream '' @ s @ '' failed: '' @ e)))
   | (r', Inr _) \<Rightarrow> ack_loop L g gs r')"

definition redis_commit :: "'r redis_lib \<Rightarrow> ((string \<times> string list) list \<Rightarrow> (string \<times> string list) list) \<Rightarrow> redis_token list \<Rightarrow>
    ('r, 'p) redis_transport \<Rightarrow> ('r, 'p) redis_transport \<times> (unit, transport_error) result" where
  "redis_commit L order ks t = (if ks = [] then (t, Ok ())
     else case ack_loop L (rc_group (rt_config t)) (order (by_stream ks)) (rt_conn t) of (r, res) \<Rightarrow> (t\<lparr>rt_conn := r\<rparr>, res))"

definition redis_close :: "('r, 'p) redis_transport \<Rightarrow> ('r, 'p) redis_transport \<times> (unit, transport_error) result" where
  "redis_close t = (t\<lparr>rt_closed := True\<rparr>, Ok ())"

definition redis_is_healthy :: "('r, 'p) redis_transport \<Rightarrow> bool" where
  "redis_is_healthy t \<longleftrightarrow> \<not> rt_closed t"


subsection \<open>What the server is assumed to do\<close>

record 'r redis_view =
  rv_entries :: "'r \<Rightarrow> string \<Rightarrow> (string \<times> bytes option) list"
  rv_given :: "'r \<Rightarrow> string \<times> string \<Rightarrow> nat option"
  rv_pending :: "'r \<Rightarrow> string \<times> string \<Rightarrow> string set"

text \<open>A command that fails may have taken effect before its reply was lost.\<close>

definition add_effect :: "'r redis_view \<Rightarrow> string \<Rightarrow> bytes \<Rightarrow> 'r \<Rightarrow> 'r \<times> (string, string) result \<Rightarrow> bool" where
  "add_effect V s p r o' \<longleftrightarrow> rv_given V (fst o') = rv_given V r \<and> rv_pending V (fst o') = rv_pending V r
     \<and> (\<exists>es. rv_entries V (fst o') = (rv_entries V r)(s := rv_entries V r s @ es) \<and> length es \<le> 1 \<and> (\<forall>i. snd o' = Ok i \<longrightarrow> es = [(i, Some p)]))
     \<and> (distinct (map fst (rv_entries V r s)) \<longrightarrow> distinct (map fst (rv_entries V (fst o') s)))"

definition group_effect :: "'r redis_view \<Rightarrow> string \<Rightarrow> string \<Rightarrow> 'r \<Rightarrow> 'r \<times> (unit, string) result \<Rightarrow> bool" where
  "group_effect V s g r o' \<longleftrightarrow> rv_entries V (fst o') = rv_entries V r \<and> rv_pending V (fst o') = rv_pending V r
     \<and> (rv_given V (fst o') = rv_given V r \<or> rv_given V r (s, g) = None \<and> rv_given V (fst o') = (rv_given V r)((s, g) \<mapsto> 0))"

definition read_effect :: "'r redis_view \<Rightarrow> string \<Rightarrow> string \<Rightarrow> nat \<Rightarrow> 'r \<Rightarrow> 'r \<times> ((string \<times> bytes option) list list, string) result \<Rightarrow> bool" where
  "read_effect V s g n r o' \<longleftrightarrow> rv_entries V (fst o') = rv_entries V r
     \<and> (case rv_given V r (s, g) of
          None \<Rightarrow> (\<exists>e. snd o' = Err e) \<and> rv_given V (fst o') = rv_given V r \<and> rv_pending V (fst o') = rv_pending V r
        | Some k \<Rightarrow> (\<exists>m\<le>n. let es = take m (drop k (rv_entries V r s)) in
            rv_given V (fst o') = (rv_given V r)((s, g) \<mapsto> k + length es)
            \<and> rv_pending V (fst o') = (rv_pending V r)((s, g) := rv_pending V r (s, g) \<union> set (map fst es))
            \<and> (\<forall>reply. snd o' = Ok reply \<longrightarrow> concat reply = es)))"

definition ack_effect :: "'r redis_view \<Rightarrow> string \<Rightarrow> string \<Rightarrow> string list \<Rightarrow> 'r \<Rightarrow> 'r \<times> (unit, string) result \<Rightarrow> bool" where
  "ack_effect V s g ids r o' \<longleftrightarrow> rv_entries V (fst o') = rv_entries V r \<and> rv_given V (fst o') = rv_given V r
     \<and> (\<exists>A\<subseteq>set ids. rv_pending V (fst o') = (rv_pending V r)((s, g) := rv_pending V r (s, g) - A) \<and> (snd o' = Ok () \<longrightarrow> A = set ids))"

definition redis_spec :: "'r redis_view \<Rightarrow> 'r redis_lib \<Rightarrow> bool" where
  "redis_spec V L \<longleftrightarrow> (\<forall>s p r. add_effect V s p r (rl_xadd L s None p r)) \<and> (\<forall>s g r. group_effect V s g r (rl_xgroup_create L s g r))
     \<and> (\<forall>s g c n r. read_effect V s g n r (rl_xreadgroup L s g c n r)) \<and> (\<forall>s g ids r. ack_effect V s g ids r (rl_xack L s g ids r))"

subsection \<open>Runs of a consumer group\<close>

text \<open>Operations of this transport, restarts of its process, and other clients of the same stream and group.\<close>

datatype redis_op = RoSend string bytes | RoRecv nat | RoCommit "redis_token list" | RoClose | RoRestart
  | RoOtherAdd string bytes | RoOtherRead string nat | RoOtherAck "string list"

text \<open>The transport, the ids handed out so far (marked when to this transport), whether a read has failed, and what was committed.\<close>

type_synonym ('r, 'p) redis_run = "('r, 'p) redis_transport \<times> (bool \<times> string) list \<times> bool \<times> string set"

definition redis_step :: "('p, 'j, 'c) filter_lib \<Rightarrow> 'r redis_lib \<Rightarrow> ((string \<times> string list) list \<Rightarrow> (string \<times> string list) list) \<Rightarrow> string \<Rightarrow>
    redis_op \<Rightarrow> ('r, 'p) redis_run \<Rightarrow> ('r, 'p) redis_run" where
  "redis_step lib L order s x st = (case st of (t, log, failed, committed) \<Rightarrow> (case x of
     RoSend k p \<Rightarrow> (fst (redis_send lib L k p t), log, failed, committed)
   | RoRecv n \<Rightarrow> (case redis_read L n t of
       (t', Inl _) \<Rightarrow> (t', log, True, committed)
     | (t', Inr ms) \<Rightarrow> (t', log @ map (\<lambda>m. (True, rk_entry_id (msg_token m))) ms, failed, committed))
   | RoCommit ks \<Rightarrow> (fst (redis_commit L order ks t), log, failed, committed \<union> rk_entry_id ` {k \<in> set ks. rk_stream k = s})
   | RoClose \<Rightarrow> (fst (redis_close t), log, failed, committed)
   | RoRestart \<Rightarrow> (t\<lparr>rt_closed := False, rt_group_created := []\<rparr>, log, failed, committed)
   | RoOtherAdd q p \<Rightarrow> (t\<lparr>rt_conn := fst (rl_xadd L q None p (rt_conn t))\<rparr>, log, failed, committed)
   | RoOtherRead c n \<Rightarrow> (case rl_xreadgroup L s (rc_group (rt_config t)) c n (rt_conn t) of
       (r, Inl _) \<Rightarrow> (t\<lparr>rt_conn := r\<rparr>, log, True, committed)
     | (r, Inr reply) \<Rightarrow> (t\<lparr>rt_conn := r\<rparr>, log @ map (\<lambda>e. (False, fst e)) (concat reply), failed, committed))
   | RoOtherAck ids \<Rightarrow> (t\<lparr>rt_conn := fst (rl_xack L s (rc_group (rt_config t)) ids (rt_conn t))\<rparr>, log, failed, committed \<union> set ids)))"

definition redis_run_ops :: "('p, 'j, 'c) filter_lib \<Rightarrow> 'r redis_lib \<Rightarrow> ((string \<times> string list) list \<Rightarrow> (string \<times> string list) list) \<Rightarrow> string \<Rightarrow>
    redis_op list \<Rightarrow> ('r, 'p) redis_run \<Rightarrow> ('r, 'p) redis_run" where
  "redis_run_ops lib L order s xs st = fold (redis_step lib L order s) xs st"

definition given_count :: "'r redis_view \<Rightarrow> 'r \<Rightarrow> string \<times> string \<Rightarrow> nat" where
  "given_count V r sg = (case rv_given V r sg of None \<Rightarrow> 0 | Some k \<Rightarrow> k)"

text \<open>The ids a group was given since it had \<open>k0\<close>.\<close>

definition given_ids :: "'r redis_view \<Rightarrow> nat \<Rightarrow> 'r \<Rightarrow> string \<times> string \<Rightarrow> string list" where
  "given_ids V k0 r sg = map fst (take (given_count V r sg - k0) (drop k0 (rv_entries V r (fst sg))))"

definition conn_inv :: "'r redis_view \<Rightarrow> nat \<Rightarrow> string \<Rightarrow> string \<Rightarrow> 'r \<Rightarrow> (bool \<times> string) list \<Rightarrow> bool \<Rightarrow> string set \<Rightarrow> bool" where
  "conn_inv V k0 s g r log failed committed \<longleftrightarrow>
     distinct (map fst (rv_entries V r s)) \<and> k0 \<le> given_count V r (s, g) \<and> given_count V r (s, g) \<le> length (rv_entries V r s)
     \<and> subseq (map snd log) (given_ids V k0 r (s, g)) \<and> (\<not> failed \<longrightarrow> map snd log = given_ids V k0 r (s, g))
     \<and> set (map snd log) \<subseteq> rv_pending V r (s, g) \<union> committed"

definition redis_inv :: "'r redis_view \<Rightarrow> nat \<Rightarrow> string \<Rightarrow> string \<Rightarrow> ('r, 'p) redis_run \<Rightarrow> bool" where
  "redis_inv V k0 s g st \<longleftrightarrow> (case st of (t, log, failed, committed) \<Rightarrow>
     rc_stream (rt_config t) = Some s \<and> rc_group (rt_config t) = g \<and> rc_max_stream_len (rt_config t) = None
     \<and> conn_inv V k0 s g (rt_conn t) log failed committed)"

lemma conn_add:
  assumes "conn_inv V k0 s g r log failed committed" and "add_effect V q p r o'"
  shows "conn_inv V k0 s g (fst o') log failed committed"
proof -
  from assms(2) obtain es where e: "rv_given V (fst o') = rv_given V r" "rv_pending V (fst o') = rv_pending V r"
      "rv_entries V (fst o') = (rv_entries V r)(q := rv_entries V r q @ es)"
      "distinct (map fst (rv_entries V r q)) \<longrightarrow> distinct (map fst (rv_entries V (fst o') q))" by (auto simp: add_effect_def)
  have c: "given_count V (fst o') (s, g) = given_count V r (s, g)" by (simp add: given_count_def e(1))
  have "k0 \<le> given_count V r (s, g)" "given_count V r (s, g) \<le> length (rv_entries V r s)" using assms(1) by (simp_all add: conn_inv_def)
  then have i: "given_ids V k0 (fst o') (s, g) = given_ids V k0 r (s, g)" unfolding given_ids_def c by (cases "q = s") (auto simp: e(3))
  have "distinct (map fst (rv_entries V (fst o') s))" using assms(1) e(3,4) by (cases "q = s") (simp_all add: conn_inv_def)
  moreover have "length (rv_entries V r s) \<le> length (rv_entries V (fst o') s)" by (simp add: e(3))
  ultimately show ?thesis using assms(1) unfolding conn_inv_def c i e(2) by (meson le_trans)
qed

lemma conn_group:
  assumes "conn_inv V k0 s g r log failed committed" and "group_effect V s g r o'"
  shows "conn_inv V k0 s g (fst o') log failed committed"
proof -
  have e: "rv_entries V (fst o') = rv_entries V r" "rv_pending V (fst o') = rv_pending V r" using assms(2) by (simp_all add: group_effect_def)
  have c: "given_count V (fst o') (s, g) = given_count V r (s, g)" using assms(2) by (auto simp: group_effect_def given_count_def)
  show ?thesis using assms(1) unfolding conn_inv_def given_ids_def e c .
qed

lemma given_ids_advance:
  assumes "k0 \<le> k" and "k \<le> length es"
  shows "take (k + length (take m (drop k es)) - k0) (drop k0 es) = take (k - k0) (drop k0 es) @ take m (drop k es)"
proof -
  have "take (k - k0 + length (take m (drop k es))) (drop k0 es) = take (k - k0) (drop k0 es) @ take (length (take m (drop k es))) (drop (k - k0) (drop k0 es))"
    by (rule take_add)
  also have "drop (k - k0) (drop k0 es) = drop k es" using assms(1) by simp
  also have "take (length (take m (drop k es))) (drop k es) = take m (drop k es)" by (simp add: min_def)
  finally show ?thesis using assms(1) by simp
qed

lemma conn_read:
  assumes "conn_inv V k0 s g r log failed committed" and "read_effect V s g n r (r', x)"
  shows "(\<forall>e. x = Err e \<longrightarrow> conn_inv V k0 s g r' log True committed)
     \<and> (\<forall>reply. x = Ok reply \<longrightarrow> conn_inv V k0 s g r' (log @ map (\<lambda>e. (b, fst e)) (concat reply)) failed committed)"
proof (cases "rv_given V r (s, g)")
  case None
  with assms(2) have e: "rv_entries V r' = rv_entries V r" "rv_given V r' = rv_given V r" "rv_pending V r' = rv_pending V r" "\<exists>e. x = Err e"
    by (simp_all add: read_effect_def)
  have "conn_inv V k0 s g r' log True committed" using assms(1) by (simp add: conn_inv_def given_ids_def given_count_def e(1-3))
  with e(4) show ?thesis by auto
next
  case (Some k)
  with assms(2) obtain m where m: "rv_entries V r' = rv_entries V r"
      "rv_given V r' = (rv_given V r)((s, g) \<mapsto> k + length (take m (drop k (rv_entries V r s))))"
      "rv_pending V r' = (rv_pending V r)((s, g) := rv_pending V r (s, g) \<union> set (map fst (take m (drop k (rv_entries V r s)))))"
      "\<forall>reply. x = Ok reply \<longrightarrow> concat reply = take m (drop k (rv_entries V r s))"
    by (auto simp: read_effect_def Let_def)
  let ?es = "take m (drop k (rv_entries V r s))"
  have k: "given_count V r (s, g) = k" "given_count V r' (s, g) = k + length ?es" using Some m(2) by (simp_all add: given_count_def)
  have b: "k0 \<le> k" "k \<le> length (rv_entries V r s)" using assms(1) k by (simp_all add: conn_inv_def)
  have i: "given_ids V k0 r' (s, g) = given_ids V k0 r (s, g) @ map fst ?es"
    unfolding given_ids_def k fst_conv m(1) given_ids_advance[OF b] by simp
  have l: "k + length ?es \<le> length (rv_entries V r s)" using b(2) by simp
  have c: "subseq (map snd log) (given_ids V k0 r (s, g))" "\<not> failed \<longrightarrow> map snd log = given_ids V k0 r (s, g)"
      "set (map snd log) \<subseteq> rv_pending V r (s, g) \<union> committed" "distinct (map fst (rv_entries V r s))" using assms(1) by (simp_all add: conn_inv_def)
  have p: "rv_pending V r' (s, g) = rv_pending V r (s, g) \<union> set (map fst ?es)" by (simp add: m(3))
  have s1: "subseq (map snd log) (given_ids V k0 r' (s, g))" unfolding i using c(1) by (rule subseq_rev_drop_many)
  have s2: "subseq (map snd log @ map fst ?es) (given_ids V k0 r' (s, g))" unfolding i using c(1) by (intro list_emb_append_mono) simp_all
  have e1: "conn_inv V k0 s g r' log True committed" using s1 b l c unfolding conn_inv_def k m(1) p by auto
  have e2: "conn_inv V k0 s g r' (log @ map (\<lambda>e. (b, fst e)) ?es) failed committed"
  proof -
    have q: "map snd (log @ map (\<lambda>e. (b, fst e)) ?es) = map snd log @ map fst ?es" by (simp add: comp_def)
    have "\<not> failed \<longrightarrow> map snd log @ map fst ?es = given_ids V k0 r' (s, g)" unfolding i using c(2) by simp
    moreover have "set (map snd log @ map fst ?es) \<subseteq> rv_pending V r' (s, g) \<union> committed" unfolding p using c(3) by auto
    moreover have "k0 \<le> k + length ?es" using b(1) by simp
    ultimately show ?thesis unfolding conn_inv_def k m(1) q using s2 l c(4) by blast
  qed
  from e1 e2 m(4) show ?thesis by auto
qed

lemma conn_ack:
  assumes "conn_inv V k0 s g r log failed committed" and "ack_effect V q g ids r o'" and "q = s \<longrightarrow> set ids \<subseteq> X"
  shows "conn_inv V k0 s g (fst o') log failed (committed \<union> X)"
proof -
  from assms(2) obtain A where a: "A \<subseteq> set ids" "rv_pending V (fst o') = (rv_pending V r)((q, g) := rv_pending V r (q, g) - A)"
      "rv_entries V (fst o') = rv_entries V r" "rv_given V (fst o') = rv_given V r" by (auto simp: ack_effect_def)
  have "rv_pending V r (s, g) \<subseteq> rv_pending V (fst o') (s, g) \<union> X" using a(1,2) assms(3) by auto
  then show ?thesis using assms(1) unfolding conn_inv_def given_ids_def given_count_def a(3,4) by blast
qed


lemma conn_mono: "conn_inv V k0 s g r log failed committed \<Longrightarrow> committed \<subseteq> c' \<Longrightarrow> conn_inv V k0 s g r log failed c'"
  by (auto simp: conn_inv_def)

lemma conn_ack_loop:
  assumes "redis_spec V L" and "conn_inv V k0 s g r log failed committed" and "\<forall>ids. (s, ids) \<in> set gs \<longrightarrow> set ids \<subseteq> X"
  shows "conn_inv V k0 s g (fst (ack_loop L g gs r)) log failed (committed \<union> X)"
  using assms(2,3)
proof (induction gs arbitrary: r committed)
  case Nil
  then show ?case by (auto intro: conn_mono)
next
  case (Cons a gs)
  obtain q ids where a: "a = (q, ids)" by (cases a)
  obtain r' x where x: "rl_xack L q g ids r = (r', x)" by (cases "rl_xack L q g ids r")
  have "ack_effect V q g ids r (r', x)" using assms(1) x unfolding redis_spec_def by metis
  from conn_ack[OF Cons.prems(1) this] Cons.prems(2) a have i: "conn_inv V k0 s g r' log failed (committed \<union> X)" by auto
  from Cons.IH[OF i] Cons.prems(2) have "conn_inv V k0 s g (fst (ack_loop L g gs r')) log failed (committed \<union> X)" by (simp add: Un_assoc)
  with i a x show ?case by (simp split: sum.split)
qed

lemma push_token_group_ids:
  "(s, ids) \<in> set (push_token_group k gs) \<Longrightarrow> i \<in> set ids \<Longrightarrow> (rk_stream k = s \<and> rk_entry_id k = i) \<or> (\<exists>ids'. (s, ids') \<in> set gs \<and> i \<in> set ids')"
  by (induction k gs rule: push_token_group.induct) (auto split: if_splits)

lemma by_stream_ids:
  assumes "(s, ids) \<in> set (by_stream ks)" and "i \<in> set ids"
  shows "i \<in> rk_entry_id ` {k \<in> set ks. rk_stream k = s}"
proof -
  have "(s, ids) \<in> set (fold push_token_group ks gs) \<Longrightarrow> i \<in> set ids \<Longrightarrow>
      i \<in> rk_entry_id ` {k \<in> set ks. rk_stream k = s} \<or> (\<exists>ids'. (s, ids') \<in> set gs \<and> i \<in> set ids')" for gs
  proof (induction ks arbitrary: gs)
    case (Cons k ks)
    from Cons.prems Cons.IH[of "push_token_group k gs"] push_token_group_ids[of s _ k gs i] show ?case by fastforce
  qed auto
  from this[of "[]"] assms show ?thesis by (simp add: by_stream_def)
qed

lemma ensure_group_inv:
  assumes "redis_spec V L" and "redis_inv V k0 s g (t, log, failed, committed)" and "ensure_group L s t = (t1, x)"
  shows "redis_inv V k0 s g (t1, log, failed, committed) \<and> rt_config t1 = rt_config t"
proof -
  obtain r y where r: "rl_xgroup_create L s g (rt_conn t) = (r, y)" by (cases "rl_xgroup_create L s g (rt_conn t)")
  have "group_effect V s g (rt_conn t) (r, y)" using assms(1) r unfolding redis_spec_def by metis
  from conn_group[OF _ this] assms(2) have "conn_inv V k0 s g r log failed committed" by (simp add: redis_inv_def)
  with assms(2,3) r show ?thesis by (auto simp: ensure_group_def redis_inv_def split: if_splits sum.splits)
qed

lemma read_inv:
  assumes "redis_spec V L" and "redis_inv V k0 s g (t, log, failed, committed)" and "rl_xreadgroup L s g c n (rt_conn t) = (r, x)"
  shows "case x of Inl _ \<Rightarrow> redis_inv V k0 s g (t\<lparr>rt_conn := r\<rparr>, log, True, committed)
     | Inr reply \<Rightarrow> redis_inv V k0 s g (t\<lparr>rt_conn := r\<rparr>, log @ map (\<lambda>e. (b, fst e)) (concat reply), failed, committed)"
proof -
  have "read_effect V s g n (rt_conn t) (r, x)" using assms(1,3) unfolding redis_spec_def by metis
  from conn_read[OF _ this, of k0 log failed committed b] assms(2) show ?thesis by (auto simp: redis_inv_def split: sum.split)
qed

lemma fail_mono: "redis_inv V k0 s g (t, log, failed, committed) \<Longrightarrow> redis_inv V k0 s g (t, log, True, committed)"
  by (simp add: redis_inv_def conn_inv_def)

lemma redis_read_inv:
  assumes "redis_spec V L" and "redis_inv V k0 s g (t, log, failed, committed)" and "redis_read L n t = (t', x)"
  shows "case x of Inl _ \<Rightarrow> redis_inv V k0 s g (t', log, True, committed)
     | Inr ms \<Rightarrow> redis_inv V k0 s g (t', log @ map (\<lambda>m. (True, rk_entry_id (msg_token m))) ms, failed, committed)"
proof -
  have cfg: "rc_stream (rt_config t) = Some s" "rc_group (rt_config t) = g" using assms(2) by (simp_all add: redis_inv_def)
  obtain t1 y where t1: "ensure_group L s t = (t1, y)" by (cases "ensure_group L s t")
  note i1 = ensure_group_inv[OF assms(1,2) t1]
  obtain r z where r: "rl_xreadgroup L s g (rc_consumer (rt_config t)) n (rt_conn t1) = (r, z)"
    by (cases "rl_xreadgroup L s g (rc_consumer (rt_config t)) n (rt_conn t1)")
  note rd = read_inv[OF assms(1) conjunct1[OF i1] r, of True]
  have m: "map (\<lambda>m. (True, rk_entry_id (msg_token m))) (map (redis_message s) es) = map (\<lambda>e. (True, fst e)) es" for es
    by (simp add: redis_message_def message_new_def Let_def)
  from assms(3) cfg t1 r rd i1 assms(2) show ?thesis
    by (auto simp: redis_read_def m intro: fail_mono simp del: map_map split: if_splits sum.splits)
qed

lemma redis_step_inv:
  assumes "redis_spec V L" and "\<forall>xs. set (order xs) = set xs" and "redis_inv V k0 s g st"
  shows "redis_inv V k0 s g (redis_step lib L order s x st)"
proof -
  obtain t log failed committed where st: "st = (t, log, failed, committed)" by (cases st)
  have cfg: "rc_stream (rt_config t) = Some s" "rc_group (rt_config t) = g" "rc_max_stream_len (rt_config t) = None"
    and ci: "conn_inv V k0 s g (rt_conn t) log failed committed" using assms(3) st by (simp_all add: redis_inv_def)
  have add: "conn_inv V k0 s g (fst (rl_xadd L q None p (rt_conn t))) log failed committed" for q p
    using assms(1) by (intro conn_add[OF ci]) (auto simp: redis_spec_def)
  have ack: "conn_inv V k0 s g (fst (ack_loop L g (order (by_stream ks)) (rt_conn t))) log failed (committed \<union> rk_entry_id ` {k \<in> set ks. rk_stream k = s})" for ks
    using by_stream_ids[of s _ ks] assms(2) by (intro conn_ack_loop[OF assms(1) ci]) blast
  have oack: "conn_inv V k0 s g (fst (rl_xack L s g ids (rt_conn t))) log failed (committed \<union> set ids)" for ids
    using assms(1) by (intro conn_ack[OF ci, of s]) (auto simp: redis_spec_def)
  show ?thesis
  proof (cases x)
    case (RoSend k p)
    with st cfg ci add show ?thesis
      by (auto simp: redis_step_def redis_inv_def redis_send_def split: filter_disposition.split sum.split prod.split) (metis fst_conv)+
  next
    case (RoRecv n)
    obtain t' y where "redis_read L n t = (t', y)" by (cases "redis_read L n t")
    with RoRecv st redis_read_inv[OF assms(1) assms(3)[unfolded st] this] show ?thesis by (simp add: redis_step_def split: sum.splits)
  next
    case (RoCommit ks)
    with st cfg ci ack[of ks] show ?thesis by (auto simp: redis_step_def redis_inv_def redis_commit_def split: prod.split)
  next
    case (RoOtherRead c n)
    obtain r y where "rl_xreadgroup L s g c n (rt_conn t) = (r, y)" by (cases "rl_xreadgroup L s g c n (rt_conn t)")
    with RoOtherRead st cfg read_inv[OF assms(1) assms(3)[unfolded st] this, of False] show ?thesis by (simp add: redis_step_def split: sum.splits)
  qed (use st cfg ci add oack in \<open>auto simp: redis_step_def redis_inv_def redis_close_def\<close>)
qed

lemma subseq_keeps_distinct: "subseq xs ys \<Longrightarrow> distinct ys \<Longrightarrow> distinct xs"
proof (induction rule: list_emb.induct)
  case (list_emb_Cons2 x y xs ys)
  have "set xs \<subseteq> set ys" using list_emb_set[OF list_emb_Cons2.hyps(2)] by auto
  with list_emb_Cons2 show ?case by auto
qed simp_all

lemma redis_run_inv:
  assumes "redis_spec V L" and "\<forall>xs. set (order xs) = set xs" and "redis_inv V k0 s g st"
  shows "redis_inv V k0 s g (redis_run_ops lib L order s xs st)"
  using assms(3) by (induction xs arbitrary: st) (simp_all add: redis_run_ops_def redis_step_inv[OF assms(1,2)])


text \<open>What the code does with a consumer group, which is less than the at-least-once delivery that \<open>docs/BACKPRESSURE.md\<close> and the
  module's comment describe (\<open>redis_crash_loses_block\<close> below): for every sequence of sends, receives, commits, closes and process restarts of this
  transport and of additions, reads and acknowledgements by other clients of the same consumer group, with any of the
  commands failing before or after it took effect (no trimming of the stream). The ids handed out to the group are a
  subsequence of the stream behind the group's start, so each entry is handed out at most once, in stream order, restarts
  included and entries never acknowledged too; each of them is pending at the server or a commit of it was requested; and if
  no read failed, no entry was skipped.\<close>

theorem redis_group_exact:
  assumes "redis_spec V L" and "\<forall>xs. set (order xs) = set xs"
    and "rc_stream (rt_config t0) = Some s" and "rc_group (rt_config t0) = g" and "rc_max_stream_len (rt_config t0) = None"
    and "distinct (map fst (rv_entries V (rt_conn t0) s))" and "given_count V (rt_conn t0) (s, g) \<le> length (rv_entries V (rt_conn t0) s)"
    and "redis_run_ops lib L order s xs (t0, [], False, {}) = (t, log, failed, committed)"
  shows "subseq (map snd log) (map fst (drop (given_count V (rt_conn t0) (s, g)) (rv_entries V (rt_conn t) s))) \<and> distinct (map snd log)
     \<and> set (map snd log) \<subseteq> rv_pending V (rt_conn t) (s, g) \<union> committed
     \<and> (if failed then True else map snd log = given_ids V (given_count V (rt_conn t0) (s, g)) (rt_conn t) (s, g))"
proof -
  let ?k = "given_count V (rt_conn t0) (s, g)"
  have "redis_inv V ?k s g (t0, [], False, {})" using assms(3-7) by (simp add: redis_inv_def conn_inv_def given_ids_def)
  from redis_run_inv[OF assms(1,2) this, of lib xs] have c: "conn_inv V ?k s g (rt_conn t) log failed committed"
    unfolding assms(8) by (simp add: redis_inv_def)
  have p: "subseq (given_ids V ?k (rt_conn t) (s, g)) (map fst (drop ?k (rv_entries V (rt_conn t) s)))"
    unfolding given_ids_def fst_conv by (rule subseq_map[OF prefix_imp_subseq]) (simp add: take_is_prefix)
  with c have s: "subseq (map snd log) (map fst (drop ?k (rv_entries V (rt_conn t) s)))" unfolding conn_inv_def by (meson subseq_order.trans)
  moreover have "distinct (map fst (drop ?k (rv_entries V (rt_conn t) s)))" using c by (simp add: conn_inv_def drop_map[symmetric] distinct_drop)
  from subseq_keeps_distinct[OF s this] have "distinct (map snd log)" .
  ultimately show ?thesis using c by (simp add: conn_inv_def)
qed

record toy_redis =
  tr_entries :: "string \<Rightarrow> (string \<times> bytes option) list"
  tr_given :: "string \<times> string \<Rightarrow> nat option"
  tr_pending :: "string \<times> string \<Rightarrow> string set"

definition toy_view :: "toy_redis redis_view" where
  "toy_view = \<lparr>rv_entries = tr_entries, rv_given = tr_given, rv_pending = tr_pending\<rparr>"

definition toy_id :: "(string \<times> bytes option) list \<Rightarrow> string" where
  "toy_id es = replicate (Suc (sum_list (map (length \<circ> fst) es))) CHR ''1'' @ ''-0''"

definition toy_server :: "toy_redis redis_lib" where
  "toy_server = \<lparr>
     rl_xadd = (\<lambda>s ml p r. (r\<lparr>tr_entries := (tr_entries r)(s := tr_entries r s @ [(toy_id (tr_entries r s), Some p)])\<rparr>, Ok (toy_id (tr_entries r s)))),
     rl_xgroup_create = (\<lambda>s g r. if tr_given r (s, g) = None then (r\<lparr>tr_given := (tr_given r)((s, g) \<mapsto> 0)\<rparr>, Ok ())
        else (r, Err ''BUSYGROUP Consumer Group name already exists'')),
     rl_xreadgroup = (\<lambda>s g c n r. case tr_given r (s, g) of None \<Rightarrow> (r, Err ''NOGROUP'')
        | Some k \<Rightarrow> (let es = take n (drop k (tr_entries r s)) in
            (r\<lparr>tr_given := (tr_given r)((s, g) \<mapsto> k + length es), tr_pending := (tr_pending r)((s, g) := tr_pending r (s, g) \<union> set (map fst es))\<rparr>, Ok [es]))),
     rl_xack = (\<lambda>s g ids r. (r\<lparr>tr_pending := (tr_pending r)((s, g) := tr_pending r (s, g) - set ids)\<rparr>, Ok ()))\<rparr>"

definition toy_start :: toy_redis where
  "toy_start = \<lparr>tr_entries = (\<lambda>_. []), tr_given = (\<lambda>_. None), tr_pending = (\<lambda>_. {})\<rparr>"

definition toy_redis_transport :: "(toy_redis, nat) redis_transport" where
  "toy_redis_transport = \<lparr>rt_conn = toy_start, rt_config = redis_config_default\<lparr>rc_stream := Some ''s''\<rparr>, rt_closed = False, rt_group_created = [],
     rt_filters = \<lparr>filters_in = [], filters_out = []\<rparr>\<rparr>"

lemma toy_id_fresh: "toy_id es \<notin> set (map fst es)"
proof
  assume "toy_id es \<in> set (map fst es)"
  then obtain x where x: "x \<in> set es" "fst x = toy_id es" by auto
  have "length (fst x) \<le> sum_list (map (length \<circ> fst) es)" using x(1) by (intro member_le_sum_list) auto
  with x(2) show False by (simp add: toy_id_def)
qed

lemma toy_spec: "redis_spec toy_view toy_server"
  unfolding redis_spec_def
proof (intro conjI allI)
  show "add_effect toy_view s p r (rl_xadd toy_server s None p r)" for s p r
    using toy_id_fresh[of "tr_entries r s"] by (auto simp: add_effect_def toy_view_def toy_server_def)
  show "group_effect toy_view s g r (rl_xgroup_create toy_server s g r)" for s g r
    by (auto simp: group_effect_def toy_view_def toy_server_def)
  show "read_effect toy_view s g n r (rl_xreadgroup toy_server s g c n r)" for s g c n r
    by (auto simp: read_effect_def toy_view_def toy_server_def Let_def split: option.split)
  show "ack_effect toy_view s g ids r (rl_xack toy_server s g ids r)" for s g ids r
    by (auto simp: ack_effect_def toy_view_def toy_server_def)
qed

definition toy_redis_ops :: "redis_op list" where
  "toy_redis_ops = [RoSend ''s'' [0x31], RoSend ''s'' [0x32], RoRecv 1, RoRestart, RoRecv 5, RoCommit [\<lparr>rk_stream = ''s'', rk_entry_id = ''1111-0''\<rparr>]]"

text \<open>A transport that dies between \<open>recv\<close> and \<open>commit\<close>: its next life receives the entries behind the lost block only, and the
  block stays pending at the server for ever.\<close>

lemma redis_crash_loses_block:
  "case redis_run_ops toy_filter_lib toy_server id ''s'' toy_redis_ops (toy_redis_transport, [], False, {}) of (t, log, failed, committed) \<Rightarrow>
     map snd log = [''1-0'', ''1111-0''] \<and> tr_pending (rt_conn t) (''s'', ''dfe'') = {''1-0''} \<and> \<not> failed"
  by code_simp

theorem redis_group_exact_witness:
  "case redis_run_ops toy_filter_lib toy_server id ''s'' toy_redis_ops (toy_redis_transport, [], False, {}) of (t, log, failed, committed) \<Rightarrow>
     distinct (map snd log) \<and> set (map snd log) \<subseteq> tr_pending (rt_conn t) (''s'', ''dfe'') \<union> committed"
proof -
  obtain t log failed committed where r: "redis_run_ops toy_filter_lib toy_server id ''s'' toy_redis_ops (toy_redis_transport, [], False, {}) = (t, log, failed, committed)"
    by (cases "redis_run_ops toy_filter_lib toy_server id ''s'' toy_redis_ops (toy_redis_transport, [], False, {})")
  have "rc_stream (rt_config toy_redis_transport) = Some ''s''" "rc_group (rt_config toy_redis_transport) = ''dfe''"
    "rc_max_stream_len (rt_config toy_redis_transport) = None" "distinct (map fst (rv_entries toy_view (rt_conn toy_redis_transport) ''s''))"
    "given_count toy_view (rt_conn toy_redis_transport) (''s'', ''dfe'') \<le> length (rv_entries toy_view (rt_conn toy_redis_transport) ''s'')"
    by (simp_all add: toy_redis_transport_def redis_config_default_def toy_view_def toy_start_def given_count_def)
  note h = this
  have o: "\<forall>xs :: (string \<times> string list) list. set (id xs) = set xs" by simp
  from redis_group_exact[OF toy_spec o h r] r show ?thesis by (simp add: toy_view_def)
qed

end
