(* ===== verification/Push_Transports.thy ===== *)
theory Push_Transports
  imports Memory_Transport
begin

text \<open>
  The transports that are pushed to: gRPC (\<open>src/transport/grpc/{mod,batch,config,token}.rs\<close>) and
  HTTP (\<open>src/transport/http.rs\<close>). Both run an embedded server whose handlers put messages into a
  bounded channel, from which \<open>recv\<close> takes them. Handlers run concurrently, so the receive side
  is a machine whose steps are the handlers' atomic operations: taking a sequence number,
  reserving permits, enqueueing one message, and one turn of the \<open>recv\<close> loop; a run is any list
  of such steps. \<open>in_log\<close>, \<open>in_popped\<close>, \<open>in_delivered\<close> and \<open>in_lost\<close> only record what happened; no
  operation reads them. The generated protobuf code and tonic, axum and reqwest are not modelled:
  what the network answers to a request is an argument of the send.
\<close>

section \<open>Wire format\<close>

record push_token =
  pt_seq :: u64
  pt_source :: "string option"

definition grpc_token_new :: "u64 \<Rightarrow> push_token" where
  "grpc_token_new n = \<lparr>pt_seq = n, pt_source = None\<rparr>"

definition http_token_with_source :: "u64 \<Rightarrow> string \<Rightarrow> push_token" where
  "http_token_with_source n a = \<lparr>pt_seq = n, pt_source = Some a\<rparr>"

datatype proto_format = PfAuto | PfJson | PfMsgpack | PfArrowIpc

fun format_number :: "proto_format \<Rightarrow> int" where
  "format_number PfAuto = 0" | "format_number PfJson = 1" | "format_number PfMsgpack = 2" | "format_number PfArrowIpc = 3"

definition format_of_number :: "int \<Rightarrow> proto_format option" where
  "format_of_number n = (if n = 0 then Some PfAuto else if n = 1 then Some PfJson else if n = 2 then Some PfMsgpack
     else if n = 3 then Some PfArrowIpc else None)"

fun format_to_proto :: "payload_format \<Rightarrow> proto_format" where
  "format_to_proto Auto = PfAuto" | "format_to_proto Json = PfJson" | "format_to_proto MsgPack = PfMsgpack"

definition format_from_proto :: "int \<Rightarrow> payload_format" where
  "format_from_proto n = (case format_of_number n of Some PfJson \<Rightarrow> Json | Some PfMsgpack \<Rightarrow> MsgPack | _ \<Rightarrow> Auto)"

record proto_record =
  pr_payload :: bytes
  pr_key :: string
  pr_headers :: "(string \<times> bytes) list"
  pr_timestamp_ms :: int
  pr_has_timestamp_ms :: bool
  pr_format :: int

definition record_to_proto :: "wrecord \<Rightarrow> proto_record" where
  "record_to_proto r = (case (case timestamp_ms (metadata r) of Some ts \<Rightarrow> (ts, True) | None \<Rightarrow> (0, False)) of (ts, has) \<Rightarrow>
     \<lparr>pr_payload = payload r, pr_key = (case key r of None \<Rightarrow> '''' | Some k \<Rightarrow> k), pr_headers = headers r,
      pr_timestamp_ms = ts, pr_has_timestamp_ms = has, pr_format = format_number (format_to_proto (format (metadata r)))\<rparr>)"

definition record_from_proto :: "proto_record \<Rightarrow> wrecord" where
  "record_from_proto r = \<lparr>payload = pr_payload r, key = (if pr_key r = '''' then None else Some (pr_key r)), headers = pr_headers r,
     metadata = \<lparr>timestamp_ms = (if pr_has_timestamp_ms r then Some (pr_timestamp_ms r) else None),
                 format = format_from_proto (pr_format r)\<rparr>\<rparr>"

definition records_to_proto :: "wrecord list \<Rightarrow> proto_record list" where
  "records_to_proto rs = map record_to_proto rs"

definition proto_batch_to_records :: "proto_record list \<Rightarrow> wrecord list" where
  "proto_batch_to_records b = map record_from_proto b"

text \<open>\<open>PushRequest.metadata\<close> is a map, here an association list without duplicate keys.\<close>

record push_request =
  pq_payload :: bytes
  pq_format :: int
  pq_metadata :: "(string \<times> string) list"

section \<open>The receive side\<close>

datatype request = RqPush push_request | RqBatch "proto_record list" | RqIngest string bytes int

text \<open>Why a handler refuses: the governor holds, no room in the channel, the receiver is gone, an empty body.\<close>

datatype refusal = Held | Full | Gone | EmptyBody

text \<open>What a handler does next: try to send its message; take a number for the next record it holds a permit for;
  enqueue the record it has numbered; nothing, it has answered.\<close>

datatype job = JSend "push_token message" | JBatch "push_token message list" | JPut "push_token message" "push_token message list"
  | JDone "(nat, refusal) result"

record 'p ingest =
  in_cap :: nat
  in_queue :: "push_token message list"
  in_reserved :: nat
  in_sequence :: u64
  in_serving :: bool
  in_receiver :: bool
  in_closed :: bool
  in_shutdown :: bool
  in_recv_timeout_ms :: u64
  in_filters :: "'p filter_engine"
  in_jobs :: "(request \<times> job) list"
  in_rx :: "(nat \<times> push_token message list) option"
  in_results :: "(push_token work_batch, transport_error) result list"
  in_log :: "(nat \<times> push_token message) list"
  in_popped :: "push_token message list"
  in_delivered :: "push_token message list"
  in_lost :: "push_token message list"

text \<open>The messages of a request; the sequence number is filled in when it is taken.\<close>

definition push_message :: "push_request \<Rightarrow> push_token message" where
  "push_message q = \<lparr>msg_key = map_of (pq_metadata q) ''topic'', msg_payload = pq_payload q, msg_token = grpc_token_new 0,
     msg_timestamp_ms = None, msg_format = detect (pq_payload q)\<rparr>"

definition batch_message :: "wrecord \<Rightarrow> push_token message" where
  "batch_message r = \<lparr>msg_key = key r, msg_payload = payload r, msg_token = grpc_token_new 0,
     msg_timestamp_ms = timestamp_ms (metadata r),
     msg_format = (if format (metadata r) = Auto then detect (payload r) else format (metadata r))\<rparr>"

definition http_message :: "string \<Rightarrow> bytes \<Rightarrow> int \<Rightarrow> push_token message" where
  "http_message addr body now = \<lparr>msg_key = None, msg_payload = body, msg_token = http_token_with_source 0 addr,
     msg_timestamp_ms = Some now, msg_format = detect body\<rparr>"

definition stamp :: "u64 \<Rightarrow> push_token message \<Rightarrow> push_token message" where
  "stamp n m = m\<lparr>msg_token := (msg_token m)\<lparr>pt_seq := n\<rparr>\<rparr>"

definition free_permits :: "'p ingest \<Rightarrow> nat" where
  "free_permits s = in_cap s - (length (in_queue s) + in_reserved s)"

text \<open>A handler up to its first interleaving point. \<open>hold\<close> is the governor's answer, \<open>False\<close> when there is none.\<close>

definition number_and :: "push_token message \<Rightarrow> 'p ingest \<Rightarrow> 'p ingest \<times> job" where
  "number_and m s = (s\<lparr>in_sequence := in_sequence s + 1\<rparr>, JSend (stamp (in_sequence s) m))"

definition push_begin :: "bool \<Rightarrow> push_request \<Rightarrow> 'p ingest \<Rightarrow> 'p ingest \<times> job" where
  "push_begin hold q s = (if hold then (s, JDone (Err Held)) else number_and (push_message q) s)"

definition ingest_begin :: "bool \<Rightarrow> string \<Rightarrow> bytes \<Rightarrow> int \<Rightarrow> 'p ingest \<Rightarrow> 'p ingest \<times> job" where
  "ingest_begin hold addr body now s =
     (if body = [] then (s, JDone (Err EmptyBody))
      else if hold then (s, JDone (Err Held))
      else number_and (http_message addr body now) s)"

definition route_batch_begin :: "bool \<Rightarrow> proto_record list \<Rightarrow> 'p ingest \<Rightarrow> 'p ingest \<times> job" where
  "route_batch_begin hold b s =
     (if hold then (s, JDone (Err Held))
      else let rs = proto_batch_to_records b in
        if \<not> in_receiver s then (s, JDone (Err Gone))
        else if length rs \<le> free_permits s then (s\<lparr>in_reserved := in_reserved s + length rs\<rparr>, JBatch (map batch_message rs))
        else (s, JDone (Err Full)))"

definition handler_begin :: "bool \<Rightarrow> request \<Rightarrow> 'p ingest \<Rightarrow> 'p ingest \<times> job" where
  "handler_begin hold q s = (case q of
     RqPush r \<Rightarrow> push_begin hold r s
   | RqBatch b \<Rightarrow> route_batch_begin hold b s
   | RqIngest addr body now \<Rightarrow> ingest_begin hold addr body now s)"

text \<open>One more atomic operation of handler \<open>i\<close>. A batch is acknowledged with the number of its records.\<close>

definition batch_size :: "request \<Rightarrow> nat" where
  "batch_size q = (case q of RqBatch b \<Rightarrow> length (proto_batch_to_records b) | _ \<Rightarrow> 1)"

definition enqueue :: "nat \<Rightarrow> push_token message \<Rightarrow> 'p ingest \<Rightarrow> 'p ingest" where
  "enqueue i m s = s\<lparr>in_queue := in_queue s @ [m], in_log := in_log s @ [(i, m)]\<rparr>"

definition handler_step :: "nat \<Rightarrow> request \<Rightarrow> job \<Rightarrow> 'p ingest \<Rightarrow> 'p ingest \<times> job" where
  "handler_step i q j s = (case j of
     JSend m \<Rightarrow>
       (if \<not> in_receiver s then (s, JDone (Err Gone))
        else if 0 < free_permits s then (enqueue i m s, JDone (Ok 1))
        else (s, JDone (Err Full)))
   | JBatch [] \<Rightarrow> (s, JDone (Ok (batch_size q)))
   | JBatch (m # ms) \<Rightarrow> (s\<lparr>in_sequence := in_sequence s + 1\<rparr>, JPut (stamp (in_sequence s) m) ms)
   | JPut m ms \<Rightarrow> ((enqueue i m s)\<lparr>in_reserved := in_reserved s - 1\<rparr>, JBatch ms)
   | JDone r \<Rightarrow> (s, j))"

text \<open>The \<open>recv\<close> loop, one turn at a time. \<open>timed_out\<close> says whether a wait for the first message ends now without one.\<close>

definition recv_begin :: "bool \<Rightarrow> nat \<Rightarrow> 'p ingest \<Rightarrow> 'p ingest" where
  "recv_begin listens max_n s =
     (if in_rx s \<noteq> None then s
      else if in_closed s then s\<lparr>in_results := in_results s @ [Err TeClosed]\<rparr>
      else if \<not> listens then s\<lparr>in_results := in_results s @ [Err (TeConfig ''no listen address configured for receiving'')]\<rparr>
      else s\<lparr>in_rx := Some (max_n, [])\<rparr>)"

definition recv_return :: "('p, 'j, 'c) filter_lib \<Rightarrow> push_token message list \<Rightarrow> 'p ingest \<Rightarrow> 'p ingest" where
  "recv_return lib got s = s\<lparr>in_rx := None, in_results := in_results s @ [Ok (collapse lib (in_filters s) got)],
     in_delivered := in_delivered s @ got\<rparr>"

definition recv_fail :: "push_token message list \<Rightarrow> 'p ingest \<Rightarrow> 'p ingest" where
  "recv_fail got s = s\<lparr>in_rx := None, in_results := in_results s @ [Err TeClosed], in_lost := in_lost s @ got\<rparr>"

definition recv_poll :: "('p, 'j, 'c) filter_lib \<Rightarrow> bool \<Rightarrow> 'p ingest \<Rightarrow> 'p ingest" where
  "recv_poll lib timed_out s = (case in_rx s of
     None \<Rightarrow> s
   | Some (0, got) \<Rightarrow> recv_return lib got s
   | Some (Suc n, got) \<Rightarrow> (case in_queue s of
       m # q \<Rightarrow> s\<lparr>in_queue := q, in_popped := in_popped s @ [m], in_rx := Some (n, got @ [m])\<rparr>
     | [] \<Rightarrow>
         if in_recv_timeout_ms s = 0 then (if in_serving s then recv_return lib got s else recv_fail got s)
         else if got = [] then
           (if \<not> in_serving s then recv_fail got s else if timed_out then recv_return lib got s else s)
         else recv_return lib got s))"

text \<open>\<open>close\<close> fires the shutdown signal once. The server then ends after the handlers that are running (it may also end by
  itself), and with it the senders of the channel are dropped.\<close>

definition push_close :: "'p ingest \<Rightarrow> 'p ingest" where
  "push_close s = s\<lparr>in_closed := True, in_shutdown := True\<rparr>"

definition push_is_healthy :: "'p ingest \<Rightarrow> bool" where
  "push_is_healthy s \<longleftrightarrow> \<not> in_closed s"

definition job_done :: "job \<Rightarrow> bool" where
  "job_done j = (case j of JDone _ \<Rightarrow> True | _ \<Rightarrow> False)"

definition push_drop :: "'p ingest \<Rightarrow> 'p ingest" where
  "push_drop s = s\<lparr>in_shutdown := True, in_receiver := False\<rparr>"

datatype ingest_op = IoRequest bool request | IoStep nat | IoRecv nat | IoPoll bool | IoClose | IoServerEnds | IoDrop

definition ingest_step :: "('p, 'j, 'c) filter_lib \<Rightarrow> ingest_op \<Rightarrow> 'p ingest \<Rightarrow> 'p ingest" where
  "ingest_step lib x s = (case x of
     IoRequest hold q \<Rightarrow>
       (if in_serving s then (case handler_begin hold q s of (s', j) \<Rightarrow> s'\<lparr>in_jobs := in_jobs s @ [(q, j)]\<rparr>) else s)
   | IoStep i \<Rightarrow>
       (if i < length (in_jobs s) then (case in_jobs s ! i of (q, j) \<Rightarrow> (case handler_step i q j s of (s', j') \<Rightarrow>
          s'\<lparr>in_jobs := (in_jobs s)[i := (q, j')]\<rparr>)) else s)
   | IoRecv n \<Rightarrow> if in_receiver s then recv_begin True n s else s
   | IoPoll b \<Rightarrow> if in_receiver s then recv_poll lib b s else s
   | IoClose \<Rightarrow> push_close s
   | IoServerEnds \<Rightarrow> if list_all (job_done \<circ> snd) (in_jobs s) then s\<lparr>in_serving := False\<rparr> else s
   | IoDrop \<Rightarrow> if in_rx s = None then push_drop s else s)"

definition ingest_run :: "('p, 'j, 'c) filter_lib \<Rightarrow> ingest_op list \<Rightarrow> 'p ingest \<Rightarrow> 'p ingest" where
  "ingest_run lib xs s = fold (ingest_step lib) xs s"


section \<open>Configuration and construction\<close>

record grpc_config =
  gc_listen :: "string option"
  gc_endpoint :: "string option"
  gc_recv_buffer_size :: nat
  gc_recv_timeout_ms :: u64
  gc_send_timeout_ms :: u64
  gc_max_message_size :: nat
  gc_compression :: bool
  gc_tls_enabled :: bool
  gc_tls_ca_path :: "string option"
  gc_tls_domain :: "string option"
  gc_tls_client_cert_path :: "string option"
  gc_tls_client_key_path :: "string option"
  gc_vector_compat :: bool
  gc_filters_in :: "filter_rule list"
  gc_filters_out :: "filter_rule list"

definition grpc_config_default :: grpc_config where
  "grpc_config_default = \<lparr>gc_listen = None, gc_endpoint = None, gc_recv_buffer_size = 10000, gc_recv_timeout_ms = 100,
     gc_send_timeout_ms = 30000, gc_max_message_size = 16 * 1024 * 1024, gc_compression = False, gc_tls_enabled = False,
     gc_tls_ca_path = None, gc_tls_domain = None, gc_tls_client_cert_path = None, gc_tls_client_key_path = None,
     gc_vector_compat = False, gc_filters_in = [], gc_filters_out = []\<rparr>"

definition grpc_config_server :: "string \<Rightarrow> grpc_config" where
  "grpc_config_server l = grpc_config_default\<lparr>gc_listen := Some l\<rparr>"

definition grpc_config_client :: "string \<Rightarrow> grpc_config" where
  "grpc_config_client e = grpc_config_default\<lparr>gc_endpoint := Some e\<rparr>"

definition with_compression :: "grpc_config \<Rightarrow> grpc_config" where "with_compression c = c\<lparr>gc_compression := True\<rparr>"
definition with_max_message_size :: "nat \<Rightarrow> grpc_config \<Rightarrow> grpc_config" where "with_max_message_size n c = c\<lparr>gc_max_message_size := n\<rparr>"
definition with_vector_compat :: "grpc_config \<Rightarrow> grpc_config" where "with_vector_compat c = c\<lparr>gc_vector_compat := True\<rparr>"

record client_tls =
  ct_ca :: "bytes option"
  ct_native_roots :: bool
  ct_domain :: "string option"
  ct_identity :: "(bytes \<times> bytes) option"

text \<open>\<open>read\<close> is \<open>std::fs::read\<close>.\<close>

definition build_grpc_client_tls :: "(string \<Rightarrow> (bytes, string) result) \<Rightarrow> grpc_config \<Rightarrow> (client_tls, transport_error) result" where
  "build_grpc_client_tls read c = (case (case gc_tls_ca_path c of
        None \<Rightarrow> Ok None
      | Some ca \<Rightarrow> (case read ca of Inl e \<Rightarrow> Err (TeConfig (''gRPC TLS: cannot read ca '' @ ca @ '': '' @ e)) | Inr pem \<Rightarrow> Ok (Some pem))) of
     Inl e \<Rightarrow> Err e
   | Inr ca \<Rightarrow>
       (let tls = \<lparr>ct_ca = ca, ct_native_roots = (ca = None), ct_domain = gc_tls_domain c, ct_identity = None\<rparr> in
        case (gc_tls_client_cert_path c, gc_tls_client_key_path c) of
          (Some cert, Some keyf) \<Rightarrow> (case read cert of
              Inl e \<Rightarrow> Err (TeConfig (''gRPC TLS: cannot read client cert '' @ cert @ '': '' @ e))
            | Inr cp \<Rightarrow> (case read keyf of
                Inl e \<Rightarrow> Err (TeConfig (''gRPC TLS: cannot read client key '' @ keyf @ '': '' @ e))
              | Inr kp \<Rightarrow> Ok (tls\<lparr>ct_identity := Some (cp, kp)\<rparr>)))
        | (None, None) \<Rightarrow> Ok tls
        | _ \<Rightarrow> Err (TeConfig ''gRPC TLS: mTLS requires BOTH tls_client_cert_path and tls_client_key_path'')))"

text \<open>The client half of a transport.\<close>

record 'p push_client =
  pc_endpoint :: "string option"
  pc_closed :: bool
  pc_max_message_size :: nat
  pc_filters :: "'p filter_engine"

record 'p push_transport =
  px_client :: "'p push_client"
  px_listens :: bool
  px_ingest :: "'p ingest"

datatype new_error = NeTransport transport_error | NeFilter nat filter_error

text \<open>What the outside answers while a transport is built: the endpoint's syntax, the TLS stack or HTTP client, the listen
  address's syntax, the bind (an error names the address and the cause).\<close>

record net_env =
  ne_endpoint :: "(unit, string) result"
  ne_read :: "string \<Rightarrow> (bytes, string) result"
  ne_client :: "(unit, string) result"
  ne_listen :: "(unit, string) result"
  ne_bind :: "(unit, string) result"

definition ingest_new :: "nat \<Rightarrow> u64 \<Rightarrow> 'p filter_engine \<Rightarrow> bool \<Rightarrow> 'p ingest" where
  "ingest_new cap timeout eng serving = \<lparr>in_cap = cap, in_queue = [], in_reserved = 0, in_sequence = 0, in_serving = serving, in_receiver = True,
     in_closed = False, in_shutdown = False, in_recv_timeout_ms = timeout, in_filters = eng, in_jobs = [], in_rx = None,
     in_results = [], in_log = [], in_popped = [], in_delivered = [], in_lost = []\<rparr>"

text \<open>\<open>mpsc::channel(0)\<close> panics: \<open>None\<close>.\<close>

definition listen_stage :: "(string \<Rightarrow> transport_error) \<Rightarrow> string option \<Rightarrow> nat \<Rightarrow> net_env \<Rightarrow> (unit, transport_error) result option" where
  "listen_stage bind_error listen cap env = (case listen of
     None \<Rightarrow> Some (Ok ())
   | Some _ \<Rightarrow> (case ne_listen env of
       Inl e \<Rightarrow> Some (Err (TeConfig (''invalid listen address: '' @ e)))
     | Inr _ \<Rightarrow> if cap = 0 then None
         else Some (case ne_bind env of Inl e \<Rightarrow> Err (bind_error e) | Inr _ \<Rightarrow> Ok ())))"

definition filter_stage :: "('p, 'j, 'c) filter_lib \<Rightarrow> tier_config \<Rightarrow> filter_rule list \<Rightarrow> filter_rule list \<Rightarrow>
    ('p filter_engine \<Rightarrow> 'p push_transport) \<Rightarrow> ('p push_transport, new_error) result" where
  "filter_stage lib tiers fin fout mk = (case tfe_new lib fin fout tiers of Inl (i, e) \<Rightarrow> Err (NeFilter i e) | Inr eng \<Rightarrow> Ok (mk eng))"

definition grpc_new :: "('p, 'j, 'c) filter_lib \<Rightarrow> tier_config \<Rightarrow> net_env \<Rightarrow> grpc_config \<Rightarrow> ('p push_transport, new_error) result option" where
  "grpc_new lib tiers env c = (case (case gc_endpoint c of
        None \<Rightarrow> Ok ()
      | Some _ \<Rightarrow> (case ne_endpoint env of
          Inl e \<Rightarrow> Err (TeConfig (''invalid endpoint: '' @ e))
        | Inr _ \<Rightarrow> if gc_tls_enabled c then
              (case build_grpc_client_tls (ne_read env) c of
                 Inl e \<Rightarrow> Err e
               | Inr _ \<Rightarrow> (case ne_client env of Inl e \<Rightarrow> Err (TeConfig (''gRPC TLS config: '' @ e)) | Inr _ \<Rightarrow> Ok ()))
            else Ok ())) of
     Inl e \<Rightarrow> Some (Err (NeTransport e))
   | Inr _ \<Rightarrow> (case listen_stage (\<lambda>e. TeConfig (''failed to bind '' @ e)) (gc_listen c) (gc_recv_buffer_size c) env of
       None \<Rightarrow> None
     | Some (Inl e) \<Rightarrow> Some (Err (NeTransport e))
     | Some (Inr _) \<Rightarrow> Some (filter_stage lib tiers (gc_filters_in c) (gc_filters_out c) (\<lambda>eng.
         \<lparr>px_client = \<lparr>pc_endpoint = gc_endpoint c, pc_closed = False, pc_max_message_size = gc_max_message_size c, pc_filters = eng\<rparr>,
          px_listens = (gc_listen c \<noteq> None),
          px_ingest = ingest_new (gc_recv_buffer_size c) (gc_recv_timeout_ms c) eng (gc_listen c \<noteq> None)\<rparr>))))"

record http_config =
  hc_endpoint :: "string option"
  hc_listen :: "string option"
  hc_recv_path :: string
  hc_recv_buffer_size :: nat
  hc_recv_timeout_ms :: u64
  hc_filters_in :: "filter_rule list"
  hc_filters_out :: "filter_rule list"
  hc_connect_timeout_ms :: u64
  hc_send_timeout_ms :: u64
  hc_max_body_bytes :: nat
  hc_tls_ca_path :: "string option"

definition http_config_default :: http_config where
  "http_config_default = \<lparr>hc_endpoint = None, hc_listen = None, hc_recv_path = ''/ingest'', hc_recv_buffer_size = 10000,
     hc_recv_timeout_ms = 100, hc_filters_in = [], hc_filters_out = [], hc_connect_timeout_ms = 5000, hc_send_timeout_ms = 30000,
     hc_max_body_bytes = 16 * 1024 * 1024, hc_tls_ca_path = None\<rparr>"

definition http_config_sender :: "string \<Rightarrow> http_config" where
  "http_config_sender e = http_config_default\<lparr>hc_endpoint := Some e\<rparr>"

definition http_config_receiver :: "string \<Rightarrow> http_config" where
  "http_config_receiver l = http_config_default\<lparr>hc_listen := Some l\<rparr>"

text \<open>\<open>ne_read\<close> answers for the private CA that \<open>build_client_config\<close> loads.\<close>

definition http_new :: "('p, 'j, 'c) filter_lib \<Rightarrow> tier_config \<Rightarrow> net_env \<Rightarrow> http_config \<Rightarrow> ('p push_transport, new_error) result option" where
  "http_new lib tiers env c = (case (case hc_endpoint c of
        None \<Rightarrow> Ok ()
      | Some _ \<Rightarrow> (case (case hc_tls_ca_path c of None \<Rightarrow> Ok [] | Some ca \<Rightarrow> ne_read env ca) of
          Inl e \<Rightarrow> Err (TeConfig (''HTTP client TLS: '' @ e))
        | Inr _ \<Rightarrow> (case ne_client env of Inl e \<Rightarrow> Err (TeConfig (''failed to create HTTP client: '' @ e)) | Inr _ \<Rightarrow> Ok ()))) of
     Inl e \<Rightarrow> Some (Err (NeTransport e))
   | Inr _ \<Rightarrow> (case listen_stage (\<lambda>e. TeConnection (''failed to bind to '' @ e)) (hc_listen c) (hc_recv_buffer_size c) env of
       None \<Rightarrow> None
     | Some (Inl e) \<Rightarrow> Some (Err (NeTransport e))
     | Some (Inr _) \<Rightarrow> Some (filter_stage lib tiers (hc_filters_in c) (hc_filters_out c) (\<lambda>eng.
         \<lparr>px_client = \<lparr>pc_endpoint = hc_endpoint c, pc_closed = False, pc_max_message_size = 0, pc_filters = eng\<rparr>,
          px_listens = (hc_listen c \<noteq> None),
          px_ingest = ingest_new (hc_recv_buffer_size c) (hc_recv_timeout_ms c) eng (hc_listen c \<noteq> None)\<rparr>))))"


section \<open>Sending\<close>

datatype grpc_code = Cancelled | Unknown | InvalidArgument | DeadlineExceeded | NotFound | AlreadyExists | PermissionDenied
  | ResourceExhausted | FailedPrecondition | Aborted | OutOfRange | Unimplemented | Internal | Unavailable | DataLoss | Unauthenticated

text \<open>What an RPC comes back with: the accepted count or a status.\<close>

type_synonym rpc_reply = "(u64, grpc_code \<times> string) result"

fun grpc_status :: "refusal \<Rightarrow> grpc_code \<times> string" where
  "grpc_status Held = (Unavailable, ''under pressure -- inbound held'')"
| "grpc_status Full = (ResourceExhausted, ''receiver buffer full'')"
| "grpc_status Gone = (Unavailable, ''receiver closed'')"
| "grpc_status EmptyBody = (InvalidArgument, '''')"

definition grpc_reply :: "(nat, refusal) result \<Rightarrow> rpc_reply" where
  "grpc_reply r = (case r of Inl e \<Rightarrow> Err (grpc_status e) | Inr n \<Rightarrow> Ok (of_nat n))"

definition client_disp :: "('p, 'j, 'c) filter_lib \<Rightarrow> 'p push_client \<Rightarrow> bytes \<Rightarrow> filter_disposition" where
  "client_disp lib c p = (if filters_out (pc_filters c) \<noteq> [] then apply_outbound lib (pc_filters c) p else DispPass)"

definition push_status :: "grpc_code \<times> string \<Rightarrow> transport_error send_result" where
  "push_status st = (if fst st \<in> {Unavailable, ResourceExhausted, DeadlineExceeded} then Backpressured else SendFatal (TeSend (snd st)))"

definition push_request_of :: "string option \<Rightarrow> string \<Rightarrow> bytes \<Rightarrow> push_request" where
  "push_request_of trace k p = \<lparr>pq_payload = p, pq_format = format_number PfAuto,
     pq_metadata = (if k \<noteq> '''' then [(''topic'', k)] else []) @ (case trace of None \<Rightarrow> [] | Some tp \<Rightarrow> [(''traceparent'', tp)])\<rparr>"

text \<open>A send in two halves: what goes on the wire, if anything does, and what the answer means.\<close>

definition grpc_send_request :: "('p, 'j, 'c) filter_lib \<Rightarrow> string option \<Rightarrow> 'p push_client \<Rightarrow> string \<Rightarrow> bytes \<Rightarrow> transport_error send_result + push_request" where
  "grpc_send_request lib trace c k p =
     (if pc_closed c then Inl (SendFatal TeClosed)
      else case client_disp lib c p of
        DispDrop \<Rightarrow> Inl SendOk
      | DispDlq \<Rightarrow> Inl FilteredDlq
      | DispPass \<Rightarrow> (case pc_endpoint c of
          None \<Rightarrow> Inl (SendFatal (TeConfig ''no endpoint configured for sending''))
        | Some _ \<Rightarrow> Inr (push_request_of trace k p)))"

definition grpc_send :: "('p, 'j, 'c) filter_lib \<Rightarrow> string option \<Rightarrow> (push_request \<Rightarrow> rpc_reply) \<Rightarrow> 'p push_client \<Rightarrow> string \<Rightarrow> bytes \<Rightarrow> transport_error send_result" where
  "grpc_send lib trace rpc c k p = (case grpc_send_request lib trace c k p of
     Inl r \<Rightarrow> r
   | Inr q \<Rightarrow> (case rpc q of Inr _ \<Rightarrow> SendOk | Inl st \<Rightarrow> push_status st))"

definition oversize_error :: "(nat \<Rightarrow> string) \<Rightarrow> nat \<Rightarrow> nat \<Rightarrow> transport_error" where
  "oversize_error show_nat n limit = TeConfig (''gRPC batch payload '' @ show_nat n @ '' bytes exceeds max_message_size '' @ show_nat limit
     @ '' -- lower the self-regulation byte budget below the gRPC limit'')"

definition grpc_batch_request :: "('p, 'j, 'c) filter_lib \<Rightarrow> (nat \<Rightarrow> string) \<Rightarrow> 'p push_client \<Rightarrow> wrecord list \<Rightarrow>
    transport_error send_result + proto_record list" where
  "grpc_batch_request lib show_nat c rs =
     (if pc_closed c then Inl (SendFatal TeClosed)
      else case pc_endpoint c of
        None \<Rightarrow> Inl (SendFatal (TeConfig ''no endpoint configured for sending''))
      | Some _ \<Rightarrow>
          (let keep = (if filters_out (pc_filters c) \<noteq> [] then filter (\<lambda>r. apply_outbound lib (pc_filters c) (payload r) = DispPass) rs else rs);
               total_bytes = sum_list (map (length \<circ> payload) keep)
           in if keep = [] then Inl SendOk
              else if pc_max_message_size c < total_bytes then Inl (SendFatal (oversize_error show_nat total_bytes (pc_max_message_size c)))
              else Inr (records_to_proto keep)))"

definition batch_result :: "nat \<Rightarrow> rpc_reply \<Rightarrow> transport_error send_result" where
  "batch_result sent r = (case r of
     Inr n \<Rightarrow> if n < of_nat sent then Backpressured else SendOk
   | Inl st \<Rightarrow> push_status st)"

definition grpc_send_batch :: "('p, 'j, 'c) filter_lib \<Rightarrow> (nat \<Rightarrow> string) \<Rightarrow> (proto_record list \<Rightarrow> rpc_reply) \<Rightarrow> 'p push_client \<Rightarrow> wrecord list \<Rightarrow> transport_error send_result" where
  "grpc_send_batch lib show_nat rpc c rs = (case grpc_batch_request lib show_nat c rs of
     Inl r \<Rightarrow> r
   | Inr b \<Rightarrow> batch_result (length b) (rpc b))"

definition trim_end_slash :: "string \<Rightarrow> string" where
  "trim_end_slash s = rev (dropWhile (\<lambda>c. c = CHR ''/'') (rev s))"

definition trim_start_slash :: "string \<Rightarrow> string" where
  "trim_start_slash s = dropWhile (\<lambda>c. c = CHR ''/'') s"

definition send_url :: "string \<Rightarrow> string \<Rightarrow> string" where
  "send_url base k = (if k = '''' then base else trim_end_slash base @ ''/'' @ trim_start_slash k)"

fun http_status :: "(nat, refusal) result \<Rightarrow> nat" where
  "http_status (Inr n) = 200"
| "http_status (Inl Held) = 503"
| "http_status (Inl Full) = 503"
| "http_status (Inl Gone) = 410"
| "http_status (Inl EmptyBody) = 400"

definition http_result :: "(nat \<Rightarrow> string) \<Rightarrow> string \<Rightarrow> (nat, string) result \<Rightarrow> transport_error send_result" where
  "http_result show_nat url r = (case r of
     Inr st \<Rightarrow> if 200 \<le> st \<and> st < 300 then SendOk
       else if st = 429 \<or> st = 503 then Backpressured
       else SendFatal (TeSend (''HTTP '' @ show_nat st @ '' from '' @ url))
   | Inl e \<Rightarrow> SendFatal (TeSend (''HTTP request failed: '' @ e)))"

definition http_send_request :: "('p, 'j, 'c) filter_lib \<Rightarrow> 'p push_client \<Rightarrow> string \<Rightarrow> bytes \<Rightarrow> transport_error send_result + string \<times> bytes" where
  "http_send_request lib c k p =
     (if pc_closed c then Inl (SendFatal TeClosed)
      else case client_disp lib c p of
        DispDrop \<Rightarrow> Inl SendOk
      | DispDlq \<Rightarrow> Inl FilteredDlq
      | DispPass \<Rightarrow> (case pc_endpoint c of
          None \<Rightarrow> Inl (SendFatal (TeConfig ''no endpoint configured for sending''))
        | Some base \<Rightarrow> Inr (send_url base k, p)))"

definition http_send :: "('p, 'j, 'c) filter_lib \<Rightarrow> (nat \<Rightarrow> string) \<Rightarrow> (string \<Rightarrow> bytes \<Rightarrow> (nat, string) result) \<Rightarrow> 'p push_client \<Rightarrow> string \<Rightarrow> bytes \<Rightarrow> transport_error send_result" where
  "http_send lib show_nat post c k p = (case http_send_request lib c k p of
     Inl r \<Rightarrow> r
   | Inr (url, body) \<Rightarrow> http_result show_nat url (post url body))"

text \<open>Both commits do nothing.\<close>

definition push_commit :: "push_token list \<Rightarrow> 'p ingest \<Rightarrow> 'p ingest \<times> (unit, transport_error) result" where
  "push_commit ts s = (s, Ok ())"


section \<open>The wire keeps a record\<close>

lemma format_roundtrip: "format_from_proto (format_number (format_to_proto f)) = f"
  by (cases f) (simp_all add: format_from_proto_def format_of_number_def)

definition wire_record :: "wrecord \<Rightarrow> wrecord" where
  "wire_record r = (if key r = Some '''' then r\<lparr>key := None\<rparr> else r)"

lemma record_roundtrip: "record_from_proto (record_to_proto r) = wire_record r"
  by (cases "key r"; cases "timestamp_ms (metadata r)")
    (simp_all add: record_from_proto_def record_to_proto_def wire_record_def format_roundtrip)

lemma batch_roundtrip: "proto_batch_to_records (records_to_proto rs) = map wire_record rs"
  by (simp add: proto_batch_to_records_def records_to_proto_def record_roundtrip)

section \<open>What a handler contributes\<close>

definition contrib :: "request \<Rightarrow> push_token message list" where
  "contrib q = (case q of
     RqPush r \<Rightarrow> [push_message r]
   | RqBatch b \<Rightarrow> map batch_message (proto_batch_to_records b)
   | RqIngest addr body now \<Rightarrow> [http_message addr body now])"

definition of_job :: "nat \<Rightarrow> (nat \<times> push_token message) list \<Rightarrow> push_token message list" where
  "of_job i log = map (stamp 0 \<circ> snd) (filter (\<lambda>e. fst e = i) log)"

fun job_ok :: "request \<Rightarrow> job \<Rightarrow> push_token message list \<Rightarrow> bool" where
  "job_ok q (JSend m) ms \<longleftrightarrow> ms = [] \<and> contrib q = [stamp 0 m]"
| "job_ok q (JBatch rest) ms \<longleftrightarrow> contrib q = ms @ rest \<and> batch_size q = length (contrib q)"
| "job_ok q (JPut m rest) ms \<longleftrightarrow> contrib q = ms @ stamp 0 m # rest \<and> batch_size q = length (contrib q)"
| "job_ok q (JDone (Inr n)) ms \<longleftrightarrow> ms = contrib q \<and> n = length (contrib q)"
| "job_ok q (JDone (Inl e)) ms \<longleftrightarrow> ms = [] \<and> (e = EmptyBody \<longrightarrow> (\<exists>addr now. q = RqIngest addr [] now))"

fun permits :: "job \<Rightarrow> nat" where
  "permits (JBatch rest) = length rest"
| "permits (JPut m rest) = Suc (length rest)"
| "permits j = 0"

definition got :: "'p ingest \<Rightarrow> push_token message list" where
  "got s = (case in_rx s of None \<Rightarrow> [] | Some (n, ms) \<Rightarrow> ms)"

definition result_tokens :: "'p ingest \<Rightarrow> push_token list" where
  "result_tokens s = concat (map (\<lambda>r. case r of Inl _ \<Rightarrow> [] | Inr b \<Rightarrow> commit_tokens b) (in_results s))"

definition jobs_inv :: "'p ingest \<Rightarrow> bool" where
  "jobs_inv s \<longleftrightarrow> in_reserved s = sum_list (map (permits \<circ> snd) (in_jobs s)) \<and> length (in_queue s) + in_reserved s \<le> in_cap s
     \<and> (\<forall>e\<in>set (in_log s). fst e < length (in_jobs s))
     \<and> (\<forall>i<length (in_jobs s). job_ok (fst (in_jobs s ! i)) (snd (in_jobs s ! i)) (of_job i (in_log s)))"

definition recv_inv :: "'p ingest \<Rightarrow> bool" where
  "recv_inv s \<longleftrightarrow> map snd (in_log s) = in_popped s @ in_queue s
     \<and> (if in_lost s = [] then in_popped s = in_delivered s @ got s else in_recv_timeout_ms s = 0 \<and> \<not> in_serving s)
     \<and> mset (in_popped s) = mset (in_delivered s) + mset (in_lost s) + mset (got s)
     \<and> mset (result_tokens s) = mset (map msg_token (in_delivered s))"

lemma stamp_stamp [simp]: "stamp a (stamp b m) = stamp a m"
  by (simp add: stamp_def)

lemma stamp_contrib: "m \<in> set (contrib q) \<Longrightarrow> stamp 0 m = m"
  by (auto simp: contrib_def stamp_def push_message_def batch_message_def http_message_def grpc_token_new_def
      http_token_with_source_def split: request.splits)

lemma seq_stamp [simp]: "pt_seq (msg_token (stamp n m)) = n"
  by (simp add: stamp_def)

lemma of_job_snoc [simp]: "of_job i (log @ [(k, m)]) = (if k = i then of_job i log @ [stamp 0 m] else of_job i log)"
  by (simp add: of_job_def)

lemma of_job_fresh: "\<forall>e\<in>set log. fst e < n \<Longrightarrow> of_job n log = []"
  by (auto simp: of_job_def filter_empty_conv)

lemma batch_size_contrib: "batch_size q = length (contrib q)"
  by (cases q) (simp_all add: batch_size_def contrib_def)

lemma handler_begin_ok:
  assumes "handler_begin hold q s = (s', j)"
  shows "job_ok q j [] \<and> in_queue s' = in_queue s \<and> in_log s' = in_log s \<and> in_jobs s' = in_jobs s \<and> in_cap s' = in_cap s
    \<and> in_reserved s' = in_reserved s + permits j \<and> (permits j \<noteq> 0 \<longrightarrow> permits j \<le> free_permits s)"
  using assms by (cases q)
    (auto simp: handler_begin_def push_begin_def ingest_begin_def route_batch_begin_def number_and_def Let_def contrib_def
      batch_size_contrib stamp_def push_message_def http_message_def grpc_token_new_def http_token_with_source_def split: if_splits)

text \<open>A handler's operation moves one of its messages to the end of the log, or none.\<close>

lemma handler_step_ok:
  assumes "handler_step i q j s = (s', j')" and "job_ok q j (of_job i (in_log s))"
  shows "job_ok q j' (of_job i (in_log s')) \<and> in_jobs s' = in_jobs s \<and> in_cap s' = in_cap s
    \<and> (in_log s' = in_log s \<and> in_queue s' = in_queue s \<or> (\<exists>m. in_log s' = in_log s @ [(i, m)] \<and> in_queue s' = in_queue s @ [m]))
    \<and> (permits j \<le> in_reserved s \<longrightarrow> length (in_queue s) + in_reserved s \<le> in_cap s \<longrightarrow>
         length (in_queue s') + in_reserved s' \<le> in_cap s \<and> in_reserved s' + permits j = in_reserved s + permits j')"
proof (cases j)
  case (JSend m)
  with assms show ?thesis by (auto simp: handler_step_def enqueue_def free_permits_def split: if_splits)
next
  case (JBatch rest)
  show ?thesis
  proof (cases rest)
    case (Cons m ms)
    with assms JBatch have "stamp 0 m = m" by (intro stamp_contrib[of m q]) simp
    with assms JBatch Cons show ?thesis by (auto simp: handler_step_def)
  qed (use assms JBatch in \<open>auto simp: handler_step_def\<close>)
next
  case (JPut m rest)
  with assms show ?thesis by (auto simp: handler_step_def enqueue_def)
next
  case (JDone r)
  with assms show ?thesis by (auto simp: handler_step_def)
qed


lemma jobs_inv_begin:
  assumes "jobs_inv s" and "handler_begin hold q s = (s', j)"
  shows "jobs_inv (s'\<lparr>in_jobs := in_jobs s @ [(q, j)]\<rparr>)"
proof -
  note b = handler_begin_ok[OF assms(2)]
  have "of_job (length (in_jobs s)) (in_log s) = []" using assms(1) by (intro of_job_fresh) (simp add: jobs_inv_def)
  moreover have "length (in_queue s') + in_reserved s' \<le> in_cap s'" using assms(1) b by (auto simp: jobs_inv_def free_permits_def)
  ultimately show ?thesis using assms(1) b by (auto simp: jobs_inv_def nth_append less_Suc_eq)
qed

lemma sum_list_nth_le: "i < length xs \<Longrightarrow> f (xs ! i) \<le> sum_list (map f xs)"
  for f :: "'a \<Rightarrow> nat"
  by (induction xs arbitrary: i) (auto simp: nth_Cons split: nat.splits intro: trans_le_add2)

lemma sum_list_set: "i < length xs \<Longrightarrow> sum_list (map f (xs[i := y])) + f (xs ! i) = sum_list (map f xs) + f y"
  for f :: "'a \<Rightarrow> nat"
  by (induction xs arbitrary: i) (auto simp: nth_Cons split: nat.splits)

lemma jobs_inv_handler:
  assumes "jobs_inv s" and "i < length (in_jobs s)" and "in_jobs s ! i = (q, j)" and "handler_step i q j s = (s', j')"
  shows "jobs_inv (s'\<lparr>in_jobs := (in_jobs s)[i := (q, j')]\<rparr>)"
proof -
  have jo: "job_ok q j (of_job i (in_log s))" using assms(1-3) unfolding jobs_inv_def by (metis fst_conv snd_conv)
  note h = handler_step_ok[OF assms(4) jo]
  have p: "permits j \<le> in_reserved s" using assms(1) sum_list_nth_le[OF assms(2), of "permits \<circ> snd"] assms(3) by (simp add: jobs_inv_def)
  with h assms(1) have c: "length (in_queue s') + in_reserved s' \<le> in_cap s'" "in_reserved s' + permits j = in_reserved s + permits j'"
    by (auto simp: jobs_inv_def)
  have "in_reserved s' = sum_list (map (permits \<circ> snd) ((in_jobs s)[i := (q, j')]))"
    using sum_list_set[OF assms(2), of "permits \<circ> snd" "(q, j')"] assms(1,3) c(2) by (simp add: jobs_inv_def)
  moreover have "of_job k (in_log s') = of_job k (in_log s)" if "k \<noteq> i" for k using h that by auto
  then have "job_ok (fst ((in_jobs s)[i := (q, j')] ! k)) (snd ((in_jobs s)[i := (q, j')] ! k)) (of_job k (in_log s'))"
    if "k < length (in_jobs s)" for k using that assms(1,2) h by (cases "k = i") (auto simp: jobs_inv_def)
  moreover have "\<forall>e\<in>set (in_log s'). fst e < length (in_jobs s)" using assms(1,2) h by (auto simp: jobs_inv_def)
  ultimately show ?thesis using c(1) by (simp add: jobs_inv_def)
qed

lemma jobs_inv_recv: "jobs_inv s \<Longrightarrow> jobs_inv (recv_begin b n s)" "jobs_inv s \<Longrightarrow> jobs_inv (recv_poll lib d s)"
  by (auto simp: jobs_inv_def recv_begin_def recv_poll_def recv_return_def recv_fail_def split: option.split prod.split nat.split list.split)

lemma jobs_inv_frame:
  "jobs_inv s \<Longrightarrow> in_reserved s' = in_reserved s \<Longrightarrow> in_jobs s' = in_jobs s \<Longrightarrow> in_queue s' = in_queue s \<Longrightarrow> in_cap s' = in_cap s
     \<Longrightarrow> in_log s' = in_log s \<Longrightarrow> jobs_inv s'"
  by (simp add: jobs_inv_def)

lemma jobs_inv_step:
  assumes "jobs_inv s"
  shows "jobs_inv (ingest_step lib x s)"
proof (cases x)
  case (IoRequest hold q)
  then show ?thesis using assms jobs_inv_begin[OF assms] by (simp add: ingest_step_def split: prod.split)
next
  case (IoStep i)
  then show ?thesis using assms jobs_inv_handler[OF assms] by (simp add: ingest_step_def split: prod.split)
qed (use assms jobs_inv_recv[OF assms] in \<open>auto simp: ingest_step_def push_close_def push_drop_def intro: jobs_inv_frame[OF assms]\<close>)

text \<open>The ledger of the receiver.\<close>

lemma handler_log:
  "handler_begin hold q s = (s', j) \<Longrightarrow> in_log s' = in_log s \<and> in_queue s' = in_queue s"
  "handler_step i q j s = (s', j') \<Longrightarrow> (in_log s' = in_log s \<and> in_queue s' = in_queue s) \<or> (\<exists>m. in_log s' = in_log s @ [(i, m)] \<and> in_queue s' = in_queue s @ [m])"
  using handler_begin_ok[of hold q s s' j] by (auto simp: handler_step_def enqueue_def split: job.splits if_splits list.splits)

lemma handler_frame:
  "handler_begin hold q s = (s', j) \<Longrightarrow> in_popped s' = in_popped s \<and> in_delivered s' = in_delivered s \<and> in_lost s' = in_lost s
     \<and> in_rx s' = in_rx s \<and> in_results s' = in_results s \<and> in_recv_timeout_ms s' = in_recv_timeout_ms s \<and> in_serving s' = in_serving s"
  "handler_step i q k s = (s', j) \<Longrightarrow> in_popped s' = in_popped s \<and> in_delivered s' = in_delivered s \<and> in_lost s' = in_lost s
     \<and> in_rx s' = in_rx s \<and> in_results s' = in_results s \<and> in_recv_timeout_ms s' = in_recv_timeout_ms s \<and> in_serving s' = in_serving s"
  by (auto simp: handler_begin_def push_begin_def ingest_begin_def route_batch_begin_def number_and_def handler_step_def enqueue_def Let_def
      split: request.splits job.splits if_splits list.splits)

lemma recv_inv_frame:
  assumes "recv_inv s" and "in_popped s' = in_popped s" "in_delivered s' = in_delivered s" "in_lost s' = in_lost s" "in_rx s' = in_rx s"
    "in_results s' = in_results s" "in_recv_timeout_ms s' = in_recv_timeout_ms s" "in_serving s' \<longrightarrow> in_serving s"
    and "(in_log s' = in_log s \<and> in_queue s' = in_queue s) \<or> (\<exists>i m. in_log s' = in_log s @ [(i, m)] \<and> in_queue s' = in_queue s @ [m])"
  shows "recv_inv s'"
  using assms by (auto simp: recv_inv_def got_def result_tokens_def)

lemma recv_inv_poll:
  assumes "recv_inv s"
  shows "recv_inv (recv_poll lib d s)"
proof (cases "in_rx s")
  case (Some r)
  obtain k ms where r: "r = (k, ms)" by (cases r)
  have g: "got s = ms" using Some r by (simp add: got_def)
  have ret: "recv_inv (recv_return lib ms s)" using assms g collapse_tokens[of lib "in_filters s" ms]
    by (auto simp: recv_inv_def recv_return_def result_tokens_def got_def)
  have fail: "recv_inv (recv_fail ms s)" if "\<not> in_serving s" "ms = [] \<or> in_recv_timeout_ms s = 0"
    using assms g that by (auto simp: recv_inv_def recv_fail_def result_tokens_def got_def)
  have pop: "recv_inv (s\<lparr>in_queue := q, in_popped := in_popped s @ [m], in_rx := Some (n, ms @ [m])\<rparr>)" if "in_queue s = m # q" for m q n
    using assms g that by (auto simp: recv_inv_def result_tokens_def got_def)
  show ?thesis using Some r ret fail pop assms by (auto simp: recv_poll_def split: nat.split list.split)
qed (use assms in \<open>simp add: recv_poll_def\<close>)

lemma recv_inv_begin: "recv_inv s \<Longrightarrow> recv_inv (recv_begin b n s)"
  by (cases "in_rx s") (auto simp: recv_inv_def recv_begin_def result_tokens_def got_def)

lemma recv_inv_step:
  assumes "recv_inv s"
  shows "recv_inv (ingest_step lib x s)"
proof (cases x)
  case (IoRequest hold q)
  obtain s' j where h: "handler_begin hold q s = (s', j)" by (cases "handler_begin hold q s")
  with IoRequest assms handler_log(1)[OF h] handler_frame(1)[OF h] show ?thesis
    by (auto simp: ingest_step_def intro: recv_inv_frame[OF assms])
next
  case (IoStep i)
  obtain q j where j: "in_jobs s ! i = (q, j)" by (cases "in_jobs s ! i")
  obtain s' j' where h: "handler_step i q j s = (s', j')" by (cases "handler_step i q j s")
  have "recv_inv (s'\<lparr>in_jobs := js\<rparr>)" for js
    by (rule recv_inv_frame[OF assms]) (use handler_frame(2)[OF h] handler_log(2)[OF h] in auto)
  with IoStep j h assms show ?thesis by (simp add: ingest_step_def)
next
  case IoServerEnds
  with assms show ?thesis by (auto simp: ingest_step_def intro: recv_inv_frame[OF assms])
qed (use assms recv_inv_begin recv_inv_poll in \<open>auto simp: ingest_step_def push_close_def push_drop_def intro: recv_inv_frame[OF assms]\<close>)


section \<open>Sequence numbers\<close>

abbreviation seq_of :: "push_token message \<Rightarrow> u64" where "seq_of m \<equiv> pt_seq (msg_token m)"

fun held :: "job \<Rightarrow> u64 list" where
  "held (JSend m) = [seq_of m]"
| "held (JPut m rest) = [seq_of m]"
| "held j = []"

definition nums :: "'p ingest \<Rightarrow> u64 multiset" where
  "nums s = mset (map (seq_of \<circ> snd) (in_log s)) + mset (concat (map (held \<circ> snd) (in_jobs s)))"

definition num_step :: "'p ingest \<Rightarrow> 'p ingest \<Rightarrow> bool" where
  "num_step s s' \<longleftrightarrow> (in_sequence s' = in_sequence s \<and> nums s' \<subseteq># nums s)
     \<or> (in_sequence s' = in_sequence s + 1 \<and> nums s' \<subseteq># add_mset (in_sequence s) (nums s))"

lemma concat_set: "i < length xs \<Longrightarrow> mset (concat (map f (xs[i := y]))) + mset (f (xs ! i)) = mset (concat (map f xs)) + mset (f y)"
proof (induction xs arbitrary: i)
  case (Cons x xs)
  show ?case
  proof (cases i)
    case (Suc k)
    with Cons.IH[of k] Cons.prems show ?thesis by (simp add: add.assoc)
  qed (simp add: add.assoc add.commute add.left_commute)
qed simp

lemma num_begin:
  assumes "handler_begin hold q s = (s', j)"
  shows "num_step s (s'\<lparr>in_jobs := in_jobs s @ [(q, j)]\<rparr>)"
  using assms by (cases q) (auto simp: num_step_def nums_def handler_begin_def push_begin_def ingest_begin_def route_batch_begin_def
      number_and_def Let_def split: if_splits)

lemma handler_step_nums:
  assumes "handler_step i q j s = (s', j')"
  shows "(in_sequence s' = in_sequence s \<and> mset (map (seq_of \<circ> snd) (in_log s')) + mset (held j') \<subseteq># mset (map (seq_of \<circ> snd) (in_log s)) + mset (held j))
    \<or> (in_sequence s' = in_sequence s + 1 \<and> in_log s' = in_log s \<and> held j' = [in_sequence s] \<and> held j = [])"
  using assms by (cases j) (auto simp: handler_step_def enqueue_def split: if_splits list.splits)

lemma num_handler:
  assumes "i < length (in_jobs s)" and "in_jobs s ! i = (q, j)" and "handler_step i q j s = (s', j')"
  shows "num_step s (s'\<lparr>in_jobs := (in_jobs s)[i := (q, j')]\<rparr>)"
proof -
  let ?L = "\<lambda>s. mset (map (seq_of \<circ> snd) (in_log s))" and ?J = "mset (concat (map (held \<circ> snd) (in_jobs s)))"
    and ?J' = "mset (concat (map (held \<circ> snd) ((in_jobs s)[i := (q, j')])))"
  have c: "?J' + mset (held j) = ?J + mset (held j')" using concat_set[OF assms(1), of "held \<circ> snd" "(q, j')"] assms(2) by simp
  from handler_step_nums[OF assms(3)] show ?thesis
  proof
    assume h: "in_sequence s' = in_sequence s \<and> ?L s' + mset (held j') \<subseteq># ?L s + mset (held j)"
    have "(?L s' + ?J') + mset (held j) = (?L s' + mset (held j')) + ?J" using c by (simp add: add.assoc add.commute add.left_commute)
    also have "\<dots> \<subseteq># (?L s + mset (held j)) + ?J" using h by (intro subset_mset.add_right_mono) simp
    finally have "(?L s' + ?J') + mset (held j) \<subseteq># (?L s + ?J) + mset (held j)" by (simp add: add.assoc add.commute add.left_commute)
    then have "?L s' + ?J' \<subseteq># ?L s + ?J" by (simp only: subset_mset.add_le_cancel_right)
    with h show ?thesis by (simp add: num_step_def nums_def)
  next
    assume h: "in_sequence s' = in_sequence s + 1 \<and> in_log s' = in_log s \<and> held j' = [in_sequence s] \<and> held j = []"
    with c show ?thesis by (simp add: num_step_def nums_def)
  qed
qed

lemma num_refl: "in_sequence s' = in_sequence s \<Longrightarrow> in_log s' = in_log s \<Longrightarrow> in_jobs s' = in_jobs s \<Longrightarrow> num_step s s'"
  by (simp add: num_step_def nums_def)

lemma recv_num: "num_step s (recv_begin b n s)" "num_step s (recv_poll lib d s)"
  by (auto simp: recv_begin_def recv_poll_def recv_return_def recv_fail_def intro: num_refl split: option.split prod.split nat.split list.split)

lemma ingest_num: "num_step s (ingest_step lib x s)"
proof (cases x)
  case (IoRequest hold q)
  then show ?thesis using num_begin[of hold q s] by (auto simp: ingest_step_def intro: num_refl split: prod.split)
next
  case (IoStep i)
  then show ?thesis using num_handler[of i s] by (auto simp: ingest_step_def intro: num_refl split: prod.split)
qed (use recv_num in \<open>auto simp: ingest_step_def push_close_def push_drop_def intro: num_refl\<close>)

definition num_inv :: "nat \<Rightarrow> 'p ingest \<Rightarrow> bool" where
  "num_inv n s \<longleftrightarrow> in_sequence s = of_nat n \<and> (\<forall>x. count (nums s) x \<le> 1) \<and> set_mset (nums s) \<subseteq> of_nat ` {..<n}"

lemma num_inv_step:
  assumes "num_inv n s" and "n < 2 ^ 64" and "num_step s s'"
  shows "\<exists>n'\<le>Suc n. num_inv n' s'"
proof -
  have fresh: "(of_nat n :: u64) \<notin># nums s"
  proof
    assume "(of_nat n :: u64) \<in># nums s"
    with assms(1) obtain k where "k < n" "(of_nat n :: u64) = of_nat k" by (auto simp: num_inv_def)
    then have "unat (of_nat n :: u64) = unat (of_nat k :: u64)" by simp
    with \<open>k < n\<close> assms(2) show False by (simp add: unat_of_nat)
  qed
  from assms(3) show ?thesis unfolding num_step_def
  proof
    assume h: "in_sequence s' = in_sequence s \<and> nums s' \<subseteq># nums s"
    then have "count (nums s') x \<le> 1" for x using assms(1) mset_subset_eq_count[of "nums s'" "nums s" x] unfolding num_inv_def
      by (meson le_trans)
    with h assms(1) have "num_inv n s'" using set_mset_mono[of "nums s'" "nums s"] by (auto simp: num_inv_def)
    then show ?thesis by (intro exI[of _ n]) simp
  next
    assume h: "in_sequence s' = in_sequence s + 1 \<and> nums s' \<subseteq># add_mset (in_sequence s) (nums s)"
    have sq: "in_sequence s = of_nat n" using assms(1) by (simp add: num_inv_def)
    have "count (add_mset (in_sequence s) (nums s)) x \<le> 1" for x
      using fresh assms(1) sq by (cases "x = of_nat n") (auto simp: num_inv_def not_in_iff)
    then have "count (nums s') x \<le> 1" for x using h mset_subset_eq_count[of "nums s'" _ x] by (meson le_trans)
    moreover have "set_mset (nums s') \<subseteq> of_nat ` {..<Suc n}"
      using set_mset_mono[of "nums s'" "add_mset (in_sequence s) (nums s)"] h assms(1) sq by (auto simp: num_inv_def lessThan_Suc)
    ultimately have "num_inv (Suc n) s'" using h sq by (simp add: num_inv_def)
    then show ?thesis by blast
  qed
qed

lemma ingest_run_inv:
  assumes "jobs_inv s" "recv_inv s" "num_inv n s" and "n + length xs < 2 ^ 64"
  shows "jobs_inv (ingest_run lib xs s) \<and> recv_inv (ingest_run lib xs s) \<and> (\<exists>n'. num_inv n' (ingest_run lib xs s))"
  using assms
proof (induction xs arbitrary: s n)
  case (Cons x xs)
  from num_inv_step[OF Cons.prems(3) _ ingest_num, of lib x] Cons.prems(4)
  obtain n' where "n' \<le> Suc n" "num_inv n' (ingest_step lib x s)" by auto
  with Cons.IH[of "ingest_step lib x s" n'] jobs_inv_step[OF Cons.prems(1), of lib x] recv_inv_step[OF Cons.prems(2), of lib x] Cons.prems(4) show ?case
    by (simp add: ingest_run_def)
qed (auto simp: ingest_run_def)

lemma ingest_new_inv: "jobs_inv (ingest_new cap tmo eng b)" "recv_inv (ingest_new cap tmo eng b)" "num_inv 0 (ingest_new cap tmo eng b)"
  by (simp_all add: ingest_new_def jobs_inv_def recv_inv_def num_inv_def nums_def got_def result_tokens_def)


section \<open>The receive side as a whole\<close>

lemma ingest_const: "in_cap (ingest_step lib x s) = in_cap s" "in_recv_timeout_ms (ingest_step lib x s) = in_recv_timeout_ms s"
  by (auto simp: ingest_step_def handler_begin_def push_begin_def ingest_begin_def route_batch_begin_def number_and_def handler_step_def
      enqueue_def recv_begin_def recv_poll_def recv_return_def recv_fail_def push_close_def push_drop_def Let_def
      split: ingest_op.split request.split job.split list.split prod.split option.split nat.split)

lemma ingest_run_const: "in_cap (ingest_run lib xs s) = in_cap s" "in_recv_timeout_ms (ingest_run lib xs s) = in_recv_timeout_ms s"
  by (induction xs arbitrary: s) (simp_all add: ingest_run_def ingest_const)

lemma job_ok_prefix: "job_ok q j ms \<Longrightarrow> prefix ms (contrib q)"
  by (induction q j ms rule: job_ok.induct) simp_all

lemma fresh_run:
  assumes "length xs < 2 ^ 64"
  shows "jobs_inv (ingest_run lib xs (ingest_new cap tmo eng b)) \<and> recv_inv (ingest_run lib xs (ingest_new cap tmo eng b))
     \<and> (\<exists>n. num_inv n (ingest_run lib xs (ingest_new cap tmo eng b)))"
  by (rule ingest_run_inv[OF ingest_new_inv]) (use assms in simp)

text \<open>C12. The receive side of the gRPC and HTTP transports, for every schedule of its handlers (one atomic operation at a
  time) and of the receiver, with fewer than \<open>2^64\<close> steps: the channel never holds more than its capacity; what a handler
  put into it is a prefix of its request's messages, in order and unchanged but for the number; all of them when it has
  acknowledged the request, none when it has refused it, so a batch is admitted as a whole or not at all; no two
  messages share a number; the receiver takes the messages in the order of the channel, each token it hands out is that
  of exactly one delivered message, and what it took is what it delivered and holds now, except that with a receive
  timeout of 0 and the server gone a call may lose messages.\<close>

theorem push_ingest_exact:
  assumes "s = ingest_run lib xs (ingest_new cap tmo eng True)" and "length xs < 2 ^ 64"
  shows "length (in_queue s) \<le> cap \<and> distinct (map (seq_of \<circ> snd) (in_log s)) \<and> map snd (in_log s) = in_popped s @ in_queue s
     \<and> mset (result_tokens s) = mset (map msg_token (in_delivered s))
     \<and> (if in_lost s = [] then in_popped s = in_delivered s @ got s else tmo = 0 \<and> \<not> in_serving s)
     \<and> (\<forall>i<length (in_jobs s). case in_jobs s ! i of (q, j) \<Rightarrow> prefix (of_job i (in_log s)) (contrib q)
          \<and> (case j of JDone (Inr n) \<Rightarrow> of_job i (in_log s) = contrib q \<and> n = length (contrib q)
             | JDone (Inl _) \<Rightarrow> of_job i (in_log s) = [] | _ \<Rightarrow> True))"
proof -
  from fresh_run[OF assms(2), of lib cap tmo eng True]
  obtain n where i: "jobs_inv s" "recv_inv s" "num_inv n s" unfolding assms(1)[symmetric] by blast
  have c: "in_cap s = cap" "in_recv_timeout_ms s = tmo" by (simp_all add: assms(1) ingest_run_const) (simp_all add: ingest_new_def)
  have "count (mset (map (seq_of \<circ> snd) (in_log s))) x \<le> count (nums s) x" for x by (simp add: nums_def)
  then have "count (mset (map (seq_of \<circ> snd) (in_log s))) x \<le> 1" for x using i(3) le_trans unfolding num_inv_def by blast
  then have "distinct (map (seq_of \<circ> snd) (in_log s))" unfolding distinct_count_atmost_1
    by (metis count_greater_zero_iff count_mset_0_iff le_less_Suc_eq less_one linorder_not_less nat_less_le One_nat_def)
  moreover have "case in_jobs s ! k of (q, j) \<Rightarrow> prefix (of_job k (in_log s)) (contrib q)
          \<and> (case j of JDone (Inr n) \<Rightarrow> of_job k (in_log s) = contrib q \<and> n = length (contrib q)
             | JDone (Inl _) \<Rightarrow> of_job k (in_log s) = [] | _ \<Rightarrow> True)" if "k < length (in_jobs s)" for k
  proof -
    have "job_ok (fst (in_jobs s ! k)) (snd (in_jobs s ! k)) (of_job k (in_log s))" using i(1) that by (simp add: jobs_inv_def)
    then show ?thesis using job_ok_prefix by (fastforce split: job.split sum.split prod.split)
  qed
  ultimately show ?thesis using i(1,2) c by (simp add: jobs_inv_def recv_inv_def split: if_splits)
qed

definition demo_record :: "string \<Rightarrow> wrecord" where
  "demo_record k = \<lparr>payload = [0x31], key = Some k, headers = [], metadata = \<lparr>timestamp_ms = Some 7, format = Auto\<rparr>\<rparr>"

definition demo_engine :: "nat filter_engine" where "demo_engine = \<lparr>filters_in = [], filters_out = []\<rparr>"

definition demo_push_ops :: "ingest_op list" where
  "demo_push_ops = [IoRequest False (RqBatch (records_to_proto [demo_record ''a'', demo_record ''b''])), IoRequest False (RqIngest ''c'' [0x32] 0),
     IoStep 0, IoStep 1, IoStep 0, IoRequest True (RqBatch (records_to_proto [demo_record ''d''])), IoStep 0, IoStep 0, IoStep 0, IoRecv 5, IoPoll False]"

theorem push_ingest_exact_witness:
  "distinct (map (seq_of \<circ> snd) (in_log (ingest_run toy_filter_lib demo_push_ops (ingest_new 3 0 demo_engine True))))
   \<and> length (in_queue (ingest_run toy_filter_lib demo_push_ops (ingest_new 3 0 demo_engine True))) \<le> 3"
proof -
  have "length demo_push_ops < 2 ^ 64" by (simp add: demo_push_ops_def)
  from push_ingest_exact[OF refl this, of toy_filter_lib 3 0 demo_engine] show ?thesis by blast
qed


section \<open>Client and server together\<close>

lemma of_nat_u64_less: "n < 2 ^ 64 \<Longrightarrow> \<not> (of_nat n :: u64) < of_nat n"
  by simp

text \<open>C13. A block sent by \<open>send_batch\<close> over gRPC is atomic end to end. Let the request of a block reach a server that ran
  any schedule before and after, and let the server's answer reach the client. If the call returns \<open>Ok\<close>, the server's
  channel got exactly the records that pass the outbound filter, in order, with their payload bytes, timestamps and
  formats (\<open>Auto\<close> resolved by detection) and keys (an empty key becomes no key). Otherwise it returns \<open>Backpressured\<close> and the
  server got none of them.\<close>

theorem grpc_block_atomic:
  assumes "s = ingest_run lib xs (ingest_new cap tmo eng True)" and "length xs < 2 ^ 64"
    and "grpc_batch_request clib show_nat c rs = Inr b" and "length b < 2 ^ 64"
    and "i < length (in_jobs s)" and "in_jobs s ! i = (RqBatch b, JDone r)"
  shows "case grpc_send_batch clib show_nat (\<lambda>_. grpc_reply r) c rs of
     SendOk \<Rightarrow> of_job i (in_log s) = map (batch_message \<circ> wire_record) (filter (\<lambda>r. client_disp clib c (payload r) = DispPass) rs)
   | Backpressured \<Rightarrow> of_job i (in_log s) = [] | _ \<Rightarrow> False"
proof -
  have b: "b = records_to_proto (filter (\<lambda>r. client_disp clib c (payload r) = DispPass) rs)"
    using assms(3) by (auto simp: grpc_batch_request_def client_disp_def Let_def split: if_splits option.splits)
  have "jobs_inv s" using fresh_run[OF assms(2), of lib cap tmo eng True] assms(1) by simp
  then have j: "job_ok (RqBatch b) (JDone r) (of_job i (in_log s))" using assms(5,6) unfolding jobs_inv_def by fastforce
  show ?thesis
  proof (cases r)
    case (Inl e)
    with j assms(3) show ?thesis by (cases e) (simp_all add: grpc_send_batch_def grpc_reply_def batch_result_def push_status_def)
  next
    case (Inr n)
    then have "n = length b" "of_job i (in_log s) = contrib (RqBatch b)" using j by (simp_all add: contrib_def proto_batch_to_records_def)
    with Inr assms(3) show ?thesis
      by (simp add: grpc_send_batch_def grpc_reply_def batch_result_def contrib_def b batch_roundtrip)
  qed
qed

definition demo_push_client :: "nat push_client" where
  "demo_push_client = \<lparr>pc_endpoint = Some ''e'', pc_closed = False, pc_max_message_size = 100, pc_filters = demo_engine\<rparr>"

text \<open>One message over each protocol: request, handler, answer. Without a server the connection fails.\<close>

definition serve :: "('p, 'j, 'c) filter_lib \<Rightarrow> bool \<Rightarrow> request \<Rightarrow> 'p ingest \<Rightarrow> 'p ingest \<times> (nat, refusal) result option" where
  "serve lib hold q s =
     (if in_serving s then let s' = ingest_run lib [IoRequest hold q, IoStep (length (in_jobs s))] s
        in (s', case snd (in_jobs s' ! length (in_jobs s)) of JDone r \<Rightarrow> Some r | _ \<Rightarrow> None)
      else (s, None))"

definition grpc_loop_send :: "('p, 'j, 'c) filter_lib \<Rightarrow> string option \<Rightarrow> bool \<Rightarrow> 'p push_client \<times> 'p ingest \<Rightarrow> string \<Rightarrow> bytes \<Rightarrow>
    ('p push_client \<times> 'p ingest) \<times> transport_error send_result" where
  "grpc_loop_send lib trace hold cs k p = (case grpc_send_request lib trace (fst cs) k p of
     Inl r \<Rightarrow> (cs, r)
   | Inr q \<Rightarrow> (case serve lib hold (RqPush q) (snd cs) of (s', a) \<Rightarrow>
       ((fst cs, s'), grpc_send lib trace (\<lambda>_. case a of None \<Rightarrow> Err (Unavailable, ''connect'') | Some r \<Rightarrow> grpc_reply r) (fst cs) k p)))"

definition http_loop_send :: "('p, 'j, 'c) filter_lib \<Rightarrow> (nat \<Rightarrow> string) \<Rightarrow> bool \<Rightarrow> string \<Rightarrow> int \<Rightarrow> 'p push_client \<times> 'p ingest \<Rightarrow> string \<Rightarrow> bytes \<Rightarrow>
    ('p push_client \<times> 'p ingest) \<times> transport_error send_result" where
  "http_loop_send lib show_nat hold addr now cs k p = (case http_send_request lib (fst cs) k p of
     Inl r \<Rightarrow> (cs, r)
   | Inr _ \<Rightarrow> (case serve lib hold (RqIngest addr p now) (snd cs) of (s', a) \<Rightarrow>
       ((fst cs, s'), http_send lib show_nat (\<lambda>_ _. case a of None \<Rightarrow> Err ''connect'' | Some r \<Rightarrow> Ok (http_status r)) (fst cs) k p)))"

lemma serve_single:
  assumes "serve lib hold q s = (s', a)" and "\<forall>b. q \<noteq> RqBatch b"
  shows "(\<exists>n. a = Some (Inr n)) \<and> (\<exists>i m. in_log s' = in_log s @ [(i, m)] \<and> stamp 0 m = hd (contrib q))
     \<or> (\<forall>n. a \<noteq> Some (Inr n)) \<and> in_log s' = in_log s"
  using assms by (cases q)
    (auto simp: serve_def ingest_run_def ingest_step_def handler_begin_def push_begin_def ingest_begin_def number_and_def handler_step_def
      enqueue_def free_permits_def contrib_def stamp_def push_message_def http_message_def grpc_token_new_def http_token_with_source_def Let_def
      split: if_splits)


theorem grpc_block_atomic_witness:
  "of_job 0 (in_log (ingest_run toy_filter_lib demo_push_ops (ingest_new 3 0 demo_engine True)))
     = map (batch_message \<circ> wire_record) [demo_record ''a'', demo_record ''b'']"
proof -
  let ?s = "ingest_run toy_filter_lib demo_push_ops (ingest_new 3 0 demo_engine True)"
  let ?rs = "[demo_record ''a'', demo_record ''b'']"
  have l: "length demo_push_ops < 2 ^ 64" by (simp add: demo_push_ops_def)
  have r: "grpc_batch_request toy_filter_lib (\<lambda>_. []) demo_push_client ?rs = Inr (records_to_proto ?rs)"
    by (simp add: grpc_batch_request_def demo_push_client_def demo_engine_def demo_record_def Let_def)
  have j: "length (in_jobs ?s) = 3" "in_jobs ?s ! 0 = (RqBatch (records_to_proto ?rs), JDone (Ok 2))"
    by (code_simp, code_simp)
  have f: "filter (\<lambda>r. client_disp toy_filter_lib demo_push_client (payload r) = DispPass) ?rs = ?rs"
    by (simp add: client_disp_def demo_push_client_def demo_engine_def)
  have "length (records_to_proto ?rs) < 2 ^ 64" by (simp add: records_to_proto_def)
  from grpc_block_atomic[OF refl l r this, of 0 toy_filter_lib 3 0 demo_engine "Ok 2"] j f show ?thesis
    by (simp add: grpc_send_batch_def r batch_result_def grpc_reply_def records_to_proto_def)
qed

text \<open>Both protocols keep the sender contract, message by message.\<close>

definition grpc_dest :: "'p push_client \<times> 'p ingest \<Rightarrow> string \<Rightarrow> string option" where
  "grpc_dest cs k = (if k = '''' then None else Some k)"

definition http_dest :: "'p push_client \<times> 'p ingest \<Rightarrow> string \<Rightarrow> string option" where
  "http_dest cs k = None"

definition admitted :: "'p push_client \<times> 'p ingest \<Rightarrow> string option \<Rightarrow> bytes list" where
  "admitted cs d = map msg_payload (filter (\<lambda>m. msg_key m = d) (map snd (in_log (snd cs))))"

definition loop_disp :: "('p, 'j, 'c) filter_lib \<Rightarrow> 'p push_client \<times> 'p ingest \<Rightarrow> string \<Rightarrow> bytes \<Rightarrow> filter_disposition" where
  "loop_disp lib cs k p = client_disp lib (fst cs) p"

lemma admitted_snoc: "in_log s' = in_log s @ [(i, m)] \<Longrightarrow> admitted (c', s') = (admitted (c, s))(msg_key m := admitted (c, s) (msg_key m) @ [msg_payload m])"
  by (auto simp: admitted_def fun_eq_iff)

lemma stamp_eq: "stamp 0 m = t \<Longrightarrow> msg_key m = msg_key t \<and> msg_payload m = msg_payload t"
  by (auto simp: stamp_def)

lemma push_status_refuses: "\<not> accepted (push_status st)"
  by (simp add: push_status_def)

lemma grpc_loop_cases:
  assumes "grpc_loop_send lib trace hold cs k p = (cs', r)"
  shows "fst cs' = fst cs \<and>
     ((r = SendOk \<and> loop_disp lib cs k p = DispPass \<and> admitted cs' = (admitted cs)(grpc_dest cs k := admitted cs (grpc_dest cs k) @ [p]))
      \<or> (r = SendOk \<and> loop_disp lib cs k p = DispDrop \<and> cs' = cs) \<or> (r = FilteredDlq \<and> loop_disp lib cs k p = DispDlq \<and> cs' = cs)
      \<or> (\<not> accepted r \<and> admitted cs' = admitted cs))"
proof (cases "grpc_send_request lib trace (fst cs) k p")
  case (Inl r')
  with assms show ?thesis
    by (auto simp: grpc_loop_send_def grpc_send_request_def loop_disp_def split: if_splits filter_disposition.splits option.splits)
next
  case (Inr q)
  obtain c s where cs: "cs = (c, s)" by (cases cs)
  obtain s' a where sv: "serve lib hold (RqPush q) s = (s', a)" by (cases "serve lib hold (RqPush q) s")
  have q: "q = push_request_of trace k p" "loop_disp lib cs k p = DispPass"
    using Inr by (auto simp: grpc_send_request_def loop_disp_def split: if_splits filter_disposition.splits option.splits)
  have k: "msg_key (push_message q) = grpc_dest cs k" "msg_payload (push_message q) = p"
    by (auto simp: q push_message_def push_request_of_def grpc_dest_def split: option.split)
  from assms Inr cs sv have r: "cs' = (c, s')" "r = (case a of Some (Inr n) \<Rightarrow> SendOk | Some (Inl e) \<Rightarrow> push_status (grpc_status e) | None \<Rightarrow> Backpressured)"
    by (auto simp: grpc_loop_send_def grpc_send_def grpc_reply_def push_status_def split: option.split sum.split)
  from serve_single[OF sv] consider n i m where "a = Some (Inr n)" "in_log s' = in_log s @ [(i, m)]" "stamp 0 m = push_message q"
    | "\<forall>n. a \<noteq> Some (Inr n)" "in_log s' = in_log s" by (auto simp: contrib_def)
  then show ?thesis
  proof cases
    case 1
    from admitted_snoc[OF 1(2), of c c] stamp_eq[OF 1(3)] k 1(1) r q(2) cs show ?thesis by simp
  next
    case 2
    then have "\<not> accepted r" using r(2) push_status_refuses by (auto split: option.split sum.split)
    moreover have "admitted cs' = admitted cs" using 2 r(1) cs by (simp add: admitted_def fun_eq_iff)
    ultimately show ?thesis using r(1) cs by simp
  qed
qed

interpretation grpc_loop: transport_sender "grpc_loop_send lib trace hold" grpc_dest admitted "loop_disp lib"
  for lib :: "('p, 'j, 'c) filter_lib" and trace hold
proof
  fix s s' :: "'p push_client \<times> 'p ingest" and k p r
  show "grpc_loop_send lib trace hold s k p = (s', SendOk) \<Longrightarrow> loop_disp lib s k p \<noteq> DispDlq \<and>
      admitted s' = (if loop_disp lib s k p = DispPass then (admitted s)(grpc_dest s k := admitted s (grpc_dest s k) @ [p]) else admitted s)"
    by (drule grpc_loop_cases) auto
  show "grpc_loop_send lib trace hold s k p = (s', FilteredDlq) \<Longrightarrow> loop_disp lib s k p = DispDlq \<and> admitted s' = admitted s"
    by (drule grpc_loop_cases) auto
  show "grpc_loop_send lib trace hold s k p = (s', r) \<Longrightarrow> \<not> accepted r \<Longrightarrow> admitted s' = admitted s"
    by (drule grpc_loop_cases) auto
  show "grpc_loop_send lib trace hold s k p = (s', r) \<Longrightarrow> grpc_dest s' = grpc_dest s \<and> loop_disp lib s' = loop_disp lib s"
    by (drule grpc_loop_cases) (simp add: grpc_dest_def loop_disp_def fun_eq_iff)
qed


lemma http_loop_cases:
  assumes "http_loop_send lib show_nat hold addr now cs k p = (cs', r)"
  shows "fst cs' = fst cs \<and>
     ((r = SendOk \<and> loop_disp lib cs k p = DispPass \<and> admitted cs' = (admitted cs)(None := admitted cs None @ [p]))
      \<or> (r = SendOk \<and> loop_disp lib cs k p = DispDrop \<and> cs' = cs) \<or> (r = FilteredDlq \<and> loop_disp lib cs k p = DispDlq \<and> cs' = cs)
      \<or> (\<not> accepted r \<and> admitted cs' = admitted cs))"
proof (cases "http_send_request lib (fst cs) k p")
  case (Inl r')
  with assms show ?thesis
    by (auto simp: http_loop_send_def http_send_request_def loop_disp_def split: if_splits filter_disposition.splits option.splits)
next
  case (Inr u)
  obtain c s where cs: "cs = (c, s)" by (cases cs)
  obtain s' a where sv: "serve lib hold (RqIngest addr p now) s = (s', a)" by (cases "serve lib hold (RqIngest addr p now) s")
  have d: "loop_disp lib cs k p = DispPass"
    using Inr by (auto simp: http_send_request_def loop_disp_def split: if_splits filter_disposition.splits option.splits)
  from assms Inr cs sv have r: "cs' = (c, s')" "r = http_result show_nat (fst u) (case a of None \<Rightarrow> Err ''connect'' | Some r \<Rightarrow> Ok (http_status r))"
    by (auto simp: http_loop_send_def http_send_def split: prod.split)
  from serve_single[OF sv] consider n i m where "a = Some (Inr n)" "in_log s' = in_log s @ [(i, m)]" "stamp 0 m = http_message addr p now"
    | "\<forall>n. a \<noteq> Some (Inr n)" "in_log s' = in_log s" by (auto simp: contrib_def)
  then show ?thesis
  proof cases
    case 1
    from admitted_snoc[OF 1(2), of c c] stamp_eq[OF 1(3)] 1(1) r d cs show ?thesis by (simp add: http_message_def http_result_def)
  next
    case 2
    have "\<not> accepted (http_result show_nat x (Ok (http_status (Err e))))" for x e by (cases e) (simp_all add: http_result_def)
    with 2(1) have "\<not> accepted r" unfolding r(2) by (cases a; cases "the a") (simp_all add: http_result_def del: http_status.simps)
    moreover have "admitted cs' = admitted cs" using 2 r(1) cs by (simp add: admitted_def fun_eq_iff)
    ultimately show ?thesis using r(1) cs by simp
  qed
qed

interpretation http_loop: transport_sender "http_loop_send lib show_nat hold addr now" http_dest admitted "loop_disp lib"
  for lib :: "('p, 'j, 'c) filter_lib" and show_nat hold addr now
proof
  fix s s' :: "'p push_client \<times> 'p ingest" and k p r
  show "http_loop_send lib show_nat hold addr now s k p = (s', SendOk) \<Longrightarrow> loop_disp lib s k p \<noteq> DispDlq \<and>
      admitted s' = (if loop_disp lib s k p = DispPass then (admitted s)(http_dest s k := admitted s (http_dest s k) @ [p]) else admitted s)"
    by (drule http_loop_cases) (auto simp: http_dest_def)
  show "http_loop_send lib show_nat hold addr now s k p = (s', FilteredDlq) \<Longrightarrow> loop_disp lib s k p = DispDlq \<and> admitted s' = admitted s"
    by (drule http_loop_cases) auto
  show "http_loop_send lib show_nat hold addr now s k p = (s', r) \<Longrightarrow> \<not> accepted r \<Longrightarrow> admitted s' = admitted s"
    by (drule http_loop_cases) auto
  show "http_loop_send lib show_nat hold addr now s k p = (s', r) \<Longrightarrow> http_dest s' = http_dest s \<and> loop_disp lib s' = loop_disp lib s"
    by (drule http_loop_cases) (simp add: http_dest_def loop_disp_def fun_eq_iff)
qed

text \<open>A block over HTTP goes record by record: the server admits the passing part of a prefix, and a retry of a refused
  block duplicates that prefix and loses nothing.\<close>

lemma http_block_retry:
  assumes "send_batch (http_loop_send lib show_nat hold addr now) cs rs = (cs1, r1)"
    and "send_batch (http_loop_send lib show_nat hold' addr now') cs1 rs = (cs2, SendOk)"
  shows "\<exists>n\<le>length rs. admitted cs2 None = admitted cs None
     @ map payload (filter (\<lambda>r. client_disp lib (fst cs) (payload r) = DispPass) (take n rs))
     @ map payload (filter (\<lambda>r. client_disp lib (fst cs) (payload r) = DispPass) rs)"
proof -
  have p: "passing (loop_disp lib) http_dest cs None xs = map payload (filter (\<lambda>r. client_disp lib (fst cs) (payload r) = DispPass) xs)" for xs
    by (simp add: passing_def loop_disp_def http_dest_def)
  from http_loop.batch_prefix[OF assms(1)] obtain n where n: "n \<le> length rs"
    "admitted cs1 None = admitted cs None @ passing (loop_disp lib) http_dest cs None (take n rs)" "loop_disp lib cs1 = loop_disp lib cs" by blast
  have q: "passing (loop_disp lib) http_dest cs1 None rs = passing (loop_disp lib) http_dest cs None rs"
    using n(3) by (simp add: passing_def http_dest_def)
  from http_loop.batch_prefix[OF assms(2)] have "admitted cs2 None = admitted cs1 None @ passing (loop_disp lib) http_dest cs1 None rs" by auto
  with n(1,2) p q show ?thesis by auto
qed

text \<open>The URL of a send: one slash between the endpoint and the key, whatever slashes they have there.\<close>

lemma dropWhile_slash: "dropWhile (\<lambda>c. c = CHR ''/'') xs = [] \<or> hd (dropWhile (\<lambda>c. c = CHR ''/'') xs) \<noteq> CHR ''/''"
  by (induction xs) auto

lemma send_url_one_slash:
  assumes "k \<noteq> ''''"
  shows "\<exists>b x. send_url base k = b @ ''/'' @ x \<and> (b = [] \<or> last b \<noteq> CHR ''/'') \<and> (x = [] \<or> hd x \<noteq> CHR ''/'')
     \<and> (\<exists>m. base = b @ replicate m CHR ''/'') \<and> (\<exists>m. k = replicate m CHR ''/'' @ x)"
proof -
  have split: "xs = replicate (length (takeWhile (\<lambda>c. c = z) xs)) z @ dropWhile (\<lambda>c. c = z) xs" for z :: char and xs
    by (induction xs) auto
  have b: "\<exists>m. base = trim_end_slash base @ replicate m CHR ''/''"
    using arg_cong[OF split[of "rev base" "CHR ''/''"], of rev] by (intro exI) (simp add: trim_end_slash_def)
  have l: "trim_end_slash base = [] \<or> last (trim_end_slash base) \<noteq> CHR ''/''"
    using dropWhile_slash[of "rev base"] unfolding trim_end_slash_def by (auto simp: last_rev)
  have "send_url base k = trim_end_slash base @ ''/'' @ trim_start_slash k" using assms by (simp add: send_url_def)
  moreover have "\<exists>m. k = replicate m CHR ''/'' @ trim_start_slash k" unfolding trim_start_slash_def by (rule exI, rule split)
  moreover have "trim_start_slash k = [] \<or> hd (trim_start_slash k) \<noteq> CHR ''/''" unfolding trim_start_slash_def by (rule dropWhile_slash)
  ultimately show ?thesis using b l by blast
qed

text \<open>The exception of \<open>push_ingest_exact\<close> is real: with \<open>recv_timeout_ms = 0\<close>, a call that finds the senders gone after it has
  taken messages returns an error and drops them, although the sender was told they were accepted.\<close>

lemma nonblocking_recv_loses_accepted:
  "let s = ingest_run toy_filter_lib [IoRequest False (RqIngest ''c'' [0x31] 0), IoStep 0, IoServerEnds, IoRecv 5, IoPoll False, IoPoll False]
        (ingest_new 3 0 demo_engine True)
   in snd (in_jobs s ! 0) = JDone (Ok 1) \<and> in_results s = [Err TeClosed] \<and> in_queue s = [] \<and> map msg_payload (in_lost s) = [[0x31]]"
  by code_simp

text \<open>After \<open>close\<close> no accepted message that is still in the channel can be received.\<close>

lemma close_strands_accepted:
  "let s = ingest_run toy_filter_lib [IoRequest False (RqIngest ''c'' [0x31] 0), IoStep 0, IoClose, IoRecv 5, IoPoll False]
        (ingest_new 3 100 demo_engine True)
   in snd (in_jobs s ! 0) = JDone (Ok 1) \<and> in_results s = [Err TeClosed] \<and> map msg_payload (in_queue s) = [[0x31]]"
  by code_simp

text \<open>An empty payload is accepted over gRPC and fatal over HTTP.\<close>

lemma empty_payload_differs:
  "snd (http_loop_send toy_filter_lib (\<lambda>_. ''400'') False ''c'' 0 (demo_push_client, ingest_new 3 0 demo_engine True) ''k'' [])
     = SendFatal (TeSend ''HTTP 400 from e/k'')
   \<and> snd (grpc_loop_send toy_filter_lib None False (demo_push_client, ingest_new 3 0 demo_engine True) ''k'' []) = SendOk"
  by code_simp

end
