(* ===== verification/Vector_Compat.thy ===== *)
theory Vector_Compat
  imports Push_Transports F64 "HOL-Library.List_Lexorder"
begin

text \<open>
  The compatibility layer with Vector's wire protocol (\<open>src/transport/vector_compat/{convert,source,sink}.rs\<close>):
  conversion between JSON values and Vector's protobuf values, and the \<open>PushEvents\<close> service that
  feeds the gRPC receive channel. Text is its UTF-8 bytes; the validity check and the lossy
  decoding of the standard library are arguments, as are the JSON printer and the iteration
  order of a hash map. A JSON object is a list strictly sorted by key (\<open>serde_json::Map\<close> is a B-tree).
\<close>

section \<open>Values\<close>

type_synonym utf8 = "byte list"

datatype jnumber = NPos u64 | NNeg int | NFloat f64

datatype jvalue = JvNull | JvBool bool | JvNum jnumber | JvStr utf8 | JvArr "jvalue list" | JvObj "(utf8 \<times> jvalue) list"

text \<open>\<open>Value.kind\<close> may be absent; \<open>fields\<close> of a map is a hash map, listed in its iteration order.\<close>

datatype vvalue = VNone | VRawBytes "byte list" | VTimestamp int int | VInteger int | VFloat f64 | VBoolean bool
  | VMap "(utf8 \<times> vvalue) list" | VArray "vvalue list" | VNull

record text_lib =
  tl_valid :: "byte list \<Rightarrow> bool"
  tl_lossy :: "byte list \<Rightarrow> utf8"

definition i64_wrap :: "int \<Rightarrow> int" where
  "i64_wrap x = (x + 2 ^ 63) mod 2 ^ 64 - 2 ^ 63"

definition number_of_i64 :: "int \<Rightarrow> jnumber" where
  "number_of_i64 i = (if 0 \<le> i then NPos (of_int i) else NNeg i)"

definition as_i64 :: "jnumber \<Rightarrow> int option" where
  "as_i64 n = (case n of NPos u \<Rightarrow> if uint u < 2 ^ 63 then Some (uint u) else None | NNeg i \<Rightarrow> Some i | NFloat _ \<Rightarrow> None)"

definition as_f64 :: "jnumber \<Rightarrow> f64" where
  "as_f64 n = (case n of NPos u \<Rightarrow> f64_of_u64 u | NNeg i \<Rightarrow> f64_round (of_int i) | NFloat f \<Rightarrow> f)"

text \<open>Division that rounds towards zero.\<close>

definition tdiv :: "int \<Rightarrow> int \<Rightarrow> int" where
  "tdiv a b = sgn a * sgn b * (\<bar>a\<bar> div \<bar>b\<bar>)"

definition timestamp_millis :: "int \<Rightarrow> int \<Rightarrow> int" where
  "timestamp_millis seconds nanos = i64_wrap (i64_wrap (seconds * 1000) + tdiv nanos 1000000)"

fun obj_insert :: "utf8 \<Rightarrow> jvalue \<Rightarrow> (utf8 \<times> jvalue) list \<Rightarrow> (utf8 \<times> jvalue) list" where
  "obj_insert k v [] = [(k, v)]"
| "obj_insert k v ((k', v') # m) = (if k = k' then (k, v) # m else if k < k' then (k, v) # (k', v') # m else (k', v') # obj_insert k v m)"

definition obj_of :: "(utf8 \<times> jvalue) list \<Rightarrow> (utf8 \<times> jvalue) list" where
  "obj_of kvs = fold (\<lambda>(k, v). obj_insert k v) kvs []"

fun vector_value_to_json :: "text_lib \<Rightarrow> vvalue \<Rightarrow> jvalue" where
  "vector_value_to_json T (VRawBytes b) = JvStr (if tl_valid T b then b else tl_lossy T b)"
| "vector_value_to_json T (VTimestamp s n) = JvNum (number_of_i64 (timestamp_millis s n))"
| "vector_value_to_json T (VInteger i) = JvNum (number_of_i64 i)"
| "vector_value_to_json T (VFloat f) = (if is_finite f then JvNum (NFloat f) else JvNull)"
| "vector_value_to_json T (VBoolean b) = JvBool b"
| "vector_value_to_json T (VMap kvs) = JvObj (obj_of (map (\<lambda>(k, v). (k, vector_value_to_json T v)) kvs))"
| "vector_value_to_json T (VArray vs) = JvArr (map (vector_value_to_json T) vs)"
| "vector_value_to_json T VNull = JvNull"
| "vector_value_to_json T VNone = JvNull"

text \<open>\<open>ho\<close> is the order in which a hash map built from a list is iterated.\<close>

fun json_to_vector_value :: "((utf8 \<times> vvalue) list \<Rightarrow> (utf8 \<times> vvalue) list) \<Rightarrow> jvalue \<Rightarrow> vvalue" where
  "json_to_vector_value ho JvNull = VNull"
| "json_to_vector_value ho (JvBool b) = VBoolean b"
| "json_to_vector_value ho (JvNum n) = (case as_i64 n of Some i \<Rightarrow> VInteger i | None \<Rightarrow> VFloat (as_f64 n))"
| "json_to_vector_value ho (JvStr s) = VRawBytes s"
| "json_to_vector_value ho (JvArr vs) = VArray (map (json_to_vector_value ho) vs)"
| "json_to_vector_value ho (JvObj kvs) = VMap (ho (map (\<lambda>(k, v). (k, json_to_vector_value ho v)) kvs))"

record vlog =
  vl_fields :: "(utf8 \<times> vvalue) list"
  vl_value :: "vvalue option"

datatype vevent = EvLog vlog | EvTrace "(utf8 \<times> vvalue) list" | EvMetric

definition fields_to_json :: "text_lib \<Rightarrow> (utf8 \<times> vvalue) list \<Rightarrow> jvalue" where
  "fields_to_json T kvs = JvObj (obj_of (map (\<lambda>(k, v). (k, vector_value_to_json T v)) kvs))"

definition log_to_json :: "text_lib \<Rightarrow> vlog \<Rightarrow> jvalue" where
  "log_to_json T l = (case vl_value l of Some v \<Rightarrow> vector_value_to_json T v | None \<Rightarrow> fields_to_json T (vl_fields l))"

definition json_to_log :: "((utf8 \<times> vvalue) list \<Rightarrow> (utf8 \<times> vvalue) list) \<Rightarrow> jvalue \<Rightarrow> vlog" where
  "json_to_log ho v = \<lparr>vl_fields = [], vl_value = Some (json_to_vector_value ho v)\<rparr>"

text \<open>The event of a wrapper may be absent.\<close>

definition event_wrapper_to_json :: "text_lib \<Rightarrow> vevent option \<Rightarrow> jvalue option" where
  "event_wrapper_to_json T w = (case w of
     None \<Rightarrow> None
   | Some (EvLog l) \<Rightarrow> Some (log_to_json T l)
   | Some (EvTrace kvs) \<Rightarrow> Some (fields_to_json T kvs)
   | Some EvMetric \<Rightarrow> None)"

definition json_to_event_wrapper :: "((utf8 \<times> vvalue) list \<Rightarrow> (utf8 \<times> vvalue) list) \<Rightarrow> jvalue \<Rightarrow> vevent option" where
  "json_to_event_wrapper ho v = Some (EvLog (json_to_log ho v))"

section \<open>Service and client\<close>

text \<open>One request: each event is printed, numbered and sent; a send waits for room and fails when the receiver is gone. \<open>outs\<close>
  lists the outcomes of the sends, and a request whose outcomes run out is still waiting (\<open>None\<close>).\<close>

definition vector_message :: "u64 \<Rightarrow> byte list \<Rightarrow> push_token message" where
  "vector_message n p = \<lparr>msg_key = None, msg_payload = p, msg_token = grpc_token_new n, msg_timestamp_ms = None, msg_format = Json\<rparr>"

fun push_events :: "text_lib \<Rightarrow> (jvalue \<Rightarrow> (byte list, string) result) \<Rightarrow> vevent option list \<Rightarrow> bool list \<Rightarrow> u64 \<Rightarrow>
    push_token message list \<times> u64 \<times> (unit, grpc_code \<times> string) result option" where
  "push_events T pr [] outs n = ([], n, Some (Ok ()))"
| "push_events T pr (w # wrs) outs n = (case event_wrapper_to_json T w of
     None \<Rightarrow> push_events T pr wrs outs n
   | Some j \<Rightarrow> (case pr j of
       Inl e \<Rightarrow> ([], n, Some (Err (Internal, ''json serialise failed: '' @ e)))
     | Inr p \<Rightarrow> (case outs of
         [] \<Rightarrow> ([], n + 1, None)
       | False # _ \<Rightarrow> ([], n + 1, Some (Err (Unavailable, ''receiver buffer full'')))
       | True # ss \<Rightarrow> (case push_events T pr wrs ss (n + 1) of (ms, r) \<Rightarrow> (vector_message n p # ms, r)))))"

definition send_events :: "((utf8 \<times> vvalue) list \<Rightarrow> (utf8 \<times> vvalue) list) \<Rightarrow> (vevent option list \<Rightarrow> (unit, string) result) \<Rightarrow> jvalue list \<Rightarrow>
    (unit, transport_error) result" where
  "send_events ho rpc vs = (case rpc (map (json_to_event_wrapper ho) vs) of
     Inl e \<Rightarrow> Err (TeSend (''Vector PushEvents failed: '' @ e))
   | Inr _ \<Rightarrow> Ok ())"

definition vector_health_check :: "(int, string) result \<Rightarrow> (bool, transport_error) result" where
  "vector_health_check r = (case r of Inl e \<Rightarrow> Err (TeConnection (''Vector health check failed: '' @ e)) | Inr st \<Rightarrow> Ok (st = 0))"


section \<open>Round trip\<close>

definition ord_keys :: "(utf8 \<times> 'a) list \<Rightarrow> bool" where
  "ord_keys kvs \<longleftrightarrow> sorted (map fst kvs) \<and> distinct (map fst kvs)"

text \<open>What a parsed JSON value looks like, with numbers that fit \<open>i64\<close> or are floats.\<close>

fun num_ok :: "jnumber \<Rightarrow> bool" where
  "num_ok (NPos u) \<longleftrightarrow> uint u < 2 ^ 63"
| "num_ok (NNeg i) \<longleftrightarrow> i < 0 \<and> - (2 ^ 63) \<le> i"
| "num_ok (NFloat f) \<longleftrightarrow> is_finite f"

fun jv_ok :: "text_lib \<Rightarrow> jvalue \<Rightarrow> bool" where
  "jv_ok T (JvNum n) \<longleftrightarrow> num_ok n"
| "jv_ok T (JvStr s) \<longleftrightarrow> tl_valid T s"
| "jv_ok T (JvArr vs) \<longleftrightarrow> list_all (jv_ok T) vs"
| "jv_ok T (JvObj kvs) \<longleftrightarrow> ord_keys kvs \<and> list_all (\<lambda>(k, v). jv_ok T v) kvs"
| "jv_ok T v \<longleftrightarrow> True"

lemma obj_insert_keys: "fst ` set (obj_insert k v m) = insert k (fst ` set m)"
  by (induction k v m rule: obj_insert.induct) auto

lemma obj_insert_set: "k \<notin> fst ` set m \<Longrightarrow> set (obj_insert k v m) = insert (k, v) (set m)"
  by (induction k v m rule: obj_insert.induct) auto

lemma obj_insert_ord: "ord_keys m \<Longrightarrow> ord_keys (obj_insert k v m)"
proof (induction k v m rule: obj_insert.induct)
  case (2 k v k' v' m)
  have "ord_keys m" using "2.prems" by (simp add: ord_keys_def)
  consider "k = k'" | "k < k'" | "k' < k" using linorder_less_linear by blast
  then show ?case
  proof cases
    case 3
    with "2.IH" \<open>ord_keys m\<close> have "ord_keys (obj_insert k v m)" by simp
    moreover have "\<forall>x\<in>fst ` set (obj_insert k v m). k' < x" using 3 "2.prems" by (auto simp: obj_insert_keys ord_keys_def less_le)
    ultimately show ?thesis using 3 by (auto simp: ord_keys_def less_le)
  qed (use "2.prems" in \<open>auto simp: ord_keys_def\<close>)
qed (simp add: ord_keys_def)

lemma obj_fold:
  assumes "ord_keys m" and "distinct (map fst kvs)" and "fst ` set kvs \<inter> fst ` set m = {}"
  shows "ord_keys (fold (\<lambda>(k, v). obj_insert k v) kvs m) \<and> set (fold (\<lambda>(k, v). obj_insert k v) kvs m) = set kvs \<union> set m"
  using assms
proof (induction kvs arbitrary: m)
  case (Cons a kvs)
  obtain k v where a: "a = (k, v)" by (cases a)
  have k: "k \<notin> fst ` set m" using Cons.prems(3) a by auto
  have "fst ` set kvs \<inter> fst ` set (obj_insert k v m) = {}" using Cons.prems(2,3) a by (auto simp: obj_insert_keys)
  from Cons.IH[OF obj_insert_ord[OF Cons.prems(1)] _ this] Cons.prems(2) a obj_insert_set[OF k] show ?case by auto
qed simp

text \<open>Whatever the order in which a map is iterated, the object built from it is the sorted one.\<close>

lemma obj_of_perm:
  assumes "ord_keys kvs" and "mset xs = mset kvs"
  shows "obj_of xs = kvs"
proof -
  have s: "set xs = set kvs" using assms(2) by (rule mset_eq_setD)
  have "mset (map fst xs) = mset (map fst kvs)" using assms(2) by simp
  then have "distinct (map fst xs)" using assms(1) mset_eq_imp_distinct_iff unfolding ord_keys_def by blast
  from obj_fold[of "[]", OF _ this] have o: "ord_keys (obj_of xs)" "set (obj_of xs) = set xs" by (simp_all add: ord_keys_def obj_of_def)
  have "inj_on fst (set (obj_of xs) \<union> set kvs)" using assms(1) o(2) s by (simp add: ord_keys_def distinct_map)
  from map_sorted_distinct_set_unique[OF this] o assms(1) s show ?thesis by (simp add: ord_keys_def)
qed

lemma number_roundtrip:
  assumes "num_ok n" shows "vector_value_to_json T (json_to_vector_value ho (JvNum n)) = JvNum n"
  using assms by (cases n) (auto simp: as_i64_def as_f64_def number_of_i64_def)

text \<open>A JSON value sent to Vector and back is unchanged, whatever order the hash maps are iterated in: for values with
  valid strings and sorted objects, finite floats and integers in the range of \<open>i64\<close>.\<close>

theorem vector_roundtrip:
  assumes "jv_ok T j" and "\<forall>xs. mset (ho xs) = mset xs"
  shows "event_wrapper_to_json T (json_to_event_wrapper ho j) = Some j"
proof -
  have "jv_ok T j \<Longrightarrow> vector_value_to_json T (json_to_vector_value ho j) = j" for j
  proof (induction j rule: jv_ok.induct)
    case (3 T vs)
    then show ?case by (simp add: list_all_iff map_idI)
  next
    case (4 T kvs)
    let ?f = "\<lambda>(k, v). (k, json_to_vector_value ho v)" and ?g = "\<lambda>(k, v). (k, vector_value_to_json T v)"
    have "map ?g (map ?f kvs) = kvs" using 4 by (auto simp: list_all_iff intro!: map_idI)
    moreover have "mset (map ?g (ho (map ?f kvs))) = mset (map ?g (map ?f kvs))" using assms(2) by (simp only: mset_map)
    ultimately have "obj_of (map ?g (ho (map ?f kvs))) = kvs" using "4.prems" by (intro obj_of_perm) simp_all
    then show ?case by simp
  qed (use number_roundtrip in auto)
  with assms(1) show ?thesis by (simp add: event_wrapper_to_json_def json_to_event_wrapper_def log_to_json_def json_to_log_def)
qed


definition demo_text :: text_lib where
  "demo_text = \<lparr>tl_valid = (\<lambda>b. list_all (\<lambda>x. x < 128) b), tl_lossy = map (\<lambda>x. if x < 128 then x else 63)\<rparr>"

definition demo_jv :: jvalue where
  "demo_jv = JvObj [([0x61], JvArr [JvNum (NNeg (-5)), JvNull]), ([0x62], JvStr [0x78])]"

theorem vector_roundtrip_witness:
  "event_wrapper_to_json demo_text (json_to_event_wrapper rev demo_jv) = Some demo_jv"
proof (rule vector_roundtrip)
  show "jv_ok demo_text demo_jv" by (simp add: demo_jv_def demo_text_def ord_keys_def)
  show "\<forall>xs :: (utf8 \<times> vvalue) list. mset (rev xs) = mset xs" by simp
qed

text \<open>An unsigned number above the range of \<open>i64\<close> goes over as a float and comes back as another number.\<close>

lemma large_unsigned_changes:
  assumes "2 ^ 63 \<le> uint u"
  shows "event_wrapper_to_json T (json_to_event_wrapper ho (JvNum (NPos u))) = Some (JvNum (NFloat (Fin (rnd (rat_of_u64 u)))))"
  using assms by (simp add: event_wrapper_to_json_def json_to_event_wrapper_def log_to_json_def json_to_log_def as_i64_def as_f64_def f64_of_u64_Fin)

text \<open>A timestamp becomes epoch milliseconds; far seconds wrap.\<close>

lemma timestamp_is_millis:
  "vector_value_to_json demo_text (VTimestamp 1700000000 500000000) = JvNum (NPos 1700000000500)
   \<and> vector_value_to_json demo_text (VTimestamp 9223372036854776 0) = JvNum (NNeg (-9223372036854775616))"
  by code_simp

text \<open>\<open>push_events\<close> puts a prefix of the convertible events into the channel, all of them exactly when it answers \<open>Ok\<close>. Metrics and
  empty wrappers are skipped silently.\<close>

lemma push_events_prefix:
  assumes "push_events T pr evs outs n = (ms, n', r)"
  shows "\<exists>k. map msg_payload ms = map (\<lambda>j. case pr j of Inr p \<Rightarrow> p | Inl _ \<Rightarrow> []) (take k (map the (filter (\<lambda>x. x \<noteq> None) (map (event_wrapper_to_json T) evs))))
     \<and> (r = Some (Ok ()) \<longrightarrow> length ms = length (filter (\<lambda>x. x \<noteq> None) (map (event_wrapper_to_json T) evs)))"
  using assms
proof (induction evs arbitrary: outs n ms n' r)
  case (Cons w evs)
  show ?case
  proof (cases "event_wrapper_to_json T w")
    case None
    with Cons.prems Cons.IH[of outs n ms n' r] show ?thesis by simp
  next
    case (Some j)
    show ?thesis
    proof (cases "\<exists>p ss. pr j = Inr p \<and> outs = True # ss")
      case True
      then obtain p ss where t: "pr j = Inr p" "outs = True # ss" by blast
      obtain ms1 r1 where r1: "push_events T pr evs ss (n + 1) = (ms1, r1)" by (cases "push_events T pr evs ss (n + 1)")
      obtain n1 r2 where r2: "r1 = (n1, r2)" by (cases r1)
      from Cons.prems Some t r1 r2 have m: "ms = vector_message n p # ms1" "r = r2" "n' = n1" by simp_all
      from Cons.IH[OF r1[unfolded r2]] obtain k where
        "map msg_payload ms1 = map (\<lambda>j. case pr j of Inr p \<Rightarrow> p | Inl _ \<Rightarrow> []) (take k (map the (filter (\<lambda>x. x \<noteq> None) (map (event_wrapper_to_json T) evs))))"
        "r2 = Some (Ok ()) \<longrightarrow> length ms1 = length (filter (\<lambda>x. x \<noteq> None) (map (event_wrapper_to_json T) evs))" by blast
      with m Some t show ?thesis by (intro exI[of _ "Suc k"]) (simp add: vector_message_def)
    next
      case False
      with Cons.prems Some have "ms = []" "r \<noteq> Some (Ok ())" by (auto split: sum.splits list.splits bool.splits)
      then show ?thesis by (intro exI[of _ 0]) simp
    qed
  qed
qed simp

text \<open>A request that fails midway has already delivered its first events, so the sender's retry duplicates them.\<close>

lemma push_events_not_atomic:
  "fst (push_events demo_text (\<lambda>_. Ok [0x31]) [json_to_event_wrapper id JvNull, json_to_event_wrapper id JvNull] [True, False] 0) = [vector_message 0 [0x31]]
   \<and> snd (snd (push_events demo_text (\<lambda>_. Ok [0x31]) [json_to_event_wrapper id JvNull, json_to_event_wrapper id JvNull] [True, False] 0))
      = Some (Err (Unavailable, ''receiver buffer full''))"
  by (simp add: json_to_event_wrapper_def json_to_log_def event_wrapper_to_json_def log_to_json_def)

end
