(* ===== verification/Kafka_Config.thy ===== *)
theory Kafka_Config
  imports Topic_Resolver
begin

text \<open>
  The Kafka configuration: environment variables with legacy names (\<open>src/config/env_compat.rs\<close>), the
  profile, sizing and override layers and the builders of \<open>src/transport/kafka/config.rs\<close>, the client
  settings that \<open>KafkaTransport::new\<close> and \<open>KafkaAdmin::new\<close> make of them, and file loading and the
  topic convention of \<open>src/kafka_config.rs\<close>. A settings map is a partial function. \<open>to_lowercase\<close> of
  the standard library (which folds all of Unicode) and the YAML and JSON parsers are arguments.
\<close>

section \<open>Environment variables\<close>

type_synonym settings = "string \<rightharpoonup> string"

record env_var =
  ev_standard :: string
  ev_legacy :: "string list"

definition env_var_new :: "string \<Rightarrow> env_var" where
  "env_var_new n = \<lparr>ev_standard = n, ev_legacy = []\<rparr>"

definition with_legacy :: "string \<Rightarrow> env_var \<Rightarrow> env_var" where
  "with_legacy n v = v\<lparr>ev_legacy := ev_legacy v @ [n]\<rparr>"

definition with_legacy_names :: "string list \<Rightarrow> env_var \<Rightarrow> env_var" where
  "with_legacy_names ns v = fold with_legacy ns v"

fun first_set :: "settings \<Rightarrow> string list \<Rightarrow> string option" where
  "first_set env [] = None"
| "first_set env (n # ns) = (case env n of Some v \<Rightarrow> Some v | None \<Rightarrow> first_set env ns)"

definition ev_get :: "settings \<Rightarrow> env_var \<Rightarrow> string option" where
  "ev_get env v = (case env (ev_standard v) of Some x \<Rightarrow> Some x | None \<Rightarrow> first_set env (ev_legacy v))"

definition get_or :: "settings \<Rightarrow> string \<Rightarrow> env_var \<Rightarrow> string" where
  "get_or env d v = (case ev_get env v of Some x \<Rightarrow> x | None \<Rightarrow> d)"

definition get_bool :: "(string \<Rightarrow> string) \<Rightarrow> settings \<Rightarrow> env_var \<Rightarrow> bool option" where
  "get_bool lower env v = map_option (\<lambda>x. lower x \<in> {''true'', ''1'', ''yes'', ''on''}) (ev_get env v)"

fun split_comma :: "string \<Rightarrow> string list" where
  "split_comma [] = [[]]"
| "split_comma (c # cs) = (if c = CHR '','' then [] # split_comma cs
     else case split_comma cs of [] \<Rightarrow> [[c]] | s # ss \<Rightarrow> (c # s) # ss)"

fun join_comma :: "string list \<Rightarrow> string" where
  "join_comma [] = []"
| "join_comma [x] = x"
| "join_comma (x # y # zs) = x @ CHR '','' # join_comma (y # zs)"

definition get_list :: "settings \<Rightarrow> env_var \<Rightarrow> string list option" where
  "get_list env v = map_option (\<lambda>x. map trim_str (split_comma x)) (ev_get env v)"

definition which_name_used :: "settings \<Rightarrow> env_var \<Rightarrow> string option" where
  "which_name_used env v = (if env (ev_standard v) \<noteq> None then Some (ev_standard v) else find (\<lambda>n. env n \<noteq> None) (ev_legacy v))"

section \<open>Numbers as text\<close>

fun show_nat :: "nat \<Rightarrow> string" where
  "show_nat n = (if n < 10 then [char_of (48 + n)] else show_nat (n div 10) @ [char_of (48 + n mod 10)])"

declare show_nat.simps [simp del]

definition show_int :: "int \<Rightarrow> string" where
  "show_int i = (if i < 0 then CHR ''-'' # show_nat (nat (- i)) else show_nat (nat i))"

definition show_bool :: "bool \<Rightarrow> string" where
  "show_bool b = (if b then ''true'' else ''false'')"

section \<open>Sizing\<close>

datatype self_regulation_profile = Throughput | Balanced | LowLatency

record consumer_knobs =
  ck_fetch_min_bytes :: "int option"
  ck_fetch_max_wait_ms :: "nat option"
  ck_max_partition_fetch_bytes :: "int option"
  ck_fetch_max_bytes :: "int option"
  ck_max_poll_records :: "nat option"

record producer_knobs =
  pk_batch_size_bytes :: "int option"
  pk_linger_ms :: "nat option"
  pk_compression_type :: "string option"
  pk_buffer_memory_bytes :: "nat option"
  pk_max_in_flight :: "nat option"

fun consumer_defaults :: "self_regulation_profile \<Rightarrow> consumer_knobs" where
  "consumer_defaults Throughput = \<lparr>ck_fetch_min_bytes = Some 1048576, ck_fetch_max_wait_ms = Some 50,
     ck_max_partition_fetch_bytes = Some 10485760, ck_fetch_max_bytes = Some 104857600, ck_max_poll_records = Some 2000\<rparr>"
| "consumer_defaults Balanced = \<lparr>ck_fetch_min_bytes = Some 262144, ck_fetch_max_wait_ms = Some 25,
     ck_max_partition_fetch_bytes = Some 5242880, ck_fetch_max_bytes = Some 52428800, ck_max_poll_records = Some 1000\<rparr>"
| "consumer_defaults LowLatency = \<lparr>ck_fetch_min_bytes = Some 1, ck_fetch_max_wait_ms = Some 5,
     ck_max_partition_fetch_bytes = Some 1048576, ck_fetch_max_bytes = Some 10485760, ck_max_poll_records = Some 500\<rparr>"

fun producer_defaults :: "self_regulation_profile \<Rightarrow> producer_knobs" where
  "producer_defaults Throughput = \<lparr>pk_batch_size_bytes = Some 131072, pk_linger_ms = Some 20, pk_compression_type = Some ''lz4'',
     pk_buffer_memory_bytes = Some 67108864, pk_max_in_flight = Some 5\<rparr>"
| "producer_defaults Balanced = \<lparr>pk_batch_size_bytes = Some 65536, pk_linger_ms = Some 5, pk_compression_type = Some ''lz4'',
     pk_buffer_memory_bytes = Some 33554432, pk_max_in_flight = Some 5\<rparr>"
| "producer_defaults LowLatency = \<lparr>pk_batch_size_bytes = Some 16384, pk_linger_ms = Some 0, pk_compression_type = Some ''lz4'',
     pk_buffer_memory_bytes = Some 16777216, pk_max_in_flight = Some 5\<rparr>"

record kafka_sizing =
  sz_profile :: self_regulation_profile
  sz_consumer :: consumer_knobs
  sz_producer :: producer_knobs
  sz_consumer_librdkafka :: settings
  sz_producer_librdkafka :: settings

definition no_consumer_knobs :: consumer_knobs where
  "no_consumer_knobs = \<lparr>ck_fetch_min_bytes = None, ck_fetch_max_wait_ms = None, ck_max_partition_fetch_bytes = None,
     ck_fetch_max_bytes = None, ck_max_poll_records = None\<rparr>"

definition no_producer_knobs :: producer_knobs where
  "no_producer_knobs = \<lparr>pk_batch_size_bytes = None, pk_linger_ms = None, pk_compression_type = None, pk_buffer_memory_bytes = None,
     pk_max_in_flight = None\<rparr>"

definition kafka_sizing_default :: kafka_sizing where
  "kafka_sizing_default = \<lparr>sz_profile = Throughput, sz_consumer = no_consumer_knobs, sz_producer = no_producer_knobs,
     sz_consumer_librdkafka = Map.empty, sz_producer_librdkafka = Map.empty\<rparr>"

text \<open>\<open>explicit.or(profile).unwrap_or(d)\<close>.\<close>

definition knob :: "'a option \<Rightarrow> 'a option \<Rightarrow> 'a \<Rightarrow> 'a" where
  "knob explicit profile d = (case explicit of Some v \<Rightarrow> v | None \<Rightarrow> (case profile of Some v \<Rightarrow> v | None \<Rightarrow> d))"

definition consumer_knob_settings :: "kafka_sizing \<Rightarrow> settings" where
  "consumer_knob_settings z = (let p = consumer_defaults (sz_profile z); c = sz_consumer z in
     [''fetch.min.bytes'' \<mapsto> show_int (knob (ck_fetch_min_bytes c) (ck_fetch_min_bytes p) 1),
      ''fetch.wait.max.ms'' \<mapsto> show_nat (knob (ck_fetch_max_wait_ms c) (ck_fetch_max_wait_ms p) 500),
      ''max.partition.fetch.bytes'' \<mapsto> show_int (knob (ck_max_partition_fetch_bytes c) (ck_max_partition_fetch_bytes p) 1048576),
      ''fetch.max.bytes'' \<mapsto> show_int (knob (ck_fetch_max_bytes c) (ck_fetch_max_bytes p) 52428800)])"

definition resolved_consumer_map :: "kafka_sizing \<Rightarrow> settings" where
  "resolved_consumer_map z = consumer_knob_settings z ++ sz_consumer_librdkafka z"

definition producer_knob_settings :: "kafka_sizing \<Rightarrow> settings" where
  "producer_knob_settings z = (let p = producer_defaults (sz_profile z); c = sz_producer z; linger = knob (pk_linger_ms c) (pk_linger_ms p) 5 in
     [''batch.size'' \<mapsto> show_int (knob (pk_batch_size_bytes c) (pk_batch_size_bytes p) 1000000),
      ''linger.ms'' \<mapsto> show_nat linger,
      ''compression.type'' \<mapsto> knob (pk_compression_type c) (pk_compression_type p) ''none'',
      ''queue.buffering.max.kbytes'' \<mapsto> show_nat (max (knob (pk_buffer_memory_bytes c) (pk_buffer_memory_bytes p) 1073741824 div 1024) 1),
      ''max.in.flight.requests.per.connection'' \<mapsto> show_nat (knob (pk_max_in_flight c) (pk_max_in_flight p) 1000000),
      ''sticky.partitioning.linger.ms'' \<mapsto> show_nat linger])"

definition resolved_producer_map :: "kafka_sizing \<Rightarrow> settings" where
  "resolved_producer_map z = producer_knob_settings z ++ sz_producer_librdkafka z"

definition effective_poll_cap :: "kafka_sizing \<Rightarrow> nat" where
  "effective_poll_cap z = knob (ck_max_poll_records (sz_consumer z)) (ck_max_poll_records (consumer_defaults (sz_profile z))) 10000"

section \<open>The configuration\<close>

datatype kafka_profile = Production | DevTest
datatype kafka_role = Duplex | ConsumerRole | ProducerRole

definition profile_of_str :: "(string \<Rightarrow> string) \<Rightarrow> string \<Rightarrow> (kafka_profile, string) result" where
  "profile_of_str lower s = (let l = lower s in
     if l \<in> {''production'', ''prod''} then Ok Production
     else if l \<in> {''devtest'', ''dev'', ''test'', ''development''} then Ok DevTest
     else Err (''Unknown Kafka profile: '' @ s @ ''. Valid: production, devtest''))"

fun profile_display :: "kafka_profile \<Rightarrow> string" where
  "profile_display Production = ''production''" | "profile_display DevTest = ''devtest''"

definition merge_with_overrides :: "(string \<times> string) list \<Rightarrow> settings \<Rightarrow> settings" where
  "merge_with_overrides profile overrides = foldl (\<lambda>m (k, v). m(k \<mapsto> v)) Map.empty profile ++ overrides"

definition PRODUCTION_PROFILE :: "(string \<times> string) list" where
  "PRODUCTION_PROFILE = [(''partition.assignment.strategy'', ''cooperative-sticky''), (''fetch.min.bytes'', ''1048576''), (''fetch.wait.max.ms'', ''100''),
     (''queued.min.messages'', ''20000''), (''enable.auto.commit'', ''false''), (''statistics.interval.ms'', ''1000'')]"

definition DEVTEST_PROFILE :: "(string \<times> string) list" where
  "DEVTEST_PROFILE = [(''partition.assignment.strategy'', ''cooperative-sticky''), (''queued.min.messages'', ''1000''), (''enable.auto.commit'', ''false''),
     (''reconnect.backoff.ms'', ''10''), (''reconnect.backoff.max.ms'', ''100''), (''log.connection.close'', ''true''), (''statistics.interval.ms'', ''1000'')]"

definition PRODUCER_HIGH_THROUGHPUT :: "(string \<times> string) list" where
  "PRODUCER_HIGH_THROUGHPUT = [(''linger.ms'', ''100''), (''compression.type'', ''zstd''), (''socket.nagle.disable'', ''true''), (''statistics.interval.ms'', ''1000'')]"

definition LOW_LATENCY_CONSUMER_DEFAULTS :: "(string \<times> string) list" where
  "LOW_LATENCY_CONSUMER_DEFAULTS = [(''partition.assignment.strategy'', ''cooperative-sticky''), (''fetch.wait.max.ms'', ''10''),
     (''queued.min.messages'', ''1000''), (''enable.auto.commit'', ''false''), (''reconnect.backoff.ms'', ''10''),
     (''reconnect.backoff.max.ms'', ''100''), (''statistics.interval.ms'', ''1000'')]"

record kafka_config =
  kc_profile :: kafka_profile
  kc_role :: kafka_role
  kc_brokers :: "string list"
  kc_group :: string
  kc_client_id :: string
  kc_group_instance_id :: "string option"
  kc_topics :: "string list"
  kc_auto_discover :: bool
  kc_topic_include :: "string list"
  kc_topic_exclude :: "string list"
  kc_topic_refresh_secs :: nat
  kc_topic_suppression_rules :: "suppression_rule list"
  kc_security_protocol :: string
  kc_sasl_mechanism :: "string option"
  kc_sasl_username :: "string option"
  kc_sasl_password :: "string option"
  kc_ssl_ca_location :: "string option"
  kc_ssl_certificate_location :: "string option"
  kc_ssl_key_location :: "string option"
  kc_ssl_skip_verify :: bool
  kc_allow_insecure_transport :: bool
  kc_enable_auto_commit :: bool
  kc_auto_commit_interval_ms :: nat
  kc_session_timeout_ms :: nat
  kc_heartbeat_interval_ms :: nat
  kc_max_poll_interval_ms :: nat
  kc_fetch_min_bytes :: int
  kc_fetch_max_bytes :: int
  kc_max_partition_fetch_bytes :: int
  kc_auto_offset_reset :: string
  kc_enable_partition_eof :: bool
  kc_sizing :: kafka_sizing
  kc_librdkafka_overrides :: settings
  kc_extra_config :: settings
  kc_filters_in :: "filter_rule list"
  kc_filters_out :: "filter_rule list"

definition kafka_config_default :: kafka_config where
  "kafka_config_default = \<lparr>kc_profile = Production, kc_role = Duplex, kc_brokers = [''localhost:9092''], kc_group = ''hyperi-rustlib-consumer'',
     kc_client_id = ''hyperi-rustlib'', kc_group_instance_id = None, kc_topics = [], kc_auto_discover = False, kc_topic_include = [],
     kc_topic_exclude = [''^__''], kc_topic_refresh_secs = 60,
     kc_topic_suppression_rules = [\<lparr>preferred_suffix = ''_load'', suppressed_suffix = ''_land''\<rparr>],
     kc_security_protocol = ''plaintext'', kc_sasl_mechanism = None, kc_sasl_username = None, kc_sasl_password = None,
     kc_ssl_ca_location = None, kc_ssl_certificate_location = None, kc_ssl_key_location = None, kc_ssl_skip_verify = False,
     kc_allow_insecure_transport = False, kc_enable_auto_commit = False, kc_auto_commit_interval_ms = 5000, kc_session_timeout_ms = 45000,
     kc_heartbeat_interval_ms = 3000, kc_max_poll_interval_ms = 300000, kc_fetch_min_bytes = 1, kc_fetch_max_bytes = 52428800,
     kc_max_partition_fetch_bytes = 1048576, kc_auto_offset_reset = ''earliest'', kc_enable_partition_eof = False,
     kc_sizing = kafka_sizing_default, kc_librdkafka_overrides = Map.empty, kc_extra_config = Map.empty, kc_filters_in = [], kc_filters_out = []\<rparr>"


section \<open>Builders\<close>

definition kc_production :: kafka_config where "kc_production = kafka_config_default\<lparr>kc_profile := Production\<rparr>"

definition kc_devtest :: kafka_config where "kc_devtest = kafka_config_default\<lparr>kc_profile := DevTest, kc_ssl_skip_verify := True\<rparr>"

definition for_testing :: "string \<Rightarrow> string \<Rightarrow> string list \<Rightarrow> kafka_config" where
  "for_testing brokers grp topics = kafka_config_default\<lparr>kc_profile := DevTest, kc_brokers := [brokers], kc_group := grp, kc_topics := topics,
     kc_ssl_skip_verify := True\<rparr>"

definition with_profile :: "kafka_profile \<Rightarrow> kafka_config \<Rightarrow> kafka_config" where
  "with_profile p c = (let c = c\<lparr>kc_profile := p\<rparr> in if p = DevTest then c\<lparr>kc_ssl_skip_verify := True\<rparr> else c)"

definition profile_defaults :: "kafka_config \<Rightarrow> (string \<times> string) list" where
  "profile_defaults c = (case kc_profile c of Production \<Rightarrow> PRODUCTION_PROFILE | DevTest \<Rightarrow> DEVTEST_PROFILE)"

definition sets :: "(string \<times> string) list \<Rightarrow> settings \<Rightarrow> settings" where
  "sets kvs m = foldl (\<lambda>m (k, v). m(k \<mapsto> v)) m kvs"

definition build_librdkafka_config :: "kafka_config \<Rightarrow> settings" where
  "build_librdkafka_config c = sets (profile_defaults c) Map.empty ++ kc_extra_config c ++ kc_librdkafka_overrides c"

definition with_override :: "string \<Rightarrow> string \<Rightarrow> kafka_config \<Rightarrow> kafka_config" where
  "with_override k v c = c\<lparr>kc_librdkafka_overrides := (kc_librdkafka_overrides c)(k \<mapsto> v)\<rparr>"

definition with_overrides :: "(string \<times> string) list \<Rightarrow> kafka_config \<Rightarrow> kafka_config" where
  "with_overrides kvs c = c\<lparr>kc_librdkafka_overrides := sets kvs (kc_librdkafka_overrides c)\<rparr>"

definition with_scram :: "string \<Rightarrow> string \<Rightarrow> string \<Rightarrow> kafka_config \<Rightarrow> kafka_config" where
  "with_scram mech user pw c = c\<lparr>kc_security_protocol := ''sasl_plaintext'', kc_sasl_mechanism := Some mech, kc_sasl_username := Some user, kc_sasl_password := Some pw\<rparr>"

definition with_scram_ssl :: "string \<Rightarrow> string \<Rightarrow> string \<Rightarrow> kafka_config \<Rightarrow> kafka_config" where
  "with_scram_ssl mech user pw c = c\<lparr>kc_security_protocol := ''sasl_ssl'', kc_sasl_mechanism := Some mech, kc_sasl_username := Some user, kc_sasl_password := Some pw\<rparr>"

definition over_tls :: "string \<Rightarrow> string" where
  "over_tls p = (if p = ''plaintext'' then ''ssl'' else if p = ''sasl_plaintext'' then ''sasl_ssl'' else p)"

definition with_tls :: "string option \<Rightarrow> kafka_config \<Rightarrow> kafka_config" where
  "with_tls ca c = c\<lparr>kc_security_protocol := over_tls (kc_security_protocol c), kc_ssl_ca_location := ca\<rparr>"

definition with_client_cert :: "string \<Rightarrow> string \<Rightarrow> kafka_config \<Rightarrow> kafka_config" where
  "with_client_cert cert keyf c = c\<lparr>kc_ssl_certificate_location := Some cert, kc_ssl_key_location := Some keyf\<rparr>"

definition with_ssl_skip_verify :: "kafka_config \<Rightarrow> kafka_config" where
  "with_ssl_skip_verify c = c\<lparr>kc_ssl_skip_verify := True\<rparr>"

definition with_ssl_insecure :: "kafka_config \<Rightarrow> kafka_config" where
  "with_ssl_insecure c = c\<lparr>kc_security_protocol := over_tls (kc_security_protocol c), kc_ssl_skip_verify := True\<rparr>"

definition ascii_lower :: "string \<Rightarrow> string" where
  "ascii_lower s = map (\<lambda>c. let n = of_char c :: nat in if 65 \<le> n \<and> n \<le> 90 then char_of (n + 32) else c) s"

definition kc_validate :: "bool \<Rightarrow> kafka_config \<Rightarrow> (unit, string) result" where
  "kc_validate is_production c =
     (if \<not> is_production then Ok ()
      else if kc_ssl_skip_verify c then Err ''kafka: ssl_skip_verify (TLS verification disabled) is not permitted in production -- configure ssl_ca_location for private-CA trust instead''
      else if \<not> kc_allow_insecure_transport c \<and> ascii_lower (kc_security_protocol c) \<in> {''plaintext'', ''sasl_plaintext''}
        then Err (''kafka: security_protocol='' @ [CHR 39] @ kc_security_protocol c @ [CHR 39] @ '' sends data/credentials unencrypted and is not permitted in production -- use 'ssl'/'sasl_ssl', or set allow_insecure_transport=true to deliberately opt in (e.g. mesh-encrypted in-cluster traffic)'')
      else Ok ())"

text \<open>\<open>entry(k).or_insert(v)\<close>: what is there stays.\<close>

definition or_inserts :: "(string \<times> string) list \<Rightarrow> settings \<Rightarrow> settings" where
  "or_inserts kvs m = foldl (\<lambda>m (k, v). if m k = None then m(k \<mapsto> v) else m) m kvs"

definition with_producer_defaults :: "kafka_config \<Rightarrow> kafka_config" where
  "with_producer_defaults c = c\<lparr>kc_extra_config := or_inserts PRODUCER_HIGH_THROUGHPUT (kc_extra_config c)\<rparr>"

definition with_high_throughput :: "kafka_config \<Rightarrow> kafka_config" where
  "with_high_throughput c = c\<lparr>kc_extra_config := or_inserts PRODUCTION_PROFILE (kc_extra_config c)\<rparr>"

definition with_low_latency :: "kafka_config \<Rightarrow> kafka_config" where
  "with_low_latency c = c\<lparr>kc_extra_config := or_inserts LOW_LATENCY_CONSUMER_DEFAULTS (kc_extra_config c)\<rparr>"

definition with_statistics :: "nat \<Rightarrow> kafka_config \<Rightarrow> kafka_config" where
  "with_statistics n c = with_override ''statistics.interval.ms'' (show_nat n) c"

definition with_cloud_connection_tuning :: "kafka_config \<Rightarrow> kafka_config" where
  "with_cloud_connection_tuning c = c\<lparr>kc_librdkafka_overrides := or_inserts [(''socket.keepalive.enable'', ''true''), (''metadata.max.age.ms'', ''180000''),
     (''socket.connection.setup.timeout.ms'', ''30000''), (''connections.max.idle.ms'', ''540000'')] (kc_librdkafka_overrides c)\<rparr>"

section \<open>From the environment\<close>

definition prefixed :: "string \<Rightarrow> string \<Rightarrow> string list \<Rightarrow> env_var" where
  "prefixed pre name legacy = with_legacy (''KAFKA_'' @ name)
     (with_legacy_names (map (\<lambda>l. pre @ ''_'' @ l) legacy) (env_var_new (pre @ ''_'' @ name)))"

definition upd :: "'a option \<Rightarrow> ('a \<Rightarrow> 'c \<Rightarrow> 'c) \<Rightarrow> 'c \<Rightarrow> 'c" where
  "upd v f c = (case v of None \<Rightarrow> c | Some x \<Rightarrow> f x c)"

definition from_env :: "(string \<Rightarrow> string) \<Rightarrow> settings \<Rightarrow> string \<Rightarrow> kafka_config" where
  "from_env lower env pre = (let get = (\<lambda>n l. ev_get env (prefixed pre n l)) in
     fold (\<lambda>f. f)
      [upd (get ''PROFILE'' []) (\<lambda>v c. case profile_of_str lower v of
          Inl _ \<Rightarrow> c | Inr p \<Rightarrow> (let c = c\<lparr>kc_profile := p\<rparr> in if p = DevTest then c\<lparr>kc_ssl_skip_verify := True\<rparr> else c)),
       upd (get_list env (prefixed pre ''BOOTSTRAP_SERVERS'' [''BROKERS''])) (\<lambda>v c. c\<lparr>kc_brokers := v\<rparr>),
       upd (get ''GROUP_ID'' [''GROUP'', ''CONSUMER_GROUP'']) (\<lambda>v c. c\<lparr>kc_group := v\<rparr>),
       upd (get ''CLIENT_ID'' []) (\<lambda>v c. c\<lparr>kc_client_id := v\<rparr>),
       upd (get ''GROUP_INSTANCE_ID'' []) (\<lambda>v c. if v = [] then c else c\<lparr>kc_group_instance_id := Some v\<rparr>),
       upd (get ''SECURITY_PROTOCOL'' []) (\<lambda>v c. c\<lparr>kc_security_protocol := v\<rparr>),
       upd (get ''SASL_MECHANISM'' []) (\<lambda>v c. c\<lparr>kc_sasl_mechanism := Some v\<rparr>),
       upd (get ''SASL_USERNAME'' [''SASL_USER'']) (\<lambda>v c. c\<lparr>kc_sasl_username := Some v\<rparr>),
       upd (get ''SASL_PASSWORD'' []) (\<lambda>v c. c\<lparr>kc_sasl_password := Some v\<rparr>),
       upd (get ''SSL_CA_LOCATION'' [''CA_CERT'', ''SSL_CA'']) (\<lambda>v c. c\<lparr>kc_ssl_ca_location := Some v\<rparr>),
       upd (get_bool lower env (prefixed pre ''SSL_SKIP_VERIFY'' [''SSL_INSECURE'', ''INSECURE''])) (\<lambda>v c. c\<lparr>kc_ssl_skip_verify := v\<rparr>),
       upd (get_list env (prefixed pre ''TOPICS'' [''TOPIC''])) (\<lambda>v c. c\<lparr>kc_topics := v\<rparr>)]
      kafka_config_default)"

definition from_env_standard :: "(string \<Rightarrow> string) \<Rightarrow> settings \<Rightarrow> kafka_config" where
  "from_env_standard lower env = from_env lower env ''KAFKA''"

section \<open>Client settings\<close>

definition opt_set :: "string \<Rightarrow> string option \<Rightarrow> (string \<times> string) list" where
  "opt_set k v = (case v of None \<Rightarrow> [] | Some x \<Rightarrow> [(k, x)])"

definition explicit_settings :: "kafka_config \<Rightarrow> (string \<times> string) list" where
  "explicit_settings c = [(''bootstrap.servers'', join_comma (kc_brokers c)), (''group.id'', kc_group c)] @ opt_set ''group.instance.id'' (kc_group_instance_id c)
     @ [(''enable.auto.commit'', show_bool (kc_enable_auto_commit c)), (''auto.commit.interval.ms'', show_nat (kc_auto_commit_interval_ms c)),
        (''session.timeout.ms'', show_nat (kc_session_timeout_ms c)), (''heartbeat.interval.ms'', show_nat (kc_heartbeat_interval_ms c)),
        (''max.poll.interval.ms'', show_nat (kc_max_poll_interval_ms c)), (''fetch.min.bytes'', show_int (kc_fetch_min_bytes c)),
        (''fetch.max.bytes'', show_int (kc_fetch_max_bytes c)), (''max.partition.fetch.bytes'', show_int (kc_max_partition_fetch_bytes c)),
        (''auto.offset.reset'', kc_auto_offset_reset c), (''enable.partition.eof'', show_bool (kc_enable_partition_eof c))]"

definition security_settings :: "kafka_config \<Rightarrow> (string \<times> string) list" where
  "security_settings c = [(''security.protocol'', kc_security_protocol c)] @ opt_set ''sasl.mechanism'' (kc_sasl_mechanism c)
     @ opt_set ''sasl.username'' (kc_sasl_username c) @ opt_set ''sasl.password'' (kc_sasl_password c)
     @ opt_set ''ssl.ca.location'' (kc_ssl_ca_location c) @ opt_set ''ssl.certificate.location'' (kc_ssl_certificate_location c)
     @ opt_set ''ssl.key.location'' (kc_ssl_key_location c)
     @ (if kc_ssl_skip_verify c then [(''enable.ssl.certificate.verification'', ''false'')] else [])"

definition stats_fallback :: "settings \<Rightarrow> settings" where
  "stats_fallback m = (if m ''statistics.interval.ms'' = None then m(''statistics.interval.ms'' \<mapsto> ''5000'') else m)"

definition consumer_settings :: "kafka_config \<Rightarrow> settings" where
  "consumer_settings c = stats_fallback (sets (security_settings c @ [(''client.id'', kc_client_id c)])
     (sets (explicit_settings c) Map.empty ++ build_librdkafka_config c ++ resolved_consumer_map (kc_sizing c) ++ kc_librdkafka_overrides c))"

definition producer_settings :: "kafka_config \<Rightarrow> settings" where
  "producer_settings c = stats_fallback
     (sets ([(''bootstrap.servers'', join_comma (kc_brokers c))] @ security_settings c @ [(''client.id'', kc_client_id c)]) Map.empty
      ++ resolved_producer_map (kc_sizing c) ++ kc_librdkafka_overrides c)"

definition admin_settings :: "kafka_config \<Rightarrow> settings" where
  "admin_settings c = sets ([(''bootstrap.servers'', join_comma (kc_brokers c)), (''client.id'', kc_client_id c)] @ security_settings c) Map.empty
     ++ build_librdkafka_config c"

text \<open>What \<open>KafkaTransport::new\<close> sets out to build.\<close>

datatype topic_plan = Subscribe "string list" | Discover

record client_plan =
  cp_consumer :: "(settings \<times> topic_plan) option"
  cp_producer :: "settings option"

definition kafka_plan :: "bool \<Rightarrow> kafka_config \<Rightarrow> (client_plan, transport_error) result" where
  "kafka_plan is_production c = (case kc_validate is_production c of
     Inl e \<Rightarrow> Err (TeConfig e)
   | Inr _ \<Rightarrow>
       (let want_consumer = (kc_role c \<noteq> ProducerRole \<and> trim_str (kc_group c) \<noteq> []); want_producer = (kc_role c \<noteq> ConsumerRole) in
        if \<not> want_consumer \<and> \<not> want_producer
        then Err (TeConfig ''Kafka transport has neither a consumer nor a producer (role=Consumer with an empty group?)'')
        else Ok \<lparr>cp_consumer = (if want_consumer then Some (consumer_settings c,
                     if kc_topics c = [] \<and> kc_auto_discover c then Discover else Subscribe (kc_topics c)) else None),
                 cp_producer = (if want_producer then Some (producer_settings c) else None)\<rparr>))"


section \<open>Files and the topic convention\<close>

datatype kafka_file_error = FileNotFound string | UnsupportedFormat string | KfParseError string string | KfIo string

text \<open>\<open>str::lines\<close>: split at newlines, a carriage return before one goes with it, and no empty last line.\<close>

fun split_nl :: "string \<Rightarrow> string list" where
  "split_nl [] = [[]]"
| "split_nl (c # cs) = (if c = CHR 10 then [] # split_nl cs else case split_nl cs of [] \<Rightarrow> [[c]] | s # ss \<Rightarrow> (c # s) # ss)"

definition str_lines :: "string \<Rightarrow> string list" where
  "str_lines s = (let ls = split_nl s; ls = (if last ls = [] then butlast ls else ls)
     in map (\<lambda>l. if l \<noteq> [] \<and> last l = CHR 13 then butlast l else l) ls)"

definition split_once :: "char \<Rightarrow> string \<Rightarrow> (string \<times> string) option" where
  "split_once d s = (if d \<in> set s then Some (takeWhile (\<lambda>c. c \<noteq> d) s, tl (dropWhile (\<lambda>c. c \<noteq> d) s)) else None)"

definition property_of_line :: "string \<Rightarrow> (string \<times> string) option" where
  "property_of_line line = (let l = trim_str line in
     if l = [] \<or> hd l = CHR ''#'' \<or> hd l = CHR ''!'' then None
     else map_option (\<lambda>(k, v). (trim_str k, trim_str v)) (split_once CHR ''='' l))"

definition config_from_properties_str :: "string \<Rightarrow> settings" where
  "config_from_properties_str content = foldl (\<lambda>m l. case property_of_line l of None \<Rightarrow> m | Some (k, v) \<Rightarrow> m(k \<mapsto> v)) Map.empty (str_lines content)"

text \<open>\<open>content\<close> is what reading the file gave: \<open>Inl None\<close> when it does not exist.\<close>

definition config_from_file :: "(string \<Rightarrow> string) \<Rightarrow> (string \<Rightarrow> (settings, string) result) \<Rightarrow> (string \<Rightarrow> (settings, string) result) \<Rightarrow>
    string \<Rightarrow> string \<Rightarrow> string option + string \<Rightarrow> (settings, kafka_file_error) result" where
  "config_from_file lower yaml json path ext content = (case content of
     Inl None \<Rightarrow> Err (FileNotFound path)
   | Inl (Some e) \<Rightarrow> Err (KfIo e)
   | Inr body \<Rightarrow> (let x = lower ext; parsed = (\<lambda>r. case r of Inl e \<Rightarrow> Err (KfParseError path e) | Inr m \<Rightarrow> Ok m) in
       if x = ''properties'' then Ok (config_from_properties_str body)
       else if x \<in> {''yaml'', ''yml''} then parsed (yaml body)
       else if x = ''json'' then parsed (json body)
       else Err (UnsupportedFormat x)))"

datatype service_role = Transform | Universal

record dfe_source =
  df_name :: string
  df_land_suffix :: string
  df_load_suffix :: string

definition dfe_source_new :: "string \<Rightarrow> dfe_source" where
  "dfe_source_new n = \<lparr>df_name = n, df_land_suffix = ''_land'', df_load_suffix = ''_load''\<rparr>"

definition with_suffixes :: "string \<Rightarrow> string \<Rightarrow> string \<Rightarrow> dfe_source" where
  "with_suffixes n a b = \<lparr>df_name = n, df_land_suffix = a, df_load_suffix = b\<rparr>"

definition input_topic :: "dfe_source \<Rightarrow> string" where "input_topic d = df_name d @ df_land_suffix d"
definition output_topic :: "dfe_source \<Rightarrow> string" where "output_topic d = df_name d @ df_load_suffix d"

definition consumer_group :: "string \<Rightarrow> service_role \<Rightarrow> string option \<Rightarrow> string option \<Rightarrow> dfe_source \<Rightarrow> (string, kafka_file_error) result" where
  "consumer_group service role pipeline cg d = (case cg of
     Some g \<Rightarrow> Ok g
   | None \<Rightarrow> (case role of
       Universal \<Rightarrow> Ok (''dfe-'' @ service)
     | Transform \<Rightarrow> (let suf = (case pipeline of Some p \<Rightarrow> p | None \<Rightarrow> df_name d) in
         if suf = [] then Err (KfParseError '''' (''transform service '' @ [CHR 39] @ service @ [CHR 39] @ '' requires a source or pipeline name for its consumer group -- a bare 'dfe-'' @ service @ [CHR 39] @ '' CG would cause multiple pipelines to compete for messages''))
         else Ok (''dfe-'' @ service @ ''-'' @ suf))))"

definition source_from_topic :: "string \<Rightarrow> string option" where
  "source_from_topic t = (case strip_suffix ''_land'' t of Some s \<Rightarrow> Some s | None \<Rightarrow> strip_suffix ''_load'' t)"

section \<open>What the clients get\<close>

lemma sets_lookup: "sets kvs m k = (case map_of (rev kvs) k of Some v \<Rightarrow> Some v | None \<Rightarrow> m k)"
  by (induction kvs arbitrary: m) (auto simp: sets_def map_add_Some_iff map_of_append split: option.split)

lemma stats_other: "k \<noteq> ''statistics.interval.ms'' \<Longrightarrow> stats_fallback m k = m k"
  by (simp add: stats_fallback_def)

lemma map_of_opt_set [simp]: "map_of (opt_set k v) x = (if x = k then v else None)"
  by (simp add: opt_set_def split: option.split)

lemma rev_opt_set [simp]: "rev (opt_set k v) = opt_set k v"
  by (simp add: opt_set_def split: option.split)

lemma map_of_snoc_rev: "map_of (rev (xs @ ys)) k = (case map_of (rev ys) k of Some v \<Rightarrow> Some v | None \<Rightarrow> map_of (rev xs) k)"
  by (simp add: map_add_def split: option.split)

lemma profile_auto_commit: "map_of (rev (profile_defaults c)) ''enable.auto.commit'' = Some ''false''"
  by (simp add: profile_defaults_def PRODUCTION_PROFILE_def DEVTEST_PROFILE_def split: kafka_profile.split)

lemma security_no_commit: "map_of (rev (security_settings c)) ''enable.auto.commit'' = None"
  by (simp add: security_settings_def map_add_def)

text \<open>The consumer never commits on its own unless an operator's raw map says so: for every configuration, the
  client's \<open>enable.auto.commit\<close> is what \<open>librdkafka_overrides\<close> has for it, else what \<open>sizing.consumer_librdkafka\<close> has, else
  the legacy \<open>extra_config\<close>, else \<open>false\<close> - in every profile, and whatever the field \<open>enable_auto_commit\<close> holds.\<close>

theorem consumer_commits_manually:
  "consumer_settings c ''enable.auto.commit'' =
     (case kc_librdkafka_overrides c ''enable.auto.commit'' of Some v \<Rightarrow> Some v
      | None \<Rightarrow> (case sz_consumer_librdkafka (kc_sizing c) ''enable.auto.commit'' of Some v \<Rightarrow> Some v
        | None \<Rightarrow> (case kc_extra_config c ''enable.auto.commit'' of Some v \<Rightarrow> Some v | None \<Rightarrow> Some ''false'')))"
proof -
  have k: "consumer_knob_settings z ''enable.auto.commit'' = None" for z by (simp add: consumer_knob_settings_def Let_def)
  have "map_of (rev (security_settings c @ [(''client.id'', kc_client_id c)])) ''enable.auto.commit'' = None"
    using security_no_commit[of c] by simp
  then have "consumer_settings c ''enable.auto.commit'' =
      (sets (explicit_settings c) Map.empty ++ build_librdkafka_config c ++ resolved_consumer_map (kc_sizing c) ++ kc_librdkafka_overrides c) ''enable.auto.commit''"
    unfolding consumer_settings_def by (simp add: stats_other sets_lookup)
  then show ?thesis
    by (simp add: map_add_def resolved_consumer_map_def k build_librdkafka_config_def sets_lookup profile_auto_commit split: option.split)
qed

text \<open>Layers below the security settings, and what decides the two keys that carry the production rule.\<close>

abbreviation silent :: "settings \<Rightarrow> bool" where
  "silent m \<equiv> m ''security.protocol'' = None \<and> m ''enable.ssl.certificate.verification'' = None"

definition raw_maps_silent :: "kafka_config \<Rightarrow> bool" where
  "raw_maps_silent c = (silent (kc_librdkafka_overrides c) \<and> silent (kc_extra_config c)
     \<and> silent (sz_consumer_librdkafka (kc_sizing c)) \<and> silent (sz_producer_librdkafka (kc_sizing c)))"

definition encrypted :: "string \<Rightarrow> bool" where
  "encrypted p = (ascii_lower p \<notin> {''plaintext'', ''sasl_plaintext''})"

definition verified_client :: "kafka_config \<Rightarrow> settings \<Rightarrow> bool" where
  "verified_client c m = (m ''security.protocol'' = Some (kc_security_protocol c) \<and> m ''enable.ssl.certificate.verification'' = None)"

lemma security_verification:
  "map_of (rev (security_settings c)) ''enable.ssl.certificate.verification'' = (if kc_ssl_skip_verify c then Some ''false'' else None)"
  by (simp add: security_settings_def map_add_def)

lemma security_protocol_set: "map_of (rev (security_settings c)) ''security.protocol'' = Some (kc_security_protocol c)"
  by (simp add: security_settings_def map_add_def)

lemma profile_silent: "silent (map_of (rev (profile_defaults c)))"
  by (simp add: profile_defaults_def PRODUCTION_PROFILE_def DEVTEST_PROFILE_def split: kafka_profile.split)

lemma explicit_silent: "silent (map_of (rev (explicit_settings c)))"
  by (simp add: explicit_settings_def map_add_def)

lemma knobs_silent: "silent (consumer_knob_settings z)" "silent (producer_knob_settings z)"
  by (simp_all add: consumer_knob_settings_def producer_knob_settings_def Let_def)

lemma build_silent: "raw_maps_silent c \<Longrightarrow> silent (build_librdkafka_config c)"
  using profile_silent[of c] by (simp add: build_librdkafka_config_def raw_maps_silent_def map_add_def sets_lookup)

lemma consumer_verified:
  assumes "raw_maps_silent c" "\<not> kc_ssl_skip_verify c"
  shows "verified_client c (consumer_settings c)"
  using assms build_silent[OF assms(1)] explicit_silent[of c] knobs_silent[of "kc_sizing c"] security_verification[of c] security_protocol_set[of c]
  by (simp add: verified_client_def consumer_settings_def stats_other sets_lookup map_add_def resolved_consumer_map_def raw_maps_silent_def)

lemma producer_verified:
  assumes "raw_maps_silent c" "\<not> kc_ssl_skip_verify c"
  shows "verified_client c (producer_settings c)"
  using assms knobs_silent[of "kc_sizing c"] security_verification[of c] security_protocol_set[of c]
  by (simp add: verified_client_def producer_settings_def stats_other sets_lookup map_add_def resolved_producer_map_def raw_maps_silent_def)

text \<open>C15. In production a transport whose raw maps leave the two security keys alone is secure or is not built: when the plan of
  \<open>KafkaTransport::new\<close> succeeds, both clients use the configured protocol with certificate verification on (the key that would
  turn it off is unset), the protocol is encrypted unless the operator allowed an insecure transport, and at least one client is built.\<close>

theorem production_clients_verified:
  assumes "kafka_plan True c = Ok plan" "raw_maps_silent c"
  shows "(cp_consumer plan \<noteq> None \<or> cp_producer plan \<noteq> None)
    \<and> (encrypted (kc_security_protocol c) \<or> kc_allow_insecure_transport c)
    \<and> pred_option (\<lambda>(m, t). verified_client c m) (cp_consumer plan) \<and> pred_option (verified_client c) (cp_producer plan)"
proof -
  have v: "\<not> kc_ssl_skip_verify c" "encrypted (kc_security_protocol c) \<or> kc_allow_insecure_transport c"
    using assms(1) by (auto simp: kafka_plan_def kc_validate_def encrypted_def split: if_splits)
  show ?thesis using assms(1) v consumer_verified[OF assms(2) v(1)] producer_verified[OF assms(2) v(1)]
    by (auto simp: kafka_plan_def Let_def split: if_splits sum.splits)
qed

definition tls_config :: kafka_config where
  "tls_config = with_scram_ssl ''SCRAM-SHA-512'' ''u'' ''p'' (kc_production\<lparr>kc_topics := [''a_land'']\<rparr>)"

theorem production_clients_verified_witness:
  "\<exists>m t. kafka_plan True tls_config = Ok \<lparr>cp_consumer = Some (m, t), cp_producer = Some (producer_settings tls_config)\<rparr>
     \<and> t = Subscribe [''a_land''] \<and> verified_client tls_config m \<and> m ''security.protocol'' = Some ''sasl_ssl''"
proof -
  have p: "kafka_plan True tls_config = Ok \<lparr>cp_consumer = Some (consumer_settings tls_config, Subscribe [''a_land'']), cp_producer = Some (producer_settings tls_config)\<rparr>"
    by (simp add: kafka_plan_def tls_config_def with_scram_ssl_def kc_production_def kafka_config_default_def kc_validate_def ascii_lower_def trim_str_def ws_def)
  have r: "raw_maps_silent tls_config"
    by (simp add: raw_maps_silent_def tls_config_def with_scram_ssl_def kc_production_def kafka_config_default_def kafka_sizing_default_def)
  have s: "kc_security_protocol tls_config = ''sasl_ssl''" by (simp add: tls_config_def with_scram_ssl_def)
  show ?thesis using production_clients_verified[OF p r] p s by (auto simp: verified_client_def)
qed

text \<open>A raw override goes around the production check: validation reads the fields only, so a configuration it accepts can build
  a producer in plaintext and two clients that skip certificate verification. The consumer, whose security fields are set
  after the overrides, keeps its protocol, so the two clients of one transport disagree.\<close>

definition raw_override_config :: kafka_config where
  "raw_override_config = with_override ''security.protocol'' ''plaintext'' (with_override ''enable.ssl.certificate.verification'' ''false'' tls_config)"

lemmas raw_override_defs = raw_override_config_def with_override_def tls_config_def with_scram_ssl_def kc_production_def kafka_config_default_def

lemma override_defeats_validation:
  "kc_validate True raw_override_config = Ok ()
   \<and> producer_settings raw_override_config ''security.protocol'' = Some ''plaintext''
   \<and> producer_settings raw_override_config ''enable.ssl.certificate.verification'' = Some ''false''
   \<and> consumer_settings raw_override_config ''enable.ssl.certificate.verification'' = Some ''false''
   \<and> consumer_settings raw_override_config ''security.protocol'' = Some ''sasl_ssl''"
proof (intro conjI)
  let ?c = raw_override_config
  have o: "kc_librdkafka_overrides ?c = [''enable.ssl.certificate.verification'' \<mapsto> ''false'', ''security.protocol'' \<mapsto> ''plaintext'']"
    and s: "\<not> kc_ssl_skip_verify ?c" "kc_security_protocol ?c = ''sasl_ssl''"
    by (simp_all add: raw_override_defs)
  show "kc_validate True ?c = Ok ()" using s by (simp add: kc_validate_def ascii_lower_def)
  show "producer_settings ?c ''security.protocol'' = Some ''plaintext''"
    "producer_settings ?c ''enable.ssl.certificate.verification'' = Some ''false''"
    by (simp_all add: producer_settings_def stats_other map_add_def o)
  show "consumer_settings ?c ''enable.ssl.certificate.verification'' = Some ''false''"
    using security_verification[of ?c] s by (simp add: consumer_settings_def stats_other sets_lookup map_add_def o)
  show "consumer_settings ?c ''security.protocol'' = Some ''sasl_ssl''"
    using security_protocol_set[of ?c] s by (simp add: consumer_settings_def stats_other sets_lookup)
qed

text \<open>The documented precedence puts the explicit fields above the profile. In the code the profile and the sizing knobs
  come later, so a field such as \<open>fetch_min_bytes\<close> or \<open>enable_auto_commit\<close> has no effect on the client.\<close>

lemma explicit_field_ignored:
  "consumer_settings (c\<lparr>kc_enable_auto_commit := b, kc_fetch_min_bytes := n, kc_fetch_max_bytes := i, kc_max_partition_fetch_bytes := j\<rparr>)
    = consumer_settings c"
proof -
  let ?d = "c\<lparr>kc_enable_auto_commit := b, kc_fetch_min_bytes := n, kc_fetch_max_bytes := i, kc_max_partition_fetch_bytes := j\<rparr>"
  have keep: "security_settings ?d = security_settings c" "build_librdkafka_config ?d = build_librdkafka_config c"
    by (simp_all add: security_settings_def build_librdkafka_config_def profile_defaults_def)
  have "(sets (explicit_settings ?d) Map.empty ++ build_librdkafka_config c ++ resolved_consumer_map (kc_sizing c)) k
      = (sets (explicit_settings c) Map.empty ++ build_librdkafka_config c ++ resolved_consumer_map (kc_sizing c)) k" for k
  proof (cases "k \<in> {''enable.auto.commit'', ''fetch.min.bytes'', ''fetch.max.bytes'', ''max.partition.fetch.bytes''}")
    case True
    have "build_librdkafka_config c k \<noteq> None \<or> resolved_consumer_map (kc_sizing c) k \<noteq> None"
    proof (cases "k = ''enable.auto.commit''")
      case one: True
      have "build_librdkafka_config c ''enable.auto.commit'' \<noteq> None"
        by (simp add: build_librdkafka_config_def map_add_def sets_lookup profile_auto_commit split: option.split)
      with one show ?thesis by simp
    next
      case two: False
      from True two have "k \<in> {''fetch.min.bytes'', ''fetch.max.bytes'', ''max.partition.fetch.bytes''}" by (simp only: insert_iff HOL.simp_thms)
      then have "k \<in> dom (consumer_knob_settings (kc_sizing c))" by (auto simp: consumer_knob_settings_def Let_def)
      then show ?thesis by (auto simp: resolved_consumer_map_def map_add_def dom_def split: option.split)
    qed
    then show ?thesis unfolding map_add_def by (auto split: option.split)
  next
    case False
    then have "map_of (rev (explicit_settings ?d)) k = map_of (rev (explicit_settings c)) k"
      by (simp add: explicit_settings_def map_add_def)
    then have "sets (explicit_settings ?d) Map.empty k = sets (explicit_settings c) Map.empty k" by (simp only: sets_lookup)
    then show ?thesis by (simp only: map_add_def)
  qed
  then have "sets (explicit_settings ?d) Map.empty ++ build_librdkafka_config c ++ resolved_consumer_map (kc_sizing c)
      = sets (explicit_settings c) Map.empty ++ build_librdkafka_config c ++ resolved_consumer_map (kc_sizing c)" by (rule ext)
  then show ?thesis unfolding consumer_settings_def by (simp add: keep)
qed

text \<open>The sizing documentation lets its raw maps win over everything; an override of the same key wins over them.\<close>

lemma override_beats_sizing_map:
  assumes "kc_librdkafka_overrides c k = Some v" "map_of (rev (security_settings c)) k = None" "k \<noteq> ''client.id''"
  shows "consumer_settings c k = Some v"
  using assms by (cases "k = ''statistics.interval.ms''") (auto simp: consumer_settings_def stats_other stats_fallback_def sets_lookup map_add_def)

text \<open>A variable that is set but empty gives a list of one empty name, here a subscription to a topic without a name.\<close>

lemma empty_topics_env:
  "kc_topics (from_env lower [''KAFKA_TOPICS'' \<mapsto> ''''] ''KAFKA'') = ['''']"
  by (simp add: from_env_def Let_def upd_def get_list_def ev_get_def prefixed_def with_legacy_names_def with_legacy_def env_var_new_def get_bool_def
      trim_str_def)

text \<open>Deriving a source from its own topics gives it back, with the default suffixes.\<close>

lemma source_roundtrip:
  "source_from_topic (input_topic (dfe_source_new n)) = Some n"
  "source_from_topic (output_topic (dfe_source_new n)) = Some n"
  by (simp_all add: source_from_topic_def input_topic_def output_topic_def dfe_source_new_def strip_suffix_def)

section \<open>Writing a properties file and reading it back\<close>

definition render_properties :: "(string \<times> string) list \<Rightarrow> string" where
  "render_properties kvs = concat (map (\<lambda>(k, v). k @ CHR ''='' # v @ [CHR 10]) kvs)"

definition clean_property :: "string \<times> string \<Rightarrow> bool" where
  "clean_property p = (case p of (k, v) \<Rightarrow> k \<noteq> [] \<and> trim_str k = k \<and> trim_str v = v \<and> CHR 10 \<notin> set k \<and> CHR 10 \<notin> set v
     \<and> CHR ''='' \<notin> set k \<and> hd k \<noteq> CHR ''#'' \<and> hd k \<noteq> CHR ''!'')"

lemma split_nl_ne [simp]: "split_nl s \<noteq> []"
  by (cases s) (simp_all split: list.split)

lemma split_nl_line: "CHR 10 \<notin> set l \<Longrightarrow> split_nl (l @ CHR 10 # s) = l # split_nl s"
  by (induction l) auto

lemma split_nl_lines: "list_all (\<lambda>l. CHR 10 \<notin> set l) ls \<Longrightarrow> split_nl (concat (map (\<lambda>l. l @ [CHR 10]) ls)) = ls @ [[]]"
  by (induction ls) (simp_all add: split_nl_line)

lemma trim_length: "length (trim_str s) \<le> length s"
  using length_dropWhile_le[of ws "rev (dropWhile ws s)"] length_dropWhile_le[of ws s] by (simp add: trim_str_def)

lemma trim_fix_hd:
  assumes "trim_str s = s" "s \<noteq> []"
  shows "\<not> ws (hd s)"
proof
  assume w: "ws (hd s)"
  have "length (trim_str s) \<le> length (dropWhile ws s)"
    using length_dropWhile_le[of ws "rev (dropWhile ws s)"] by (simp add: trim_str_def)
  also have "\<dots> < length s" using w assms(2) length_dropWhile_le[of ws "tl s"] by (cases s) auto
  finally show False using assms(1) by simp
qed

lemma trim_fix_last:
  assumes "trim_str s = s" "s \<noteq> []"
  shows "\<not> ws (last s)"
proof -
  have d: "dropWhile ws s = s" using trim_fix_hd[OF assms] assms(2) by (cases s) auto
  have r: "rev (dropWhile ws (rev s)) = s" using assms(1) unfolding trim_str_def d .
  have "dropWhile ws (rev s) = rev s" using arg_cong[OF r, of rev] by simp
  then show ?thesis using assms(2) dropWhile_eq_self_iff[of ws "rev s"] by (simp add: hd_rev)
qed

lemma trim_id: "s \<noteq> [] \<Longrightarrow> \<not> ws (hd s) \<Longrightarrow> \<not> ws (last s) \<Longrightarrow> trim_str s = s"
  using dropWhile_eq_self_iff[of ws s] dropWhile_eq_self_iff[of ws "rev s"] by (simp add: trim_str_def hd_rev)

lemma clean_line:
  assumes "clean_property (k, v)"
  shows "trim_str (k @ CHR ''='' # v) = k @ CHR ''='' # v" "last (k @ CHR ''='' # v) \<noteq> CHR 13"
proof -
  have l: "\<not> ws (last (k @ CHR ''='' # v))"
    using assms trim_fix_last[of v] by (cases v) (simp_all add: clean_property_def ws_def)
  have "\<not> ws (hd (k @ CHR ''='' # v))" using assms trim_fix_hd[of k] by (simp add: clean_property_def)
  then show "trim_str (k @ CHR ''='' # v) = k @ CHR ''='' # v" using l by (intro trim_id) simp_all
  show "last (k @ CHR ''='' # v) \<noteq> CHR 13" using l by (auto simp: ws_def)
qed

lemma property_of_clean:
  assumes "clean_property (k, v)"
  shows "property_of_line (k @ CHR ''='' # v) = Some (k, v)"
proof -
  have "takeWhile (\<lambda>c. c \<noteq> CHR ''='') (k @ CHR ''='' # v) = k" "dropWhile (\<lambda>c. c \<noteq> CHR ''='') (k @ CHR ''='' # v) = CHR ''='' # v"
    using assms by (auto simp: clean_property_def takeWhile_append dropWhile_append)
  then show ?thesis using assms unfolding property_of_line_def clean_line(1)[OF assms] by (simp add: clean_property_def split_once_def)
qed

text \<open>A properties file written from clean pairs (trimmed, on one line, no equals sign in the key, not a comment) reads back as
  those pairs, a later pair replacing an earlier one of the same key.\<close>

theorem properties_roundtrip:
  assumes "list_all clean_property kvs"
  shows "config_from_properties_str (render_properties kvs) = sets kvs Map.empty"
proof -
  define ls where "ls = map (\<lambda>(k, v). k @ CHR ''='' # v) kvs"
  have r: "render_properties kvs = concat (map (\<lambda>l. l @ [CHR 10]) ls)"
    by (simp add: render_properties_def ls_def comp_def case_prod_unfold)
  have "list_all (\<lambda>l. CHR 10 \<notin> set l) ls" using assms by (auto simp: ls_def list_all_iff clean_property_def)
  then have s: "str_lines (render_properties kvs) = map (\<lambda>l. if l \<noteq> [] \<and> last l = CHR 13 then butlast l else l) ls"
    unfolding str_lines_def r by (simp add: split_nl_lines)
  also have "\<dots> = ls" using assms clean_line(2) by (intro map_idI) (auto simp: ls_def list_all_iff)
  finally have l: "str_lines (render_properties kvs) = ls" .
  have "foldl (\<lambda>m l. case property_of_line l of None \<Rightarrow> m | Some (k, v) \<Rightarrow> m(k \<mapsto> v)) m ls = sets kvs m" for m
    using assms unfolding ls_def by (induction kvs arbitrary: m) (auto simp: sets_def property_of_clean)
  then show ?thesis by (simp add: config_from_properties_str_def l)
qed

theorem properties_roundtrip_witness:
  "config_from_properties_str (render_properties [(''a'', ''1=2''), (''b'', '''')]) ''a'' = Some ''1=2''"
proof -
  have "list_all clean_property [(''a'', ''1=2''), (''b'', '''')]" by (simp add: clean_property_def trim_str_def ws_def)
  from properties_roundtrip[OF this] show ?thesis by (simp add: sets_def)
qed

end
