(* ===== verification/Hot_Reload.thy ===== *)
theory Hot_Reload
  imports Prelude
begin

text \<open>
  Configuration hot reload: the shared configuration with its version and watch channel
  (\<open>src/config/shared.rs\<close>), once as the sequential \<open>update\<close> and once as its three atomic steps under
  interleaving, and the reloader's loop over its triggers (\<open>src/config/reloader.rs\<close>). Times are
  milliseconds of the monotonic clock, a file time is a number, the load and validation callbacks
  are arguments; a wake-up carries what the load callback answers if it is called then.
\<close>

section \<open>The shared configuration\<close>

record 'c shared_config =
  sc_inner :: 'c
  sc_version :: u64
  sc_watch :: u64

definition shared_new :: "'c \<Rightarrow> 'c shared_config" where
  "shared_new c = \<lparr>sc_inner = c, sc_version = 0, sc_watch = 0\<rparr>"

definition shared_get :: "'c shared_config \<Rightarrow> 'c" where
  "shared_get s = sc_inner s"

definition shared_with :: "('c \<Rightarrow> 'r) \<Rightarrow> 'c shared_config \<Rightarrow> 'r" where
  "shared_with f s = f (sc_inner s)"

text \<open>The three atomic parts of \<open>update\<close>: the write under the lock, \<open>fetch_add\<close>, the send.\<close>

definition shared_write :: "'c \<Rightarrow> 'c shared_config \<Rightarrow> 'c shared_config" where
  "shared_write c s = s\<lparr>sc_inner := c\<rparr>"

definition shared_bump :: "'c shared_config \<Rightarrow> u64 \<times> 'c shared_config" where
  "shared_bump s = (sc_version s + 1, s\<lparr>sc_version := sc_version s + 1\<rparr>)"

definition shared_send :: "u64 \<Rightarrow> 'c shared_config \<Rightarrow> 'c shared_config" where
  "shared_send v s = s\<lparr>sc_watch := v\<rparr>"

definition shared_update :: "'c \<Rightarrow> 'c shared_config \<Rightarrow> 'c shared_config" where
  "shared_update c s = (let (v, s) = shared_bump (shared_write c s) in shared_send v s)"

lemma shared_updates:
  assumes "sc_watch s = sc_version s"
  shows "fold shared_update cs s = \<lparr>sc_inner = last (sc_inner s # cs), sc_version = sc_version s + of_nat (length cs),
    sc_watch = sc_version s + of_nat (length cs)\<rparr>"
  using assms
proof (induction cs arbitrary: s)
  case Nil
  then show ?case by simp
next
  case (Cons c cs)
  show ?case using Cons.IH[of "shared_update c s"] by (simp add: shared_update_def shared_bump_def shared_write_def shared_send_def)
qed

section \<open>The reloader\<close>

record reloader_config =
  rc_config_path :: "string option"
  rc_poll_interval :: nat
  rc_periodic_interval :: nat
  rc_debounce :: nat
  rc_enable_sighup :: bool

definition reloader_config_default :: reloader_config where
  "reloader_config_default = \<lparr>rc_config_path = None, rc_poll_interval = 5000, rc_periodic_interval = 0, rc_debounce = 500, rc_enable_sighup = True\<rparr>"

datatype reload_trigger = FileChanged | Periodic | Sighup

text \<open>A branch of the two \<open>select!\<close>s that completes: the shutdown token, or a trigger at a time, with the file's
  modification time then and what the load callback would return.\<close>

datatype ('c, 'e) wake = Shutdown | Trigger reload_trigger (wk_now: nat) (wk_mtime: "nat option") (wk_loaded: "('c, 'e) result")

record ('c, 'h) reloader =
  rl_shared :: "'c shared_config"
  rl_last_modified :: "nat option"
  rl_last_reload :: nat
  rl_hook_calls :: "('h \<times> 'c) list"
  rl_stopped :: bool

definition reloader_start :: "'c shared_config \<Rightarrow> nat option \<Rightarrow> nat \<Rightarrow> ('c, 'h) reloader" where
  "reloader_start s mtime now = \<lparr>rl_shared = s, rl_last_modified = mtime, rl_last_reload = now, rl_hook_calls = [], rl_stopped = False\<rparr>"

fun trigger_enabled :: "reloader_config \<Rightarrow> reload_trigger \<Rightarrow> bool" where
  "trigger_enabled cfg FileChanged = (rc_config_path cfg \<noteq> None)"
| "trigger_enabled cfg Periodic = (0 < rc_periodic_interval cfg)"
| "trigger_enabled cfg Sighup = rc_enable_sighup cfg"

fun file_changed :: "nat option \<Rightarrow> nat option \<Rightarrow> bool" where
  "file_changed (Some prev) (Some current) = (prev < current)"
| "file_changed None (Some _) = True"
| "file_changed _ None = False"

text \<open>One turn of \<open>wait_for_trigger\<close>: \<open>None\<close> when it loops back.\<close>

definition wait_turn :: "reload_trigger \<Rightarrow> nat option \<Rightarrow> nat option \<Rightarrow> reload_trigger option \<times> nat option" where
  "wait_turn t lm mtime = (case t of
     FileChanged \<Rightarrow> if file_changed lm mtime then (Some FileChanged, mtime) else (None, lm)
   | _ \<Rightarrow> (Some t, lm))"

definition do_reload :: "('c \<Rightarrow> (unit, 'e) result) \<Rightarrow> 'h list \<Rightarrow> ('c, 'e) result \<Rightarrow> ('c, 'h) reloader \<Rightarrow> ('c, 'h) reloader" where
  "do_reload validate hooks loaded r = (case loaded of
     Inl _ \<Rightarrow> r
   | Inr c \<Rightarrow> (case validate c of
       Inl _ \<Rightarrow> r
     | Inr _ \<Rightarrow> r\<lparr>rl_shared := shared_update c (rl_shared r), rl_hook_calls := rl_hook_calls r @ map (\<lambda>h. (h, c)) hooks\<rparr>))"

definition reloader_turn :: "reloader_config \<Rightarrow> ('c \<Rightarrow> (unit, 'e) result) \<Rightarrow> 'h list \<Rightarrow> ('c, 'e) wake \<Rightarrow> ('c, 'h) reloader \<Rightarrow> ('c, 'h) reloader" where
  "reloader_turn cfg validate hooks w r = (case w of
     Shutdown \<Rightarrow> r\<lparr>rl_stopped := True\<rparr>
   | Trigger t now mtime loaded \<Rightarrow>
       if \<not> trigger_enabled cfg t then r
       else (case wait_turn t (rl_last_modified r) mtime of
         (None, lm) \<Rightarrow> r\<lparr>rl_last_modified := lm\<rparr>
       | (Some _, lm) \<Rightarrow> (let r = r\<lparr>rl_last_modified := lm\<rparr> in
           if now - rl_last_reload r < rc_debounce cfg then r
           else (do_reload validate hooks loaded r)\<lparr>rl_last_reload := now\<rparr>)))"

fun reloader_loop :: "reloader_config \<Rightarrow> ('c \<Rightarrow> (unit, 'e) result) \<Rightarrow> 'h list \<Rightarrow> ('c, 'e) wake list \<Rightarrow> ('c, 'h) reloader \<Rightarrow> ('c, 'h) reloader" where
  "reloader_loop cfg validate hooks [] r = r"
| "reloader_loop cfg validate hooks (w # ws) r = (if rl_stopped r then r else reloader_loop cfg validate hooks ws (reloader_turn cfg validate hooks w r))"

section \<open>What a run publishes\<close>

text \<open>The reference reading of the loop, in three independent filters: the wake-ups that are a change the loop is set to
  watch, before the first shutdown; of those, the ones at least the debounce time after the last one kept; of those, the configurations
  that load and validate.\<close>

fun effective :: "reloader_config \<Rightarrow> nat option \<Rightarrow> ('c, 'e) wake list \<Rightarrow> ('c, 'e) wake list" where
  "effective cfg lm [] = []"
| "effective cfg lm (Shutdown # ws) = []"
| "effective cfg lm (Trigger t now mtime loaded # ws) =
     (if \<not> trigger_enabled cfg t then effective cfg lm ws
      else if t = FileChanged then
        (if file_changed lm mtime then Trigger t now mtime loaded # effective cfg mtime ws else effective cfg lm ws)
      else Trigger t now mtime loaded # effective cfg lm ws)"

fun debounced :: "nat \<Rightarrow> nat \<Rightarrow> ('c, 'e) wake list \<Rightarrow> ('c, 'e) wake list" where
  "debounced d prev [] = []"
| "debounced d prev (w # ws) = (if wk_now w - prev < d then debounced d prev ws else w # debounced d (wk_now w) ws)"

definition accepted_configs :: "('c \<Rightarrow> (unit, 'e) result) \<Rightarrow> ('c, 'e) wake list \<Rightarrow> 'c list" where
  "accepted_configs validate ws = List.map_filter (\<lambda>w. case wk_loaded w of Inl _ \<Rightarrow> None | Inr c \<Rightarrow> if is_ok (validate c) then Some c else None) ws"

primrec spaced :: "nat \<Rightarrow> nat \<Rightarrow> nat list \<Rightarrow> bool" where
  "spaced d prev [] = True"
| "spaced d prev (t # ts) = (d \<le> t - prev \<and> spaced d t ts)"

definition publish :: "'h list \<Rightarrow> 'c list \<Rightarrow> ('c, 'h) reloader \<Rightarrow> 'c shared_config \<times> ('h \<times> 'c) list" where
  "publish hooks cs r = (fold shared_update cs (rl_shared r), rl_hook_calls r @ concat (map (\<lambda>c. map (\<lambda>h. (h, c)) hooks) cs))"

lemma debounced_spaced: "spaced d prev (map wk_now (debounced d prev ws))"
  by (induction d prev ws rule: debounced.induct) auto

lemma accepted_valid: "c \<in> set (accepted_configs validate ws) \<Longrightarrow> is_ok (validate c)"
  by (auto simp: accepted_configs_def List.map_filter_def split: sum.splits if_splits)

lemma accepted_Cons:
  "accepted_configs validate (w # ws) = (case wk_loaded w of Inl _ \<Rightarrow> [] | Inr c \<Rightarrow> if is_ok (validate c) then [c] else []) @ accepted_configs validate ws"
  by (simp add: accepted_configs_def split: sum.split)

lemma publish_reload:
  "publish hooks cs (do_reload validate hooks loaded r) =
   publish hooks ((case loaded of Inl _ \<Rightarrow> [] | Inr c \<Rightarrow> if is_ok (validate c) then [c] else []) @ cs) r"
  by (cases loaded) (auto simp: publish_def do_reload_def is_ok_def split: sum.split)

lemma publish_fields [simp]:
  "publish hooks cs (r\<lparr>rl_last_modified := lm\<rparr>) = publish hooks cs r"
  "publish hooks cs (r\<lparr>rl_last_reload := t\<rparr>) = publish hooks cs r"
  by (simp_all add: publish_def)

lemma do_reload_keeps [simp]:
  "rl_last_modified (do_reload validate hooks x r) = rl_last_modified r"
  "rl_stopped (do_reload validate hooks x r) = rl_stopped r"
  by (auto simp: do_reload_def split: sum.split)

lemma stopped_loop: "rl_stopped r \<Longrightarrow> reloader_loop cfg validate hooks ws r = r"
  by (cases ws) simp_all

lemma loop_publishes:
  "\<not> rl_stopped r \<Longrightarrow>
   (rl_shared (reloader_loop cfg validate hooks ws r), rl_hook_calls (reloader_loop cfg validate hooks ws r)) =
   publish hooks (accepted_configs validate (debounced (rc_debounce cfg) (rl_last_reload r) (effective cfg (rl_last_modified r) ws))) r"
proof (induction ws arbitrary: r)
  case Nil
  then show ?case by (simp add: publish_def accepted_configs_def)
next
  case (Cons w ws)
  show ?case
  proof (cases w)
    case Shutdown
    then show ?thesis using Cons.prems by (simp add: reloader_turn_def stopped_loop publish_def accepted_configs_def)
  next
    case (Trigger t now mtime loaded)
    let ?r = "reloader_turn cfg validate hooks w r"
    have "\<not> rl_stopped ?r" using Cons.prems Trigger
      by (auto simp: reloader_turn_def wait_turn_def Let_def split: reload_trigger.split)
    note IH = Cons.IH[OF this]
    have "publish hooks (accepted_configs validate (debounced (rc_debounce cfg) (rl_last_reload ?r) (effective cfg (rl_last_modified ?r) ws))) ?r
        = publish hooks (accepted_configs validate (debounced (rc_debounce cfg) (rl_last_reload r) (effective cfg (rl_last_modified r) (w # ws)))) r"
      using Trigger by (cases t) (auto simp: reloader_turn_def wait_turn_def Let_def accepted_Cons publish_reload)
    then show ?thesis using IH Cons.prems by simp
  qed
qed

text \<open>Hot reload is exact: whatever wakes the reloader up, in whatever order, what subscribers can see is the initial
  configuration with the accepted ones applied in order - the version and the watch channel count them, every hook has been called with
  each of them in order, each of them passed validation, and the reloads are at least the debounce time apart. A load or validation
  failure changes nothing.\<close>

theorem hot_reload_exact:
  assumes "\<not> rl_stopped r" "sc_watch (rl_shared r) = sc_version (rl_shared r)"
  shows "let kept = debounced (rc_debounce cfg) (rl_last_reload r) (effective cfg (rl_last_modified r) ws);
      cs = accepted_configs validate kept; r' = reloader_loop cfg validate hooks ws r in
    rl_shared r' = \<lparr>sc_inner = last (sc_inner (rl_shared r) # cs), sc_version = sc_version (rl_shared r) + of_nat (length cs),
      sc_watch = sc_version (rl_shared r) + of_nat (length cs)\<rparr>
    \<and> rl_hook_calls r' = rl_hook_calls r @ concat (map (\<lambda>c. map (\<lambda>h. (h, c)) hooks) cs)
    \<and> list_all (\<lambda>c. is_ok (validate c)) cs \<and> spaced (rc_debounce cfg) (rl_last_reload r) (map wk_now kept)"
  using loop_publishes[OF assms(1), of cfg validate hooks ws] shared_updates[OF assms(2)] accepted_valid[of _ validate]
    debounced_spaced[of "rc_debounce cfg" "rl_last_reload r" "effective cfg (rl_last_modified r) ws"]
  by (simp add: publish_def list_all_iff Let_def)

definition positive :: "nat \<Rightarrow> (unit, string) result" where
  "positive n = (if 0 < n then Ok () else Err ''workers must be > 0'')"

definition reload_story :: "(nat, string) wake list" where
  "reload_story = [Trigger Sighup 1000 None (Ok 8), Trigger Sighup 1200 None (Ok 9), Trigger Sighup 2000 None (Ok 0),
     Trigger Sighup 3000 None (Err ''io''), Trigger Sighup 4000 None (Ok 5), Shutdown, Trigger Sighup 9000 None (Ok 7)]"

theorem hot_reload_exact_witness:
  "rl_shared (reloader_loop reloader_config_default positive [''h''] reload_story (reloader_start (shared_new 4) None 0))
     = \<lparr>sc_inner = 5, sc_version = 2, sc_watch = 2\<rparr>
   \<and> rl_hook_calls (reloader_loop reloader_config_default positive [''h''] reload_story (reloader_start (shared_new 4) None 0)) = [(''h'', 8), (''h'', 5)]"
proof -
  let ?r = "reloader_start (shared_new (4::nat)) None 0 :: (nat, string) reloader"
  have p: "\<not> rl_stopped ?r" "sc_watch (rl_shared ?r) = sc_version (rl_shared ?r)" by (simp_all add: reloader_start_def shared_new_def)
  have a: "accepted_configs positive (debounced (rc_debounce reloader_config_default) (rl_last_reload ?r)
      (effective reloader_config_default (rl_last_modified ?r) reload_story)) = [8, 5]"
    by (simp add: reload_story_def reloader_config_default_def reloader_start_def accepted_configs_def positive_def List.map_filter_def)
  show ?thesis using hot_reload_exact[OF p, of reloader_config_default reload_story positive "[''h'']"]
    unfolding a Let_def by (simp add: reloader_start_def shared_new_def)
qed

text \<open>The loop remembers the new file time before it debounces, so a change that falls into the debounce window is
  forgotten: however often the file is polled afterwards, it is not loaded until it is written again.\<close>

lemma effective_unchanged:
  "list_all (\<lambda>w. wk_mtime w = Some m \<and> (case w of Trigger t _ _ _ \<Rightarrow> t = FileChanged | _ \<Rightarrow> False)) ws \<Longrightarrow> effective cfg (Some m) ws = []"
  by (induction ws) (auto split: wake.splits)

lemma debounced_change_lost:
  assumes "\<not> rl_stopped r" "rc_config_path cfg \<noteq> None" "now - rl_last_reload r < rc_debounce cfg" "file_changed (rl_last_modified r) (Some m)"
    and "list_all (\<lambda>w. wk_mtime w = Some m \<and> (case w of Trigger t _ _ _ \<Rightarrow> t = FileChanged | _ \<Rightarrow> False)) ws"
  shows "rl_shared (reloader_loop cfg validate hooks (Trigger FileChanged now (Some m) x # ws) r) = rl_shared r"
proof -
  let ?ws = "Trigger FileChanged now (Some m) x # ws"
  have "debounced (rc_debounce cfg) (rl_last_reload r) (effective cfg (rl_last_modified r) ?ws) = []"
    using assms(2-4) effective_unchanged[OF assms(5), of cfg] by auto
  then show ?thesis using loop_publishes[OF assms(1), of cfg validate hooks ?ws] by (simp add: publish_def accepted_configs_def)
qed

section \<open>Concurrent updates\<close>

text \<open>Several tasks update, each in three atomic steps; a subscriber is woken by a send and reads the configuration then.
  \<open>uw_written\<close> counts the updates between write and \<open>fetch_add\<close>, \<open>uw_bumped\<close> holds the versions still to be sent.\<close>

record 'c update_world =
  uw_shared :: "'c shared_config"
  uw_written :: nat
  uw_bumped :: "u64 list"
  uw_sends :: nat
  uw_seen :: "nat \<times> 'c"

definition update_world_new :: "'c \<Rightarrow> 'c update_world" where
  "update_world_new c = \<lparr>uw_shared = shared_new c, uw_written = 0, uw_bumped = [], uw_sends = 0, uw_seen = (0, c)\<rparr>"

inductive update_step :: "'c update_world \<Rightarrow> 'c update_world \<Rightarrow> bool" where
  us_write: "update_step w (w\<lparr>uw_shared := shared_write c (uw_shared w), uw_written := Suc (uw_written w)\<rparr>)"
| us_bump: "0 < uw_written w \<Longrightarrow> shared_bump (uw_shared w) = (v, s) \<Longrightarrow>
    update_step w (w\<lparr>uw_shared := s, uw_written := uw_written w - 1, uw_bumped := uw_bumped w @ [v]\<rparr>)"
| us_send: "v \<in> set (uw_bumped w) \<Longrightarrow>
    update_step w (w\<lparr>uw_shared := shared_send v (uw_shared w), uw_bumped := remove1 v (uw_bumped w), uw_sends := Suc (uw_sends w)\<rparr>)"
| us_read: "update_step w (w\<lparr>uw_seen := (uw_sends w, shared_get (uw_shared w))\<rparr>)"

inductive_cases update_stepE: "update_step w w'"

definition update_inv :: "'c update_world \<Rightarrow> bool" where
  "update_inv w = (fst (uw_seen w) \<le> uw_sends w \<and>
     (snd (uw_seen w) = sc_inner (uw_shared w) \<or> 0 < uw_written w \<or> uw_bumped w \<noteq> [] \<or> fst (uw_seen w) < uw_sends w))"

lemma update_inv_step: "update_step w w' \<Longrightarrow> update_inv w \<Longrightarrow> update_inv w'"
  by (erule update_stepE) (auto simp: update_inv_def shared_write_def shared_bump_def shared_send_def shared_get_def)

text \<open>No update is lost to a subscriber: however the steps of concurrent updates interleave with its reads, once no update is
  under way a subscriber that has handled every notification holds the configuration that is in force.\<close>

theorem subscriber_converges:
  assumes "update_step\<^sup>*\<^sup>* (update_world_new c) w" "uw_written w = 0" "uw_bumped w = []" "fst (uw_seen w) = uw_sends w"
  shows "snd (uw_seen w) = shared_get (uw_shared w)"
proof -
  have "update_inv (update_world_new c)" by (simp add: update_inv_def update_world_new_def shared_new_def)
  with assms(1) have "update_inv w" by (induction rule: rtranclp_induct) (auto intro: update_inv_step)
  then show ?thesis using assms(2-4) by (auto simp: update_inv_def shared_get_def)
qed

text \<open>Two updates whose sends overtake each other leave the watch channel at version 1 while the version is 2; the subscriber,
  told of version 1 last, still reads the configuration in force.\<close>

definition overtaken :: "nat update_world" where
  "overtaken = \<lparr>uw_shared = \<lparr>sc_inner = 20, sc_version = 2, sc_watch = 1\<rparr>, uw_written = 0, uw_bumped = [], uw_sends = 2, uw_seen = (2, 20)\<rparr>"

lemma watch_goes_back: "update_step\<^sup>*\<^sup>* (update_world_new 0) overtaken"
proof -
  let ?s = "\<lambda>i v h. \<lparr>sc_inner = i, sc_version = v, sc_watch = h\<rparr>"
  let ?w = "\<lambda>s n b k z. \<lparr>uw_shared = s, uw_written = n, uw_bumped = b, uw_sends = k, uw_seen = z\<rparr> :: nat update_world"
  have 1: "update_step (update_world_new 0) (?w (?s 10 0 0) 1 [] 0 (0, 0))"
    using us_write[of "update_world_new 0" 10] by (simp add: update_world_new_def shared_new_def shared_write_def)
  have 2: "update_step (?w (?s 10 0 0) 1 [] 0 (0, 0)) (?w (?s 10 1 0) 0 [1] 0 (0, 0))"
    using us_bump[of "?w (?s 10 0 0) 1 [] 0 (0, 0)"] by (simp add: shared_bump_def)
  have 3: "update_step (?w (?s 10 1 0) 0 [1] 0 (0, 0)) (?w (?s 20 1 0) 1 [1] 0 (0, 0))"
    using us_write[of "?w (?s 10 1 0) 0 [1] 0 (0, 0)" 20] by (simp add: shared_write_def)
  have 4: "update_step (?w (?s 20 1 0) 1 [1] 0 (0, 0)) (?w (?s 20 2 0) 0 [1, 2] 0 (0, 0))"
    using us_bump[of "?w (?s 20 1 0) 1 [1] 0 (0, 0)"] by (simp add: shared_bump_def)
  have 5: "update_step (?w (?s 20 2 0) 0 [1, 2] 0 (0, 0)) (?w (?s 20 2 2) 0 [1] 1 (0, 0))"
    using us_send[of 2 "?w (?s 20 2 0) 0 [1, 2] 0 (0, 0)"] by (simp add: shared_send_def)
  have 6: "update_step (?w (?s 20 2 2) 0 [1] 1 (0, 0)) (?w (?s 20 2 1) 0 [] 2 (0, 0))"
    using us_send[of 1 "?w (?s 20 2 2) 0 [1] 1 (0, 0)"] by (simp add: shared_send_def numeral_2_eq_2)
  have 7: "update_step (?w (?s 20 2 1) 0 [] 2 (0, 0)) overtaken"
    using us_read[of "?w (?s 20 2 1) 0 [] 2 (0, 0)"] by (simp add: shared_get_def overtaken_def)
  show ?thesis using 1 2 3 4 5 6 7 by (meson rtranclp.rtrancl_into_rtrancl rtranclp.rtrancl_refl)
qed

theorem subscriber_converges_witness: "snd (uw_seen overtaken) = 20"
  using subscriber_converges[OF watch_goes_back] by (simp add: overtaken_def shared_get_def)

end
