(* ===== verification/Background_Tasks.thy ===== *)
theory Background_Tasks
  imports Prelude
begin

text \<open>
  Background tasks: the command-queue actor (\<open>src/concurrency/actor.rs\<close>), the periodic worker
  (\<open>src/concurrency/periodic.rs\<close>), the global shutdown token (\<open>src/shutdown.rs\<close>) and the health registry
  (\<open>src/health/registry.rs\<close>). A task's loop is one turn per completed \<open>select!\<close>; the senders, the token and the timer are
  the other events, in any order. What both loops promise of their shutdown hook is the locale \<open>shutdown_once\<close>.
\<close>

section \<open>Runs of events\<close>

fun run_events :: "('ev \<Rightarrow> 's \<Rightarrow> 's \<times> 'o list) \<Rightarrow> 'ev list \<Rightarrow> 's \<Rightarrow> 's \<times> 'o list" where
  "run_events act [] s = (s, [])"
| "run_events act (e # es) s = (let (s', os) = act e s; (s'', os') = run_events act es s' in (s'', os @ os'))"

lemma run_events_append:
  "run_events act (es @ es') s = (let (s', os) = run_events act es s; (s'', os') = run_events act es' s' in (s'', os @ os'))"
  by (induction es arbitrary: s) (auto simp: case_prod_unfold Let_def)

locale shutdown_once =
  fixes act :: "'ev \<Rightarrow> 's \<Rightarrow> 's \<times> 'o list"
    and exited :: "'s \<Rightarrow> bool"
    and hook :: "'o \<Rightarrow> bool"
    and work :: "'o \<Rightarrow> bool"
  assumes stays: "exited s \<Longrightarrow> act e s = (s', os) \<Longrightarrow> exited s' \<and> \<not> list_ex hook os \<and> \<not> list_ex work os"
    and leaves: "\<not> exited s \<Longrightarrow> act e s = (s', os) \<Longrightarrow>
      (if exited s' then length (filter hook os) = 1 \<and> \<not> list_ex work os else \<not> list_ex hook os)"
begin

lemma silent_after_exit: "exited s \<Longrightarrow> run_events act es s = (s', os) \<Longrightarrow> exited s' \<and> \<not> list_ex hook os \<and> \<not> list_ex work os"
proof (induction es arbitrary: s os)
  case Nil
  then show ?case by simp
next
  case (Cons e es)
  obtain s1 o1 where a: "act e s = (s1, o1)" by fastforce
  obtain o2 where b: "run_events act es s1 = (s', o2)" "os = o1 @ o2" using Cons.prems(2) a by (auto split: prod.splits)
  show ?case using stays[OF Cons.prems(1) a] Cons.IH[OF _ b(1)] b(2) by simp
qed

text \<open>The hook runs once, when the task ends, and no work comes after it.\<close>

lemma hook_once:
  "\<not> exited s \<Longrightarrow> run_events act es s = (s', os) \<Longrightarrow>
   \<exists>before after. os = before @ after \<and> \<not> list_ex hook before \<and> \<not> list_ex work after
     \<and> length (filter hook after) = (if exited s' then 1 else 0)"
proof (induction es arbitrary: s os)
  case Nil
  then show ?case by simp
next
  case (Cons e es)
  obtain s1 o1 where a: "act e s = (s1, o1)" by fastforce
  obtain o2 where b: "run_events act es s1 = (s', o2)" "os = o1 @ o2" using Cons.prems(2) a by (auto split: prod.splits)
  show ?case
  proof (cases "exited s1")
    case True
    then have "length (filter hook o1) = 1" "\<not> list_ex work o1" using leaves[OF Cons.prems(1) a] by auto
    moreover have "exited s'" "\<not> list_ex hook o2" "\<not> list_ex work o2" using silent_after_exit[OF True b(1)] by auto
    moreover have "filter hook o2 = []" using \<open>\<not> list_ex hook o2\<close> by (auto simp: list_ex_iff filter_empty_conv)
    ultimately have "os = [] @ os \<and> \<not> list_ex hook [] \<and> \<not> list_ex work os \<and> length (filter hook os) = (if exited s' then 1 else 0)"
      using b(2) by simp
    then show ?thesis by blast
  next
    case False
    obtain x y where xy: "o2 = x @ y" "\<not> list_ex hook x" "\<not> list_ex work y" "length (filter hook y) = (if exited s' then 1 else 0)"
      using Cons.IH[OF False b(1)] by blast
    have "os = (o1 @ x) @ y \<and> \<not> list_ex hook (o1 @ x)" using b(2) xy(1,2) leaves[OF Cons.prems(1) a] False by simp
    then show ?thesis using xy(3,4) by blast
  qed
qed

end

section \<open>The actor\<close>

datatype actor_error = AeFull | AeClosed

record actor_config =
  ac_queue_capacity :: nat
  ac_idle_interval :: nat

definition actor_config_default :: actor_config where
  "actor_config_default = \<lparr>ac_queue_capacity = 1024, ac_idle_interval = 60000\<rparr>"

record ('m, 'a) actor_impl =
  ai_handle :: "'m \<Rightarrow> 'a \<Rightarrow> 'a"
  ai_on_idle :: "'a \<Rightarrow> 'a"
  ai_on_shutdown :: "'a \<Rightarrow> 'a"

record ('m, 'a) actor_task =
  ta_state :: 'a
  ta_queue :: "'m list"
  ta_capacity :: nat
  ta_senders :: nat
  ta_cancelled :: bool
  ta_tick_due :: bool
  ta_exited :: bool

definition actor_spawn :: "actor_config \<Rightarrow> 'a \<Rightarrow> ('m, 'a) actor_task" where
  "actor_spawn cfg a = \<lparr>ta_state = a, ta_queue = [], ta_capacity = ac_queue_capacity cfg, ta_senders = 1, ta_cancelled = False,
     ta_tick_due = False, ta_exited = False\<rparr>"

definition actor_try_send :: "'m \<Rightarrow> ('m, 'a) actor_task \<Rightarrow> (unit, actor_error) result \<times> ('m, 'a) actor_task" where
  "actor_try_send c t = (if ta_exited t then (Err AeClosed, t) else if ta_capacity t \<le> length (ta_queue t) then (Err AeFull, t)
     else (Ok (), t\<lparr>ta_queue := ta_queue t @ [c]\<rparr>))"

text \<open>\<open>send\<close> waits for room: one attempt, \<open>None\<close> while it goes on waiting.\<close>

definition actor_send :: "'m \<Rightarrow> ('m, 'a) actor_task \<Rightarrow> (unit, actor_error) result option \<times> ('m, 'a) actor_task" where
  "actor_send c t = (if ta_exited t then (Some (Err AeClosed), t) else if ta_capacity t \<le> length (ta_queue t) then (None, t)
     else (Some (Ok ()), t\<lparr>ta_queue := ta_queue t @ [c]\<rparr>))"

datatype 'm actor_call = Handle 'm | OnIdle | OnShutdown

fun apply_call :: "('m, 'a) actor_impl \<Rightarrow> 'm actor_call \<Rightarrow> 'a \<Rightarrow> 'a" where
  "apply_call A (Handle c) = ai_handle A c"
| "apply_call A OnIdle = ai_on_idle A"
| "apply_call A OnShutdown = ai_on_shutdown A"

text \<open>One turn of \<open>actor_loop\<close>: the first ready branch of the biased \<open>select!\<close>; nothing when none is ready.\<close>

definition actor_turn :: "('m, 'a) actor_impl \<Rightarrow> ('m, 'a) actor_task \<Rightarrow> ('m, 'a) actor_task \<times> 'm actor_call list" where
  "actor_turn A t =
     (if ta_exited t then (t, [])
      else if ta_cancelled t then (t\<lparr>ta_state := ai_on_shutdown A (ta_state t), ta_exited := True\<rparr>, [OnShutdown])
      else (case ta_queue t of
        c # cs \<Rightarrow> (t\<lparr>ta_state := ai_handle A c (ta_state t), ta_queue := cs\<rparr>, [Handle c])
      | [] \<Rightarrow> if ta_senders t = 0 then (t\<lparr>ta_state := ai_on_shutdown A (ta_state t), ta_exited := True\<rparr>, [OnShutdown])
              else if ta_tick_due t then (t\<lparr>ta_state := ai_on_idle A (ta_state t), ta_tick_due := False\<rparr>, [OnIdle])
              else (t, [])))"

datatype 'm actor_event = TrySend 'm | Send 'm | CloneHandle | DropHandle | Cancel | TickDue | Turn
datatype 'm actor_out = Sent 'm "(unit, actor_error) result" | Called "'m actor_call"

definition actor_act :: "('m, 'a) actor_impl \<Rightarrow> 'm actor_event \<Rightarrow> ('m, 'a) actor_task \<Rightarrow> ('m, 'a) actor_task \<times> 'm actor_out list" where
  "actor_act A e t = (case e of
     TrySend c \<Rightarrow> if ta_senders t = 0 then (t, []) else (let (r, t) = actor_try_send c t in (t, [Sent c r]))
   | Send c \<Rightarrow> if ta_senders t = 0 then (t, []) else (let (r, t) = actor_send c t in (t, case r of None \<Rightarrow> [] | Some r \<Rightarrow> [Sent c r]))
   | CloneHandle \<Rightarrow> (if ta_senders t = 0 then t else t\<lparr>ta_senders := Suc (ta_senders t)\<rparr>, [])
   | DropHandle \<Rightarrow> (t\<lparr>ta_senders := ta_senders t - 1\<rparr>, [])
   | Cancel \<Rightarrow> (t\<lparr>ta_cancelled := True\<rparr>, [])
   | TickDue \<Rightarrow> (t\<lparr>ta_tick_due := True\<rparr>, [])
   | Turn \<Rightarrow> (let (t, cs) = actor_turn A t in (t, map Called cs)))"

definition calls_of :: "'m actor_out list \<Rightarrow> 'm actor_call list" where
  "calls_of os = List.map_filter (\<lambda>x. case x of Called c \<Rightarrow> Some c | _ \<Rightarrow> None) os"

definition accepted_of :: "'m actor_out list \<Rightarrow> 'm list" where
  "accepted_of os = List.map_filter (\<lambda>x. case x of Sent c (Inr _) \<Rightarrow> Some c | _ \<Rightarrow> None) os"

definition handled_of :: "'m actor_out list \<Rightarrow> 'm list" where
  "handled_of os = List.map_filter (\<lambda>x. case x of Called (Handle c) \<Rightarrow> Some c | _ \<Rightarrow> None) os"

lemma outs_append [simp]:
  "calls_of (os @ os') = calls_of os @ calls_of os'" "accepted_of (os @ os') = accepted_of os @ accepted_of os'"
  "handled_of (os @ os') = handled_of os @ handled_of os'"
  by (simp_all add: calls_of_def accepted_of_def handled_of_def List.map_filter_def)

lemma outs_simps [simp]:
  "calls_of [] = []" "accepted_of [] = []" "handled_of [] = []"
  "calls_of [Sent c r] = []" "calls_of [Called x] = [x]"
  "accepted_of [Called x] = []" "accepted_of [Sent c (Ok ())] = [c]" "accepted_of [Sent c (Err e)] = []"
  "handled_of [Sent c r] = []" "handled_of [Called (Handle c)] = [c]" "handled_of [Called OnIdle] = []" "handled_of [Called OnShutdown] = []"
  by (simp_all add: calls_of_def accepted_of_def handled_of_def List.map_filter_def)

lemma actor_step:
  assumes "actor_act A e t = (t', os)"
  shows "ta_state t' = fold (apply_call A) (calls_of os) (ta_state t)
    \<and> ta_queue t @ accepted_of os = handled_of os @ ta_queue t'
    \<and> (length (ta_queue t) \<le> ta_capacity t \<longrightarrow> length (ta_queue t') \<le> ta_capacity t')
    \<and> ta_capacity t' = ta_capacity t"
  using assms
  by (cases e) (auto simp: actor_act_def actor_turn_def actor_try_send_def actor_send_def Let_def split: if_splits list.splits)

lemma actor_run:
  assumes "run_events (actor_act A) es t = (t', os)"
  shows "ta_state t' = fold (apply_call A) (calls_of os) (ta_state t)
    \<and> ta_queue t @ accepted_of os = handled_of os @ ta_queue t'
    \<and> (length (ta_queue t) \<le> ta_capacity t \<longrightarrow> length (ta_queue t') \<le> ta_capacity t')
    \<and> ta_capacity t' = ta_capacity t"
  using assms
proof (induction es arbitrary: t os)
  case Nil
  then show ?case by simp
next
  case (Cons e es)
  obtain t1 o1 where a: "actor_act A e t = (t1, o1)" by fastforce
  obtain o2 where b: "run_events (actor_act A) es t1 = (t', o2)" "os = o1 @ o2" using Cons.prems a by (auto split: prod.splits)
  have q: "ta_queue t @ accepted_of o1 @ accepted_of o2 = handled_of o1 @ handled_of o2 @ ta_queue t'"
    using actor_step[OF a] Cons.IH[OF b(1)] by (metis append.assoc)
  show ?case using actor_step[OF a] Cons.IH[OF b(1)] q b(2) by auto
qed

definition is_hook :: "'m actor_out \<Rightarrow> bool" where
  "is_hook x = (case x of Called OnShutdown \<Rightarrow> True | _ \<Rightarrow> False)"

definition is_work :: "'m actor_out \<Rightarrow> bool" where
  "is_work x = (case x of Called (Handle _) \<Rightarrow> True | Called OnIdle \<Rightarrow> True | _ \<Rightarrow> False)"

interpretation actor_loop: shutdown_once "actor_act A" ta_exited is_hook is_work for A :: "('m, 'a) actor_impl"
proof
  fix s s' :: "('m, 'a) actor_task" and e os
  assume "ta_exited s" "actor_act A e s = (s', os)"
  then show "ta_exited s' \<and> \<not> list_ex is_hook os \<and> \<not> list_ex is_work os"
    by (cases e) (auto simp: actor_act_def actor_turn_def actor_try_send_def actor_send_def is_hook_def is_work_def split: if_splits)
next
  fix s s' :: "('m, 'a) actor_task" and e os
  assume "\<not> ta_exited s" "actor_act A e s = (s', os)"
  then show "if ta_exited s' then length (filter is_hook os) = 1 \<and> \<not> list_ex is_work os else \<not> list_ex is_hook os"
    by (cases e) (auto simp: actor_act_def actor_turn_def actor_try_send_def actor_send_def is_hook_def is_work_def split: if_splits list.splits)
qed

text \<open>An actor serialises its commands: however senders, the token, the timer and the loop interleave, the commands it has
  handled are the first of those it accepted, in order and once each, and the rest is its queue, which never exceeds the capacity; its
  state is what the calls made of the initial one, and the shutdown hook runs exactly once, when the task ends, with no
  command or idle call after it.\<close>

theorem actor_serialises:
  assumes "run_events (actor_act A) es (actor_spawn cfg a) = (t, os)"
  shows "accepted_of os = handled_of os @ ta_queue t \<and> length (ta_queue t) \<le> ac_queue_capacity cfg
    \<and> ta_state t = fold (apply_call A) (calls_of os) a
    \<and> (\<exists>before after. os = before @ after \<and> \<not> list_ex is_hook before \<and> \<not> list_ex is_work after
        \<and> length (filter is_hook after) = (if ta_exited t then 1 else 0))"
proof -
  have "\<not> ta_exited (actor_spawn cfg a :: ('a, 'b) actor_task)" by (simp add: actor_spawn_def)
  from actor_loop.hook_once[OF this assms] actor_run[OF assms] show ?thesis by (simp add: actor_spawn_def)
qed

text \<open>An actor that is not cancelled works its queue off, one command a turn.\<close>

lemma actor_drains:
  "\<not> ta_exited t \<Longrightarrow> \<not> ta_cancelled t \<Longrightarrow>
   run_events (actor_act A) (replicate (length (ta_queue t)) Turn) t
     = (t\<lparr>ta_state := fold (ai_handle A) (ta_queue t) (ta_state t), ta_queue := []\<rparr>, map (\<lambda>c. Called (Handle c)) (ta_queue t))"
proof (induction "ta_queue t" arbitrary: t)
  case Nil
  then show ?case by simp
next
  case (Cons c cs)
  let ?t = "t\<lparr>ta_state := ai_handle A c (ta_state t), ta_queue := cs\<rparr>"
  have "actor_act A Turn t = (?t, [Called (Handle c)])" using Cons.prems Cons.hyps(2)[symmetric] by (simp add: actor_act_def actor_turn_def)
  moreover have "run_events (actor_act A) (replicate (length cs) Turn) ?t
      = (?t\<lparr>ta_state := fold (ai_handle A) cs (ai_handle A c (ta_state t)), ta_queue := []\<rparr>, map (\<lambda>c. Called (Handle c)) cs)"
    using Cons.hyps(1)[of ?t] Cons.prems by simp
  ultimately show ?case using Cons.hyps(2)[symmetric] by simp
qed

definition summing :: "(nat, nat) actor_impl" where
  "summing = \<lparr>ai_handle = (+), ai_on_idle = id, ai_on_shutdown = Suc\<rparr>"

definition tiny_actor :: actor_config where
  "tiny_actor = \<lparr>ac_queue_capacity = 2, ac_idle_interval = 1000\<rparr>"

theorem actor_serialises_witness:
  "\<exists>t os. run_events (actor_act summing) [TrySend 3, Send 4, TrySend 9, Turn, TickDue, TrySend 5, Cancel, Turn, Turn, Send 6] (actor_spawn tiny_actor 10) = (t, os)
     \<and> ta_state t = 14 \<and> accepted_of os = handled_of os @ [4, 5] \<and> handled_of os = [3]"
proof -
  let ?es = "[TrySend 3, Send 4, TrySend 9, Turn, TickDue, TrySend 5, Cancel, Turn, Turn, Send 6] :: nat actor_event list"
  obtain t os where r: "run_events (actor_act summing) ?es (actor_spawn tiny_actor 10) = (t, os)" by fastforce
  have "ta_state t = 14" "ta_queue t = [4, 5]" "handled_of os = [3]"
    using r by (auto simp: actor_act_def actor_turn_def actor_try_send_def actor_send_def actor_spawn_def tiny_actor_def summing_def handled_of_def List.map_filter_def)
  with actor_serialises[OF r] r show ?thesis by auto
qed

section \<open>The periodic worker\<close>

record ('a, 'e) periodic_task =
  pt_tick :: "'a \<Rightarrow> (unit, 'e) result \<times> 'a"
  pt_shutdown :: "'a \<Rightarrow> (unit, 'e) result \<times> 'a"

record 'a periodic_worker =
  pw_state :: 'a
  pw_cancelled :: bool
  pw_tick_due :: bool
  pw_exited :: bool

definition periodic_spawn :: "'a \<Rightarrow> 'a periodic_worker" where
  "periodic_spawn a = \<lparr>pw_state = a, pw_cancelled = False, pw_tick_due = False, pw_exited = False\<rparr>"

datatype 'e periodic_out = Ticked "(unit, 'e) result" | ShutDown "(unit, 'e) result"
datatype periodic_event = PCancel | PTickDue | PTurn

definition periodic_turn :: "('a, 'e) periodic_task \<Rightarrow> 'a periodic_worker \<Rightarrow> 'a periodic_worker \<times> 'e periodic_out list" where
  "periodic_turn T w =
     (if pw_exited w then (w, [])
      else if pw_cancelled w then (let (r, a) = pt_shutdown T (pw_state w) in (w\<lparr>pw_state := a, pw_exited := True\<rparr>, [ShutDown r]))
      else if pw_tick_due w then (let (r, a) = pt_tick T (pw_state w) in (w\<lparr>pw_state := a, pw_tick_due := False\<rparr>, [Ticked r]))
      else (w, []))"

fun periodic_act :: "('a, 'e) periodic_task \<Rightarrow> periodic_event \<Rightarrow> 'a periodic_worker \<Rightarrow> 'a periodic_worker \<times> 'e periodic_out list" where
  "periodic_act T PCancel w = (w\<lparr>pw_cancelled := True\<rparr>, [])"
| "periodic_act T PTickDue w = (w\<lparr>pw_tick_due := True\<rparr>, [])"
| "periodic_act T PTurn w = periodic_turn T w"

definition is_shut :: "'e periodic_out \<Rightarrow> bool" where
  "is_shut x = (case x of ShutDown _ \<Rightarrow> True | _ \<Rightarrow> False)"

definition is_tick :: "'e periodic_out \<Rightarrow> bool" where
  "is_tick x = (case x of Ticked _ \<Rightarrow> True | _ \<Rightarrow> False)"

interpretation periodic_loop: shutdown_once "periodic_act T" pw_exited is_shut is_tick for T :: "('a, 'e) periodic_task"
proof
  fix s s' :: "'a periodic_worker" and e and os :: "'e periodic_out list"
  assume "pw_exited s" "periodic_act T e s = (s', os)"
  then show "pw_exited s' \<and> \<not> list_ex is_shut os \<and> \<not> list_ex is_tick os"
    by (cases e) (auto simp: periodic_turn_def)
next
  fix s s' :: "'a periodic_worker" and e and os :: "'e periodic_out list"
  assume "\<not> pw_exited s" "periodic_act T e s = (s', os)"
  then show "if pw_exited s' then length (filter is_shut os) = 1 \<and> \<not> list_ex is_tick os else \<not> list_ex is_shut os"
    by (cases e) (auto simp: periodic_turn_def is_shut_def is_tick_def split: if_splits prod.splits)
qed

text \<open>A tick that fails does not end the worker: after a turn that ticked, whatever the result, the worker is still running.\<close>

lemma tick_error_survived: "periodic_act T e w = (w', os) \<Longrightarrow> list_ex is_tick os \<Longrightarrow> \<not> pw_exited w'"
  by (cases e) (auto simp: periodic_turn_def is_tick_def split: if_splits prod.splits)

lemma periodic_shutdown_once:
  assumes "run_events (periodic_act T) es (periodic_spawn a) = (w, os)"
  shows "\<exists>before after. os = before @ after \<and> \<not> list_ex is_shut before \<and> \<not> list_ex is_tick after
    \<and> length (filter is_shut after) = (if pw_exited w then 1 else 0)"
  by (rule periodic_loop.hook_once[OF _ assms]) (simp add: periodic_spawn_def)

section \<open>The shutdown token\<close>

text \<open>The global token is created on first access: \<open>None\<close> before, then whether it is cancelled.\<close>

definition token_get :: "bool option \<Rightarrow> bool option" where
  "token_get s = (case s of None \<Rightarrow> Some False | Some c \<Rightarrow> Some c)"

definition is_shutdown :: "bool option \<Rightarrow> bool" where
  "is_shutdown s = (case s of None \<Rightarrow> False | Some c \<Rightarrow> c)"

definition trigger_shutdown :: "bool option \<Rightarrow> bool option" where
  "trigger_shutdown s = (case s of None \<Rightarrow> None | Some _ \<Rightarrow> Some True)"

definition prestop_delay_secs :: "(string \<Rightarrow> nat option) \<Rightarrow> string option \<Rightarrow> bool \<Rightarrow> nat" where
  "prestop_delay_secs parse var is_kubernetes = (case var of
     Some v \<Rightarrow> (case parse v of Some n \<Rightarrow> n | None \<Rightarrow> if is_kubernetes then 5 else 0)
   | None \<Rightarrow> if is_kubernetes then 5 else 0)"

lemma shutdown_sticks: "is_shutdown s \<Longrightarrow> is_shutdown (token_get s) \<and> is_shutdown (trigger_shutdown s)"
  by (auto simp: is_shutdown_def token_get_def trigger_shutdown_def split: option.splits)

text \<open>A shutdown triggered before any module has asked for the token is lost.\<close>

lemma early_trigger_lost: "\<not> is_shutdown (token_get (trigger_shutdown None))"
  by (simp add: is_shutdown_def token_get_def trigger_shutdown_def)

section \<open>The health registry\<close>

datatype health_status = Healthy | Degraded | Unhealthy

fun status_str :: "health_status \<Rightarrow> string" where
  "status_str Healthy = ''healthy''" | "status_str Degraded = ''degraded''" | "status_str Unhealthy = ''unhealthy''"

text \<open>A check reads the state of its component, so it is a function of the world at the moment it is called.\<close>

type_synonym 'w health_registry = "(string \<times> ('w \<Rightarrow> health_status)) list"

definition health_register :: "string \<Rightarrow> ('w \<Rightarrow> health_status) \<Rightarrow> 'w health_registry \<Rightarrow> 'w health_registry" where
  "health_register n check r = r @ [(n, check)]"

definition registry_is_healthy :: "'w health_registry \<Rightarrow> 'w \<Rightarrow> bool" where
  "registry_is_healthy r w = list_all (\<lambda>(n, check). check w = Healthy) r"

definition registry_is_ready :: "'w health_registry \<Rightarrow> 'w \<Rightarrow> bool" where
  "registry_is_ready r w = list_all (\<lambda>(n, check). check w \<noteq> Unhealthy) r"

definition health_components :: "'w health_registry \<Rightarrow> 'w \<Rightarrow> (string \<times> health_status) list" where
  "health_components r w = map (\<lambda>(n, check). (n, check w)) r"

text \<open>\<open>to_json\<close> asks three times; the world may move between.\<close>

definition health_json :: "'w health_registry \<Rightarrow> 'w \<Rightarrow> 'w \<Rightarrow> 'w \<Rightarrow> string \<times> (string \<times> string) list" where
  "health_json r w1 w2 w3 = (if registry_is_healthy r w2 then ''healthy'' else if registry_is_ready r w3 then ''degraded'' else ''unhealthy'',
     map (\<lambda>(n, s). (n, status_str s)) (health_components r w1))"

text \<open>In a world that stands still the reported status is that of the worst component, and an empty registry is healthy.\<close>

theorem health_is_worst:
  "fst (health_json r w w w) = status_str (if Unhealthy \<in> snd ` set (health_components r w) then Unhealthy
     else if Degraded \<in> snd ` set (health_components r w) then Degraded else Healthy)"
proof (cases "registry_is_ready r w")
  case False
  then have "Unhealthy \<in> snd ` set (health_components r w)" by (force simp: registry_is_ready_def health_components_def list_all_iff)
  moreover have "\<not> registry_is_healthy r w" using False by (fastforce simp: registry_is_ready_def registry_is_healthy_def list_all_iff)
  ultimately show ?thesis using False by (simp add: health_json_def)
next
  case True
  then have u: "Unhealthy \<notin> snd ` set (health_components r w)" by (force simp: registry_is_ready_def health_components_def list_all_iff)
  have "registry_is_healthy r w \<longleftrightarrow> Degraded \<notin> snd ` set (health_components r w)"
  proof
    assume "registry_is_healthy r w"
    then show "Degraded \<notin> snd ` set (health_components r w)" by (force simp: registry_is_healthy_def health_components_def list_all_iff)
  next
    assume d: "Degraded \<notin> snd ` set (health_components r w)"
    have "check w = Healthy" if "(n, check) \<in> set r" for n check
    proof -
      have "check w \<in> snd ` set (health_components r w)" using that by (force simp: health_components_def)
      then show ?thesis using u d by (cases "check w") auto
    qed
    then show "registry_is_healthy r w" by (auto simp: registry_is_healthy_def list_all_iff)
  qed
  then show ?thesis using True u by (simp add: health_json_def)
qed

text \<open>A component that recovers between the calls makes a report that contradicts itself.\<close>

lemma torn_health_report:
  "health_json [(''db'', \<lambda>up. if up then Healthy else Unhealthy)] False True True = (''healthy'', [(''db'', ''unhealthy'')])"
  by (simp add: health_json_def registry_is_healthy_def health_components_def)

end
