(* ===== verification/Format_Detect.thy ===== *)
theory Format_Detect
  imports Work_Batch
begin

text \<open>
  Stateful payload format detection (\<open>src/transport/detect.rs\<close>): the byte test, the detector that locks to the
  first format it sees and gives it up after sustained mismatches, and the forced modes. The two atomics
  are fields, a call is one step.
\<close>

datatype detected_format = DUnknown | DJson | DMessagePack

definition detected_of_u8 :: "byte \<Rightarrow> detected_format" where
  "detected_of_u8 b = (if b = 1 then DJson else if b = 2 then DMessagePack else DUnknown)"

fun u8_of_detected :: "detected_format \<Rightarrow> byte" where
  "u8_of_detected DUnknown = 0" | "u8_of_detected DJson = 1" | "u8_of_detected DMessagePack = 2"

lemma detected_roundtrip [simp]: "detected_of_u8 (u8_of_detected f) = f"
  by (cases f) (simp_all add: detected_of_u8_def)

datatype format_mode = FmAuto | ForceJson | ForceMessagePack

definition format_mode_parse :: "(string \<Rightarrow> string) \<Rightarrow> string \<Rightarrow> format_mode option" where
  "format_mode_parse lower s = (let l = lower s in
     if l = ''auto'' then Some FmAuto else if l = ''json'' then Some ForceJson
     else if l \<in> {''messagepack'', ''msgpack''} then Some ForceMessagePack else None)"

definition ascii_whitespace :: "byte \<Rightarrow> bool" where
  "ascii_whitespace b = (b \<in> {0x20, 0x09, 0x0a, 0x0c, 0x0d})"

fun first_after_space :: "bytes \<Rightarrow> detected_format option" where
  "first_after_space [] = None"
| "first_after_space (b # bs) = (if ascii_whitespace b then first_after_space bs else if b = 0x7b \<or> b = 0x5b then Some DJson else None)"

definition detect_format_bytes :: "bytes \<Rightarrow> detected_format option" where
  "detect_format_bytes p = (case p of
     [] \<Rightarrow> None
   | b # bs \<Rightarrow>
       if b = 0x7b \<or> b = 0x5b then Some DJson
       else if (0x80 \<le> b \<and> b \<le> 0x8f) \<or> b = 0xde \<or> b = 0xdf \<or> (0x90 \<le> b \<and> b \<le> 0x9f) \<or> b = 0xdc \<or> b = 0xdd then Some DMessagePack
       else if ascii_whitespace b then first_after_space bs
       else None)"

record format_detector =
  fd_detected :: byte
  fd_mismatch :: byte
  fd_mode :: format_mode

definition MISMATCH_THRESHOLD :: byte where "MISMATCH_THRESHOLD = 10"

definition detector_new :: format_detector where
  "detector_new = \<lparr>fd_detected = u8_of_detected DUnknown, fd_mismatch = 0, fd_mode = FmAuto\<rparr>"

definition detector_with_mode :: "format_mode \<Rightarrow> format_detector" where
  "detector_with_mode m = \<lparr>fd_detected = u8_of_detected (case m of FmAuto \<Rightarrow> DUnknown | ForceJson \<Rightarrow> DJson | ForceMessagePack \<Rightarrow> DMessagePack),
     fd_mismatch = 0, fd_mode = m\<rparr>"

definition detector_format :: "format_detector \<Rightarrow> detected_format" where
  "detector_format d = detected_of_u8 (fd_detected d)"

definition check_and_detect :: "bytes \<Rightarrow> format_detector \<Rightarrow> (detected_format, detected_format) result \<times> format_detector" where
  "check_and_detect p d = (let detected = detect_format_bytes p in
     case fd_mode d of
       ForceJson \<Rightarrow> (if detected = Some DJson then Ok DJson else Err DJson, d)
     | ForceMessagePack \<Rightarrow> (if detected = Some DMessagePack then Ok DMessagePack else Err DMessagePack, d)
     | FmAuto \<Rightarrow> (case detected of
         None \<Rightarrow> (Err DUnknown, d)
       | Some actual \<Rightarrow> (let current = detector_format d in
           if current = DUnknown then (Ok actual, d\<lparr>fd_detected := u8_of_detected actual, fd_mismatch := 0\<rparr>)
           else if current = actual then (Ok actual, d\<lparr>fd_mismatch := 0\<rparr>)
           else (let count = fd_mismatch d; d = d\<lparr>fd_mismatch := count + 1\<rparr> in
             if MISMATCH_THRESHOLD \<le> count then (Ok actual, d\<lparr>fd_detected := u8_of_detected actual, fd_mismatch := 0\<rparr>)
             else (Err current, d)))))"

definition detector_reset :: "format_detector \<Rightarrow> format_detector" where
  "detector_reset d = (if fd_mode d = FmAuto then d\<lparr>fd_detected := u8_of_detected DUnknown, fd_mismatch := 0\<rparr> else d)"

section \<open>Agreement with the stateless test\<close>

text \<open>\<open>PayloadFormat::detect\<close> calls everything that is not MessagePack JSON; the detector calls JSON only what starts
  like a JSON object or array.\<close>

lemma first_after_space_json: "first_after_space bs = Some f \<Longrightarrow> f = DJson"
  by (induction bs) (auto split: if_splits)

lemma detectors_agree:
  "detect_format_bytes p = Some DMessagePack \<longleftrightarrow> detect p = MsgPack"
  by (cases p) (auto simp: detect_format_bytes_def msgpack_lead_def ascii_whitespace_def dest: first_after_space_json)

lemma detect_never_unknown: "detect_format_bytes p \<noteq> Some DUnknown"
  by (cases p) (auto simp: detect_format_bytes_def dest: first_after_space_json)

section \<open>When the lock gives way\<close>

fun detector_run :: "bytes list \<Rightarrow> format_detector \<Rightarrow> format_detector" where
  "detector_run [] d = d"
| "detector_run (p # ps) d = detector_run ps (snd (check_and_detect p d))"

definition recognised :: "bytes list \<Rightarrow> detected_format list" where
  "recognised ps = List.map_filter detect_format_bytes ps"

lemma recognised_snoc: "recognised (ps @ [p]) = recognised ps @ (case detect_format_bytes p of None \<Rightarrow> [] | Some f \<Rightarrow> [f])"
  by (simp add: recognised_def List.map_filter_def split: option.split)

lemma detector_run_snoc: "detector_run (ps @ [p]) d = snd (check_and_detect p (detector_run ps d))"
  by (induction ps arbitrary: d) simp_all

text \<open>In automatic mode: nothing recognised and no lock, or the counter says how many payloads of the other format are the
  end of the history.\<close>

definition lock_inv :: "detected_format list \<Rightarrow> format_detector \<Rightarrow> bool" where
  "lock_inv h d = (fd_mode d = FmAuto \<and> fd_mismatch d \<le> MISMATCH_THRESHOLD \<and>
     (if detector_format d = DUnknown then h = [] \<and> fd_mismatch d = 0
      else \<exists>us vs. h = us @ vs \<and> length vs = unat (fd_mismatch d) \<and> detector_format d \<notin> set vs))"

lemma lock_inv_step:
  assumes "lock_inv h d"
  shows "lock_inv (h @ (case detect_format_bytes p of None \<Rightarrow> [] | Some f \<Rightarrow> [f])) (snd (check_and_detect p d))"
proof (cases "detect_format_bytes p")
  case None
  then show ?thesis using assms by (simp add: check_and_detect_def lock_inv_def)
next
  case (Some f)
  have f: "f \<noteq> DUnknown" using detect_never_unknown[of p] Some by auto
  have a: "fd_mode d = FmAuto" using assms by (simp add: lock_inv_def)
  show ?thesis
  proof (cases "detector_format d = DUnknown \<or> detector_format d = f \<or> MISMATCH_THRESHOLD \<le> fd_mismatch d")
    case True
    then have "detector_format (snd (check_and_detect p d)) = f \<and> fd_mode (snd (check_and_detect p d)) = FmAuto
        \<and> fd_mismatch (snd (check_and_detect p d)) = 0"
      using a Some by (auto simp: check_and_detect_def Let_def detector_format_def)
    moreover have "\<exists>us vs. h @ [f] = us @ vs \<and> length vs = 0 \<and> f \<notin> set vs" by force
    ultimately show ?thesis using f Some unfolding lock_inv_def by (simp add: MISMATCH_THRESHOLD_def)
  next
    case False
    then have c: "fd_mismatch d < MISMATCH_THRESHOLD" by auto
    then have n: "unat (fd_mismatch d + 1) = Suc (unat (fd_mismatch d))" "fd_mismatch d + 1 \<le> MISMATCH_THRESHOLD"
      by (simp_all add: MISMATCH_THRESHOLD_def word_less_nat_alt word_le_nat_alt unat_word_ariths)
    have s: "snd (check_and_detect p d) = d\<lparr>fd_mismatch := fd_mismatch d + 1\<rparr>"
      using False a Some by (simp add: check_and_detect_def Let_def)
    obtain us vs where h: "h = us @ vs" "length vs = unat (fd_mismatch d)" "detector_format d \<notin> set vs"
      using assms False by (auto simp: lock_inv_def)
    have "h @ [f] = us @ (vs @ [f])" "length (vs @ [f]) = unat (fd_mismatch d + 1)" "detector_format d \<notin> set (vs @ [f])"
      using h n(1) False by auto
    then have e: "\<exists>us vs. h @ [f] = us @ vs \<and> length vs = unat (fd_mismatch d + 1) \<and> detector_format d \<notin> set vs" by blast
    have k: "detector_format (snd (check_and_detect p d)) = detector_format d" by (simp add: s detector_format_def)
    show ?thesis unfolding lock_inv_def k using a n(2) False Some e by (simp add: s)
  qed
qed

lemma lock_inv_run: "lock_inv (recognised ps) (detector_run ps detector_new)"
proof (induction ps rule: rev_induct)
  case Nil
  then show ?case by (simp add: lock_inv_def detector_new_def recognised_def List.map_filter_def detector_format_def MISMATCH_THRESHOLD_def)
next
  case (snoc p ps)
  then show ?case using lock_inv_step[of "recognised ps" _ p] by (simp add: recognised_snoc detector_run_snoc)
qed

text \<open>The detector's lock is sound: after any history of payloads, a payload is accepted only under its own format; and when it
  is accepted although the detector was locked to another format, the ten recognisable payloads before it all had the new format too.\<close>

theorem detector_lock_sound:
  assumes "fst (check_and_detect p (detector_run ps detector_new)) = Ok g"
  shows "detect_format_bytes p = Some g \<and>
    (detector_format (detector_run ps detector_new) \<in> {DUnknown, g}
     \<or> (\<exists>us. recognised ps = us @ replicate 10 g))"
proof -
  let ?d = "detector_run ps detector_new"
  have a: "fd_mode ?d = FmAuto" using lock_inv_run[of ps] by (simp add: lock_inv_def)
  have g: "detect_format_bytes p = Some g"
    using assms a by (auto simp: check_and_detect_def Let_def split: option.splits if_splits)
  have "\<exists>us. recognised ps = us @ replicate 10 g" if u: "detector_format ?d \<notin> {DUnknown, g}"
  proof -
    have "MISMATCH_THRESHOLD \<le> fd_mismatch ?d" using assms a g u by (auto simp: check_and_detect_def Let_def split: if_splits)
    then have "fd_mismatch ?d = 10" using lock_inv_run[of ps] by (simp add: lock_inv_def MISMATCH_THRESHOLD_def)
    then obtain us vs where h: "recognised ps = us @ vs" "length vs = 10" "detector_format ?d \<notin> set vs"
      using lock_inv_run[of ps] u by (auto simp: lock_inv_def)
    have "set vs \<subseteq> {g}"
    proof
      fix f assume f: "f \<in> set vs"
      then have "f \<in> set (recognised ps)" using h(1) by simp
      then have "f \<noteq> DUnknown" using detect_never_unknown by (auto simp: recognised_def List.map_filter_def)
      moreover have "g \<noteq> DUnknown" using g detect_never_unknown[of p] by auto
      ultimately show "f \<in> {g}" using f h(3) u by (cases f; cases g; cases "detector_format ?d") auto
    qed
    then have "vs = replicate 10 g" using h(2) by (intro replicate_eqI) auto
    then show ?thesis using h(1) by blast
  qed
  then show ?thesis using g by blast
qed

definition format_change :: "bytes list" where
  "format_change = [[0x7b], [0x81], [0x81], [0x81], [0x81], [0x81], [0x81], [0x81], [0x81], [0x81], [0x81]]"

theorem detector_lock_sound_witness: "\<exists>us. recognised format_change = us @ replicate 10 DMessagePack"
proof -
  have d: "detector_run format_change detector_new = \<lparr>fd_detected = 1, fd_mismatch = 10, fd_mode = FmAuto\<rparr>"
    by code_simp
  have "fst (check_and_detect [0x81] (detector_run format_change detector_new)) = Ok DMessagePack"
    unfolding d by (simp add: check_and_detect_def detect_format_bytes_def detector_format_def detected_of_u8_def MISMATCH_THRESHOLD_def)
  from detector_lock_sound[OF this] show ?thesis by (simp add: d detector_format_def detected_of_u8_def)
qed

end
