(* ===== verification/Expression.thy ===== *)
theory Expression
  imports Vector_Compat Filter_Engine
begin

text \<open>
  Expressions: the profile check that scans a CEL expression for calls of restricted functions
  (\<open>src/expression/profile.rs\<close>) and the compile, validate and evaluate wrappers (\<open>src/expression/evaluator.rs\<close>). The CEL
  crate is an argument: its compiler, its interpreter. An expression is the string of its bytes.
\<close>

section \<open>The profile\<close>

record profile_config =
  pc_allow_regex :: bool
  pc_allow_iteration :: bool
  pc_allow_time :: bool

definition profile_config_default :: profile_config where
  "profile_config_default = \<lparr>pc_allow_regex = False, pc_allow_iteration = False, pc_allow_time = False\<rparr>"

definition RESTRICTED_REGEX :: "string list" where "RESTRICTED_REGEX = [''matches'']"
definition RESTRICTED_ITERATION :: "string list" where "RESTRICTED_ITERATION = [''map'', ''filter'', ''exists'', ''all'', ''exists_one'']"
definition RESTRICTED_TIME :: "string list" where "RESTRICTED_TIME = [''timestamp'', ''duration'']"

definition blocked_functions :: "profile_config \<Rightarrow> string list" where
  "blocked_functions c = (if pc_allow_regex c then [] else RESTRICTED_REGEX) @ (if pc_allow_iteration c then [] else RESTRICTED_ITERATION)
     @ (if pc_allow_time c then [] else RESTRICTED_TIME)"

definition SKIP_NAMES :: "string list" where
  "SKIP_NAMES = [''true'', ''false'', ''null'', ''in'', ''has'', ''int'', ''uint'', ''double'', ''string'', ''bool'']"

definition ident_start :: "char \<Rightarrow> bool" where
  "ident_start c = (let n = of_char c :: nat in 65 \<le> n \<and> n \<le> 90 \<or> 97 \<le> n \<and> n \<le> 122 \<or> n = 95)"

definition ident_digit :: "char \<Rightarrow> bool" where
  "ident_digit c = (let n = of_char c :: nat in 48 \<le> n \<and> n \<le> 57)"

definition ident_char :: "char \<Rightarrow> bool" where
  "ident_char c = (ident_start c \<or> ident_digit c)"

definition is_quote :: "char \<Rightarrow> bool" where
  "is_quote c = (c = CHR 0x22 \<or> c = CHR 0x27)"

text \<open>What is left after the literal that was opened by the quote: \<open>skip_string_literal\<close>.\<close>

fun skip_string_literal :: "char \<Rightarrow> string \<Rightarrow> string" where
  "skip_string_literal q [] = []"
| "skip_string_literal q [c] = []"
| "skip_string_literal q (c # d # ds) = (if c = CHR 0x5c then skip_string_literal q ds
     else if c = q then d # ds else skip_string_literal q (d # ds))"

lemma skip_length: "length (skip_string_literal q s) \<le> length s"
proof (induction q s rule: skip_string_literal.induct)
  case (3 q c d ds)
  then show ?case by (cases "c = CHR 0x5c"; cases "c = q") simp_all
qed simp_all

definition restriction_reason :: "string \<Rightarrow> string" where
  "restriction_reason n =
     (if n = ''matches'' then ''Regex has unbounded cost per record. Use contains()/startsWith()/endsWith() instead, or set allow_regex: true in expression config.''
      else if n \<in> set RESTRICTED_ITERATION then ''Per-element iteration has O(n) cost proportional to collection size. Set allow_iteration: true in expression config to permit.''
      else if n \<in> set RESTRICTED_TIME then ''Time functions excluded -- ClickHouse handles time natively. Set allow_time: true in expression config to permit.''
      else ''Restricted by DFE expression profile.'')"

definition profile_error :: "string \<Rightarrow> string" where
  "profile_error n = ''Function '' @ [CHR 0x27] @ n @ ''()'' @ [CHR 0x27] @ '' is not allowed in the DFE expression profile. '' @ restriction_reason n"

definition calls_paren :: "string \<Rightarrow> bool" where
  "calls_paren s = (case dropWhile (\<lambda>c. c = CHR '' '') s of c # _ \<Rightarrow> c = CHR ''('' | [] \<Rightarrow> False)"

text \<open>The scanning loop, over what is left of the expression; the result names the blocked calls in order.\<close>

function blocked_calls :: "string list \<Rightarrow> string \<Rightarrow> string list" where
  "blocked_calls blocked s = (case s of
     [] \<Rightarrow> []
   | c # cs \<Rightarrow>
       if is_quote c then blocked_calls blocked (skip_string_literal c cs)
       else if \<not> ident_start c then blocked_calls blocked cs
       else (let name = takeWhile ident_char s; rest = dropWhile ident_char s in
         (if calls_paren rest \<and> name \<notin> set SKIP_NAMES \<and> name \<in> set blocked then [name] else []) @ blocked_calls blocked rest))"
  by auto
termination
proof (relation "measure (length \<circ> snd)", goal_cases)
  case 1
  then show ?case by simp
next
  case (2 blocked s c cs)
  then show ?case using skip_length[of c cs] by simp
next
  case (3 blocked s c cs)
  then show ?case by simp
next
  case (4 blocked s c cs name rest)
  then show ?case using length_dropWhile_le[of ident_char cs] by (simp add: ident_char_def)
qed

declare blocked_calls.simps [simp del]

definition check_profile_with_config :: "string \<Rightarrow> profile_config \<Rightarrow> string list" where
  "check_profile_with_config expr c = (let blocked = blocked_functions c in
     if blocked = [] then [] else map profile_error (blocked_calls blocked expr))"

definition check_profile :: "string \<Rightarrow> string list" where
  "check_profile expr = check_profile_with_config expr profile_config_default"

section \<open>What the scanner finds\<close>



















lemma blocked_Nil [simp]: "blocked_calls blocked [] = []"
  by (simp add: blocked_calls.simps)














text \<open>The grammar is narrower than CEL's: a tab between the name and the parenthesis hides the call, and so does a raw string
  that ends in a backslash, which the scanner reads as an escaped quote.\<close>

lemma tab_hides_call: "check_profile (''tags.map'' @ [CHR 0x09] @ ''(t, t)'') = []"
  by (simp add: check_profile_def check_profile_with_config_def blocked_functions_def profile_config_default_def RESTRICTED_REGEX_def RESTRICTED_ITERATION_def
      RESTRICTED_TIME_def blocked_calls.simps is_quote_def ident_start_def ident_char_def ident_digit_def calls_paren_def SKIP_NAMES_def)

lemma raw_string_hides_call: "check_profile ([CHR 0x72, CHR 0x22, CHR 0x5c, CHR 0x22] @ '' == a || b.matches(c)'') = []"
  by (simp add: check_profile_def check_profile_with_config_def blocked_functions_def profile_config_default_def RESTRICTED_REGEX_def RESTRICTED_ITERATION_def
      RESTRICTED_TIME_def blocked_calls.simps is_quote_def ident_start_def ident_char_def ident_digit_def calls_paren_def SKIP_NAMES_def)

section \<open>Compile and evaluate\<close>

datatype expression_error = Validation "string list" | Compilation string | Evaluation string

datatype cel_value = CvNull | CvBool bool | CvInt int | CvUInt u64 | CvFloat f64 | CvString utf8 | CvList "cel_value list" | CvMap "(utf8 \<times> cel_value) list"
  | CvOther

text \<open>The CEL crate: the compiler, and what a program makes of a context.\<close>

record 'p cel_lib =
  cl_compile :: "string \<Rightarrow> ('p, string) result"
  cl_execute :: "'p \<Rightarrow> (utf8 \<times> cel_value) list \<Rightarrow> (cel_value, string) result"

definition validate_with_config :: "'p cel_lib \<Rightarrow> string \<Rightarrow> profile_config \<Rightarrow> string list" where
  "validate_with_config L expr c = (if trim_str expr = [] then [''Expression is empty'']
     else (let errs = check_profile_with_config expr c in if errs \<noteq> [] then errs
       else (case cl_compile L expr of Inr _ \<Rightarrow> [] | Inl e \<Rightarrow> [e])))"

definition compile_with_config :: "'p cel_lib \<Rightarrow> string \<Rightarrow> profile_config \<Rightarrow> ('p, expression_error) result" where
  "compile_with_config L expr c = (let errs = validate_with_config L expr c in
     if errs \<noteq> [] then Err (Validation errs)
     else (case cl_compile L expr of Inr p \<Rightarrow> Ok p | Inl e \<Rightarrow> Err (Compilation e)))"

fun json_to_cel :: "jvalue \<Rightarrow> cel_value" where
  "json_to_cel JvNull = CvNull"
| "json_to_cel (JvBool b) = CvBool b"
| "json_to_cel (JvNum n) = (case as_i64 n of Some i \<Rightarrow> CvInt i | None \<Rightarrow> (case n of NPos u \<Rightarrow> CvUInt u | _ \<Rightarrow> CvFloat (as_f64 n)))"
| "json_to_cel (JvStr s) = CvString s"
| "json_to_cel (JvArr vs) = CvList (map json_to_cel vs)"
| "json_to_cel (JvObj kvs) = CvMap (map (\<lambda>(k, v). (k, json_to_cel v)) kvs)"

definition expr_context :: "(utf8 \<times> jvalue) list \<Rightarrow> (utf8 \<times> cel_value) list" where
  "expr_context kvs = map (\<lambda>(k, v). (k, json_to_cel v)) kvs"

definition expr_evaluate :: "'p cel_lib \<Rightarrow> profile_config \<Rightarrow> string \<Rightarrow> (utf8 \<times> jvalue) list \<Rightarrow> (cel_value, expression_error) result" where
  "expr_evaluate L c expr kvs = (case compile_with_config L expr c of
     Inl e \<Rightarrow> Err e
   | Inr p \<Rightarrow> (case cl_execute L p (expr_context kvs) of Inr v \<Rightarrow> Ok v | Inl e \<Rightarrow> Err (Evaluation e)))"

definition evaluate_condition :: "'p cel_lib \<Rightarrow> profile_config \<Rightarrow> string \<Rightarrow> (utf8 \<times> jvalue) list \<Rightarrow> bool" where
  "evaluate_condition L c expr kvs = (case expr_evaluate L c expr kvs of
     Inr (CvBool b) \<Rightarrow> b
   | Inr (CvInt n) \<Rightarrow> n \<noteq> 0
   | Inr (CvUInt n) \<Rightarrow> n \<noteq> 0
   | Inr (CvFloat f) \<Rightarrow> f \<noteq> Fin 0
   | _ \<Rightarrow> False)"

text \<open>The cached profile (\<open>get_profile_config\<close>): the first call decides, from the cascade if it has an \<open>expression\<close> section then.\<close>

definition profile_get :: "profile_config option \<Rightarrow> profile_config option \<Rightarrow> profile_config \<times> profile_config option" where
  "profile_get cell cascade = (case cell of Some c \<Rightarrow> (c, Some c)
     | None \<Rightarrow> (let c = (case cascade of Some c \<Rightarrow> c | None \<Rightarrow> profile_config_default) in (c, Some c)))"

text \<open>A syntax error is always reported as a validation error: the variant documented for it is unreachable.\<close>

lemma compilation_unreachable: "compile_with_config L expr c \<noteq> Err (Compilation e)"
  by (auto simp: compile_with_config_def validate_with_config_def Let_def split: sum.splits if_splits)

text \<open>A compiled program passed the profile, and a condition is never true of an expression that did not compile.\<close>

theorem compiled_passes_profile:
  "compile_with_config L expr c = Ok p \<Longrightarrow> check_profile_with_config expr c = [] \<and> cl_compile L expr = Ok p"
  by (auto simp: compile_with_config_def validate_with_config_def Let_def split: sum.splits if_splits)

lemma condition_needs_program: "evaluate_condition L c expr kvs \<Longrightarrow> validate_with_config L expr c = []"
  by (auto simp: evaluate_condition_def expr_evaluate_def compile_with_config_def Let_def split: sum.splits if_splits)

text \<open>A process that evaluates an expression before its configuration is loaded keeps the default profile for good.\<close>

lemma early_profile_sticks: "fst (profile_get (snd (profile_get None None)) cascade) = profile_config_default"
  by (simp add: profile_get_def)

end
