(* ===== verification/Spec2Isabelle.thy ===== *)
theory Spec2Isabelle
  imports Filter_Engine Tiered_Sink Governed_Driver Dead_Letter Routing Topic_Resolver Accumulator Worker_Pool Scaling
    Secrets Str_Match Redaction Directory_Store Stream_Transports Vector_Compat Kafka_Config
    Hot_Reload Background_Tasks Format_Detect Expression
begin

text \<open>
  A verification development for \<open>hyperi-rustlib\<close>, a Rust library for data-pipeline services.

  \<^bold>\<open>The program.\<close> A service receives blocks of messages from a transport (\<open>src/transport/\<close>),
  filters them, hands them as a \<open>WorkBatch\<close> to the batch engine (\<open>src/worker/engine/\<close>), which
  parses and transforms them, sends the result to a sink, routes failures to a dead letter
  queue (\<open>src/dlq/\<close>) and, after the sink has accepted a block, commits the block's tokens to
  the source. Around that loop stand a memory guard (\<open>src/memory/\<close>), a governor that bounds
  what is polled (\<open>src/governor/\<close>), a sink that spills to a disk queue behind a circuit breaker
  (\<open>src/tiered_sink/\<close>, \<open>src/spool/\<close>), a fire-and-forget sink (\<open>src/concurrency/sink.rs\<close>), a worker
  pool with a scaler (\<open>src/worker/\<close>), the autoscaling pressure (\<open>src/scaling/\<close>), a secret cache
  (\<open>src/secrets/\<close>), a string matcher (\<open>src/strmatch/\<close>), the redaction of log lines and of the
  configuration dump (\<open>src/logger/masking.rs\<close>, \<open>src/config/\<close>) and a store of YAML tables in a
  directory (\<open>src/directory_config/\<close>).

  \<^bold>\<open>How the code is modelled.\<close> A struct is a record, an enum a datatype, a method a function from
  the old state (and what it reads of the outside: clock, file system answers, the poll of a
  channel) to the new state and the result. \<open>u8\<close>, \<open>u32\<close>, \<open>u64\<close> and, where an overflow is
  possible, \<open>usize\<close> are words and wrap; \<open>f64\<close> is binary64 with rounding (theory F64). \<open>Result\<close> is
  a sum, with \<open>Err\<close>/\<open>Ok\<close> for its sides. A loop is structural recursion or has a measure; a loop
  whose turns the outside decides (a \<open>select!\<close>, a run loop, an actor) consumes a list of
  events, one per turn, so a theorem about every list of events is one about every
  schedule. Where threads race on atomics or a lock (memory guard, spool reservations,
  concurrency limiter, ingest handlers, the in-memory transport, configuration updates) the grain is one atomic operation
  or one critical section, a sequential operation is composed from the same parts, and the interleaving is a step relation. Third-party crates (rdkafka, yaque, zstd, sonic-rs, rmpv, cel, regex,
  aho-corasick, AES-GCM, rayon) are records of functions; what a theorem uses of them is a
  named hypothesis (\<open>yaque_spec\<close>, \<open>zstd_spec\<close>, \<open>codecs_spec\<close>, \<open>memchr_iter_spec\<close>, \<open>find_iter_spec\<close>,
  \<open>rayon_ordered\<close>, \<open>search_ok\<close>, \<open>utf8_ok\<close>, \<open>lib_laws\<close>, \<open>yaml_spec\<close>, \<open>redis_spec\<close>), and its witness instantiates them.

  \<^bold>\<open>Theories.\<close>
  \<^item> \<open>Prelude\<close>: machine types, results, saturating arithmetic, list lemmas. \<open>F64\<close>: binary64;
    rounding is monotone and leaves representable numbers alone.
  \<^item> \<open>Work_Batch\<close> (\<open>transport/{types,traits,work_batch}.rs\<close>): messages, records, batches, and the
    framing of NDJSON and JSON arrays by byte offsets, shown equal to list-level descriptions.
  \<^item> \<open>Filter_Engine\<close> (\<open>transport/filter/\<close>): classification of expressions into tiers, budgets and gates,
    the byte-level structural search, first match wins, and the partition of a batch, which
    keeps every ack exactly once.
  \<^item> \<open>Memory_Guard\<close> (\<open>memory/\<close>): reservation, release, pressure and limit detection; the sum of
    concurrent reservations stays within the limit under every interleaving.
  \<^item> \<open>Batch_Engine\<close> (\<open>worker/engine/{mod,config,pre_route,parse,intern}.rs\<close>, \<open>parse_guard.rs\<close>,
    \<open>worker/stats.rs\<close>): the parallel mid tier equals a per-record function; the depth guard is exact.
  \<^item> \<open>Engine_Driver\<close> (\<open>worker/engine/driver.rs\<close>, \<open>transport/codec.rs\<close>) and \<open>Governed_Driver\<close> (\<open>run_governed\<close>):
    whole-block, streaming and governed run loops. What is committed is a prefix of what was
    received, every committed block was sunk and its failures routed before, leases balance, and
    streaming delivers what the whole-block driver delivers within its byte bound.
  \<^item> \<open>Governor\<close> (\<open>governor/\<close>): pressure latch with hysteresis, the gate and the additive-increase,
    multiplicative-decrease byte budget, which never leaves its envelope.
  \<^item> \<open>Circuit_Breaker\<close>, \<open>Spool_Queue\<close>, \<open>Tiered_Sink\<close> (\<open>tiered_sink/\<close>, \<open>spool/\<close>): the spool refines an abstract
    FIFO; the tiered sink refines an abstract two-tier log: strict order, accounting of every
    accepted message, exact spool counters, and a drain that empties the spool.
  \<^item> \<open>Background_Sink\<close> (\<open>concurrency/sink.rs\<close>) and \<open>Dead_Letter\<close> (\<open>dlq/\<close>, \<open>io/ndjson_writer.rs\<close>): the actor behind
    a bounded channel, its flush barrier and shutdown, and the dead letter queue on top of it.
  \<^item> \<open>Kafka_Producer\<close>, \<open>Kafka_Transport\<close>, \<open>Topic_Resolver\<close> (\<open>transport/kafka/\<close>, \<open>transport/error.rs\<close>): receive
    from the arena (exactly what the client was polled for, in what it has left behind), commits, the exact watermark that
    the run loop over this transport leaves on a broker that stores what it is sent, topic discovery and its refresh.
  \<^item> \<open>Memory_Transport\<close>, \<open>File_Transport\<close>, \<open>Routing\<close> (\<open>transport/{traits,memory,file,routed,factory}.rs\<close>): the
    sender contract, two transports that keep it, the sender that routes to others, and the
    factory's type-erased dispatch.
  \<^item> \<open>Push_Transports\<close> (\<open>transport/grpc/\<close>, \<open>transport/http.rs\<close>): handlers that interleave over a bounded channel; a
    request is admitted as a whole or not at all, and a block sent over gRPC is atomic end to end.
    \<open>Stream_Transports\<close> (\<open>transport/{pipe,redis_transport}.rs\<close>): lines that arrive in pieces, and what a consumer
    group of Redis Streams is handed (each entry at most once: less than the documentation promises). \<open>Format_Detect\<close> (\<open>transport/detect.rs\<close>):
    the detector that locks to a payload format. \<open>Vector_Compat\<close> (\<open>transport/vector_compat/\<close>): value conversions that round-trip.
  \<^item> \<open>Kafka_Config\<close> (\<open>transport/kafka/config.rs\<close>, \<open>kafka_config.rs\<close>, \<open>config/env_compat.rs\<close>): how profiles, knobs and raw
    maps become client settings; a production client is encrypted and verified, and never commits on its own, unless a raw
    map says so; a properties file reads back.
  \<^item> \<open>Accumulator\<close> (\<open>worker/{accumulator,ndjson}.rs\<close>), \<open>Worker_Pool\<close> (\<open>worker/{pool,scaler,config}.rs\<close>): batches by
    count, bytes and a fixed deadline; the concurrency limiter, the scaler, the fan-outs.
  \<^item> \<open>Scaling\<close> (\<open>scaling/\<close>): composite pressure, rate window, transport ratios, expression engine.
  \<^item> \<open>Secrets\<close> (\<open>secrets/{cache,crypto,types,mod}.rs\<close>): two-tier cache and manager.
  \<^item> \<open>Str_Match\<close> (\<open>strmatch/\<close>): classifier and plans against the meaning of the parsed expression, and
    the merged pattern set.
  \<^item> \<open>Redaction\<close> (\<open>logger/masking.rs\<close>, \<open>config/{registry,sensitive}.rs\<close>): the log writer and the configuration
    registry; what stands at a sensitive key does not influence what is written.
  \<^item> \<open>Expression\<close> (\<open>expression/\<close>): the profile scanner, exact for the calls it looks for, and the evaluation of conditions.
  \<^item> \<open>Hot_Reload\<close> (\<open>config/{shared,reloader}.rs\<close>): the shared configuration and the reloader's loop; what subscribers see is the
    initial configuration with the accepted ones applied in order. \<open>Background_Tasks\<close> (\<open>concurrency/{actor,periodic}.rs\<close>,
    \<open>shutdown.rs\<close>, \<open>health/registry.rs\<close>): actor, periodic worker, shutdown token, health registry.
  \<^item> \<open>Directory_Store\<close> (\<open>directory_config/\<close>): path checks, dotted keys, set, get, delete and refresh over an
    explicit disk; a set is read back, and a table name never leaves the directory.

  \<^bold>\<open>Interfaces.\<close> Locales state what one component promises another and are interpreted on the
  model: \<open>breaker\<close> (circuit breaker), \<open>ledger\<close> (memory guard), \<open>block_driver\<close> (both block drivers; the
  run-loop theorems are proved once in it), \<open>accounting_drain\<close> (a background sink's drain;
  interpreted by the dead letter queue), \<open>transport_sender\<close> (the send contract; interpreted by the
  memory transport, over it by the routed sender, and by gRPC and HTTP client and server together), \<open>retrying_sender\<close>
  (a caller that repeats a refused block; interpreted by the routed sender), \<open>shutdown_once\<close> (actor and periodic worker).

  \<^bold>\<open>Bounds and fuel.\<close> There is no fuel in a theorem about termination: the chunk splitters and
  scanners have measures, and \<open>chunks_fuel\<close> is called with the list's length, which is proved to
  be enough. Counters that can wrap have the bound under which they do not as a hypothesis
  (fewer than \<open>2^64\<close> events) or the theorem is stated with the wrap.

  \<^bold>\<open>Not modelled.\<close> Clients and servers that only call a crate (HTTP server and client, TLS, Vault and AWS providers, PostgreSQL configuration),
  metrics, tracing and log text, deployment generators (text templates), the command line
  and dashboards, the configuration cascade (figment over the process environment), the generic
  cache (moka). They keep no state of their own that the modelled parts rely on.
\<close>

end
